(* ===== verification/Prelude.thy ===== *)
theory Prelude
  imports Main "HOL-Library.Word" "HOL-Library.Monad_Syntax" "HOL-Library.Multiset"
begin

text \<open>
  Shared vocabulary of the development: the machine integers of the x86-64 target, the
  conventions for values that C code returns, the page geometry of
  \<^verbatim>\<open>kernel/include/comus/memory.h\<close>, the error codes of
  \<^verbatim>\<open>kernel/include/comus/error.h\<close>, null-terminated pointer chains (the shape of every
  linked list of the kernel) and the list, option and word lemmas the components share.

  Conventions. An operation that may fail to come back (a failed \<^verbatim>\<open>assert\<close>, a call of
  \<^verbatim>\<open>panic\<close>, whose \<^verbatim>\<open>fatal_loop\<close> never ends, a loop that runs forever, or an access
  outside the object it is made through) returns an \<^typ>\<open>'a option\<close>, and \<open>None\<close> is
  that outcome. Error codes that C returns stay values of type \<^typ>\<open>int\<close>. A pointer that may be
  \<^verbatim>\<open>NULL\<close> is either an option of an index (pointers to structures of the kernel) or a 64-bit
  word with \<open>0\<close> for \<^verbatim>\<open>NULL\<close> (addresses).
\<close>

unbundle bit_operations_syntax

type_synonym u8 = "8 word"
type_synonym u16 = "16 word"
type_synonym u32 = "32 word"
type_synonym u64 = "64 word"

named_theorems chain_simps \<open>rewriting pointer chains under updates of the link field\<close>
named_theorems bits \<open>reading a bit of a machine word after a write\<close>
named_theorems frame \<open>what an operation leaves alone\<close>

section \<open>Constants\<close>

definition PAGE_SIZE :: u64 where
  "PAGE_SIZE = 4096"

definition SUCCESS :: int where "SUCCESS = 0"
definition E_BAD_PARAM :: int where "E_BAD_PARAM = -2"
definition E_NO_MEMORY :: int where "E_NO_MEMORY = -5"
definition E_NOT_FOUND :: int where "E_NOT_FOUND = -6"
definition E_EMPTY_QUEUE :: int where "E_EMPTY_QUEUE = -100"
definition E_NO_PCBS :: int where "E_NO_PCBS = -101"

lemmas error_codes =
  SUCCESS_def E_BAD_PARAM_def E_NO_MEMORY_def E_NOT_FOUND_def E_EMPTY_QUEUE_def E_NO_PCBS_def

section \<open>Pointer chains\<close>

text \<open>
  \<open>chain nxt p xs\<close>: following the link field \<open>nxt\<close> from the pointer \<open>p\<close> visits exactly
  the cells \<open>xs\<close> and then meets the null pointer. \<open>seg nxt p xs q\<close> is the same for a
  part of a list that ends in the pointer \<open>q\<close>.
\<close>

primrec seg :: "('a \<Rightarrow> 'a option) \<Rightarrow> 'a option \<Rightarrow> 'a list \<Rightarrow> 'a option \<Rightarrow> bool" where
  "seg nxt p [] q \<longleftrightarrow> p = q"
| "seg nxt p (x # xs) q \<longleftrightarrow> p = Some x \<and> seg nxt (nxt x) xs q"

abbreviation chain :: "('a \<Rightarrow> 'a option) \<Rightarrow> 'a option \<Rightarrow> 'a list \<Rightarrow> bool" where
  "chain nxt p xs \<equiv> seg nxt p xs None"

lemma seg_append [chain_simps]:
  "seg nxt p (xs @ ys) q \<longleftrightarrow> (\<exists>r. seg nxt p xs r \<and> seg nxt r ys q)"
  by (induction xs arbitrary: p) auto

lemma seg_upd [chain_simps]: "x \<notin> set xs \<Longrightarrow> seg (nxt(x := v)) p xs q = seg nxt p xs q"
  by (induction xs arbitrary: p) auto

lemma seg_cong:
  "\<forall>x\<in>set xs. nxt' x = nxt x \<Longrightarrow> seg nxt' p xs q = seg nxt p xs q"
  by (induction xs arbitrary: p) auto

lemma chain_None [simp]: "chain nxt None xs \<longleftrightarrow> xs = []"
  by (cases xs) auto

lemma chain_Some: "chain nxt (Some x) xs \<longleftrightarrow> (\<exists>ys. xs = x # ys \<and> chain nxt (nxt x) ys)"
  by (cases xs) auto

lemma chain_unique: "chain nxt p xs \<Longrightarrow> chain nxt p ys \<Longrightarrow> xs = ys"
  by (induction xs arbitrary: p ys) (auto simp: chain_Some)

text \<open>A chain that ends in the null pointer visits no cell twice.\<close>

lemma chain_distinct: "chain nxt p xs \<Longrightarrow> distinct xs"
proof (induction xs arbitrary: p)
  case Nil
  then show ?case by simp
next
  case (Cons x xs)
  then have tail: "chain nxt (nxt x) xs" and d: "distinct xs" by auto
  have "x \<notin> set xs"
  proof
    assume "x \<in> set xs"
    then obtain us vs where xs: "xs = us @ x # vs" by (meson split_list)
    with tail have "chain nxt (nxt x) vs" by (auto simp: seg_append)
    with tail have "xs = vs" by (rule chain_unique)
    with xs show False by (metis append_is_Nil_conv append_Cons not_Cons_self2 self_append_conv2
          append.assoc)
  qed
  with d show ?case by simp
qed

lemma chain_hd: "chain nxt p xs \<Longrightarrow> xs \<noteq> [] \<Longrightarrow> p = Some (hd xs)"
  by (cases xs) auto

lemma chain_last: "chain nxt p xs \<Longrightarrow> xs \<noteq> [] \<Longrightarrow> nxt (last xs) = None"
  by (induction xs arbitrary: p) auto

lemma chain_split:
  assumes "chain nxt p (us @ x # vs)"
  shows "seg nxt p us (Some x)" "chain nxt (nxt x) vs"
    "nxt x = (case vs of [] \<Rightarrow> None | v # _ \<Rightarrow> Some v)"
  using assms by (auto simp: seg_append split: list.splits)

text \<open>Linking a fresh cell in at the front, behind a cell, and unlinking a cell.\<close>

lemma chain_push:
  "chain nxt p zs \<Longrightarrow> x \<notin> set zs \<Longrightarrow> chain (nxt(x := p)) (Some x) (x # zs)"
  by (simp add: seg_upd)

lemma chain_link_after:
  assumes "chain nxt p (us @ r # zs)" "x \<notin> set (us @ r # zs)"
  shows "chain (nxt(x := nxt r, r := Some x)) p (us @ r # x # zs)"
proof -
  from assms(1) have "distinct (us @ r # zs)" by (rule chain_distinct)
  with assms(2) have "r \<notin> set us" "r \<notin> set zs" "x \<notin> set us" "x \<notin> set zs" "x \<noteq> r" by auto
  with assms(1) show ?thesis by (auto simp: chain_simps fun_upd_twist [of r])
qed

lemma chain_pop:
  "chain nxt p (x # vs) \<Longrightarrow> chain (nxt(x := None)) (nxt x) vs"
  using chain_distinct [of nxt p "x # vs"] by (simp add: seg_upd)

lemma chain_unlink_after:
  assumes "chain nxt p (us @ r # x # vs)"
  shows "chain (nxt(r := nxt x, x := None)) p (us @ r # vs)"
proof -
  from assms have "distinct (us @ r # x # vs)" by (rule chain_distinct)
  then have "r \<notin> set us" "r \<notin> set vs" "x \<notin> set us" "x \<notin> set vs" "x \<noteq> r" by auto
  with assms show ?thesis by (auto simp: chain_simps)
qed

section \<open>Lists\<close>

text \<open>The position of an element that a queue inserts: after every element of smaller or
  equal key that precedes the first larger one.\<close>

definition insert_after :: "('a \<Rightarrow> nat) \<Rightarrow> 'a \<Rightarrow> 'a list \<Rightarrow> 'a list" where
  "insert_after key x xs =
     takeWhile (\<lambda>y. key y \<le> key x) xs @ x # dropWhile (\<lambda>y. key y \<le> key x) xs"

lemma mset_insert_after [simp]: "mset (insert_after key x xs) = add_mset x (mset xs)"
proof -
  have "mset (insert_after key x xs) =
      add_mset x (mset (takeWhile (\<lambda>y. key y \<le> key x) xs @ dropWhile (\<lambda>y. key y \<le> key x) xs))"
    unfolding insert_after_def mset_append mset.simps by simp
  then show ?thesis by (simp only: takeWhile_dropWhile_id)
qed

lemma set_insert_after [simp]: "set (insert_after key x xs) = insert x (set xs)"
  by (metis mset_insert_after set_mset_add_mset_insert set_mset_mset)

lemma sorted_insert_after:
  "sorted (map key xs) \<Longrightarrow> sorted (map key (insert_after key x xs))"
  unfolding insert_after_def
  by (induction xs) (auto dest: set_takeWhileD set_dropWhileD)

lemma filter_insert_after:
  "sorted (map key xs) \<Longrightarrow>
   filter (\<lambda>y. key y = k) (insert_after key x xs) =
     filter (\<lambda>y. key y = k) xs @ (if key x = k then [x] else [])"
proof (induction xs)
  case Nil
  then show ?case by (simp add: insert_after_def)
next
  case (Cons y ys)
  show ?case
  proof (cases "key y \<le> key x")
    case True
    with Cons show ?thesis by (auto simp: insert_after_def)
  next
    case False
    with Cons.prems have "filter (\<lambda>z. key z = key x) (y # ys) = []"
      by (auto simp: filter_empty_conv)
    with False show ?thesis by (auto simp: insert_after_def)
  qed
qed

text \<open>Inserting one element after the other sorts them, and keeps elements of equal key in the
  order they came in.\<close>

lemma fold_insert_after_sort: "fold (insert_after key) xs [] = sort_key key xs"
proof -
  have gen: "sorted (map key ys) \<Longrightarrow>
      sorted (map key (fold (insert_after key) xs ys)) \<and>
      mset (fold (insert_after key) xs ys) = mset ys + mset xs \<and>
      (\<forall>k. filter (\<lambda>y. key y = k) (fold (insert_after key) xs ys) =
           filter (\<lambda>y. key y = k) ys @ filter (\<lambda>y. key y = k) xs)" for ys
    by (induction xs arbitrary: ys) (auto simp: sorted_insert_after filter_insert_after)
  show ?thesis
    by (rule properties_for_sort_key [symmetric]) (use gen [of "[]"] in \<open>auto simp: eq_commute\<close>)
qed

section \<open>Machine integers\<close>

lemma unat_lt64 [simp]: "unat (w :: u64) < 2 ^ 64"
  using unsigned_less [of w, where ?'a = nat] by simp

lemma unat_lt32 [simp]: "unat (w :: u32) < 2 ^ 32"
  using unsigned_less [of w, where ?'a = nat] by simp

lemma unat_of_nat64: "n < 2 ^ 64 \<Longrightarrow> unat (of_nat n :: u64) = n"
  by (simp add: unat_of_nat)

lemma unat_of_nat32: "n < 2 ^ 32 \<Longrightarrow> unat (of_nat n :: u32) = n"
  by (simp add: unat_of_nat)

lemma unat_mult_small: "unat x * unat y < 2 ^ LENGTH('a) \<Longrightarrow> unat (x * y :: 'a :: len word) = unat x * unat y"
  by (simp add: unat_word_ariths)

lemma unat_add_small: "unat x + unat y < 2 ^ LENGTH('a) \<Longrightarrow> unat (x + y :: 'a :: len word) = unat x + unat y"
  by (simp add: unat_word_ariths)

lemma unat_add_of_nat: "unat p + k < 2 ^ 64 \<Longrightarrow> unat (p + of_nat k :: u64) = unat p + k"
  using unat_add_small [of p "of_nat k"] by (simp add: unat_of_nat64)

lemma unat_of_nat_less: "j < unat (w :: 'a :: len word) \<Longrightarrow> unat (of_nat j :: 'a word) = j"
proof -
  assume "j < unat w"
  also have "unat w < 2 ^ LENGTH('a)" by (rule unsigned_less)
  finally show ?thesis by (simp add: unat_of_nat)
qed

text \<open>A signed reading of a small value is the unsigned one.\<close>

lemma sint_nonneg:
  fixes w :: "'a::len word"
  assumes "unat w < 2 ^ (LENGTH('a) - 1)"
  shows "sint w = uint w"
proof -
  have "int (unat w) < int (2 ^ (LENGTH('a) - 1))" using assms by (simp only: of_nat_less_iff)
  then have "uint w < 2 ^ (LENGTH('a) - 1)" by (simp only: uint_nat of_nat_power of_nat_numeral)
  then have "signed_take_bit (LENGTH('a) - 1) (uint w) = uint w"
    by (intro signed_take_bit_int_eq_self) (auto intro: order_trans [of _ 0])
  then show ?thesis by (simp add: sint_uint)
qed

lemma scast_int_nonneg: "unat w < 2 ^ 31 \<Longrightarrow> (scast (w :: u32) :: u64) = of_nat (unat w)"
  using sint_nonneg [of w] by (simp add: scast_eq)

lemma scast_of_nat: "k < 2 ^ 31 \<Longrightarrow> (scast (of_nat k :: u32) :: u64) = of_nat k"
  using scast_int_nonneg [of "of_nat k"] by (simp add: unat_of_nat32)

lemma sless_nonneg:
  fixes a b :: "'a::len word"
  assumes "unat a < 2 ^ (LENGTH('a) - 1)" "unat b < 2 ^ (LENGTH('a) - 1)"
  shows "a <s b \<longleftrightarrow> a < b"
  using sint_nonneg [OF assms(1)] sint_nonneg [OF assms(2)] by (simp add: word_sless_alt word_less_def)

end
