(* ===== verification/Pcb.thy ===== *)
theory Pcb
  imports Prelude
begin

text \<open>
  The process control block of \<^verbatim>\<open>kernel/include/comus/procs.h\<close> with the structures it
  embeds: the saved registers of \<^verbatim>\<open>kernel/include/comus/cpu.h\<close> and the ELF header and
  program header of \<^verbatim>\<open>kernel/include/elf.h\<close>. A pointer to a process control block is
  its index in the process table \<^verbatim>\<open>ptable\<close>, \<open>None\<close> for \<^verbatim>\<open>NULL\<close>; the table is a
  function from indices to blocks, of which the first \<open>N_PROCS\<close> are used.
\<close>

datatype proc_state =
    PROC_STATE_UNUSED
  | PROC_STATE_NEW
  | PROC_STATE_READY
  | PROC_STATE_RUNNING
  | PROC_STATE_BLOCKED
  | PROC_STATE_ZOMBIE

text \<open>A memory context: the kernel's own, or one of the \<open>N_PROCS\<close> static user contexts.\<close>

datatype mem_ctx_t = KernelCtx | UserCtx nat

record cpu_regs =
  reg_cr3 :: u64
  reg_gs :: u16
  reg_fs :: u16
  reg_es :: u16
  reg_ds :: u16
  reg_r15 :: u64
  reg_r14 :: u64
  reg_r13 :: u64
  reg_r12 :: u64
  reg_r11 :: u64
  reg_r10 :: u64
  reg_r9 :: u64
  reg_r8 :: u64
  reg_rbp :: u64
  reg_rdi :: u64
  reg_rsi :: u64
  reg_rdx :: u64
  reg_rcx :: u64
  reg_rbx :: u64
  reg_rax :: u64
  reg_rip :: u64
  reg_cs :: u64
  reg_rflags :: u64
  reg_rsp :: u64
  reg_ss :: u64

definition zero_regs :: cpu_regs where
  "zero_regs = \<lparr>reg_cr3 = 0, reg_gs = 0, reg_fs = 0, reg_es = 0, reg_ds = 0, reg_r15 = 0,
     reg_r14 = 0, reg_r13 = 0, reg_r12 = 0, reg_r11 = 0, reg_r10 = 0, reg_r9 = 0, reg_r8 = 0,
     reg_rbp = 0, reg_rdi = 0, reg_rsi = 0, reg_rdx = 0, reg_rcx = 0, reg_rbx = 0, reg_rax = 0,
     reg_rip = 0, reg_cs = 0, reg_rflags = 0, reg_rsp = 0, reg_ss = 0\<rparr>"

record elf64_ehdr =
  e_ident :: "u8 list"
  e_type :: u16
  e_machine :: u16
  e_version :: u32
  e_entry :: u64
  e_phoff :: u64
  e_shoff :: u64
  e_flags :: u32
  e_ehsize :: u16
  e_phentsize :: u16
  e_phnum :: u16
  e_shentsize :: u16
  e_shnum :: u16
  e_shstrndx :: u16

record elf64_phdr =
  p_type :: u32
  p_flags :: u32
  p_offset :: u64
  p_vaddr :: u64
  p_paddr :: u64
  p_filesz :: u64
  p_memsz :: u64
  p_align :: u64

definition zero_ehdr :: elf64_ehdr where
  "zero_ehdr = \<lparr>e_ident = replicate 16 0, e_type = 0, e_machine = 0, e_version = 0, e_entry = 0,
     e_phoff = 0, e_shoff = 0, e_flags = 0, e_ehsize = 0, e_phentsize = 0, e_phnum = 0,
     e_shentsize = 0, e_shnum = 0, e_shstrndx = 0\<rparr>"

definition zero_phdr :: elf64_phdr where
  "zero_phdr = \<lparr>p_type = 0, p_flags = 0, p_offset = 0, p_vaddr = 0, p_paddr = 0, p_filesz = 0,
     p_memsz = 0, p_align = 0\<rparr>"

record pcb =
  memctx :: "mem_ctx_t option"
  regs :: cpu_regs
  pid :: u16
  parent :: "nat option"
  pstate :: proc_state
  priority :: u64
  pticks :: u64
  heap_start :: u64
  heap_len :: u64
  open_files :: "nat \<Rightarrow> u64"
  elf_header :: elf64_ehdr
  elf_segments :: "nat \<Rightarrow> elf64_phdr"
  n_elf_segments :: u16
  pnext :: "nat option"
  psyscall :: u64
  wakeup :: u64
  exit_status :: u8
  shared_mem :: u64
  shared_mem_pages :: u64
  shared_mem_source :: u16

type_synonym ptab = "nat \<Rightarrow> pcb"

definition N_PROCS :: nat where "N_PROCS = 256"
definition N_SYSCALLS :: nat where "N_SYSCALLS = 24"
definition N_OPEN_FILES :: nat where "N_OPEN_FILES = 64"
definition N_ELF_SEGMENTS :: nat where "N_ELF_SEGMENTS = 16"

definition SYS_waitpid :: nat where "SYS_waitpid = 1"
definition SYS_sleep :: nat where "SYS_sleep = 14"

text \<open>A block of the zero-initialised static table.\<close>

definition zero_pcb :: pcb where
  "zero_pcb = \<lparr>memctx = None, regs = zero_regs, pid = 0, parent = None,
     pstate = PROC_STATE_UNUSED, priority = 0, pticks = 0, heap_start = 0, heap_len = 0,
     open_files = (\<lambda>_. 0), elf_header = zero_ehdr, elf_segments = (\<lambda>_. zero_phdr),
     n_elf_segments = 0, pnext = None, psyscall = 0, wakeup = 0, exit_status = 0, shared_mem = 0,
     shared_mem_pages = 0, shared_mem_source = 0\<rparr>"

text \<open>Assigning one field through a pointer to a block.\<close>

definition set_next :: "nat \<Rightarrow> nat option \<Rightarrow> ptab \<Rightarrow> ptab" where
  "set_next p v h = h(p := (h p)\<lparr>pnext := v\<rparr>)"

lemma pnext_set_next: "(\<lambda>x. pnext (set_next p v h x)) = (\<lambda>x. pnext (h x))(p := v)"
  by (auto simp: set_next_def)

lemma set_next_apply: "set_next p v h x = (if x = p then (h p)\<lparr>pnext := v\<rparr> else h x)"
  by (simp add: set_next_def)

lemma pnext_set_next_same [simp]: "pnext (set_next p v h p) = v"
  by (simp add: set_next_def)

text \<open>Two tables agree on everything but the link fields.\<close>

definition same_but_next :: "ptab \<Rightarrow> ptab \<Rightarrow> bool" where
  "same_but_next h h' \<longleftrightarrow> (\<forall>x. h' x\<lparr>pnext := None\<rparr> = h x\<lparr>pnext := None\<rparr>)"

lemma same_but_next_refl [simp]: "same_but_next h h"
  by (simp add: same_but_next_def)

lemma same_but_next_trans: "same_but_next h h' \<Longrightarrow> same_but_next h' h'' \<Longrightarrow> same_but_next h h''"
  by (simp add: same_but_next_def)

lemma same_but_next_set [simp, intro]: "same_but_next h (set_next p v h)"
  by (simp add: same_but_next_def set_next_def)

lemma same_but_next_set_right: "same_but_next h h' \<Longrightarrow> same_but_next h (set_next p v h')"
  by (rule same_but_next_trans) auto

end
