(* ===== verification/PcbQueue.thy ===== *)
theory PcbQueue
  imports Pcb
begin

text \<open>
  The queues of process control blocks of \<^verbatim>\<open>kernel/procs.c\<close>: singly linked through the
  \<^verbatim>\<open>next\<close> field of the blocks, with a head, a tail and one of four orderings. An operation
  takes the queue and the process table and returns the C status with the new queue and table.
  A loop over a queue follows the link fields and would not end on a cyclic list, so it is a
  \<^theory_text>\<open>partial_function (option)\<close>. The locale \<open>ordered_queue\<close> is the contract the scheduler uses:
  a queue represents a list of blocks, and each operation acts on that list.
\<close>

section \<open>The operations\<close>

datatype pcb_queue_order = O_PCB_FIFO | O_PCB_PRIO | O_PCB_PID | O_PCB_WAKEUP

record pcb_queue_s =
  head :: "nat option"
  tail :: "nat option"
  order :: pcb_queue_order

definition PCB_QUEUE_EMPTY :: "pcb_queue_s \<Rightarrow> bool" where
  "PCB_QUEUE_EMPTY q \<longleftrightarrow> head q = None"

text \<open>The loop the three \<^verbatim>\<open>find_prev\<close> functions share; \<open>key\<close> is the field they compare.\<close>

partial_function (option) find_prev_loop ::
  "(pcb \<Rightarrow> nat) \<Rightarrow> ptab \<Rightarrow> nat \<Rightarrow> nat option \<Rightarrow> nat option \<Rightarrow> nat option option" where
  "find_prev_loop key h k prev cur =
     (case cur of
        None \<Rightarrow> Some prev
      | Some c \<Rightarrow> if key (h c) \<le> k then find_prev_loop key h k (Some c) (pnext (h c))
                  else Some prev)"

definition find_prev_wakeup :: "pcb_queue_s \<Rightarrow> nat \<Rightarrow> ptab \<Rightarrow> nat option option" where
  "find_prev_wakeup q p h =
     find_prev_loop (\<lambda>b. unat (wakeup b)) h (unat (wakeup (h p))) None (head q)"

definition find_prev_priority :: "pcb_queue_s \<Rightarrow> nat \<Rightarrow> ptab \<Rightarrow> nat option option" where
  "find_prev_priority q p h =
     find_prev_loop (\<lambda>b. unat (priority b)) h (unat (priority (h p))) None (head q)"

definition find_prev_pid :: "pcb_queue_s \<Rightarrow> nat \<Rightarrow> ptab \<Rightarrow> nat option option" where
  "find_prev_pid q p h =
     find_prev_loop (\<lambda>b. unat (pid b)) h (unat (pid (h p))) None (head q)"

definition pcb_queue_reset :: "pcb_queue_order \<Rightarrow> pcb_queue_s \<Rightarrow> int \<times> pcb_queue_s" where
  "pcb_queue_reset style q = (SUCCESS, q\<lparr>head := None, tail := None, order := style\<rparr>)"

definition pcb_queue_empty :: "pcb_queue_s \<Rightarrow> bool" where
  "pcb_queue_empty q = PCB_QUEUE_EMPTY q"

partial_function (option) queue_length_loop :: "ptab \<Rightarrow> nat option \<Rightarrow> nat \<Rightarrow> nat option" where
  "queue_length_loop h tmp num =
     (case tmp of None \<Rightarrow> Some num | Some t \<Rightarrow> queue_length_loop h (pnext (h t)) (num + 1))"

definition pcb_queue_length :: "pcb_queue_s \<Rightarrow> ptab \<Rightarrow> nat option" where
  "pcb_queue_length q h = queue_length_loop h (head q) 0"

definition pcb_queue_insert ::
  "pcb_queue_s \<Rightarrow> nat option \<Rightarrow> ptab \<Rightarrow> (int \<times> pcb_queue_s \<times> ptab) option" where
  "pcb_queue_insert q pp h =
     (case pp of
        None \<Rightarrow> None
      | Some p \<Rightarrow>
          if pnext (h p) \<noteq> None then Some (E_BAD_PARAM, q, h)
          else if head q = None then Some (SUCCESS, q\<lparr>head := Some p, tail := Some p\<rparr>, h)
          else if tail q = None then None
          else do {
            prev \<leftarrow> (case order q of
                       O_PCB_FIFO \<Rightarrow> Some (tail q)
                     | O_PCB_PRIO \<Rightarrow> find_prev_priority q p h
                     | O_PCB_PID \<Rightarrow> find_prev_pid q p h
                     | O_PCB_WAKEUP \<Rightarrow> find_prev_wakeup q p h);
            (case prev of
               None \<Rightarrow> Some (SUCCESS, q\<lparr>head := Some p\<rparr>, set_next p (head q) h)
             | Some r \<Rightarrow>
                 if pnext (h r) = None
                 then Some (SUCCESS, q\<lparr>tail := Some p\<rparr>, set_next r (Some p) h)
                 else Some (SUCCESS, q, set_next r (Some p) (set_next p (pnext (h r)) h)))
          })"

text \<open>\<^verbatim>\<open>pcb_queue_pop\<close> stores the block through its pointer argument on success only.\<close>

definition pcb_queue_pop ::
  "pcb_queue_s \<Rightarrow> ptab \<Rightarrow> int \<times> nat option \<times> pcb_queue_s \<times> ptab" where
  "pcb_queue_pop q h =
     (case head q of
        None \<Rightarrow> (E_EMPTY_QUEUE, None, q, h)
      | Some t \<Rightarrow>
          let q1 = q\<lparr>head := pnext (h t)\<rparr>;
              h1 = set_next t None h;
              q2 = (if head q1 = None then q1\<lparr>tail := None\<rparr> else q1)
          in (SUCCESS, Some t, q2, h1))"

text \<open>The search of \<^verbatim>\<open>pcb_queue_remove\<close>: the final values of \<open>prev\<close> and \<open>curr\<close>.\<close>

partial_function (option) remove_loop ::
  "ptab \<Rightarrow> nat \<Rightarrow> nat option \<Rightarrow> nat option \<Rightarrow> (nat option \<times> nat option) option" where
  "remove_loop h p prev cur =
     (if cur \<noteq> None \<and> cur \<noteq> Some p then remove_loop h p cur (pnext (h (the cur)))
      else Some (prev, cur))"

definition pcb_queue_remove ::
  "pcb_queue_s \<Rightarrow> nat option \<Rightarrow> ptab \<Rightarrow> (int \<times> pcb_queue_s \<times> ptab) option" where
  "pcb_queue_remove q pp h =
     (case pp of
        None \<Rightarrow> None
      | Some p \<Rightarrow>
          if PCB_QUEUE_EMPTY q then Some (E_EMPTY_QUEUE, q, h)
          else do {
            (prev, cur) \<leftarrow> remove_loop h p None (head q);
            (case cur of
               None \<Rightarrow> (if prev = None then None else Some (E_NOT_FOUND, q, h))
             | Some c \<Rightarrow>
                 let nxt = pnext (h c);
                     (q1, h1) = (case prev of
                                   Some r \<Rightarrow> (q, set_next r nxt h)
                                 | None \<Rightarrow> (q\<lparr>head := nxt\<rparr>, h));
                     q2 = (if pnext (h1 c) = None then q1\<lparr>tail := prev\<rparr> else q1);
                     h2 = set_next c None h1
                 in if (head q2 = None) = (tail q2 = None) then Some (SUCCESS, q2, h2) else None)
          })"

definition pcb_queue_peek :: "pcb_queue_s \<Rightarrow> nat option" where
  "pcb_queue_peek q = (if PCB_QUEUE_EMPTY q then None else head q)"

section \<open>What a queue represents\<close>

definition queue_rep :: "ptab \<Rightarrow> pcb_queue_s \<Rightarrow> nat list \<Rightarrow> bool" where
  "queue_rep h q xs \<longleftrightarrow>
     chain (\<lambda>x. pnext (h x)) (head q) xs \<and> tail q = (if xs = [] then None else Some (last xs))"

text \<open>The key an ordering sorts by, and where an insertion goes.\<close>

fun order_key :: "pcb_queue_order \<Rightarrow> pcb \<Rightarrow> nat" where
  "order_key O_PCB_FIFO b = 0"
| "order_key O_PCB_PRIO b = unat (priority b)"
| "order_key O_PCB_PID b = unat (pid b)"
| "order_key O_PCB_WAKEUP b = unat (wakeup b)"

lemma order_key_same_but_next:
  "same_but_next h h' \<Longrightarrow> order_key ord (h' x) = order_key ord (h x)"
proof (cases ord)
qed (auto simp: same_but_next_def dest!: spec [of _ x]
      dest: arg_cong [where f = priority] arg_cong [where f = pid] arg_cong [where f = wakeup])

lemma order_key_set_next [simp]: "order_key ord (set_next p v h x) = order_key ord (h x)"
  by (rule order_key_same_but_next) simp

lemma order_key_pnext [simp]: "order_key ord (b\<lparr>pnext := v\<rparr>) = order_key ord b"
  by (cases ord) auto

lemma queue_rep_distinct: "queue_rep h q xs \<Longrightarrow> distinct xs"
  by (auto simp: queue_rep_def intro: chain_distinct)

lemma queue_rep_empty [simp]: "queue_rep h q [] \<longleftrightarrow> head q = None \<and> tail q = None"
  by (auto simp: queue_rep_def)

lemma queue_rep_head_None: "queue_rep h q xs \<Longrightarrow> head q = None \<longleftrightarrow> xs = []"
  by (cases xs) (auto simp: queue_rep_def)

lemma queue_rep_unique: "queue_rep h q xs \<Longrightarrow> queue_rep h q ys \<Longrightarrow> xs = ys"
  by (auto simp: queue_rep_def dest: chain_unique)

text \<open>A queue does not change when blocks outside it do.\<close>

lemma queue_rep_cong [frame]:
  "queue_rep h q xs \<Longrightarrow> \<forall>x\<in>set xs. pnext (h' x) = pnext (h x) \<Longrightarrow> queue_rep h' q xs"
  unfolding queue_rep_def using seg_cong [of xs "\<lambda>x. pnext (h' x)" "\<lambda>x. pnext (h x)"] by simp

lemma find_prev_loop_chain:
  "chain (\<lambda>x. pnext (h x)) cur xs \<Longrightarrow>
   find_prev_loop key h k prev cur =
     Some (let ys = takeWhile (\<lambda>x. key (h x) \<le> k) xs in if ys = [] then prev else Some (last ys))"
proof (induction xs arbitrary: prev cur)
  case Nil
  then show ?case by (simp add: find_prev_loop.simps)
next
  case (Cons x xs)
  then show ?case by (subst find_prev_loop.simps) (auto simp: Let_def)
qed

lemma queue_length_loop_chain:
  "chain (\<lambda>x. pnext (h x)) p xs \<Longrightarrow> queue_length_loop h p n = Some (n + length xs)"
proof (induction xs arbitrary: p n)
  case Nil
  then show ?case by (simp add: queue_length_loop.simps)
next
  case (Cons x xs)
  then show ?case by (subst queue_length_loop.simps) auto
qed

lemma remove_loop_found:
  "chain (\<lambda>x. pnext (h x)) cur (us @ p # vs) \<Longrightarrow> p \<notin> set us \<Longrightarrow>
   remove_loop h p prev cur = Some (if us = [] then prev else Some (last us), Some p)"
proof (induction us arbitrary: prev cur)
  case Nil
  then show ?case by (simp add: remove_loop.simps)
next
  case (Cons x us)
  then show ?case by (subst remove_loop.simps) auto
qed

lemma remove_loop_absent:
  "chain (\<lambda>x. pnext (h x)) cur xs \<Longrightarrow> p \<notin> set xs \<Longrightarrow>
   remove_loop h p prev cur = Some (if xs = [] then prev else Some (last xs), None)"
proof (induction xs arbitrary: prev cur)
  case Nil
  then show ?case by (simp add: remove_loop.simps)
next
  case (Cons x xs)
  then show ?case by (subst remove_loop.simps) auto
qed

section \<open>The operations on the represented list\<close>

definition inserted :: "ptab \<Rightarrow> pcb_queue_s \<Rightarrow> nat \<Rightarrow> nat list \<Rightarrow> nat list" where
  "inserted h q p xs = insert_after (\<lambda>x. order_key (order q) (h x)) p xs"

lemma takeWhile_True: "takeWhile (\<lambda>x. True) xs = xs"
  by (simp add: takeWhile_eq_all_conv)

text \<open>The predecessor \<^verbatim>\<open>pcb_queue_insert\<close> finds is the last block that does not sort after
  the new one.\<close>

lemma insert_prev:
  assumes "queue_rep h q xs" "xs \<noteq> []"
  shows "(case order q of
            O_PCB_FIFO \<Rightarrow> Some (tail q)
          | O_PCB_PRIO \<Rightarrow> find_prev_priority q p h
          | O_PCB_PID \<Rightarrow> find_prev_pid q p h
          | O_PCB_WAKEUP \<Rightarrow> find_prev_wakeup q p h) =
         Some (let ys = takeWhile (\<lambda>x. order_key (order q) (h x) \<le> order_key (order q) (h p)) xs
               in if ys = [] then None else Some (last ys))"
  using assms
  by (cases "order q")
    (auto simp: queue_rep_def find_prev_priority_def find_prev_pid_def find_prev_wakeup_def
      find_prev_loop_chain Let_def takeWhile_True)

lemma pnext_after_link:
  "(\<lambda>x. pnext (set_next r a (set_next p b h) x)) = (\<lambda>x. pnext (h x))(p := b, r := a)"
  by (auto simp: set_next_def)

text \<open>Linking the block in, given where it goes.\<close>

lemma link_front:
  assumes "queue_rep h q xs" "xs \<noteq> []" "p \<notin> set xs"
  shows "queue_rep (set_next p (head q) h) (q\<lparr>head := Some p\<rparr>) (p # xs)"
  using assms chain_push [of "\<lambda>x. pnext (h x)" "head q" xs p]
  by (simp add: queue_rep_def pnext_set_next)

lemma link_behind:
  assumes rep: "queue_rep h q (us @ r # zs)" and p: "p \<notin> set (us @ r # zs)" "pnext (h p) = None"
  defines "res \<equiv> (if pnext (h r) = None then (q\<lparr>tail := Some p\<rparr>, set_next r (Some p) h)
                   else (q, set_next r (Some p) (set_next p (pnext (h r)) h)))"
  shows "queue_rep (snd res) (fst res) (us @ r # p # zs)"
proof -
  let ?n = "\<lambda>x. pnext (h x)"
  from rep have c: "chain ?n (head q) (us @ r # zs)" by (simp add: queue_rep_def)
  with p have linked: "chain (?n(p := ?n r, r := Some p)) (head q) (us @ r # p # zs)"
    by (intro chain_link_after)
  from chain_split(3) [OF c] have last: "?n r = None \<longleftrightarrow> zs = []"
    by (auto split: list.splits)
  show ?thesis
  proof (cases "?n r = None")
    case True
    with p(2) have "?n(p := ?n r, r := Some p) = ?n(r := Some p)" by auto
    with True linked last show ?thesis
      by (simp add: res_def queue_rep_def pnext_set_next)
  next
    case False
    with rep linked last show ?thesis
      by (auto simp: res_def queue_rep_def pnext_after_link)
  qed
qed

lemma pcb_queue_insert_rep:
  assumes rep: "queue_rep h q xs" and p: "pnext (h p) = None" "p \<notin> set xs"
  obtains q' h' where "pcb_queue_insert q (Some p) h = Some (SUCCESS, q', h')"
    "queue_rep h' q' (inserted h q p xs)" "order q' = order q" "same_but_next h h'"
    "\<And>x. x \<notin> insert p (set xs) \<Longrightarrow> h' x = h x"
proof (cases "xs = []")
  case True
  with rep p that [of "q\<lparr>head := Some p, tail := Some p\<rparr>" h] show ?thesis
    by (auto simp: pcb_queue_insert_def queue_rep_def inserted_def insert_after_def)
next
  case False
  define ys where "ys = takeWhile (\<lambda>x. order_key (order q) (h x) \<le> order_key (order q) (h p)) xs"
  define zs where "zs = dropWhile (\<lambda>x. order_key (order q) (h x) \<le> order_key (order q) (h p)) xs"
  have xs: "xs = ys @ zs" and ins: "inserted h q p xs = ys @ p # zs"
    by (auto simp: ys_def zs_def inserted_def insert_after_def)
  from rep False have ends: "head q \<noteq> None" "tail q \<noteq> None"
    by (auto simp: queue_rep_head_None) (auto simp: queue_rep_def)
  note prev = insert_prev [OF rep False, of p, folded ys_def]
  show ?thesis
  proof (cases ys rule: rev_cases)
    case Nil
    with that [of "q\<lparr>head := Some p\<rparr>" "set_next p (head q) h"] link_front [OF rep False p(2)]
    show ?thesis using p ends prev ins xs
      by (auto simp: pcb_queue_insert_def set_next_apply)
  next
    case (snoc us r)
    with xs have xs': "xs = us @ r # zs" by simp
    let ?res = "if pnext (h r) = None then (q\<lparr>tail := Some p\<rparr>, set_next r (Some p) h)
                else (q, set_next r (Some p) (set_next p (pnext (h r)) h))"
    from link_behind [of h q us r zs p] rep p xs'
    have "queue_rep (snd ?res) (fst ?res) (us @ r # p # zs)" by simp
    with that [of "fst ?res" "snd ?res"] show ?thesis
      using p ends prev ins xs' snoc
      by (auto simp: pcb_queue_insert_def set_next_apply same_but_next_set_right)
  qed
qed

lemma pcb_queue_pop_rep:
  assumes rep: "queue_rep h q (x # xs)"
  obtains q' where "pcb_queue_pop q h = (SUCCESS, Some x, q', set_next x None h)"
    "queue_rep (set_next x None h) q' xs" "order q' = order q"
proof -
  let ?n = "\<lambda>x. pnext (h x)"
  from rep have c: "chain ?n (head q) (x # xs)" by (simp add: queue_rep_def)
  then have "head q = Some x" "?n x = None \<longleftrightarrow> xs = []" by (cases xs; simp)+
  with rep chain_pop [OF c]
    that [of "if ?n x = None then q\<lparr>head := ?n x, tail := None\<rparr> else q\<lparr>head := ?n x\<rparr>"]
  show ?thesis
    by (auto simp: pcb_queue_pop_def queue_rep_def pnext_set_next split: if_splits)
qed

lemma pcb_queue_pop_empty: "queue_rep h q [] \<Longrightarrow> pcb_queue_pop q h = (E_EMPTY_QUEUE, None, q, h)"
  by (simp add: pcb_queue_pop_def)

lemma pcb_queue_remove_rep:
  assumes rep: "queue_rep h q (us @ p # vs)"
  obtains q' h' where "pcb_queue_remove q (Some p) h = Some (SUCCESS, q', h')"
    "queue_rep h' q' (us @ vs)" "order q' = order q" "same_but_next h h'" "pnext (h' p) = None"
    "\<And>x. x \<notin> set (us @ p # vs) \<Longrightarrow> h' x = h x"
proof -
  let ?n = "\<lambda>x. pnext (h x)"
  from rep have c: "chain ?n (head q) (us @ p # vs)" by (simp add: queue_rep_def)
  from chain_distinct [OF c] have fresh: "p \<notin> set us" "p \<notin> set vs" by auto
  from chain_split(3) [OF c] have nxt: "?n p = None \<longleftrightarrow> vs = []" by (auto split: list.splits)
  from rep have ne: "head q \<noteq> None" using queue_rep_head_None [OF rep] by simp
  note loop = remove_loop_found [OF c fresh(1), of None]
  show ?thesis
  proof (cases us rule: rev_cases)
    case Nil
    with c chain_pop [of ?n "head q" p vs]
    have pop: "chain (?n(p := None)) (?n p) vs" by simp
    let ?q = "if ?n p = None then q\<lparr>head := ?n p, tail := None\<rparr> else q\<lparr>head := ?n p\<rparr>"
    from pop Nil rep nxt have rep': "queue_rep (set_next p None h) ?q (us @ vs)"
      by (auto simp: queue_rep_def pnext_set_next)
    from that [OF _ rep'] Nil nxt ne loop rep show ?thesis
      by (auto simp: pcb_queue_remove_def PCB_QUEUE_EMPTY_def set_next_apply Let_def
          queue_rep_def split: if_splits)
  next
    case (snoc us' r)
    with c chain_unlink_after [of ?n "head q" us' r p vs]
    have unl: "chain (?n(r := ?n p, p := None)) (head q) (us' @ r # vs)" by simp
    from snoc fresh have "p \<noteq> r" by auto
    then have links: "(\<lambda>x. pnext (set_next p None (set_next r (?n p) h) x)) = ?n(r := ?n p, p := None)"
      by (simp add: pnext_after_link)
    let ?q = "if ?n p = None then q\<lparr>tail := Some r\<rparr> else q"
    from unl rep nxt snoc links
    have rep': "queue_rep (set_next p None (set_next r (?n p) h)) ?q (us @ vs)"
      by (auto simp: queue_rep_def)
    from that [OF _ rep'] snoc rep nxt ne loop \<open>p \<noteq> r\<close> show ?thesis
      by (auto simp: pcb_queue_remove_def PCB_QUEUE_EMPTY_def queue_rep_def set_next_apply Let_def
          same_but_next_set_right split: if_splits)
  qed
qed

lemma pcb_queue_remove_absent:
  assumes "queue_rep h q xs" "p \<notin> set xs"
  shows "pcb_queue_remove q (Some p) h =
           Some (if xs = [] then E_EMPTY_QUEUE else E_NOT_FOUND, q, h)"
  using assms remove_loop_absent [of h "head q" xs p None]
  by (auto simp: pcb_queue_remove_def PCB_QUEUE_EMPTY_def queue_rep_head_None)
    (auto simp: queue_rep_def)

lemma pcb_queue_length_rep: "queue_rep h q xs \<Longrightarrow> pcb_queue_length q h = Some (length xs)"
  using queue_length_loop_chain [of h "head q" xs 0]
  by (simp add: pcb_queue_length_def queue_rep_def)

lemma pcb_queue_peek_rep:
  "queue_rep h q xs \<Longrightarrow> pcb_queue_peek q = (case xs of [] \<Rightarrow> None | x # _ \<Rightarrow> Some x)"
  by (auto simp: pcb_queue_peek_def PCB_QUEUE_EMPTY_def queue_rep_def split: list.splits)

section \<open>The contract of a queue\<close>

text \<open>Inserting several blocks in turn, and popping until the queue reports an error.\<close>

fun insert_all :: "('q \<Rightarrow> nat option \<Rightarrow> 'h \<Rightarrow> (int \<times> 'q \<times> 'h) option) \<Rightarrow>
    'q \<Rightarrow> nat list \<Rightarrow> 'h \<Rightarrow> ('q \<times> 'h) option" where
  "insert_all ins q [] h = Some (q, h)"
| "insert_all ins q (p # ps) h =
     (case ins q (Some p) h of
        None \<Rightarrow> None
      | Some (r, q', h') \<Rightarrow> if r = SUCCESS then insert_all ins q' ps h' else None)"

fun drain :: "('q \<Rightarrow> 'h \<Rightarrow> int \<times> nat option \<times> 'q \<times> 'h) \<Rightarrow> nat \<Rightarrow> 'q \<Rightarrow> 'h \<Rightarrow> nat list" where
  "drain pop 0 q h = []"
| "drain pop (Suc n) q h =
     (case pop q h of
        (r, Some p, q', h') \<Rightarrow> if r = SUCCESS then p # drain pop n q' h' else []
      | (r, None, q', h') \<Rightarrow> [])"

locale ordered_queue =
  fixes rep :: "'h \<Rightarrow> 'q \<Rightarrow> nat list \<Rightarrow> bool"
    and sortkey :: "'h \<Rightarrow> 'q \<Rightarrow> nat \<Rightarrow> nat"
    and unlinked :: "'h \<Rightarrow> nat \<Rightarrow> bool"
    and ins :: "'q \<Rightarrow> nat option \<Rightarrow> 'h \<Rightarrow> (int \<times> 'q \<times> 'h) option"
    and pop :: "'q \<Rightarrow> 'h \<Rightarrow> int \<times> nat option \<times> 'q \<times> 'h"
    and rem :: "'q \<Rightarrow> nat option \<Rightarrow> 'h \<Rightarrow> (int \<times> 'q \<times> 'h) option"
  assumes ins_law: "rep h q xs \<Longrightarrow> unlinked h p \<Longrightarrow> p \<notin> set xs \<Longrightarrow>
      \<exists>q' h'. ins q (Some p) h = Some (SUCCESS, q', h') \<and>
        rep h' q' (insert_after (sortkey h q) p xs) \<and> sortkey h' q' = sortkey h q \<and>
        (\<forall>x. x \<notin> insert p (set xs) \<longrightarrow> unlinked h' x = unlinked h x)"
    and pop_law: "rep h q (x # xs) \<Longrightarrow>
      \<exists>q' h'. pop q h = (SUCCESS, Some x, q', h') \<and> rep h' q' xs \<and> sortkey h' q' = sortkey h q \<and>
        unlinked h' x"
    and pop_none: "rep h q [] \<Longrightarrow> fst (pop q h) \<noteq> SUCCESS"
    and rem_law: "rep h q (us @ p # vs) \<Longrightarrow>
      \<exists>q' h'. rem q (Some p) h = Some (SUCCESS, q', h') \<and> rep h' q' (us @ vs) \<and>
        sortkey h' q' = sortkey h q \<and> unlinked h' p"
    and rep_distinct: "rep h q xs \<Longrightarrow> distinct xs"
begin

lemma insert_all_rep:
  "rep h q xs \<Longrightarrow> distinct ps \<Longrightarrow> set ps \<inter> set xs = {} \<Longrightarrow> \<forall>p\<in>set ps. unlinked h p \<Longrightarrow>
   \<exists>q' h'. insert_all ins q ps h = Some (q', h') \<and> sortkey h' q' = sortkey h q \<and>
     rep h' q' (fold (insert_after (sortkey h q)) ps xs)"
proof (induction ps arbitrary: q h xs)
  case Nil
  then show ?case by simp
next
  case (Cons p ps)
  then obtain q1 h1 where one: "ins q (Some p) h = Some (SUCCESS, q1, h1)"
      "rep h1 q1 (insert_after (sortkey h q) p xs)" "sortkey h1 q1 = sortkey h q"
      "\<forall>x. x \<notin> insert p (set xs) \<longrightarrow> unlinked h1 x = unlinked h x"
    using ins_law [of h q xs p] by auto
  with Cons.prems have "\<forall>x\<in>set ps. unlinked h1 x" "set ps \<inter> set (insert_after (sortkey h q) p xs) = {}"
    by auto
  with Cons.IH [OF one(2)] Cons.prems(2) one(1,3) show ?case by auto
qed

lemma drain_rep: "rep h q xs \<Longrightarrow> drain pop (length xs) q h = xs"
proof (induction xs arbitrary: q h)
  case Nil
  then show ?case by simp
next
  case (Cons x xs)
  from pop_law [OF Cons.prems] obtain q' h' where
    "pop q h = (SUCCESS, Some x, q', h')" "rep h' q' xs" by blast
  with Cons.IH show ?case by simp
qed

text \<open>The queue as a whole: what goes in comes out sorted by key, first in first out among
  blocks of equal key.\<close>

lemma insert_drain_sorts:
  assumes "rep h q []" "distinct ps" "\<forall>p\<in>set ps. unlinked h p"
  shows "\<exists>q' h'. insert_all ins q ps h = Some (q', h') \<and>
    drain pop (length ps) q' h' = sort_key (sortkey h q) ps"
proof -
  from insert_all_rep [OF assms(1,2) _ assms(3)] obtain q' h' where
    "insert_all ins q ps h = Some (q', h')" "rep h' q' (sort_key (sortkey h q) ps)"
    by (auto simp: fold_insert_after_sort)
  with drain_rep [of h' q' "sort_key (sortkey h q) ps"] show ?thesis by auto
qed

lemma insert_remove:
  assumes "rep h q xs" "unlinked h p" "p \<notin> set xs"
  shows "\<exists>q1 h1 q2 h2. ins q (Some p) h = Some (SUCCESS, q1, h1) \<and>
    rem q1 (Some p) h1 = Some (SUCCESS, q2, h2) \<and> rep h2 q2 xs \<and> unlinked h2 p"
proof -
  from ins_law [OF assms] obtain q1 h1 where ins: "ins q (Some p) h = Some (SUCCESS, q1, h1)"
    "rep h1 q1 (insert_after (sortkey h q) p xs)" by blast
  let ?P = "\<lambda>y. sortkey h q y \<le> sortkey h q p"
  from ins(2) have "rep h1 q1 (takeWhile ?P xs @ p # dropWhile ?P xs)"
    by (simp add: insert_after_def)
  from rem_law [OF this] ins(1) show ?thesis by auto
qed

end

abbreviation queue_key :: "ptab \<Rightarrow> pcb_queue_s \<Rightarrow> nat \<Rightarrow> nat" where
  "queue_key h q \<equiv> \<lambda>x. order_key (order q) (h x)"

interpretation pcbq: ordered_queue queue_rep queue_key "\<lambda>h p. pnext (h p) = None"
  pcb_queue_insert pcb_queue_pop pcb_queue_remove
proof (unfold_locales, goal_cases)
  case (1 h q xs p)
  then obtain q' h' where "pcb_queue_insert q (Some p) h = Some (SUCCESS, q', h')"
    "queue_rep h' q' (inserted h q p xs)" "order q' = order q" "same_but_next h h'"
    "\<And>x. x \<notin> insert p (set xs) \<Longrightarrow> h' x = h x"
    by (rule pcb_queue_insert_rep) (rule that)
  then show ?case by (auto simp: inserted_def order_key_same_but_next)
next
  case (2 h q x xs)
  then obtain q' where "pcb_queue_pop q h = (SUCCESS, Some x, q', set_next x None h)"
    "queue_rep (set_next x None h) q' xs" "order q' = order q"
    by (rule pcb_queue_pop_rep)
  then show ?case by (intro exI [of _ q'] exI [of _ "set_next x None h"]) simp
next
  case (3 h q)
  then show ?case by (simp add: pcb_queue_pop_def error_codes)
next
  case (4 h q us p vs)
  then obtain q' h' where "pcb_queue_remove q (Some p) h = Some (SUCCESS, q', h')"
    "queue_rep h' q' (us @ vs)" "order q' = order q" "same_but_next h h'" "pnext (h' p) = None"
    by (rule pcb_queue_remove_rep)
  then show ?case by (auto simp: order_key_same_but_next)
next
  case (5 h q xs)
  then show ?case by (rule queue_rep_distinct)
qed

section \<open>Properties\<close>

text \<open>C11: Whatever its ordering, an empty queue that receives the distinct unlinked blocks
  \<open>ps\<close> accepts all of them and hands them back sorted by the ordering's key, first in first
  out among blocks with equal keys; neither the insertions nor the pops run forever.\<close>

theorem queue_insert_drain_sorts:
  assumes "queue_rep h q []" "distinct ps" "\<forall>p\<in>set ps. pnext (h p) = None"
  shows "\<exists>q' h'. insert_all pcb_queue_insert q ps h = Some (q', h') \<and>
    drain pcb_queue_pop (length ps) q' h' = sort_key (queue_key h q) ps"
  using assms by (rule pcbq.insert_drain_sorts)

theorem queue_insert_drain_sorts_witness:
  "\<exists>q' h'. insert_all pcb_queue_insert \<lparr>head = None, tail = None, order = O_PCB_PID\<rparr> [0, 1, 2]
       ((\<lambda>_. zero_pcb)(0 := zero_pcb\<lparr>pid := 9\<rparr>, 1 := zero_pcb\<lparr>pid := 4\<rparr>)) = Some (q', h') \<and>
     drain pcb_queue_pop (length [0, 1, 2 :: nat]) q' h' = [2, 1, 0]"
proof -
  let ?q = "\<lparr>head = None, tail = None, order = O_PCB_PID\<rparr>"
  let ?h = "(\<lambda>_. zero_pcb)(0 := zero_pcb\<lparr>pid := 9\<rparr>, 1 := zero_pcb\<lparr>pid := 4\<rparr>)"
  have "queue_rep ?h ?q []" "distinct [0, 1, 2 :: nat]" "\<forall>p\<in>set [0, 1, 2]. pnext (?h p) = None"
    by (simp_all add: zero_pcb_def)
  note sorts = queue_insert_drain_sorts [OF this]
  have "sort_key (queue_key ?h ?q) [0, 1, 2] = [2, 1, 0]"
    by (simp add: zero_pcb_def)
  with sorts show ?thesis by (simp only:)
qed

text \<open>C15: Inserting a block that is in no queue succeeds: the queue then represents the old
  list with the block placed behind every block that does not sort after it, and every other
  field of every block, and every block outside the queue, is untouched.\<close>

theorem pcb_queue_insert_refines:
  assumes "queue_rep h q xs" "pnext (h p) = None" "p \<notin> set xs"
  shows "\<exists>q' h'. pcb_queue_insert q (Some p) h = Some (SUCCESS, q', h') \<and>
    queue_rep h' q' (inserted h q p xs) \<and> order q' = order q \<and> same_but_next h h' \<and>
    (\<forall>x. x \<noteq> p \<and> x \<notin> set xs \<longrightarrow> h' x = h x)"
  using assms by (rule pcb_queue_insert_rep) auto

theorem pcb_queue_insert_refines_witness:
  "\<exists>q' h'. pcb_queue_insert \<lparr>head = Some 3, tail = Some 3, order = O_PCB_PRIO\<rparr> (Some 5)
       ((\<lambda>_. zero_pcb)(3 := zero_pcb\<lparr>priority := 7\<rparr>)) = Some (SUCCESS, q', h') \<and>
     queue_rep h' q' [5, 3]"
  using pcb_queue_insert_refines [of "(\<lambda>_. zero_pcb)(3 := zero_pcb\<lparr>priority := 7\<rparr>)"
      "\<lparr>head = Some 3, tail = Some 3, order = O_PCB_PRIO\<rparr>" "[3]" 5]
  by (auto simp: queue_rep_def zero_pcb_def inserted_def insert_after_def)

text \<open>C16: Removing a block of the queue succeeds from any position: exactly that block leaves
  the represented list, its link field becomes null, the head and tail pointers stay
  consistent (so the final \<^verbatim>\<open>assert\<close> holds) and nothing else changes.\<close>

theorem pcb_queue_remove_refines:
  assumes "queue_rep h q xs" "p \<in> set xs"
  shows "\<exists>q' h'. pcb_queue_remove q (Some p) h = Some (SUCCESS, q', h') \<and>
    queue_rep h' q' (remove1 p xs) \<and> order q' = order q \<and> pnext (h' p) = None \<and>
    same_but_next h h' \<and> (\<forall>x. x \<notin> set xs \<longrightarrow> h' x = h x)"
proof -
  from assms(2) obtain us vs where xs: "xs = us @ p # vs" "p \<notin> set us"
    by (meson split_list_first)
  with assms(1) have "queue_rep h q (us @ p # vs)" by simp
  then show ?thesis by (rule pcb_queue_remove_rep) (use xs in \<open>auto simp: remove1_append\<close>)
qed

theorem pcb_queue_remove_refines_witness:
  "\<exists>q' h'. pcb_queue_remove \<lparr>head = Some 3, tail = Some 5, order = O_PCB_PID\<rparr> (Some 5)
       ((\<lambda>_. zero_pcb)(3 := zero_pcb\<lparr>pnext := Some 5\<rparr>)) = Some (SUCCESS, q', h') \<and>
     queue_rep h' q' [3]"
  using pcb_queue_remove_refines [of "(\<lambda>_. zero_pcb)(3 := zero_pcb\<lparr>pnext := Some 5\<rparr>)"
      "\<lparr>head = Some 3, tail = Some 5, order = O_PCB_PID\<rparr>" "[3, 5]" 5]
  by (auto simp: queue_rep_def zero_pcb_def)

text \<open>Removing a block that is not in the queue is reported (\<^verbatim>\<open>E_EMPTY_QUEUE\<close> or
  \<^verbatim>\<open>E_NOT_FOUND\<close>) and changes nothing; inserting a block whose link field is set is
  refused with \<^verbatim>\<open>E_BAD_PARAM\<close> and changes nothing; popping an empty queue reports
  \<^verbatim>\<open>E_EMPTY_QUEUE\<close> and stores no block.\<close>

theorem pcb_queue_errors:
  assumes "queue_rep h q xs" "p \<notin> set xs" "pnext (h b) \<noteq> None" "head q' = None"
  shows "pcb_queue_remove q (Some p) h =
           Some (if xs = [] then E_EMPTY_QUEUE else E_NOT_FOUND, q, h) \<and>
         pcb_queue_insert q (Some b) h = Some (E_BAD_PARAM, q, h) \<and>
         pcb_queue_pop q' h = (E_EMPTY_QUEUE, None, q', h)"
  using assms
  by (simp add: pcb_queue_remove_absent pcb_queue_insert_def pcb_queue_pop_def)

theorem pcb_queue_errors_witness:
  "pcb_queue_remove \<lparr>head = Some 3, tail = Some 5, order = O_PCB_PID\<rparr> (Some 4)
     ((\<lambda>_. zero_pcb)(3 := zero_pcb\<lparr>pnext := Some 5\<rparr>)) =
     Some (E_NOT_FOUND, \<lparr>head = Some 3, tail = Some 5, order = O_PCB_PID\<rparr>,
       (\<lambda>_. zero_pcb)(3 := zero_pcb\<lparr>pnext := Some 5\<rparr>))"
  using pcb_queue_errors [of "(\<lambda>_. zero_pcb)(3 := zero_pcb\<lparr>pnext := Some 5\<rparr>)"
      "\<lparr>head = Some 3, tail = Some 5, order = O_PCB_PID\<rparr>" "[3, 5]" 4 3
      "\<lparr>head = None, tail = None, order = O_PCB_FIFO\<rparr>"]
  by (simp add: queue_rep_def zero_pcb_def)

end
