(* ===== verification/Procs.thy ===== *)
theory Procs
  imports PcbQueue
begin

text \<open>
  The process table and the scheduler of \<^verbatim>\<open>kernel/procs.c\<close>: allocation of process control blocks
  from the free list, the ready queue, zombies and the queues of blocked processes, the dispatch of
  the next process and the timer tick.

  The memory manager is behind three operations that the code calls here: freeing a memory context,
  storing an exit status at an address of a process, and the page directory of a context. They are
  an argument \<open>ops\<close> of the definitions, acting on a component \<open>memory\<close> of the state.
\<close>

section \<open>State\<close>

record 'm mem_ops =
  op_ctx_free :: "mem_ctx_t \<Rightarrow> 'm \<Rightarrow> 'm option"
  op_store_status :: "mem_ctx_t option \<Rightarrow> u64 \<Rightarrow> u8 \<Rightarrow> 'm \<Rightarrow> 'm option"
  op_pgdir :: "mem_ctx_t option \<Rightarrow> 'm \<Rightarrow> u64"

record 'm kernel =
  ptable :: ptab
  pcb_freelist :: pcb_queue_s
  ready_queue :: pcb_queue_s
  zombie_queue :: pcb_queue_s
  syscall_queue :: "nat \<Rightarrow> pcb_queue_s"
  current_pcb :: "nat option"
  init_pcb :: "nat option"
  next_pid :: u16
  ticks :: u64
  memory :: 'm

text \<open>Naming a queue, to pass one to an operation as the code passes its pointer.\<close>

datatype qid = QFree | QReady | QZombie | QSys nat

fun getq :: "qid \<Rightarrow> ('m, 'a) kernel_scheme \<Rightarrow> pcb_queue_s" where
  "getq QFree st = pcb_freelist st"
| "getq QReady st = ready_queue st"
| "getq QZombie st = zombie_queue st"
| "getq (QSys i) st = syscall_queue st i"

fun setq :: "qid \<Rightarrow> pcb_queue_s \<Rightarrow> ('m, 'a) kernel_scheme \<Rightarrow> ('m, 'a) kernel_scheme" where
  "setq QFree q st = st\<lparr>pcb_freelist := q\<rparr>"
| "setq QReady q st = st\<lparr>ready_queue := q\<rparr>"
| "setq QZombie q st = st\<lparr>zombie_queue := q\<rparr>"
| "setq (QSys i) q st = st\<lparr>syscall_queue := (syscall_queue st)(i := q)\<rparr>"

definition kq_insert :: "qid \<Rightarrow> nat \<Rightarrow> ('m, 'a) kernel_scheme \<Rightarrow> (int \<times> ('m, 'a) kernel_scheme) option" where
  "kq_insert q p st =
     (case pcb_queue_insert (getq q st) (Some p) (ptable st) of
        None \<Rightarrow> None
      | Some (r, q', h) \<Rightarrow> Some (r, setq q q' (st\<lparr>ptable := h\<rparr>)))"

definition kq_remove :: "qid \<Rightarrow> nat \<Rightarrow> ('m, 'a) kernel_scheme \<Rightarrow> (int \<times> ('m, 'a) kernel_scheme) option" where
  "kq_remove q p st =
     (case pcb_queue_remove (getq q st) (Some p) (ptable st) of
        None \<Rightarrow> None
      | Some (r, q', h) \<Rightarrow> Some (r, setq q q' (st\<lparr>ptable := h\<rparr>)))"

definition kq_pop :: "qid \<Rightarrow> ('m, 'a) kernel_scheme \<Rightarrow> int \<times> nat option \<times> ('m, 'a) kernel_scheme" where
  "kq_pop q st =
     (case pcb_queue_pop (getq q st) (ptable st) of
        (r, p, q', h) \<Rightarrow> (r, p, setq q q' (st\<lparr>ptable := h\<rparr>)))"

definition upd_pcb :: "nat \<Rightarrow> (pcb \<Rightarrow> pcb) \<Rightarrow> ('m, 'a) kernel_scheme \<Rightarrow> ('m, 'a) kernel_scheme" where
  "upd_pcb p f st = st\<lparr>ptable := (ptable st)(p := f (ptable st p))\<rparr>"

text \<open>The registers of a system call.\<close>

definition PCB_ARG1 :: "pcb \<Rightarrow> u64" where "PCB_ARG1 b = reg_rdi (regs b)"
definition PCB_ARG2 :: "pcb \<Rightarrow> u64" where "PCB_ARG2 b = reg_rsi (regs b)"
definition PCB_ARG3 :: "pcb \<Rightarrow> u64" where "PCB_ARG3 b = reg_rdx (regs b)"
definition PCB_ARG4 :: "pcb \<Rightarrow> u64" where "PCB_ARG4 b = reg_rcx (regs b)"

definition set_ret :: "u64 \<Rightarrow> pcb \<Rightarrow> pcb" where
  "set_ret v b = b\<lparr>regs := (regs b)\<lparr>reg_rax := v\<rparr>\<rparr>"

section \<open>The process table\<close>

definition pcb_free :: "nat option \<Rightarrow> ('m, 'a) kernel_scheme \<Rightarrow> ('m, 'a) kernel_scheme option" where
  "pcb_free pp st =
     (case pp of
        None \<Rightarrow> Some st
      | Some p \<Rightarrow> do {
          (status, st) \<leftarrow> kq_insert QFree p (upd_pcb p (\<lambda>b. b\<lparr>pstate := PROC_STATE_UNUSED\<rparr>) st);
          (if status \<noteq> SUCCESS then None else Some st)
        })"

text \<open>\<^verbatim>\<open>QINIT\<close> of every queue.\<close>

definition reset_queue :: "qid \<Rightarrow> pcb_queue_order \<Rightarrow> ('m, 'a) kernel_scheme \<Rightarrow> ('m, 'a) kernel_scheme option" where
  "reset_queue q style st =
     (let (r, q') = pcb_queue_reset style (getq q st)
      in if r \<noteq> SUCCESS then None else Some (setq q q' st))"

fun reset_syscall_queues :: "nat \<Rightarrow> nat \<Rightarrow> ('m, 'a) kernel_scheme \<Rightarrow> ('m, 'a) kernel_scheme option" where
  "reset_syscall_queues i 0 st = Some st"
| "reset_syscall_queues i (Suc n) st = do {
     st \<leftarrow> reset_queue (QSys i) O_PCB_PID st;
     reset_syscall_queues (Suc i) n st
   }"

fun free_all :: "nat \<Rightarrow> nat \<Rightarrow> ('m, 'a) kernel_scheme \<Rightarrow> ('m, 'a) kernel_scheme option" where
  "free_all i 0 st = Some st"
| "free_all i (Suc n) st = do {
     st \<leftarrow> pcb_free (Some i) st;
     free_all (Suc i) n st
   }"

definition pcb_init :: "('m, 'a) kernel_scheme \<Rightarrow> ('m, 'a) kernel_scheme option" where
  "pcb_init st = do {
     let st = st\<lparr>current_pcb := None\<rparr>;
     st \<leftarrow> reset_queue QFree O_PCB_FIFO st;
     st \<leftarrow> reset_queue QReady O_PCB_PRIO st;
     st \<leftarrow> reset_queue QZombie O_PCB_PID st;
     st \<leftarrow> reset_syscall_queues 0 N_SYSCALLS st;
     free_all 0 N_PROCS st
   }"

definition pcb_alloc :: "('m, 'a) kernel_scheme \<Rightarrow> int \<times> nat option \<times> ('m, 'a) kernel_scheme" where
  "pcb_alloc st =
     (case kq_pop QFree st of
        (r, Some p, st1) \<Rightarrow>
          if r \<noteq> SUCCESS then (E_NO_PCBS, None, st1)
          else (SUCCESS, Some p,
                upd_pcb p (\<lambda>b. b\<lparr>pid := next_pid st1, pstate := PROC_STATE_NEW\<rparr>)
                  (st1\<lparr>next_pid := next_pid st1 + 1\<rparr>))
      | (r, None, st1) \<Rightarrow> (E_NO_PCBS, None, st1))"

definition pcb_cleanup :: "('m, 'b) mem_ops_scheme \<Rightarrow> nat option \<Rightarrow> ('m, 'a) kernel_scheme \<Rightarrow> ('m, 'a) kernel_scheme option" where
  "pcb_cleanup ops pp st =
     (case pp of
        None \<Rightarrow> Some st
      | Some p \<Rightarrow> do {
          st \<leftarrow> (case memctx (ptable st p) of
                   None \<Rightarrow> Some st
                 | Some c \<Rightarrow> map_option (\<lambda>m. st\<lparr>memory := m\<rparr>) (op_ctx_free ops c (memory st)));
          pcb_free (Some p) st
        })"

definition pcb_find_pid :: "u16 \<Rightarrow> ('m, 'a) kernel_scheme \<Rightarrow> nat option" where
  "pcb_find_pid pd st =
     (if pd < 1 then None
      else find (\<lambda>p. pid (ptable st p) = pd \<and> pstate (ptable st p) \<noteq> PROC_STATE_UNUSED) [0..<N_PROCS])"

fun find_ppid_loop :: "u16 \<Rightarrow> nat \<Rightarrow> nat \<Rightarrow> ptab \<Rightarrow> nat option option" where
  "find_ppid_loop pd i 0 h = Some None"
| "find_ppid_loop pd i (Suc n) h =
     (case parent (h i) of
        None \<Rightarrow> None
      | Some q \<Rightarrow> if pid (h q) = pd \<and> pstate (h q) \<noteq> PROC_STATE_UNUSED then Some (Some i)
                  else find_ppid_loop pd (Suc i) n h)"

definition pcb_find_ppid :: "u16 \<Rightarrow> ('m, 'a) kernel_scheme \<Rightarrow> nat option option" where
  "pcb_find_ppid pd st = (if pd < 1 then Some None else find_ppid_loop pd 0 N_PROCS (ptable st))"

section \<open>Scheduling\<close>

definition schedule :: "nat option \<Rightarrow> ('m, 'a) kernel_scheme \<Rightarrow> ('m, 'a) kernel_scheme option" where
  "schedule pp st =
     (case pp of
        None \<Rightarrow> None
      | Some p \<Rightarrow>
          if pstate (ptable st p) = PROC_STATE_UNUSED \<or> pstate (ptable st p) = PROC_STATE_ZOMBIE then None
          else do {
            (r, st) \<leftarrow> kq_insert QReady p (upd_pcb p (\<lambda>b. b\<lparr>pstate := PROC_STATE_READY, psyscall := 0\<rparr>) st);
            (if r \<noteq> SUCCESS then None else Some st)
          })"

text \<open>One turn of the loop of \<^verbatim>\<open>dispatch\<close> and, when it finds a process, what follows the loop.
  The first component is False when the ready queue was empty: the kernel then waits for an
  interrupt and takes another turn.\<close>

definition dispatch :: "('m, 'b) mem_ops_scheme \<Rightarrow> ('m, 'a) kernel_scheme \<Rightarrow> (bool \<times> ('m, 'a) kernel_scheme) option" where
  "dispatch ops st =
     (if current_pcb st \<noteq> None then None
      else case kq_pop QReady st of
             (r, Some p, st1) \<Rightarrow>
               if r = SUCCESS then
                 Some (True, upd_pcb p (\<lambda>b. b\<lparr>regs := (regs b)\<lparr>reg_cr3 := op_pgdir ops (memctx b) (memory st1)\<rparr>,
                                             pstate := PROC_STATE_RUNNING, pticks := 3, psyscall := 0\<rparr>)
                               (st1\<lparr>current_pcb := Some p\<rparr>))
               else Some (False, st)
           | (r, None, st1) \<Rightarrow> Some (False, st))"

partial_function (option) wake_sleepers :: "('m, 'a) kernel_scheme \<Rightarrow> ('m, 'a) kernel_scheme option" where
  "wake_sleepers st =
     (if pcb_queue_empty (syscall_queue st SYS_sleep) then Some st
      else case pcb_queue_peek (syscall_queue st SYS_sleep) of
        None \<Rightarrow> None
      | Some p \<Rightarrow>
          if wakeup (ptable st p) \<ge> ticks st then Some st
          else case kq_remove (QSys SYS_sleep) p st of
            None \<Rightarrow> None
          | Some (r, st1) \<Rightarrow>
              if r \<noteq> SUCCESS then None
              else case schedule (Some p) st1 of
                None \<Rightarrow> None
              | Some st2 \<Rightarrow> wake_sleepers st2)"

definition pcb_on_tick :: "('m, 'b) mem_ops_scheme \<Rightarrow> ('m, 'a) kernel_scheme \<Rightarrow> ('m, 'a) kernel_scheme option" where
  "pcb_on_tick ops st =
     (if init_pcb st = None then Some st
      else do {
        st \<leftarrow> wake_sleepers st;
        (case current_pcb st of
           None \<Rightarrow> Some st
         | Some p \<Rightarrow> do {
             let st = upd_pcb p (\<lambda>b. b\<lparr>pticks := pticks b - 1\<rparr>) st;
             (if pticks (ptable st p) < 1 then do {
                st \<leftarrow> schedule (Some p) st;
                (_, st) \<leftarrow> dispatch ops (st\<lparr>current_pcb := None\<rparr>);
                Some st
              } else Some st)
           })
      })"

section \<open>Zombies\<close>

text \<open>The loop that gives the children of the victim to \<^verbatim>\<open>init\<close>, and the last zombie among them.\<close>

fun reparent :: "nat \<Rightarrow> nat option \<Rightarrow> nat \<Rightarrow> nat \<Rightarrow> nat option \<Rightarrow> ptab \<Rightarrow> nat option \<times> ptab" where
  "reparent victim ini i 0 zchild h = (zchild, h)"
| "reparent victim ini i (Suc n) zchild h =
     (if pstate (h i) = PROC_STATE_UNUSED \<or> parent (h i) \<noteq> Some victim
      then reparent victim ini (Suc i) n zchild h
      else reparent victim ini (Suc i) n
             (if pstate (h i) = PROC_STATE_ZOMBIE then Some i else zchild) (h(i := (h i)\<lparr>parent := ini\<rparr>)))"

text \<open>Answering the \<^verbatim>\<open>waitpid\<close> of \<open>w\<close> with the exit of \<open>c\<close>.\<close>

definition store_exit :: "('m, 'b) mem_ops_scheme \<Rightarrow> nat \<Rightarrow> nat \<Rightarrow> ('m, 'a) kernel_scheme \<Rightarrow> ('m, 'a) kernel_scheme option" where
  "store_exit ops w c st =
     (let status = PCB_ARG2 (ptable st w)
      in if status = 0 then Some st
         else map_option (\<lambda>m. st\<lparr>memory := m\<rparr>)
                (op_store_status ops (memctx (ptable st w)) status (exit_status (ptable st c)) (memory st)))"

text \<open>The part of \<^verbatim>\<open>pcb_zombify\<close> that hands a zombie child to \<^verbatim>\<open>init\<close>.\<close>

definition collect_zchild :: "('m, 'b) mem_ops_scheme \<Rightarrow> nat option \<Rightarrow> ('m, 'a) kernel_scheme \<Rightarrow> ('m, 'a) kernel_scheme option" where
  "collect_zchild ops zchild st =
     (case zchild of
        None \<Rightarrow> Some st
      | Some z \<Rightarrow>
          (case init_pcb st of
             None \<Rightarrow> None
           | Some ini \<Rightarrow>
               if psyscall (ptable st ini) \<noteq> of_nat SYS_waitpid then Some st
               else do {
                 (r, st) \<leftarrow> kq_remove QZombie z st;
                 (r2, st) \<leftarrow> (if r = SUCCESS then kq_remove (QSys SYS_waitpid) ini st else None);
                 st \<leftarrow> (if r2 = SUCCESS then Some st else None);
                 let pd = (ucast (PCB_ARG1 (ptable st ini)) :: u16);
                 st \<leftarrow> (if pd = 0 \<or> pd = pid (ptable st z) then do {
                          let st = upd_pcb ini (set_ret (ucast (pid (ptable st z)))) st;
                          st \<leftarrow> store_exit ops ini z st;
                          schedule (Some ini) st
                        } else Some st);
                 pcb_cleanup ops (Some z) st
               }))"

text \<open>Its end: wake the waiting parent and clean the victim up, or make the victim a zombie.\<close>

definition notify_parent :: "('m, 'b) mem_ops_scheme \<Rightarrow> nat \<Rightarrow> nat \<Rightarrow> ('m, 'a) kernel_scheme \<Rightarrow> ('m, 'a) kernel_scheme option" where
  "notify_parent ops par victim st = do {
     let pd = (ucast (PCB_ARG1 (ptable st par)) :: u16);
     (if psyscall (ptable st par) = of_nat SYS_waitpid \<and> (pd = 0 \<or> pd = pid (ptable st victim)) then do {
        let st = upd_pcb par (set_ret (ucast (pid (ptable st victim)))) st;
        (r, st) \<leftarrow> kq_remove (QSys SYS_waitpid) par st;
        st \<leftarrow> (if r = SUCCESS then store_exit ops par victim st else None);
        st \<leftarrow> schedule (Some par) st;
        pcb_cleanup ops (Some victim) st
      }
      else do {
        (r, st) \<leftarrow> kq_insert QZombie victim (upd_pcb victim (\<lambda>b. b\<lparr>pstate := PROC_STATE_ZOMBIE\<rparr>) st);
        (if r = SUCCESS then Some st else None)
      })
   }"

definition pcb_zombify :: "('m, 'b) mem_ops_scheme \<Rightarrow> nat option \<Rightarrow> ('m, 'a) kernel_scheme \<Rightarrow> ('m, 'a) kernel_scheme option" where
  "pcb_zombify ops vv st =
     (case vv of
        None \<Rightarrow> Some st
      | Some victim \<Rightarrow>
          if pid (ptable st victim) = 1 then None
          else
            (case parent (ptable st victim) of
               None \<Rightarrow> None
             | Some par \<Rightarrow> do {
                 let (zchild, h) = reparent victim (init_pcb st) 0 N_PROCS None (ptable st);
                 st \<leftarrow> collect_zchild ops zchild (st\<lparr>ptable := h\<rparr>);
                 notify_parent ops par victim st
               }))"


section \<open>The queues together\<close>

lemma getq_setq [simp]: "getq r (setq q x st) = (if r = q then x else getq r st)"
  by (cases q; cases r) auto

lemma getq_upd [simp]:
  "getq q (st\<lparr>ptable := h\<rparr>) = getq q st" "getq q (st\<lparr>current_pcb := c\<rparr>) = getq q st"
  "getq q (st\<lparr>next_pid := n\<rparr>) = getq q st" "getq q (st\<lparr>memory := m\<rparr>) = getq q st"
  by (cases q; simp)+

lemma setq_fields [simp]:
  "ptable (setq q x st) = ptable st" "current_pcb (setq q x st) = current_pcb st"
  "init_pcb (setq q x st) = init_pcb st" "next_pid (setq q x st) = next_pid st"
  "ticks (setq q x st) = ticks st" "memory (setq q x st) = memory st"
  by (cases q; simp)+

lemma upd_pcb_fields [simp]:
  "ptable (upd_pcb p f st) = (ptable st)(p := f (ptable st p))" "getq q (upd_pcb p f st) = getq q st"
  "current_pcb (upd_pcb p f st) = current_pcb st" "init_pcb (upd_pcb p f st) = init_pcb st"
  "next_pid (upd_pcb p f st) = next_pid st" "ticks (upd_pcb p f st) = ticks st"
  "memory (upd_pcb p f st) = memory st"
  by (simp_all add: upd_pcb_def)

text \<open>The lists \<open>L\<close> that the queues represent share no block, and a block in no queue is not linked.\<close>

definition qlinks :: "('m, 'a) kernel_scheme \<Rightarrow> (qid \<Rightarrow> nat list) \<Rightarrow> bool" where
  "qlinks st L \<longleftrightarrow>
     (\<forall>q. queue_rep (ptable st) (getq q st) (L q)) \<and>
     (\<forall>q r. q \<noteq> r \<longrightarrow> set (L q) \<inter> set (L r) = {}) \<and>
     (\<forall>p. (\<forall>q. p \<notin> set (L q)) \<longrightarrow> pnext (ptable st p) = None)"

abbreviation unqueued :: "nat \<Rightarrow> (qid \<Rightarrow> nat list) \<Rightarrow> bool" where
  "unqueued p L \<equiv> \<forall>q. p \<notin> set (L q)"

text \<open>Nothing but the queues and the links of the blocks differs.\<close>

definition relinked :: "('m, 'a) kernel_scheme \<Rightarrow> ('m, 'a) kernel_scheme \<Rightarrow> bool" where
  "relinked st st' \<longleftrightarrow>
     same_but_next (ptable st) (ptable st') \<and> (\<forall>q. order (getq q st') = order (getq q st)) \<and>
     current_pcb st' = current_pcb st \<and> init_pcb st' = init_pcb st \<and> next_pid st' = next_pid st \<and>
     ticks st' = ticks st \<and> memory st' = memory st"

lemma same_but_next_fields:
  assumes "same_but_next h h'"
  shows "pstate (h' x) = pstate (h x)" "pid (h' x) = pid (h x)" "parent (h' x) = parent (h x)"
    "wakeup (h' x) = wakeup (h x)" "psyscall (h' x) = psyscall (h x)" "memctx (h' x) = memctx (h x)"
    "priority (h' x) = priority (h x)" "regs (h' x) = regs (h x)" "exit_status (h' x) = exit_status (h x)"
    "pticks (h' x) = pticks (h x)"
proof -
  have e: "h' x\<lparr>pnext := None\<rparr> = h x\<lparr>pnext := None\<rparr>" using assms by (simp add: same_but_next_def)
  show "pstate (h' x) = pstate (h x)" using arg_cong [OF e, of pstate] by simp
  show "pid (h' x) = pid (h x)" using arg_cong [OF e, of pid] by simp
  show "parent (h' x) = parent (h x)" using arg_cong [OF e, of parent] by simp
  show "wakeup (h' x) = wakeup (h x)" using arg_cong [OF e, of wakeup] by simp
  show "psyscall (h' x) = psyscall (h x)" using arg_cong [OF e, of psyscall] by simp
  show "memctx (h' x) = memctx (h x)" using arg_cong [OF e, of memctx] by simp
  show "priority (h' x) = priority (h x)" using arg_cong [OF e, of priority] by simp
  show "regs (h' x) = regs (h x)" using arg_cong [OF e, of regs] by simp
  show "exit_status (h' x) = exit_status (h x)" using arg_cong [OF e, of exit_status] by simp
  show "pticks (h' x) = pticks (h x)" using arg_cong [OF e, of pticks] by simp
qed

lemma qlinks_upd_pcb:
  assumes "qlinks st L" "\<And>b. pnext (f b) = pnext b"
  shows "qlinks (upd_pcb p f st) L"
proof -
  have "queue_rep (ptable (upd_pcb p f st)) (getq q st) (L q)" for q
    by (rule queue_rep_cong [of "ptable st"]) (use assms in \<open>auto simp: qlinks_def\<close>)
  then show ?thesis using assms by (auto simp: qlinks_def)
qed

text \<open>One queue and the blocks of it change; the others keep their lists.\<close>

lemma qlinks_change:
  assumes links: "qlinks st L" and rep: "queue_rep h' q' xs"
    and outside: "\<And>x. x \<notin> insert p (set (L q)) \<Longrightarrow> pnext (h' x) = pnext (ptable st x)"
    and xs: "set xs \<subseteq> insert p (set (L q))" and p: "\<And>r. r \<noteq> q \<Longrightarrow> p \<notin> set (L r)"
    and left: "\<And>x. x \<in> insert p (set (L q)) \<Longrightarrow> x \<notin> set xs \<Longrightarrow> pnext (h' x) = None"
  shows "qlinks (setq q q' (st\<lparr>ptable := h'\<rparr>)) (L(q := xs))"
proof -
  have dis: "set (L r) \<inter> insert p (set (L q)) = {}" if "r \<noteq> q" for r
    using links p that by (auto simp: qlinks_def)
  have "queue_rep h' (getq r st) (L r)" if "r \<noteq> q" for r
  proof (rule queue_rep_cong [of "ptable st"])
    show "queue_rep (ptable st) (getq r st) (L r)" using links by (simp add: qlinks_def)
    show "\<forall>x\<in>set (L r). pnext (h' x) = pnext (ptable st x)" using outside dis [OF that] by blast
  qed
  moreover have "pnext (h' x) = None" if "\<forall>r. x \<notin> set ((L(q := xs)) r)" for x
  proof (cases "x \<in> insert p (set (L q))")
    case True
    then show ?thesis using left that by (metis fun_upd_same)
  next
    case False
    then have "\<forall>r. x \<notin> set (L r)" using that by (metis fun_upd_other insertCI)
    then show ?thesis using links outside [OF False] by (simp add: qlinks_def)
  qed
  moreover have "set ((L(q := xs)) r) \<inter> set ((L(q := xs)) t) = {}" if "r \<noteq> t" for r t
  proof -
    consider "r = q" | "t = q" | "r \<noteq> q" "t \<noteq> q" by blast
    then show ?thesis
    proof cases
      case 1
      then have "set (L t) \<inter> insert p (set (L q)) = {}" using dis [of t] that by simp
      then show ?thesis using 1 that xs by auto
    next
      case 2
      then have "set (L r) \<inter> insert p (set (L q)) = {}" using dis [of r] that by simp
      then show ?thesis using 2 that xs by auto
    next
      case 3
      then show ?thesis using links that by (simp add: qlinks_def)
    qed
  qed
  ultimately show ?thesis using rep unfolding qlinks_def by auto
qed

lemma qlinks_next: "qlinks st L \<Longrightarrow> unqueued p L \<Longrightarrow> pnext (ptable st p) = None"
  by (simp add: qlinks_def)

lemma kq_insert_links:
  assumes "qlinks st L" "unqueued p L"
  obtains st' where "kq_insert q p st = Some (SUCCESS, st')" "relinked st st'"
    "qlinks st' (L(q := inserted (ptable st) (getq q st) p (L q)))"
proof -
  have rep: "queue_rep (ptable st) (getq q st) (L q)" using assms by (simp add: qlinks_def)
  have n: "pnext (ptable st p) = None" "p \<notin> set (L q)" using assms by (auto simp: qlinks_def)
  obtain q' h' where ins: "pcb_queue_insert (getq q st) (Some p) (ptable st) = Some (SUCCESS, q', h')"
    "queue_rep h' q' (inserted (ptable st) (getq q st) p (L q))" "order q' = order (getq q st)"
    "same_but_next (ptable st) h'" "\<And>x. x \<notin> insert p (set (L q)) \<Longrightarrow> h' x = ptable st x"
    by (rule pcb_queue_insert_rep [OF rep n]) (rule that)
  have set: "set (inserted (ptable st) (getq q st) p (L q)) = insert p (set (L q))"
    by (simp add: inserted_def)
  show thesis
  proof (rule that)
    show "kq_insert q p st = Some (SUCCESS, setq q q' (st\<lparr>ptable := h'\<rparr>))"
      using ins(1) by (simp add: kq_insert_def)
    show "relinked st (setq q q' (st\<lparr>ptable := h'\<rparr>))"
      using ins(3,4) by (simp add: relinked_def)
    show "qlinks (setq q q' (st\<lparr>ptable := h'\<rparr>)) (L(q := inserted (ptable st) (getq q st) p (L q)))"
      by (rule qlinks_change [OF assms(1) ins(2), of p]) (use ins(5) set assms(2) in auto)
  qed
qed

lemma kq_remove_links:
  assumes "qlinks st L" "p \<in> set (L q)"
  obtains st' where "kq_remove q p st = Some (SUCCESS, st')" "relinked st st'"
    "qlinks st' (L(q := remove1 p (L q)))"
proof -
  have rep: "queue_rep (ptable st) (getq q st) (L q)" using assms by (simp add: qlinks_def)
  from assms(2) obtain us vs where xs: "L q = us @ p # vs" "p \<notin> set us" by (meson split_list_first)
  then have rm: "remove1 p (L q) = us @ vs" by (simp add: remove1_append)
  from rep xs(1) have "queue_rep (ptable st) (getq q st) (us @ p # vs)" by simp
  then obtain q' h' where rem: "pcb_queue_remove (getq q st) (Some p) (ptable st) = Some (SUCCESS, q', h')"
    "queue_rep h' q' (us @ vs)" "order q' = order (getq q st)"
    "same_but_next (ptable st) h'" "pnext (h' p) = None"
    "\<And>x. x \<notin> set (us @ p # vs) \<Longrightarrow> h' x = ptable st x"
    by (rule pcb_queue_remove_rep) (rule that)
  have dis: "p \<notin> set (L r)" if "r \<noteq> q" for r
    using assms that by (auto simp: qlinks_def)
  show thesis
  proof (rule that)
    show "kq_remove q p st = Some (SUCCESS, setq q q' (st\<lparr>ptable := h'\<rparr>))"
      using rem(1) by (simp add: kq_remove_def)
    show "relinked st (setq q q' (st\<lparr>ptable := h'\<rparr>))"
      using rem(3,4) by (simp add: relinked_def)
    show "qlinks (setq q q' (st\<lparr>ptable := h'\<rparr>)) (L(q := remove1 p (L q)))"
      unfolding rm by (rule qlinks_change [OF assms(1) rem(2), of p]) (use rem(5,6) xs dis in auto)
  qed
qed

lemma kq_pop_links:
  assumes "qlinks st L" "L q = p # ps"
  obtains st' where "kq_pop q st = (SUCCESS, Some p, st')" "relinked st st'" "qlinks st' (L(q := ps))"
proof -
  have rep: "queue_rep (ptable st) (getq q st) (p # ps)" using assms by (metis qlinks_def)
  then obtain q' where pop: "pcb_queue_pop (getq q st) (ptable st) = (SUCCESS, Some p, q', set_next p None (ptable st))"
    "queue_rep (set_next p None (ptable st)) q' ps" "order q' = order (getq q st)"
    by (rule pcb_queue_pop_rep)
  have dis: "p \<notin> set (L r)" if "r \<noteq> q" for r
  proof -
    have "set (L r) \<inter> set (L q) = {}" using assms(1) that by (simp add: qlinks_def)
    then show ?thesis using assms(2) by simp
  qed
  have fresh: "p \<notin> set ps" using queue_rep_distinct [OF rep] by simp
  let ?st = "setq q q' (st\<lparr>ptable := set_next p None (ptable st)\<rparr>)"
  show thesis
  proof (rule that)
    show "kq_pop q st = (SUCCESS, Some p, ?st)" using pop(1) by (simp add: kq_pop_def)
    show "relinked st ?st" using pop(3) by (simp add: relinked_def)
    show "qlinks ?st (L(q := ps))"
      by (rule qlinks_change [OF assms(1) pop(2), of p]) (use assms dis fresh in \<open>auto simp: set_next_apply\<close>)
  qed
qed

lemma kq_pop_none:
  assumes "qlinks st L" "L q = []"
  shows "kq_pop q st = (E_EMPTY_QUEUE, None, setq q (getq q st) (st\<lparr>ptable := ptable st\<rparr>))"
proof -
  have "queue_rep (ptable st) (getq q st) []" using assms by (metis qlinks_def)
  then show ?thesis by (simp add: kq_pop_def pcb_queue_pop_empty)
qed

section \<open>The invariant of the process table\<close>

fun queue_style :: "qid \<Rightarrow> pcb_queue_order" where
  "queue_style QFree = O_PCB_FIFO"
| "queue_style QReady = O_PCB_PRIO"
| "queue_style QZombie = O_PCB_PID"
| "queue_style (QSys i) = O_PCB_PID"

fun belongs :: "qid \<Rightarrow> pcb \<Rightarrow> bool" where
  "belongs QFree b \<longleftrightarrow> pstate b = PROC_STATE_UNUSED"
| "belongs QReady b \<longleftrightarrow> pstate b = PROC_STATE_READY"
| "belongs QZombie b \<longleftrightarrow> pstate b = PROC_STATE_ZOMBIE"
| "belongs (QSys i) b \<longleftrightarrow> pstate b = PROC_STATE_BLOCKED \<and> psyscall b = of_nat i"

fun known :: "qid \<Rightarrow> bool" where
  "known (QSys i) \<longleftrightarrow> i < N_SYSCALLS"
| "known _ \<longleftrightarrow> True"

definition ordered :: "('m, 'a) kernel_scheme \<Rightarrow> (qid \<Rightarrow> nat list) \<Rightarrow> bool" where
  "ordered st L \<longleftrightarrow> (\<forall>q. known q \<longrightarrow> order (getq q st) = queue_style q \<and>
     sorted (map (\<lambda>p. order_key (queue_style q) (ptable st p)) (L q)))"

definition members :: "('m, 'a) kernel_scheme \<Rightarrow> (qid \<Rightarrow> nat list) \<Rightarrow> bool" where
  "members st L \<longleftrightarrow> (\<forall>q. \<forall>p\<in>set (L q). known q \<and> p < N_PROCS \<and> belongs q (ptable st p))"

text \<open>A block is where its state says it is.\<close>

definition placed :: "('m, 'a) kernel_scheme \<Rightarrow> (qid \<Rightarrow> nat list) \<Rightarrow> nat \<Rightarrow> bool" where
  "placed st L p \<longleftrightarrow>
     (pstate (ptable st p) = PROC_STATE_UNUSED \<longrightarrow> p \<in> set (L QFree)) \<and>
     (pstate (ptable st p) = PROC_STATE_READY \<longrightarrow> p \<in> set (L QReady)) \<and>
     (pstate (ptable st p) = PROC_STATE_ZOMBIE \<longrightarrow> p \<in> set (L QZombie)) \<and>
     (pstate (ptable st p) = PROC_STATE_RUNNING \<longleftrightarrow> current_pcb st = Some p)"

text \<open>The invariant, with an exception for the blocks \<open>X\<close> an operation has in hand.\<close>

definition proc_inv :: "nat set \<Rightarrow> ('m, 'a) kernel_scheme \<Rightarrow> (qid \<Rightarrow> nat list) \<Rightarrow> bool" where
  "proc_inv X st L \<longleftrightarrow> qlinks st L \<and> ordered st L \<and> members st L \<and>
     (\<forall>p. current_pcb st = Some p \<longrightarrow> p < N_PROCS) \<and>
     (\<forall>p<N_PROCS. p \<notin> X \<longrightarrow> placed st L p)"

lemma proc_inv_weaken: "proc_inv X st L \<Longrightarrow> X \<subseteq> Y \<Longrightarrow> proc_inv Y st L"
  by (auto simp: proc_inv_def)

lemma proc_inv_release:
  "proc_inv X st L \<Longrightarrow> placed st L p \<Longrightarrow> proc_inv (X - {p}) st L"
  by (auto simp: proc_inv_def)

lemma proc_inv_links: "proc_inv X st L \<Longrightarrow> qlinks st L"
  by (simp add: proc_inv_def)

lemma proc_inv_unqueued:
  assumes "proc_inv X st L" "pstate (ptable st p) = PROC_STATE_NEW \<or> pstate (ptable st p) = PROC_STATE_RUNNING"
  shows "unqueued p L"
proof
  fix q show "p \<notin> set (L q)"
    using assms by (cases q) (fastforce simp: proc_inv_def members_def)+
qed

lemma relinked_placed:
  assumes "relinked st st'" shows "pstate (ptable st' p) = pstate (ptable st p)"
    "current_pcb st' = current_pcb st"
  using assms by (auto simp: relinked_def same_but_next_fields)

lemma belongs_same_but_next: "same_but_next h h' \<Longrightarrow> belongs q (h' x) = belongs q (h x)"
  by (cases q) (simp_all add: same_but_next_fields)

text \<open>One queue changes its list to \<open>xs\<close>; the block \<open>p\<close> is in hand.\<close>

lemma proc_inv_relinked:
  assumes inv: "proc_inv X st L" and rel: "relinked st st'" and links: "qlinks st' (L(q := xs))"
    and sorted: "known q \<Longrightarrow> sorted (map (\<lambda>p. order_key (queue_style q) (ptable st p)) xs)"
    and mem: "\<And>x. x \<in> set xs \<Longrightarrow> known q \<and> x < N_PROCS \<and> belongs q (ptable st x)"
    and away: "set (L q) \<subseteq> insert p (set xs)"
  shows "proc_inv (insert p X) st' (L(q := xs))"
proof -
  from rel have same: "same_but_next (ptable st) (ptable st')"
    and ord: "order (getq r st') = order (getq r st)" and cur: "current_pcb st' = current_pcb st" for r
    by (auto simp: relinked_def)
  have "ordered st' (L(q := xs))"
    using inv sorted by (auto simp: proc_inv_def ordered_def ord order_key_same_but_next [OF same])
  moreover have "members st' (L(q := xs))"
    using inv mem by (auto simp: proc_inv_def members_def belongs_same_but_next [OF same])
  moreover have "placed st' (L(q := xs)) x" if "x < N_PROCS" "x \<notin> insert p X" for x
  proof -
    have keep: "x \<in> set ((L(q := xs)) r)" if "x \<in> set (L r)" for r
      using that \<open>x \<notin> insert p X\<close> away by auto
    have "placed st L x" using inv that by (simp add: proc_inv_def)
    then show ?thesis unfolding placed_def using keep by (auto simp: same_but_next_fields [OF same] cur)
  qed
  ultimately show ?thesis using inv links cur by (auto simp: proc_inv_def)
qed

lemma kq_insert_inv:
  assumes inv: "proc_inv X st L" and free: "unqueued p L" and q: "known q" "p < N_PROCS" "belongs q (ptable st p)"
  obtains st' where "kq_insert q p st = Some (SUCCESS, st')" "relinked st st'"
    "proc_inv (insert p X) st' (L(q := insert_after (\<lambda>p. order_key (queue_style q) (ptable st p)) p (L q)))"
proof -
  let ?k = "\<lambda>p. order_key (queue_style q) (ptable st p)"
  have "order (getq q st) = queue_style q" using inv q by (simp add: proc_inv_def ordered_def)
  then have ins: "inserted (ptable st) (getq q st) p (L q) = insert_after ?k p (L q)"
    by (simp add: inserted_def)
  obtain st' where st': "kq_insert q p st = Some (SUCCESS, st')" "relinked st st'"
    "qlinks st' (L(q := insert_after ?k p (L q)))"
    using kq_insert_links [OF proc_inv_links [OF inv] free, of q] unfolding ins by blast
  have "proc_inv (insert p X) st' (L(q := insert_after ?k p (L q)))"
  proof (rule proc_inv_relinked [OF inv st'(2,3)])
    show "sorted (map ?k (insert_after ?k p (L q)))"
      using inv q by (intro sorted_insert_after) (simp add: proc_inv_def ordered_def)
  next
    fix x assume "x \<in> set (insert_after ?k p (L q))"
    then have "x = p \<or> x \<in> set (L q)" by simp
    then show "known q \<and> x < N_PROCS \<and> belongs q (ptable st x)"
      using inv q by (auto simp: proc_inv_def members_def)
  qed auto
  with st' show thesis by (intro that)
qed

lemma kq_remove_inv:
  assumes inv: "proc_inv X st L" and p: "p \<in> set (L q)"
  obtains st' where "kq_remove q p st = Some (SUCCESS, st')" "relinked st st'"
    "proc_inv (insert p X) st' (L(q := remove1 p (L q)))" "unqueued p (L(q := remove1 p (L q)))"
proof -
  obtain st' where st': "kq_remove q p st = Some (SUCCESS, st')" "relinked st st'"
    "qlinks st' (L(q := remove1 p (L q)))"
    using kq_remove_links [OF proc_inv_links [OF inv] p] by blast
  have known: "known q" using inv p by (auto simp: proc_inv_def members_def)
  have "proc_inv (insert p X) st' (L(q := remove1 p (L q)))"
  proof (rule proc_inv_relinked [OF inv st'(2,3)])
    show "sorted (map (\<lambda>p. order_key (queue_style q) (ptable st p)) (remove1 p (L q)))"
      using inv known by (intro sorted_map_remove1) (simp add: proc_inv_def ordered_def)
  next
    fix x assume "x \<in> set (remove1 p (L q))"
    then have "x \<in> set (L q)" using notin_set_remove1 by fast
    then show "known q \<and> x < N_PROCS \<and> belongs q (ptable st x)"
      using inv by (auto simp: proc_inv_def members_def)
  next
    show "set (L q) \<subseteq> insert p (set (remove1 p (L q)))"
      using in_set_remove1 [of _ p "L q"] by blast
  qed
  moreover have "distinct (L q)" using proc_inv_links [OF inv] by (auto simp: qlinks_def dest: queue_rep_distinct)
  then have "unqueued p (L(q := remove1 p (L q)))"
    using proc_inv_links [OF inv] p by (auto simp: qlinks_def)
  ultimately show thesis using st' that by blast
qed

lemma kq_pop_inv:
  assumes inv: "proc_inv X st L" and p: "L q = p # ps"
  obtains st' where "kq_pop q st = (SUCCESS, Some p, st')" "relinked st st'"
    "proc_inv (insert p X) st' (L(q := ps))" "unqueued p (L(q := ps))"
proof -
  obtain st' where st': "kq_pop q st = (SUCCESS, Some p, st')" "relinked st st'" "qlinks st' (L(q := ps))"
    using kq_pop_links [OF proc_inv_links [OF inv] p] by blast
  have known: "known q" using inv p by (auto simp: proc_inv_def members_def dest!: spec [of _ q])
  have "proc_inv (insert p X) st' (L(q := ps))"
  proof (rule proc_inv_relinked [OF inv st'(2,3)])
    have "sorted (map (\<lambda>p. order_key (queue_style q) (ptable st p)) (L q))"
      using inv known by (simp add: proc_inv_def ordered_def)
    then show "sorted (map (\<lambda>p. order_key (queue_style q) (ptable st p)) ps)" by (simp add: p)
  next
    fix x assume "x \<in> set ps"
    then have "x \<in> set (L q)" by (simp add: p)
    then show "known q \<and> x < N_PROCS \<and> belongs q (ptable st x)"
      using inv by (auto simp: proc_inv_def members_def)
  qed (simp add: p)
  moreover have "p \<notin> set (L r)" if "r \<noteq> q" for r
  proof -
    have "set (L r) \<inter> set (L q) = {}" using proc_inv_links [OF inv] that by (simp add: qlinks_def)
    then show ?thesis by (simp add: p)
  qed
  moreover have "distinct (L q)" using proc_inv_links [OF inv] by (auto simp: qlinks_def dest: queue_rep_distinct)
  ultimately show thesis using st' that [of st'] p by auto
qed

text \<open>Assigning fields of a block in hand, and fields the queues do not look at.\<close>

lemma proc_inv_upd_in_hand:
  assumes inv: "proc_inv X st L" and free: "unqueued p L" and f: "\<And>b. pnext (f b) = pnext b"
  shows "proc_inv (insert p X) (upd_pcb p f st) L"
proof -
  have other: "ptable (upd_pcb p f st) x = ptable st x" if "x \<in> set (L q)" for x q
    using free that by auto
  have "ordered (upd_pcb p f st) L"
    using inv other by (auto simp: proc_inv_def ordered_def cong: map_cong)
  moreover have "members (upd_pcb p f st) L"
    using inv free by (auto simp: proc_inv_def members_def)
  ultimately show ?thesis
    using inv qlinks_upd_pcb [OF proc_inv_links [OF inv] f]
    by (auto simp: proc_inv_def placed_def)
qed

lemma insert_after_fifo: "insert_after (\<lambda>p. order_key O_PCB_FIFO (h p)) p xs = xs @ [p]"
  by (simp add: insert_after_def takeWhile_True)

abbreviation by_prio :: "('m, 'a) kernel_scheme \<Rightarrow> nat \<Rightarrow> nat" where
  "by_prio st p \<equiv> unat (priority (ptable st p))"

abbreviation by_pid :: "('m, 'a) kernel_scheme \<Rightarrow> nat \<Rightarrow> nat" where
  "by_pid st p \<equiv> unat (pid (ptable st p))"

lemma pcb_free_inv:
  assumes inv: "proc_inv X st L" and free: "unqueued p L" and p: "p < N_PROCS" "current_pcb st \<noteq> Some p"
  obtains st' where "pcb_free (Some p) st = Some st'"
    "relinked (upd_pcb p (\<lambda>b. b\<lparr>pstate := PROC_STATE_UNUSED\<rparr>) st) st'"
    "proc_inv (X - {p}) st' (L(QFree := L QFree @ [p]))"
proof -
  let ?st = "upd_pcb p (\<lambda>b. b\<lparr>pstate := PROC_STATE_UNUSED\<rparr>) st"
  have "proc_inv (insert p X) ?st L" by (rule proc_inv_upd_in_hand [OF inv free]) simp
  then obtain st' where st': "kq_insert QFree p ?st = Some (SUCCESS, st')" "relinked ?st st'"
    "proc_inv (insert p (insert p X)) st' (L(QFree := L QFree @ [p]))"
    using kq_insert_inv [of "insert p X" ?st L p QFree] free p
    by (auto simp: insert_after_fifo simp del: order_key.simps)
  have "placed st' (L(QFree := L QFree @ [p])) p"
    using p(2) by (simp add: placed_def relinked_placed [OF st'(2)])
  with st'(3) have "proc_inv (insert p (insert p X) - {p}) st' (L(QFree := L QFree @ [p]))"
    by (rule proc_inv_release)
  then have "proc_inv (X - {p}) st' (L(QFree := L QFree @ [p]))" by simp
  moreover have "pcb_free (Some p) st = Some st'" using st'(1) by (simp add: pcb_free_def)
  ultimately show thesis using st'(2) that by blast
qed

lemma schedule_inv:
  assumes inv: "proc_inv X st L" and free: "unqueued p L"
    and p: "p < N_PROCS" "pstate (ptable st p) \<noteq> PROC_STATE_UNUSED" "pstate (ptable st p) \<noteq> PROC_STATE_ZOMBIE"
  obtains st' where "schedule (Some p) st = Some st'"
    "relinked (upd_pcb p (\<lambda>b. b\<lparr>pstate := PROC_STATE_READY, psyscall := 0\<rparr>) st) st'"
    "proc_inv (insert p X) st' (L(QReady := insert_after (by_prio st) p (L QReady)))"
proof -
  let ?st = "upd_pcb p (\<lambda>b. b\<lparr>pstate := PROC_STATE_READY, psyscall := 0\<rparr>) st"
  have "by_prio ?st = by_prio st" by auto
  moreover have "proc_inv (insert p X) ?st L" by (rule proc_inv_upd_in_hand [OF inv free]) simp
  ultimately obtain st' where st': "kq_insert QReady p ?st = Some (SUCCESS, st')" "relinked ?st st'"
    "proc_inv (insert p (insert p X)) st' (L(QReady := insert_after (by_prio st) p (L QReady)))"
    using kq_insert_inv [of "insert p X" ?st L p QReady] free p(1) by auto
  moreover have "schedule (Some p) st = Some st'" using st'(1) p by (simp add: schedule_def)
  ultimately show thesis using that by simp
qed

text \<open>A block that is ready, or free, and not the current one, is placed once it is in its queue.\<close>

lemma schedule_release:
  assumes "proc_inv (insert p X) st' (L(QReady := insert_after k p xs))" "current_pcb st' \<noteq> Some p"
    "relinked (upd_pcb p (\<lambda>b. b\<lparr>pstate := PROC_STATE_READY, psyscall := 0\<rparr>) st) st'"
  shows "proc_inv (X - {p}) st' (L(QReady := insert_after k p xs))"
proof -
  have "placed st' (L(QReady := insert_after k p xs)) p"
    using assms(2) by (simp add: placed_def relinked_placed [OF assms(3)])
  from proc_inv_release [OF assms(1) this] show ?thesis by simp
qed

lemma pcb_alloc_inv:
  assumes inv: "proc_inv X st L" and L: "L QFree = p # ps" and cur: "current_pcb st \<noteq> Some p"
  obtains st' st1 where "pcb_alloc st = (SUCCESS, Some p, st')" "relinked st st1"
    "st' = upd_pcb p (\<lambda>b. b\<lparr>pid := next_pid st, pstate := PROC_STATE_NEW\<rparr>) (st1\<lparr>next_pid := next_pid st + 1\<rparr>)"
    "proc_inv (X - {p}) st' (L(QFree := ps))" "unqueued p (L(QFree := ps))"
proof -
  obtain st1 where st1: "kq_pop QFree st = (SUCCESS, Some p, st1)" "relinked st st1"
    "proc_inv (insert p X) st1 (L(QFree := ps))" "unqueued p (L(QFree := ps))"
    using kq_pop_inv [OF inv L] by blast
  let ?f = "\<lambda>b. b\<lparr>pid := next_pid st, pstate := PROC_STATE_NEW\<rparr>"
  let ?st = "upd_pcb p ?f (st1\<lparr>next_pid := next_pid st + 1\<rparr>)"
  have n: "next_pid st1 = next_pid st" "current_pcb st1 = current_pcb st" using st1(2) by (auto simp: relinked_def)
  have "proc_inv (insert p X) (st1\<lparr>next_pid := next_pid st + 1\<rparr>) (L(QFree := ps))"
    using st1(3) by (simp add: proc_inv_def qlinks_def ordered_def members_def placed_def)
  then have "proc_inv (insert p (insert p X)) ?st (L(QFree := ps))"
    by (rule proc_inv_upd_in_hand) (use st1(4) in auto)
  moreover have "placed ?st (L(QFree := ps)) p" using cur by (simp add: placed_def n)
  ultimately have "proc_inv (insert p (insert p X) - {p}) ?st (L(QFree := ps))"
    by (rule proc_inv_release)
  then have "proc_inv (X - {p}) ?st (L(QFree := ps))" by simp
  moreover have "pcb_alloc st = (SUCCESS, Some p, ?st)" using st1(1) n by (simp add: pcb_alloc_def)
  ultimately show thesis using that st1(2,4) by blast
qed

lemma free_all_inv:
  assumes "proc_inv {i..<i + n} st ((\<lambda>_. [])(QFree := [0..<i]))" "i + n = N_PROCS" "current_pcb st = None"
  shows "\<exists>st'. free_all i n st = Some st' \<and> proc_inv {} st' ((\<lambda>_. [])(QFree := [0..<N_PROCS])) \<and>
    current_pcb st' = None \<and> next_pid st' = next_pid st"
  using assms
proof (induction n arbitrary: i st)
  case 0
  then show ?case by auto
next
  case (Suc n)
  let ?L = "(\<lambda>_. [])(QFree := [0..<i])"
  have i: "i < N_PROCS" "unqueued i ?L" "current_pcb st \<noteq> Some i" using Suc.prems by auto
  obtain st' where st': "pcb_free (Some i) st = Some st'"
    "relinked (upd_pcb i (\<lambda>b. b\<lparr>pstate := PROC_STATE_UNUSED\<rparr>) st) st'"
    "proc_inv ({i..<i + Suc n} - {i}) st' (?L(QFree := ?L QFree @ [i]))"
    by (rule pcb_free_inv [OF Suc.prems(1) i(2,1,3)])
  have "{i..<i + Suc n} - {i} = {Suc i..<Suc i + n}" "?L(QFree := ?L QFree @ [i]) = (\<lambda>_. [])(QFree := [0..<Suc i])"
    by auto
  then have inv': "proc_inv {Suc i..<Suc i + n} st' ((\<lambda>_. [])(QFree := [0..<Suc i]))" using st'(3) by simp
  have "current_pcb st' = None" "next_pid st' = next_pid st"
    using st'(2) Suc.prems(3) by (simp_all add: relinked_def)
  with Suc.IH [OF inv'] Suc.prems(2) show ?case by (simp add: st'(1))
qed

lemma reset_syscall_queues_ok:
  "\<exists>st'. reset_syscall_queues i n st = Some st' \<and> ptable st' = ptable st \<and> current_pcb st' = current_pcb st \<and>
     next_pid st' = next_pid st \<and>
     (\<forall>q. getq q st' = (case q of
        QSys j \<Rightarrow> if i \<le> j \<and> j < i + n then (getq q st)\<lparr>head := None, tail := None, order := O_PCB_PID\<rparr> else getq q st
      | _ \<Rightarrow> getq q st))"
proof (induction n arbitrary: i st)
  case 0
  then show ?case by (auto split: qid.splits)
next
  case (Suc n)
  let ?st = "setq (QSys i) ((getq (QSys i) st)\<lparr>head := None, tail := None, order := O_PCB_PID\<rparr>) st"
  obtain st' where IH: "reset_syscall_queues (Suc i) n ?st = Some st'" "ptable st' = ptable ?st"
    "current_pcb st' = current_pcb ?st" "next_pid st' = next_pid ?st"
    "\<forall>q. getq q st' = (case q of
        QSys j \<Rightarrow> if Suc i \<le> j \<and> j < Suc i + n then (getq q ?st)\<lparr>head := None, tail := None, order := O_PCB_PID\<rparr> else getq q ?st
      | _ \<Rightarrow> getq q ?st)"
    using Suc.IH [of "Suc i" ?st] by blast
  have "reset_syscall_queues i (Suc n) st = Some st'"
    using IH(1) by (simp add: reset_queue_def pcb_queue_reset_def)
  moreover have "getq q st' = (case q of
        QSys j \<Rightarrow> if i \<le> j \<and> j < i + Suc n then (getq q st)\<lparr>head := None, tail := None, order := O_PCB_PID\<rparr> else getq q st
      | _ \<Rightarrow> getq q st)" for q
    using IH(5) [rule_format, of q] by (cases q) auto
  ultimately show ?case using IH(2-4) by auto
qed

text \<open>Before \<^verbatim>\<open>pcb_init\<close> the queues past the last system call do not exist; they are empty here.\<close>

definition zeroed :: "('m, 'a) kernel_scheme \<Rightarrow> bool" where
  "zeroed st \<longleftrightarrow> (\<forall>p. pnext (ptable st p) = None) \<and>
     (\<forall>i. N_SYSCALLS \<le> i \<longrightarrow> head (syscall_queue st i) = None \<and> tail (syscall_queue st i) = None)"

lemma pcb_init_inv:
  assumes "zeroed st"
  shows "\<exists>st'. pcb_init st = Some st' \<and> proc_inv {} st' ((\<lambda>_. [])(QFree := [0..<N_PROCS])) \<and>
    current_pcb st' = None \<and> next_pid st' = next_pid st"
proof -
  define st1 where "st1 = st\<lparr>current_pcb := None,
     pcb_freelist := (pcb_freelist st)\<lparr>head := None, tail := None, order := O_PCB_FIFO\<rparr>,
     ready_queue := (ready_queue st)\<lparr>head := None, tail := None, order := O_PCB_PRIO\<rparr>,
     zombie_queue := (zombie_queue st)\<lparr>head := None, tail := None, order := O_PCB_PID\<rparr>\<rparr>"
  obtain st2 where st2: "reset_syscall_queues 0 N_SYSCALLS st1 = Some st2" "ptable st2 = ptable st1"
    "current_pcb st2 = current_pcb st1" "next_pid st2 = next_pid st1"
    "\<forall>q. getq q st2 = (case q of
        QSys j \<Rightarrow> if 0 \<le> j \<and> j < 0 + N_SYSCALLS then (getq q st1)\<lparr>head := None, tail := None, order := O_PCB_PID\<rparr> else getq q st1
      | _ \<Rightarrow> getq q st1)"
    using reset_syscall_queues_ok [of 0 N_SYSCALLS st1] by blast
  have q: "head (getq q st2) = None \<and> tail (getq q st2) = None \<and> (known q \<longrightarrow> order (getq q st2) = queue_style q)" for q
    using st2(5) [rule_format, of q] assms by (cases q) (auto simp: st1_def zeroed_def)
  have e: "(\<lambda>_. [])(QFree := [0..<0]) = (\<lambda>_. [])" by (simp add: fun_eq_iff)
  have "proc_inv {0..<N_PROCS} st2 (\<lambda>_. [])"
    using q st2(2,3) assms
    by (simp add: proc_inv_def qlinks_def ordered_def members_def zeroed_def st1_def)
  then have "proc_inv {0..<0 + N_PROCS} st2 ((\<lambda>_. [])(QFree := [0..<0]))" unfolding e by simp
  from free_all_inv [OF this] st2(3,4) have
    "\<exists>st'. free_all 0 N_PROCS st2 = Some st' \<and> proc_inv {} st' ((\<lambda>_. [])(QFree := [0..<N_PROCS])) \<and>
       current_pcb st' = None \<and> next_pid st' = next_pid st"
    by (simp add: st1_def)
  moreover have "pcb_init st = free_all 0 N_PROCS st2"
    using st2(1) by (simp add: pcb_init_def reset_queue_def pcb_queue_reset_def st1_def)
  ultimately show ?thesis by simp
qed

lemma dispatch_inv:
  assumes inv: "proc_inv X st L" and L: "L QReady = p # ps" and cur: "current_pcb st = None"
  obtains st' where "dispatch ops st = Some (True, st')" "current_pcb st' = Some p"
    "pstate (ptable st' p) = PROC_STATE_RUNNING" "pticks (ptable st' p) = 3" "psyscall (ptable st' p) = 0"
    "reg_cr3 (regs (ptable st' p)) = op_pgdir ops (memctx (ptable st p)) (memory st)"
    "\<And>x. x \<noteq> p \<Longrightarrow> pstate (ptable st' x) = pstate (ptable st x)" "memory st' = memory st"
    "proc_inv (X - {p}) st' (L(QReady := ps))"
proof -
  obtain st1 where st1: "kq_pop QReady st = (SUCCESS, Some p, st1)" "relinked st st1"
    "proc_inv (insert p X) st1 (L(QReady := ps))" "unqueued p (L(QReady := ps))"
    using kq_pop_inv [OF inv L] by blast
  have same: "same_but_next (ptable st) (ptable st1)" and mem: "memory st1 = memory st"
    and cur1: "current_pcb st1 = None" using st1(2) cur by (auto simp: relinked_def)
  let ?f = "\<lambda>b. b\<lparr>regs := (regs b)\<lparr>reg_cr3 := op_pgdir ops (memctx b) (memory st1)\<rparr>,
              pstate := PROC_STATE_RUNNING, pticks := 3, psyscall := 0\<rparr>"
  let ?st = "upd_pcb p ?f (st1\<lparr>current_pcb := Some p\<rparr>)"
  have "p < N_PROCS" using inv L by (auto simp: proc_inv_def members_def dest!: spec [of _ QReady])
  then have "proc_inv (insert p X) (st1\<lparr>current_pcb := Some p\<rparr>) (L(QReady := ps))"
    using st1(3) cur1 by (simp add: proc_inv_def qlinks_def ordered_def members_def placed_def)
  then have "proc_inv (insert p (insert p X)) ?st (L(QReady := ps))"
    by (rule proc_inv_upd_in_hand) (use st1(4) in auto)
  moreover have "placed ?st (L(QReady := ps)) p" by (simp add: placed_def)
  ultimately have "proc_inv (insert p (insert p X) - {p}) ?st (L(QReady := ps))"
    by (rule proc_inv_release)
  then have "proc_inv (X - {p}) ?st (L(QReady := ps))" by simp
  moreover have "dispatch ops st = Some (True, ?st)" using st1(1) cur by (simp add: dispatch_def)
  ultimately show thesis
    by (intro that [of ?st]) (simp_all add: mem same_but_next_fields [OF same])
qed

lemma dispatch_waits:
  assumes "proc_inv X st L" "L QReady = []" "current_pcb st = None"
  shows "dispatch ops st = Some (False, st)"
  using kq_pop_none [OF proc_inv_links [OF assms(1)] assms(2)] assms(3) by (simp add: dispatch_def)

section \<open>The timer tick\<close>

text \<open>The rest of the state: everything but the links, the state and the system call of the blocks
  and the queues.\<close>

definition rescheduled :: "('m, 'a) kernel_scheme \<Rightarrow> ('m, 'a) kernel_scheme \<Rightarrow> bool" where
  "rescheduled st st' \<longleftrightarrow>
     (\<forall>x. (ptable st' x)\<lparr>pnext := None, pstate := PROC_STATE_UNUSED, psyscall := 0\<rparr> =
           (ptable st x)\<lparr>pnext := None, pstate := PROC_STATE_UNUSED, psyscall := 0\<rparr>) \<and>
     current_pcb st' = current_pcb st \<and> init_pcb st' = init_pcb st \<and> next_pid st' = next_pid st \<and>
     ticks st' = ticks st \<and> memory st' = memory st"

lemma rescheduled_refl [simp]: "rescheduled st st"
  by (simp add: rescheduled_def)

lemma rescheduled_trans: "rescheduled st st' \<Longrightarrow> rescheduled st' st'' \<Longrightarrow> rescheduled st st''"
  by (simp add: rescheduled_def)

lemma rescheduled_relinked:
  assumes "relinked st st'" shows "rescheduled st st'"
proof -
  have "(ptable st' x)\<lparr>pnext := None, pstate := PROC_STATE_UNUSED, psyscall := 0\<rparr> =
        (ptable st x)\<lparr>pnext := None, pstate := PROC_STATE_UNUSED, psyscall := 0\<rparr>" for x
  proof -
    have "(ptable st' x)\<lparr>pnext := None\<rparr> = (ptable st x)\<lparr>pnext := None\<rparr>"
      using assms by (simp add: relinked_def same_but_next_def)
    from arg_cong [OF this, of "\<lambda>b. b\<lparr>pstate := PROC_STATE_UNUSED, psyscall := 0\<rparr>"] show ?thesis by simp
  qed
  then show ?thesis using assms by (simp add: rescheduled_def relinked_def)
qed

lemma rescheduled_upd:
  "(\<And>b. (f b)\<lparr>pnext := None, pstate := PROC_STATE_UNUSED, psyscall := 0\<rparr> =
         b\<lparr>pnext := None, pstate := PROC_STATE_UNUSED, psyscall := 0\<rparr>) \<Longrightarrow> rescheduled st (upd_pcb p f st)"
  by (simp add: rescheduled_def)

lemma rescheduled_fields:
  assumes "rescheduled st st'"
  shows "wakeup (ptable st' x) = wakeup (ptable st x)" "priority (ptable st' x) = priority (ptable st x)"
    "pid (ptable st' x) = pid (ptable st x)" "pticks (ptable st' x) = pticks (ptable st x)"
    "memctx (ptable st' x) = memctx (ptable st x)"
proof -
  have e: "(ptable st' x)\<lparr>pnext := None, pstate := PROC_STATE_UNUSED, psyscall := 0\<rparr> =
           (ptable st x)\<lparr>pnext := None, pstate := PROC_STATE_UNUSED, psyscall := 0\<rparr>"
    using assms by (simp add: rescheduled_def)
  show "wakeup (ptable st' x) = wakeup (ptable st x)" using arg_cong [OF e, of wakeup] by simp
  show "priority (ptable st' x) = priority (ptable st x)" using arg_cong [OF e, of priority] by simp
  show "pid (ptable st' x) = pid (ptable st x)" using arg_cong [OF e, of pid] by simp
  show "pticks (ptable st' x) = pticks (ptable st x)" using arg_cong [OF e, of pticks] by simp
  show "memctx (ptable st' x) = memctx (ptable st x)" using arg_cong [OF e, of memctx] by simp
qed

abbreviation due :: "('m, 'a) kernel_scheme \<Rightarrow> nat \<Rightarrow> bool" where
  "due st p \<equiv> wakeup (ptable st p) < ticks st"

text \<open>The lists after the sleepers \<open>ws\<close> have been moved to the ready queue.\<close>

definition woken :: "('m, 'a) kernel_scheme \<Rightarrow> (qid \<Rightarrow> nat list) \<Rightarrow> qid \<Rightarrow> nat list" where
  "woken st L = L(QSys SYS_sleep := dropWhile (due st) (L (QSys SYS_sleep)),
     QReady := fold (insert_after (by_prio st)) (takeWhile (due st) (L (QSys SYS_sleep))) (L QReady))"

text \<open>Waking the first sleeper.\<close>

lemma wake_one:
  assumes inv: "proc_inv {} st L" and L: "L (QSys SYS_sleep) = p # ps"
  obtains st1 st2 where "kq_remove (QSys SYS_sleep) p st = Some (SUCCESS, st1)" "schedule (Some p) st1 = Some st2"
    "rescheduled st st2" "pstate (ptable st2 p) = PROC_STATE_READY"
    "proc_inv {} st2 (L(QSys SYS_sleep := ps, QReady := insert_after (by_prio st) p (L QReady)))"
proof -
  have p: "p \<in> set (L (QSys SYS_sleep))" by (simp add: L)
  have bl: "pstate (ptable st p) = PROC_STATE_BLOCKED" "p < N_PROCS"
    using inv p by (auto simp: proc_inv_def members_def dest!: spec [of _ "QSys SYS_sleep"])
  have cur: "current_pcb st \<noteq> Some p" using inv bl by (auto simp: proc_inv_def placed_def)
  obtain st1 where st1: "kq_remove (QSys SYS_sleep) p st = Some (SUCCESS, st1)" "relinked st st1"
    "proc_inv (insert p {}) st1 (L(QSys SYS_sleep := remove1 p (L (QSys SYS_sleep))))"
    "unqueued p (L(QSys SYS_sleep := remove1 p (L (QSys SYS_sleep))))"
    by (rule kq_remove_inv [OF inv p])
  let ?L = "L(QSys SYS_sleep := ps)"
  have inv1: "proc_inv {p} st1 ?L" "unqueued p ?L" using st1(3,4) L by (simp_all split del: if_split)
  have same: "same_but_next (ptable st) (ptable st1)" using st1(2) by (simp add: relinked_def)
  have states: "pstate (ptable st1 p) \<noteq> PROC_STATE_UNUSED" "pstate (ptable st1 p) \<noteq> PROC_STATE_ZOMBIE"
    using bl by (simp_all add: same_but_next_fields [OF same])
  obtain st2 where st2: "schedule (Some p) st1 = Some st2"
    "relinked (upd_pcb p (\<lambda>b. b\<lparr>pstate := PROC_STATE_READY, psyscall := 0\<rparr>) st1) st2"
    "proc_inv (insert p {p}) st2 (?L(QReady := insert_after (by_prio st1) p (?L QReady)))"
    by (rule schedule_inv [OF inv1 bl(2) states])
  have prio: "by_prio st1 = by_prio st" by (simp add: fun_eq_iff same_but_next_fields [OF same])
  have "current_pcb st2 = current_pcb st" using st1(2) st2(2) by (simp add: relinked_def)
  then have "proc_inv ({p} - {p}) st2 (?L(QReady := insert_after (by_prio st1) p (?L QReady)))"
    using schedule_release [OF st2(3) _ st2(2)] cur by simp
  moreover have "rescheduled st st2"
    by (rule rescheduled_trans [OF rescheduled_relinked [OF st1(2)]],
        rule rescheduled_trans [OF _ rescheduled_relinked [OF st2(2)]], rule rescheduled_upd) simp
  moreover have "pstate (ptable st2 p) = PROC_STATE_READY" by (simp add: relinked_placed [OF st2(2)])
  ultimately show thesis using st1(1) st2(1) prio by (intro that) simp_all
qed

lemma wake_sleepers_inv:
  assumes "proc_inv {} st L"
  shows "\<exists>st'. wake_sleepers st = Some st' \<and> proc_inv {} st' (woken st L) \<and> rescheduled st st'"
  using assms
proof (induction "L (QSys SYS_sleep)" arbitrary: st L)
  case Nil
  have "queue_rep (ptable st) (syscall_queue st SYS_sleep) []"
    using proc_inv_links [OF Nil.prems] Nil.hyps by (metis getq.simps(4) qlinks_def)
  then have "wake_sleepers st = Some st"
    by (simp add: wake_sleepers.simps pcb_queue_empty_def PCB_QUEUE_EMPTY_def)
  moreover have "woken st L = L" using Nil.hyps by (simp add: woken_def fun_eq_iff)
  ultimately show ?case using Nil.prems by simp
next
  case (Cons p ps)
  have rep: "queue_rep (ptable st) (syscall_queue st SYS_sleep) (p # ps)"
    using proc_inv_links [OF Cons.prems] Cons.hyps(2) by (metis getq.simps(4) qlinks_def)
  then have hd: "head (syscall_queue st SYS_sleep) = Some p" by (simp add: queue_rep_def)
  show ?case
  proof (cases "due st p")
    case False
    then have "wake_sleepers st = Some st"
      by (simp add: wake_sleepers.simps pcb_queue_empty_def PCB_QUEUE_EMPTY_def pcb_queue_peek_def hd not_less)
    moreover have "woken st L = L" using Cons.hyps(2) [symmetric] False by (simp add: woken_def fun_eq_iff)
    ultimately show ?thesis using Cons.prems by simp
  next
    case True
    let ?L = "L(QSys SYS_sleep := ps, QReady := insert_after (by_prio st) p (L QReady))"
    obtain st1 st2 where one: "kq_remove (QSys SYS_sleep) p st = Some (SUCCESS, st1)"
      "schedule (Some p) st1 = Some st2" "rescheduled st st2" "proc_inv {} st2 ?L"
      using wake_one [OF Cons.prems Cons.hyps(2) [symmetric]] by blast
    from True have "\<not> ticks st \<le> wakeup (ptable st p)" by simp
    with one(1,2) have step: "wake_sleepers st = wake_sleepers st2"
      by (subst wake_sleepers.simps) (simp add: pcb_queue_empty_def PCB_QUEUE_EMPTY_def pcb_queue_peek_def hd)
    have due: "due st2 = due st" and prio: "by_prio st2 = by_prio st"
      using one(3) by (auto simp: fun_eq_iff rescheduled_fields) (simp_all add: rescheduled_def)
    have "woken st2 ?L = woken st L"
      using True Cons.hyps(2) [symmetric] by (simp add: woken_def due prio fun_eq_iff)
    then show ?thesis using Cons.hyps(1) [of ?L st2] one(3,4) rescheduled_trans [OF one(3)] step by auto
  qed
qed

lemma insert_after_nonempty [simp]: "insert_after k p xs \<noteq> []"
  by (simp add: insert_after_def)

lemma proc_inv_running:
  assumes "proc_inv {} st L" "current_pcb st = Some p"
  shows "p < N_PROCS" "pstate (ptable st p) = PROC_STATE_RUNNING" "unqueued p L"
proof -
  show p: "p < N_PROCS" using assms by (simp add: proc_inv_def)
  show s: "pstate (ptable st p) = PROC_STATE_RUNNING" using assms p by (simp add: proc_inv_def placed_def)
  show "unqueued p L" by (rule proc_inv_unqueued [OF assms(1)]) (simp add: s)
qed

text \<open>The running process goes back to the ready queue.\<close>

lemma preempt_inv:
  assumes inv: "proc_inv {} st L" and cur: "current_pcb st = Some p"
  obtains st' where "schedule (Some p) st = Some st'" "pstate (ptable st' p) = PROC_STATE_READY"
    "rescheduled st st'"
    "proc_inv {} (st'\<lparr>current_pcb := None\<rparr>) (L(QReady := insert_after (by_prio st) p (L QReady)))"
proof -
  note run = proc_inv_running [OF assms]
  let ?L = "L(QReady := insert_after (by_prio st) p (L QReady))"
  have "pstate (ptable st p) \<noteq> PROC_STATE_UNUSED" "pstate (ptable st p) \<noteq> PROC_STATE_ZOMBIE" using run(2) by simp_all
  then obtain st' where st': "schedule (Some p) st = Some st'"
    "relinked (upd_pcb p (\<lambda>b. b\<lparr>pstate := PROC_STATE_READY, psyscall := 0\<rparr>) st) st'"
    "proc_inv (insert p {}) st' ?L"
    by (rule schedule_inv [OF inv run(3,1)])
  have ready: "pstate (ptable st' p) = PROC_STATE_READY" by (simp add: relinked_placed [OF st'(2)])
  have cur': "current_pcb st' = Some p" using cur st'(2) by (simp add: relinked_def)
  have "proc_inv {p} (st'\<lparr>current_pcb := None\<rparr>) ?L"
    using st'(3) cur' by (auto simp: proc_inv_def qlinks_def ordered_def members_def placed_def)
  moreover have "placed (st'\<lparr>current_pcb := None\<rparr>) ?L p" using ready by (simp add: placed_def)
  ultimately have "proc_inv ({p} - {p}) (st'\<lparr>current_pcb := None\<rparr>) ?L" by (rule proc_inv_release)
  moreover have "rescheduled st st'"
    by (rule rescheduled_trans [OF _ rescheduled_relinked [OF st'(2)]], rule rescheduled_upd) simp
  ultimately show thesis using st'(1) ready by (intro that) simp_all
qed

text \<open>Assigning fields that no queue looks at.\<close>

definition quiet :: "ptab \<Rightarrow> ptab \<Rightarrow> bool" where
  "quiet h h' \<longleftrightarrow> (\<forall>x. pnext (h' x) = pnext (h x) \<and> pstate (h' x) = pstate (h x) \<and>
     psyscall (h' x) = psyscall (h x) \<and> pid (h' x) = pid (h x) \<and> priority (h' x) = priority (h x) \<and>
     wakeup (h' x) = wakeup (h x))"

lemma proc_inv_quiet:
  assumes inv: "proc_inv X st L" and q: "quiet (ptable st) h'"
  shows "proc_inv X (st\<lparr>ptable := h'\<rparr>) L"
proof -
  have b: "belongs r (h' x) = belongs r (ptable st x)" for r x using q by (cases r) (auto simp: quiet_def)
  have k: "order_key s (h' x) = order_key s (ptable st x)" for s x using q by (cases s) (auto simp: quiet_def)
  have "queue_rep h' (getq r st) (L r)" for r
    by (rule queue_rep_cong [of "ptable st"]) (use inv q in \<open>auto simp: proc_inv_def qlinks_def quiet_def\<close>)
  then have "qlinks (st\<lparr>ptable := h'\<rparr>) L"
    using inv q by (simp add: proc_inv_def qlinks_def quiet_def)
  then show ?thesis
    using inv q by (simp add: proc_inv_def ordered_def members_def placed_def b k quiet_def)
qed

lemma proc_inv_quiet_upd:
  assumes "proc_inv X st L" "quiet (ptable st) ((ptable st)(p := f (ptable st p)))"
  shows "proc_inv X (upd_pcb p f st) L"
  unfolding upd_pcb_def using assms by (rule proc_inv_quiet)

lemma proc_inv_memory: "proc_inv X st L \<Longrightarrow> proc_inv X (st\<lparr>memory := m\<rparr>) L"
  by (simp add: proc_inv_def qlinks_def ordered_def members_def placed_def)

lemma pcb_on_tick_inv:
  assumes inv: "proc_inv {} st L" and ini: "init_pcb st \<noteq> None"
  shows "\<exists>st'. pcb_on_tick ops st = Some st' \<and> memory st' = memory st \<and>
    (case current_pcb st of
       None \<Rightarrow> proc_inv {} st' (woken st L) \<and> current_pcb st' = None
     | Some p \<Rightarrow>
         if pticks (ptable st p) = 1 then
           (let ready = insert_after (by_prio st) p (woken st L QReady)
            in proc_inv {} st' ((woken st L)(QReady := tl ready)) \<and> current_pcb st' = Some (hd ready) \<and>
               pticks (ptable st' (hd ready)) = 3)
         else proc_inv {} st' (woken st L) \<and> current_pcb st' = Some p \<and>
              pticks (ptable st' p) = pticks (ptable st p) - 1)"
proof -
  obtain st1 where w: "wake_sleepers st = Some st1" "proc_inv {} st1 (woken st L)" "rescheduled st st1"
    using wake_sleepers_inv [OF inv] by blast
  have c: "current_pcb st1 = current_pcb st" "memory st1 = memory st" using w(3) by (simp_all add: rescheduled_def)
  from ini obtain i where ini: "init_pcb st = Some i" by blast
  show ?thesis
  proof (cases "current_pcb st")
    case None
    then show ?thesis using w c ini by (simp add: pcb_on_tick_def)
  next
    case (Some p)
    let ?st2 = "upd_pcb p (\<lambda>b. b\<lparr>pticks := pticks b - 1\<rparr>) st1"
    have inv2: "proc_inv {} ?st2 (woken st L)"
      by (rule proc_inv_quiet_upd [OF w(2)]) (simp add: quiet_def)
    have t: "pticks (ptable ?st2 p) = pticks (ptable st p) - 1" by (simp add: rescheduled_fields [OF w(3)])
    have "v - 1 < 1 \<longleftrightarrow> v = 1" for v :: u64 by simp
    then have last: "pticks (ptable ?st2 p) < 1 \<longleftrightarrow> pticks (ptable st p) = 1" unfolding t .
    have prio: "by_prio ?st2 = by_prio st" by (simp add: fun_eq_iff rescheduled_fields [OF w(3)])
    show ?thesis
    proof (cases "pticks (ptable st p) = 1")
      case False
      then have "pcb_on_tick ops st = Some ?st2"
        using ini Some w(1) c last by (simp add: pcb_on_tick_def Let_def del: upd_pcb_fields(1))
      then show ?thesis using False Some inv2 t c by (simp del: upd_pcb_fields(1))
    next
      case True
      have cur2: "current_pcb ?st2 = Some p" using Some c by simp
      let ?ready = "insert_after (by_prio ?st2) p (woken st L QReady)"
      obtain st3 where st3: "schedule (Some p) ?st2 = Some st3" "rescheduled ?st2 st3"
        "proc_inv {} (st3\<lparr>current_pcb := None\<rparr>) ((woken st L)(QReady := ?ready))"
        using preempt_inv [OF inv2 cur2] by blast
      have L: "((woken st L)(QReady := ?ready)) QReady = hd ?ready # tl ?ready" by simp
      have none: "current_pcb (st3\<lparr>current_pcb := None\<rparr>) = None" by simp
      obtain st4 where st4: "dispatch ops (st3\<lparr>current_pcb := None\<rparr>) = Some (True, st4)"
        "current_pcb st4 = Some (hd ?ready)" "pticks (ptable st4 (hd ?ready)) = 3"
        "memory st4 = memory (st3\<lparr>current_pcb := None\<rparr>)"
        "proc_inv ({} - {hd ?ready}) st4 ((woken st L)(QReady := ?ready, QReady := tl ?ready))"
        using dispatch_inv [OF st3(3) L none, of ops] by blast
      have "pcb_on_tick ops st = Some st4"
        using ini Some w(1) c last True st3(1) st4(1) by (simp add: pcb_on_tick_def Let_def del: upd_pcb_fields(1))
      moreover have "memory st4 = memory st" using st4(4) st3(2) c by (simp add: rescheduled_def)
      ultimately show ?thesis using True Some st4 prio by (simp del: upd_pcb_fields(1))
    qed
  qed
qed

section \<open>The end of a process\<close>

definition orphan :: "nat \<Rightarrow> ptab \<Rightarrow> nat \<Rightarrow> bool" where
  "orphan victim h i \<longleftrightarrow> pstate (h i) \<noteq> PROC_STATE_UNUSED \<and> parent (h i) = Some victim"

lemma reparent_result:
  assumes "reparent victim ini i n z h = (zchild, h')"
  shows "h' x = (if i \<le> x \<and> x < i + n \<and> orphan victim h x then (h x)\<lparr>parent := ini\<rparr> else h x)"
    and "zchild = (case filter (\<lambda>x. orphan victim h x \<and> pstate (h x) = PROC_STATE_ZOMBIE) [i..<i + n] of
           [] \<Rightarrow> z | xs \<Rightarrow> Some (last xs))"
proof -
  have "h' x = (if i \<le> x \<and> x < i + n \<and> orphan victim h x then (h x)\<lparr>parent := ini\<rparr> else h x) \<and>
    zchild = (case filter (\<lambda>x. orphan victim h x \<and> pstate (h x) = PROC_STATE_ZOMBIE) [i..<i + n] of
      [] \<Rightarrow> z | xs \<Rightarrow> Some (last xs))" for x
    using assms
  proof (induction n arbitrary: i z h)
    case 0
    then show ?case by auto
  next
    case (Suc n)
    let ?h = "if orphan victim h i then h(i := (h i)\<lparr>parent := ini\<rparr>) else h"
    let ?z = "if orphan victim h i \<and> pstate (h i) = PROC_STATE_ZOMBIE then Some i else z"
    let ?P = "\<lambda>h x. orphan victim h x \<and> pstate (h x) = PROC_STATE_ZOMBIE"
    have "reparent victim ini (Suc i) n ?z ?h = (zchild, h')"
      using Suc.prems by (auto simp: orphan_def split: if_splits)
    from Suc.IH [OF this] have IH: "h' x = (if Suc i \<le> x \<and> x < Suc i + n \<and> orphan victim ?h x then (?h x)\<lparr>parent := ini\<rparr> else ?h x)"
      "zchild = (case filter (?P ?h) [Suc i..<Suc i + n] of [] \<Rightarrow> ?z | xs \<Rightarrow> Some (last xs))" by auto
    have same: "?h y = h y" if "Suc i \<le> y" for y using that by auto
    then have "filter (?P ?h) [Suc i..<Suc i + n] = filter (?P h) [Suc i..<Suc i + n]"
      by (intro filter_cong) (auto simp: orphan_def)
    moreover have "[i..<i + Suc n] = i # [Suc i..<Suc i + n]" by (simp add: upt_conv_Cons)
    ultimately have "zchild = (case filter (?P h) [i..<i + Suc n] of [] \<Rightarrow> z | xs \<Rightarrow> Some (last xs))"
      using IH(2) by (auto split: list.splits)
    moreover have "h' x = (if i \<le> x \<and> x < i + Suc n \<and> orphan victim h x then (h x)\<lparr>parent := ini\<rparr> else h x)"
    proof (cases "x = i")
      case True
      then show ?thesis using IH(1) by simp
    next
      case False
      then have "orphan victim ?h x = orphan victim h x" "?h x = h x" by (auto simp: orphan_def)
      then show ?thesis using IH(1) False by auto
    qed
    ultimately show ?case by blast
  qed
  then show "h' x = (if i \<le> x \<and> x < i + n \<and> orphan victim h x then (h x)\<lparr>parent := ini\<rparr> else h x)"
    and "zchild = (case filter (\<lambda>x. orphan victim h x \<and> pstate (h x) = PROC_STATE_ZOMBIE) [i..<i + n] of
           [] \<Rightarrow> z | xs \<Rightarrow> Some (last xs))" by blast+
qed

lemma reparent_quiet:
  assumes "reparent victim ini i n z h = (zchild, h')"
  shows "quiet h h'" "regs (h' x) = regs (h x)" "memctx (h' x) = memctx (h x)" "exit_status (h' x) = exit_status (h x)"
  using reparent_result(1) [OF assms] by (auto simp: quiet_def)

text \<open>The child of the victim that \<^verbatim>\<open>pcb_zombify\<close> hands to \<^verbatim>\<open>init\<close>.\<close>

definition zombie_child :: "nat \<Rightarrow> ptab \<Rightarrow> nat option" where
  "zombie_child victim h =
     (case filter (\<lambda>x. orphan victim h x \<and> pstate (h x) = PROC_STATE_ZOMBIE) [0..<N_PROCS] of
        [] \<Rightarrow> None | xs \<Rightarrow> Some (last xs))"

lemma zombie_child_some:
  assumes "zombie_child victim h = Some z"
  shows "z < N_PROCS" "pstate (h z) = PROC_STATE_ZOMBIE" "parent (h z) = Some victim"
proof -
  let ?zs = "filter (\<lambda>x. orphan victim h x \<and> pstate (h x) = PROC_STATE_ZOMBIE) [0..<N_PROCS]"
  have "?zs \<noteq> []" "z = last ?zs" using assms by (auto simp: zombie_child_def split: list.splits)
  then have "z \<in> set ?zs" by (metis last_in_set)
  then show "z < N_PROCS" "pstate (h z) = PROC_STATE_ZOMBIE" "parent (h z) = Some victim"
    by (auto simp: orphan_def)
qed

text \<open>The memory operations succeed.\<close>

definition mem_total :: "('m, 'b) mem_ops_scheme \<Rightarrow> bool" where
  "mem_total ops \<longleftrightarrow> (\<forall>c m. op_ctx_free ops c m \<noteq> None) \<and> (\<forall>c a v m. op_store_status ops c a v m \<noteq> None)"

lemma pcb_cleanup_inv:
  assumes inv: "proc_inv X st L" and free: "unqueued p L" and p: "p < N_PROCS" "current_pcb st \<noteq> Some p"
    and ops: "mem_total ops"
  obtains st' m where "pcb_cleanup ops (Some p) st = Some st'"
    "relinked (upd_pcb p (\<lambda>b. b\<lparr>pstate := PROC_STATE_UNUSED\<rparr>) (st\<lparr>memory := m\<rparr>)) st'"
    "proc_inv (X - {p}) st' (L(QFree := L QFree @ [p]))"
proof -
  have "\<exists>m. (case memctx (ptable st p) of None \<Rightarrow> Some st
      | Some c \<Rightarrow> map_option (\<lambda>m. st\<lparr>memory := m\<rparr>) (op_ctx_free ops c (memory st))) = Some (st\<lparr>memory := m\<rparr>)"
  proof (cases "memctx (ptable st p)")
    case None
    then show ?thesis by (intro exI [of _ "memory st"]) simp
  next
    case (Some c)
    from ops obtain m where "op_ctx_free ops c (memory st) = Some m" unfolding mem_total_def by blast
    with Some show ?thesis by (intro exI [of _ m]) simp
  qed
  then obtain m where m: "(case memctx (ptable st p) of None \<Rightarrow> Some st
      | Some c \<Rightarrow> map_option (\<lambda>m. st\<lparr>memory := m\<rparr>) (op_ctx_free ops c (memory st))) = Some (st\<lparr>memory := m\<rparr>)" ..
  have cur: "current_pcb (st\<lparr>memory := m\<rparr>) \<noteq> Some p" using p(2) by simp
  obtain st' where "pcb_free (Some p) (st\<lparr>memory := m\<rparr>) = Some st'"
    "relinked (upd_pcb p (\<lambda>b. b\<lparr>pstate := PROC_STATE_UNUSED\<rparr>) (st\<lparr>memory := m\<rparr>)) st'"
    "proc_inv (X - {p}) st' (L(QFree := L QFree @ [p]))"
    by (rule pcb_free_inv [OF proc_inv_memory [OF inv] free p(1) cur])
  then show thesis using m by (intro that) (simp_all add: pcb_cleanup_def)
qed

lemma store_exit_ok:
  assumes "mem_total ops" obtains m where "store_exit ops w c st = Some (st\<lparr>memory := m\<rparr>)"
proof (cases "PCB_ARG2 (ptable st w) = 0")
  case True
  then show thesis by (intro that [of "memory st"]) (simp add: store_exit_def)
next
  case False
  from assms obtain m where "op_store_status ops (memctx (ptable st w)) (PCB_ARG2 (ptable st w))
    (exit_status (ptable st c)) (memory st) = Some m" unfolding mem_total_def by blast
  with False show thesis by (intro that [of m]) (simp add: store_exit_def)
qed

text \<open>Waking a process that has been taken off the queue of waiting processes.\<close>

lemma answer_inv:
  assumes inv: "proc_inv X st L" and free: "unqueued w L" and ops: "mem_total ops"
    and w: "w < N_PROCS" "pstate (ptable st w) = PROC_STATE_BLOCKED" "current_pcb st \<noteq> Some w"
  obtains st1 st' m where "store_exit ops w c st = Some st1" "schedule (Some w) st1 = Some st'"
    "relinked (upd_pcb w (\<lambda>b. b\<lparr>pstate := PROC_STATE_READY, psyscall := 0\<rparr>) (st\<lparr>memory := m\<rparr>)) st'"
    "proc_inv (X - {w}) st' (L(QReady := insert_after (by_prio st) w (L QReady)))"
proof -
  obtain m where m: "store_exit ops w c st = Some (st\<lparr>memory := m\<rparr>)" by (rule store_exit_ok [OF ops])
  let ?st1 = "st\<lparr>memory := m\<rparr>"
  have inv1: "proc_inv X ?st1 L" using inv by (rule proc_inv_memory)
  have "pstate (ptable ?st1 w) \<noteq> PROC_STATE_UNUSED" "pstate (ptable ?st1 w) \<noteq> PROC_STATE_ZOMBIE"
    using w(2) by simp_all
  then obtain st' where st': "schedule (Some w) ?st1 = Some st'"
    "relinked (upd_pcb w (\<lambda>b. b\<lparr>pstate := PROC_STATE_READY, psyscall := 0\<rparr>) ?st1) st'"
    "proc_inv (insert w X) st' (L(QReady := insert_after (by_prio ?st1) w (L QReady)))"
    by (rule schedule_inv [OF inv1 free w(1)])
  have "current_pcb st' \<noteq> Some w" using st'(2) w(3) by (simp add: relinked_def)
  from schedule_release [OF st'(3) this st'(2)]
  have "proc_inv (X - {w}) st' (L(QReady := insert_after (by_prio st) w (L QReady)))" by simp
  then show thesis using m st'(1,2) by (intro that)
qed

lemma proc_inv_set_ret: "proc_inv X st L \<Longrightarrow> proc_inv X (upd_pcb p (set_ret v) st) L"
  by (rule proc_inv_quiet_upd) (simp_all add: quiet_def set_ret_def)

text \<open>What the rest of \<^verbatim>\<open>pcb_zombify\<close> needs to know about a step that does not concern the victim:
  every block keeps its id, and a block keeps its state and system call unless the step moved it.\<close>

lemma relinked_fields:
  assumes "relinked (upd_pcb p f (st\<lparr>memory := m\<rparr>)) st'"
  shows "x \<noteq> p \<Longrightarrow> pstate (ptable st' x) = pstate (ptable st x)"
    "x \<noteq> p \<Longrightarrow> psyscall (ptable st' x) = psyscall (ptable st x)"
    "x \<noteq> p \<Longrightarrow> regs (ptable st' x) = regs (ptable st x)"
    "x \<noteq> p \<Longrightarrow> pid (ptable st' x) = pid (ptable st x)"
    "x \<noteq> p \<Longrightarrow> parent (ptable st' x) = parent (ptable st x)" "parent (ptable st' p) = parent (f (ptable st p))"
    "pid (ptable st' p) = pid (f (ptable st p))" "psyscall (ptable st' p) = psyscall (f (ptable st p))"
    "pstate (ptable st' p) = pstate (f (ptable st p))" "regs (ptable st' p) = regs (f (ptable st p))"
    "current_pcb st' = current_pcb st" "init_pcb st' = init_pcb st"
proof -
  have same: "same_but_next ((ptable st)(p := f (ptable st p))) (ptable st')"
    using assms by (simp add: relinked_def)
  note f = same_but_next_fields [OF same]
  show "x \<noteq> p \<Longrightarrow> pstate (ptable st' x) = pstate (ptable st x)"
    "x \<noteq> p \<Longrightarrow> psyscall (ptable st' x) = psyscall (ptable st x)"
    "x \<noteq> p \<Longrightarrow> regs (ptable st' x) = regs (ptable st x)"
    "x \<noteq> p \<Longrightarrow> pid (ptable st' x) = pid (ptable st x)"
    "x \<noteq> p \<Longrightarrow> parent (ptable st' x) = parent (ptable st x)" "parent (ptable st' p) = parent (f (ptable st p))"
    "pid (ptable st' p) = pid (f (ptable st p))" "psyscall (ptable st' p) = psyscall (f (ptable st p))"
    "pstate (ptable st' p) = pstate (f (ptable st p))" "regs (ptable st' p) = regs (f (ptable st p))"
    by (simp_all add: f)
  show "current_pcb st' = current_pcb st" "init_pcb st' = init_pcb st" using assms by (simp_all add: relinked_def)
qed

text \<open>Taking the zombie and the waiting \<^verbatim>\<open>init\<close> off their queues.\<close>

lemma take_zombie_inv:
  assumes inv: "proc_inv X st L" and z: "z \<in> set (L QZombie)" and w: "w \<in> set (L (QSys SYS_waitpid))"
  obtains st1 st2 where "kq_remove QZombie z st = Some (SUCCESS, st1)"
    "kq_remove (QSys SYS_waitpid) w st1 = Some (SUCCESS, st2)" "relinked st st2"
    "proc_inv (insert w (insert z X)) st2
       (L(QZombie := remove1 z (L QZombie), QSys SYS_waitpid := remove1 w (L (QSys SYS_waitpid))))"
    "unqueued z (L(QZombie := remove1 z (L QZombie), QSys SYS_waitpid := remove1 w (L (QSys SYS_waitpid))))"
    "unqueued w (L(QZombie := remove1 z (L QZombie), QSys SYS_waitpid := remove1 w (L (QSys SYS_waitpid))))"
proof -
  let ?L1 = "L(QZombie := remove1 z (L QZombie))"
  obtain st1 where st1: "kq_remove QZombie z st = Some (SUCCESS, st1)" "relinked st st1"
    "proc_inv (insert z X) st1 ?L1" "unqueued z ?L1"
    by (rule kq_remove_inv [OF inv z])
  have w1: "w \<in> set (?L1 (QSys SYS_waitpid))" using w by simp
  let ?L2 = "?L1(QSys SYS_waitpid := remove1 w (?L1 (QSys SYS_waitpid)))"
  obtain st2 where st2: "kq_remove (QSys SYS_waitpid) w st1 = Some (SUCCESS, st2)" "relinked st1 st2"
    "proc_inv (insert w (insert z X)) st2 ?L2" "unqueued w ?L2"
    by (rule kq_remove_inv [OF st1(3) w1])
  have e: "?L2 = L(QZombie := remove1 z (L QZombie), QSys SYS_waitpid := remove1 w (L (QSys SYS_waitpid)))"
    by (simp add: fun_eq_iff)
  have "unqueued z ?L2"
  proof
    fix q show "z \<notin> set (?L2 q)"
      using st1(4) [rule_format, of q] notin_set_remove1 [of z "L (QSys SYS_waitpid)" w] by (auto split: if_splits)
  qed
  moreover have "relinked st st2" using st1(2) st2(2) same_but_next_trans by (auto simp: relinked_def)
  ultimately show thesis using that [OF st1(1) st2(1)] st2(3,4) unfolding e by blast
qed

abbreviation wait_pid :: "pcb \<Rightarrow> u16" where "wait_pid b \<equiv> ucast (PCB_ARG1 b)"

definition collected :: "('m, 'a) kernel_scheme \<Rightarrow> nat \<Rightarrow> nat \<Rightarrow> (qid \<Rightarrow> nat list) \<Rightarrow> qid \<Rightarrow> nat list" where
  "collected st w z L = L(QZombie := remove1 z (L QZombie), QSys SYS_waitpid := remove1 w (L (QSys SYS_waitpid)),
     QReady := insert_after (by_prio st) w (L QReady), QFree := L QFree @ [z])"

lemma collect_zchild_inv:
  assumes inv: "proc_inv X st L" and z: "z \<in> set (L QZombie)" and w: "w \<in> set (L (QSys SYS_waitpid))"
    and ini: "init_pcb st = Some w" "psyscall (ptable st w) = of_nat SYS_waitpid"
    and pd: "wait_pid (ptable st w) = 0 \<or> wait_pid (ptable st w) = pid (ptable st z)"
    and cur: "current_pcb st = None" and ops: "mem_total ops"
  obtains st' where "collect_zchild ops (Some z) st = Some st'" "proc_inv X st' (collected st w z L)"
    "\<And>x. pid (ptable st' x) = pid (ptable st x) \<and> parent (ptable st' x) = parent (ptable st x)"
    "\<And>x. x \<noteq> w \<Longrightarrow> psyscall (ptable st' x) = psyscall (ptable st x) \<and> regs (ptable st' x) = regs (ptable st x)"
    "psyscall (ptable st' w) = 0" "current_pcb st' = None" "init_pcb st' = init_pcb st"
proof -
  let ?L = "L(QZombie := remove1 z (L QZombie), QSys SYS_waitpid := remove1 w (L (QSys SYS_waitpid)))"
  obtain st1 st2 where t: "kq_remove QZombie z st = Some (SUCCESS, st1)"
    "kq_remove (QSys SYS_waitpid) w st1 = Some (SUCCESS, st2)" "relinked st st2"
    "proc_inv (insert w (insert z X)) st2 ?L" "unqueued z ?L" "unqueued w ?L"
    by (rule take_zombie_inv [OF inv z w])
  have same: "same_but_next (ptable st) (ptable st2)" and c2: "current_pcb st2 = None" "init_pcb st2 = Some w"
    using t(3) cur ini by (auto simp: relinked_def)
  note f2 = same_but_next_fields [OF same]
  have wb: "w < N_PROCS" "pstate (ptable st w) = PROC_STATE_BLOCKED"
    using inv w by (auto simp: proc_inv_def members_def dest!: spec [of _ "QSys SYS_waitpid"])
  have zb: "z < N_PROCS" "pstate (ptable st z) = PROC_STATE_ZOMBIE"
    using inv z by (auto simp: proc_inv_def members_def dest!: spec [of _ QZombie])
  have wz: "w \<noteq> z" using wb zb by auto
  let ?str = "upd_pcb w (set_ret (ucast (pid (ptable st2 z)))) st2"
  have w2: "pstate (ptable ?str w) = PROC_STATE_BLOCKED" "current_pcb ?str \<noteq> Some w"
    using wb c2 by (simp_all add: f2 set_ret_def)
  have prio: "by_prio ?str = by_prio st2" by (simp add: fun_eq_iff set_ret_def)
  obtain st3 st4 m where a: "store_exit ops w z ?str = Some st3" "schedule (Some w) st3 = Some st4"
    "relinked (upd_pcb w (\<lambda>b. b\<lparr>pstate := PROC_STATE_READY, psyscall := 0\<rparr>) (?str\<lparr>memory := m\<rparr>)) st4"
    "proc_inv (insert w (insert z X) - {w}) st4 (?L(QReady := insert_after (by_prio st2) w (?L QReady)))"
    using answer_inv [OF proc_inv_set_ret [OF t(4)] t(6) ops wb(1) w2, of z thesis]
    unfolding prio by blast
  note f4 = relinked_fields [OF a(3)]
  let ?L4 = "?L(QReady := insert_after (by_prio st2) w (?L QReady))"
  have z4: "unqueued z ?L4"
  proof
    fix q show "z \<notin> set (?L4 q)" using t(5) [rule_format, of q] t(5) [rule_format, of QReady] wz by (cases "q = QReady") auto
  qed
  have c4: "current_pcb st4 \<noteq> Some z" using c2 by (simp add: f4)
  obtain st5 m5 where c: "pcb_cleanup ops (Some z) st4 = Some st5"
    "relinked (upd_pcb z (\<lambda>b. b\<lparr>pstate := PROC_STATE_UNUSED\<rparr>) (st4\<lparr>memory := m5\<rparr>)) st5"
    "proc_inv (insert w (insert z X) - {w} - {z}) st5 (?L4(QFree := ?L4 QFree @ [z]))"
    by (rule pcb_cleanup_inv [OF a(4) z4 zb(1) c4 ops])
  note f5 = relinked_fields [OF c(2)]
  have pd2: "wait_pid (ptable st2 w) = 0 \<or> wait_pid (ptable st2 w) = pid (ptable st2 z)"
    using pd by (simp add: PCB_ARG1_def f2)
  have run: "collect_zchild ops (Some z) st = Some st5"
    using ini t(1,2) pd2 a(1,2) c(1) by (simp add: collect_zchild_def Let_def)
  have lists: "?L4(QFree := ?L4 QFree @ [z]) = collected st w z L"
    by (simp add: collected_def fun_eq_iff f2)
  show thesis
  proof (rule that [OF run])
    show "proc_inv X st5 (collected st w z L)"
      using c(3) unfolding lists by (rule proc_inv_weaken) auto
    show "pid (ptable st5 x) = pid (ptable st x) \<and> parent (ptable st5 x) = parent (ptable st x)" for x
      by (cases "x = z"; cases "x = w") (simp_all add: f5 f4 f2 wz wz [symmetric] set_ret_def)
    show "psyscall (ptable st5 x) = psyscall (ptable st x) \<and> regs (ptable st5 x) = regs (ptable st x)" if "x \<noteq> w" for x
      using that by (cases "x = z") (simp_all add: f5 f4 f2 wz wz [symmetric])
    show "psyscall (ptable st5 w) = 0" using wz by (simp add: f5 f4)
    show "current_pcb st5 = None" "init_pcb st5 = init_pcb st" using c2 ini by (simp_all add: f5 f4)
  qed
qed

lemma notify_parent_inv:
  assumes inv: "proc_inv X st L" and free: "unqueued v L" and v: "v < N_PROCS" "w \<noteq> v" "current_pcb st = None"
    and ops: "mem_total ops" and wait: "psyscall (ptable st w) = of_nat SYS_waitpid \<longrightarrow> w \<in> set (L (QSys SYS_waitpid))"
  shows "\<exists>st' L'. notify_parent ops w v st = Some st' \<and> proc_inv (X - {v}) st' L' \<and>
    (\<forall>x. parent (ptable st' x) = parent (ptable st x)) \<and> current_pcb st' = None \<and>
    (if psyscall (ptable st w) = of_nat SYS_waitpid \<and>
        (wait_pid (ptable st w) = 0 \<or> wait_pid (ptable st w) = pid (ptable st v))
     then pstate (ptable st' w) = PROC_STATE_READY \<and> reg_rax (regs (ptable st' w)) = ucast (pid (ptable st v)) \<and>
          pstate (ptable st' v) = PROC_STATE_UNUSED
     else pstate (ptable st' v) = PROC_STATE_ZOMBIE)"
proof (cases "psyscall (ptable st w) = of_nat SYS_waitpid \<and>
    (wait_pid (ptable st w) = 0 \<or> wait_pid (ptable st w) = pid (ptable st v))")
  case True
  let ?st1 = "upd_pcb w (set_ret (ucast (pid (ptable st v)))) st"
  have w: "w \<in> set (L (QSys SYS_waitpid))" using wait True by simp
  have wb: "w < N_PROCS" "pstate (ptable st w) = PROC_STATE_BLOCKED"
    using inv w by (auto simp: proc_inv_def members_def dest!: spec [of _ "QSys SYS_waitpid"])
  let ?L = "L(QSys SYS_waitpid := remove1 w (L (QSys SYS_waitpid)))"
  obtain st2 where st2: "kq_remove (QSys SYS_waitpid) w ?st1 = Some (SUCCESS, st2)" "relinked ?st1 st2"
    "proc_inv (insert w X) st2 ?L" "unqueued w ?L"
    by (rule kq_remove_inv [OF proc_inv_set_ret [OF inv] w])
  have same: "same_but_next (ptable ?st1) (ptable st2)" and c2: "current_pcb st2 = None"
    using st2(2) v(3) by (auto simp: relinked_def)
  note f2 = same_but_next_fields [OF same]
  have w2: "pstate (ptable st2 w) = PROC_STATE_BLOCKED" "current_pcb st2 \<noteq> Some w"
    using wb c2 by (simp_all add: f2 set_ret_def)
  obtain st3 st4 m where a: "store_exit ops w v st2 = Some st3" "schedule (Some w) st3 = Some st4"
    "relinked (upd_pcb w (\<lambda>b. b\<lparr>pstate := PROC_STATE_READY, psyscall := 0\<rparr>) (st2\<lparr>memory := m\<rparr>)) st4"
    "proc_inv (insert w X - {w}) st4 (?L(QReady := insert_after (by_prio st2) w (?L QReady)))"
    by (rule answer_inv [OF st2(3,4) ops wb(1) w2])
  note f4 = relinked_fields [OF a(3)]
  let ?L4 = "?L(QReady := insert_after (by_prio st2) w (?L QReady))"
  have v4: "unqueued v ?L4"
  proof
    fix q show "v \<notin> set (?L4 q)"
      using free v(2) notin_set_remove1 [of v "L (QSys SYS_waitpid)" w] by auto
  qed
  have c4: "current_pcb st4 \<noteq> Some v" using c2 by (simp add: f4)
  obtain st5 m5 where c: "pcb_cleanup ops (Some v) st4 = Some st5"
    "relinked (upd_pcb v (\<lambda>b. b\<lparr>pstate := PROC_STATE_UNUSED\<rparr>) (st4\<lparr>memory := m5\<rparr>)) st5"
    "proc_inv (insert w X - {w} - {v}) st5 (?L4(QFree := ?L4 QFree @ [v]))"
    by (rule pcb_cleanup_inv [OF a(4) v4 v(1) c4 ops])
  note f5 = relinked_fields [OF c(2)]
  have "notify_parent ops w v st = Some st5"
    using True st2(1) a(1,2) c(1) by (simp add: notify_parent_def Let_def)
  moreover have "proc_inv (X - {v}) st5 (?L4(QFree := ?L4 QFree @ [v]))"
    using c(3) by (rule proc_inv_weaken) auto
  moreover have "parent (ptable st5 x) = parent (ptable st x)" for x
    by (cases "x = v"; cases "x = w") (simp_all add: f5 f4 f2 v(2) v(2) [symmetric] set_ret_def)
  ultimately show ?thesis
    using True v(2) c2 by (intro exI [of _ st5] exI [of _ "?L4(QFree := ?L4 QFree @ [v])"])
      (simp add: f5 f4 f2 set_ret_def)
next
  case False
  let ?st1 = "upd_pcb v (\<lambda>b. b\<lparr>pstate := PROC_STATE_ZOMBIE\<rparr>) st"
  have inv1: "proc_inv (insert v X) ?st1 L" by (rule proc_inv_upd_in_hand [OF inv free]) simp
  let ?L = "L(QZombie := insert_after (\<lambda>p. order_key (queue_style QZombie) (ptable ?st1 p)) v (L QZombie))"
  obtain st2 where st2: "kq_insert QZombie v ?st1 = Some (SUCCESS, st2)" "relinked ?st1 st2"
    "proc_inv (insert v (insert v X)) st2 ?L"
    by (rule kq_insert_inv [OF inv1 free, of QZombie]) (use v(1) in auto)
  have z: "pstate (ptable st2 v) = PROC_STATE_ZOMBIE" "current_pcb st2 = None"
    using v(3) by (simp_all add: relinked_placed [OF st2(2)])
  then have "placed st2 ?L v" by (simp add: placed_def del: order_key.simps)
  from proc_inv_release [OF st2(3) this] have "proc_inv (X - {v}) st2 ?L" by simp
  moreover have "notify_parent ops w v st = Some st2"
    using False st2(1) by (auto simp: notify_parent_def Let_def)
  moreover have "parent (ptable st2 x) = parent (ptable st x)" for x
    using st2(2) same_but_next_fields(3) [of "ptable ?st1" "ptable st2" x] by (auto simp: relinked_def)
  ultimately show ?thesis using False z by auto
qed

lemma zombie_child_reparent:
  assumes "reparent victim ini 0 N_PROCS None h = (zchild, h')"
  shows "zchild = zombie_child victim h" "x < N_PROCS \<Longrightarrow> orphan victim h x \<Longrightarrow> parent (h' x) = ini"
  using reparent_result [OF assms] by (simp_all add: zombie_child_def)

lemma zombie_queued:
  assumes "proc_inv {v} st L" "zombie_child v (ptable st) = Some z" "unqueued v L"
    "pstate (ptable st v) \<noteq> PROC_STATE_ZOMBIE"
  shows "z \<in> set (L QZombie)" "z \<noteq> v"
proof -
  note z = zombie_child_some [OF assms(2)]
  show "z \<noteq> v" using z(2) assms(4) by auto
  then show "z \<in> set (L QZombie)" using assms(1) z by (simp add: proc_inv_def placed_def)
qed

lemma pcb_zombify_inv:
  assumes inv: "proc_inv {v} st L" and free: "unqueued v L"
    and v: "v < N_PROCS" "pid (ptable st v) \<noteq> 1" "parent (ptable st v) = Some w" "w \<noteq> v" "ini \<noteq> v"
      "pstate (ptable st v) \<noteq> PROC_STATE_ZOMBIE"
    and glob: "current_pcb st = None" "init_pcb st = Some ini" "mem_total ops"
    and wait: "\<forall>x\<in>{ini, w}. psyscall (ptable st x) = of_nat SYS_waitpid \<longrightarrow> x \<in> set (L (QSys SYS_waitpid))"
    and match: "\<forall>z. zombie_child v (ptable st) = Some z \<and> psyscall (ptable st ini) = of_nat SYS_waitpid \<longrightarrow>
      wait_pid (ptable st ini) = 0 \<or> wait_pid (ptable st ini) = pid (ptable st z)"
  shows "\<exists>st' L'. pcb_zombify ops (Some v) st = Some st' \<and> proc_inv {} st' L' \<and> current_pcb st' = None \<and>
    (\<forall>x<N_PROCS. orphan v (ptable st) x \<longrightarrow> parent (ptable st' x) = Some ini) \<and>
    (if psyscall (ptable st w) = of_nat SYS_waitpid \<and> (w = ini \<longrightarrow> zombie_child v (ptable st) = None) \<and>
        (wait_pid (ptable st w) = 0 \<or> wait_pid (ptable st w) = pid (ptable st v))
     then pstate (ptable st' w) = PROC_STATE_READY \<and> reg_rax (regs (ptable st' w)) = ucast (pid (ptable st v)) \<and>
          pstate (ptable st' v) = PROC_STATE_UNUSED
     else pstate (ptable st' v) = PROC_STATE_ZOMBIE)"
proof -
  obtain zchild h where rep: "reparent v (init_pcb st) 0 N_PROCS None (ptable st) = (zchild, h)" by fastforce
  note q = reparent_quiet [OF rep] and zc = zombie_child_reparent [OF rep]
  let ?st1 = "st\<lparr>ptable := h\<rparr>"
  have inv1: "proc_inv {v} ?st1 L" by (rule proc_inv_quiet [OF inv q(1)])
  have f1: "pid (h x) = pid (ptable st x)" "psyscall (h x) = psyscall (ptable st x)" "regs (h x) = regs (ptable st x)" for x
    using q by (auto simp: quiet_def)
  let ?collect = "zchild \<noteq> None \<and> psyscall (ptable st ini) = of_nat SYS_waitpid"
  obtain st2 L2 where st2: "collect_zchild ops zchild ?st1 = Some st2" "proc_inv {v} st2 L2" "current_pcb st2 = None"
    "\<And>x. pid (ptable st2 x) = pid (ptable st x) \<and> parent (ptable st2 x) = parent (h x)"
    "\<And>x. x \<noteq> ini \<or> \<not> ?collect \<Longrightarrow> psyscall (ptable st2 x) = psyscall (ptable st x) \<and> regs (ptable st2 x) = regs (ptable st x)"
    "?collect \<Longrightarrow> psyscall (ptable st2 ini) = 0" "unqueued v L2"
    "\<And>x. x \<noteq> ini \<or> \<not> ?collect \<Longrightarrow> x \<in> set (L (QSys SYS_waitpid)) \<Longrightarrow> x \<in> set (L2 (QSys SYS_waitpid))"
  proof (cases ?collect)
    case False
    then have "collect_zchild ops zchild ?st1 = Some ?st1"
      using glob(2) f1 by (auto simp: collect_zchild_def split: option.splits)
    then show thesis using inv1 free glob f1 False by (intro that [of ?st1 L]) auto
  next
    case True
    then obtain z where z: "zchild = Some z" by blast
    note zz = zombie_queued [OF inv zc(1) [symmetric, unfolded z] free v(6)]
    have i: "ini \<in> set (L (QSys SYS_waitpid))" using wait True by simp
    have pd: "wait_pid (ptable ?st1 ini) = 0 \<or> wait_pid (ptable ?st1 ini) = pid (ptable ?st1 z)"
      using match zc(1) z True by (simp add: f1 PCB_ARG1_def)
    have p1: "init_pcb ?st1 = Some ini" "psyscall (ptable ?st1 ini) = of_nat SYS_waitpid" "current_pcb ?st1 = None"
      using glob True by (simp_all add: f1)
    obtain st2 where c: "collect_zchild ops (Some z) ?st1 = Some st2" "proc_inv {v} st2 (collected ?st1 ini z L)"
      "\<And>x. pid (ptable st2 x) = pid (ptable ?st1 x) \<and> parent (ptable st2 x) = parent (ptable ?st1 x)"
      "\<And>x. x \<noteq> ini \<Longrightarrow> psyscall (ptable st2 x) = psyscall (ptable ?st1 x) \<and> regs (ptable st2 x) = regs (ptable ?st1 x)"
      "psyscall (ptable st2 ini) = 0" "current_pcb st2 = None" "init_pcb st2 = init_pcb ?st1"
      by (rule collect_zchild_inv [OF inv1 zz(1) i p1(1,2) pd p1(3) glob(3)]) (rule that)
    have "unqueued v (collected ?st1 ini z L)"
      using free zz(2) v(5) notin_set_remove1 [of v "L QZombie" z] notin_set_remove1 [of v "L (QSys SYS_waitpid)" ini]
      by (auto simp: collected_def)
    moreover have "x \<in> set (collected ?st1 ini z L (QSys SYS_waitpid))"
      if "x \<noteq> ini" "x \<in> set (L (QSys SYS_waitpid))" for x
      using that by (simp add: collected_def)
    ultimately show thesis
      using that [of st2 "collected ?st1 ini z L"] c z True f1 by simp
  qed
  have wait2: "psyscall (ptable st2 w) = of_nat SYS_waitpid \<longrightarrow> w \<in> set (L2 (QSys SYS_waitpid))"
    using st2(5,6,8) wait by (cases "w = ini \<and> ?collect") (auto simp: SYS_waitpid_def)
  have run: "pcb_zombify ops (Some v) st = notify_parent ops w v st2"
    using v(2,3) rep st2(1) by (simp add: pcb_zombify_def)
  have cond: "(psyscall (ptable st2 w) = of_nat SYS_waitpid \<and>
      (wait_pid (ptable st2 w) = 0 \<or> wait_pid (ptable st2 w) = pid (ptable st2 v))) \<longleftrightarrow>
    (psyscall (ptable st w) = of_nat SYS_waitpid \<and> (w = ini \<longrightarrow> zombie_child v (ptable st) = None) \<and>
      (wait_pid (ptable st w) = 0 \<or> wait_pid (ptable st w) = pid (ptable st v)))"
    using st2(4,5,6) zc(1)
    by (cases "w = ini \<and> ?collect") (auto simp: SYS_waitpid_def PCB_ARG1_def)
  have orph: "parent (ptable st2 x) = Some ini" if "x < N_PROCS" "orphan v (ptable st) x" for x
    using zc(2) [OF that] st2(4) glob(2) by simp
  have pidv: "pid (ptable st2 v) = pid (ptable st v)" using st2(4) by blast
  obtain st' L' where n: "notify_parent ops w v st2 = Some st'" "proc_inv ({v} - {v}) st' L'"
    "\<forall>x. parent (ptable st' x) = parent (ptable st2 x)" "current_pcb st' = None"
    "if psyscall (ptable st w) = of_nat SYS_waitpid \<and> (w = ini \<longrightarrow> zombie_child v (ptable st) = None) \<and>
        (wait_pid (ptable st w) = 0 \<or> wait_pid (ptable st w) = pid (ptable st v))
     then pstate (ptable st' w) = PROC_STATE_READY \<and> reg_rax (regs (ptable st' w)) = ucast (pid (ptable st v)) \<and>
          pstate (ptable st' v) = PROC_STATE_UNUSED
     else pstate (ptable st' v) = PROC_STATE_ZOMBIE"
    using notify_parent_inv [OF st2(2,7) v(1,4) st2(3) glob(3) wait2] unfolding cond unfolding pidv by blast
  have "\<forall>x<N_PROCS. orphan v (ptable st) x \<longrightarrow> parent (ptable st' x) = Some ini" using orph n(3) by simp
  moreover have "proc_inv {} st' L'" using n(2) by simp
  ultimately show ?thesis unfolding run using n(1,4,5) by blast
qed

lemma kq_remove_absent:
  assumes "proc_inv X st L" "p \<notin> set (L q)"
  shows "\<exists>r. r \<noteq> SUCCESS \<and> (\<exists>st'. kq_remove q p st = Some (r, st'))"
proof -
  have "queue_rep (ptable st) (getq q st) (L q)" using assms(1) by (simp add: proc_inv_def qlinks_def)
  from pcb_queue_remove_absent [OF this assms(2)] show ?thesis by (simp add: kq_remove_def error_codes)
qed

section \<open>Properties\<close>

text \<open>The kernel before \<^verbatim>\<open>pcb_init\<close>: the static variables as the program image has them.\<close>

definition boot_kernel :: "'m \<Rightarrow> 'm kernel" where
  "boot_kernel m = (let q = \<lparr>head = None, tail = None, order = O_PCB_FIFO\<rparr> in
     \<lparr>ptable = (\<lambda>_. zero_pcb), pcb_freelist = q, ready_queue = q, zombie_queue = q,
      syscall_queue = (\<lambda>_. q), current_pcb = None, init_pcb = None, next_pid = 1, ticks = 0, memory = m\<rparr>)"

lemma boot_zeroed: "zeroed (boot_kernel m)"
  by (simp add: zeroed_def boot_kernel_def zero_pcb_def Let_def)


text \<open>\<^verbatim>\<open>pcb_init\<close> on the zeroed process table succeeds. Afterwards every block is unused and the
  free list holds all of them in the order of the table, no process is current, every other queue is
  empty and every queue has the order the scheduler relies on.\<close>

theorem pcb_init_establishes:
  assumes "zeroed st"
  shows "\<exists>st'. pcb_init st = Some st' \<and> proc_inv {} st' ((\<lambda>_. [])(QFree := [0..<N_PROCS])) \<and>
    current_pcb st' = None \<and> next_pid st' = next_pid st"
  using assms by (rule pcb_init_inv)

theorem pcb_init_establishes_witness:
  "\<exists>st'. pcb_init (boot_kernel ()) = Some st' \<and> proc_inv {} st' ((\<lambda>_. [])(QFree := [0..<N_PROCS])) \<and>
    next_pid st' = next_pid (boot_kernel ())"
  using pcb_init_establishes [OF boot_zeroed, of "()"] by blast

text \<open>\<^verbatim>\<open>pcb_alloc\<close> hands out the first block of the free list under the next process id, in the
  state \<^verbatim>\<open>NEW\<close> and in no queue, and keeps the invariant of the process table; when the free list is
  empty it answers \<^verbatim>\<open>E_NO_PCBS\<close> and no block.\<close>

theorem pcb_alloc_takes_free_block:
  assumes "proc_inv {} st L"
  shows "case L QFree of
      [] \<Rightarrow> \<exists>st'. pcb_alloc st = (E_NO_PCBS, None, st') \<and> proc_inv {} st' L
    | p # ps \<Rightarrow> \<exists>st'. pcb_alloc st = (SUCCESS, Some p, st') \<and> proc_inv {} st' (L(QFree := ps)) \<and>
        unqueued p (L(QFree := ps)) \<and> pid (ptable st' p) = next_pid st \<and>
        pstate (ptable st' p) = PROC_STATE_NEW \<and> next_pid st' = next_pid st + 1"
proof (cases "L QFree")
  case Nil
  have "pcb_alloc st = (E_NO_PCBS, None, st\<lparr>pcb_freelist := pcb_freelist st\<rparr>)"
    using kq_pop_none [OF proc_inv_links [OF assms] Nil] by (simp add: pcb_alloc_def)
  then show ?thesis using assms Nil by simp
next
  case (Cons p ps)
  have "p < N_PROCS" "pstate (ptable st p) = PROC_STATE_UNUSED"
    using assms Cons by (auto simp: proc_inv_def members_def dest!: spec [of _ QFree])
  then have "current_pcb st \<noteq> Some p" using assms by (auto simp: proc_inv_def placed_def)
  then obtain st' st1 where *: "pcb_alloc st = (SUCCESS, Some p, st')"
    "st' = upd_pcb p (\<lambda>b. b\<lparr>pid := next_pid st, pstate := PROC_STATE_NEW\<rparr>) (st1\<lparr>next_pid := next_pid st + 1\<rparr>)"
    "proc_inv ({} - {p}) st' (L(QFree := ps))" "unqueued p (L(QFree := ps))"
    by (rule pcb_alloc_inv [OF assms Cons])
  then show ?thesis by (simp add: Cons)
qed

theorem pcb_alloc_takes_free_block_witness:
  "\<exists>st' st''. pcb_init (boot_kernel ()) = Some st' \<and> pcb_alloc st' = (SUCCESS, Some 0, st'') \<and>
     pid (ptable st'' 0) = 1 \<and> pstate (ptable st'' 0) = PROC_STATE_NEW"
proof -
  obtain st' where st': "pcb_init (boot_kernel ()) = Some st'"
    "proc_inv {} st' ((\<lambda>_. [])(QFree := [0..<N_PROCS]))" "next_pid st' = next_pid (boot_kernel ())"
    using pcb_init_inv [OF boot_zeroed, of "()"] by blast
  have "[0..<N_PROCS] = 0 # [1..<N_PROCS]" by (simp add: N_PROCS_def upt_conv_Cons del: upt_rec_numeral)
  then show ?thesis
    using pcb_alloc_takes_free_block [OF st'(2)] st'(1,3) by (auto simp: boot_kernel_def Let_def)
qed


text \<open>Process 5 runs on its last tick, processes 2 and 3 sleep.\<close>

definition tick_kernel :: "u64 \<Rightarrow> u64 \<Rightarrow> unit kernel" where
  "tick_kernel w2 w3 =
     (let b = zero_pcb\<lparr>pstate := PROC_STATE_NEW\<rparr>;
          sl = b\<lparr>pstate := PROC_STATE_BLOCKED, psyscall := of_nat SYS_sleep\<rparr>;
          e = \<lparr>head = None, tail = None, order = O_PCB_PID\<rparr>
      in \<lparr>ptable = (\<lambda>_. b)(5 := b\<lparr>pstate := PROC_STATE_RUNNING, pid := 5, pticks := 1, priority := 5\<rparr>,
                 2 := sl\<lparr>pid := 2, wakeup := w2, pnext := Some 3\<rparr>, 3 := sl\<lparr>pid := 3, wakeup := w3\<rparr>),
          pcb_freelist = e\<lparr>order := O_PCB_FIFO\<rparr>, ready_queue = e\<lparr>order := O_PCB_PRIO\<rparr>, zombie_queue = e,
          syscall_queue = (\<lambda>_. e)(SYS_sleep := e\<lparr>head := Some 2, tail := Some 3\<rparr>),
          current_pcb = Some 5, init_pcb = Some 5, next_pid = 6, ticks = 10, memory = ()\<rparr>)"

definition tick_lists :: "qid \<Rightarrow> nat list" where
  "tick_lists = (\<lambda>_. [])(QSys SYS_sleep := [2, 3])"

lemma tick_kernel_inv: "proc_inv {} (tick_kernel w2 w3) tick_lists"
proof -
  let ?st = "tick_kernel w2 w3"
  have q: "getq q ?st = (if q = QSys SYS_sleep then \<lparr>head = Some 2, tail = Some 3, order = O_PCB_PID\<rparr>
                         else \<lparr>head = None, tail = None, order = queue_style q\<rparr>)" for q
    by (cases q) (auto simp: tick_kernel_def Let_def)
  have "queue_rep (ptable ?st) (getq q ?st) (tick_lists q)" for q
    by (cases "q = QSys SYS_sleep")
      (simp_all add: q tick_lists_def queue_rep_def, simp_all add: tick_kernel_def Let_def zero_pcb_def)
  then have "qlinks ?st tick_lists"
    by (auto simp: qlinks_def tick_lists_def) (auto simp: tick_kernel_def Let_def zero_pcb_def)
  moreover have "ordered ?st tick_lists"
    by (auto simp: ordered_def q tick_lists_def) (auto simp: tick_kernel_def Let_def)
  moreover have "members ?st tick_lists"
    by (auto simp: members_def tick_lists_def N_PROCS_def N_SYSCALLS_def SYS_sleep_def)
      (auto simp: tick_kernel_def Let_def SYS_sleep_def)
  moreover have "placed ?st tick_lists p" for p
    by (auto simp: placed_def tick_kernel_def Let_def zero_pcb_def)
  ultimately show ?thesis by (auto simp: proc_inv_def tick_kernel_def Let_def N_PROCS_def)
qed


text \<open>C21: The sleep queue is ordered by process id and a tick looks at its front only: while the
  first sleeper is not due, a sleeper behind it whose wake-up time has passed stays blocked.\<close>

theorem due_sleeper_stays_blocked:
  assumes "proc_inv {} st L" "init_pcb st \<noteq> None" "L (QSys SYS_sleep) = p # ps" "\<not> due st p"
    "x \<in> set ps" "due st x"
  shows "\<exists>st' L'. pcb_on_tick ops st = Some st' \<and> proc_inv {} st' L' \<and>
    x \<in> set (L' (QSys SYS_sleep)) \<and> pstate (ptable st' x) = PROC_STATE_BLOCKED"
proof -
  have s: "woken st L (QSys SYS_sleep) = p # ps" using assms(3,4) by (simp add: woken_def)
  obtain st' L' where t: "pcb_on_tick ops st = Some st'" "proc_inv {} st' L'"
    "L' (QSys SYS_sleep) = woken st L (QSys SYS_sleep)"
    using pcb_on_tick_inv [OF assms(1,2), of ops] by (fastforce simp: Let_def split: option.splits if_splits)
  then have x: "x \<in> set (L' (QSys SYS_sleep))" using assms(5) s by simp
  then have "pstate (ptable st' x) = PROC_STATE_BLOCKED"
    using t(2) by (auto simp: proc_inv_def members_def dest!: spec [of _ "QSys SYS_sleep"])
  then show ?thesis using t x by blast
qed

theorem due_sleeper_stays_blocked_witness:
  "\<exists>st' L'. pcb_on_tick \<lparr>op_ctx_free = \<lambda>_. Some, op_store_status = \<lambda>_ _ _. Some, op_pgdir = \<lambda>_ _. 0\<rparr>
      (tick_kernel 20 4) = Some st' \<and> proc_inv {} st' L' \<and> 3 \<in> set (L' (QSys SYS_sleep)) \<and>
      pstate (ptable st' 3) = PROC_STATE_BLOCKED"
  by (rule due_sleeper_stays_blocked [OF tick_kernel_inv, of _ _ 2 "[3]"])
    (simp_all add: tick_kernel_def tick_lists_def Let_def)

text \<open>C10: Ending a process that is in no queue succeeds when the memory operations do, unless \<^verbatim>\<open>init\<close>
  waits for one particular process while the victim leaves a zombie child. It keeps the invariant of
  the process table; every child of the victim belongs to \<^verbatim>\<open>init\<close> afterwards; and either the parent
  was waiting for the victim, then the parent is ready with the id of the victim as its result and the
  victim is free, or the victim is a zombie until its parent asks for it.\<close>

theorem pcb_zombify_ends_process:
  assumes "proc_inv {v} st L" "unqueued v L"
    "v < N_PROCS" "pid (ptable st v) \<noteq> 1" "parent (ptable st v) = Some w" "w \<noteq> v" "ini \<noteq> v"
    "pstate (ptable st v) \<noteq> PROC_STATE_ZOMBIE"
    "current_pcb st = None" "init_pcb st = Some ini" "mem_total ops"
    "\<forall>x\<in>{ini, w}. psyscall (ptable st x) = of_nat SYS_waitpid \<longrightarrow> x \<in> set (L (QSys SYS_waitpid))"
    "\<forall>z. zombie_child v (ptable st) = Some z \<and> psyscall (ptable st ini) = of_nat SYS_waitpid \<longrightarrow>
      wait_pid (ptable st ini) = 0 \<or> wait_pid (ptable st ini) = pid (ptable st z)"
  shows "\<exists>st' L'. pcb_zombify ops (Some v) st = Some st' \<and> proc_inv {} st' L' \<and> current_pcb st' = None \<and>
    (\<forall>x<N_PROCS. orphan v (ptable st) x \<longrightarrow> parent (ptable st' x) = Some ini) \<and>
    (if psyscall (ptable st w) = of_nat SYS_waitpid \<and> (w = ini \<longrightarrow> zombie_child v (ptable st) = None) \<and>
        (wait_pid (ptable st w) = 0 \<or> wait_pid (ptable st w) = pid (ptable st v))
     then pstate (ptable st' w) = PROC_STATE_READY \<and> reg_rax (regs (ptable st' w)) = ucast (pid (ptable st v)) \<and>
          pstate (ptable st' v) = PROC_STATE_UNUSED
     else pstate (ptable st' v) = PROC_STATE_ZOMBIE)"
  using assms by (rule pcb_zombify_inv)

text \<open>The block 2 of \<^verbatim>\<open>init\<close> waits for the process \<open>arg\<close>; its child 3 ends, with the child 4 of its own
  in the state \<open>s\<close>.\<close>

definition exit_kernel :: "u64 \<Rightarrow> proc_state \<Rightarrow> unit kernel" where
  "exit_kernel arg s =
     (let b = zero_pcb\<lparr>pstate := PROC_STATE_NEW\<rparr>;
          e = \<lparr>head = None, tail = None, order = O_PCB_PID\<rparr>
      in \<lparr>ptable = (\<lambda>_. b)(2 := b\<lparr>pstate := PROC_STATE_BLOCKED, pid := 1, psyscall := of_nat SYS_waitpid,
                              regs := zero_regs\<lparr>reg_rdi := arg\<rparr>\<rparr>,
                 3 := b\<lparr>pstate := PROC_STATE_RUNNING, pid := 7, parent := Some 2\<rparr>,
                 4 := b\<lparr>pstate := s, pid := 9, parent := Some 3\<rparr>),
          pcb_freelist = e\<lparr>order := O_PCB_FIFO\<rparr>, ready_queue = e\<lparr>order := O_PCB_PRIO\<rparr>,
          zombie_queue = (if s = PROC_STATE_ZOMBIE then e\<lparr>head := Some 4, tail := Some 4\<rparr> else e),
          syscall_queue = (\<lambda>_. e)(SYS_waitpid := e\<lparr>head := Some 2, tail := Some 2\<rparr>),
          current_pcb = None, init_pcb = Some 2, next_pid = 10, ticks = 0, memory = ()\<rparr>)"

definition exit_lists :: "proc_state \<Rightarrow> qid \<Rightarrow> nat list" where
  "exit_lists s = (\<lambda>_. [])(QSys SYS_waitpid := [2], QZombie := (if s = PROC_STATE_ZOMBIE then [4] else []))"

lemma exit_kernel_inv:
  assumes "s = PROC_STATE_ZOMBIE \<or> s = PROC_STATE_NEW"
  shows "proc_inv {3} (exit_kernel arg s) (exit_lists s)"
proof -
  let ?st = "exit_kernel arg s"
  have q: "getq q ?st = (if q = QSys SYS_waitpid then \<lparr>head = Some 2, tail = Some 2, order = O_PCB_PID\<rparr>
                         else if q = QZombie \<and> s = PROC_STATE_ZOMBIE then \<lparr>head = Some 4, tail = Some 4, order = O_PCB_PID\<rparr>
                         else \<lparr>head = None, tail = None, order = queue_style q\<rparr>)" for q
    by (cases q) (auto simp: exit_kernel_def Let_def)
  have n: "pnext (ptable ?st x) = None" for x by (simp add: exit_kernel_def Let_def zero_pcb_def)
  then have "queue_rep (ptable ?st) (getq q ?st) (exit_lists s q)" for q
    unfolding q by (auto simp: exit_lists_def queue_rep_def)
  then have "qlinks ?st (exit_lists s)"
    using n by (auto simp: qlinks_def exit_lists_def)
  moreover have "ordered ?st (exit_lists s)"
    by (auto simp: ordered_def q exit_lists_def)
  moreover have "members ?st (exit_lists s)"
    by (auto simp: members_def exit_lists_def N_PROCS_def N_SYSCALLS_def SYS_waitpid_def)
      (auto simp: exit_kernel_def Let_def SYS_waitpid_def)
  moreover have "placed ?st (exit_lists s) p" if "p \<noteq> 3" for p
    using that assms by (auto simp: placed_def exit_kernel_def exit_lists_def Let_def zero_pcb_def)
  ultimately show ?thesis by (auto simp: proc_inv_def) (auto simp: exit_kernel_def Let_def)
qed

abbreviation idle_ops :: "unit mem_ops" where
  "idle_ops \<equiv> \<lparr>op_ctx_free = \<lambda>_. Some, op_store_status = \<lambda>_ _ _. Some, op_pgdir = \<lambda>_ _. 0\<rparr>"

lemma filter_single:
  "distinct xs \<Longrightarrow> a \<in> set xs \<Longrightarrow> filter (\<lambda>x. x = a \<and> P) xs = (if P then [a] else [])"
  by (induction xs) (auto simp: filter_empty_conv)

lemma exit_zombie_child: "zombie_child 3 (ptable (exit_kernel arg s)) = (if s = PROC_STATE_ZOMBIE then Some 4 else None)"
proof -
  have "filter (\<lambda>x. orphan 3 (ptable (exit_kernel arg s)) x \<and> pstate (ptable (exit_kernel arg s) x) = PROC_STATE_ZOMBIE) [0..<N_PROCS] =
    filter (\<lambda>x. x = 4 \<and> s = PROC_STATE_ZOMBIE) [0..<N_PROCS]"
    by (rule filter_cong) (auto simp: orphan_def exit_kernel_def Let_def zero_pcb_def)
  also have "\<dots> = (if s = PROC_STATE_ZOMBIE then [4] else [])"
    by (rule filter_single) (simp_all add: N_PROCS_def)
  finally show ?thesis by (simp add: zombie_child_def)
qed

theorem pcb_zombify_ends_process_witness:
  "\<exists>st' L'. pcb_zombify idle_ops (Some 3) (exit_kernel 7 PROC_STATE_NEW) = Some st' \<and> proc_inv {} st' L' \<and>
     pstate (ptable st' 2) = PROC_STATE_READY \<and> reg_rax (regs (ptable st' 2)) = 7 \<and>
     pstate (ptable st' 3) = PROC_STATE_UNUSED \<and> parent (ptable st' 4) = Some 2"
proof -
  let ?st = "exit_kernel 7 PROC_STATE_NEW"
  have f: "pid (ptable ?st 3) = 7" "parent (ptable ?st 3) = Some 2" "psyscall (ptable ?st 2) = of_nat SYS_waitpid"
    "wait_pid (ptable ?st 2) = 7" "current_pcb ?st = None" "init_pcb ?st = Some 2" "orphan 3 (ptable ?st) 4"
    "pstate (ptable ?st 3) = PROC_STATE_RUNNING"
    by (simp_all add: exit_kernel_def Let_def PCB_ARG1_def orphan_def zero_pcb_def)
  have u: "unqueued 3 (exit_lists PROC_STATE_NEW)" "2 \<in> set (exit_lists PROC_STATE_NEW (QSys SYS_waitpid))"
    by (simp_all add: exit_lists_def)
  have inv: "proc_inv {3} ?st (exit_lists PROC_STATE_NEW)" by (rule exit_kernel_inv) simp
  show ?thesis
    using pcb_zombify_ends_process [OF inv u(1), of 2 2 idle_ops] u(2)
    by (simp add: f exit_zombie_child mem_total_def N_PROCS_def) (force simp: f)
qed

text \<open>When \<^verbatim>\<open>init\<close> waits for its child \<open>v\<close> by id and \<open>v\<close> ends leaving a zombie child of its own, the
  kernel panics: \<^verbatim>\<open>pcb_zombify\<close> takes \<^verbatim>\<open>init\<close> off the queue of waiting processes for the grandchild,
  finds that the ids differ and leaves \<^verbatim>\<open>init\<close> out of every queue, and the removal of \<^verbatim>\<open>init\<close> for \<open>v\<close>
  itself then fails its assertion.\<close>

theorem pcb_zombify_panics:
  assumes "proc_inv {v} st L" "unqueued v L" "pid (ptable st v) \<noteq> 1" "parent (ptable st v) = Some ini"
    "pstate (ptable st v) \<noteq> PROC_STATE_ZOMBIE" "ini \<noteq> v" "current_pcb st = None" "init_pcb st = Some ini"
    "mem_total ops" "psyscall (ptable st ini) = of_nat SYS_waitpid" "ini \<in> set (L (QSys SYS_waitpid))"
    "wait_pid (ptable st ini) = pid (ptable st v)" "pid (ptable st v) \<noteq> 0"
    "zombie_child v (ptable st) = Some z" "pid (ptable st z) \<noteq> pid (ptable st v)"
  shows "pcb_zombify ops (Some v) st = None"
proof -
  obtain zchild h where rep: "reparent v (init_pcb st) 0 N_PROCS None (ptable st) = (zchild, h)" by fastforce
  note q = reparent_quiet [OF rep]
  have zc: "zchild = Some z" using zombie_child_reparent(1) [OF rep] assms(14) by simp
  let ?st1 = "st\<lparr>ptable := h\<rparr>"
  have inv1: "proc_inv {v} ?st1 L" by (rule proc_inv_quiet [OF assms(1) q(1)])
  have f1: "pid (h x) = pid (ptable st x)" "psyscall (h x) = psyscall (ptable st x)" "regs (h x) = regs (ptable st x)" for x
    using q by (auto simp: quiet_def)
  note zz = zombie_queued [OF assms(1,14,2,5)] and zs = zombie_child_some [OF assms(14)]
  let ?L = "L(QZombie := remove1 z (L QZombie), QSys SYS_waitpid := remove1 ini (L (QSys SYS_waitpid)))"
  obtain st1 st2 where t: "kq_remove QZombie z ?st1 = Some (SUCCESS, st1)"
    "kq_remove (QSys SYS_waitpid) ini st1 = Some (SUCCESS, st2)" "relinked ?st1 st2"
    "proc_inv (insert ini (insert z {v})) st2 ?L" "unqueued z ?L" "unqueued ini ?L"
    by (rule take_zombie_inv [OF inv1 zz(1) assms(11)])
  have same: "same_but_next h (ptable st2)" and c2: "current_pcb st2 \<noteq> Some z"
    using t(3) assms(7) by (auto simp: relinked_def)
  note f2 = same_but_next_fields [OF same]
  obtain st3 m where c: "pcb_cleanup ops (Some z) st2 = Some st3"
    "relinked (upd_pcb z (\<lambda>b. b\<lparr>pstate := PROC_STATE_UNUSED\<rparr>) (st2\<lparr>memory := m\<rparr>)) st3"
    "proc_inv (insert ini (insert z {v}) - {z}) st3 (?L(QFree := ?L QFree @ [z]))"
    by (rule pcb_cleanup_inv [OF t(4,5) zs(1) c2 assms(9)])
  note f3 = relinked_fields [OF c(2)]
  have "belongs (QSys SYS_waitpid) (ptable st ini)" using assms(1,11) unfolding proc_inv_def members_def by blast
  then have iz: "ini \<noteq> z" using zs(2) by auto
  have run: "collect_zchild ops (Some z) ?st1 = Some st3"
    using assms(8,10,12,13,15) t(1,2) c(1)
    by (simp add: collect_zchild_def Let_def f1 f2 PCB_ARG1_def)
  have w3: "psyscall (ptable st3 ini) = of_nat SYS_waitpid" "wait_pid (ptable st3 ini) = pid (ptable st3 v)"
    using assms(10,12) iz zz(2) by (simp_all add: f3 f2 f1 PCB_ARG1_def)
  have "ini \<notin> set ((?L(QFree := ?L QFree @ [z])) (QSys SYS_waitpid))" using t(6) [rule_format, of "QSys SYS_waitpid"] by simp
  then obtain r st4 where "kq_remove (QSys SYS_waitpid) ini (upd_pcb ini (set_ret (ucast (pid (ptable st3 v)))) st3) = Some (r, st4)"
    "r \<noteq> SUCCESS"
    using kq_remove_absent [OF proc_inv_set_ret [OF c(3)]] by blast
  then have "notify_parent ops ini v st3 = None" using w3 by (simp add: notify_parent_def Let_def)
  then show ?thesis using assms(3,4) rep zc run by (simp add: pcb_zombify_def)
qed

theorem pcb_zombify_panics_witness:
  "pcb_zombify idle_ops (Some 3) (exit_kernel 7 PROC_STATE_ZOMBIE) = None"
proof -
  have inv: "proc_inv {3} (exit_kernel 7 PROC_STATE_ZOMBIE) (exit_lists PROC_STATE_ZOMBIE)" by (rule exit_kernel_inv) simp
  show ?thesis
    by (rule pcb_zombify_panics [OF inv, of 2 _ 4])
      (simp_all add: exit_zombie_child mem_total_def exit_lists_def, simp_all add: exit_kernel_def Let_def PCB_ARG1_def)
qed

end
