(* ===== verification/User.thy ===== *)
theory User
  imports Procs
begin

text \<open>
  Loading and cloning of user programs, \<^verbatim>\<open>kernel/user.c\<close>: the ELF file is read into the process
  control block as raw bytes, so its header and program headers are modelled with their layout in
  memory; then every loadable segment is mapped and copied block by block, the stack is set up and
  the registers of the new program are filled in.

  What the loader calls in the memory manager and in an open file is an argument \<open>ops\<close>, which
  extends the operations of \<open>Procs\<close>; a file is named by its address.
\<close>

section \<open>Layout of the ELF structures\<close>

primrec le_bytes :: "nat \<Rightarrow> 'a::len word \<Rightarrow> u8 list" where
  "le_bytes 0 w = []"
| "le_bytes (Suc n) w = ucast w # le_bytes n (drop_bit 8 w)"

primrec of_le :: "u8 list \<Rightarrow> 'a::len word" where
  "of_le [] = 0"
| "of_le (b # bs) = ucast b OR push_bit 8 (of_le bs)"

definition field :: "nat \<Rightarrow> nat \<Rightarrow> u8 list \<Rightarrow> 'a::len word" where
  "field off n bs = of_le (take n (drop off bs))"

definition ehdr_bytes :: "elf64_ehdr \<Rightarrow> u8 list" where
  "ehdr_bytes h = e_ident h @ le_bytes 2 (e_type h) @ le_bytes 2 (e_machine h) @ le_bytes 4 (e_version h) @
     le_bytes 8 (e_entry h) @ le_bytes 8 (e_phoff h) @ le_bytes 8 (e_shoff h) @ le_bytes 4 (e_flags h) @
     le_bytes 2 (e_ehsize h) @ le_bytes 2 (e_phentsize h) @ le_bytes 2 (e_phnum h) @
     le_bytes 2 (e_shentsize h) @ le_bytes 2 (e_shnum h) @ le_bytes 2 (e_shstrndx h)"

definition ehdr_of :: "u8 list \<Rightarrow> elf64_ehdr" where
  "ehdr_of bs = \<lparr>e_ident = take 16 bs, e_type = field 16 2 bs, e_machine = field 18 2 bs,
     e_version = field 20 4 bs, e_entry = field 24 8 bs, e_phoff = field 32 8 bs, e_shoff = field 40 8 bs,
     e_flags = field 48 4 bs, e_ehsize = field 52 2 bs, e_phentsize = field 54 2 bs, e_phnum = field 56 2 bs,
     e_shentsize = field 58 2 bs, e_shnum = field 60 2 bs, e_shstrndx = field 62 2 bs\<rparr>"

definition phdr_bytes :: "elf64_phdr \<Rightarrow> u8 list" where
  "phdr_bytes h = le_bytes 4 (p_type h) @ le_bytes 4 (p_flags h) @ le_bytes 8 (p_offset h) @
     le_bytes 8 (p_vaddr h) @ le_bytes 8 (p_paddr h) @ le_bytes 8 (p_filesz h) @ le_bytes 8 (p_memsz h) @
     le_bytes 8 (p_align h)"

definition phdr_of :: "u8 list \<Rightarrow> elf64_phdr" where
  "phdr_of bs = \<lparr>p_type = field 0 4 bs, p_flags = field 4 4 bs, p_offset = field 8 8 bs, p_vaddr = field 16 8 bs,
     p_paddr = field 24 8 bs, p_filesz = field 32 8 bs, p_memsz = field 40 8 bs, p_align = field 48 8 bs\<rparr>"

definition sizeof_ehdr :: nat where "sizeof_ehdr = 64"
definition sizeof_phdr :: nat where "sizeof_phdr = 56"

text \<open>The array \<^verbatim>\<open>elf_segments\<close> of a block as bytes, and storing bytes at its start.\<close>

definition segs_bytes :: "(nat \<Rightarrow> elf64_phdr) \<Rightarrow> u8 list" where
  "segs_bytes s = concat (map (\<lambda>i. phdr_bytes (s i)) [0..<N_ELF_SEGMENTS])"

definition segs_of :: "u8 list \<Rightarrow> nat \<Rightarrow> elf64_phdr" where
  "segs_of bs i = phdr_of (take sizeof_phdr (drop (i * sizeof_phdr) bs))"

definition overlay :: "u8 list \<Rightarrow> u8 list \<Rightarrow> u8 list" where
  "overlay bs old = take (length old) bs @ drop (length bs) old"

section \<open>The operations the loader calls\<close>

record 'm env_ops = "'m mem_ops" +
  op_ctx_alloc :: "'m \<Rightarrow> mem_ctx_t option \<times> 'm"
  op_ctx_clone :: "mem_ctx_t option \<Rightarrow> bool \<Rightarrow> 'm \<Rightarrow> (mem_ctx_t option \<times> 'm) option"
  op_alloc_pages_at :: "mem_ctx_t option \<Rightarrow> u64 \<Rightarrow> u64 \<Rightarrow> u32 \<Rightarrow> 'm \<Rightarrow> u64 \<times> 'm"
  op_kmapuser :: "mem_ctx_t option \<Rightarrow> u64 \<Rightarrow> u64 \<Rightarrow> 'm \<Rightarrow> u64 \<times> 'm"
  op_kunmap :: "u64 \<Rightarrow> 'm \<Rightarrow> 'm"
  op_kalloc :: "u64 \<Rightarrow> 'm \<Rightarrow> u64 \<times> 'm"
  op_fresh :: "'m \<Rightarrow> nat \<Rightarrow> u8"
  op_copy_to :: "u64 \<Rightarrow> u8 list \<Rightarrow> 'm \<Rightarrow> 'm option"
  op_args :: "mem_ctx_t option \<Rightarrow> u64 \<Rightarrow> 'm \<Rightarrow> u8 list list option"
  op_fseek :: "u64 \<Rightarrow> u64 \<Rightarrow> u32 \<Rightarrow> 'm \<Rightarrow> (u32 \<times> 'm) option"
  op_fread :: "u64 \<Rightarrow> u64 \<Rightarrow> 'm \<Rightarrow> (u32 \<times> u8 list \<times> 'm) option"
  op_fclose :: "u64 \<Rightarrow> 'm \<Rightarrow> 'm"

text \<open>The static \<^verbatim>\<open>load_buffer\<close>: absent until the first program is loaded.\<close>

record 'm ukernel = "'m kernel" +
  load_buffer :: "(nat \<Rightarrow> u8) option"

definition BLOCK_SIZE :: u64 where "BLOCK_SIZE = PAGE_SIZE * 1000"
definition USER_STACK_TOP :: u64 where "USER_STACK_TOP = 0x800000000000"
definition USER_STACK_LEN :: u64 where "USER_STACK_LEN = 4 * PAGE_SIZE"
definition USER_CODE :: u64 where "USER_CODE = 0x18"
definition USER_DATA :: u64 where "USER_DATA = 0x20"
definition RING3 :: u64 where "RING3 = 3"
definition F_PRESENT :: u32 where "F_PRESENT = 1"
definition F_WRITEABLE :: u32 where "F_WRITEABLE = 2"
definition F_UNPRIVILEGED :: u32 where "F_UNPRIVILEGED = 4"
definition PT_LOAD :: u32 where "PT_LOAD = 1"
definition SEEK_SET :: u32 where "SEEK_SET = 0"

section \<open>Segments\<close>

text \<open>The read loop. A read that reports more than the buffer holds makes \<^verbatim>\<open>memcpyv\<close> leave it.\<close>

partial_function (option) load_data ::
  "('m, 'b) env_ops_scheme \<Rightarrow> u64 \<Rightarrow> u64 \<Rightarrow> u64 \<Rightarrow> u64 \<Rightarrow> ('m, 'a) ukernel_scheme \<Rightarrow> (int \<times> ('m, 'a) ukernel_scheme) option" where
  "load_data ops file dst file_bytes total_read st =
     (if \<not> total_read < file_bytes then Some (0, st)
      else
        let want = (if BLOCK_SIZE > file_bytes - total_read then file_bytes - total_read else BLOCK_SIZE)
        in case op_fread ops file want (memory st) of
             None \<Rightarrow> None
           | Some (ret, bs, m) \<Rightarrow>
               let buf = (\<lambda>i. if i < length bs then bs ! i else the (load_buffer st) i);
                   st = st\<lparr>load_buffer := Some buf, memory := m\<rparr>;
                   got = (scast ret :: u64)
               in if got < 1 then Some (1, st\<lparr>memory := op_kunmap ops dst (memory st)\<rparr>)
                  else if BLOCK_SIZE < got then None
                  else case op_copy_to ops (dst + total_read) (map buf [0..<unat got]) (memory st) of
                         None \<Rightarrow> None
                       | Some m \<Rightarrow> load_data ops file dst file_bytes (total_read + got) (st\<lparr>memory := m\<rparr>))"

definition user_load_segment ::
  "('m, 'b) env_ops_scheme \<Rightarrow> nat \<Rightarrow> u64 \<Rightarrow> nat \<Rightarrow> ('m, 'a) ukernel_scheme \<Rightarrow> (int \<times> ('m, 'a) ukernel_scheme) option" where
  "user_load_segment ops p file idx st =
     (let hdr = elf_segments (ptable st p) idx;
          ctx = memctx (ptable st p);
          mem_bytes = p_memsz hdr;
          file_bytes = p_filesz hdr
      in if p_type hdr \<noteq> PT_LOAD then Some (0, st)
         else if file_bytes > mem_bytes then Some (1, st)
         else
           let mem_pages = (mem_bytes + PAGE_SIZE - 1) div PAGE_SIZE;
               file_pages = (file_bytes + PAGE_SIZE - 1) div PAGE_SIZE
           in if file_pages < 1 then Some (0, st)
              else
                let (a, m) = op_alloc_pages_at ops ctx mem_pages (p_vaddr hdr) (F_WRITEABLE OR F_UNPRIVILEGED) (memory st);
                    st = st\<lparr>memory := m\<rparr>
                in if a = 0 then Some (1, st)
                   else
                     let (mapADDR, m) = op_kmapuser ops ctx (p_vaddr hdr) mem_bytes (memory st);
                         st = st\<lparr>memory := m\<rparr>
                     in if mapADDR = 0 then Some (1, st)
                        else do {
                          (r, m) \<leftarrow> op_fseek ops file (p_offset hdr) SEEK_SET (memory st);
                          let st = st\<lparr>memory := m\<rparr>;
                          (if r <s 0 then Some (1, st)
                           else do {
                             (e, st) \<leftarrow> load_data ops file mapADDR file_bytes 0 st;
                             (if e \<noteq> 0 then Some (1, st)
                              else
                                let end_addr = p_vaddr hdr + mem_pages * PAGE_SIZE;
                                    st = (if end_addr > heap_start (ptable st p)
                                          then upd_pcb p (\<lambda>b. b\<lparr>heap_start := end_addr\<rparr>) st else st)
                                in Some (0, st\<lparr>memory := op_kunmap ops mapADDR (memory st)\<rparr>))
                           })
                        })"

fun load_segments ::
  "('m, 'b) env_ops_scheme \<Rightarrow> nat \<Rightarrow> u64 \<Rightarrow> nat \<Rightarrow> nat \<Rightarrow> ('m, 'a) ukernel_scheme \<Rightarrow> (int \<times> ('m, 'a) ukernel_scheme) option" where
  "load_segments ops p file i 0 st = Some (0, st)"
| "load_segments ops p file i (Suc n) st = do {
     (ret, st) \<leftarrow> user_load_segment ops p file i st;
     (if ret \<noteq> 0 then Some (ret, st) else load_segments ops p file (Suc i) n st)
   }"

definition user_load_segments ::
  "('m, 'b) env_ops_scheme \<Rightarrow> nat \<Rightarrow> u64 \<Rightarrow> ('m, 'a) ukernel_scheme \<Rightarrow> (int \<times> ('m, 'a) ukernel_scheme) option" where
  "user_load_segments ops p file st =
     (let st = upd_pcb p (\<lambda>b. b\<lparr>heap_start := 0, heap_len := 0\<rparr>) st;
          (ok, st) = (if load_buffer st \<noteq> None then (True, st)
                      else let (a, m) = op_kalloc ops BLOCK_SIZE (memory st)
                           in if a = 0 then (False, st\<lparr>memory := m\<rparr>)
                              else (True, st\<lparr>memory := m, load_buffer := Some (op_fresh ops m)\<rparr>))
      in if \<not> ok then Some (1, st)
         else do {
           (ret, st) \<leftarrow> load_segments ops p file 0 (unat (n_elf_segments (ptable st p))) st;
           (if ret \<noteq> 0 then Some (ret, st)
            else if heap_start (ptable st p) = 0 then Some (1, st) else Some (0, st))
         })"

section \<open>The ELF file\<close>

definition validate_elf_hdr :: "elf64_ehdr \<Rightarrow> int" where
  "validate_elf_hdr ehdr =
     (if take 4 (e_ident ehdr) \<noteq> [0x7F, 0x45, 0x4C, 0x46] then 1
      else if e_ident ehdr ! 4 \<noteq> 2 then 1
      else if e_ident ehdr ! 5 \<noteq> 1 then 1
      else if e_machine ehdr \<noteq> 62 then 1
      else if e_ident ehdr ! 6 \<noteq> 1 then 1
      else if e_phnum ehdr > of_nat N_ELF_SEGMENTS then 1
      else if e_type ehdr \<noteq> 2 then 1
      else 0)"

definition user_load_elf ::
  "('m, 'b) env_ops_scheme \<Rightarrow> nat \<Rightarrow> u64 \<Rightarrow> ('m, 'a) ukernel_scheme \<Rightarrow> (int \<times> ('m, 'a) ukernel_scheme) option" where
  "user_load_elf ops p file st = do {
     (r, m) \<leftarrow> op_fseek ops file 0 SEEK_SET (memory st);
     let st = st\<lparr>memory := m\<rparr>;
     (if r <s 0 then Some (1, st)
      else do {
        (ret, bs, m) \<leftarrow> op_fread ops file (of_nat sizeof_ehdr) (memory st);
        let st = upd_pcb p (\<lambda>b. b\<lparr>elf_header := ehdr_of (overlay bs (ehdr_bytes (elf_header b)))\<rparr>) (st\<lparr>memory := m\<rparr>);
        (if ret <s 0 then Some (1, st)
         else if validate_elf_hdr (elf_header (ptable st p)) \<noteq> 0 then Some (1, st)
         else do {
           let st = upd_pcb p (\<lambda>b. b\<lparr>n_elf_segments := e_phnum (elf_header b)\<rparr>) st;
           (r, m) \<leftarrow> op_fseek ops file (e_phoff (elf_header (ptable st p))) SEEK_SET (memory st);
           let st = st\<lparr>memory := m\<rparr>;
           (if r <s 0 then Some (1, st)
            else do {
              (ret, bs, m) \<leftarrow> op_fread ops file (of_nat sizeof_phdr * ucast (e_phnum (elf_header (ptable st p)))) (memory st);
              let st = upd_pcb p (\<lambda>b. b\<lparr>elf_segments := segs_of (overlay bs (segs_bytes (elf_segments b)))\<rparr>) (st\<lparr>memory := m\<rparr>);
              (if ret <s 0 then Some (1, st) else Some (0, st))
            })
         })
      })
   }"

section \<open>The stack and the registers\<close>

text \<open>How many of the arguments fit: the scan stops at the first that does not.\<close>

fun count_args :: "int \<Rightarrow> u8 list list \<Rightarrow> nat" where
  "count_args argbytes [] = 0"
| "count_args argbytes (s # ss) =
     (let n = sint (of_nat (length s) + 1 :: u32)
      in if argbytes + n > uint USER_STACK_LEN then 0 else Suc (count_args (argbytes + n) ss))"

definition user_regs :: "u64 \<Rightarrow> nat \<Rightarrow> u64 \<Rightarrow> cpu_regs" where
  "user_regs pgdir argc entry = zero_regs\<lparr>
     reg_cr3 := pgdir,
     reg_gs := ucast (USER_DATA OR RING3), reg_fs := ucast (USER_DATA OR RING3),
     reg_es := ucast (USER_DATA OR RING3), reg_ds := ucast (USER_DATA OR RING3),
     reg_rdi := of_nat argc, reg_rsi := 0,
     reg_rip := entry, reg_cs := USER_CODE OR RING3, reg_rflags := push_bit 9 1,
     reg_rsp := USER_STACK_TOP, reg_ss := USER_DATA OR RING3\<rparr>"

definition user_setup_stack ::
  "('m, 'b) env_ops_scheme \<Rightarrow> nat \<Rightarrow> u64 \<Rightarrow> mem_ctx_t option \<Rightarrow> ('m, 'a) ukernel_scheme \<Rightarrow> (int \<times> ('m, 'a) ukernel_scheme) option" where
  "user_setup_stack ops p args args_ctx st =
     (case op_args ops args_ctx args (memory st) of
        None \<Rightarrow> None
      | Some ss \<Rightarrow>
          let argc = count_args 0 ss;
              ctx = memctx (ptable st p);
              (a, m) = op_alloc_pages_at ops ctx (USER_STACK_LEN div PAGE_SIZE) (USER_STACK_TOP - USER_STACK_LEN)
                         (F_WRITEABLE OR F_UNPRIVILEGED) (memory st);
              st = st\<lparr>memory := m\<rparr>
          in if a = 0 then Some (1, st)
             else Some (0, upd_pcb p (\<lambda>b. b\<lparr>regs := user_regs (op_pgdir ops ctx (memory st)) argc (e_entry (elf_header b))\<rparr>) st))"

section \<open>Loading, cloning, cleaning up\<close>

text \<open>\<^verbatim>\<open>mem_ctx_free\<close> asserts that its context is not null.\<close>

definition user_cleanup :: "('m, 'b) env_ops_scheme \<Rightarrow> nat option \<Rightarrow> ('m, 'a) ukernel_scheme \<Rightarrow> ('m, 'a) ukernel_scheme option" where
  "user_cleanup ops pp st =
     (case pp of
        None \<Rightarrow> Some st
      | Some p \<Rightarrow>
          (case memctx (ptable st p) of
             None \<Rightarrow> None
           | Some c \<Rightarrow> do {
               m \<leftarrow> op_ctx_free ops c (memory st);
               Some (upd_pcb p (\<lambda>b. b\<lparr>memctx := None\<rparr>) (st\<lparr>memory := m\<rparr>))
             }))"

definition user_load ::
  "('m, 'b) env_ops_scheme \<Rightarrow> nat option \<Rightarrow> u64 \<Rightarrow> u64 \<Rightarrow> mem_ctx_t option \<Rightarrow> ('m, 'a) ukernel_scheme \<Rightarrow> (int \<times> ('m, 'a) ukernel_scheme) option" where
  "user_load ops pp file args args_ctx st =
     (case pp of
        None \<Rightarrow> Some (1, st)
      | Some p \<Rightarrow>
          if file = 0 then Some (1, st)
          else
            let (c, m) = op_ctx_alloc ops (memory st);
                st = upd_pcb p (\<lambda>b. b\<lparr>memctx := c\<rparr>) (st\<lparr>memory := m\<rparr>);
                fail = (\<lambda>st. map_option (\<lambda>st. (1, st)) (user_cleanup ops (Some p) st))
            in if c = None then fail st
               else do {
                 (e, st) \<leftarrow> user_load_elf ops p file st;
                 (if e \<noteq> 0 then fail st
                  else do {
                    (e, st) \<leftarrow> user_load_segments ops p file st;
                    (if e \<noteq> 0 then fail st
                     else do {
                       (e, st) \<leftarrow> user_setup_stack ops p args args_ctx st;
                       (if e \<noteq> 0 then fail st else Some (0, st))
                     })
                  })
               })"

text \<open>The copy of the segments has the size of an ELF header.\<close>

definition user_clone ::
  "('m, 'b) env_ops_scheme \<Rightarrow> nat \<Rightarrow> ('m, 'a) ukernel_scheme \<Rightarrow> (nat option \<times> ('m, 'a) ukernel_scheme) option" where
  "user_clone ops p st =
     (case pcb_alloc st of
        (r, Some c, st) \<Rightarrow>
          if r \<noteq> SUCCESS then Some (None, st)
          else do {
            let st = upd_pcb c (\<lambda>b. b\<lparr>regs := regs (ptable st p)\<rparr>) st;
            (ctx, m) \<leftarrow> op_ctx_clone ops (memctx (ptable st p)) True (memory st);
            let st = upd_pcb c (\<lambda>b. b\<lparr>memctx := ctx\<rparr>) (st\<lparr>memory := m\<rparr>);
            (if ctx = None then Some (None, st)
             else
               let old = ptable st p
               in Some (Some c, upd_pcb c (\<lambda>b. b\<lparr>parent := Some p, pstate := PROC_STATE_READY,
                     priority := priority old, pticks := 0, heap_start := heap_start old, heap_len := heap_len old,
                     elf_header := elf_header old,
                     elf_segments := segs_of (overlay (take sizeof_ehdr (segs_bytes (elf_segments old))) (segs_bytes (elf_segments b))),
                     n_elf_segments := n_elf_segments old\<rparr>) st))
          }
      | (r, None, st) \<Rightarrow> Some (None, st))"

section \<open>The layout is faithful\<close>

lemma of_le_le_bytes_take: "of_le (le_bytes n (w :: 'a::len word)) = take_bit (8 * n) w"
proof (induction n arbitrary: w)
  case 0
  then show ?case by simp
next
  case (Suc n)
  show ?case
    by (rule bit_word_eqI) (auto simp: Suc bit_simps)
qed

lemma of_le_le_bytes [simp]: "LENGTH('a) \<le> 8 * n \<Longrightarrow> of_le (le_bytes n (w :: 'a::len word)) = w"
  unfolding of_le_le_bytes_take by (rule bit_word_eqI) (auto simp: bit_simps)

lemma length_le_bytes [simp]: "length (le_bytes n w) = n"
  by (induction n arbitrary: w) auto

lemma length_phdr_bytes [simp]: "length (phdr_bytes h) = sizeof_phdr"
  by (simp add: phdr_bytes_def sizeof_phdr_def)

lemma length_ehdr_bytes: "length (e_ident h) = 16 \<Longrightarrow> length (ehdr_bytes h) = sizeof_ehdr"
  by (simp add: ehdr_bytes_def sizeof_ehdr_def)

lemma ehdr_of_bytes: "length (e_ident h) = 16 \<Longrightarrow> ehdr_of (ehdr_bytes h) = h"
  by (simp add: ehdr_of_def ehdr_bytes_def field_def)

lemma phdr_of_bytes: "phdr_of (phdr_bytes h) = h"
  by (simp add: phdr_of_def phdr_bytes_def field_def)

lemma drop_chunks:
  "\<forall>x\<in>set xss. length x = c \<Longrightarrow> i \<le> length xss \<Longrightarrow> drop (i * c) (concat xss) = concat (drop i xss)"
proof (induction xss arbitrary: i)
  case Nil
  then show ?case by simp
next
  case (Cons x xss)
  show ?case
  proof (cases i)
    case 0
    then show ?thesis by simp
  next
    case (Suc j)
    have "drop (c + j * c) (x @ concat xss) = drop (j * c) (concat xss)" using Cons.prems by simp
    then show ?thesis using Cons Suc by (simp add: add.commute)
  qed
qed

lemma nth_chunk:
  assumes "\<forall>x\<in>set xss. length x = c" "i < length xss"
  shows "take c (drop (i * c) (concat xss)) = xss ! i"
proof -
  have "drop (i * c) (concat xss) = xss ! i @ concat (drop (Suc i) xss)"
    using drop_chunks [OF assms(1), of i] assms(2) by (simp add: Cons_nth_drop_Suc [symmetric])
  then show ?thesis using assms by simp
qed

lemma length_chunks: "\<forall>x\<in>set xss. length x = c \<Longrightarrow> length (concat xss) = length xss * c"
  by (induction xss) auto

lemma segs_of_bytes: "i < N_ELF_SEGMENTS \<Longrightarrow> segs_of (segs_bytes s) i = s i"
  using nth_chunk [of "map (\<lambda>i. phdr_bytes (s i)) [0..<N_ELF_SEGMENTS]" sizeof_phdr i]
  by (simp add: segs_of_def segs_bytes_def phdr_of_bytes)

text \<open>Reading program headers into the array sets the first of them and leaves the others.\<close>

lemma segs_of_overlay:
  assumes "length ps \<le> N_ELF_SEGMENTS" "i < N_ELF_SEGMENTS"
  shows "segs_of (overlay (concat (map phdr_bytes ps)) (segs_bytes s)) i = (if i < length ps then ps ! i else s i)"
proof -
  let ?s = "map (\<lambda>i. phdr_bytes (s i)) [0..<N_ELF_SEGMENTS]"
  let ?b = "map phdr_bytes ps"
  have l: "length (concat ?b) = length ps * sizeof_phdr" "length (concat ?s) = N_ELF_SEGMENTS * sizeof_phdr"
    using length_chunks [of ?b sizeof_phdr] length_chunks [of ?s sizeof_phdr] by auto
  have "drop (length ps * sizeof_phdr) (concat ?s) = concat (drop (length ps) ?s)"
    using assms by (intro drop_chunks) auto
  then have "overlay (concat ?b) (segs_bytes s) = concat (?b @ drop (length ps) ?s)"
    unfolding overlay_def segs_bytes_def l using assms(1) l(1) by simp
  moreover have "take sizeof_phdr (drop (i * sizeof_phdr) (concat (?b @ drop (length ps) ?s))) = (?b @ drop (length ps) ?s) ! i"
    by (rule nth_chunk) (use assms in \<open>auto dest!: in_set_dropD\<close>)
  moreover have "(?b @ drop (length ps) ?s) ! i = phdr_bytes (if i < length ps then ps ! i else s i)"
    using assms by (auto simp: nth_append)
  ultimately show ?thesis by (simp add: segs_of_def phdr_of_bytes)
qed

text \<open>What the copy of \<^verbatim>\<open>user_clone\<close> leaves in the child: the first segment, the type and flags of the
  second, and the child's own old entries behind them.\<close>

lemma segs_of_clone:
  assumes "i < N_ELF_SEGMENTS"
  shows "segs_of (overlay (take sizeof_ehdr (segs_bytes old)) (segs_bytes new)) i =
    (if i = 0 then old 0
     else if i = 1 then (new 1)\<lparr>p_type := p_type (old 1), p_flags := p_flags (old 1)\<rparr> else new i)"
proof -
  let ?new = "map (\<lambda>i. phdr_bytes (new i)) [0..<N_ELF_SEGMENTS]"
  let ?old = "map (\<lambda>i. phdr_bytes (old i)) [0..<N_ELF_SEGMENTS]"
  have up: "[0..<N_ELF_SEGMENTS] = 0 # 1 # [2..<N_ELF_SEGMENTS]" by (simp add: N_ELF_SEGMENTS_def upt_conv_Cons)
  let ?mix = "take 8 (phdr_bytes (old 1)) @ drop 8 (phdr_bytes (new 1))"
  have t: "take sizeof_ehdr (segs_bytes old) = phdr_bytes (old 0) @ take 8 (phdr_bytes (old 1))"
    by (simp add: segs_bytes_def up sizeof_ehdr_def sizeof_phdr_def)
  have len: "length (segs_bytes new) = N_ELF_SEGMENTS * sizeof_phdr"
    using length_chunks [of ?new sizeof_phdr] by (auto simp: segs_bytes_def)
  have "overlay (take sizeof_ehdr (segs_bytes old)) (segs_bytes new) =
    (phdr_bytes (old 0) @ take 8 (phdr_bytes (old 1))) @ drop 64 (segs_bytes new)"
    unfolding overlay_def t len by (simp add: sizeof_phdr_def N_ELF_SEGMENTS_def)
  also have "drop 64 (segs_bytes new) = drop 8 (phdr_bytes (new 1)) @ concat (map (\<lambda>i. phdr_bytes (new i)) [2..<N_ELF_SEGMENTS])"
    by (simp add: segs_bytes_def up sizeof_phdr_def)
  finally have ov: "overlay (take sizeof_ehdr (segs_bytes old)) (segs_bytes new) =
    concat (phdr_bytes (old 0) # ?mix # map (\<lambda>i. phdr_bytes (new i)) [2..<N_ELF_SEGMENTS])" by simp
  have mix: "phdr_of ?mix = (new 1)\<lparr>p_type := p_type (old 1), p_flags := p_flags (old 1)\<rparr>"
    by (simp add: phdr_of_def phdr_bytes_def field_def)
  have lm: "length ?mix = sizeof_phdr" by (simp add: sizeof_phdr_def)
  let ?l = "phdr_bytes (old 0) # ?mix # map (\<lambda>i. phdr_bytes (new i)) [2..<N_ELF_SEGMENTS]"
  have "take sizeof_phdr (drop (i * sizeof_phdr) (concat ?l)) = ?l ! i"
    by (rule nth_chunk) (use assms lm in auto)
  then have "segs_of (overlay (take sizeof_ehdr (segs_bytes old)) (segs_bytes new)) i = phdr_of (?l ! i)"
    unfolding ov segs_of_def by simp
  moreover have "phdr_of (?l ! i) = (if i = 0 then old 0
     else if i = 1 then (new 1)\<lparr>p_type := p_type (old 1), p_flags := p_flags (old 1)\<rparr> else new i)"
  proof -
    consider "i = 0" | "i = 1" | j where "i = Suc (Suc j)" by (metis One_nat_def not0_implies_Suc)
    then show ?thesis using mix assms by cases (auto simp: phdr_of_bytes)
  qed
  ultimately show ?thesis by simp
qed

section \<open>What the loader relies on\<close>

text \<open>Bytes stored in memory from the address \<open>a\<close> on.\<close>

definition stored :: "u64 \<Rightarrow> u8 list \<Rightarrow> (u64 \<Rightarrow> u8) \<Rightarrow> u64 \<Rightarrow> u8" where
  "stored a bs f x = (if unat (x - a) < length bs then bs ! unat (x - a) else f x)"

lemma stored_Nil [simp]: "stored a [] f = f"
  by (simp add: stored_def fun_eq_iff)

lemma stored_at: "i < length bs \<Longrightarrow> length bs \<le> 2 ^ 64 \<Longrightarrow> stored a bs f (a + of_nat i) = bs ! i"
  by (simp add: stored_def unat_of_nat64)

lemma stored_append:
  assumes "length xs + length ys \<le> 2 ^ 64"
  shows "stored (a + of_nat (length xs)) ys (stored a xs f) = stored a (xs @ ys) f"
proof
  fix x
  let ?d = "unat (x - a)"
  have e: "x - (a + of_nat (length xs)) = (x - a) - of_nat (length xs)" by simp
  show "stored (a + of_nat (length xs)) ys (stored a xs f) x = stored a (xs @ ys) f x"
  proof (cases "length xs \<le> ?d")
    case True
    then have "length xs < 2 ^ 64" using unat_lt64 [of "x - a"] by simp
    then have "unat (of_nat (length xs) :: u64) = length xs" by (simp add: unat_of_nat64)
    then have "unat (x - (a + of_nat (length xs))) = ?d - length xs"
      unfolding e using True by (simp add: unat_sub_if')
    then show ?thesis using True by (auto simp: stored_def nth_append)
  next
    case False
    have "\<not> unat (x - (a + of_nat (length xs))) < length ys"
    proof
      assume *: "unat (x - (a + of_nat (length xs))) < length ys"
      let ?e = "unat (x - (a + of_nat (length xs)))"
      have lt: "?e + length xs < 2 ^ 64" using * assms by simp
      have "x - a = (x - (a + of_nat (length xs))) + of_nat (length xs)" by simp
      then have "x - a = of_nat ?e + of_nat (length xs)" by simp
      then have "x - a = of_nat (?e + length xs)" by (simp only: of_nat_add)
      then have "?d = ?e + length xs" using lt by (simp only: unat_of_nat64)
      then show False using False by simp
    qed
    then show ?thesis using False by (simp add: stored_def nth_append)
  qed
qed

lemma of_nat_not_neg: "n < 2 ^ 31 \<Longrightarrow> \<not> (of_nat n :: u32) <s 0"
  by (simp add: word_sless_alt sint_nonneg unat_of_nat32)

text \<open>An open file that behaves as the bytes \<open>content\<close>: \<open>at k m\<close> says that in the state \<open>m\<close> it is open
  at the offset \<open>k\<close>; \<open>peek m\<close> are the bytes of memory and \<open>target\<close> the addresses that may be
  written through the mapping of a segment.\<close>

locale byte_file =
  fixes ops :: "('m, 'b) env_ops_scheme" and fp :: u64 and content :: "u8 list"
    and at :: "nat \<Rightarrow> 'm \<Rightarrow> bool" and peek :: "'m \<Rightarrow> u64 \<Rightarrow> u8" and target :: "u64 set"
  assumes small: "at k m \<Longrightarrow> length content < 2 ^ 31"
    and seek: "at k m \<Longrightarrow> j \<le> length content \<Longrightarrow>
      \<exists>r m'. op_fseek ops fp (of_nat j) SEEK_SET m = Some (r, m') \<and> \<not> r <s 0 \<and> at j m' \<and> peek m' = peek m"
    and read: "at k m \<Longrightarrow> 0 < n \<Longrightarrow> k + n \<le> length content \<Longrightarrow>
      \<exists>m'. op_fread ops fp (of_nat n) m = Some (of_nat n, take n (drop k content), m') \<and> at (k + n) m' \<and> peek m' = peek m"
    and copy: "at k m \<Longrightarrow> \<forall>i<length bs. a + of_nat i \<in> target \<Longrightarrow>
      \<exists>m'. op_copy_to ops a bs m = Some m' \<and> at k m' \<and> peek m' = stored a bs (peek m)"
begin

lemma load_data_copies:
  assumes "at (off + t) (memory st)" "t \<le> n" "off + n \<le> length content"
    "\<forall>i<n. dst + of_nat i \<in> target"
  shows "\<exists>m b. load_data ops fp dst (of_nat n) (of_nat t) st = Some (0, st\<lparr>load_buffer := b, memory := m\<rparr>) \<and>
    at (off + n) m \<and> peek m = stored (dst + of_nat t) (take (n - t) (drop (off + t) content)) (peek (memory st))"
  using assms
proof (induction "n - t" arbitrary: t st rule: less_induct)
  case less
  have n: "n < 2 ^ 31" using less.prems(3) small [OF less.prems(1)] by simp
  have u: "unat (of_nat n :: u64) = n" "unat (of_nat t :: u64) = t" using n less.prems(2) by (simp_all add: unat_of_nat64)
  show ?case
  proof (cases "t < n")
    case False
    then have "load_data ops fp dst (of_nat n) (of_nat t) st = Some (0, st)"
      using u by (subst load_data.simps) (simp add: word_less_nat_alt)
    moreover have "t = n" using False less.prems(2) by simp
    moreover have "st = st\<lparr>load_buffer := load_buffer st, memory := memory st\<rparr>" by simp
    ultimately show ?thesis using less.prems(1) by (metis diff_self_eq_0 stored_Nil take0)
  next
    case True
    define k where "k = (if unat BLOCK_SIZE > n - t then n - t else unat BLOCK_SIZE)"
    have B: "unat BLOCK_SIZE = 4096000" by (simp add: BLOCK_SIZE_def PAGE_SIZE_def)
    have k: "0 < k" "k \<le> n - t" "k \<le> 4096000" using True by (auto simp: k_def B)
    have sub: "(of_nat n - of_nat t :: u64) = of_nat (n - t)" using True by (simp add: of_nat_diff)
    have usub: "unat (of_nat (n - t) :: u64) = n - t" using n by (simp add: unat_of_nat64)
    have want: "(if BLOCK_SIZE > of_nat n - of_nat t then of_nat n - of_nat t else BLOCK_SIZE) = (of_nat k :: u64)"
      unfolding sub k_def word_less_nat_alt usub by simp
    obtain m1 where m1: "op_fread ops fp (of_nat k) (memory st) = Some (of_nat k, take k (drop (off + t) content), m1)"
      "at (off + t + k) m1" "peek m1 = peek (memory st)"
      using read [OF less.prems(1) k(1)] less.prems(3) k(2) True by force
    define bs where "bs = take k (drop (off + t) content)"
    have lb: "length bs = k" using less.prems(3) k(2) True by (simp add: bs_def)
    define buf where "buf = (\<lambda>i. if i < length bs then bs ! i else the (load_buffer st) i)"
    have mapbuf: "map buf [0..<k] = bs" by (rule nth_equalityI) (auto simp: buf_def lb)
    have got: "scast (of_nat k :: u32) = (of_nat k :: u64)" "unat (of_nat k :: u64) = k"
      using k(3) by (simp_all add: scast_of_nat unat_of_nat64)
    have tgt: "\<forall>i<length bs. dst + of_nat t + of_nat i \<in> target"
    proof (intro allI impI)
      fix i assume "i < length bs"
      then have "t + i < n" using lb k(2) by simp
      then have "dst + of_nat (t + i) \<in> target" using less.prems(4) by blast
      then show "dst + of_nat t + of_nat i \<in> target" by (simp add: add.assoc)
    qed
    obtain m2 where m2: "op_copy_to ops (dst + of_nat t) bs m1 = Some m2" "at (off + t + k) m2"
      "peek m2 = stored (dst + of_nat t) bs (peek m1)"
      using copy [OF m1(2) tgt] by blast
    let ?st = "st\<lparr>load_buffer := Some buf, memory := m2\<rparr>"
    have ge: "\<not> (of_nat k :: u64) < 1" "\<not> BLOCK_SIZE < (of_nat k :: u64)"
      using k got(2) B by (auto simp: word_less_nat_alt)
    have lt: "(of_nat t :: u64) < of_nat n" using u True by (simp add: word_less_nat_alt)
    have step: "load_data ops fp dst (of_nat n) (of_nat t) st = load_data ops fp dst (of_nat n) (of_nat (t + k)) ?st"
      using m1(1) m2(1) got ge lt
      by (subst load_data.simps) (simp add: Let_def want bs_def [symmetric] buf_def [symmetric] mapbuf)
    have "n - (t + k) < n - t" "at (off + (t + k)) (memory ?st)" "t + k \<le> n"
      using k True m2(2) by (simp_all add: add.assoc)
    from less.hyps [OF this less.prems(3,4)] obtain m b where IH:
      "load_data ops fp dst (of_nat n) (of_nat (t + k)) ?st = Some (0, ?st\<lparr>load_buffer := b, memory := m\<rparr>)"
      "at (off + n) m"
      "peek m = stored (dst + of_nat (t + k)) (take (n - (t + k)) (drop (off + (t + k)) content)) (peek (memory ?st))"
      by blast
    let ?rest = "take (n - (t + k)) (drop (off + (t + k)) content)"
    have "n - t = k + (n - (t + k))" using k(2) by simp
    then have "take (n - t) (drop (off + t) content) = bs @ take (n - (t + k)) (drop k (drop (off + t) content))"
      unfolding bs_def by (metis take_add)
    then have all: "take (n - t) (drop (off + t) content) = bs @ ?rest" by (simp add: add.commute add.left_commute)
    have "length bs + length ?rest \<le> 2 ^ 64" using n lb k(2) by simp
    from stored_append [OF this, of "dst + of_nat t"] have
      "stored (dst + of_nat (t + k)) ?rest (stored (dst + of_nat t) bs (peek (memory st))) =
       stored (dst + of_nat t) (bs @ ?rest) (peek (memory st))"
      by (simp add: lb add.assoc)
    then have "peek m = stored (dst + of_nat t) (take (n - t) (drop (off + t) content)) (peek (memory st))"
      unfolding all using IH(3) m2(3) m1(3) by simp
    then show ?thesis using step IH(1,2) by auto
  qed
qed

text \<open>The header and the program headers arrive in the block as they are in the file.\<close>

lemma user_load_elf_reads:
  assumes at0: "at k (memory st)" and wf: "length (e_ident (elf_header (ptable st p))) = 16"
    and h: "take sizeof_ehdr content = ehdr_bytes h" "length (e_ident h) = 16" "validate_elf_hdr h = 0"
    and ps: "take (sizeof_phdr * length ps) (drop (unat (e_phoff h)) content) = concat (map phdr_bytes ps)"
      "length ps = unat (e_phnum h)" "0 < length ps" "unat (e_phoff h) + sizeof_phdr * length ps \<le> length content"
  shows "\<exists>st'. user_load_elf ops p fp st = Some (0, st') \<and> elf_header (ptable st' p) = h \<and>
    n_elf_segments (ptable st' p) = e_phnum h \<and> (\<forall>i<length ps. elf_segments (ptable st' p) i = ps ! i) \<and>
    (\<exists>j. at j (memory st')) \<and> peek (memory st') = peek (memory st)"
proof -
  have len: "sizeof_ehdr \<le> length content"
    using length_ehdr_bytes [OF h(2)] h(1) by (metis length_take min.absorb_iff2 min.commute)
  obtain r1 m1 where m1: "op_fseek ops fp 0 SEEK_SET (memory st) = Some (r1, m1)" "\<not> r1 <s 0" "at 0 m1" "peek m1 = peek (memory st)"
    using seek [OF at0, of 0] by auto
  obtain m2 where m2: "op_fread ops fp (of_nat sizeof_ehdr) m1 = Some (of_nat sizeof_ehdr, ehdr_bytes h, m2)"
    "at sizeof_ehdr m2" "peek m2 = peek m1"
    using read [OF m1(3), of sizeof_ehdr] len h(1) by (auto simp: sizeof_ehdr_def)
  have ov: "overlay (ehdr_bytes h) (ehdr_bytes (elf_header (ptable st p))) = ehdr_bytes h"
    by (simp add: overlay_def length_ehdr_bytes h(2) wf)
  have pos: "(of_nat (unat (e_phoff h)) :: u64) = e_phoff h" by simp
  obtain r3 m3 where m3: "op_fseek ops fp (e_phoff h) SEEK_SET m2 = Some (r3, m3)" "\<not> r3 <s 0"
    "at (unat (e_phoff h)) m3" "peek m3 = peek m2"
    using seek [OF m2(2), of "unat (e_phoff h)"] ps(4) pos by auto
  have sz: "of_nat sizeof_phdr * ucast (e_phnum h) = (of_nat (sizeof_phdr * length ps) :: u64)"
    unfolding ps(2) by (simp add: unsigned_of_nat)
  obtain m4 where m4: "op_fread ops fp (of_nat (sizeof_phdr * length ps)) m3 =
      Some (of_nat (sizeof_phdr * length ps), concat (map phdr_bytes ps), m4)"
    "at (unat (e_phoff h) + sizeof_phdr * length ps) m4" "peek m4 = peek m3"
    using read [OF m3(3), of "sizeof_phdr * length ps"] ps(1,3,4) by (auto simp: sizeof_phdr_def)
  have "\<not> e_phnum h > of_nat N_ELF_SEGMENTS" using h(3) by (auto simp: validate_elf_hdr_def split: if_splits)
  then have np: "length ps \<le> N_ELF_SEGMENTS" unfolding ps(2) by (simp add: word_less_nat_alt N_ELF_SEGMENTS_def)
  have nn: "\<not> (of_nat sizeof_ehdr :: u32) <s 0" "\<not> (of_nat (sizeof_phdr * length ps) :: u32) <s 0"
    by (rule of_nat_not_neg, use np in \<open>simp add: sizeof_ehdr_def sizeof_phdr_def N_ELF_SEGMENTS_def\<close>)+
  let ?st' = "upd_pcb p (\<lambda>b. b\<lparr>elf_segments := segs_of (overlay (concat (map phdr_bytes ps)) (segs_bytes (elf_segments b)))\<rparr>)
      (upd_pcb p (\<lambda>b. b\<lparr>n_elf_segments := e_phnum (elf_header b)\<rparr>)
        (upd_pcb p (\<lambda>b. b\<lparr>elf_header := h\<rparr>) (st\<lparr>memory := m2\<rparr>))\<lparr>memory := m3\<rparr>\<lparr>memory := m4\<rparr>)"
  have run: "user_load_elf ops p fp st = Some (0, ?st')"
    using m1(1,2) m2(1) m3(1,2) m4(1) nn h(3)
    by (simp add: user_load_elf_def Let_def ov ehdr_of_bytes [OF h(2)] sz upd_pcb_def)
  have mem: "memory ?st' = m4" by (simp add: upd_pcb_def)
  have "elf_header (ptable ?st' p) = h \<and> n_elf_segments (ptable ?st' p) = e_phnum h \<and>
    (\<forall>i<length ps. elf_segments (ptable ?st' p) i = ps ! i)"
    using np by (simp add: upd_pcb_def segs_of_overlay)
  then show ?thesis using run mem m4(2,3) m3(4) m2(3) m1(4) by auto
qed

end

section \<open>A loaded program\<close>

lemma load_data_frame:
  assumes "load_data ops fp dst n t st = Some (e, st')"
  shows "\<exists>b m. st' = st\<lparr>load_buffer := b, memory := m\<rparr>"
proof -
  have "\<exists>b m. snd (e, st') = st\<lparr>load_buffer := b, memory := m\<rparr>"
    using _ assms
  proof (rule load_data.raw_induct [of "\<lambda>ops fp dst n t st r. \<exists>b m. snd r = st\<lparr>load_buffer := b, memory := m\<rparr>"])
    fix rec ops fp dst n t st r
    assume IH: "\<And>ops fp dst n t st r. rec ops fp dst n t st = Some r \<Longrightarrow> \<exists>b m. snd r = st\<lparr>load_buffer := b, memory := m\<rparr>"
      and "(if \<not> t < n then Some (0, st)
      else
        let want = (if BLOCK_SIZE > n - t then n - t else BLOCK_SIZE)
        in case op_fread ops fp want (memory st) of
             None \<Rightarrow> None
           | Some (ret, bs, m) \<Rightarrow>
               let buf = (\<lambda>i. if i < length bs then bs ! i else the (load_buffer st) i);
                   st = st\<lparr>load_buffer := Some buf, memory := m\<rparr>;
                   got = (scast ret :: u64)
               in if got < 1 then Some (1, st\<lparr>memory := op_kunmap ops dst (memory st)\<rparr>)
                  else if BLOCK_SIZE < got then None
                  else case op_copy_to ops (dst + t) (map buf [0..<unat got]) (memory st) of
                         None \<Rightarrow> None
                       | Some m \<Rightarrow> rec ops fp dst n (t + got) (st\<lparr>memory := m\<rparr>)) = Some r"
    then show "\<exists>b m. snd r = st\<lparr>load_buffer := b, memory := m\<rparr>"
    proof (cases "t < n")
      case False
      then have "snd r = st\<lparr>load_buffer := load_buffer st, memory := memory st\<rparr>" using \<open>_ = Some r\<close> by auto
      then show ?thesis by blast
    next
      case True
      then show ?thesis using \<open>_ = Some r\<close> by (auto simp: Let_def split: if_splits prod.splits option.splits dest!: IH) blast+
    qed
  qed
  then show ?thesis by simp
qed

lemma load_data_keeps: "load_data ops fp dst n t st = Some (e, st') \<Longrightarrow> ptable st' = ptable st"
  by (auto dest: load_data_frame)

text \<open>The parts of a block that loading segments leaves alone.\<close>

definition same_program :: "pcb \<Rightarrow> pcb \<Rightarrow> bool" where
  "same_program b b' \<longleftrightarrow> elf_header b' = elf_header b \<and> memctx b' = memctx b"

lemma user_load_segment_keeps:
  "user_load_segment ops p fp i st = Some (e, st') \<Longrightarrow> same_program (ptable st p) (ptable st' p)"
  by (auto simp: user_load_segment_def same_program_def Let_def dest!: load_data_keeps split: if_splits prod.splits bind_splits)

lemma load_segments_keeps:
  "load_segments ops p fp i n st = Some (e, st') \<Longrightarrow> same_program (ptable st p) (ptable st' p)"
proof (induction n arbitrary: i st)
  case 0
  then show ?case by (simp add: same_program_def)
next
  case (Suc n)
  then show ?case
    by (auto split: if_splits prod.splits bind_splits simp: same_program_def dest!: user_load_segment_keeps)
qed

lemma user_load_segments_keeps:
  assumes "user_load_segments ops p fp st = Some (0, st')"
  shows "same_program (ptable st p) (ptable st' p)" "heap_start (ptable st' p) \<noteq> 0"
proof -
  obtain st1 n where st1: "load_segments ops p fp 0 n st1 = Some (0, st')"
    "same_program (ptable st p) (ptable st1 p)" "heap_start (ptable st' p) \<noteq> 0"
    using assms by (auto simp: user_load_segments_def Let_def same_program_def split: if_splits prod.splits bind_splits)
  then show "same_program (ptable st p) (ptable st' p)" "heap_start (ptable st' p) \<noteq> 0"
    using load_segments_keeps [OF st1(1)] by (auto simp: same_program_def)
qed

lemma user_load_elf_valid:
  assumes "user_load_elf ops p fp st = Some (0, st')"
  shows "validate_elf_hdr (elf_header (ptable st' p)) = 0" "memctx (ptable st' p) = memctx (ptable st p)"
  using assms by (auto simp: user_load_elf_def Let_def split: if_splits prod.splits bind_splits)

lemma count_args_fits:
  "0 \<le> a \<Longrightarrow> (\<forall>s\<in>set ss. length s < 2 ^ 31 - 1) \<Longrightarrow>
   a \<le> uint USER_STACK_LEN \<Longrightarrow> a + int (\<Sum>s\<leftarrow>take (count_args a ss) ss. length s + 1) \<le> uint USER_STACK_LEN"
proof (induction ss arbitrary: a)
  case Nil
  then show ?case by simp
next
  case (Cons s ss)
  have l: "length s + 1 < 2 ^ 31" using Cons.prems(2) by auto
  have u: "unat (of_nat (length s + 1) :: u32) = length s + 1" by (rule unat_of_nat32) (use l in simp)
  have "sint (of_nat (length s + 1) :: u32) = uint (of_nat (length s + 1) :: u32)"
    by (rule sint_nonneg) (use l u in simp)
  then have "sint (of_nat (length s + 1) :: u32) = int (length s + 1)" unfolding uint_nat u .
  then have n: "sint (of_nat (length s) + 1 :: u32) = int (length s) + 1" by (simp add: add.commute)
  show ?case
  proof (cases "a + (int (length s) + 1) > uint USER_STACK_LEN")
    case True
    then show ?thesis using Cons.prems n by simp
  next
    case False
    then show ?thesis using Cons.IH [of "a + (int (length s) + 1)"] Cons.prems n by simp
  qed
qed

lemma user_load_valid:
  assumes "user_load ops (Some p) fp args actx st = Some (0, st')"
  shows "validate_elf_hdr (elf_header (ptable st' p)) = 0 \<and> memctx (ptable st' p) \<noteq> None \<and>
    heap_start (ptable st' p) \<noteq> 0 \<and>
    (\<exists>argc. regs (ptable st' p) =
       user_regs (op_pgdir ops (memctx (ptable st' p)) (memory st')) argc (e_entry (elf_header (ptable st' p))))"
proof -
  obtain c m st1 st2 where *: "op_ctx_alloc ops (memory st) = (Some c, m)"
    "user_load_elf ops p fp (upd_pcb p (\<lambda>b. b\<lparr>memctx := Some c\<rparr>) (st\<lparr>memory := m\<rparr>)) = Some (0, st1)"
    "user_load_segments ops p fp st1 = Some (0, st2)"
    "user_setup_stack ops p args actx st2 = Some (0, st')"
    using assms by (auto simp: user_load_def Let_def split: if_splits prod.splits bind_splits option.splits)
  note e = user_load_elf_valid [OF *(2)] and s = user_load_segments_keeps [OF *(3)]
  have "validate_elf_hdr (elf_header (ptable st2 p)) = 0" "memctx (ptable st2 p) = Some c"
    using e s(1) by (auto simp: same_program_def)
  then show ?thesis
    using *(4) s(2) by (auto simp: user_setup_stack_def Let_def split: if_splits prod.splits option.splits)
qed

section \<open>Properties\<close>

text \<open>C22: A program that \<^verbatim>\<open>user_load\<close> reports as loaded has a header that passed every check (64-bit
  little-endian x86-64 executable, at most \<^verbatim>\<open>N_ELF_SEGMENTS\<close> program headers), an address space of its
  own and a segment, and it starts in ring 3 with interrupts enabled, at the entry point of its header, on the
  top of its stack and under its own page directory.\<close>

theorem user_load_starts_valid_program:
  assumes "user_load ops (Some p) fp args actx st = Some (0, st')"
  shows "validate_elf_hdr (elf_header (ptable st' p)) = 0 \<and> memctx (ptable st' p) \<noteq> None \<and>
    heap_start (ptable st' p) \<noteq> 0 \<and>
    (\<exists>argc. regs (ptable st' p) =
       user_regs (op_pgdir ops (memctx (ptable st' p)) (memory st')) argc (e_entry (elf_header (ptable st' p))))"
  using assms by (rule user_load_valid)

text \<open>A program of one segment with four bytes, in a file that is the only state.\<close>

definition hello_ehdr :: elf64_ehdr where
  "hello_ehdr = zero_ehdr\<lparr>e_ident := [0x7F, 0x45, 0x4C, 0x46, 2, 1, 1, 0, 0, 0, 0, 0, 0, 0, 0, 0], e_type := 2,
     e_machine := 62, e_version := 1, e_entry := 0x400000, e_phoff := 64, e_phentsize := 56, e_phnum := 1\<rparr>"

definition hello_phdr :: elf64_phdr where
  "hello_phdr = zero_phdr\<lparr>p_type := PT_LOAD, p_offset := 120, p_vaddr := 0x400000, p_filesz := 4, p_memsz := 4\<rparr>"

definition hello_image :: "u8 list" where
  "hello_image = ehdr_bytes hello_ehdr @ phdr_bytes hello_phdr @ [0xF4, 0xEB, 0xFD, 0x90]"

definition hello_ops :: "nat env_ops" where
  "hello_ops = \<lparr>op_ctx_free = \<lambda>_. Some, op_store_status = \<lambda>_ _ _. Some, op_pgdir = \<lambda>_ _. 0x5000,
     op_ctx_alloc = \<lambda>m. (Some (UserCtx 0), m), op_ctx_clone = \<lambda>c _ m. Some (c, m),
     op_alloc_pages_at = \<lambda>_ _ v _ m. (v, m), op_kmapuser = \<lambda>_ v _ m. (v, m), op_kunmap = \<lambda>_ m. m,
     op_kalloc = \<lambda>_ m. (0x9000, m), op_fresh = \<lambda>_ _. 0, op_copy_to = \<lambda>_ _. Some, op_args = \<lambda>_ _ _. Some [],
     op_fseek = \<lambda>_ off _ m. Some (ucast off, unat off),
     op_fread = \<lambda>_ n m. (let bs = take (unat n) (drop m hello_image) in Some (of_nat (length bs), bs, m + length bs)),
     op_fclose = \<lambda>_ m. m\<rparr>"

definition hello_kernel :: "nat ukernel" where
  "hello_kernel = (let q = \<lparr>head = None, tail = None, order = O_PCB_FIFO\<rparr> in
     \<lparr>ptable = (\<lambda>_. zero_pcb), pcb_freelist = q, ready_queue = q, zombie_queue = q,
      syscall_queue = (\<lambda>_. q), current_pcb = None, init_pcb = None, next_pid = 1, ticks = 0, memory = 0,
      load_buffer = None\<rparr>)"

lemma hello_image_parts:
  "take 64 hello_image = ehdr_bytes hello_ehdr" "take 56 (drop 64 hello_image) = phdr_bytes hello_phdr"
  "take 4 (drop 120 hello_image) = [0xF4, 0xEB, 0xFD, 0x90]" "length hello_image = 124"
  by (simp_all add: hello_image_def length_ehdr_bytes sizeof_ehdr_def sizeof_phdr_def hello_ehdr_def)

lemma hello_ops_simps:
  "op_ctx_alloc hello_ops m = (Some (UserCtx 0), m)" "op_fseek hello_ops fp off w m = Some (ucast off, unat off)"
  "op_fread hello_ops fp n m = (let bs = take (unat n) (drop m hello_image) in Some (of_nat (length bs), bs, m + length bs))"
  "op_alloc_pages_at hello_ops c k v f m = (v, m)" "op_kmapuser hello_ops c v k m = (v, m)" "op_kunmap hello_ops v m = m"
  "op_kalloc hello_ops k m = (0x9000, m)" "op_copy_to hello_ops v bs m = Some m" "op_args hello_ops c v m = Some []"
  "op_pgdir hello_ops c m = 0x5000"
  by (simp_all add: hello_ops_def)

definition hello_segs :: "nat \<Rightarrow> elf64_phdr" where
  "hello_segs = segs_of (overlay (concat (map phdr_bytes [hello_phdr])) (segs_bytes (\<lambda>_. zero_phdr)))"

lemma hello_segs_0: "hello_segs 0 = hello_phdr"
  unfolding hello_segs_def by (subst segs_of_overlay) (simp_all add: N_ELF_SEGMENTS_def)

definition hello_read :: "nat ukernel" where
  "hello_read = upd_pcb 2 (\<lambda>b. b\<lparr>memctx := Some (UserCtx 0), elf_header := hello_ehdr, n_elf_segments := 1,
     elf_segments := hello_segs\<rparr>) (hello_kernel\<lparr>memory := 120\<rparr>)"

lemma hello_elf:
  "user_load_elf hello_ops 2 1 (upd_pcb 2 (\<lambda>b. b\<lparr>memctx := Some (UserCtx 0)\<rparr>) (hello_kernel\<lparr>memory := 0\<rparr>)) = Some (0, hello_read)"
proof -
  have ov: "overlay (ehdr_bytes hello_ehdr) (ehdr_bytes zero_ehdr) = ehdr_bytes hello_ehdr"
    by (simp add: overlay_def length_ehdr_bytes hello_ehdr_def zero_ehdr_def)
  have hd: "ehdr_of (ehdr_bytes hello_ehdr) = hello_ehdr" by (simp add: ehdr_of_bytes hello_ehdr_def)
  have l: "length (ehdr_bytes hello_ehdr) = 64" by (simp add: length_ehdr_bytes sizeof_ehdr_def hello_ehdr_def)
  have v: "validate_elf_hdr hello_ehdr = 0" "e_phnum hello_ehdr = 1" "e_phoff hello_ehdr = 64"
    by (simp_all add: validate_elf_hdr_def hello_ehdr_def N_ELF_SEGMENTS_def)
  have k: "ptable hello_kernel 2 = zero_pcb" "memory hello_kernel = 0" by (simp_all add: hello_kernel_def Let_def)
  show ?thesis
    by (simp add: user_load_elf_def hello_ops_simps Let_def k sizeof_ehdr_def sizeof_phdr_def hello_image_parts ov hd l v
        word_sless_alt hello_read_def hello_segs_def upd_pcb_def zero_pcb_def)
qed

lemma hello_data:
  fixes st :: "nat ukernel"
  assumes "memory st = 120"
  shows "\<exists>b. load_data hello_ops fp 0x400000 4 0 st = Some (0, st\<lparr>load_buffer := b, memory := 124\<rparr>)"
proof -
  define buf where "buf = (\<lambda>i. if i < 4 then hello_image ! (120 + i) else the (load_buffer st) i)"
  have "load_data hello_ops fp 0x400000 4 0 st = load_data hello_ops fp 0x400000 4 4 (st\<lparr>load_buffer := Some buf, memory := 124\<rparr>)"
    by (subst load_data.simps)
      (simp add: assms hello_ops_simps hello_image_parts BLOCK_SIZE_def PAGE_SIZE_def buf_def cong: if_cong)
  moreover have "load_data hello_ops fp 0x400000 4 4 (st\<lparr>load_buffer := Some buf, memory := 124\<rparr>) =
    Some (0, st\<lparr>load_buffer := Some buf, memory := 124\<rparr>)"
    by (subst load_data.simps) simp
  ultimately show ?thesis by auto
qed

lemma hello_loads:
  "\<exists>st'. user_load hello_ops (Some 2) 1 0 None hello_kernel = Some (0, st') \<and> reg_rip (regs (ptable st' 2)) = 0x400000"
proof -
  have m: "memory hello_kernel = 0" by (simp add: hello_kernel_def Let_def)
  have r: "ptable hello_read 2 = zero_pcb\<lparr>memctx := Some (UserCtx 0), elf_header := hello_ehdr, n_elf_segments := 1,
     elf_segments := hello_segs\<rparr>" "memory hello_read = 120" "load_buffer hello_read = None"
    by (simp_all add: hello_read_def hello_kernel_def Let_def upd_pcb_def)
  define st1 where "st1 = (upd_pcb 2 (\<lambda>b. b\<lparr>heap_start := 0, heap_len := 0\<rparr>) hello_read)
    \<lparr>memory := 120, load_buffer := Some (op_fresh hello_ops 120)\<rparr>"
  have s1: "memory st1 = 120" "elf_segments (ptable st1 2) 0 = hello_phdr" "memctx (ptable st1 2) = Some (UserCtx 0)"
    "elf_header (ptable st1 2) = hello_ehdr" "n_elf_segments (ptable st1 2) = 1" "heap_start (ptable st1 2) = 0"
    by (simp_all add: st1_def r hello_segs_0)
  obtain b where d: "load_data hello_ops 1 0x400000 4 0 (st1\<lparr>memory := 120\<rparr>) = Some (0, st1\<lparr>memory := 120\<rparr>\<lparr>load_buffer := b, memory := 124\<rparr>)"
    using hello_data [of "st1\<lparr>memory := 120\<rparr>" 1] by auto
  have ph: "p_type hello_phdr = PT_LOAD" "p_memsz hello_phdr = 4" "p_filesz hello_phdr = 4" "p_vaddr hello_phdr = 0x400000"
    "p_offset hello_phdr = 120" by (simp_all add: hello_phdr_def)
  define st2 where "st2 = (upd_pcb 2 (\<lambda>b. b\<lparr>heap_start := 0x401000\<rparr>) (st1\<lparr>memory := 120\<rparr>\<lparr>load_buffer := b, memory := 124\<rparr>))\<lparr>memory := 124\<rparr>"
  have seg: "user_load_segment hello_ops 2 1 0 st1 = Some (0, st2)"
    using d by (simp add: user_load_segment_def s1 ph hello_ops_simps PAGE_SIZE_def word_sless_alt st2_def)
  have lb: "load_buffer (upd_pcb 2 (\<lambda>b. b\<lparr>heap_start := 0, heap_len := 0\<rparr>) hello_read) = None"
    by (simp add: upd_pcb_def r)
  have segs: "user_load_segments hello_ops 2 1 hello_read = Some (0, st2)"
    using seg s1(5) lb by (simp add: user_load_segments_def Let_def r hello_ops_simps st1_def [symmetric]) (simp add: st2_def)
  have "elf_header (ptable st2 2) = hello_ehdr" by (simp add: st2_def s1)
  then show ?thesis
    by (simp add: user_load_def hello_ops_simps m hello_elf segs user_setup_stack_def PAGE_SIZE_def USER_STACK_TOP_def
        USER_STACK_LEN_def user_regs_def hello_ehdr_def)
qed

theorem user_load_starts_valid_program_witness:
  "\<exists>st'. user_load hello_ops (Some 2) 1 0 None hello_kernel = Some (0, st') \<and>
     validate_elf_hdr (elf_header (ptable st' 2)) = 0 \<and> reg_rip (regs (ptable st' 2)) = 0x400000 \<and>
     (\<exists>argc. regs (ptable st' 2) = user_regs 0x5000 argc (e_entry (elf_header (ptable st' 2))))"
proof -
  obtain st' where st': "user_load hello_ops (Some 2) 1 0 None hello_kernel = Some (0, st')"
    "reg_rip (regs (ptable st' 2)) = 0x400000"
    using hello_loads by blast
  then show ?thesis
    using user_load_starts_valid_program [OF st'(1)] by (auto simp: hello_ops_def)
qed

text \<open>When no memory context is left, loading a program panics instead of failing: \<^verbatim>\<open>user_load\<close> goes to
  its clean-up, which frees the null context, and \<^verbatim>\<open>mem_ctx_free\<close> asserts that there is one. A process that
  calls \<^verbatim>\<open>exec\<close> then stops the kernel.\<close>

theorem user_load_panics_without_context:
  assumes "op_ctx_alloc ops (memory st) = (None, m)" "fp \<noteq> 0"
  shows "user_load ops (Some p) fp args actx st = None"
  using assms by (simp add: user_load_def user_cleanup_def)

theorem user_load_panics_without_context_witness:
  "user_load (hello_ops\<lparr>op_ctx_alloc := \<lambda>m. (None, m)\<rparr>) (Some 2) 1 0 None hello_kernel = None"
  by (rule user_load_panics_without_context [of _ _ 0]) (simp_all add: hello_kernel_def hello_ops_def Let_def)

end
