(* ===== verification/Input.thy ===== *)
theory Input
  imports Prelude
begin

text \<open>
  The input event buffers of \<^verbatim>\<open>kernel/input.c\<close>: two static ring buffers, one of key codes
  and one of mouse events, filled by the PS/2 interrupt handlers and drained by
  \<^verbatim>\<open>sys_keypoll\<close>. Both are modelled as the C has them (array, start, end, length); the
  locale \<open>event_ring\<close> states what a client may rely on, an ordered queue of at most
  \<open>N_KEYCODE\<close> events that drops its oldest event when full, and both buffers interpret it.
\<close>

section \<open>The buffers\<close>

record keycode =
  kc_key :: u8
  kc_flags :: u8

record mouse_event =
  me_updated :: bool
  me_lmb :: bool
  me_rmb :: bool
  me_mmb :: bool
  me_relx :: int
  me_rely :: int

definition N_KEYCODE :: nat where "N_KEYCODE = 64"
definition N_MOUSEEV :: nat where "N_MOUSEEV = 64"

record keycode_buf =
  kdata :: "keycode list"
  kstart :: nat
  kend :: nat
  klen :: nat

record mouse_event_buf =
  mdata :: "mouse_event list"
  mstart :: nat
  mend :: nat
  mlen :: nat

text \<open>The statically initialised buffers; C zeroes the members with no initialiser.\<close>

definition keycode_buffer_init :: keycode_buf where
  "keycode_buffer_init =
     \<lparr>kdata = replicate N_KEYCODE \<lparr>kc_key = 0, kc_flags = 0\<rparr>, kstart = 0, kend = 0, klen = 0\<rparr>"

definition mouse_event_buffer_init :: mouse_event_buf where
  "mouse_event_buffer_init =
     \<lparr>mdata = replicate N_MOUSEEV \<lparr>me_updated = False, me_lmb = False, me_rmb = False,
                me_mmb = False, me_relx = 0, me_rely = 0\<rparr>,
      mstart = 0, mend = 0, mlen = 0\<rparr>"

definition keycode_push :: "keycode \<Rightarrow> keycode_buf \<Rightarrow> keycode_buf" where
  "keycode_push ev b =
     (let b = b\<lparr>kdata := (kdata b)[kend b := ev]\<rparr>;
          b = b\<lparr>kend := (kend b + 1) mod N_KEYCODE\<rparr>
      in if klen b < N_KEYCODE then b\<lparr>klen := klen b + 1\<rparr>
         else b\<lparr>kstart := (kstart b + 1) mod N_KEYCODE\<rparr>)"

text \<open>Returns the C result, what is stored through the pointer argument (nothing when the
  buffer is empty) and the new buffer.\<close>

definition keycode_pop :: "keycode_buf \<Rightarrow> int \<times> keycode option \<times> keycode_buf" where
  "keycode_pop b =
     (if klen b < 1 then (1, None, b)
      else (0, Some (kdata b ! kstart b),
            b\<lparr>klen := klen b - 1, kstart := (kstart b + 1) mod N_KEYCODE\<rparr>))"

definition keycode_len :: "keycode_buf \<Rightarrow> nat" where
  "keycode_len b = klen b"

definition mouse_event_push :: "mouse_event \<Rightarrow> mouse_event_buf \<Rightarrow> mouse_event_buf" where
  "mouse_event_push ev b =
     (let b = b\<lparr>mdata := (mdata b)[mend b := ev]\<rparr>;
          b = b\<lparr>mend := (mend b + 1) mod N_KEYCODE\<rparr>
      in if mlen b < N_KEYCODE then b\<lparr>mlen := mlen b + 1\<rparr>
         else b\<lparr>mstart := (mstart b + 1) mod N_KEYCODE\<rparr>)"

definition mouse_event_pop :: "mouse_event_buf \<Rightarrow> int \<times> mouse_event option \<times> mouse_event_buf" where
  "mouse_event_pop b =
     (if mlen b < 1 then (1, None, b)
      else (0, Some (mdata b ! mstart b),
            b\<lparr>mlen := mlen b - 1, mstart := (mstart b + 1) mod N_KEYCODE\<rparr>))"

definition mouse_event_len :: "mouse_event_buf \<Rightarrow> nat" where
  "mouse_event_len b = mlen b"

section \<open>Contents and invariant\<close>

text \<open>The events a ring of capacity \<open>N_KEYCODE\<close> holds, oldest first.\<close>

definition ring_list :: "'e list \<Rightarrow> nat \<Rightarrow> nat \<Rightarrow> 'e list" where
  "ring_list dat st n = map (\<lambda>i. dat ! ((st + i) mod N_KEYCODE)) [0..<n]"

text \<open>The indices stay inside the array, and \<open>end\<close> is where the contents stop.\<close>

definition ring_ok :: "'e list \<Rightarrow> nat \<Rightarrow> nat \<Rightarrow> nat \<Rightarrow> bool" where
  "ring_ok dat st en n \<longleftrightarrow>
     length dat = N_KEYCODE \<and> st < N_KEYCODE \<and> en < N_KEYCODE \<and> n \<le> N_KEYCODE \<and>
     en = (st + n) mod N_KEYCODE"

abbreviation keycodes :: "keycode_buf \<Rightarrow> keycode list" where
  "keycodes b \<equiv> ring_list (kdata b) (kstart b) (klen b)"

abbreviation keycode_ok :: "keycode_buf \<Rightarrow> bool" where
  "keycode_ok b \<equiv> ring_ok (kdata b) (kstart b) (kend b) (klen b)"

abbreviation mouse_events :: "mouse_event_buf \<Rightarrow> mouse_event list" where
  "mouse_events b \<equiv> ring_list (mdata b) (mstart b) (mlen b)"

abbreviation mouse_ok :: "mouse_event_buf \<Rightarrow> bool" where
  "mouse_ok b \<equiv> ring_ok (mdata b) (mstart b) (mend b) (mlen b)"

lemma ring_ok_start: "ring_ok dat st en n \<Longrightarrow> st < N_KEYCODE"
  by (simp add: ring_ok_def)

lemma length_ring_list [simp]: "length (ring_list dat st n) = n"
  by (simp add: ring_list_def)

lemma ring_list_0 [simp]: "ring_list dat st 0 = []"
  by (simp add: ring_list_def)

lemma ring_list_hd: "0 < n \<Longrightarrow> st < N_KEYCODE \<Longrightarrow> hd (ring_list dat st n) = dat ! st"
  by (simp add: ring_list_def hd_map)

lemma ring_list_tl: "tl (ring_list dat st n) = ring_list dat ((st + 1) mod N_KEYCODE) (n - 1)"
proof (rule nth_equalityI)
  fix i
  assume "i < length (tl (ring_list dat st n))"
  then have "Suc i < n" by simp
  moreover from this have "i < n - Suc 0" by simp
  ultimately show "tl (ring_list dat st n) ! i = ring_list dat ((st + 1) mod N_KEYCODE) (n - 1) ! i"
    by (simp add: ring_list_def nth_tl mod_simps)
qed simp

lemma ring_slot_free:
  assumes "i < n" "n < N_KEYCODE" "st < N_KEYCODE"
  shows "(st + i) mod N_KEYCODE \<noteq> (st + n) mod N_KEYCODE"
proof
  assume "(st + i) mod N_KEYCODE = (st + n) mod N_KEYCODE"
  with assms(1) have "N_KEYCODE dvd n - i"
    by (metis add_diff_cancel_left add_le_cancel_left less_imp_le mod_eq_dvd_iff_nat)
  moreover from assms have "0 < n - i" "n - i < N_KEYCODE" by auto
  ultimately show False by (simp add: nat_dvd_not_less)
qed

lemma ring_list_store:
  assumes "ring_ok dat st en n" "n < N_KEYCODE"
  shows "ring_list (dat[en := e]) st (Suc n) = ring_list dat st n @ [e]"
proof (rule nth_equalityI)
  fix i
  assume "i < length (ring_list (dat[en := e]) st (Suc n))"
  then have i: "i \<le> n" by simp
  from assms have en: "en = (st + n) mod N_KEYCODE" "en < length dat"
    by (auto simp: ring_ok_def)
  show "ring_list (dat[en := e]) st (Suc n) ! i = (ring_list dat st n @ [e]) ! i"
  proof (cases "i = n")
    case True
    with en show ?thesis by (simp add: ring_list_def nth_append del: upt_Suc)
  next
    case False
    with i have "i < n" by simp
    moreover from this assms have "(st + i) mod N_KEYCODE \<noteq> (st + n) mod N_KEYCODE"
      by (intro ring_slot_free) (auto simp: ring_ok_def)
    ultimately show ?thesis
      using en by (simp add: ring_list_def nth_append del: upt_Suc)
  qed
qed simp

lemma ring_ok_drop:
  assumes "ring_ok dat st en n" "0 < n"
  shows "ring_ok dat (Suc st mod N_KEYCODE) en (n - Suc 0)"
proof -
  from assms(2) obtain m where "n = Suc m" by (cases n) auto
  with assms(1) show ?thesis by (auto simp: ring_ok_def mod_simps N_KEYCODE_def)
qed

text \<open>A full ring: the store lands on the oldest event, so dropping it first and storing
  afterwards is the same.\<close>

lemma ring_list_store_full:
  assumes "ring_ok dat st en n" "\<not> n < N_KEYCODE"
  shows "ring_list (dat[en := e]) (Suc st mod N_KEYCODE) n = tl (ring_list dat st n) @ [e]"
proof -
  from assms have n: "n = Suc (n - 1)" "n - 1 < N_KEYCODE"
    by (auto simp: ring_ok_def N_KEYCODE_def)
  from assms have ok: "ring_ok dat ((st + 1) mod N_KEYCODE) en (n - 1)"
    using ring_ok_drop [OF assms(1)] by (simp add: N_KEYCODE_def)
  have "ring_list (dat[en := e]) ((st + 1) mod N_KEYCODE) (Suc (n - 1))
      = ring_list dat ((st + 1) mod N_KEYCODE) (n - 1) @ [e]"
    by (rule ring_list_store [OF ok n(2)])
  then show ?thesis by (metis Suc_eq_plus1 n(1) ring_list_tl)
qed

section \<open>The contract of an event buffer\<close>

datatype 'e ev_op = Push 'e | Pop

text \<open>The specification machine: a queue that keeps the newest \<open>N_KEYCODE\<close> events.\<close>

fun spec_run :: "'e list \<Rightarrow> 'e ev_op list \<Rightarrow> (int \<times> 'e option) list \<times> 'e list" where
  "spec_run q [] = ([], q)"
| "spec_run q (Push e # ops) =
     spec_run (if length q < N_KEYCODE then q @ [e] else tl q @ [e]) ops"
| "spec_run q (Pop # ops) =
     (case q of
        [] \<Rightarrow> (let (outs, q') = spec_run [] ops in ((1, None) # outs, q'))
      | e # q' \<Rightarrow> (let (outs, q'') = spec_run q' ops in ((0, Some e) # outs, q'')))"

text \<open>The same calls made on a buffer, with what each pop returned.\<close>

fun ring_run :: "('e \<Rightarrow> 'b \<Rightarrow> 'b) \<Rightarrow> ('b \<Rightarrow> int \<times> 'e option \<times> 'b) \<Rightarrow> 'b \<Rightarrow> 'e ev_op list
    \<Rightarrow> (int \<times> 'e option) list \<times> 'b" where
  "ring_run push pop b [] = ([], b)"
| "ring_run push pop b (Push e # ops) = ring_run push pop (push e b) ops"
| "ring_run push pop b (Pop # ops) =
     (let (r, out, b') = pop b; (outs, b'') = ring_run push pop b' ops in ((r, out) # outs, b''))"

locale event_ring =
  fixes push :: "'e \<Rightarrow> 'b \<Rightarrow> 'b"
    and pop :: "'b \<Rightarrow> int \<times> 'e option \<times> 'b"
    and contents :: "'b \<Rightarrow> 'e list"
    and ok :: "'b \<Rightarrow> bool"
  assumes ok_push: "ok b \<Longrightarrow> ok (push e b)"
    and push_contents: "ok b \<Longrightarrow> contents (push e b) =
          (if length (contents b) < N_KEYCODE then contents b else tl (contents b)) @ [e]"
    and pop_empty: "ok b \<Longrightarrow> contents b = [] \<Longrightarrow> pop b = (1, None, b)"
    and pop_nonempty: "ok b \<Longrightarrow> contents b \<noteq> [] \<Longrightarrow>
          \<exists>b'. pop b = (0, Some (hd (contents b)), b') \<and> ok b' \<and> contents b' = tl (contents b)"
    and capacity: "ok b \<Longrightarrow> length (contents b) \<le> N_KEYCODE"
begin

lemma run_refines:
  "ok b \<Longrightarrow> ring_run push pop b ops = (outs, b') \<Longrightarrow>
   spec_run (contents b) ops = (outs, contents b') \<and> ok b'"
proof (induction ops arbitrary: b outs b')
  case Nil
  then show ?case by simp
next
  case (Cons x ops)
  show ?case
  proof (cases x)
    case (Push e)
    with Cons have "spec_run (contents (push e b)) ops = (outs, contents b') \<and> ok b'"
      by (auto intro: ok_push)
    with Push Cons.prems(1) show ?thesis by (simp add: push_contents split: if_splits)
  next
    case Pop
    show ?thesis
    proof (cases "contents b")
      case Nil
      with Cons.prems(1) have "pop b = (1, None, b)" by (rule pop_empty)
      with Pop Cons.prems(2) obtain outs' where outs: "outs = (1, None) # outs'"
        and run: "ring_run push pop b ops = (outs', b')"
        by (auto split: prod.splits)
      from Cons.IH [OF Cons.prems(1) run] Nil outs Pop show ?thesis by simp
    next
      case (Cons e q)
      from local.Cons pop_nonempty [OF Cons.prems(1)] obtain b1 where
        b1: "pop b = (0, Some e, b1)" "ok b1" "contents b1 = q" by auto
      with Pop Cons.prems(2) obtain outs' where outs: "outs = (0, Some e) # outs'"
        and run: "ring_run push pop b1 ops = (outs', b')"
        by (auto split: prod.splits)
      from Cons.IH [OF b1(2) run] b1(3) local.Cons outs Pop show ?thesis by simp
    qed
  qed
qed

lemma never_overfull:
  "ok b \<Longrightarrow> length (contents (snd (ring_run push pop b ops))) \<le> N_KEYCODE"
  using run_refines capacity by (metis prod.collapse)

end

interpretation keys: event_ring keycode_push keycode_pop keycodes keycode_ok
proof (unfold_locales, goal_cases)
  case (1 b e)
  then show ?case
    by (auto simp: keycode_push_def ring_ok_def Let_def mod_simps N_KEYCODE_def)
next
  case (2 b e)
  then show ?case
    by (auto simp: keycode_push_def Let_def ring_list_store ring_list_store_full)
next
  case (3 b)
  then show ?case by (simp add: keycode_pop_def flip: length_0_conv)
next
  case (4 b)
  then have "0 < klen b" by (metis gr0I ring_list_0)
  with 4 show ?case
    by (simp add: keycode_pop_def ring_ok_drop ring_list_hd [OF _ ring_ok_start] ring_list_tl)
next
  case (5 b)
  then show ?case by (simp add: ring_ok_def)
qed

interpretation mice: event_ring mouse_event_push mouse_event_pop mouse_events mouse_ok
proof (unfold_locales, goal_cases)
  case (1 b e)
  then show ?case
    by (auto simp: mouse_event_push_def ring_ok_def Let_def mod_simps N_KEYCODE_def)
next
  case (2 b e)
  then show ?case
    by (auto simp: mouse_event_push_def Let_def ring_list_store ring_list_store_full)
next
  case (3 b)
  then show ?case by (simp add: mouse_event_pop_def flip: length_0_conv)
next
  case (4 b)
  then have "0 < mlen b" by (metis gr0I ring_list_0)
  with 4 show ?case
    by (simp add: mouse_event_pop_def ring_ok_drop ring_list_hd [OF _ ring_ok_start] ring_list_tl)
next
  case (5 b)
  then show ?case by (simp add: ring_ok_def)
qed

lemma keycode_ok_init: "keycode_ok keycode_buffer_init"
  by (simp add: keycode_buffer_init_def ring_ok_def N_KEYCODE_def)

lemma mouse_ok_init: "mouse_ok mouse_event_buffer_init"
  by (simp add: mouse_event_buffer_init_def ring_ok_def N_KEYCODE_def N_MOUSEEV_def)

lemma keycodes_init: "keycodes keycode_buffer_init = []"
  by (simp add: keycode_buffer_init_def)

lemma mouse_events_init: "mouse_events mouse_event_buffer_init = []"
  by (simp add: mouse_event_buffer_init_def)

section \<open>Properties\<close>

text \<open>C17: Any sequence of \<^verbatim>\<open>keycode_push\<close> and \<^verbatim>\<open>keycode_pop\<close> calls on the initial buffer
  returns what a queue returns that keeps the newest \<open>N_KEYCODE\<close> key codes: pops come back in
  the order of the pushes, a push into a full buffer drops the oldest code, and a pop of an
  empty buffer reports 1 and stores nothing.\<close>

theorem keycode_buffer_is_bounded_queue:
  "spec_run [] ops =
     (fst (ring_run keycode_push keycode_pop keycode_buffer_init ops),
      keycodes (snd (ring_run keycode_push keycode_pop keycode_buffer_init ops))) \<and>
   keycode_len (snd (ring_run keycode_push keycode_pop keycode_buffer_init ops)) \<le> N_KEYCODE"
proof (cases "ring_run keycode_push keycode_pop keycode_buffer_init ops")
  case (Pair outs b)
  with keys.run_refines [OF keycode_ok_init Pair] have
    "spec_run [] ops = (outs, keycodes b)" "keycode_ok b"
    by (simp_all add: keycodes_init)
  with Pair show ?thesis by (simp add: keycode_len_def ring_ok_def)
qed

text \<open>The mouse event buffer meets the same contract, although \<^verbatim>\<open>mouse_event_push\<close> wraps
  its indices with the capacity of the key code buffer.\<close>

theorem mouse_event_buffer_is_bounded_queue:
  "spec_run [] ops =
     (fst (ring_run mouse_event_push mouse_event_pop mouse_event_buffer_init ops),
      mouse_events (snd (ring_run mouse_event_push mouse_event_pop mouse_event_buffer_init ops))) \<and>
   mouse_event_len (snd (ring_run mouse_event_push mouse_event_pop mouse_event_buffer_init ops))
     \<le> N_MOUSEEV"
proof (cases "ring_run mouse_event_push mouse_event_pop mouse_event_buffer_init ops")
  case (Pair outs b)
  with mice.run_refines [OF mouse_ok_init Pair] have
    "spec_run [] ops = (outs, mouse_events b)" "mouse_ok b"
    by (simp_all add: mouse_events_init)
  with Pair show ?thesis
    by (simp add: mouse_event_len_def ring_ok_def N_KEYCODE_def N_MOUSEEV_def)
qed

end
