(* ===== verification/Syscall.thy ===== *)
theory Syscall
  imports User Input
begin

text \<open>
  The system calls of \<^verbatim>\<open>kernel/syscall.c\<close>: every handler, the table of handlers and the entry
  \<^verbatim>\<open>syscall_handler\<close>. The static pointer \<^verbatim>\<open>pcb\<close>, the calling process, is the argument \<open>p\<close> of a
  handler. A handler returns its C result (an int, here its 32 bits) to the entry, or it dispatches
  another process and does not come back, or it turns the machine off; a fault or a failed assertion is
  \<open>None\<close>.

  What the handlers call in the memory manager, the file system, the terminal and the clock is the argument
  \<open>ops\<close>, which extends the operations of the loader.
\<close>

section \<open>State and results\<close>

record gpu_dev_t =
  gpu_width :: u16
  gpu_height :: u16
  gpu_bit_depth :: u16
  gpu_framebuffer :: u64

text \<open>\<open>op_stack\<close> are the bytes of an uninitialised file name buffer on the kernel stack.\<close>

record 'm sys_ops = "'m env_ops" +
  op_load_str :: "mem_ctx_t \<Rightarrow> u64 \<Rightarrow> 'm \<Rightarrow> u8 list option"
  op_store :: "mem_ctx_t \<Rightarrow> u64 \<Rightarrow> u8 list \<Rightarrow> 'm \<Rightarrow> 'm option"
  op_map_byte :: "u64 \<Rightarrow> 'm \<Rightarrow> u8 option"
  op_stack :: "'m \<Rightarrow> u8 list"
  op_root_fs :: "'m \<Rightarrow> nat option"
  op_open :: "nat \<Rightarrow> u8 list \<Rightarrow> u32 \<Rightarrow> 'm \<Rightarrow> (int \<times> u64 option \<times> 'm) option"
  op_kputc :: "u8 \<Rightarrow> 'm \<Rightarrow> 'm"
  op_unixtime :: "'m \<Rightarrow> u64"
  op_alloc_pages :: "mem_ctx_t option \<Rightarrow> u64 \<Rightarrow> u32 \<Rightarrow> 'm \<Rightarrow> u64 \<times> 'm"
  op_free_pages :: "mem_ctx_t option \<Rightarrow> u64 \<Rightarrow> 'm \<Rightarrow> 'm option"
  op_mapaddr :: "mem_ctx_t option \<Rightarrow> u64 \<Rightarrow> u64 \<Rightarrow> u64 \<Rightarrow> u32 \<Rightarrow> 'm \<Rightarrow> u64 \<times> 'm"
  op_get_phys :: "mem_ctx_t option \<Rightarrow> u64 \<Rightarrow> 'm \<Rightarrow> u64"
  op_gpu :: "'m \<Rightarrow> gpu_dev_t option"

record 'm skernel = "'m ukernel" +
  key_buffer :: keycode_buf

datatype 'st outcome =
    Returned u32 'st
  | Switched bool 'st
  | PoweredOff 'st

definition N_FILE_NAME :: nat where "N_FILE_NAME = 256"

text \<open>\<^verbatim>\<open>dispatch\<close> at the end of a handler.\<close>

definition leave :: "('m, 'b) mem_ops_scheme \<Rightarrow> ('m, 'a) kernel_scheme \<Rightarrow> ('m, 'a) kernel_scheme outcome option" where
  "leave ops st = map_option (\<lambda>(b, st). Switched b st) (dispatch ops st)"

text \<open>Writing the result register through a pointer to a 32-bit type.\<close>

definition set_ret32 :: "u32 \<Rightarrow> pcb \<Rightarrow> pcb" where
  "set_ret32 v b = set_ret ((reg_rax (regs b) AND 0xFFFFFFFF00000000) OR ucast v) b"

section \<open>Files\<close>

definition get_file_ptr :: "nat \<Rightarrow> u32 \<Rightarrow> ('m, 'a) kernel_scheme \<Rightarrow> u64" where
  "get_file_ptr p fd st =
     (if fd <s 3 \<or> \<not> fd <s of_nat (N_OPEN_FILES + 3) then 0
      else open_files (ptable st p) (unat (fd - 3)))"

text \<open>Copying \<open>n\<close> more bytes than \<^verbatim>\<open>strlen\<close> counts into the buffer \<^verbatim>\<open>filename\<close>, and the path that the
  buffer then holds. A name that does not fit overruns the kernel stack.\<close>

definition read_filename ::
  "('m, 'b) sys_ops_scheme \<Rightarrow> bool \<Rightarrow> nat \<Rightarrow> u64 \<Rightarrow> ('m, 'a) kernel_scheme \<Rightarrow> u8 list option" where
  "read_filename ops nul p addr st = do {
     c \<leftarrow> memctx (ptable st p);
     s \<leftarrow> op_load_str ops c addr (memory st);
     let s = s @ (if nul then [0] else []);
     (if N_FILE_NAME < length s then None
      else
        let filename = s @ drop (length s) (op_stack ops (memory st))
        in if 0 \<in> set filename then Some (takeWhile (\<lambda>b. b \<noteq> 0) filename) else None)
   }"

definition find_fd :: "(nat \<Rightarrow> u64) \<Rightarrow> nat option" where
  "find_fd files = find (\<lambda>i. files i = 0) [0..<N_OPEN_FILES]"

definition sys_open ::
  "('m, 'b) sys_ops_scheme \<Rightarrow> nat \<Rightarrow> ('m, 'a) kernel_scheme \<Rightarrow> ('m, 'a) kernel_scheme outcome option" where
  "sys_open ops p st = do {
     let in_filename = PCB_ARG1 (ptable st p);
     let flags = (ucast (PCB_ARG2 (ptable st p)) :: u32);
     filename \<leftarrow> read_filename ops False p in_filename st;
     (case find_fd (open_files (ptable st p)) of
        None \<Rightarrow> Some (Returned (-1) st)
      | Some i \<Rightarrow>
          (case op_root_fs ops (memory st) of
             None \<Rightarrow> Some (Returned (-1) st)
           | Some fs \<Rightarrow> do {
               (e, out, m) \<leftarrow> op_open ops fs filename flags (memory st);
               let st = st\<lparr>memory := m\<rparr>;
               let st = (case out of
                           None \<Rightarrow> st
                         | Some f \<Rightarrow> upd_pcb p (\<lambda>b. b\<lparr>open_files := (open_files b)(i := f)\<rparr>) st);
               Some (Returned (if e \<noteq> 0 then - 1 else of_nat (i + 3)) st)
             }))
   }"

definition sys_close ::
  "('m, 'b) sys_ops_scheme \<Rightarrow> nat \<Rightarrow> ('m, 'a) kernel_scheme \<Rightarrow> ('m, 'a) kernel_scheme outcome option" where
  "sys_close ops p st =
     (let file = get_file_ptr p (ucast (PCB_ARG1 (ptable st p))) st
      in if file = 0 then Some (Returned 1 st)
         else Some (Returned 0 (st\<lparr>memory := op_fclose ops file (memory st)\<rparr>)))"

definition sys_read ::
  "('m, 'b) sys_ops_scheme \<Rightarrow> nat \<Rightarrow> ('m, 'a) kernel_scheme \<Rightarrow> ('m, 'a) kernel_scheme outcome option" where
  "sys_read ops p st =
     (let fd = ucast (PCB_ARG1 (ptable st p));
          buffer = PCB_ARG2 (ptable st p);
          nbytes = PCB_ARG3 (ptable st p);
          (map_buf, m) = op_kmapuser ops (memctx (ptable st p)) buffer nbytes (memory st);
          st = st\<lparr>memory := m\<rparr>
      in if map_buf = 0 then Some (Returned (-1) st)
         else
           let file = get_file_ptr p fd st
           in if file = 0 then Some (Returned (-1) (st\<lparr>memory := op_kunmap ops map_buf (memory st)\<rparr>))
              else do {
                (ret, bs, m) \<leftarrow> op_fread ops file nbytes (memory st);
                m \<leftarrow> op_copy_to ops map_buf bs m;
                Some (Returned ret (st\<lparr>memory := op_kunmap ops map_buf m\<rparr>))
              })"

fun put_chars ::
  "('m, 'b) sys_ops_scheme \<Rightarrow> u64 \<Rightarrow> nat \<Rightarrow> 'm \<Rightarrow> 'm option" where
  "put_chars ops a 0 m = Some m"
| "put_chars ops a (Suc n) m = do {
     c \<leftarrow> op_map_byte ops a m;
     put_chars ops (a + 1) n (op_kputc ops c m)
   }"

definition sys_write ::
  "('m, 'b) sys_ops_scheme \<Rightarrow> nat \<Rightarrow> ('m, 'a) kernel_scheme \<Rightarrow> ('m, 'a) kernel_scheme outcome option" where
  "sys_write ops p st =
     (let fd = (ucast (PCB_ARG1 (ptable st p)) :: u32);
          buffer = PCB_ARG2 (ptable st p);
          nbytes = PCB_ARG3 (ptable st p);
          (map_buf, m) = op_kmapuser ops (memctx (ptable st p)) buffer nbytes (memory st);
          st = st\<lparr>memory := m\<rparr>
      in if map_buf = 0 then Some (Returned 0 st)
         else do {
           (nbytes, m) \<leftarrow> (if fd = 0 then Some (0, memory st)
                           else if fd = 1 \<or> fd = 2
                           then map_option (\<lambda>m. (nbytes, m)) (put_chars ops map_buf (unat nbytes) (memory st))
                           else Some (0, memory st));
           Some (Returned (ucast nbytes) (st\<lparr>memory := op_kunmap ops map_buf m\<rparr>))
         })"

definition sys_seek ::
  "('m, 'b) sys_ops_scheme \<Rightarrow> nat \<Rightarrow> ('m, 'a) kernel_scheme \<Rightarrow> ('m, 'a) kernel_scheme outcome option" where
  "sys_seek ops p st =
     (let file = get_file_ptr p (ucast (PCB_ARG1 (ptable st p))) st;
          off = PCB_ARG2 (ptable st p);
          whence = (ucast (PCB_ARG3 (ptable st p)) :: u32)
      in if file = 0 then Some (Returned (-1) st)
         else do {
           (r, m) \<leftarrow> op_fseek ops file off whence (memory st);
           Some (Returned 0 (upd_pcb p (set_ret (scast r)) (st\<lparr>memory := m\<rparr>)))
         })"

section \<open>Processes\<close>

definition sys_exit ::
  "('m, 'b) sys_ops_scheme \<Rightarrow> nat \<Rightarrow> ('m, 'a) kernel_scheme \<Rightarrow> ('m, 'a) kernel_scheme outcome option" where
  "sys_exit ops p st = do {
     let status = (ucast (PCB_ARG1 (ptable st p)) :: u32);
     st \<leftarrow> pcb_zombify ops (Some p) (upd_pcb p (\<lambda>b. b\<lparr>exit_status := ucast status\<rparr>) st);
     leave ops st
   }"

definition sys_waitpid ::
  "('m, 'b) sys_ops_scheme \<Rightarrow> nat \<Rightarrow> ('m, 'a) kernel_scheme \<Rightarrow> ('m, 'a) kernel_scheme outcome option" where
  "sys_waitpid ops p st =
     (let pd = (ucast (PCB_ARG1 (ptable st p)) :: u16);
          status = PCB_ARG2 (ptable st p)
      in case find (\<lambda>c. pstate (ptable st c) = PROC_STATE_ZOMBIE \<and> parent (ptable st c) = Some p \<and>
                        (pd = 0 \<or> pd = pid (ptable st c))) [0..<N_PROCS] of
           Some child \<Rightarrow> do {
             m \<leftarrow> (if memctx (ptable st p) = None then None
                   else op_store_status ops (memctx (ptable st p)) status (exit_status (ptable st child)) (memory st));
             st \<leftarrow> pcb_cleanup ops (Some child) (st\<lparr>memory := m\<rparr>);
             Some (Returned (ucast (pid (ptable st child))) st)
           }
         | None \<Rightarrow> do {
             (r, st) \<leftarrow> kq_insert (QSys SYS_waitpid) p (upd_pcb p (\<lambda>b. b\<lparr>pstate := PROC_STATE_BLOCKED\<rparr>) st);
             (if r = SUCCESS then leave ops st else None)
           })"

definition sys_fork ::
  "('m, 'b) sys_ops_scheme \<Rightarrow> nat \<Rightarrow> ('m, 'a) ukernel_scheme \<Rightarrow> ('m, 'a) ukernel_scheme outcome option" where
  "sys_fork ops p st = do {
     (child, st) \<leftarrow> user_clone ops p st;
     (case child of
        None \<Rightarrow> Some (Returned (-1) st)
      | Some c \<Rightarrow> do {
          let st = upd_pcb c (set_ret 0) st;
          let st = upd_pcb p (set_ret (ucast (pid (ptable st c)))) st;
          st \<leftarrow> schedule (Some c) st;
          Some (Returned 0 st)
        })
   }"

definition sys_exec ::
  "('m, 'b) sys_ops_scheme \<Rightarrow> nat \<Rightarrow> ('m, 'a) ukernel_scheme \<Rightarrow> ('m, 'a) ukernel_scheme outcome option" where
  "sys_exec ops p st = do {
     let in_filename = PCB_ARG1 (ptable st p);
     let in_args = PCB_ARG2 (ptable st p);
     let save = ptable st p;
     let fail = (\<lambda>file st. let st = upd_pcb p (\<lambda>_. save) st in
           Some (Returned 1 (if file = 0 then st else st\<lparr>memory := op_fclose ops file (memory st)\<rparr>)));
     filename \<leftarrow> read_filename ops True p in_filename st;
     (case op_root_fs ops (memory st) of
        None \<Rightarrow> fail 0 st
      | Some fs \<Rightarrow> do {
          (e, out, m) \<leftarrow> op_open ops fs filename 2 (memory st);
          let st = st\<lparr>memory := m\<rparr>;
          let file = (case out of None \<Rightarrow> 0 | Some f \<Rightarrow> f);
          (if e \<noteq> 0 then fail file st
           else do {
             (e, st) \<leftarrow> user_load ops (Some p) file in_args (memctx save) st;
             (if e \<noteq> 0 then fail file st
              else do {
                let st = st\<lparr>memory := op_fclose ops file (memory st)\<rparr>;
                c \<leftarrow> memctx save;
                m \<leftarrow> op_ctx_free ops c (memory st);
                st \<leftarrow> schedule (Some p) (st\<lparr>memory := m\<rparr>);
                leave ops st
              })
           })
        })
   }"

definition sys_getpid :: "nat \<Rightarrow> ('m, 'a) kernel_scheme \<Rightarrow> ('m, 'a) kernel_scheme outcome option" where
  "sys_getpid p st = Some (Returned (ucast (pid (ptable st p))) st)"

definition sys_getppid :: "nat \<Rightarrow> ('m, 'a) kernel_scheme \<Rightarrow> ('m, 'a) kernel_scheme outcome option" where
  "sys_getppid p st =
     (case parent (ptable st p) of
        None \<Rightarrow> (case init_pcb st of
                   None \<Rightarrow> None
                 | Some i \<Rightarrow> Some (Returned (ucast (pid (ptable st i))) st))
      | Some q \<Rightarrow> Some (Returned (ucast (pid (ptable st q))) st))"

text \<open>The walk of \<^verbatim>\<open>sys_kill\<close> from the victim to a process with the id of the caller.\<close>

partial_function (option) owner_loop :: "ptab \<Rightarrow> u16 \<Rightarrow> nat option \<Rightarrow> nat option option" where
  "owner_loop h pd par =
     (case par of
        None \<Rightarrow> Some None
      | Some q \<Rightarrow> if pid (h q) = pd then Some (Some q) else owner_loop h pd (parent (h q)))"

definition sys_kill ::
  "('m, 'b) sys_ops_scheme \<Rightarrow> nat \<Rightarrow> ('m, 'a) kernel_scheme \<Rightarrow> ('m, 'a) kernel_scheme outcome option" where
  "sys_kill ops p st =
     (case pcb_find_pid (ucast (PCB_ARG1 (ptable st p))) st of
        None \<Rightarrow> Some (Returned 1 st)
      | Some victim \<Rightarrow> do {
          own \<leftarrow> owner_loop (ptable st) (pid (ptable st p)) (Some victim);
          (if own = None then Some (Returned 1 st)
           else
             (case pstate (ptable st victim) of
                PROC_STATE_ZOMBIE \<Rightarrow> Some (Returned 0 st)
              | PROC_STATE_READY \<Rightarrow> do {
                  (_, st) \<leftarrow> kq_remove QReady victim (upd_pcb victim (\<lambda>b. b\<lparr>exit_status := 1\<rparr>) st);
                  st \<leftarrow> pcb_zombify ops (Some victim) st;
                  Some (Returned 0 st)
                }
              | PROC_STATE_BLOCKED \<Rightarrow> do {
                  let st = upd_pcb victim (\<lambda>b. b\<lparr>exit_status := 1\<rparr>) st;
                  i \<leftarrow> (if psyscall (ptable st victim) < of_nat N_SYSCALLS then Some (unat (psyscall (ptable st victim))) else None);
                  (_, st) \<leftarrow> kq_remove (QSys i) victim st;
                  st \<leftarrow> pcb_zombify ops (Some victim) st;
                  Some (Returned 0 st)
                }
              | PROC_STATE_RUNNING \<Rightarrow> do {
                  st \<leftarrow> pcb_zombify ops (Some p) (upd_pcb p (\<lambda>b. b\<lparr>exit_status := 1\<rparr>) st);
                  leave ops st
                }
              | _ \<Rightarrow> Some (Returned 1 st)))
        })"

definition sys_sleep ::
  "('m, 'b) sys_ops_scheme \<Rightarrow> nat \<Rightarrow> ('m, 'a) kernel_scheme \<Rightarrow> ('m, 'a) kernel_scheme outcome option" where
  "sys_sleep ops p st =
     (let ms = PCB_ARG1 (ptable st p)
      in if ms = 0 then do {
           st \<leftarrow> schedule (Some p) (upd_pcb p (set_ret32 0) st);
           leave ops st
         }
         else do {
           (r, st) \<leftarrow> kq_insert (QSys SYS_sleep) p (upd_pcb p (\<lambda>b. b\<lparr>wakeup := ticks st + ms\<rparr>) st);
           (if r \<noteq> SUCCESS then Some (Returned 1 st)
            else leave ops (upd_pcb p (\<lambda>b. b\<lparr>pstate := PROC_STATE_BLOCKED\<rparr>) st))
         })"

definition sys_poweroff :: "nat \<Rightarrow> ('m, 'a) kernel_scheme \<Rightarrow> ('m, 'a) kernel_scheme outcome option" where
  "sys_poweroff p st = Some (PoweredOff st)"

section \<open>Clock, priority, memory and devices\<close>

definition sys_gettime ::
  "('m, 'b) sys_ops_scheme \<Rightarrow> nat \<Rightarrow> ('m, 'a) kernel_scheme \<Rightarrow> ('m, 'a) kernel_scheme outcome option" where
  "sys_gettime ops p st = Some (Returned 0 (upd_pcb p (set_ret (op_unixtime ops (memory st))) st))"

definition sys_ticks :: "nat \<Rightarrow> ('m, 'a) kernel_scheme \<Rightarrow> ('m, 'a) kernel_scheme outcome option" where
  "sys_ticks p st = Some (Returned 0 (upd_pcb p (set_ret (ticks st)) st))"

definition sys_getprio :: "nat \<Rightarrow> ('m, 'a) kernel_scheme \<Rightarrow> ('m, 'a) kernel_scheme outcome option" where
  "sys_getprio p st = Some (Returned 0 (upd_pcb p (set_ret32 (ucast (priority (ptable st p)))) st))"

definition sys_setprio :: "nat \<Rightarrow> ('m, 'a) kernel_scheme \<Rightarrow> ('m, 'a) kernel_scheme outcome option" where
  "sys_setprio p st =
     (let new = (ucast (PCB_ARG1 (ptable st p)) :: u32)
      in Some (Returned 0 (upd_pcb p (\<lambda>b. (set_ret32 (ucast (priority b)) b)\<lparr>priority := ucast new\<rparr>) st)))"

text \<open>The result is the break, 0 for \<^verbatim>\<open>NULL\<close>.\<close>

definition pcb_update_heap ::
  "('m, 'b) sys_ops_scheme \<Rightarrow> nat \<Rightarrow> u64 \<Rightarrow> ('m, 'a) kernel_scheme \<Rightarrow> (u64 \<times> ('m, 'a) kernel_scheme) option" where
  "pcb_update_heap ops p increment st =
     (let b = ptable st p;
          new_len = heap_len b + increment;
          new_pages = (new_len + PAGE_SIZE - 1) div PAGE_SIZE;
          curr_brk = heap_start b + heap_len b;
          curr_pages = (if heap_len b = 0 then 0 else (heap_len b + PAGE_SIZE - 1) div PAGE_SIZE)
      in if increment = 0 \<or> new_pages = curr_pages then Some (curr_brk, st)
         else if new_pages < curr_pages then do {
           m \<leftarrow> op_free_pages ops (memctx b) (heap_start b + new_pages * PAGE_SIZE) (memory st);
           Some (curr_brk, upd_pcb p (\<lambda>b. b\<lparr>heap_len := new_pages * PAGE_SIZE\<rparr>) (st\<lparr>memory := m\<rparr>))
         }
         else
           let (a, m) = op_alloc_pages_at ops (memctx b) (new_pages - curr_pages) (heap_start b + curr_pages * PAGE_SIZE)
                          (F_PRESENT OR F_WRITEABLE OR F_UNPRIVILEGED) (memory st);
               st = st\<lparr>memory := m\<rparr>
           in if a = 0 then Some (0, st)
              else Some (curr_brk, upd_pcb p (\<lambda>b. b\<lparr>heap_len := new_pages * PAGE_SIZE\<rparr>) st))"

definition sys_brk ::
  "('m, 'b) sys_ops_scheme \<Rightarrow> nat \<Rightarrow> ('m, 'a) kernel_scheme \<Rightarrow> ('m, 'a) kernel_scheme outcome option" where
  "sys_brk ops p st =
     (let addr = PCB_ARG1 (ptable st p)
      in if addr < heap_start (ptable st p) then Some (Returned 0 (upd_pcb p (set_ret 0) st))
         else do {
           (brk, st) \<leftarrow> pcb_update_heap ops p (addr - (heap_start (ptable st p) + heap_len (ptable st p))) st;
           Some (Returned 0 (upd_pcb p (set_ret brk) st))
         })"

definition sys_sbrk ::
  "('m, 'b) sys_ops_scheme \<Rightarrow> nat \<Rightarrow> ('m, 'a) kernel_scheme \<Rightarrow> ('m, 'a) kernel_scheme outcome option" where
  "sys_sbrk ops p st = do {
     (brk, st) \<leftarrow> pcb_update_heap ops p (PCB_ARG1 (ptable st p)) st;
     Some (Returned 0 (upd_pcb p (set_ret brk) st))
   }"

text \<open>The size of the frame buffer is computed in the C type int.\<close>

definition drm_len :: "gpu_dev_t \<Rightarrow> u64" where
  "drm_len g =
     (let n = sint (ucast (gpu_width g) * ucast (gpu_height g) * ucast (gpu_bit_depth g) :: u32)
      in of_int (sgn n * (\<bar>n\<bar> div 8)))"

definition sys_drm ::
  "('m, 'b) sys_ops_scheme \<Rightarrow> nat \<Rightarrow> ('m, 'a) kernel_scheme \<Rightarrow> ('m, 'a) kernel_scheme outcome option" where
  "sys_drm ops p st =
     (case op_gpu ops (memory st) of
        None \<Rightarrow> Some (Returned 1 st)
      | Some g \<Rightarrow>
          let pADDR = op_get_phys ops (Some KernelCtx) (gpu_framebuffer g) (memory st)
          in if pADDR = 0 then Some (Returned 1 st)
             else
               let (vADDR, m) = op_mapaddr ops (memctx (ptable st p)) pADDR 0x1000000000 (drm_len g)
                                  (F_PRESENT OR F_WRITEABLE OR F_UNPRIVILEGED) (memory st);
                   st = st\<lparr>memory := m\<rparr>;
                   b = ptable st p
               in if vADDR = 0 then Some (Returned 1 st)
                  else do {
                    c \<leftarrow> memctx b;
                    m \<leftarrow> op_store ops c (PCB_ARG1 b) (le_bytes 8 vADDR) (memory st);
                    m \<leftarrow> op_store ops c (PCB_ARG2 b) (le_bytes 4 (ucast (gpu_width g) :: u32)) m;
                    m \<leftarrow> op_store ops c (PCB_ARG3 b) (le_bytes 4 (ucast (gpu_height g) :: u32)) m;
                    m \<leftarrow> op_store ops c (PCB_ARG4 b) (le_bytes 4 (ucast (gpu_bit_depth g) :: u32)) m;
                    Some (Returned 0 (st\<lparr>memory := m\<rparr>))
                  })"

definition sys_popsharedmem ::
  "('m, 'b) sys_ops_scheme \<Rightarrow> nat \<Rightarrow> ('m, 'a) kernel_scheme \<Rightarrow> ('m, 'a) kernel_scheme outcome option" where
  "sys_popsharedmem ops p st =
     (let st = upd_pcb p (set_ret 0) st;
          b = ptable st p
      in if shared_mem b = 0 then Some (Returned 1 st)
         else
           (case pcb_find_pid (shared_mem_source b) st of
              None \<Rightarrow> Some (Returned 1 (upd_pcb p (\<lambda>b. b\<lparr>shared_mem := 0\<rparr>) st))
            | Some sharer \<Rightarrow>
                let phys = op_get_phys ops (memctx (ptable st sharer)) (shared_mem b) (memory st);
                    (result, m) = op_mapaddr ops (memctx b) phys (shared_mem b) (shared_mem_pages b * PAGE_SIZE)
                                    (F_WRITEABLE OR F_UNPRIVILEGED) (memory st)
                in Some (Returned 0 (upd_pcb p (\<lambda>b. (set_ret result b)\<lparr>shared_mem := 0\<rparr>) (st\<lparr>memory := m\<rparr>)))))"

definition sys_allocshared ::
  "('m, 'b) sys_ops_scheme \<Rightarrow> nat \<Rightarrow> ('m, 'a) kernel_scheme \<Rightarrow> ('m, 'a) kernel_scheme outcome option" where
  "sys_allocshared ops p st =
     (let num_pages = PCB_ARG1 (ptable st p);
          otherpid = (ucast (PCB_ARG2 (ptable st p)) :: u16);
          st = upd_pcb p (set_ret 0) st
      in if otherpid = pid (ptable st p) \<or> otherpid = 0 then Some (Returned 1 st)
         else
           (case pcb_find_pid otherpid st of
              None \<Rightarrow> Some (Returned 1 st)
            | Some other \<Rightarrow>
                if shared_mem (ptable st other) \<noteq> 0 then Some (Returned 1 st)
                else
                  let (alloced, m) = op_alloc_pages ops (memctx (ptable st p)) num_pages (F_WRITEABLE OR F_UNPRIVILEGED) (memory st);
                      st = st\<lparr>memory := m\<rparr>
                  in if alloced = 0 then Some (Returned 1 st)
                     else
                       let st = upd_pcb other (\<lambda>b. b\<lparr>shared_mem := alloced, shared_mem_source := pid (ptable st p),
                                  shared_mem_pages := num_pages\<rparr>) st
                       in Some (Returned 0 (upd_pcb p (set_ret alloced) st))))"

definition sys_keypoll ::
  "('m, 'b) sys_ops_scheme \<Rightarrow> nat \<Rightarrow> ('m, 'a) skernel_scheme \<Rightarrow> ('m, 'a) skernel_scheme outcome option" where
  "sys_keypoll ops p st =
     (let (ouraddr, m) = op_kmapuser ops (memctx (ptable st p)) (PCB_ARG1 (ptable st p)) 2 (memory st);
          st = st\<lparr>memory := m\<rparr>
      in case keycode_pop (key_buffer st) of
           (r, None, buf) \<Rightarrow>
             Some (Returned 0 (upd_pcb p (set_ret32 0) (st\<lparr>key_buffer := buf, memory := op_kunmap ops ouraddr (memory st)\<rparr>)))
         | (r, Some k, buf) \<Rightarrow> do {
             m \<leftarrow> op_copy_to ops ouraddr [kc_key k, kc_flags k] (memory st);
             Some (Returned 0 (upd_pcb p (set_ret32 1) (st\<lparr>key_buffer := buf, memory := op_kunmap ops ouraddr m\<rparr>)))
           })"

section \<open>The entry\<close>

text \<open>The table in the order of the numbers.\<close>

definition syscall_tbl ::
  "('m, 'b) sys_ops_scheme \<Rightarrow> (nat \<Rightarrow> ('m, 'a) skernel_scheme \<Rightarrow> ('m, 'a) skernel_scheme outcome option) list" where
  "syscall_tbl ops =
     [sys_exit ops, sys_waitpid ops, sys_fork ops, sys_exec ops, sys_open ops, sys_close ops, sys_read ops, sys_write ops,
      sys_getpid, sys_getppid, sys_gettime ops, sys_getprio, sys_setprio, sys_kill ops, sys_sleep ops, sys_brk ops,
      sys_sbrk ops, sys_poweroff, sys_drm ops, sys_ticks, sys_seek ops, sys_allocshared ops, sys_popsharedmem ops,
      sys_keypoll ops]"

text \<open>Back in the entry: a result that is not 0 goes to the caller's register, and the caller goes on.\<close>

definition finish :: "nat \<Rightarrow> ('m, 'a) kernel_scheme outcome \<Rightarrow> ('m, 'a) kernel_scheme outcome" where
  "finish p out =
     (case out of
        Returned ret st \<Rightarrow>
          let st = (if ret \<noteq> 0 then upd_pcb p (set_ret (scast ret)) st else st)
          in Returned ret ((upd_pcb p (\<lambda>b. b\<lparr>psyscall := 0\<rparr>) st)\<lparr>current_pcb := Some p\<rparr>)
      | _ \<Rightarrow> out)"

definition syscall_handler ::
  "('m, 'b) sys_ops_scheme \<Rightarrow> ('m, 'a) skernel_scheme \<Rightarrow> ('m, 'a) skernel_scheme outcome option" where
  "syscall_handler ops st =
     (case current_pcb st of
        None \<Rightarrow> None
      | Some p \<Rightarrow>
          let num = reg_rax (regs (ptable st p));
              st = (upd_pcb p (\<lambda>b. (set_ret 0 b)\<lparr>psyscall := num\<rparr>) st)\<lparr>current_pcb := None\<rparr>
          in if \<not> num < of_nat N_SYSCALLS then do {
               st \<leftarrow> pcb_zombify ops (Some p) (upd_pcb p (\<lambda>b. b\<lparr>exit_status := 1\<rparr>) st);
               leave ops st
             }
             else map_option (finish p) ((syscall_tbl ops ! unat num) p st))"

section \<open>Handlers that leave the queues alone\<close>

text \<open>Nothing that a queue looks at has changed, but for the priority of the caller.\<close>

definition calm :: "nat \<Rightarrow> ('m, 'a) kernel_scheme \<Rightarrow> ('m, 'a) kernel_scheme \<Rightarrow> bool" where
  "calm p st st' \<longleftrightarrow>
     (\<forall>x. pnext (ptable st' x) = pnext (ptable st x) \<and> pstate (ptable st' x) = pstate (ptable st x) \<and>
        psyscall (ptable st' x) = psyscall (ptable st x) \<and> pid (ptable st' x) = pid (ptable st x) \<and>
        parent (ptable st' x) = parent (ptable st x) \<and> wakeup (ptable st' x) = wakeup (ptable st x) \<and>
        (x \<noteq> p \<longrightarrow> priority (ptable st' x) = priority (ptable st x))) \<and>
     (\<forall>q. getq q st' = getq q st) \<and> current_pcb st' = current_pcb st \<and> init_pcb st' = init_pcb st \<and>
     next_pid st' = next_pid st \<and> ticks st' = ticks st"

lemma getq_key_buffer [simp]: "getq q (st\<lparr>key_buffer := b\<rparr>) = getq q st"
  by (cases q) simp_all

lemma set_ret_fields [simp]:
  "pnext (set_ret v b) = pnext b" "pstate (set_ret v b) = pstate b" "psyscall (set_ret v b) = psyscall b"
  "pid (set_ret v b) = pid b" "parent (set_ret v b) = parent b" "wakeup (set_ret v b) = wakeup b"
  "priority (set_ret v b) = priority b" "memctx (set_ret v b) = memctx b" "heap_start (set_ret v b) = heap_start b"
  "heap_len (set_ret v b) = heap_len b" "open_files (set_ret v b) = open_files b" "reg_rax (regs (set_ret v b)) = v"
  by (simp_all add: set_ret_def)

lemma calm_refl [simp]: "calm p st st"
  by (simp add: calm_def)

lemma proc_inv_calm:
  assumes inv: "proc_inv X st L" and free: "unqueued p L" and calm: "calm p st st'"
  shows "proc_inv X st' L"
proof -
  have q: "getq r st' = getq r st" and c: "current_pcb st' = current_pcb st" for r using calm by (auto simp: calm_def)
  have b: "belongs r (ptable st' x) = belongs r (ptable st x)" for r x using calm by (cases r) (auto simp: calm_def)
  have k: "order_key s (ptable st' x) = order_key s (ptable st x)" if "x \<noteq> p" for s x
    using calm that by (cases s) (auto simp: calm_def)
  have ks: "map (\<lambda>x. order_key s (ptable st' x)) (L r) = map (\<lambda>x. order_key s (ptable st x)) (L r)" for s r
  proof (rule map_cong [OF refl])
    fix x assume "x \<in> set (L r)"
    then have "x \<noteq> p" using free by blast
    then show "order_key s (ptable st' x) = order_key s (ptable st x)" by (rule k)
  qed
  have "queue_rep (ptable st') (getq r st) (L r)" for r
    by (rule queue_rep_cong [of "ptable st"]) (use inv calm in \<open>auto simp: proc_inv_def qlinks_def calm_def\<close>)
  then have "qlinks st' L" using inv calm by (simp add: proc_inv_def qlinks_def calm_def)
  then show ?thesis
    using inv calm by (simp add: proc_inv_def ordered_def members_def placed_def b q c ks) (simp add: calm_def)
qed

named_theorems handler_defs

lemmas [handler_defs] = sys_open_def sys_close_def sys_read_def sys_write_def sys_getpid_def sys_getppid_def sys_gettime_def
  sys_getprio_def sys_setprio_def sys_brk_def sys_sbrk_def sys_drm_def sys_ticks_def sys_seek_def sys_allocshared_def
  sys_popsharedmem_def sys_keypoll_def set_ret32_def

definition stays :: "nat \<Rightarrow> ('m, 'a) kernel_scheme \<Rightarrow> ('m, 'a) kernel_scheme outcome option \<Rightarrow> bool" where
  "stays p st res \<longleftrightarrow> (\<forall>out. res = Some out \<longrightarrow> (\<exists>r st'. out = Returned r st' \<and> calm p st st'))"

lemma pcb_update_heap_calm:
  "pcb_update_heap ops p i st = Some (v, st') \<Longrightarrow> calm p st st'"
  by (auto simp: pcb_update_heap_def Let_def calm_def split: if_splits prod.splits bind_splits)

lemma sys_open_stays: "stays p st (sys_open ops p st)"
  by (auto simp: stays_def sys_open_def Let_def calm_def split: option.splits bind_splits prod.splits)

lemma sys_close_stays: "stays p st (sys_close ops p st)"
  by (auto simp: stays_def sys_close_def Let_def calm_def)

lemma sys_read_stays: "stays p st (sys_read ops p st)"
  by (auto simp: stays_def sys_read_def Let_def calm_def split: if_splits bind_splits prod.splits)

lemma sys_write_stays: "stays p st (sys_write ops p st)"
  by (auto simp: stays_def sys_write_def Let_def calm_def split: if_splits bind_splits prod.splits)

lemma sys_get_stays:
  "stays p st (sys_getpid p st)" "stays p st (sys_getppid p st)" "stays p st (sys_gettime ops p st)"
  "stays p st (sys_getprio p st)" "stays p st (sys_setprio p st)" "stays p st (sys_ticks p st)"
  by (auto simp: stays_def handler_defs Let_def calm_def split: option.splits)

lemma sys_brk_stays: "stays p st (sys_brk ops p st)" "stays p st (sys_sbrk ops p st)"
  by (auto simp: stays_def sys_brk_def sys_sbrk_def Let_def split: if_splits bind_splits prod.splits dest!: pcb_update_heap_calm)
    (auto simp: calm_def)

lemma sys_drm_stays: "stays p st (sys_drm ops p st)"
  by (auto simp: stays_def sys_drm_def Let_def calm_def split: option.splits if_splits bind_splits prod.splits)

lemma sys_seek_stays: "stays p st (sys_seek ops p st)"
  by (auto simp: stays_def sys_seek_def Let_def calm_def split: if_splits bind_splits prod.splits)

lemma sys_shared_stays: "stays p st (sys_allocshared ops p st)" "stays p st (sys_popsharedmem ops p st)"
  by (auto simp: stays_def sys_allocshared_def sys_popsharedmem_def Let_def calm_def split: option.splits if_splits prod.splits)

lemma sys_keypoll_stays: "stays p st (sys_keypoll ops p st)"
  by (auto simp: stays_def sys_keypoll_def set_ret32_def Let_def calm_def split: option.splits bind_splits prod.splits)

text \<open>The calls that return to their caller, by number.\<close>

definition quiet_calls :: "nat list" where
  "quiet_calls = [4, 5, 6, 7, 8, 9, 10, 11, 12, 15, 16, 18, 19, 20, 21, 22, 23]"

lemma quiet_call_stays: "n \<in> set quiet_calls \<Longrightarrow> stays p st ((syscall_tbl ops ! n) p st)"
  by (auto simp: quiet_calls_def syscall_tbl_def sys_open_stays sys_close_stays sys_read_stays sys_write_stays
      sys_get_stays sys_brk_stays sys_drm_stays sys_seek_stays sys_shared_stays sys_keypoll_stays)

section \<open>Entering and leaving\<close>

text \<open>The state in which a handler runs: the caller is in hand.\<close>

abbreviation entered :: "nat \<Rightarrow> ('m, 'a) kernel_scheme \<Rightarrow> ('m, 'a) kernel_scheme" where
  "entered p st \<equiv> (upd_pcb p (\<lambda>b. (set_ret 0 b)\<lparr>psyscall := reg_rax (regs (ptable st p))\<rparr>) st)\<lparr>current_pcb := None\<rparr>"

lemma proc_inv_current:
  assumes "proc_inv X st L" "current_pcb st = Some p \<or> current_pcb st = None" "c = None \<or> c = Some p" "p < N_PROCS" "p \<in> X"
  shows "proc_inv X (st\<lparr>current_pcb := c\<rparr>) L"
proof -
  have "placed (st\<lparr>current_pcb := c\<rparr>) L x" if "x < N_PROCS" "x \<notin> X" for x
    using assms that by (auto simp: proc_inv_def placed_def)
  then show ?thesis using assms by (auto simp: proc_inv_def qlinks_def ordered_def members_def)
qed

lemma entered_inv:
  assumes "proc_inv {} st L" "current_pcb st = Some p"
  shows "proc_inv {p} (entered p st) L" "unqueued p L" "p < N_PROCS" "pstate (ptable (entered p st) p) = PROC_STATE_RUNNING"
proof -
  note run = proc_inv_running [OF assms]
  show "unqueued p L" "p < N_PROCS" using run by blast+
  have "proc_inv {p} (upd_pcb p (\<lambda>b. (set_ret 0 b)\<lparr>psyscall := reg_rax (regs (ptable st p))\<rparr>) st) L"
    by (rule proc_inv_upd_in_hand [OF assms(1) run(3)]) simp
  then show "proc_inv {p} (entered p st) L" by (rule proc_inv_current) (use assms run in auto)
  show "pstate (ptable (entered p st) p) = PROC_STATE_RUNNING" using run by simp
qed

lemma finish_inv:
  assumes inv: "proc_inv {p} st L" and p: "unqueued p L" "p < N_PROCS" "pstate (ptable st p) = PROC_STATE_RUNNING" "current_pcb st = None"
  obtains st' where "finish p (Returned r st) = Returned r st'" "proc_inv {} st' L" "current_pcb st' = Some p"
    "psyscall (ptable st' p) = 0" "reg_rax (regs (ptable st' p)) = (if r = 0 then reg_rax (regs (ptable st p)) else scast r)"
    "\<And>x. x \<noteq> p \<Longrightarrow> ptable st' x = ptable st x" "memory st' = memory st"
proof -
  define st1 where "st1 = upd_pcb p (\<lambda>b. b\<lparr>psyscall := 0\<rparr>) (if r \<noteq> 0 then upd_pcb p (set_ret (scast r)) st else st)"
  have r: "proc_inv {p} (if r \<noteq> 0 then upd_pcb p (set_ret (scast r)) st else st) L"
    using inv proc_inv_set_ret [OF inv] by simp
  have "proc_inv (insert p {p}) st1 L" unfolding st1_def by (rule proc_inv_upd_in_hand [OF r p(1)]) simp
  then have "proc_inv {p} (st1\<lparr>current_pcb := Some p\<rparr>) L"
    by (intro proc_inv_current [where p = p]) (use p in \<open>auto simp: st1_def\<close>)
  moreover have "placed (st1\<lparr>current_pcb := Some p\<rparr>) L p" using p(3) by (simp add: placed_def st1_def)
  ultimately have "proc_inv ({p} - {p}) (st1\<lparr>current_pcb := Some p\<rparr>) L" by (rule proc_inv_release)
  then show thesis
    by (intro that [of "st1\<lparr>current_pcb := Some p\<rparr>"]) (simp_all add: finish_def Let_def st1_def)
qed

lemma syscall_handler_runs:
  assumes "current_pcb st = Some p" "unat (reg_rax (regs (ptable st p))) = n" "n < N_SYSCALLS"
  shows "syscall_handler ops st = map_option (finish p) ((syscall_tbl ops ! n) p (entered p st))"
proof -
  have "reg_rax (regs (ptable st p)) < of_nat N_SYSCALLS"
    using assms(2,3) by (simp add: word_less_nat_alt N_SYSCALLS_def)
  then show ?thesis using assms(1,2) by (simp add: syscall_handler_def Let_def)
qed

section \<open>Properties\<close>

text \<open>C7: Every system call that does not end, block or replace its caller returns to it: when the handler does
  not fault, the caller is the current process again, no process has changed its state or its queue, the
  invariant of the process table holds, and a result that is not 0 is in the caller's register. These are the
  calls on files, time, priority, heap, shared memory, screen and keyboard.\<close>

theorem quiet_syscall_returns:
  assumes "proc_inv {} st L" "current_pcb st = Some p"
    "unat (reg_rax (regs (ptable st p))) \<in> set quiet_calls" "syscall_handler ops st = Some out"
  shows "\<exists>r st'. out = Returned r st' \<and> proc_inv {} st' L \<and> current_pcb st' = Some p \<and> psyscall (ptable st' p) = 0 \<and>
    (\<forall>x. pstate (ptable st' x) = pstate (ptable st x)) \<and> (r \<noteq> 0 \<longrightarrow> reg_rax (regs (ptable st' p)) = scast r)"
proof -
  let ?n = "unat (reg_rax (regs (ptable st p)))"
  note e = entered_inv [OF assms(1,2)]
  have n: "?n < N_SYSCALLS" using assms(3) by (auto simp: quiet_calls_def N_SYSCALLS_def)
  obtain out1 where o: "(syscall_tbl ops ! ?n) p (entered p st) = Some out1" "out = finish p out1"
    using assms(4) syscall_handler_runs [OF assms(2) refl n, of ops] by (auto simp: map_option_case split: option.splits)
  obtain r st1 where c: "out1 = Returned r st1" "calm p (entered p st) st1"
    using quiet_call_stays [OF assms(3)] o(1) unfolding stays_def by blast
  have "proc_inv {p} st1 L" by (rule proc_inv_calm [OF e(1,2) c(2)])
  moreover have "pstate (ptable st1 p) = PROC_STATE_RUNNING" "current_pcb st1 = None" using c(2) e(4) by (auto simp: calm_def)
  ultimately obtain st' where st': "finish p (Returned r st1) = Returned r st'" "proc_inv {} st' L" "current_pcb st' = Some p"
    "psyscall (ptable st' p) = 0" "reg_rax (regs (ptable st' p)) = (if r = 0 then reg_rax (regs (ptable st1 p)) else scast r)"
    "\<And>x. x \<noteq> p \<Longrightarrow> ptable st' x = ptable st1 x"
    using finish_inv [of p st1 L] e(2,3) by blast
  have "pstate (ptable st' x) = pstate (ptable st x)" for x
  proof (cases "x = p")
    case True
    then show ?thesis using proc_inv_running(2) [OF st'(2,3)] proc_inv_running(2) [OF assms(1,2)] by simp
  next
    case False
    then show ?thesis using st'(6) [OF False] c(2) by (simp add: calm_def)
  qed
  then show ?thesis using o(2) c(1) st' by auto
qed

lemma proc_inv_upd_held:
  assumes "proc_inv X st L" "p \<in> X" "unqueued p L" "\<And>b. pnext (f b) = pnext b"
  shows "proc_inv X (upd_pcb p f st) L"
  using proc_inv_upd_in_hand [of X st L p f] assms by (simp add: insert_absorb)

lemma fork_inv:
  assumes inv: "proc_inv {p} st L" and free: "unqueued p L" and st: "current_pcb st = None" "pstate (ptable st p) = PROC_STATE_RUNNING"
    and L: "L QFree = c # fs" and clone: "op_ctx_clone ops (memctx (ptable st p)) True (memory st) = Some (Some ctx, m)"
  obtains st' where "sys_fork ops p st = Some (Returned 0 st')"
    "proc_inv {p} st' (L(QFree := fs, QReady := insert_after ((by_prio st)(c := by_prio st p)) c (L QReady)))"
    "current_pcb st' = None" "pstate (ptable st' c) = PROC_STATE_READY" "pid (ptable st' c) = next_pid st"
    "parent (ptable st' c) = Some p" "memctx (ptable st' c) = Some ctx" "regs (ptable st' c) = (regs (ptable st p))\<lparr>reg_rax := 0\<rparr>"
    "regs (ptable st' p) = (regs (ptable st p))\<lparr>reg_rax := ucast (next_pid st)\<rparr>"
    "pstate (ptable st' p) = PROC_STATE_RUNNING" "c \<noteq> p"
proof -
  have c: "c \<in> set (L QFree)" "c \<noteq> p" using L free by (auto dest: spec [of _ QFree])
  have N: "c < N_PROCS" using inv c(1) by (auto simp: proc_inv_def members_def)
  obtain st1 st0 where st1: "pcb_alloc st = (SUCCESS, Some c, st1)" "relinked st st0"
    "st1 = upd_pcb c (\<lambda>b. b\<lparr>pid := next_pid st, pstate := PROC_STATE_NEW\<rparr>) (st0\<lparr>next_pid := next_pid st + 1\<rparr>)"
    "proc_inv ({p} - {c}) st1 (L(QFree := fs))" "unqueued c (L(QFree := fs))"
    using pcb_alloc_inv [OF inv L] st(1) by auto
  let ?L = "L(QFree := fs)"
  have same: "same_but_next (ptable st) (ptable st0)" and glob: "memory st0 = memory st" "current_pcb st0 = None"
    using st1(2) st(1) by (auto simp: relinked_def)
  note f = same_but_next_fields [OF same]
  have p1: "ptable st1 p = ptable st0 p" "memory st1 = memory st" using c glob by (simp_all add: st1(3))
  define st2 where "st2 = upd_pcb c (\<lambda>b. b\<lparr>memctx := Some ctx\<rparr>) ((upd_pcb c (\<lambda>b. b\<lparr>regs := regs (ptable st1 p)\<rparr>) st1)\<lparr>memory := m\<rparr>)"
  let ?old = "ptable st2 p"
  define st3 where "st3 = upd_pcb c (\<lambda>b. b\<lparr>parent := Some p, pstate := PROC_STATE_READY,
     priority := priority ?old, pticks := 0, heap_start := heap_start ?old, heap_len := heap_len ?old, elf_header := elf_header ?old,
     elf_segments := segs_of (overlay (take sizeof_ehdr (segs_bytes (elf_segments ?old))) (segs_bytes (elf_segments b))),
     n_elf_segments := n_elf_segments ?old\<rparr>) st2"
  define st4 where "st4 = upd_pcb p (set_ret (ucast (next_pid st))) (upd_pcb c (set_ret 0) st3)"
  have uc: "user_clone ops p st = Some (Some c, st3)"
    using clone c st1(1) p1 by (simp add: user_clone_def Let_def f SUCCESS_def st2_def st3_def)
  have "proc_inv {p} st1 ?L" using st1(4) c(2) by (simp add: Diff_triv)
  then have inv1: "proc_inv {c, p} st1 ?L" by (rule proc_inv_weaken) auto
  have inv2: "proc_inv {c, p} st2 ?L"
    unfolding st2_def
    by (rule proc_inv_upd_held [OF proc_inv_memory [OF proc_inv_upd_held [OF inv1 _ st1(5)]] _ st1(5)]) simp_all
  have inv3: "proc_inv {c, p} st3 ?L"
    unfolding st3_def by (rule proc_inv_upd_held [OF inv2 _ st1(5)]) simp_all
  then have inv4: "proc_inv {c, p} st4 ?L" unfolding st4_def by (intro proc_inv_set_ret)
  have s4: "pstate (ptable st4 c) = PROC_STATE_READY" "current_pcb st4 = None" "pid (ptable st4 c) = next_pid st"
    "parent (ptable st4 c) = Some p" "memctx (ptable st4 c) = Some ctx" "regs (ptable st4 c) = (regs (ptable st p))\<lparr>reg_rax := 0\<rparr>"
    "regs (ptable st4 p) = (regs (ptable st p))\<lparr>reg_rax := ucast (next_pid st)\<rparr>" "pstate (ptable st4 p) = PROC_STATE_RUNNING"
    using c glob st(2) by (simp_all add: st4_def st3_def st2_def st1(3) set_ret_def f)
  have prio: "by_prio st4 = (by_prio st)(c := by_prio st p)"
    using c by (auto simp: fun_eq_iff st4_def st3_def st2_def st1(3) f)
  have fork: "sys_fork ops p st = do { st \<leftarrow> schedule (Some c) st4; Some (Returned 0 st) }"
    using uc c(2) by (simp add: sys_fork_def Let_def st4_def) (simp add: st3_def st2_def st1(3))
  have "pstate (ptable st4 c) \<noteq> PROC_STATE_UNUSED" "pstate (ptable st4 c) \<noteq> PROC_STATE_ZOMBIE" using s4(1) by simp_all
  then obtain st' where st': "schedule (Some c) st4 = Some st'"
    "relinked (upd_pcb c (\<lambda>b. b\<lparr>pstate := PROC_STATE_READY, psyscall := 0\<rparr>) st4) st'"
    "proc_inv (insert c {c, p}) st' (?L(QReady := insert_after (by_prio st4) c (?L QReady)))"
    by (rule schedule_inv [OF inv4 st1(5) N])
  have cur: "current_pcb st' = None" using st'(2) s4(2) by (simp add: relinked_def)
  have "proc_inv ({c, p} - {c}) st' (?L(QReady := insert_after (by_prio st4) c (?L QReady)))"
    by (rule schedule_release [OF st'(3) _ st'(2)]) (simp add: cur)
  moreover have "{c, p} - {c} = {p}" using c(2) by auto
  ultimately have inv': "proc_inv {p} st' (L(QFree := fs, QReady := insert_after ((by_prio st)(c := by_prio st p)) c (L QReady)))"
    by (simp add: prio)
  have same': "same_but_next ((ptable st4)(c := (ptable st4 c)\<lparr>pstate := PROC_STATE_READY, psyscall := 0\<rparr>)) (ptable st')"
    using st'(2) by (simp add: relinked_def)
  note f' = same_but_next_fields [OF same']
  show thesis
    by (rule that [OF _ inv' cur]) (use fork st'(1) s4 c(2) in \<open>simp_all add: f'\<close>)
qed

text \<open>C1: With a free process control block and a memory context, \<^verbatim>\<open>fork\<close> makes a child that is ready to run: it has
  the next process id, its caller as parent, the cloned context and the registers of the caller with result
  0, while the caller goes on with the child's id as its result. The block is taken from the free list, and
  the invariant of the process table is kept.\<close>

theorem fork_creates_ready_child:
  assumes "proc_inv {} st L" "current_pcb st = Some p" "unat (reg_rax (regs (ptable st p))) = 2"
    "L QFree = c # fs" "op_ctx_clone ops (memctx (ptable st p)) True (memory st) = Some (Some ctx, m)"
  shows "\<exists>st'. syscall_handler ops st = Some (Returned 0 st') \<and> current_pcb st' = Some p \<and>
    proc_inv {} st' (L(QFree := fs, QReady := insert_after ((by_prio st)(c := by_prio st p)) c (L QReady))) \<and>
    pstate (ptable st' c) = PROC_STATE_READY \<and> pid (ptable st' c) = next_pid st \<and> parent (ptable st' c) = Some p \<and>
    memctx (ptable st' c) = Some ctx \<and> regs (ptable st' c) = (regs (ptable st p))\<lparr>reg_rax := 0\<rparr> \<and>
    reg_rax (regs (ptable st' p)) = ucast (next_pid st)"
proof -
  note e = entered_inv [OF assms(1,2)]
  let ?L = "L(QFree := fs, QReady := insert_after ((by_prio st)(c := by_prio st p)) c (L QReady))"
  have run: "syscall_handler ops st = map_option (finish p) (sys_fork ops p (entered p st))"
    using syscall_handler_runs [OF assms(2,3), of ops] by (simp add: N_SYSCALLS_def syscall_tbl_def)
  have clone: "op_ctx_clone ops (memctx (ptable (entered p st) p)) True (memory (entered p st)) = Some (Some ctx, m)"
    using assms(5) by simp
  have prio: "by_prio (entered p st) = by_prio st" by auto
  obtain st1 where st1: "sys_fork ops p (entered p st) = Some (Returned 0 st1)"
    "proc_inv {p} st1 (L(QFree := fs, QReady := insert_after ((by_prio (entered p st))(c := by_prio (entered p st) p)) c (L QReady)))"
    "current_pcb st1 = None" "pstate (ptable st1 c) = PROC_STATE_READY" "pid (ptable st1 c) = next_pid (entered p st)"
    "parent (ptable st1 c) = Some p" "memctx (ptable st1 c) = Some ctx" "regs (ptable st1 c) = (regs (ptable (entered p st) p))\<lparr>reg_rax := 0\<rparr>"
    "regs (ptable st1 p) = (regs (ptable (entered p st) p))\<lparr>reg_rax := ucast (next_pid (entered p st))\<rparr>"
    "pstate (ptable st1 p) = PROC_STATE_RUNNING" "c \<noteq> p"
    by (rule fork_inv [OF e(1,2) _ e(4) assms(4) clone]) simp_all
  have inv1: "proc_inv {p} st1 ?L" using st1(2) prio by simp
  have "unqueued p ?L" by (rule proc_inv_unqueued [OF inv1]) (simp add: st1(10))
  from finish_inv [OF inv1 this e(3) st1(10,3), of 0] obtain st' where
    "finish p (Returned 0 st1) = Returned 0 st'" "proc_inv {} st' ?L" "current_pcb st' = Some p"
    "reg_rax (regs (ptable st' p)) = reg_rax (regs (ptable st1 p))" "\<And>x. x \<noteq> p \<Longrightarrow> ptable st' x = ptable st1 x"
    by (metis (no_types, lifting))
  then show ?thesis using run st1 by (auto simp: set_ret_def)
qed

section \<open>Calls that give up the processor\<close>

lemma dispatch_wakeup: "dispatch ops st = Some (b, st') \<Longrightarrow> wakeup (ptable st' x) = wakeup (ptable st x)"
  by (auto simp: dispatch_def kq_pop_def pcb_queue_pop_def set_next_apply Let_def split: if_splits option.splits prod.splits)

lemma leave_inv:
  assumes inv: "proc_inv {} st L" and cur: "current_pcb st = None"
  obtains st' where "leave ops st = Some (Switched (L QReady \<noteq> []) st')" "proc_inv {} st' (L(QReady := tl (L QReady)))"
    "current_pcb st' = (case L QReady of [] \<Rightarrow> None | q # _ \<Rightarrow> Some q)"
    "\<And>x. pstate (ptable st x) \<noteq> PROC_STATE_READY \<Longrightarrow> pstate (ptable st' x) = pstate (ptable st x)"
    "\<And>x. wakeup (ptable st' x) = wakeup (ptable st x)"
proof (cases "L QReady")
  case Nil
  have "L(QReady := tl (L QReady)) = L" using Nil by (auto simp: fun_eq_iff)
  then show thesis
    using dispatch_waits [OF inv Nil cur, of ops] Nil inv cur by (intro that [of st]) (simp_all add: leave_def)
next
  case (Cons q qs)
  obtain st' where st': "dispatch ops st = Some (True, st')" "current_pcb st' = Some q"
    "\<And>x. x \<noteq> q \<Longrightarrow> pstate (ptable st' x) = pstate (ptable st x)" "proc_inv ({} - {q}) st' (L(QReady := qs))"
    using dispatch_inv [OF inv Cons cur] by blast
  have "q \<in> set (L QReady)" using Cons by simp
  then have "pstate (ptable st q) = PROC_STATE_READY"
    using inv by (auto simp: proc_inv_def members_def dest!: spec [of _ QReady])
  then have "pstate (ptable st' x) = pstate (ptable st x)" if "pstate (ptable st x) \<noteq> PROC_STATE_READY" for x
    using st'(3) that by metis
  then show thesis
    using st'(1,2,4) Cons dispatch_wakeup [OF st'(1)] by (intro that [of st']) (simp_all add: leave_def)
qed

lemma relinked_upd:
  assumes "relinked st st'" "\<And>b. (f b)\<lparr>pnext := None\<rparr> = f (b\<lparr>pnext := None\<rparr>)"
  shows "relinked (upd_pcb p f st) (upd_pcb p f st')"
  using assms by (auto simp: relinked_def same_but_next_def)

text \<open>A block in hand goes into a queue and gets its state afterwards.\<close>

lemma block_inv:
  assumes inv: "proc_inv {p} st L" and free: "unqueued p L" and p: "p < N_PROCS" "current_pcb st = None"
    and i: "i < N_SYSCALLS" "psyscall (ptable st p) = of_nat i"
  obtains st1 where "kq_insert (QSys i) p st = Some (SUCCESS, st1)" "relinked st st1"
    "proc_inv {} (upd_pcb p (\<lambda>b. b\<lparr>pstate := PROC_STATE_BLOCKED\<rparr>) st1) (L(QSys i := insert_after (by_pid st) p (L (QSys i))))"
proof -
  let ?f = "\<lambda>b. b\<lparr>pstate := PROC_STATE_BLOCKED\<rparr>"
  let ?u = "upd_pcb p ?f st"
  have ord: "order (getq (QSys i) st) = O_PCB_PID" using inv i by (auto simp: proc_inv_def ordered_def dest!: spec [of _ "QSys i"])
  obtain st1 where st1: "kq_insert (QSys i) p st = Some (SUCCESS, st1)" "relinked st st1"
    "qlinks st1 (L(QSys i := insert_after (by_pid st) p (L (QSys i))))"
    using kq_insert_links [OF proc_inv_links [OF inv] free, of "QSys i"] ord by (auto simp: inserted_def)
  let ?L = "L(QSys i := insert_after (by_pid st) p (L (QSys i)))"
  have rel: "relinked ?u (upd_pcb p ?f st1)" by (rule relinked_upd [OF st1(2)]) simp
  have inv1: "proc_inv {p} ?u L" by (rule proc_inv_upd_held [OF inv _ free]) simp_all
  have "proc_inv (insert p {p}) (upd_pcb p ?f st1) ?L"
  proof (rule proc_inv_relinked [OF inv1 rel])
    show "qlinks (upd_pcb p ?f st1) ?L" by (rule qlinks_upd_pcb [OF st1(3)]) simp
    have "sorted (map (by_pid st) (insert_after (by_pid st) p (L (QSys i))))"
      using inv i by (intro sorted_insert_after) (auto simp: proc_inv_def ordered_def dest!: spec [of _ "QSys i"])
    moreover have "order_key O_PCB_PID (ptable ?u x) = by_pid st x" for x by simp
    ultimately show "sorted (map (\<lambda>x. order_key (queue_style (QSys i)) (ptable ?u x)) (insert_after (by_pid st) p (L (QSys i))))"
      by (simp only: queue_style.simps)
  next
    fix x assume "x \<in> set (insert_after (by_pid st) p (L (QSys i)))"
    then consider "x = p" | "x \<in> set (L (QSys i))" "x \<noteq> p" by auto
    then show "known (QSys i) \<and> x < N_PROCS \<and> belongs (QSys i) (ptable ?u x)"
      using inv p i by cases (auto simp: proc_inv_def members_def dest!: spec [of _ "QSys i"])
  qed auto
  moreover have "placed (upd_pcb p ?f st1) ?L p"
    using p(2) relinked_placed(2) [OF st1(2)] by (simp add: placed_def)
  ultimately have "proc_inv (insert p {p} - {p}) (upd_pcb p ?f st1) ?L" by (rule proc_inv_release)
  then show thesis using st1 by (intro that) simp_all
qed

text \<open>C14: \<^verbatim>\<open>sleep\<close> with a time that is not 0 blocks its caller in the queue of sleepers, to be woken after that many
  ticks, and hands the processor to the first ready process (or waits for one); the invariant of the
  process table is kept.\<close>

theorem sleep_blocks_caller:
  assumes "proc_inv {} st L" "current_pcb st = Some p" "unat (reg_rax (regs (ptable st p))) = SYS_sleep"
    "PCB_ARG1 (ptable st p) \<noteq> 0"
  shows "\<exists>st'. syscall_handler ops st = Some (Switched (L QReady \<noteq> []) st') \<and>
    proc_inv {} st' (L(QSys SYS_sleep := insert_after (by_pid st) p (L (QSys SYS_sleep)), QReady := tl (L QReady))) \<and>
    current_pcb st' = (case L QReady of [] \<Rightarrow> None | q # _ \<Rightarrow> Some q) \<and>
    pstate (ptable st' p) = PROC_STATE_BLOCKED \<and> wakeup (ptable st' p) = ticks st + PCB_ARG1 (ptable st p)"
proof -
  note e = entered_inv [OF assms(1,2)]
  let ?ms = "PCB_ARG1 (ptable st p)"
  let ?u = "upd_pcb p (\<lambda>b. b\<lparr>wakeup := ticks st + ?ms\<rparr>) (entered p st)"
  have arg: "PCB_ARG1 (ptable (entered p st) p) = ?ms" "ticks (entered p st) = ticks st" by (simp_all add: PCB_ARG1_def set_ret_def)
  have run: "syscall_handler ops st = map_option (finish p) (sys_sleep ops p (entered p st))"
    using syscall_handler_runs [OF assms(2,3), of ops] by (simp add: N_SYSCALLS_def syscall_tbl_def SYS_sleep_def)
  have rax: "reg_rax (regs (ptable st p)) = of_nat SYS_sleep" using arg_cong [OF assms(3), of "of_nat :: nat \<Rightarrow> u64"] by simp
  have inv: "proc_inv {p} ?u L" by (rule proc_inv_upd_held [OF e(1) _ e(2)]) simp_all
  have "psyscall (ptable ?u p) = of_nat SYS_sleep" "current_pcb ?u = None" "SYS_sleep < N_SYSCALLS"
    by (simp_all add: rax SYS_sleep_def N_SYSCALLS_def)
  then obtain st1 where st1: "kq_insert (QSys SYS_sleep) p ?u = Some (SUCCESS, st1)" "relinked ?u st1"
    "proc_inv {} (upd_pcb p (\<lambda>b. b\<lparr>pstate := PROC_STATE_BLOCKED\<rparr>) st1) (L(QSys SYS_sleep := insert_after (by_pid ?u) p (L (QSys SYS_sleep))))"
    using block_inv [OF inv e(2,3), of SYS_sleep] by blast
  let ?st2 = "upd_pcb p (\<lambda>b. b\<lparr>pstate := PROC_STATE_BLOCKED\<rparr>) st1"
  let ?L = "L(QSys SYS_sleep := insert_after (by_pid st) p (L (QSys SYS_sleep)))"
  have "by_pid ?u = by_pid st" by auto
  then have inv2: "proc_inv {} ?st2 ?L" using st1(3) by simp
  have cur: "current_pcb ?st2 = None" using st1(2) by (simp add: relinked_def)
  have same: "same_but_next (ptable ?u) (ptable st1)" using st1(2) by (simp add: relinked_def)
  have w: "wakeup (ptable ?st2 p) = ticks st + ?ms" by (simp add: same_but_next_fields(4) [OF same])
  obtain st' where st': "leave ops ?st2 = Some (Switched (?L QReady \<noteq> []) st')" "proc_inv {} st' (?L(QReady := tl (?L QReady)))"
    "current_pcb st' = (case ?L QReady of [] \<Rightarrow> None | q # _ \<Rightarrow> Some q)"
    "\<And>x. pstate (ptable ?st2 x) \<noteq> PROC_STATE_READY \<Longrightarrow> pstate (ptable st' x) = pstate (ptable ?st2 x)"
    "\<And>x. wakeup (ptable st' x) = wakeup (ptable ?st2 x)"
    by (rule leave_inv [OF inv2 cur]) (rule that)
  have "sys_sleep ops p (entered p st) = leave ops ?st2"
    unfolding sys_sleep_def arg using assms(4) st1(1) by (simp add: SUCCESS_def Let_def)
  then show ?thesis using run st' w by (simp add: finish_def)
qed

section \<open>Waiting for a child\<close>

text \<open>A zombie that the caller may collect.\<close>

definition collectable :: "nat \<Rightarrow> ('m, 'a) kernel_scheme \<Rightarrow> nat \<Rightarrow> bool" where
  "collectable p st c \<longleftrightarrow> pstate (ptable st c) = PROC_STATE_ZOMBIE \<and> parent (ptable st c) = Some p \<and>
     (ucast (PCB_ARG1 (ptable st p)) = (0 :: u16) \<or> ucast (PCB_ARG1 (ptable st p)) = pid (ptable st c))"

lemma collectable_entered: "collectable p (entered p st) = collectable p st"
  by (auto simp: fun_eq_iff collectable_def PCB_ARG1_def set_ret_def)

lemma sys_waitpid_alt:
  "sys_waitpid ops p st =
     (case find (collectable p st) [0..<N_PROCS] of
        Some child \<Rightarrow> do {
          m \<leftarrow> (if memctx (ptable st p) = None then None
                else op_store_status ops (memctx (ptable st p)) (PCB_ARG2 (ptable st p)) (exit_status (ptable st child)) (memory st));
          st \<leftarrow> pcb_cleanup ops (Some child) (st\<lparr>memory := m\<rparr>);
          Some (Returned (ucast (pid (ptable st child))) st)
        }
      | None \<Rightarrow> do {
          (r, st) \<leftarrow> kq_insert (QSys SYS_waitpid) p (upd_pcb p (\<lambda>b. b\<lparr>pstate := PROC_STATE_BLOCKED\<rparr>) st);
          (if r = SUCCESS then leave ops st else None)
        })"
  unfolding sys_waitpid_def collectable_def [abs_def] Let_def ..

text \<open>Two queues with the same last block cannot both be well formed.\<close>

lemma shared_tail:
  assumes "tail (getq QFree st) = Some c" "tail (getq QZombie st) = Some c"
  shows "\<not> qlinks st L"
proof
  assume q: "qlinks st L"
  have "c \<in> set (L r)" if "tail (getq r st) = Some c" for r
  proof -
    have "queue_rep (ptable st) (getq r st) (L r)" using q by (simp add: qlinks_def)
    then show ?thesis using that by (auto simp: queue_rep_def split: if_splits)
  qed
  then have "c \<in> set (L QFree) \<inter> set (L QZombie)" using assms by blast
  then show False using q by (auto simp: qlinks_def)
qed

lemma pcb_cleanup_queued:
  assumes inv: "proc_inv X st L" and c: "c \<in> set (L QZombie)" and run: "pcb_cleanup ops (Some c) st = Some st'"
  shows "\<not> qlinks st' L'"
proof -
  have c': "c \<notin> set (L QFree)" using proc_inv_links [OF inv] c by (auto simp: qlinks_def)
  obtain m where m: "pcb_free (Some c) (st\<lparr>memory := m\<rparr>) = Some st'"
  proof (cases "memctx (ptable st c)")
    case None
    then show ?thesis using run that [of "memory st"] by (simp add: pcb_cleanup_def)
  next
    case (Some k)
    then show ?thesis using run that by (auto simp: pcb_cleanup_def split: bind_splits)
  qed
  let ?u = "upd_pcb c (\<lambda>b. b\<lparr>pstate := PROC_STATE_UNUSED\<rparr>) (st\<lparr>memory := m\<rparr>)"
  have links: "qlinks ?u L" by (rule qlinks_upd_pcb [OF proc_inv_links [OF proc_inv_memory [OF inv]]]) simp
  have rep: "queue_rep (ptable ?u) (getq QFree ?u) (L QFree)" "queue_rep (ptable ?u) (getq QZombie ?u) (L QZombie)"
    using links unfolding qlinks_def by blast+
  have ord: "order (getq QFree ?u) = O_PCB_FIFO" using inv by (auto simp: proc_inv_def ordered_def dest!: spec [of _ QFree])
  have ins: "kq_insert QFree c ?u = Some (SUCCESS, st')"
    using m by (auto simp: pcb_free_def split: bind_splits if_splits)
  have n: "pnext (ptable ?u c) = None"
    using ins by (auto simp: kq_insert_def pcb_queue_insert_def SUCCESS_def E_BAD_PARAM_def split: if_splits)
  obtain q' h' where q': "pcb_queue_insert (getq QFree ?u) (Some c) (ptable ?u) = Some (SUCCESS, q', h')"
    "queue_rep h' q' (inserted (ptable ?u) (getq QFree ?u) c (L QFree))"
    by (rule pcb_queue_insert_rep [OF rep(1) n c'])
  have "inserted (ptable ?u) (getq QFree ?u) c (L QFree) = L QFree @ [c]"
    unfolding inserted_def ord by (rule insert_after_fifo)
  then have t: "tail q' = Some c" using q'(2) by (simp add: queue_rep_def)
  have st': "st' = setq QFree q' (?u\<lparr>ptable := h'\<rparr>)" using ins q'(1) by (simp add: kq_insert_def)
  from c obtain us vs where z: "L QZombie = us @ c # vs" by (meson split_list)
  have "chain (\<lambda>x. pnext (ptable ?u x)) (head (getq QZombie ?u)) (us @ c # vs)" using rep(2) unfolding z queue_rep_def by blast
  from chain_split(3) [OF this] have "vs = []" unfolding n by (simp split: list.splits)
  then have "tail (getq QZombie ?u) = Some c" using rep(2) by (simp add: z queue_rep_def)
  then show ?thesis using t by (intro shared_tail [of _ c]) (simp_all add: st' upd_pcb_def)
qed

text \<open>C26: Collecting a child that has already ended breaks the process table: \<^verbatim>\<open>waitpid\<close> frees the block of the
  zombie without taking it out of the zombie queue. Either the kernel panics, because the block is still
  linked, or the call returns with the block both at the end of the free list and in the zombie queue, so
  that no assignment of lists to the queues describes them any more.\<close>

theorem waitpid_breaks_queues:
  assumes "proc_inv {} st L" "current_pcb st = Some p" "unat (reg_rax (regs (ptable st p))) = SYS_waitpid"
    "find (collectable p st) [0..<N_PROCS] = Some c" "syscall_handler ops st = Some out"
  shows "\<exists>r st'. out = Returned r st' \<and> (\<forall>L'. \<not> qlinks st' L')"
proof -
  note e = entered_inv [OF assms(1,2)]
  have cc: "collectable p st c" "c < N_PROCS" using assms(4) by (auto simp: find_Some_iff)
  have run: "syscall_handler ops st = map_option (finish p) (sys_waitpid ops p (entered p st))"
    using syscall_handler_runs [OF assms(2,3), of ops] by (simp add: N_SYSCALLS_def syscall_tbl_def SYS_waitpid_def)
  have "pstate (ptable st c) = PROC_STATE_ZOMBIE" using cc by (simp add: collectable_def)
  then have z: "c \<in> set (L QZombie)" using assms(1) cc(2) by (auto simp: proc_inv_def placed_def)
  obtain m st1 r where st1: "pcb_cleanup ops (Some c) ((entered p st)\<lparr>memory := m\<rparr>) = Some st1"
    "sys_waitpid ops p (entered p st) = Some (Returned r st1)"
    using assms(4,5) run unfolding sys_waitpid_alt collectable_entered
    by (auto split: bind_splits if_splits)
  have bad: "\<not> qlinks st1 L'" for L' by (rule pcb_cleanup_queued [OF proc_inv_memory [OF e(1)] z st1(1)])
  have "\<not> qlinks st' L'" if "finish p (Returned r st1) = Returned r st'" for st' L'
  proof
    assume q: "qlinks st' L'"
    have st': "(\<forall>x. pnext (ptable st' x) = pnext (ptable st1 x)) \<and> (\<forall>q. getq q st' = getq q st1)"
      using that by (auto simp: finish_def Let_def)
    have "queue_rep (ptable st1) (getq q st1) (L' q)" for q
      by (rule queue_rep_cong [of "ptable st'"]) (use q st' in \<open>auto simp: qlinks_def\<close>)
    then have "qlinks st1 L'" using q st' by (simp add: qlinks_def)
    then show False using bad by blast
  qed
  then show ?thesis using assms(5) run st1(2) by (auto simp: finish_def Let_def)
qed

section \<open>Ending the caller\<close>

lemma zombie_child_cong:
  assumes "\<And>x. pstate (h' x) = pstate (h x)" "\<And>x. parent (h' x) = parent (h x)"
  shows "zombie_child v h' = zombie_child v h" "orphan v h' = orphan v h"
  using assms by (simp_all add: zombie_child_def orphan_def fun_eq_iff)

text \<open>The caller has been given an exit status and is in no queue.\<close>

lemma end_caller:
  assumes inv: "proc_inv {} st L" and cur: "current_pcb st = Some p"
    and p: "pid (ptable st p) \<noteq> 1" "parent (ptable st p) = Some w" "w \<noteq> p" "ini \<noteq> p"
    and glob: "init_pcb st = Some ini" "mem_total ops"
    and wait: "\<forall>x\<in>{ini, w}. psyscall (ptable st x) = of_nat SYS_waitpid \<longrightarrow> x \<in> set (L (QSys SYS_waitpid))"
    and match: "\<forall>z. zombie_child p (ptable st) = Some z \<and> psyscall (ptable st ini) = of_nat SYS_waitpid \<longrightarrow>
      wait_pid (ptable st ini) = 0 \<or> wait_pid (ptable st ini) = pid (ptable st z)"
  shows "\<exists>st1 st' b L'. pcb_zombify ops (Some p) (upd_pcb p (\<lambda>b. b\<lparr>exit_status := s\<rparr>) (entered p st)) = Some st1 \<and>
    leave ops st1 = Some (Switched b st') \<and> proc_inv {} st' L' \<and> current_pcb st' \<noteq> Some p \<and>
    (pstate (ptable st' p) = PROC_STATE_UNUSED \<or> pstate (ptable st' p) = PROC_STATE_ZOMBIE) \<and>
    (\<forall>x<N_PROCS. orphan p (ptable st) x \<longrightarrow> parent (ptable st1 x) = Some ini)"
proof -
  note e = entered_inv [OF inv cur]
  let ?u = "upd_pcb p (\<lambda>b. b\<lparr>exit_status := s\<rparr>) (entered p st)"
  have inv1: "proc_inv {p} ?u L" by (rule proc_inv_upd_held [OF e(1) _ e(2)]) simp_all
  have zc: "zombie_child p (ptable ?u) = zombie_child p (ptable st)" "orphan p (ptable ?u) = orphan p (ptable st)"
    by (rule zombie_child_cong; simp)+
  have z: "pid (ptable ?u x) = pid (ptable st x)" for x by simp
  have oth: "ptable ?u ini = ptable st ini" "ptable ?u w = ptable st w" using p by simp_all
  obtain st1 L1 where st1: "pcb_zombify ops (Some p) ?u = Some st1" "proc_inv {} st1 L1" "current_pcb st1 = None"
    "\<forall>x<N_PROCS. orphan p (ptable ?u) x \<longrightarrow> parent (ptable st1 x) = Some ini"
    "pstate (ptable st1 p) = PROC_STATE_UNUSED \<or> pstate (ptable st1 p) = PROC_STATE_ZOMBIE"
    using pcb_zombify_inv [OF inv1 e(2,3), of w ini ops] p glob wait match e(4) unfolding zc z oth
    by (auto split: if_splits)
  obtain st' where st': "leave ops st1 = Some (Switched (L1 QReady \<noteq> []) st')" "proc_inv {} st' (L1(QReady := tl (L1 QReady)))"
    "\<And>x. pstate (ptable st1 x) \<noteq> PROC_STATE_READY \<Longrightarrow> pstate (ptable st' x) = pstate (ptable st1 x)"
    using leave_inv [OF st1(2,3)] by blast
  have s: "pstate (ptable st' p) = PROC_STATE_UNUSED \<or> pstate (ptable st' p) = PROC_STATE_ZOMBIE"
    using st1(5) st'(3) [of p] by auto
  then have "current_pcb st' \<noteq> Some p" using proc_inv_running(2) [OF st'(2)] by auto
  then show ?thesis using st1(1,4) st'(1,2) s unfolding zc by blast
qed


section \<open>Replacing the program\<close>

text \<open>Only the block \<open>p\<close> has changed, and nothing of it that a queue looks at.\<close>

definition framed :: "nat \<Rightarrow> ('m, 'a) kernel_scheme \<Rightarrow> ('m, 'a) kernel_scheme \<Rightarrow> bool" where
  "framed p st st' \<longleftrightarrow> calm p st st' \<and> (\<forall>x. x \<noteq> p \<longrightarrow> ptable st' x = ptable st x)"

lemma framed_refl [simp]: "framed p st st"
  by (simp add: framed_def)

lemma framed_trans: "framed p st st' \<Longrightarrow> framed p st' st'' \<Longrightarrow> framed p st st''"
  by (auto simp: framed_def calm_def)

lemma framed_memory [simp]: "framed p st (st\<lparr>memory := m\<rparr>)"
  by (simp add: framed_def calm_def)

lemma framed_upd:
  "(\<And>b. pnext (f b) = pnext b \<and> pstate (f b) = pstate b \<and> psyscall (f b) = psyscall b \<and> pid (f b) = pid b \<and>
     parent (f b) = parent b \<and> wakeup (f b) = wakeup b) \<Longrightarrow> framed p st (upd_pcb p f st)"
  by (simp add: framed_def calm_def)

lemma getq_load_buffer [simp]: "getq q (st\<lparr>load_buffer := b\<rparr>) = getq q st"
  by (cases q) simp_all

lemma framed_load_data: "load_data ops fp dst n t st = Some (e, st') \<Longrightarrow> framed p st st'"
  by (auto simp: framed_def calm_def dest!: load_data_frame)

lemma framed_load_segment: "user_load_segment ops p fp i st = Some (e, st') \<Longrightarrow> framed p st st'"
  by (auto simp: user_load_segment_def Let_def dest!: framed_load_data [where p = p] split: if_splits prod.splits bind_splits)
    (auto simp: framed_def calm_def)

lemma framed_load_segments: "load_segments ops p fp i n st = Some (e, st') \<Longrightarrow> framed p st st'"
proof (induction n arbitrary: i st)
  case (Suc n)
  then show ?case
    by (auto split: if_splits prod.splits bind_splits dest!: framed_load_segment intro: framed_trans)
qed simp

lemma framed_user_load_segments: "user_load_segments ops p fp st = Some (e, st') \<Longrightarrow> framed p st st'"
  by (auto simp: user_load_segments_def Let_def dest!: framed_load_segments split: if_splits prod.splits bind_splits)
    (auto simp: framed_def calm_def)

lemma framed_user_load_elf: "user_load_elf ops p fp st = Some (e, st') \<Longrightarrow> framed p st st'"
  by (auto simp: user_load_elf_def Let_def framed_def calm_def split: if_splits prod.splits bind_splits)

lemma framed_user_setup_stack: "user_setup_stack ops p a c st = Some (e, st') \<Longrightarrow> framed p st st'"
  by (auto simp: user_setup_stack_def Let_def framed_def calm_def split: if_splits prod.splits option.splits)

lemma framed_user_cleanup: "user_cleanup ops (Some p) st = Some st' \<Longrightarrow> framed p st st'"
  by (auto simp: user_cleanup_def framed_def calm_def split: option.splits bind_splits)

lemma framed_user_load:
  assumes "user_load ops (Some p) fp a c st = Some (e, st')" shows "framed p st st'"
proof (cases "fp = 0")
  case True
  then show ?thesis using assms by (simp add: user_load_def)
next
  case False
  obtain k m where k: "op_ctx_alloc ops (memory st) = (k, m)" by fastforce
  let ?st = "upd_pcb p (\<lambda>b. b\<lparr>memctx := k\<rparr>) (st\<lparr>memory := m\<rparr>)"
  have 0: "framed p st ?st" by (rule framed_trans [OF framed_memory framed_upd]) simp
  have "framed p ?st st'"
    using assms False k
    by (auto simp: user_load_def Let_def intro: framed_trans split: if_splits prod.splits bind_splits
        dest!: framed_user_cleanup framed_user_load_elf framed_user_load_segments framed_user_setup_stack)
  then show ?thesis by (rule framed_trans [OF 0])
qed

lemma proc_inv_framed: "proc_inv X st L \<Longrightarrow> unqueued p L \<Longrightarrow> framed p st st' \<Longrightarrow> proc_inv X st' L"
  by (rule proc_inv_calm) (auto simp: framed_def)

text \<open>Writing the saved block back undoes what loading did to the table.\<close>

lemma framed_restore: "framed p st st' \<Longrightarrow> ptable (upd_pcb p (\<lambda>_. ptable st p) st') = ptable st"
  by (auto simp: framed_def)

lemma framed_upd_back:
  assumes "framed p st st'" shows "framed p st (upd_pcb p (\<lambda>_. ptable st p) st')"
  using assms by (auto simp: framed_def calm_def)

lemma sys_exec_cases:
  assumes "sys_exec ops p st = Some out"
  obtains (fail) st' where "out = Returned 1 st'" "framed p st st'" "ptable st' = ptable st"
    | (load) f args c st1 m st2 where "user_load ops (Some p) f args c (st\<lparr>memory := m\<rparr>) = Some (0, st1)"
        "\<exists>m. schedule (Some p) (st1\<lparr>memory := m\<rparr>) = Some st2" "leave ops st2 = Some out"
proof -
  have restored: "framed p st (upd_pcb p (\<lambda>_. ptable st p) st1\<lparr>memory := m\<rparr>) \<and>
      framed p st (upd_pcb p (\<lambda>_. ptable st p) st1) \<and>
      ptable (upd_pcb p (\<lambda>_. ptable st p) st1\<lparr>memory := m\<rparr>) = ptable st \<and>
      ptable (upd_pcb p (\<lambda>_. ptable st p) st1) = ptable st"
    if "user_load ops (Some p) f a c (st\<lparr>memory := m'\<rparr>) = Some (e, st1)" for f a c m' e st1 m
  proof -
    have fr: "framed p st st1" by (rule framed_trans [OF framed_memory framed_user_load [OF that]])
    show ?thesis
      using framed_upd_back [OF fr] framed_trans [OF framed_upd_back [OF fr] framed_memory] framed_restore [OF fr] by simp
  qed
  have same: "upd_pcb p (\<lambda>_. ptable st p) (st\<lparr>memory := m\<rparr>) = st\<lparr>memory := m\<rparr>" "upd_pcb p (\<lambda>_. ptable st p) st = st" for m
    by (simp_all add: upd_pcb_def)
  have 1: thesis if "out = Returned 1 (st\<lparr>memory := m\<rparr>)" for m by (rule fail [OF that]) simp_all
  have 2: thesis if "out = Returned 1 st" by (rule fail [OF that]) simp_all
  have 3: thesis if "user_load ops (Some p) f a c (st\<lparr>memory := m\<rparr>) = Some (e, st1)"
    "out = Returned 1 (upd_pcb p (\<lambda>_. ptable st p) st1)" for f a c m e st1
    using restored [OF that(1)] by (intro fail [OF that(2)]) simp_all
  have 4: thesis if "user_load ops (Some p) f a c (st\<lparr>memory := m\<rparr>) = Some (e, st1)"
    "out = Returned 1 (upd_pcb p (\<lambda>_. ptable st p) st1\<lparr>memory := k\<rparr>)" for f a c m e st1 k
    using restored [OF that(1), of k] by (intro fail [OF that(2)]) simp_all
  have 5: thesis if "user_load ops (Some p) f a c (st\<lparr>memory := m\<rparr>) = Some (0, st1)"
    "schedule (Some p) (st1\<lparr>memory := k\<rparr>) = Some st2" "leave ops st2 = Some out" for f a c m st1 k st2
    using that by (intro load) auto
  from assms show thesis
    by (auto simp: sys_exec_def Let_def same split: if_splits prod.splits bind_splits option.splits intro: 1 2 3 4 5)
qed

text \<open>What of a program neither scheduling nor dispatching changes.\<close>

definition program_of :: "pcb \<Rightarrow> elf64_ehdr \<times> u64 \<times> u64 \<times> u64" where
  "program_of b = (elf_header b, reg_rip (regs b), reg_cs (regs b), reg_rsp (regs b))"

lemma program_of_next: "program_of (b\<lparr>pnext := v\<rparr>) = program_of b"
  by (simp add: program_of_def)

lemma dispatch_program: "dispatch ops st = Some (b, st') \<Longrightarrow> program_of (ptable st' x) = program_of (ptable st x)"
  by (auto simp: dispatch_def kq_pop_def pcb_queue_pop_def set_next_apply Let_def program_of_def split: if_splits option.splits prod.splits)

lemma relinked_program:
  assumes "relinked st st'" shows "program_of (ptable st' x) = program_of (ptable st x)"
proof -
  have "ptable st' x\<lparr>pnext := None\<rparr> = ptable st x\<lparr>pnext := None\<rparr>" using assms by (simp add: relinked_def same_but_next_def)
  from arg_cong [OF this, of program_of] show ?thesis by (simp add: program_of_next)
qed

text \<open>C4: \<^verbatim>\<open>exec\<close> replaces the program of its caller or leaves the caller as it was: when it returns, it returns 1 to
  a caller whose block is unchanged but for the result; otherwise the caller has a program whose header
  passed every check and goes on, in its turn, at the entry point of that program in user mode, with its stack
  at the top. In both cases the invariant of the process table holds.\<close>

theorem exec_replaces_or_restores:
  assumes "proc_inv {} st L" "current_pcb st = Some p" "unat (reg_rax (regs (ptable st p))) = 3" "syscall_handler ops st = Some out"
  shows "(\<exists>st'. out = Returned 1 st' \<and> proc_inv {} st' L \<and> current_pcb st' = Some p \<and>
      ptable st' = (ptable st)(p := (set_ret 1 (ptable st p))\<lparr>psyscall := 0\<rparr>)) \<or>
    (\<exists>b st' L'. out = Switched b st' \<and> proc_inv {} st' L' \<and> validate_elf_hdr (elf_header (ptable st' p)) = 0 \<and>
      reg_rip (regs (ptable st' p)) = e_entry (elf_header (ptable st' p)) \<and>
      reg_cs (regs (ptable st' p)) = USER_CODE OR RING3 \<and> reg_rsp (regs (ptable st' p)) = USER_STACK_TOP)"
proof -
  note e = entered_inv [OF assms(1,2)]
  have cur: "current_pcb (entered p st) = None" by simp
  have run: "syscall_handler ops st = map_option (finish p) (sys_exec ops p (entered p st))"
    using syscall_handler_runs [OF assms(2,3), of ops] by (simp add: N_SYSCALLS_def syscall_tbl_def)
  then obtain out1 where o: "sys_exec ops p (entered p st) = Some out1" "out = finish p out1"
    using assms(4) by (auto simp: map_option_case split: option.splits)
  from o(1) show ?thesis
  proof (cases rule: sys_exec_cases)
    case (fail st1)
    have inv1: "proc_inv {p} st1 L" by (rule proc_inv_framed [OF e(1,2) fail(2)])
    have c1: "current_pcb st1 = None" using fail(2) by (simp add: framed_def calm_def)
    have s1: "pstate (ptable st1 p) = PROC_STATE_RUNNING" using fail(3) e(4) by simp
    obtain st' where st': "finish p (Returned 1 st1) = Returned 1 st'" "proc_inv {} st' L" "current_pcb st' = Some p"
      using finish_inv [OF inv1 e(2,3) s1 c1, of 1] by blast
    have "ptable st' = (ptable st)(p := (set_ret 1 (ptable st p))\<lparr>psyscall := 0\<rparr>)"
      using st'(1) fail(3) by (auto simp: finish_def Let_def set_ret_def fun_eq_iff)
    then show ?thesis using st' fail(1) o(2) by auto
  next
    case (load f args c st1 m st2)
    then obtain k where sch: "schedule (Some p) (st1\<lparr>memory := k\<rparr>) = Some st2" by blast
    note v = user_load_valid [OF load(1)]
    let ?st1 = "st1\<lparr>memory := k\<rparr>"
    have fr: "framed p (entered p st) ?st1"
      by (rule framed_trans [OF framed_trans [OF framed_memory framed_user_load [OF load(1)]] framed_memory])
    have inv1: "proc_inv {p} ?st1 L" by (rule proc_inv_framed [OF e(1,2) fr])
    have s1: "pstate (ptable ?st1 p) = PROC_STATE_RUNNING" "current_pcb ?st1 = None"
      using fr e(4) by (simp_all add: framed_def calm_def)
    then have "pstate (ptable ?st1 p) \<noteq> PROC_STATE_UNUSED" "pstate (ptable ?st1 p) \<noteq> PROC_STATE_ZOMBIE" by simp_all
    then obtain st2' where st2: "schedule (Some p) ?st1 = Some st2'"
      "relinked (upd_pcb p (\<lambda>b. b\<lparr>pstate := PROC_STATE_READY, psyscall := 0\<rparr>) ?st1) st2'"
      "proc_inv (insert p {p}) st2' (L(QReady := insert_after (by_prio ?st1) p (L QReady)))"
      by (rule schedule_inv [OF inv1 e(2,3)])
    have "st2' = st2" using sch st2(1) by simp
    note st2 = st2 [unfolded this]
    have c2: "current_pcb st2 = None" using st2(2) s1(2) by (simp add: relinked_def)
    let ?L = "L(QReady := insert_after (by_prio ?st1) p (L QReady))"
    have "proc_inv ({p} - {p}) st2 ?L" by (rule schedule_release [OF st2(3) _ st2(2)]) (simp add: c2)
    then have inv2: "proc_inv {} st2 ?L" by simp
    obtain st' where st': "leave ops st2 = Some (Switched (?L QReady \<noteq> []) st')" "proc_inv {} st' (?L(QReady := tl (?L QReady)))"
      using leave_inv [OF inv2 c2] by blast
    have d: "dispatch ops st2 = Some (?L QReady \<noteq> [], st')" using st'(1) by (auto simp: leave_def)
    have "program_of (ptable st' p) = program_of (ptable st1 p)"
      using dispatch_program [OF d, of p] relinked_program [OF st2(2), of p] by (simp add: program_of_def)
    then have "validate_elf_hdr (elf_header (ptable st' p)) = 0 \<and>
      reg_rip (regs (ptable st' p)) = e_entry (elf_header (ptable st' p)) \<and>
      reg_cs (regs (ptable st' p)) = USER_CODE OR RING3 \<and> reg_rsp (regs (ptable st' p)) = USER_STACK_TOP"
      using v by (auto simp: program_of_def user_regs_def)
    moreover have "out = Switched (?L QReady \<noteq> []) st'" using load(3) st'(1) o(2) by (auto simp: finish_def)
    ultimately show ?thesis using st'(2) by blast
  qed
qed

section \<open>Killing\<close>

lemma owner_loop_none:
  "chain (\<lambda>x. parent (h x)) v as \<Longrightarrow> \<forall>a\<in>set as. pid (h a) \<noteq> pd \<Longrightarrow> owner_loop h pd v = Some None"
  by (induction as arbitrary: v) (auto simp: owner_loop.simps)

text \<open>A process can only kill itself and its descendants: when neither the victim nor an ancestor of it has the
  caller's id, \<^verbatim>\<open>kill\<close> returns 1 to the caller and no process changes its state or its place.\<close>

theorem kill_spares_strangers:
  assumes "proc_inv {} st L" "current_pcb st = Some p" "unat (reg_rax (regs (ptable st p))) = 13"
    "pcb_find_pid (ucast (PCB_ARG1 (ptable st p))) st = Some v"
    "chain (\<lambda>x. parent (ptable st x)) (Some v) as" "\<forall>a\<in>set as. pid (ptable st a) \<noteq> pid (ptable st p)"
  shows "\<exists>st'. syscall_handler ops st = Some (Returned 1 st') \<and> proc_inv {} st' L \<and> current_pcb st' = Some p \<and>
    reg_rax (regs (ptable st' p)) = 1 \<and> (\<forall>x. x \<noteq> p \<longrightarrow> ptable st' x = ptable st x) \<and> memory st' = memory st"
proof -
  note e = entered_inv [OF assms(1,2)]
  have fields: "pid (ptable (entered p st) x) = pid (ptable st x)" "parent (ptable (entered p st) x) = parent (ptable st x)"
    "pstate (ptable (entered p st) x) = pstate (ptable st x)" "PCB_ARG1 (ptable (entered p st) x) = PCB_ARG1 (ptable st x)" for x
    by (simp_all add: PCB_ARG1_def set_ret_def)
  have v: "pcb_find_pid d (entered p st) = pcb_find_pid d st" for d unfolding pcb_find_pid_def fields ..
  have "owner_loop (ptable (entered p st)) (pid (ptable st p)) (Some v) = Some None"
    by (rule owner_loop_none [of _ _ as]) (use assms(5,6) in \<open>simp_all only: fields\<close>)
  then have k: "sys_kill ops p (entered p st) = Some (Returned 1 (entered p st))"
    unfolding sys_kill_def fields v using assms(4) by simp
  have run: "syscall_handler ops st = map_option (finish p) (sys_kill ops p (entered p st))"
    using syscall_handler_runs [OF assms(2,3), of ops] by (simp add: N_SYSCALLS_def syscall_tbl_def)
  have c: "current_pcb (entered p st) = None" by simp
  obtain st' where st': "finish p (Returned 1 (entered p st)) = Returned 1 st'" "proc_inv {} st' L" "current_pcb st' = Some p"
    "reg_rax (regs (ptable st' p)) = (if (1 :: u32) = 0 then reg_rax (regs (ptable (entered p st) p)) else scast (1 :: u32))"
    "\<And>x. x \<noteq> p \<Longrightarrow> ptable st' x = ptable (entered p st) x" "memory st' = memory (entered p st)"
    by (rule finish_inv [OF e(1,2,3,4) c, of 1]) (rule that)
  then show ?thesis using run k by auto
qed

section \<open>The heap\<close>

lemma heap_pages:
  assumes "unat l = 4096 * k" "unat l + n + 4095 < 2 ^ 64"
  shows "(l + of_nat n + PAGE_SIZE - 1) div PAGE_SIZE = of_nat (k + (n + 4095) div 4096)"
    "(if l = 0 then 0 else (l + PAGE_SIZE - 1) div PAGE_SIZE) = of_nat k"
proof -
  have up: "(l + of_nat j + PAGE_SIZE - 1) div PAGE_SIZE = of_nat (k + (j + 4095) div 4096)" if "unat l + j + 4095 < 2 ^ 64" for j
  proof (rule word_unat_eq_iff [THEN iffD2])
    have "l + of_nat j + PAGE_SIZE - 1 = of_nat (unat l + j + 4095)" by (simp add: PAGE_SIZE_def)
    then have "unat (l + of_nat j + PAGE_SIZE - 1) = unat l + j + 4095" using that by (simp only: unat_of_nat64)
    moreover have "(4096 * k + j + 4095) div 4096 = k + (j + 4095) div 4096" by simp
    moreover have "unat (of_nat (k + (j + 4095) div 4096) :: u64) = k + (j + 4095) div 4096"
      by (rule unat_of_nat64) (use that assms(1) in simp)
    ultimately show "unat ((l + of_nat j + PAGE_SIZE - 1) div PAGE_SIZE) = unat (of_nat (k + (j + 4095) div 4096) :: u64)"
      using assms(1) by (simp add: unat_div PAGE_SIZE_def)
  qed
  show "(l + of_nat n + PAGE_SIZE - 1) div PAGE_SIZE = of_nat (k + (n + 4095) div 4096)" by (rule up [OF assms(2)])
  have "unat l + 0 + 4095 < 2 ^ 64" using assms(2) by simp
  from up [OF this] show "(if l = 0 then 0 else (l + PAGE_SIZE - 1) div PAGE_SIZE) = of_nat k"
    using assms(1) by (auto simp: unat_eq_0 [symmetric])
qed

text \<open>\<^verbatim>\<open>sbrk\<close> with a positive increment asks for exactly the pages that are missing, at the end of the heap; when
  they are mapped the caller gets the old break, and the new heap length is the old one plus the increment,
  rounded up to whole pages. When they are not, the result is null and the heap is unchanged.\<close>

theorem sbrk_grows_heap:
  assumes "proc_inv {} st L" "current_pcb st = Some p" "unat (reg_rax (regs (ptable st p))) = 16"
    "PCB_ARG1 (ptable st p) = of_nat n" "0 < n" "unat (heap_len (ptable st p)) = 4096 * k"
    "unat (heap_len (ptable st p)) + n + 4095 < 2 ^ 64"
    "op_alloc_pages_at ops (memctx (ptable st p)) (of_nat ((n + 4095) div 4096)) (heap_start (ptable st p) + heap_len (ptable st p))
       (F_PRESENT OR F_WRITEABLE OR F_UNPRIVILEGED) (memory st) = (a, m)"
  shows "\<exists>st'. syscall_handler ops st = Some (Returned 0 st') \<and> current_pcb st' = Some p \<and> memory st' = m \<and>
    (if a = 0 then reg_rax (regs (ptable st' p)) = 0 \<and> heap_len (ptable st' p) = heap_len (ptable st p)
     else reg_rax (regs (ptable st' p)) = heap_start (ptable st p) + heap_len (ptable st p) \<and>
          unat (heap_len (ptable st' p)) = 4096 * (k + (n + 4095) div 4096) \<and>
          4096 * k + n \<le> unat (heap_len (ptable st' p)))"
proof -
  let ?b = "ptable st p" and ?u = "entered p st"
  let ?g = "(n + 4095) div 4096"
  have g: "0 < ?g" "4096 * ?g < n + 4096" "n \<le> 4096 * ?g" using assms(5) by auto
  note pages = heap_pages [OF assms(6,7)]
  have f: "heap_len (ptable ?u p) = heap_len ?b" "heap_start (ptable ?u p) = heap_start ?b" "memctx (ptable ?u p) = memctx ?b"
    "PCB_ARG1 (ptable ?u p) = of_nat n" "memory ?u = memory st"
    using assms(4) by (simp_all add: PCB_ARG1_def set_ret_def)
  have u: "unat (of_nat n :: u64) = n" "unat (of_nat (k + ?g) :: u64) = k + ?g" "unat (of_nat k :: u64) = k"
    by (rule unat_of_nat64, use assms(6,7) g in simp)+
  have ne: "(of_nat n :: u64) \<noteq> 0" "(of_nat (k + ?g) :: u64) \<noteq> of_nat k" "\<not> (of_nat (k + ?g) :: u64) < of_nat k"
    using assms(5) u g(1) by (metis less_numeral_extra(3) unat_0, metis add_eq_self_zero less_numeral_extra(3), simp add: word_less_nat_alt)
  have diff: "of_nat (k + ?g) - of_nat k = (of_nat ?g :: u64)" by simp
  have addr: "of_nat k * PAGE_SIZE = heap_len ?b"
    using arg_cong [OF assms(6), of "of_nat :: nat \<Rightarrow> u64"] by (simp add: PAGE_SIZE_def)
  have upd: "pcb_update_heap ops p (of_nat n) ?u =
    Some (if a = 0 then (0, ?u\<lparr>memory := m\<rparr>)
          else (heap_start ?b + heap_len ?b, upd_pcb p (\<lambda>b. b\<lparr>heap_len := of_nat (k + ?g) * PAGE_SIZE\<rparr>) (?u\<lparr>memory := m\<rparr>)))"
    unfolding pcb_update_heap_def Let_def f pages diff addr using assms(8) ne by simp
  have run: "syscall_handler ops st = map_option (finish p) (sys_sbrk ops p ?u)"
    using syscall_handler_runs [OF assms(2,3), of ops] by (simp add: N_SYSCALLS_def syscall_tbl_def)
  have len: "unat (of_nat (k + ?g) * PAGE_SIZE) = 4096 * (k + ?g)"
  proof -
    have "of_nat (k + ?g) * PAGE_SIZE = (of_nat (4096 * (k + ?g)) :: u64)" by (simp add: PAGE_SIZE_def)
    moreover have "4096 * (k + ?g) < 2 ^ 64" using assms(6,7) g(2) by simp
    ultimately show ?thesis by (simp only: unat_of_nat64)
  qed
  show ?thesis
    unfolding run sys_sbrk_def f upd using len g(3) by (simp add: finish_def Let_def)
qed

section \<open>Files of a process\<close>

text \<open>Closing a file leaves its pointer in the table of the process, where the next call finds the freed object.\<close>

theorem close_keeps_descriptor:
  assumes "get_file_ptr p (ucast (PCB_ARG1 (ptable st p))) st = f" "f \<noteq> 0"
  shows "\<exists>st'. sys_close ops p st = Some (Returned 0 st') \<and> get_file_ptr p (ucast (PCB_ARG1 (ptable st p))) st' = f"
  using assms(2) unfolding assms(1) [symmetric] by (simp add: sys_close_def Let_def) (simp add: get_file_ptr_def)

text \<open>The name that \<^verbatim>\<open>open\<close> passes on has behind it what the buffer held, because its terminator is not copied.\<close>

theorem open_name_is_extended:
  assumes "memctx (ptable st p) = Some c" "op_load_str ops c a (memory st) = Some s" "0 \<notin> set s" "length s \<le> N_FILE_NAME"
    "0 \<in> set (drop (length s) (op_stack ops (memory st)))"
  shows "read_filename ops False p a st = Some (s @ takeWhile (\<lambda>b. b \<noteq> 0) (drop (length s) (op_stack ops (memory st))))"
proof -
  have "takeWhile (\<lambda>b. b \<noteq> 0) (s @ xs) = s @ takeWhile (\<lambda>b. b \<noteq> 0) xs" for xs
    using assms(3) by (intro takeWhile_append2) auto
  then show ?thesis using assms by (simp add: read_filename_def)
qed

section \<open>Instances\<close>

text \<open>The process 7 in block 3 makes the call \<open>num\<close> with the arguments \<open>a\<close> and \<open>a2\<close>; block 4 is a zombie child of it, block 5
  is free and block 6 is ready.\<close>

definition call_kernel :: "u64 \<Rightarrow> u64 \<Rightarrow> unit skernel" where
  "call_kernel num a =
     (let b = zero_pcb\<lparr>pstate := PROC_STATE_NEW\<rparr>;
          e = \<lparr>head = None, tail = None, order = O_PCB_PID\<rparr>
      in \<lparr>ptable = (\<lambda>_. b)(2 := b\<lparr>pid := 1\<rparr>, 3 := b\<lparr>pstate := PROC_STATE_RUNNING, pid := 7, parent := Some 2, memctx := Some (UserCtx 0),
                              heap_start := 0x10000, regs := zero_regs\<lparr>reg_rax := num, reg_rdi := a\<rparr>\<rparr>,
                 4 := b\<lparr>pstate := PROC_STATE_ZOMBIE, pid := 9, parent := Some 3\<rparr>,
                 5 := b\<lparr>pstate := PROC_STATE_UNUSED\<rparr>,
                 6 := b\<lparr>pstate := PROC_STATE_READY, pid := 8, parent := Some 3\<rparr>),
          pcb_freelist = \<lparr>head = Some 5, tail = Some 5, order = O_PCB_FIFO\<rparr>,
          ready_queue = \<lparr>head = Some 6, tail = Some 6, order = O_PCB_PRIO\<rparr>,
          zombie_queue = e\<lparr>head := Some 4, tail := Some 4\<rparr>,
          syscall_queue = (\<lambda>_. e),
          current_pcb = Some 3, init_pcb = Some 2, next_pid = 10, ticks = 100, memory = (), load_buffer = None,
          key_buffer = keycode_buffer_init\<rparr>)"

definition call_lists :: "qid \<Rightarrow> nat list" where
  "call_lists = (\<lambda>_. [])(QFree := [5], QReady := [6], QZombie := [4])"

lemma call_kernel_inv: "proc_inv {} (call_kernel num a) call_lists"
proof -
  let ?st = "call_kernel num a"
  have q: "getq q ?st = (case q of
      QFree \<Rightarrow> \<lparr>head = Some 5, tail = Some 5, order = O_PCB_FIFO\<rparr> | QReady \<Rightarrow> \<lparr>head = Some 6, tail = Some 6, order = O_PCB_PRIO\<rparr>
    | QZombie \<Rightarrow> \<lparr>head = Some 4, tail = Some 4, order = O_PCB_PID\<rparr> | QSys i \<Rightarrow> \<lparr>head = None, tail = None, order = O_PCB_PID\<rparr>)" for q
    by (cases q) (auto simp: call_kernel_def Let_def)
  have n: "pnext (ptable ?st x) = None" for x by (simp add: call_kernel_def Let_def zero_pcb_def)
  then have "queue_rep (ptable ?st) (getq q ?st) (call_lists q)" for q
    unfolding q by (cases q) (auto simp: call_lists_def queue_rep_def)
  then have "qlinks ?st call_lists" using n by (auto simp: qlinks_def call_lists_def)
  moreover have "ordered ?st call_lists"
    by (auto simp: ordered_def q call_lists_def split: qid.splits)
  moreover have "members ?st call_lists"
    by (auto simp: members_def call_lists_def N_PROCS_def) (auto simp: call_kernel_def Let_def)
  moreover have "placed ?st call_lists x" for x
    by (auto simp: placed_def call_kernel_def call_lists_def Let_def zero_pcb_def)
  ultimately show ?thesis by (auto simp: proc_inv_def N_PROCS_def) (auto simp: call_kernel_def Let_def)
qed

lemma call_kernel_simps [simp]:
  "current_pcb (call_kernel num a) = Some 3" "reg_rax (regs (ptable (call_kernel num a) 3)) = num"
  "PCB_ARG1 (ptable (call_kernel num a) 3) = a" "memctx (ptable (call_kernel num a) 3) = Some (UserCtx 0)"
  "pid (ptable (call_kernel num a) 3) = 7" "next_pid (call_kernel num a) = 10" "ticks (call_kernel num a) = 100"
  "memory (call_kernel num a) = ()" "heap_start (ptable (call_kernel num a) 3) = 0x10000" "heap_len (ptable (call_kernel num a) 3) = 0"
  by (simp_all add: call_kernel_def Let_def PCB_ARG1_def zero_pcb_def)

definition plain_ops :: "unit sys_ops" where
  "plain_ops = \<lparr>op_ctx_free = \<lambda>_. Some, op_store_status = \<lambda>_ _ _. Some, op_pgdir = \<lambda>_ _. 0x5000,
     op_ctx_alloc = \<lambda>m. (Some (UserCtx 1), m), op_ctx_clone = \<lambda>c _ m. Some (Some (UserCtx 1), m),
     op_alloc_pages_at = \<lambda>_ _ v _ m. (v, m), op_kmapuser = \<lambda>_ v _ m. (v, m), op_kunmap = \<lambda>_ m. m,
     op_kalloc = \<lambda>_ m. (0x9000, m), op_fresh = \<lambda>_ _. 0, op_copy_to = \<lambda>_ _. Some, op_args = \<lambda>_ _ _. Some [],
     op_fseek = \<lambda>_ off _ m. Some (ucast off, m), op_fread = \<lambda>_ n m. Some (0, [], m), op_fclose = \<lambda>_ m. m,
     op_load_str = \<lambda>_ _ _. Some [0x61], op_store = \<lambda>_ _ _. Some, op_map_byte = \<lambda>_ _. Some 0x61,
     op_stack = \<lambda>_. replicate 256 0, op_root_fs = \<lambda>_. Some 0, op_open = \<lambda>_ _ _ m. Some (0, Some 0x3000, m),
     op_kputc = \<lambda>_ m. m, op_unixtime = \<lambda>_. 0, op_alloc_pages = \<lambda>_ _ _ m. (0x7000, m), op_free_pages = \<lambda>_ _. Some,
     op_mapaddr = \<lambda>_ _ v _ _ m. (v, m), op_get_phys = \<lambda>_ v _. v, op_gpu = \<lambda>_. None\<rparr>"

theorem quiet_syscall_returns_witness:
  "\<exists>st'. syscall_handler plain_ops (call_kernel 8 0) = Some (Returned 7 st') \<and> proc_inv {} st' call_lists \<and>
     current_pcb st' = Some 3 \<and> reg_rax (regs (ptable st' 3)) = 7"
proof -
  have "\<exists>st'. syscall_handler plain_ops (call_kernel 8 0) = Some (Returned 7 st')"
    by (subst syscall_handler_runs [of _ 3 8])
      (simp_all add: N_SYSCALLS_def syscall_tbl_def sys_getpid_def finish_def Let_def)
  then obtain st' where st': "syscall_handler plain_ops (call_kernel 8 0) = Some (Returned 7 st')" by blast
  from quiet_syscall_returns [OF call_kernel_inv _ _ this, of 3] show ?thesis
    using st' by (auto simp: quiet_calls_def)
qed

theorem fork_creates_ready_child_witness:
  "\<exists>st'. syscall_handler plain_ops (call_kernel 2 0) = Some (Returned 0 st') \<and> current_pcb st' = Some 3 \<and>
     pstate (ptable st' 5) = PROC_STATE_READY \<and> pid (ptable st' 5) = 10 \<and> parent (ptable st' 5) = Some 3 \<and>
     reg_rax (regs (ptable st' 5)) = 0 \<and> reg_rax (regs (ptable st' 3)) = 10"
  using fork_creates_ready_child [OF call_kernel_inv, of 2 0 3 5 "[]" plain_ops "UserCtx 1" "()"]
  by (auto simp: call_lists_def plain_ops_def)

theorem sleep_blocks_caller_witness:
  "\<exists>st'. syscall_handler plain_ops (call_kernel 14 25) = Some (Switched True st') \<and> current_pcb st' = Some 6 \<and>
     pstate (ptable st' 3) = PROC_STATE_BLOCKED \<and> wakeup (ptable st' 3) = 125"
  using sleep_blocks_caller [OF call_kernel_inv, of 14 25 3 plain_ops]
  by (auto simp: call_lists_def SYS_sleep_def)

lemma call_collectable: "find (collectable 3 (call_kernel 1 0)) [0..<N_PROCS] = Some 4"
proof -
  have "collectable 3 (call_kernel 1 0) x \<longleftrightarrow> x = 4" for x
    by (auto simp: collectable_def call_kernel_def Let_def zero_pcb_def PCB_ARG1_def)
  then have "collectable 3 (call_kernel 1 0) = (\<lambda>x. x = 4)" by (simp add: fun_eq_iff)
  then show ?thesis by (simp add: N_PROCS_def upt_rec)
qed

theorem waitpid_breaks_queues_witness:
  "\<exists>st'. syscall_handler plain_ops (call_kernel 1 0) = Some (Returned 9 st') \<and> (\<exists>L. \<not> qlinks st' L)"
proof -
  have f: "pcb_freelist (call_kernel 1 0) = \<lparr>head = Some 5, tail = Some 5, order = O_PCB_FIFO\<rparr>"
    "pnext (ptable (call_kernel 1 0) x) = None" "memctx (ptable (call_kernel 1 0) 4) = None" "pid (ptable (call_kernel 1 0) 4) = 9" for x
    by (simp_all add: call_kernel_def Let_def zero_pcb_def)
  have "\<exists>st'. sys_waitpid plain_ops 3 (entered 3 (call_kernel 1 0)) = Some (Returned 9 st')"
    unfolding sys_waitpid_alt collectable_entered call_collectable
    by (simp add: plain_ops_def pcb_cleanup_def pcb_free_def kq_insert_def pcb_queue_insert_def set_next_apply upd_pcb_def f SUCCESS_def)
  then have "\<exists>st'. syscall_handler plain_ops (call_kernel 1 0) = Some (Returned 9 st')"
    by (subst syscall_handler_runs [of _ 3 1]) (auto simp: N_SYSCALLS_def syscall_tbl_def finish_def Let_def)
  then obtain st' where st': "syscall_handler plain_ops (call_kernel 1 0) = Some (Returned 9 st')" by blast
  from waitpid_breaks_queues [OF call_kernel_inv _ _ call_collectable this] show ?thesis
    using st' by (auto simp: SYS_waitpid_def)
qed

theorem kill_spares_strangers_witness:
  "\<exists>st'. syscall_handler plain_ops (call_kernel 13 1) = Some (Returned 1 st') \<and> reg_rax (regs (ptable st' 3)) = 1"
proof -
  let ?st = "call_kernel 13 1"
  have "pid (ptable ?st x) = 1 \<and> pstate (ptable ?st x) \<noteq> PROC_STATE_UNUSED \<longleftrightarrow> x = 2" for x
    by (auto simp: call_kernel_def Let_def zero_pcb_def)
  then have "pcb_find_pid 1 ?st = Some 2" by (simp add: pcb_find_pid_def N_PROCS_def upt_rec)
  moreover have "chain (\<lambda>x. parent (ptable ?st x)) (Some 2) [2]" "pid (ptable ?st 2) = 1"
    by (simp_all add: call_kernel_def Let_def zero_pcb_def)
  ultimately show ?thesis
    using kill_spares_strangers [OF call_kernel_inv, of 13 1 3 2 "[2]" plain_ops] by auto
qed


theorem sbrk_grows_heap_witness:
  "\<exists>st'. syscall_handler plain_ops (call_kernel 16 5000) = Some (Returned 0 st') \<and> reg_rax (regs (ptable st' 3)) = 0x10000 \<and>
     unat (heap_len (ptable st' 3)) = 8192"
  using sbrk_grows_heap [OF call_kernel_inv, of 16 5000 3 5000 0 plain_ops "0x10000" "()"]
  by (auto simp: plain_ops_def)

theorem exec_replaces_or_restores_witness:
  "\<exists>st'. syscall_handler (plain_ops\<lparr>op_root_fs := \<lambda>_. None\<rparr>) (call_kernel 3 0) = Some (Returned 1 st') \<and>
     proc_inv {} st' call_lists \<and> reg_rax (regs (ptable st' 3)) = 1"
proof -
  let ?ops = "plain_ops\<lparr>op_root_fs := \<lambda>_. None\<rparr>"
  have "\<exists>st'. syscall_handler ?ops (call_kernel 3 0) = Some (Returned 1 st')"
    by (subst syscall_handler_runs [of _ 3 3])
      (simp_all add: N_SYSCALLS_def syscall_tbl_def sys_exec_def read_filename_def N_FILE_NAME_def plain_ops_def finish_def Let_def)
  then obtain st' where st': "syscall_handler ?ops (call_kernel 3 0) = Some (Returned 1 st')" by blast
  from exec_replaces_or_restores [OF call_kernel_inv _ _ this] show ?thesis
    using st' by auto
qed

end
