(* ===== verification/Fs.thy ===== *)
theory Fs
  imports Prelude
begin

text \<open>
  Disks and file systems of \<^verbatim>\<open>kernel/fs/fs.c\<close>: reading and writing a RAM disk or an ATA disk
  through its sector buffer, the table of disks, and the search for the root file system. A read
  returns the C result (a 32-bit int) with the bytes it stores in the buffer of its caller; a result
  \<open>None\<close> is a failed assertion or an access outside a buffer.

  The ATA driver and the heap are an argument \<open>ops\<close>, acting on the component \<open>dev\<close> of the state.
  A disk and a file system are named by their index in the static tables.
\<close>

section \<open>State\<close>

definition N_DISKS :: nat where "N_DISKS = 8"
definition ATA_SECT_SIZE :: u64 where "ATA_SECT_SIZE = 512"

datatype disk_type = DISK_TYPE_ATA | DISK_TYPE_RAMDISK

record disk =
  d_present :: bool
  d_id :: nat
  d_type :: disk_type
  rd_data :: "u8 list"
  d_ide :: u8

text \<open>The functions \<^verbatim>\<open>open\<close> and \<^verbatim>\<open>stat\<close> of a mounted file system; there is one driver.\<close>

datatype fs_driver = TarDriver

record file_system =
  fs_present :: bool
  fs_id :: nat
  fs_disk :: "nat option"
  fs_name :: string
  fs_vtable :: "fs_driver option"

definition zero_disk :: disk where
  "zero_disk = \<lparr>d_present = False, d_id = 0, d_type = DISK_TYPE_ATA, rd_data = [], d_ide = 0\<rparr>"

definition zero_fs :: file_system where
  "zero_fs = \<lparr>fs_present = False, fs_id = 0, fs_disk = None, fs_name = [], fs_vtable = None\<rparr>"

text \<open>The heap and the ATA driver: growing a buffer (\<^verbatim>\<open>krealloc\<close>), a fresh object, freeing one,
  reading sectors into the start of a buffer and writing them from it.\<close>

record 'm dev_ops =
  dev_grow :: "u8 list option \<Rightarrow> u64 \<Rightarrow> 'm \<Rightarrow> u8 list option \<times> 'm"
  dev_alloc :: "u64 \<Rightarrow> 'm \<Rightarrow> u64 \<times> 'm"
  dev_free :: "u64 \<Rightarrow> 'm \<Rightarrow> 'm"
  dev_ide_read :: "u8 \<Rightarrow> u16 \<Rightarrow> u32 \<Rightarrow> 'm \<Rightarrow> u32 \<times> u8 list \<times> 'm"
  dev_ide_write :: "u8 \<Rightarrow> u16 \<Rightarrow> u32 \<Rightarrow> u8 list \<Rightarrow> 'm \<Rightarrow> u32 \<times> 'm"

text \<open>Each of the two ATA functions has a static buffer of its own and its length.\<close>

record 'm fs_state =
  fs_disks :: "nat \<Rightarrow> disk"
  fs_loaded_file_systems :: "nat \<Rightarrow> file_system"
  rd_atabuf :: "u8 list option"
  rd_atabuf_len :: u64
  wr_atabuf :: "u8 list option"
  wr_atabuf_len :: u64
  dev :: 'm

definition put_at :: "nat \<Rightarrow> u8 list \<Rightarrow> u8 list \<Rightarrow> u8 list" where
  "put_at off bs buf = take off buf @ bs @ drop (off + length bs) buf"

section \<open>Reading\<close>

definition disk_read_rd :: "disk \<Rightarrow> u64 \<Rightarrow> u64 \<Rightarrow> u32 \<times> u8 list" where
  "disk_read_rd disk offset len =
     (let rd_len = of_nat (length (rd_data disk))
      in if offset \<ge> rd_len then (of_int (- E_BAD_PARAM), [])
         else
           let len = (if rd_len - offset < len then rd_len - offset else len)
           in (ucast len, take (unat len) (drop (unat offset) (rd_data disk))))"

definition disk_read_ata ::
  "('m, 'b) dev_ops_scheme \<Rightarrow> disk \<Rightarrow> u64 \<Rightarrow> u64 \<Rightarrow> ('m, 'a) fs_state_scheme \<Rightarrow> (u32 \<times> u8 list \<times> ('m, 'a) fs_state_scheme) option" where
  "disk_read_ata ops disk offset len st =
     (let err = (ucast (offset mod ATA_SECT_SIZE) :: u32);
          numsects = (ucast ((len + ucast err + ATA_SECT_SIZE - 1) div ATA_SECT_SIZE) :: u32);
          bytes = (ucast (numsects * ucast ATA_SECT_SIZE) :: u64);
          (ok, st) = (if rd_atabuf st = None \<or> rd_atabuf_len st < bytes
                      then let (buf, m) = dev_grow ops (rd_atabuf st) bytes (dev st)
                           in if buf = None then (False, st\<lparr>rd_atabuf := None, dev := m\<rparr>)
                              else (True, st\<lparr>rd_atabuf := buf, rd_atabuf_len := bytes, dev := m\<rparr>)
                      else (True, st))
      in if \<not> ok then Some (of_int (- E_NO_MEMORY), [], st)
         else
           let (ret, bs, m) = dev_ide_read ops (d_ide disk) (ucast numsects) (ucast (offset div ATA_SECT_SIZE)) (dev st);
               buf = put_at 0 bs (the (rd_atabuf st));
               st = st\<lparr>rd_atabuf := Some buf, dev := m\<rparr>
           in if ret \<noteq> 0 then Some (ret, [], st)
              else if length buf < unat err + unat len then None
              else Some (ucast len, take (unat len) (drop (unat err) buf), st))"

definition disk_read ::
  "('m, 'b) dev_ops_scheme \<Rightarrow> nat \<Rightarrow> u64 \<Rightarrow> u64 \<Rightarrow> ('m, 'a) fs_state_scheme \<Rightarrow> (u32 \<times> u8 list \<times> ('m, 'a) fs_state_scheme) option" where
  "disk_read ops i offset len st =
     (case d_type (fs_disks st i) of
        DISK_TYPE_RAMDISK \<Rightarrow> (let (r, bs) = disk_read_rd (fs_disks st i) offset len in Some (r, bs, st))
      | DISK_TYPE_ATA \<Rightarrow> disk_read_ata ops (fs_disks st i) offset len st)"

section \<open>Writing\<close>

text \<open>The caller's buffer holds at least \<open>len\<close> bytes; what it holds behind them is not looked at.\<close>

definition disk_write_rd :: "nat \<Rightarrow> u64 \<Rightarrow> u64 \<Rightarrow> u8 list \<Rightarrow> ('m, 'a) fs_state_scheme \<Rightarrow> (u32 \<times> ('m, 'a) fs_state_scheme) option" where
  "disk_write_rd i offset len buffer st =
     (let d = fs_disks st i;
          rd_len = of_nat (length (rd_data d))
      in if offset \<ge> rd_len then Some (of_int (- E_BAD_PARAM), st)
         else
           let len = (if rd_len - offset < len then rd_len - offset else len)
           in if length buffer < unat len then None
              else Some (ucast len, st\<lparr>fs_disks := (fs_disks st)(i := d\<lparr>rd_data := put_at (unat offset) (take (unat len) buffer) (rd_data d)\<rparr>)\<rparr>))"

definition disk_write_ata ::
  "('m, 'b) dev_ops_scheme \<Rightarrow> disk \<Rightarrow> u64 \<Rightarrow> u64 \<Rightarrow> u8 list \<Rightarrow> ('m, 'a) fs_state_scheme \<Rightarrow> (u32 \<times> ('m, 'a) fs_state_scheme) option" where
  "disk_write_ata ops disk offset len buffer st =
     (let numsects = (ucast ((len + ATA_SECT_SIZE - 1) div ATA_SECT_SIZE) :: u32);
          err = (ucast (offset mod ATA_SECT_SIZE) :: u32);
          bytes = (ucast (numsects * ucast ATA_SECT_SIZE) :: u64);
          (ok, st) = (if wr_atabuf st = None \<or> wr_atabuf_len st < bytes
                      then let (buf, m) = dev_grow ops (wr_atabuf st) bytes (dev st)
                           in if buf = None then (False, st\<lparr>wr_atabuf := None, dev := m\<rparr>)
                              else (True, st\<lparr>wr_atabuf := buf, wr_atabuf_len := bytes, dev := m\<rparr>)
                      else (True, st))
      in if \<not> ok then Some (of_int (- E_NO_MEMORY), st)
         else
           let (ret, bs, m) = dev_ide_read ops (d_ide disk) (ucast numsects) (ucast (offset div ATA_SECT_SIZE)) (dev st);
               buf = put_at 0 bs (the (wr_atabuf st));
               st = st\<lparr>wr_atabuf := Some buf, dev := m\<rparr>
           in if ret \<noteq> 0 then Some (ret, st)
              else if length buf < unat err + unat len \<or> length buffer < unat len then None
              else
                let buf = put_at (unat err) (take (unat len) buffer) buf;
                    st = st\<lparr>wr_atabuf := Some buf\<rparr>;
                    (ret, m) = dev_ide_write ops (d_ide disk) (ucast numsects) (ucast (offset div ATA_SECT_SIZE)) buf (dev st);
                    st = st\<lparr>dev := m\<rparr>
                in if ret \<noteq> 0 then Some (ret, st) else Some (ucast len, st))"

definition disk_write ::
  "('m, 'b) dev_ops_scheme \<Rightarrow> nat \<Rightarrow> u64 \<Rightarrow> u64 \<Rightarrow> u8 list \<Rightarrow> ('m, 'a) fs_state_scheme \<Rightarrow> (u32 \<times> ('m, 'a) fs_state_scheme) option" where
  "disk_write ops i offset len buffer st =
     (case d_type (fs_disks st i) of
        DISK_TYPE_RAMDISK \<Rightarrow> disk_write_rd i offset len buffer st
      | DISK_TYPE_ATA \<Rightarrow> disk_write_ata ops (fs_disks st i) offset len buffer st)"

section \<open>The tables\<close>

definition add_disk :: "disk \<Rightarrow> nat \<Rightarrow> (nat \<Rightarrow> disk) \<Rightarrow> (nat \<times> (nat \<Rightarrow> disk)) option" where
  "add_disk d idx disks = (if \<not> idx < N_DISKS then None else Some (idx + 1, disks(idx := d)))"

fun load_ide :: "u8 list \<Rightarrow> nat \<Rightarrow> (nat \<Rightarrow> disk) \<Rightarrow> (nat \<times> (nat \<Rightarrow> disk)) option" where
  "load_ide [] idx disks = Some (idx, disks)"
| "load_ide (dv # dvs) idx disks = do {
     (idx, disks) \<leftarrow> add_disk (zero_disk\<lparr>d_present := True, d_id := idx, d_type := DISK_TYPE_ATA, d_ide := dv\<rparr>) idx disks;
     load_ide dvs idx disks
   }"

text \<open>\<open>rd\<close> is what the boot loader handed over as initial RAM disk, \<open>ide\<close> the devices found.\<close>

definition load_disks :: "u8 list option \<Rightarrow> u8 list \<Rightarrow> (nat \<Rightarrow> disk) \<Rightarrow> (nat \<Rightarrow> disk) option" where
  "load_disks rd ide disks = do {
     (idx, disks) \<leftarrow> (case rd of
        None \<Rightarrow> Some (0, disks)
      | Some bytes \<Rightarrow> add_disk (zero_disk\<lparr>d_present := True, d_id := 0, d_type := DISK_TYPE_RAMDISK, rd_data := bytes\<rparr>) 0 disks);
     (idx, disks) \<leftarrow> load_ide ide idx disks;
     Some disks
   }"

text \<open>\<open>mount i\<close> is the mount function of the one driver, on the file system \<open>i\<close>.\<close>

definition load_fs ::
  "(nat \<Rightarrow> ('m, 'a) fs_state_scheme \<Rightarrow> (int \<times> ('m, 'a) fs_state_scheme) option) \<Rightarrow> nat \<Rightarrow> ('m, 'a) fs_state_scheme \<Rightarrow> ('m, 'a) fs_state_scheme option" where
  "load_fs mount d st =
     (let i = d_id (fs_disks st d);
          st = st\<lparr>fs_loaded_file_systems := (fs_loaded_file_systems st)
                 (i := (fs_loaded_file_systems st i)\<lparr>fs_disk := Some d, fs_id := i, fs_present := True\<rparr>)\<rparr>
      in do {
        (r, st) \<leftarrow> mount i st;
        (if r = SUCCESS then Some st
         else Some (st\<lparr>fs_loaded_file_systems := (fs_loaded_file_systems st)
                 (i := (fs_loaded_file_systems st i)\<lparr>fs_present := False\<rparr>)\<rparr>))
      })"

fun load_all ::
  "(nat \<Rightarrow> ('m, 'a) fs_state_scheme \<Rightarrow> (int \<times> ('m, 'a) fs_state_scheme) option) \<Rightarrow> nat \<Rightarrow> nat \<Rightarrow> ('m, 'a) fs_state_scheme \<Rightarrow> ('m, 'a) fs_state_scheme option" where
  "load_all mount i 0 st = Some st"
| "load_all mount i (Suc n) st = do {
     st \<leftarrow> (if d_present (fs_disks st i) then load_fs mount i st else Some st);
     load_all mount (Suc i) n st
   }"

definition fs_init ::
  "(nat \<Rightarrow> ('m, 'a) fs_state_scheme \<Rightarrow> (int \<times> ('m, 'a) fs_state_scheme) option) \<Rightarrow> u8 list option \<Rightarrow> u8 list \<Rightarrow> ('m, 'a) fs_state_scheme \<Rightarrow> ('m, 'a) fs_state_scheme option" where
  "fs_init mount rd ide st = do {
     disks \<leftarrow> load_disks rd ide (\<lambda>_. zero_disk);
     load_all mount 0 N_DISKS (st\<lparr>fs_disks := disks, fs_loaded_file_systems := \<lambda>_. zero_fs\<rparr>)
   }"

definition fs_get_root_disk :: "('m, 'a) fs_state_scheme \<Rightarrow> nat option" where
  "fs_get_root_disk st = find (\<lambda>i. d_present (fs_disks st i)) [0..<N_DISKS]"

definition fs_get_root_file_system :: "('m, 'a) fs_state_scheme \<Rightarrow> nat option" where
  "fs_get_root_file_system st = find (\<lambda>i. fs_present (fs_loaded_file_systems st i)) [0..<N_DISKS]"

section \<open>The RAM disk as a sequence of bytes\<close>

text \<open>A read inside the disk, as the caller sees it.\<close>

lemma disk_read_rd_inside:
  assumes "length (rd_data d) < 2 ^ 31" "off + n \<le> length (rd_data d)" "0 < n"
  shows "disk_read_rd d (of_nat off) (of_nat n) = (of_nat n, take n (drop off (rd_data d)))"
proof -
  let ?l = "of_nat (length (rd_data d)) :: u64"
  have u: "unat ?l = length (rd_data d)" "unat (of_nat off :: u64) = off" "unat (of_nat n :: u64) = n"
    using assms by (simp_all add: unat_of_nat64)
  have "unat (?l - of_nat off) = length (rd_data d) - off"
    using assms u by (simp add: unat_sub_if')
  then have "\<not> ?l \<le> of_nat off" "\<not> ?l - of_nat off < of_nat n"
    using assms u by (simp_all add: word_le_nat_alt word_less_nat_alt)
  moreover have "(ucast (of_nat n :: u64) :: u32) = of_nat n"
    by (simp add: ucast_eq uint_nat u)
  ultimately show ?thesis by (simp add: disk_read_rd_def u)
qed

lemma disk_read_ramdisk:
  assumes "d_type (fs_disks st i) = DISK_TYPE_RAMDISK" "length (rd_data (fs_disks st i)) < 2 ^ 31"
    "off + n \<le> length (rd_data (fs_disks st i))" "0 < n"
  shows "disk_read ops i (of_nat off) (of_nat n) st = Some (of_nat n, take n (drop off (rd_data (fs_disks st i))), st)"
  using disk_read_rd_inside [OF assms(2-4)] assms(1) by (simp add: disk_read_def)

lemma length_put_at: "off + length bs \<le> length buf \<Longrightarrow> length (put_at off bs buf) = length buf"
  by (simp add: put_at_def)

lemma take_drop_put_at: "off + length bs \<le> length buf \<Longrightarrow> take (length bs) (drop off (put_at off bs buf)) = bs"
  by (simp add: put_at_def)

section \<open>Properties\<close>

text \<open>What is written to a RAM disk is read back from it, at every place and length inside the disk;
  the disk keeps its size and its other bytes, and no other disk changes.\<close>

theorem ramdisk_read_after_write:
  assumes "d_type (fs_disks st i) = DISK_TYPE_RAMDISK" "length (rd_data (fs_disks st i)) < 2 ^ 31"
    "off + length bs \<le> length (rd_data (fs_disks st i))" "bs \<noteq> []"
  shows "\<exists>st'. disk_write ops i (of_nat off) (of_nat (length bs)) bs st = Some (of_nat (length bs), st') \<and>
    disk_read ops i (of_nat off) (of_nat (length bs)) st' = Some (of_nat (length bs), bs, st') \<and>
    length (rd_data (fs_disks st' i)) = length (rd_data (fs_disks st i)) \<and>
    take off (rd_data (fs_disks st' i)) = take off (rd_data (fs_disks st i)) \<and>
    drop (off + length bs) (rd_data (fs_disks st' i)) = drop (off + length bs) (rd_data (fs_disks st i)) \<and>
    (\<forall>j. j \<noteq> i \<longrightarrow> fs_disks st' j = fs_disks st j)"
proof -
  let ?d = "fs_disks st i"
  let ?data = "put_at off bs (rd_data ?d)"
  let ?st = "st\<lparr>fs_disks := (fs_disks st)(i := ?d\<lparr>rd_data := ?data\<rparr>)\<rparr>"
  let ?l = "of_nat (length (rd_data ?d)) :: u64"
  have n: "0 < length bs" using assms(4) by simp
  have u: "unat ?l = length (rd_data ?d)" "unat (of_nat off :: u64) = off" "unat (of_nat (length bs) :: u64) = length bs"
    using assms by (simp_all add: unat_of_nat64)
  have "unat (?l - of_nat off) = length (rd_data ?d) - off" using assms u by (simp add: unat_sub_if')
  moreover have "off < length (rd_data ?d)" using assms(3) n by linarith
  ultimately have c: "\<not> ?l \<le> of_nat off" "\<not> ?l - of_nat off < of_nat (length bs)"
    using assms u by (simp_all add: word_le_nat_alt word_less_nat_alt)
  have "(ucast (of_nat (length bs) :: u64) :: u32) = of_nat (length bs)" by (simp add: ucast_eq uint_nat u)
  then have w: "disk_write ops i (of_nat off) (of_nat (length bs)) bs st = Some (of_nat (length bs), ?st)"
    using c by (simp add: disk_write_def disk_write_rd_def assms(1) u Let_def)
  have len: "length ?data = length (rd_data ?d)" by (rule length_put_at [OF assms(3)])
  have "disk_read ops i (of_nat off) (of_nat (length bs)) ?st =
    Some (of_nat (length bs), take (length bs) (drop off (rd_data (fs_disks ?st i))), ?st)"
    by (rule disk_read_ramdisk) (use assms n len in simp_all)
  then have r: "disk_read ops i (of_nat off) (of_nat (length bs)) ?st = Some (of_nat (length bs), bs, ?st)"
    by (simp add: take_drop_put_at [OF assms(3)])
  have t: "take off ?data = take off (rd_data ?d)" "drop (off + length bs) ?data = drop (off + length bs) (rd_data ?d)"
    using assms(3) by (simp_all add: put_at_def)
  show ?thesis
    by (rule exI [of _ ?st]) (use w r len t in simp)
qed

definition no_dev :: "unit dev_ops" where
  "no_dev = \<lparr>dev_grow = \<lambda>_ n m. (Some (replicate (unat n) 0), m), dev_alloc = \<lambda>_ m. (0x1000, m), dev_free = \<lambda>_ m. m,
     dev_ide_read = \<lambda>_ n _ m. (0, replicate (512 * unat n) 0, m), dev_ide_write = \<lambda>_ _ _ _ m. (0, m)\<rparr>"

definition one_disk :: "disk \<Rightarrow> unit fs_state" where
  "one_disk d = \<lparr>fs_disks = (\<lambda>_. zero_disk)(0 := d), fs_loaded_file_systems = \<lambda>_. zero_fs, rd_atabuf = None,
     rd_atabuf_len = 0, wr_atabuf = None, wr_atabuf_len = 0, dev = ()\<rparr>"

theorem ramdisk_read_after_write_witness:
  "\<exists>st'. disk_write no_dev 0 1 2 [7, 8] (one_disk (zero_disk\<lparr>d_type := DISK_TYPE_RAMDISK, rd_data := [1, 2, 3, 4]\<rparr>)) = Some (2, st') \<and>
     disk_read no_dev 0 1 2 st' = Some (2, [7, 8], st')"
  using ramdisk_read_after_write [of "one_disk (zero_disk\<lparr>d_type := DISK_TYPE_RAMDISK, rd_data := [1, 2, 3, 4]\<rparr>)" 0 1 "[7, 8]" no_dev]
  by (auto simp: one_disk_def)

text \<open>Reading at or behind the end of a RAM disk reports a success of two bytes: the error code is
  negative already, and the code negates it.\<close>

theorem ramdisk_read_past_end:
  assumes "d_type (fs_disks st i) = DISK_TYPE_RAMDISK" "of_nat (length (rd_data (fs_disks st i))) \<le> off"
  shows "disk_read ops i off len st = Some (2, [], st)"
  using assms by (simp add: disk_read_def disk_read_rd_def E_BAD_PARAM_def)

text \<open>Writing two bytes across the end of a sector leaves the sector buffer: the number of sectors is
  taken from the length alone.\<close>

theorem ata_write_overruns: "disk_write_ata no_dev (zero_disk\<lparr>d_ide := 1\<rparr>) 511 2 [1, 2] (one_disk zero_disk) = None"
  by (simp add: disk_write_ata_def no_dev_def one_disk_def ATA_SECT_SIZE_def put_at_def)

end
