(* ===== verification/Klib.thy ===== *)
theory Klib
  imports Prelude "HOL-Library.Char_ord"
begin

text \<open>
  The library functions of \<^verbatim>\<open>kernel/lib\<close>: byte memory (\<^verbatim>\<open>memcpy\<close>, \<^verbatim>\<open>memmove\<close>,
  \<^verbatim>\<open>memset\<close>, \<^verbatim>\<open>memcmp\<close>), strings (\<^verbatim>\<open>strlen\<close>, \<^verbatim>\<open>strcpy\<close>, \<^verbatim>\<open>strncpy\<close>,
  \<^verbatim>\<open>strncmp\<close> and their variants) and the conversions between numbers and text.

  The memory functions work on a store from 64-bit addresses to bytes; a loop that only a zero byte
  ends may run forever, and is an option. The conversions read a C string as the list of its
  characters before the terminator (reading at the end gives the null character) and write one as
  the list of characters before the terminator; positions are offsets in the list.
\<close>

section \<open>Bytes in memory\<close>

type_synonym bytes = "u64 \<Rightarrow> u8"

definition get_bytes :: "bytes \<Rightarrow> u64 \<Rightarrow> nat \<Rightarrow> u8 list" where
  "get_bytes m a n = map (\<lambda>i. m (a + of_nat i)) [0..<n]"

definition put_bytes :: "u64 \<Rightarrow> u8 list \<Rightarrow> bytes \<Rightarrow> bytes" where
  "put_bytes a bs m = (\<lambda>x. if unat (x - a) < length bs then bs ! unat (x - a) else m x)"

fun memcpy :: "u64 \<Rightarrow> u64 \<Rightarrow> nat \<Rightarrow> bytes \<Rightarrow> bytes" where
  "memcpy d s 0 m = m"
| "memcpy d s (Suc n) m = memcpy (d + 1) (s + 1) n (m(d := m s))"

text \<open>\<^verbatim>\<open>while (n) n--, d[n] = s[n];\<close>\<close>

fun memmove_down :: "u64 \<Rightarrow> u64 \<Rightarrow> nat \<Rightarrow> bytes \<Rightarrow> bytes" where
  "memmove_down d s 0 m = m"
| "memmove_down d s (Suc n) m = memmove_down d s n (m(d + of_nat n := m (s + of_nat n)))"

definition memmove :: "u64 \<Rightarrow> u64 \<Rightarrow> nat \<Rightarrow> bytes \<Rightarrow> bytes" where
  "memmove d s n m =
     (if d = s then m else if d < s then memcpy d s n m else memmove_down d s n m)"

fun memset :: "u64 \<Rightarrow> u8 \<Rightarrow> nat \<Rightarrow> bytes \<Rightarrow> bytes" where
  "memset d c 0 m = m"
| "memset d c (Suc n) m = memset (d + 1) c n (m(d := c))"

fun memcmp :: "u64 \<Rightarrow> u64 \<Rightarrow> nat \<Rightarrow> bytes \<Rightarrow> int" where
  "memcmp l r 0 m = 0"
| "memcmp l r (Suc n) m =
     (if m l = m r then memcmp (l + 1) (r + 1) n m else uint (m l) - uint (m r))"

text \<open>The variants on volatile memory run the same loops.\<close>

definition memcpyv :: "u64 \<Rightarrow> u64 \<Rightarrow> nat \<Rightarrow> bytes \<Rightarrow> bytes" where "memcpyv = memcpy"
definition memmovev :: "u64 \<Rightarrow> u64 \<Rightarrow> nat \<Rightarrow> bytes \<Rightarrow> bytes" where "memmovev = memmove"
definition memsetv :: "u64 \<Rightarrow> u8 \<Rightarrow> nat \<Rightarrow> bytes \<Rightarrow> bytes" where "memsetv = memset"

partial_function (option) strlen_loop :: "u64 \<Rightarrow> bytes \<Rightarrow> u64 option" where
  "strlen_loop p m = (if m p \<noteq> 0 then strlen_loop (p + 1) m else Some p)"

definition strlen :: "u64 \<Rightarrow> bytes \<Rightarrow> u64 option" where
  "strlen str m = map_option (\<lambda>p. p - str) (strlen_loop str m)"

text \<open>\<^verbatim>\<open>for (; (*d = *src); d++, src++);\<close>, ending with the address of the terminator written.\<close>

partial_function (option) stpcpy :: "u64 \<Rightarrow> u64 \<Rightarrow> bytes \<Rightarrow> (u64 \<times> bytes) option" where
  "stpcpy d s m = (if m s \<noteq> 0 then stpcpy (d + 1) (s + 1) (m(d := m s)) else Some (d, m(d := 0)))"

definition strcpy :: "u64 \<Rightarrow> u64 \<Rightarrow> bytes \<Rightarrow> (u64 \<times> bytes) option" where
  "strcpy dest s m = map_option (\<lambda>(d, m'). (dest, m')) (stpcpy dest s m)"

definition strcat :: "u64 \<Rightarrow> u64 \<Rightarrow> bytes \<Rightarrow> (u64 \<times> bytes) option" where
  "strcat dest s m =
     (case strlen dest m of
        None \<Rightarrow> None
      | Some k \<Rightarrow> map_option (\<lambda>(_, m'). (dest, m')) (strcpy (dest + k) s m))"

text \<open>\<^verbatim>\<open>for (; (*d = *src) && n; d++, src++, n--);\<close>: the assignment comes before the test of \<open>n\<close>.\<close>

fun stpncpy_loop :: "u64 \<Rightarrow> u64 \<Rightarrow> nat \<Rightarrow> bytes \<Rightarrow> u64 \<times> nat \<times> bytes" where
  "stpncpy_loop d s 0 m = (d, 0, m(d := m s))"
| "stpncpy_loop d s (Suc n) m =
     (if m s \<noteq> 0 then stpncpy_loop (d + 1) (s + 1) n (m(d := m s)) else (d, Suc n, m(d := 0)))"

definition stpncpy :: "u64 \<Rightarrow> u64 \<Rightarrow> nat \<Rightarrow> bytes \<Rightarrow> u64 \<times> bytes" where
  "stpncpy dest s n m = (let (d, k, m') = stpncpy_loop dest s n m in (d, memset d 0 k m'))"

definition strncpy :: "u64 \<Rightarrow> u64 \<Rightarrow> nat \<Rightarrow> bytes \<Rightarrow> u64 \<times> bytes" where
  "strncpy dest s n m = (let (d, k, m') = stpncpy_loop dest s n m in (dest, memset d 0 k m'))"

fun strncmp_loop :: "u64 \<Rightarrow> u64 \<Rightarrow> nat \<Rightarrow> bytes \<Rightarrow> int" where
  "strncmp_loop l r 0 m = uint (m l) - uint (m r)"
| "strncmp_loop l r (Suc n) m =
     (if m l \<noteq> 0 \<and> m r \<noteq> 0 \<and> m l = m r then strncmp_loop (l + 1) (r + 1) n m
      else uint (m l) - uint (m r))"

definition strncmp :: "u64 \<Rightarrow> u64 \<Rightarrow> nat \<Rightarrow> bytes \<Rightarrow> int" where
  "strncmp l r n m = (if n = 0 then 0 else strncmp_loop l r (n - 1) m)"

section \<open>Characters\<close>

abbreviation code :: "char \<Rightarrow> int" where "code c \<equiv> of_char c"

text \<open>\<^verbatim>\<open>*s\<close> at the start of the rest of a string.\<close>

definition deref :: "string \<Rightarrow> char" where
  "deref s = (case s of [] \<Rightarrow> CHR 0x00 | c # _ \<Rightarrow> c)"

definition isdigit :: "char \<Rightarrow> bool" where
  "isdigit c \<longleftrightarrow> code c \<ge> 48 \<and> code c \<le> 57"

definition isspace :: "char \<Rightarrow> bool" where
  "isspace c \<longleftrightarrow> code c \<in> {32, 9, 11, 12, 13, 10}"

definition isprint :: "int \<Rightarrow> bool" where
  "isprint c \<longleftrightarrow> (c - 0x20) mod 2 ^ 32 \<le> 0x7e - 0x20"

definition ctoi :: "char \<Rightarrow> int" where
  "ctoi c =
     (if code c \<ge> 48 \<and> code c \<le> 57 then code c - 48
      else if code c \<ge> 65 \<and> code c \<le> 90 then code c - 65 + 10
      else if code c \<ge> 97 \<and> code c \<le> 122 then code c - 97 + 10
      else -1)"

definition itoc :: "int \<Rightarrow> char" where
  "itoc i = (if i < 10 then char_of (48 + i) else char_of (97 + (i - 10)))"

definition bound :: "u32 \<Rightarrow> u32 \<Rightarrow> u32 \<Rightarrow> u32" where
  "bound mn v mx =
     (let v = (if v < mn then mn else v) in if v > mx then mx else v)"

section \<open>Parsing numbers\<close>

fun atox_digits :: "'a::len word \<Rightarrow> string \<Rightarrow> 'a word" where
  "atox_digits num [] = num"
| "atox_digits num (c # s) =
     (if isdigit c then atox_digits (num * 10 + of_int (code c - 48)) s else num)"

text \<open>The macro \<^verbatim>\<open>ATOX\<close>; its three instances differ in the width of the number.\<close>

definition atox :: "string \<Rightarrow> 'a::len word" where
  "atox s =
     (let s = dropWhile isspace s;
          neg = deref s = CHR ''-'';
          s = (if deref s = CHR ''-'' \<or> deref s = CHR ''+'' then tl s else s);
          s = dropWhile (\<lambda>c. c = CHR ''0'') s
      in atox_digits 0 s * (if neg then -1 else 1))"

definition atoi :: "string \<Rightarrow> u32" where "atoi = atox"
definition atol :: "string \<Rightarrow> u64" where "atol = atox"
definition atoll :: "string \<Rightarrow> u64" where "atoll = atox"

text \<open>The digit loop of \<^verbatim>\<open>STRTOUX\<close> and \<^verbatim>\<open>STRTOX\<close>: the number, how many digits it read.\<close>

fun strto_digits :: "int \<Rightarrow> 'a::len word \<Rightarrow> string \<Rightarrow> 'a word \<times> nat" where
  "strto_digits radix num [] = (num, 0)"
| "strto_digits radix num (c # s) =
     (let n = ctoi c
      in if n < 0 \<or> n \<ge> radix then (num, 0)
         else let (r, k) = strto_digits radix (num * of_int radix + of_int n) s in (r, Suc k))"

text \<open>The prefix: the radix to use and how many characters it takes.\<close>

definition strto_prefix :: "int \<Rightarrow> string \<Rightarrow> int \<times> nat" where
  "strto_prefix radix s =
     (if (radix = 0 \<or> radix = 16) \<and> deref s = CHR ''0'' \<and>
         (deref (tl s) = CHR ''x'' \<or> deref (tl s) = CHR ''X'') then (16, 2)
      else if radix = 0 then (if deref s = CHR ''0'' then (8, 1) else (10, 0))
      else (radix, 0))"

text \<open>The result and the offset of \<^verbatim>\<open>*endptr\<close>.\<close>

definition strtoux :: "string \<Rightarrow> int \<Rightarrow> 'a::len word \<times> nat" where
  "strtoux s radix =
     (let sp = length (takeWhile isspace s);
          (radix, pre) = strto_prefix radix (drop sp s);
          (num, k) = strto_digits radix 0 (drop (sp + pre) s)
      in (num, if k > 0 then sp + pre + k else 0))"

definition strtox :: "string \<Rightarrow> int \<Rightarrow> 'a::len word \<times> nat" where
  "strtox s radix =
     (let sp = length (takeWhile isspace s);
          c = deref (drop sp s);
          sg = (if c = CHR ''-'' \<or> c = CHR ''+'' then 1 else 0);
          (radix, pre) = strto_prefix radix (drop (sp + sg) s);
          (num, k) = strto_digits radix 0 (drop (sp + sg + pre) s)
      in (if c = CHR ''-'' then - num else num, if k > 0 then sp + sg + pre + k else 0))"

definition strtoui :: "string \<Rightarrow> int \<Rightarrow> u32 \<times> nat" where "strtoui = strtoux"
definition strtoul :: "string \<Rightarrow> int \<Rightarrow> u64 \<times> nat" where "strtoul = strtoux"
definition strtoull :: "string \<Rightarrow> int \<Rightarrow> u64 \<times> nat" where "strtoull = strtoux"
definition strtoi :: "string \<Rightarrow> int \<Rightarrow> u32 \<times> nat" where "strtoi = strtox"
definition strtol :: "string \<Rightarrow> int \<Rightarrow> u64 \<times> nat" where "strtol = strtox"
definition strtoll :: "string \<Rightarrow> int \<Rightarrow> u64 \<times> nat" where "strtoll = strtox"

section \<open>Printing numbers\<close>

text \<open>Division of C: the quotient is rounded toward zero.\<close>

definition cdiv :: "int \<Rightarrow> int \<Rightarrow> int" where
  "cdiv a b = sgn a * sgn b * (\<bar>a\<bar> div \<bar>b\<bar>)"

definition cmod :: "int \<Rightarrow> int \<Rightarrow> int" where
  "cmod a b = a - cdiv a b * b"

text \<open>\<^verbatim>\<open>for (; n; n /= radix) *buffer++ = itoc(n % radix);\<close>. A radix below 2, with which the loop
  would not end or divide by zero, is passed by no caller and stops it here.\<close>

function digits_loop :: "int \<Rightarrow> int \<Rightarrow> string" where
  "digits_loop radix n =
     (if n = 0 \<or> radix < 2 then [] else itoc (cmod n radix) # digits_loop radix (cdiv n radix))"
  by pat_completeness auto
termination
proof (relation "measure (\<lambda>(radix, n). nat \<bar>n\<bar>)", goal_cases)
  case (2 radix n)
  then have "\<bar>n\<bar> div radix < \<bar>n\<bar>" by (intro int_div_less_self) auto
  moreover have "0 \<le> \<bar>n\<bar> div radix" using 2 by (simp add: pos_imp_zdiv_nonneg_iff)
  ultimately show ?case using 2 by (auto simp: cdiv_def abs_mult)
qed simp

declare digits_loop.simps [simp del]

text \<open>The reversal in place: \<open>i\<close> and \<open>j\<close> are the offsets of \<^verbatim>\<open>start\<close> and \<^verbatim>\<open>buffer\<close>.\<close>

function reverse_loop :: "nat \<Rightarrow> nat \<Rightarrow> string \<Rightarrow> string" where
  "reverse_loop i j s =
     (if i < j then reverse_loop (i + 1) (j - 1) (s[i := s ! j, j := s ! i]) else s)"
  by pat_completeness auto
termination by (relation "measure (\<lambda>(i, j, s). j - i)") auto

declare reverse_loop.simps [simp del]

text \<open>The macro \<^verbatim>\<open>UXTOA\<close>: the text written; the result pointer is its length past the buffer.\<close>

definition uxtoa :: "'a::len word \<Rightarrow> int \<Rightarrow> string option" where
  "uxtoa n radix =
     (if n = 0 then Some ''0''
      else if radix < 2 then None
      else let s = digits_loop radix (uint n) in Some (reverse_loop 0 (length s - 1) s))"

text \<open>The macro \<^verbatim>\<open>XTOA\<close>. Negating the least number of the type leaves it as it is.\<close>

definition xtoa :: "'a::len word \<Rightarrow> int \<Rightarrow> string option" where
  "xtoa n radix =
     (if n = 0 then Some ''0''
      else if radix < 2 then None
      else let neg = sint n < 0;
               n = (if neg then - n else n);
               s = digits_loop radix (sint n)
           in Some ((if neg then ''-'' else []) @ reverse_loop 0 (length s - 1) s))"

definition utoa :: "u32 \<Rightarrow> int \<Rightarrow> string option" where "utoa = uxtoa"
definition ultoa :: "u64 \<Rightarrow> int \<Rightarrow> string option" where "ultoa = uxtoa"
definition ulltoa :: "u64 \<Rightarrow> int \<Rightarrow> string option" where "ulltoa = uxtoa"
definition itoa :: "u32 \<Rightarrow> int \<Rightarrow> string option" where "itoa = xtoa"
definition ltoa :: "u64 \<Rightarrow> int \<Rightarrow> string option" where "ltoa = xtoa"
definition lltoa :: "u64 \<Rightarrow> int \<Rightarrow> string option" where "lltoa = xtoa"

definition suffixes :: string where "suffixes = ''KMGTPEZYRQ''"

text \<open>\<^verbatim>\<open>while (bytes >= 1000) ...\<close>: the remaining number, the last remainder, the power.\<close>

function btoa_loop :: "nat \<Rightarrow> nat \<Rightarrow> nat \<Rightarrow> nat \<times> nat \<times> nat" where
  "btoa_loop b remainder pw =
     (if b \<ge> 1000 then btoa_loop (b div 1024) (b mod 1024 * 10 div 1024) (pw + 1)
      else (b, remainder, pw))"
  by pat_completeness auto
termination by (relation "measure (\<lambda>(b, r, p). b)") auto

declare btoa_loop.simps [simp del]

definition btoa :: "u64 \<Rightarrow> string option" where
  "btoa n =
     (if n < 1024 then ultoa n 10
      else let (b, remainder, pw) = btoa_loop (unat n) 0 0
           in if pw - 1 < length suffixes then do {
                num \<leftarrow> ultoa (of_nat b) 10;
                frac \<leftarrow> (if b \<ge> 10 then Some [] else map_option (\<lambda>r. ''.'' @ r) (ultoa (of_nat remainder) 10));
                Some (num @ frac @ [suffixes ! (pw - 1)])
              } else None)"


section \<open>Copying\<close>

lemma of_nat_inj64: "i < 2 ^ 64 \<Longrightarrow> j < 2 ^ 64 \<Longrightarrow> (of_nat i :: u64) = of_nat j \<longleftrightarrow> i = j"
  by (simp add: word_of_nat_eq_iff take_bit_nat_eq_self)

text \<open>A forward copy is right when no source byte is overwritten before it is read, a backward copy
  when none is overwritten after a lower one is still to be read.\<close>

lemma get_put_same:
  assumes "length bs < 2 ^ 64"
  shows "get_bytes (put_bytes a bs m) a (length bs) = bs"
  using assms by (intro nth_equalityI) (simp_all add: get_bytes_def put_bytes_def unat_of_nat64)

text \<open>Two ranges of addresses without a common byte, neither of which wraps around.\<close>

definition apart_ranges :: "u64 \<Rightarrow> nat \<Rightarrow> u64 \<Rightarrow> nat \<Rightarrow> bool" where
  "apart_ranges a n b k \<longleftrightarrow> unat a + n \<le> 2 ^ 64 \<and> unat b + k \<le> 2 ^ 64 \<and> (unat a + n \<le> unat b \<or> unat b + k \<le> unat a)"

lemma put_bytes_apart:
  assumes "apart_ranges a (length bs) b k" "i < k"
  shows "put_bytes a bs m (b + of_nat i) = m (b + of_nat i)"
proof -
  have b: "unat (b + of_nat i) = unat b + i"
    using assms by (subst unat_add_small) (auto simp: apart_ranges_def unat_of_nat64)
  have "\<not> unat (b + of_nat i - a) < length bs"
  proof (cases "unat a \<le> unat b + i")
    case True
    then have "unat (b + of_nat i - a) = unat b + i - unat a" using b by (simp add: unat_sub word_le_nat_alt)
    then show ?thesis using assms True by (auto simp: apart_ranges_def)
  next
    case False
    then have "unat (b + of_nat i - a) = 2 ^ 64 + (unat b + i) - unat a"
      using b by (simp add: unat_sub_if' word_le_nat_alt)
    then show ?thesis using assms False unat_lt64 [of a] by (auto simp: apart_ranges_def)
  qed
  then show ?thesis by (simp add: put_bytes_def)
qed

lemma get_put_apart: "apart_ranges a (length bs) b k \<Longrightarrow> get_bytes (put_bytes a bs m) b k = get_bytes m b k"
  by (simp add: get_bytes_def put_bytes_apart)

lemma memcpy_spec:
  assumes "n \<le> 2 ^ 64" "\<And>j k. j < k \<Longrightarrow> k < n \<Longrightarrow> s + of_nat k \<noteq> d + of_nat j"
  shows "(\<forall>k<n. memcpy d s n m (d + of_nat k) = m (s + of_nat k)) \<and>
    (\<forall>a. (\<forall>k<n. a \<noteq> d + of_nat k) \<longrightarrow> memcpy d s n m a = m a)"
  using assms
proof (induction n arbitrary: d s m)
  case (Suc n)
  let ?m = "m(d := m s)"
  have sh: "a + 1 + of_nat k = a + of_nat (Suc k)" for a :: u64 and k by simp
  have IH: "(\<forall>k<n. memcpy (d + 1) (s + 1) n ?m ((d + 1) + of_nat k) = ?m ((s + 1) + of_nat k)) \<and>
    (\<forall>a. (\<forall>k<n. a \<noteq> (d + 1) + of_nat k) \<longrightarrow> memcpy (d + 1) (s + 1) n ?m a = ?m a)"
  proof (rule Suc.IH)
    show "s + 1 + of_nat k \<noteq> d + 1 + of_nat j" if "j < k" "k < n" for j k
      unfolding sh using that Suc.prems(2) [of "Suc j" "Suc k"] by simp
  qed (use Suc.prems(1) in simp)
  note IH = IH [unfolded sh]
  have d: "d \<noteq> d + of_nat (Suc k)" if "k < n" for k
    using of_nat_inj64 [of "Suc k" 0] that Suc.prems(1) by simp
  have "memcpy d s (Suc n) m (d + of_nat k) = m (s + of_nat k)" if "k < Suc n" for k
  proof (cases k)
    case 0
    have "memcpy (d + 1) (s + 1) n ?m d = ?m d" using IH d by blast
    then show ?thesis using 0 by simp
  next
    case (Suc k')
    then have "memcpy (d + 1) (s + 1) n ?m (d + of_nat k) = ?m (s + of_nat k)" using IH that by simp
    then show ?thesis using Suc.prems(2) [of 0 k] Suc that by simp
  qed
  moreover have "memcpy d s (Suc n) m a = m a" if a: "\<forall>k<Suc n. a \<noteq> d + of_nat k" for a
  proof -
    have "a \<noteq> d" using a [rule_format, of 0] by simp
    moreover have "a \<noteq> d + of_nat (Suc k)" if "k < n" for k
      using a [rule_format, of "Suc k"] that by blast
    then have "memcpy (d + 1) (s + 1) n ?m a = ?m a" using IH by blast
    ultimately show ?thesis by simp
  qed
  ultimately show ?case by blast
qed simp

lemma memmove_down_spec:
  assumes "n \<le> 2 ^ 64" "\<And>j k. k < j \<Longrightarrow> j < n \<Longrightarrow> s + of_nat k \<noteq> d + of_nat j"
  shows "(\<forall>k<n. memmove_down d s n m (d + of_nat k) = m (s + of_nat k)) \<and>
    (\<forall>a. (\<forall>k<n. a \<noteq> d + of_nat k) \<longrightarrow> memmove_down d s n m a = m a)"
  using assms
proof (induction n arbitrary: m)
  case (Suc n)
  let ?m = "m(d + of_nat n := m (s + of_nat n))"
  have IH: "(\<forall>k<n. memmove_down d s n ?m (d + of_nat k) = ?m (s + of_nat k)) \<and>
    (\<forall>a. (\<forall>k<n. a \<noteq> d + of_nat k) \<longrightarrow> memmove_down d s n ?m a = ?m a)"
    by (rule Suc.IH) (use Suc.prems in auto)
  have top: "d + of_nat n \<noteq> d + of_nat k" if "k < n" for k
    using of_nat_inj64 [of n k] that Suc.prems(1) by simp
  have "memmove_down d s (Suc n) m (d + of_nat k) = m (s + of_nat k)" if "k < Suc n" for k
  proof (cases "k = n")
    case True
    have "memmove_down d s n ?m (d + of_nat n) = ?m (d + of_nat n)" using IH top by blast
    then show ?thesis using True by simp
  next
    case False
    then have k: "k < n" using that by simp
    then show ?thesis using IH Suc.prems(2) [of k n] by simp
  qed
  moreover have "memmove_down d s (Suc n) m a = m a" if "\<forall>k<Suc n. a \<noteq> d + of_nat k" for a
    using that IH by simp
  ultimately show ?case by blast
qed simp

lemma add_of_nat_less:
  fixes a b :: u64
  assumes "unat a + i < 2 ^ 64" "unat b + j < 2 ^ 64"
  shows "a + of_nat i = b + of_nat j \<longleftrightarrow> unat a + i = unat b + j"
proof -
  have "unat (a + of_nat i) = unat a + i" "unat (b + of_nat j) = unat b + j"
    using assms by (simp_all add: unat_word_ariths unat_of_nat)
  then show ?thesis by (metis unsigned_word_eqI)
qed

text \<open>\<^verbatim>\<open>memmove\<close> copies: for any two regions of \<open>n\<close> bytes that do not wrap around the address
  space, overlapping or not, afterwards byte \<open>k\<close> of the destination is what byte \<open>k\<close> of the source
  was before, and every byte outside the destination is unchanged.\<close>

theorem memmove_copies:
  assumes "unat d + n \<le> 2 ^ 64" "unat s + n \<le> 2 ^ 64"
  shows "(\<forall>k<n. memmove d s n m (d + of_nat k) = m (s + of_nat k)) \<and>
    (\<forall>a. (\<forall>k<n. a \<noteq> d + of_nat k) \<longrightarrow> memmove d s n m a = m a)"
proof -
  have n: "n \<le> 2 ^ 64" using assms by simp
  have ne: "s + of_nat k \<noteq> d + of_nat j" if "k < n" "j < n" "unat s + k \<noteq> unat d + j" for j k
    using add_of_nat_less [of s k d j] that assms by simp
  consider "d = s" | "d < s" | "s < d" by (meson linorder_neqE)
  then show ?thesis
  proof cases
    case 1
    then show ?thesis by (simp add: memmove_def)
  next
    case 2
    then have "s + of_nat k \<noteq> d + of_nat j" if "j < k" "k < n" for j k
      using that ne [of k j] by (simp add: word_less_nat_alt)
    then show ?thesis using 2 memcpy_spec [OF n] by (simp add: memmove_def)
  next
    case 3
    then have "s + of_nat k \<noteq> d + of_nat j" if "k < j" "j < n" for j k
      using that ne [of k j] by (simp add: word_less_nat_alt)
    moreover have "\<not> d < s" "d \<noteq> s" using 3 by auto
    ultimately show ?thesis using memmove_down_spec [OF n] by (simp add: memmove_def)
  qed
qed

theorem memmove_copies_witness:
  "memmove 11 10 3 (\<lambda>a. ucast a) 11 = 10 \<and> memmove 11 10 3 (\<lambda>a. ucast a) 12 = 11 \<and>
   memmove 11 10 3 (\<lambda>a. ucast a) 13 = 12 \<and> memmove 11 10 3 (\<lambda>a. ucast a) 20 = 20"
  using memmove_copies [of 11 3 10 "\<lambda>a. ucast a"] by (simp add: numeral_3_eq_3 All_less_Suc)

section \<open>Strings\<close>

text \<open>A string of \<open>n\<close> bytes and a terminator at \<open>p\<close>; two regions that share no byte.\<close>

definition cstring :: "bytes \<Rightarrow> u64 \<Rightarrow> nat \<Rightarrow> bool" where
  "cstring m p n \<longleftrightarrow> (\<forall>k<n. m (p + of_nat k) \<noteq> 0) \<and> m (p + of_nat n) = 0"

definition apart :: "u64 \<Rightarrow> u64 \<Rightarrow> nat \<Rightarrow> bool" where
  "apart d s n \<longleftrightarrow> (\<forall>j<n. \<forall>k<n. s + of_nat k \<noteq> d + of_nat j)"

lemma cstring_Suc: "cstring m p (Suc n) \<longleftrightarrow> m p \<noteq> 0 \<and> cstring m (p + 1) n"
proof -
  have sh: "p + of_nat (Suc k) = p + 1 + of_nat k" for k by simp
  have "(\<forall>k<Suc n. m (p + of_nat k) \<noteq> 0) \<longleftrightarrow> m p \<noteq> 0 \<and> (\<forall>k<n. m (p + 1 + of_nat k) \<noteq> 0)"
    by (simp only: All_less_Suc2 sh) simp
  then show ?thesis by (simp add: cstring_def add.assoc)
qed

lemma apart_Suc:
  assumes "apart d s (Suc n)"
  shows "apart (d + 1) (s + 1) n" "k < Suc n \<Longrightarrow> s + of_nat k \<noteq> d"
proof -
  show "k < Suc n \<Longrightarrow> s + of_nat k \<noteq> d"
    using assms [unfolded apart_def, rule_format, of 0 k] by simp
  have "s + 1 + of_nat k \<noteq> d + 1 + of_nat j" if "j < n" "k < n" for j k
    using assms [unfolded apart_def, rule_format, of "Suc j" "Suc k"] that by (simp add: add.assoc)
  then show "apart (d + 1) (s + 1) n" by (simp add: apart_def)
qed

lemma cstring_upd: "(\<And>k. k \<le> n \<Longrightarrow> p + of_nat k \<noteq> d) \<Longrightarrow> cstring (m(d := v)) p n = cstring m p n"
  by (simp add: cstring_def)

lemma strlen_loop_cstring: "cstring m p n \<Longrightarrow> strlen_loop p m = Some (p + of_nat n)"
proof (induction n arbitrary: p)
  case 0
  then show ?case by (subst strlen_loop.simps) (simp add: cstring_def)
next
  case (Suc n)
  then show ?case by (subst strlen_loop.simps) (simp add: cstring_Suc add.assoc)
qed

lemma strlen_cstring: "cstring m p n \<Longrightarrow> strlen p m = Some (of_nat n)"
  by (simp add: strlen_def strlen_loop_cstring)

lemma stpcpy_cstring:
  "cstring m s n \<Longrightarrow> apart d s (Suc n) \<Longrightarrow> stpcpy d s m = Some (d + of_nat n, memcpy d s (Suc n) m)"
proof (induction n arbitrary: d s m)
  case 0
  then show ?case by (subst stpcpy.simps) (simp add: cstring_def)
next
  case (Suc n)
  have "s + 1 + of_nat k \<noteq> d" if "k \<le> n" for k
    using apart_Suc(2) [OF Suc.prems(2), of "Suc k"] that by (simp add: add.assoc)
  then have "cstring (m(d := m s)) (s + 1) n" using Suc.prems(1) cstring_upd by (simp add: cstring_Suc)
  then have "stpcpy (d + 1) (s + 1) (m(d := m s)) =
      Some (d + 1 + of_nat n, memcpy (d + 1) (s + 1) (Suc n) (m(d := m s)))"
    using Suc.IH apart_Suc(1) [OF Suc.prems(2)] by blast
  then show ?case using Suc.prems(1) by (subst stpcpy.simps) (simp add: cstring_Suc add.assoc)
qed

lemma stpncpy_loop_long:
  "(\<forall>k<n. m (s + of_nat k) \<noteq> 0) \<Longrightarrow> apart d s (Suc n) \<Longrightarrow>
    stpncpy_loop d s n m = (d + of_nat n, 0, memcpy d s (Suc n) m)"
proof (induction n arbitrary: d s m)
  case (Suc n)
  have sh: "s + 1 + of_nat k = s + of_nat (Suc k)" for k by simp
  have ne: "s + 1 + of_nat k \<noteq> d" if "k < n" for k
    unfolding sh using apart_Suc(2) [OF Suc.prems(2), of "Suc k"] that by simp
  have "\<forall>k<n. (m(d := m s)) (s + 1 + of_nat k) \<noteq> 0"
    using ne Suc.prems(1) [rule_format, of "Suc _"] unfolding sh by simp
  then have "stpncpy_loop (d + 1) (s + 1) n (m(d := m s)) =
      (d + 1 + of_nat n, 0, memcpy (d + 1) (s + 1) (Suc n) (m(d := m s)))"
    using Suc.IH apart_Suc(1) [OF Suc.prems(2)] by blast
  then show ?case using Suc.prems(1) [rule_format, of 0] by (simp add: add.assoc)
qed simp

lemma memcpy_apart:
  assumes "apart d s n" "n \<le> 2 ^ 64" "k < n"
  shows "memcpy d s n m (d + of_nat k) = m (s + of_nat k)"
  using memcpy_spec [of n s d m] assms unfolding apart_def by (meson less_trans)

text \<open>\<^verbatim>\<open>strcpy\<close> of a string to a region apart from it returns, and leaves a copy of the string
  with its terminator at the destination.\<close>

theorem strcpy_copies:
  assumes "cstring m s n" "apart d s (Suc n)" "n < 2 ^ 64"
  shows "\<exists>m'. strcpy d s m = Some (d, m') \<and> cstring m' d n \<and> strlen d m' = Some (of_nat n) \<and>
    (\<forall>k\<le>n. m' (d + of_nat k) = m (s + of_nat k))"
proof -
  let ?m = "memcpy d s (Suc n) m"
  have c: "\<forall>k\<le>n. ?m (d + of_nat k) = m (s + of_nat k)"
    using memcpy_apart [OF assms(2)] assms(3) by (simp del: memcpy.simps)
  then have "cstring ?m d n" using assms(1) unfolding cstring_def by (metis less_imp_le order_refl)
  then show ?thesis
    using c stpcpy_cstring [OF assms(1,2)] strlen_cstring [of ?m d n] by (simp add: strcpy_def del: memcpy.simps)
qed

text \<open>\<^verbatim>\<open>strncpy\<close> with a limit of \<open>n\<close> bytes writes byte \<open>n\<close> of the destination, one past the
  limit, whenever the source has at least \<open>n\<close> bytes before its terminator.\<close>

theorem strncpy_overruns:
  assumes "\<forall>k<n. m (s + of_nat k) \<noteq> 0" "apart d s (Suc n)" "n < 2 ^ 64"
  shows "snd (strncpy d s n m) (d + of_nat n) = m (s + of_nat n)"
  using stpncpy_loop_long [OF assms(1,2)] memcpy_apart [OF assms(2), of n m] assms(3)
  by (simp add: strncpy_def del: memcpy.simps)

definition abc_mem :: bytes where
  "abc_mem = (\<lambda>_. 0)(0x100 := 97, 0x101 := 98, 0x102 := 99)"

lemma abc_apart: "apart 0x200 0x100 (Suc 3)"
  unfolding apart_def by (simp add: numeral_3_eq_3 All_less_Suc)

theorem strcpy_copies_witness:
  "\<exists>m'. strcpy 0x200 0x100 abc_mem = Some (0x200, m') \<and> cstring m' 0x200 3 \<and> strlen 0x200 m' = Some (of_nat 3)"
proof -
  have "cstring abc_mem 0x100 3" by (simp add: cstring_def abc_mem_def numeral_3_eq_3 All_less_Suc)
  from strcpy_copies [OF this abc_apart] show ?thesis by auto
qed

theorem strncpy_overruns_witness: "snd (strncpy 0x200 0x100 2 abc_mem) 0x202 = 99"
proof -
  have "apart 0x200 0x100 (Suc 2)" using abc_apart by (simp add: apart_def)
  moreover have "\<forall>k<2. abc_mem (0x100 + of_nat k) \<noteq> 0" by (auto simp: abc_mem_def less_2_cases_iff)
  ultimately have "snd (strncpy 0x200 0x100 2 abc_mem) (0x200 + of_nat 2) = abc_mem (0x100 + of_nat 2)"
    by (intro strncpy_overruns) simp_all
  then show ?thesis by (simp add: abc_mem_def)
qed


section \<open>Digits\<close>

lemma ctoi_itoc: "0 \<le> d \<Longrightarrow> d < 36 \<Longrightarrow> ctoi (itoc d) = d"
  by (auto simp: ctoi_def itoc_def of_char_of)

lemma itoc_not_space: "0 \<le> d \<Longrightarrow> d < 36 \<Longrightarrow> \<not> isspace (itoc d)"
  by (auto simp: isspace_def itoc_def of_char_of)

lemma itoc_not_x: "0 \<le> d \<Longrightarrow> d < 16 \<Longrightarrow> itoc d \<noteq> CHR ''x'' \<and> itoc d \<noteq> CHR ''X''"
proof -
  assume d: "0 \<le> d" "d < 16"
  then have "code (itoc d) < 103" by (auto simp: itoc_def of_char_of)
  moreover have "code (itoc d) \<noteq> 88" using d by (auto simp: itoc_def of_char_of)
  ultimately show ?thesis by auto
qed

lemma isdigit_itoc: "0 \<le> d \<Longrightarrow> d < 10 \<Longrightarrow> isdigit (itoc d) \<and> code (itoc d) - 48 = d"
  by (auto simp: isdigit_def itoc_def of_char_of)

function digit_list :: "int \<Rightarrow> int \<Rightarrow> int list" where
  "digit_list r n = (if n \<le> 0 \<or> r < 2 then [] else n mod r # digit_list r (n div r))"
  by pat_completeness auto
termination
  by (relation "measure (\<lambda>(r, n). nat n)") (auto intro!: int_div_less_self)

declare digit_list.simps [simp del]

lemma digit_list_range: "d \<in> set (digit_list r n) \<Longrightarrow> 0 \<le> d \<and> d < r"
proof (induction r n rule: digit_list.induct)
  case (1 r n)
  then show ?case by (subst (asm) digit_list.simps) (auto split: if_splits)
qed

lemma digits_loop_list:
  assumes "2 \<le> r" "0 \<le> n"
  shows "digits_loop r n = map itoc (digit_list r n)"
  using assms
proof (induction r n rule: digit_list.induct)
  case (1 r n)
  show ?case
  proof (cases "n = 0")
    case True
    then show ?thesis by (simp add: digits_loop.simps digit_list.simps)
  next
    case False
    have "cdiv n r = n div r" "cmod n r = n mod r"
      using False 1 by (auto simp: cdiv_def cmod_def minus_div_mult_eq_mod)
    moreover have "0 \<le> n div r" using 1 by (simp add: pos_imp_zdiv_nonneg_iff)
    ultimately show ?thesis using 1 False by (simp add: digits_loop.simps [of r n] digit_list.simps [of r n])
  qed
qed

lemma digit_list_value:
  "2 \<le> r \<Longrightarrow> 0 \<le> n \<Longrightarrow> foldr (\<lambda>d a. a * of_int r + of_int d) (digit_list r n) 0 = (of_int n :: 'a::comm_ring_1)"
proof (induction r n rule: digit_list.induct)
  case (1 r n)
  show ?case
  proof (cases "n = 0")
    case True
    then show ?thesis by (simp add: digit_list.simps)
  next
    case False
    have "0 \<le> n div r" using 1 by (simp add: pos_imp_zdiv_nonneg_iff)
    then have "foldr (\<lambda>d a. a * of_int r + of_int d) (digit_list r (n div r)) 0 = (of_int (n div r) :: 'a)"
      using 1 False by auto
    then have "foldr (\<lambda>d a. a * of_int r + of_int d) (digit_list r n) 0 =
        (of_int (n div r) * of_int r + of_int (n mod r) :: 'a)"
      using 1 False by (simp add: digit_list.simps [of r n])
    also have "\<dots> = of_int (n div r * r + n mod r)" by (simp only: of_int_add of_int_mult)
    finally show ?thesis by simp
  qed
qed

lemma reverse_loop_nth:
  "j < length s \<Longrightarrow> length (reverse_loop i j s) = length s \<and>
    (\<forall>k < length s. reverse_loop i j s ! k = (if i \<le> k \<and> k \<le> j then s ! (i + j - k) else s ! k))"
proof (induction i j s rule: reverse_loop.induct)
  case (1 i j s)
  show ?case
  proof (cases "i < j")
    case False
    then have "i + j - k = k" if "i \<le> k \<and> k \<le> j" for k using that by linarith
    then show ?thesis using False by (auto simp: reverse_loop.simps [of i j s])
  next
    case True
    have IH: "length (reverse_loop (i + 1) (j - 1) (s[i := s ! j, j := s ! i])) = length s \<and>
      (\<forall>k < length s. reverse_loop (i + 1) (j - 1) (s[i := s ! j, j := s ! i]) ! k =
        (if i + 1 \<le> k \<and> k \<le> j - 1 then s[i := s ! j, j := s ! i] ! (i + 1 + (j - 1) - k)
         else s[i := s ! j, j := s ! i] ! k))"
      using 1 True by simp
    have "reverse_loop i j s ! k = (if i \<le> k \<and> k \<le> j then s ! (i + j - k) else s ! k)" if "k < length s" for k
    proof -
      consider "k = i" | "k = j" | "i < k \<and> k < j" | "k < i \<or> j < k" by linarith
      then show ?thesis using IH True that 1(2)
        by cases (auto simp: reverse_loop.simps [of i j s] nth_list_update)
    qed
    then show ?thesis using IH True by (simp add: reverse_loop.simps [of i j s])
  qed
qed

lemma reverse_loop_rev: "s \<noteq> [] \<Longrightarrow> reverse_loop 0 (length s - 1) s = rev s"
  using reverse_loop_nth [of "length s - 1" s 0] by (intro nth_equalityI) (auto simp: rev_nth)

lemma digit_list_nonempty: "2 \<le> r \<Longrightarrow> 0 < n \<Longrightarrow> digit_list r n \<noteq> []"
  by (subst digit_list.simps) simp

lemma uxtoa_digits:
  assumes "2 \<le> r" "n \<noteq> 0"
  shows "uxtoa n r = Some (map itoc (rev (digit_list r (uint n))))"
proof -
  have n: "0 < uint n" using assms(2) by (simp add: order_less_le unsigned_eq_0_iff)
  have "digits_loop r (uint n) \<noteq> []"
    using digits_loop_list [OF assms(1), of "uint n"] digit_list_nonempty [OF assms(1) n] by simp
  then show ?thesis
    using assms reverse_loop_rev [of "digits_loop r (uint n)"] digits_loop_list [OF assms(1), of "uint n"]
    by (simp add: uxtoa_def Let_def rev_map)
qed

text \<open>The digit loop of the parsers on text that the printer made.\<close>

lemma strto_digits_itoc:
  assumes "r \<le> 36" "\<forall>d\<in>set ds. 0 \<le> d \<and> d < r"
  shows "strto_digits r num (map itoc ds) = (foldl (\<lambda>a d. a * of_int r + of_int d) num ds, length ds)"
  using assms(2)
proof (induction ds arbitrary: num)
  case (Cons d ds)
  then have "ctoi (itoc d) = d" using assms(1) by (intro ctoi_itoc) auto
  then show ?case using Cons by (auto simp: Let_def)
qed simp

lemma strtoux_digits:
  assumes r: "2 \<le> r" "r \<le> 36" and ds: "ds \<noteq> []" "\<forall>d\<in>set ds. 0 \<le> d \<and> d < r"
  shows "strtoux (map itoc ds) r = (foldl (\<lambda>a d. a * of_int r + of_int d) (0 :: 'a::len word) ds, length ds)"
proof -
  obtain d es where d: "ds = d # es" using ds(1) by (cases ds) auto
  then have "takeWhile isspace (map itoc ds) = []" using ds(2) r itoc_not_space [of d] by simp
  moreover have "strto_prefix r (map itoc ds) = (r, 0)"
  proof -
    have "\<not> (deref (map itoc es) = CHR ''x'' \<or> deref (map itoc es) = CHR ''X'')" if "r = 16"
      using ds(2) d that itoc_not_x by (cases es) (auto simp: deref_def)
    then show ?thesis using r d by (auto simp: strto_prefix_def)
  qed
  ultimately show ?thesis
    using strto_digits_itoc [OF r(2) ds(2), of "0 :: 'a word"] ds(1) by (simp add: strtoux_def Let_def)
qed

text \<open>Reading back the text of an unsigned number gives the number and the end of the text, for
  every width of the type and every radix from 2 to 36.\<close>

theorem strtoux_uxtoa:
  assumes "2 \<le> r" "r \<le> 36"
  shows "\<exists>s. uxtoa (n :: 'a::len word) r = Some s \<and> strtoux s r = (n, length s)"
proof (cases "n = 0")
  case True
  have "strtoux (map itoc [0]) r = (foldl (\<lambda>a d. a * of_int r + of_int d) (0 :: 'a word) [0], length [0 :: int])"
    by (rule strtoux_digits [OF assms]) (use assms in auto)
  moreover have "map itoc [0] = ''0''" by code_simp
  ultimately show ?thesis using True by (simp add: uxtoa_def)
next
  case False
  define ds where "ds = rev (digit_list r (uint n))"
  have "0 < uint n" using False by (simp add: order_less_le unsigned_eq_0_iff)
  then have ne: "ds \<noteq> []" using digit_list_nonempty [OF assms(1)] by (simp add: ds_def)
  have rng: "\<forall>d\<in>set ds. 0 \<le> d \<and> d < r" using digit_list_range by (auto simp: ds_def)
  have "foldl (\<lambda>a d. a * of_int r + of_int d) (0 :: 'a word) ds = of_int (uint n)"
    using digit_list_value [OF assms(1), of "uint n", where ?'a = "'a word"] by (simp add: ds_def foldl_conv_foldr)
  then have "strtoux (map itoc ds) r = (n, length (map itoc ds))"
    using strtoux_digits [OF assms ne rng, where ?'a = 'a] by simp
  then show ?thesis using uxtoa_digits [OF assms(1) False] unfolding ds_def by blast
qed


theorem strtoux_uxtoa_witness:
  "\<exists>s. uxtoa (48879 :: u32) 16 = Some s \<and> strtoux s 16 = (48879 :: u32, length s)"
  using strtoux_uxtoa [of 16 "48879 :: u32"] by simp

section \<open>Decimal text\<close>

lemma atox_digits_itoc:
  assumes "\<forall>d\<in>set ds. 0 \<le> d \<and> d < 10"
  shows "atox_digits num (map itoc ds) = foldl (\<lambda>a d. a * 10 + of_int d) num ds"
  using assms by (induction ds arbitrary: num) (auto simp: isdigit_itoc)

lemma atox_digits_zeros: "atox_digits 0 (dropWhile (\<lambda>c. c = CHR ''0'') s) = atox_digits 0 s"
  by (induction s) (auto simp: isdigit_def)

lemma xtoa_digits:
  fixes n :: "'a::len word"
  assumes "2 \<le> r" "n \<noteq> 0" and nonneg: "0 \<le> sint (if sint n < 0 then - n else n)"
  shows "xtoa n r = Some ((if sint n < 0 then ''-'' else []) @
    map itoc (rev (digit_list r (sint (if sint n < 0 then - n else n)))))"
proof -
  define v where "v = (if sint n < 0 then - n else n)"
  have "v \<noteq> 0" using assms(2) by (auto simp: v_def)
  moreover have "0 \<le> sint v" using nonneg unfolding v_def .
  ultimately have pos: "0 < sint v" by (simp add: order_less_le signed_eq_0_iff)
  have "digits_loop r (sint v) \<noteq> []"
    using digits_loop_list [OF assms(1), of "sint v"] digit_list_nonempty [OF assms(1) pos] pos by simp
  then show ?thesis
    using assms(1,2) reverse_loop_rev [of "digits_loop r (sint v)"] digits_loop_list [OF assms(1), of "sint v"] pos
    by (simp add: xtoa_def Let_def v_def [symmetric] rev_map)
qed

lemma sint_minus_nonneg:
  fixes n :: "'a::len word"
  assumes "sint n \<noteq> - (2 ^ (LENGTH('a) - 1))" "sint n < 0"
  shows "sint (- n) = - sint n"
proof -
  have b: "- (2 ^ (LENGTH('a) - 1)) \<le> sint n" by (rule sint_ge)
  have "sint (word_of_int (- sint n) :: 'a word) = signed_take_bit (LENGTH('a) - 1) (- sint n)"
    by (rule sint_sbintrunc')
  also have "\<dots> = - sint n"
    using b assms by (intro signed_take_bit_int_eq_self) (auto intro: order_trans [of _ 0])
  finally show ?thesis by simp
qed

text \<open>Reading back the decimal text of a signed number gives the number, for every number but the
  least of its type.\<close>

theorem atox_xtoa:
  fixes n :: "'a::len word"
  assumes "sint n \<noteq> - (2 ^ (LENGTH('a) - 1))"
  shows "\<exists>s. xtoa n 10 = Some s \<and> atox s = n"
proof (cases "n = 0")
  case True
  have "atox ''0'' = (0 :: 'a word)" by (simp add: atox_def deref_def isspace_def Let_def)
  then show ?thesis using True by (simp add: xtoa_def)
next
  case False
  define v where "v = (if sint n < 0 then - n else n)"
  define ds where "ds = rev (digit_list 10 (sint v))"
  have v: "0 \<le> sint v" using sint_minus_nonneg [OF assms] by (auto simp: v_def)
  have x: "xtoa n 10 = Some ((if sint n < 0 then ''-'' else []) @ map itoc ds)"
    using xtoa_digits [of 10 n] False v by (simp add: v_def ds_def)
  have rng: "\<forall>d\<in>set ds. 0 \<le> d \<and> d < 10" using digit_list_range by (auto simp: ds_def)
  have "v \<noteq> 0" using False by (auto simp: v_def)
  then have "0 < sint v" using v by (simp add: order_less_le signed_eq_0_iff)
  then have "digit_list 10 (sint v) \<noteq> []" by (intro digit_list_nonempty) auto
  then obtain d es where d: "ds = d # es" by (cases ds) (auto simp: ds_def)
  have c: "isdigit (itoc d)" "\<not> isspace (itoc d)" using rng d isdigit_itoc itoc_not_space [of d] by auto
  then have pm: "itoc d \<noteq> CHR ''-''" "itoc d \<noteq> CHR ''+''" by (auto simp: isdigit_def)
  have "atox_digits 0 (map itoc ds) = (of_int (sint v) :: 'a word)"
    using atox_digits_itoc [OF rng, where ?'a = 'a] digit_list_value [of 10 "sint v", where ?'a = "'a word"] v
    by (simp add: ds_def foldl_conv_foldr)
  then have val: "atox_digits 0 (dropWhile (\<lambda>c. c = CHR ''0'') (map itoc ds)) = v"
    by (simp add: atox_digits_zeros)
  have "atox ((if sint n < 0 then ''-'' else []) @ map itoc ds) = v * (if sint n < 0 then -1 else 1)"
    using val c(2) pm by (auto simp: atox_def Let_def deref_def d isspace_def)
  then show ?thesis using x by (auto simp: v_def)
qed

theorem atox_xtoa_witness: "\<exists>s. xtoa (-1234 :: u32) 10 = Some s \<and> atox s = (-1234 :: u32)"
  using atox_xtoa [of "-1234 :: u32"] by simp

text \<open>The text of the least 32-bit number is not decimal: its digits are taken of a number that is
  still negative.\<close>

theorem itoa_least_is_garbled: "itoa 0x80000000 10 = Some ''-./,),(-*,(''"
  by code_simp


section \<open>Byte counts\<close>

lemma digit_list_length: "2 \<le> r \<Longrightarrow> n < r ^ k \<Longrightarrow> length (digit_list r n) \<le> k"
proof (induction k arbitrary: n)
  case 0
  then show ?case by (subst digit_list.simps) simp
next
  case (Suc k)
  have "n div r < r ^ k"
  proof (rule ccontr)
    assume "\<not> n div r < r ^ k"
    then have "r ^ k * r \<le> n div r * r" using Suc.prems(1) by (intro mult_right_mono) auto
    also have "\<dots> \<le> n" using Suc.prems(1) div_mult_mod_eq [of n r] pos_mod_sign [of r n] by linarith
    finally show False using Suc.prems(2) by (simp add: mult.commute)
  qed
  then show ?case using Suc by (subst digit_list.simps) auto
qed

lemma ultoa_length:
  assumes "uint n < 10 ^ k" "0 < k"
  shows "\<exists>s. ultoa n 10 = Some s \<and> length s \<le> k"
proof (cases "n = 0")
  case True
  then show ?thesis using assms(2) by (simp add: ultoa_def uxtoa_def Suc_le_eq)
next
  case False
  then show ?thesis
    using uxtoa_digits [of 10 n] digit_list_length [OF _ assms(1)] by (simp add: ultoa_def)
qed

lemma btoa_loop_bounds:
  "b < 1000 * 1024 ^ k \<Longrightarrow> r \<le> 9 \<Longrightarrow>
    case btoa_loop b r p of (b', r', p') \<Rightarrow> b' < 1000 \<and> r' \<le> 9 \<and> p' \<le> p + k"
proof (induction k arbitrary: b r p)
  case 0
  then show ?case by (simp add: btoa_loop.simps)
next
  case (Suc k)
  show ?case
  proof (cases "1000 \<le> b")
    case True
    have "b div 1024 < 1000 * 1024 ^ k" using Suc.prems(1) by (simp add: div_less_iff_less_mult mult.commute mult.left_commute)
    moreover have "b mod 1024 * 10 div 1024 \<le> 9" by (simp add: less_eq_Suc_le [symmetric]) 
    ultimately show ?thesis
      using Suc.IH [of "b div 1024" "b mod 1024 * 10 div 1024" "p + 1"] True
      by (subst btoa_loop.simps) auto
  qed (use Suc.prems in \<open>simp add: btoa_loop.simps [of b]\<close>)
qed

text \<open>A byte count is always printed, in at most four characters: the suffix table is indexed in
  range and the result fits the buffers its callers pass.\<close>

theorem btoa_fits: "\<exists>s. btoa n = Some s \<and> length s \<le> 4"
proof (cases "n < 1024")
  case True
  then have "uint n < 10 ^ 4" by (simp add: word_less_def)
  then show ?thesis using True ultoa_length [of n 4] by (simp add: btoa_def)
next
  case False
  obtain b r p where l: "btoa_loop (unat n) 0 0 = (b, r, p)" by (cases "btoa_loop (unat n) 0 0")
  have "unat n < 1000 * 1024 ^ 6" using unat_lt64 [of n] by simp
  then have bd: "b < 1000" "r \<le> 9" "p \<le> 6" using btoa_loop_bounds [of "unat n" 6 0 0] l by auto
  have u: "uint (of_nat b :: u64) = int b" "uint (of_nat r :: u64) = int r"
    using bd by (simp_all add: uint_nat unat_of_nat)
  obtain s1 where s1: "ultoa (of_nat b) 10 = Some s1" "length s1 \<le> (if b < 10 then 1 else 3)"
    using ultoa_length [of "of_nat b" 1] ultoa_length [of "of_nat b" 3] u bd by (cases "b < 10") auto
  obtain s2 where s2: "ultoa (of_nat r) 10 = Some s2" "length s2 \<le> 1"
    using ultoa_length [of "of_nat r" 1] u bd by auto
  have "p - 1 < length suffixes" using bd by (simp add: suffixes_def)
  then show ?thesis using False l s1 s2 by (auto simp: btoa_def Let_def)
qed

end
