(* ===== verification/Tar.thy ===== *)
theory Tar
  imports Fs Klib
begin

text \<open>
  The tar file system of \<^verbatim>\<open>kernel/fs/tar.c\<close>. A header is the 512 bytes of a sector, read field by
  field at the offsets of the UStar layout. A search steps from header to header by the size field;
  it may run forever on a damaged archive, so it is a \<^theory_text>\<open>partial_function (option)\<close>. Where the code
  leaves a variable uninitialised, its value is an argument (\<open>junk\<close>).
\<close>

section \<open>Headers\<close>

definition TAR_SIZE :: u32 where "TAR_SIZE = 512"
definition ERROR_TAR :: int where "ERROR_TAR = 1"
definition NOERROR_TAR :: int where "NOERROR_TAR = 0"
definition O_RDONLY :: u32 where "O_RDONLY = 2"

type_synonym tar_header = "u8 list"

definition hdr_fileSize :: "tar_header \<Rightarrow> u8 list" where "hdr_fileSize h = drop 124 h"
definition hdr_type_flag :: "tar_header \<Rightarrow> u8" where "hdr_type_flag h = h ! 156"
definition hdr_magic :: "tar_header \<Rightarrow> u8 list" where "hdr_magic h = take 6 (drop 257 h)"
definition hdr_version :: "tar_header \<Rightarrow> u8 list" where "hdr_version h = take 2 (drop 263 h)"

text \<open>A C string at the start of some bytes, as the characters before its terminator.\<close>

definition cstr :: "u8 list \<Rightarrow> u8 list" where "cstr bs = takeWhile (\<lambda>b. b \<noteq> 0) bs"

definition chars_of :: "u8 list \<Rightarrow> string" where "chars_of bs = map (\<lambda>b. char_of (uint b)) (cstr bs)"

definition file_size :: "tar_header \<Rightarrow> u64" where
  "file_size h = fst (strtoull (chars_of (hdr_fileSize h)) 8)"

text \<open>The sector of the header behind the one at \<open>sect\<close>.\<close>

definition next_sect :: "u64 \<Rightarrow> tar_header \<Rightarrow> u64" where
  "next_sect sect h = sect + ((file_size h + ucast TAR_SIZE - 1) div ucast TAR_SIZE + 1)"

datatype file_type = F_REG | F_DIR

record tar_file =
  tf_type :: file_type
  tf_fs :: nat
  tf_len :: u64
  tf_offset :: u64
  tf_sect :: u64

record tar_dirent =
  d_offset :: u64
  d_namelen :: u16
  d_name :: "u8 list"

text \<open>The objects that \<^verbatim>\<open>tar_open\<close> allocates, by their address.\<close>

record 'm tar_state = "'m fs_state" +
  tar_files :: "u64 \<rightharpoonup> tar_file"

section \<open>Searching\<close>

definition read_tar_header ::
  "('m, 'b) dev_ops_scheme \<Rightarrow> nat \<Rightarrow> u32 \<Rightarrow> tar_header \<Rightarrow> ('m, 'a) fs_state_scheme \<Rightarrow> (int \<times> tar_header \<times> ('m, 'a) fs_state_scheme) option" where
  "read_tar_header ops disk sect hdr st = do {
     (r, bs, st) \<leftarrow> disk_read ops disk (ucast (sect * TAR_SIZE)) (ucast TAR_SIZE) st;
     let hdr = put_at 0 bs hdr;
     (if r <s TAR_SIZE then Some (ERROR_TAR, hdr, st)
      else if hdr_magic hdr \<noteq> [0x75, 0x73, 0x74, 0x61, 0x72, 0] \<or> hdr_version hdr \<noteq> [0x30, 0x30] then Some (ERROR_TAR, hdr, st)
      else Some (NOERROR_TAR, hdr, st))
   }"

text \<open>\<open>matches hdr\<close> is the comparison that tells the two searches apart; the result is the C result
  with the header and the sector it is found at.\<close>

partial_function (option) find_loop ::
  "(tar_header \<Rightarrow> bool) \<Rightarrow> ('m, 'b) dev_ops_scheme \<Rightarrow> nat \<Rightarrow> u64 \<Rightarrow> tar_header \<Rightarrow> ('m, 'a) fs_state_scheme \<Rightarrow> (int \<times> (tar_header \<times> u64) option \<times> ('m, 'a) fs_state_scheme) option" where
  "find_loop matches ops disk sect hdr st =
     (case read_tar_header ops disk (ucast sect) hdr st of
        None \<Rightarrow> None
      | Some (e, hdr, st) \<Rightarrow>
          if e \<noteq> 0 then Some (ERROR_TAR, None, st)
          else if \<not> matches hdr then find_loop matches ops disk (next_sect sect hdr) hdr st
          else Some (NOERROR_TAR, Some (hdr, sect), st))"

text \<open>\<^verbatim>\<open>memcmp(hdr.name, filepath, strlen(filepath) + 1)\<close>, which goes on behind the name field for a
  path of a hundred characters or more.\<close>

definition same_name :: "u8 list \<Rightarrow> tar_header \<Rightarrow> bool" where
  "same_name path h \<longleftrightarrow> take (length path + 1) h = path @ [0]"

definition find_file ::
  "('m, 'b) dev_ops_scheme \<Rightarrow> nat \<Rightarrow> u8 list \<Rightarrow> u64 option \<Rightarrow> tar_header \<Rightarrow> ('m, 'a) fs_state_scheme \<Rightarrow> (int \<times> (tar_header \<times> u64) option \<times> ('m, 'a) fs_state_scheme) option" where
  "find_file ops disk path sect junk st =
     find_loop (same_name path) ops disk (case sect of None \<Rightarrow> 0 | Some s \<Rightarrow> s) junk st"

definition same_prefix :: "u8 list \<Rightarrow> tar_header \<Rightarrow> bool" where
  "same_prefix path h \<longleftrightarrow>
     (let n = min (length path) (length (cstr h)) in take n h = take n path)"

text \<open>Both searches advance the pointer \<^verbatim>\<open>sect\<close> and not what it points to, so the caller's variable
  keeps its value.\<close>

definition find_file_redux ::
  "('m, 'b) dev_ops_scheme \<Rightarrow> nat \<Rightarrow> u8 list \<Rightarrow> u64 option \<Rightarrow> tar_header \<Rightarrow> ('m, 'a) fs_state_scheme \<Rightarrow> (int \<times> (tar_header \<times> u64) option \<times> ('m, 'a) fs_state_scheme) option" where
  "find_file_redux ops disk path sect junk st =
     find_loop (same_prefix path) ops disk (case sect of None \<Rightarrow> 0 | Some s \<Rightarrow> s) junk st"

section \<open>The operations of an open file\<close>

text \<open>The disk of the file system a file belongs to; a null pointer there is a fault.\<close>

definition file_disk :: "tar_file \<Rightarrow> ('m, 'a) fs_state_scheme \<Rightarrow> nat option" where
  "file_disk tf st = fs_disk (fs_loaded_file_systems st (tf_fs tf))"

definition tar_read ::
  "('m, 'b) dev_ops_scheme \<Rightarrow> u64 \<Rightarrow> u64 \<Rightarrow> ('m, 'a) tar_state_scheme \<Rightarrow> (u32 \<times> u8 list \<times> ('m, 'a) tar_state_scheme) option" where
  "tar_read ops f len st = do {
     tf \<leftarrow> tar_files st f;
     let size = (if tf_len tf - tf_offset tf \<le> len then tf_len tf - tf_offset tf else len);
     (if tf_type tf \<noteq> F_REG \<or> size <s 1 then Some (of_int ERROR_TAR, [], st)
      else do {
        disk \<leftarrow> file_disk tf st;
        (r, bs, st) \<leftarrow> disk_read ops disk ((tf_sect tf + 1) * ucast TAR_SIZE + tf_offset tf) size st;
        Some (r, bs, st\<lparr>tar_files := (tar_files st)(f \<mapsto> tf\<lparr>tf_offset := tf_offset tf + scast r\<rparr>)\<rparr>)
      })
   }"

definition tar_close :: "('m, 'b) dev_ops_scheme \<Rightarrow> u64 \<Rightarrow> ('m, 'a) tar_state_scheme \<Rightarrow> ('m, 'a) tar_state_scheme" where
  "tar_close ops f st = st\<lparr>tar_files := (tar_files st)(f := None), dev := dev_free ops f (dev st)\<rparr>"

definition tar_seek :: "u64 \<Rightarrow> u64 \<Rightarrow> u32 \<Rightarrow> ('m, 'a) tar_state_scheme \<Rightarrow> (u32 \<times> ('m, 'a) tar_state_scheme) option" where
  "tar_seek f offsetAdd theSeek st = do {
     tf \<leftarrow> tar_files st f;
     let go = (\<lambda>off. Some (ucast off, st\<lparr>tar_files := (tar_files st)(f \<mapsto> tf\<lparr>tf_offset := off\<rparr>)\<rparr>));
     (if theSeek = 0 then go offsetAdd
      else if theSeek = 1 then go (tf_offset tf + offsetAdd)
      else if theSeek = 2 then go (tf_len tf + offsetAdd)
      else Some (-1, st))
   }"

definition tar_write :: "u64 \<Rightarrow> u8 list \<Rightarrow> u64 \<Rightarrow> int" where
  "tar_write f buffer len = ERROR_TAR"

text \<open>The loop of \<^verbatim>\<open>tar_ents\<close>: the variable \<^verbatim>\<open>sect_off\<close> is 0 in every turn.\<close>

partial_function (option) ents_loop ::
  "('m, 'b) dev_ops_scheme \<Rightarrow> nat \<Rightarrow> u8 list \<Rightarrow> u64 \<Rightarrow> u64 \<Rightarrow> tar_header \<Rightarrow> ('m, 'a) fs_state_scheme \<Rightarrow> (int \<times> tar_dirent option \<times> ('m, 'a) fs_state_scheme) option" where
  "ents_loop ops disk name idx entry hdr st =
     (case find_file_redux ops disk name (Some 0) hdr st of
        None \<Rightarrow> None
      | Some (e, found, st) \<Rightarrow>
          (case found of
             None \<Rightarrow> Some (ERROR_TAR, None, st)
           | Some (hdr, sect) \<Rightarrow>
               if e \<noteq> 0 then Some (ERROR_TAR, None, st)
               else if idx \<noteq> entry then ents_loop ops disk name (idx + 1) entry hdr st
               else Some (NOERROR_TAR, Some \<lparr>d_offset = entry, d_namelen = of_nat (length (cstr hdr)),
                      d_name = take (length (cstr hdr) + 1) hdr\<rparr>, st)))"

definition tar_ents ::
  "('m, 'b) dev_ops_scheme \<Rightarrow> u64 \<Rightarrow> u64 \<Rightarrow> tar_header \<Rightarrow> ('m, 'a) tar_state_scheme \<Rightarrow> (int \<times> tar_dirent option \<times> ('m, 'a) tar_state_scheme) option" where
  "tar_ents ops f entry junk st = do {
     tf \<leftarrow> tar_files st f;
     (if tf_type tf \<noteq> F_DIR then Some (ERROR_TAR, None, st)
      else do {
        disk \<leftarrow> file_disk tf st;
        (e, dir, st) \<leftarrow> read_tar_header ops disk 0 junk st;
        (if e \<noteq> 0 then Some (ERROR_TAR, None, st)
         else ents_loop ops disk (cstr dir) 0 entry junk st)
      })
   }"

section \<open>The operations of the file system\<close>

definition sizeof_tar_file :: u64 where "sizeof_tar_file = 80"

text \<open>\<open>junk\<close> are the bytes of the uninitialised header and \<open>sect0\<close> of the uninitialised sector number:
  the result of the search is not looked at.\<close>

definition tar_open ::
  "('m, 'b) dev_ops_scheme \<Rightarrow> nat \<Rightarrow> u8 list \<Rightarrow> u32 \<Rightarrow> tar_header \<Rightarrow> u64 \<Rightarrow> ('m, 'a) tar_state_scheme \<Rightarrow> (int \<times> u64 option \<times> ('m, 'a) tar_state_scheme) option" where
  "tar_open ops i fullpath flags junk sect0 st = do {
     disk \<leftarrow> fs_disk (fs_loaded_file_systems st i);
     (e, found, st) \<leftarrow> find_file ops disk fullpath None junk st;
     let (hdr, sect_result) = (case found of None \<Rightarrow> (junk, sect0) | Some r \<Rightarrow> r);
     (if flags \<noteq> O_RDONLY then Some (ERROR_TAR, None, st)
      else
        let (newFile, m) = dev_alloc ops sizeof_tar_file (dev st)
        in if newFile = 0 then None
           else Some (NOERROR_TAR, Some newFile,
                  st\<lparr>tar_files := (tar_files st)(newFile \<mapsto> \<lparr>tf_type = F_REG, tf_fs = i, tf_len = file_size hdr, tf_offset = 0,
                        tf_sect = sect_result\<rparr>), dev := m\<rparr>))
   }"

definition tar_stat ::
  "('m, 'b) dev_ops_scheme \<Rightarrow> nat \<Rightarrow> u8 list \<Rightarrow> tar_header \<Rightarrow> ('m, 'a) tar_state_scheme \<Rightarrow> (int \<times> u64 \<times> file_type option \<times> ('m, 'a) tar_state_scheme) option" where
  "tar_stat ops i fullpath junk st = do {
     disk \<leftarrow> fs_disk (fs_loaded_file_systems st i);
     (e, found, st) \<leftarrow> find_file ops disk fullpath None junk st;
     let hdr = (case found of None \<Rightarrow> junk | Some (h, _) \<Rightarrow> h);
     (if hdr_type_flag hdr = 0x30 then Some (NOERROR_TAR, file_size hdr, Some F_REG, st)
      else if hdr_type_flag hdr = 0x35 then Some (NOERROR_TAR, file_size hdr, Some F_DIR, st)
      else Some (ERROR_TAR, file_size hdr, None, st))
   }"

definition tar_mount :: "('m, 'b) dev_ops_scheme \<Rightarrow> tar_header \<Rightarrow> nat \<Rightarrow> ('m, 'a) tar_state_scheme \<Rightarrow> (int \<times> ('m, 'a) tar_state_scheme) option" where
  "tar_mount ops junk i st = do {
     disk \<leftarrow> fs_disk (fs_loaded_file_systems st i);
     (e, hdr, st) \<leftarrow> read_tar_header ops disk 0 junk st;
     (if e = 0
      then Some (NOERROR_TAR, st\<lparr>fs_loaded_file_systems := (fs_loaded_file_systems st)
             (i := (fs_loaded_file_systems st i)\<lparr>fs_name := ''tar'', fs_vtable := Some TarDriver, fs_present := True\<rparr>)\<rparr>)
      else Some (ERROR_TAR, st))
   }"

section \<open>Archives\<close>

record tar_entry =
  te_path :: "u8 list"
  te_data :: "u8 list"

definition valid_header :: "tar_header \<Rightarrow> bool" where
  "valid_header h \<longleftrightarrow> length h = 512 \<and> hdr_magic h = [0x75, 0x73, 0x74, 0x61, 0x72, 0] \<and> hdr_version h = [0x30, 0x30]"

definition is_header :: "tar_header \<Rightarrow> tar_entry \<Rightarrow> bool" where
  "is_header h e \<longleftrightarrow> valid_header h \<and> cstr h = te_path e \<and> length (te_path e) < 100 \<and>
     file_size h = of_nat (length (te_data e))"

abbreviation sector :: "u8 list \<Rightarrow> nat \<Rightarrow> u8 list" where
  "sector d s \<equiv> take 512 (drop (512 * s) d)"

definition data_at :: "u8 list \<Rightarrow> nat \<Rightarrow> u8 list \<Rightarrow> bool" where
  "data_at d s bs \<longleftrightarrow> 512 * (s + 1) + length bs \<le> length d \<and> take (length bs) (drop (512 * (s + 1)) d) = bs"

definition next_header :: "nat \<Rightarrow> tar_entry \<Rightarrow> nat" where
  "next_header s e = s + ((length (te_data e) + 511) div 512 + 1)"

text \<open>The bytes \<open>d\<close> of a disk hold the entries from the sector \<open>s\<close> on, and then no header.\<close>

fun holds :: "u8 list \<Rightarrow> nat \<Rightarrow> tar_entry list \<Rightarrow> bool" where
  "holds d s [] \<longleftrightarrow> length d < 512 * s + 512 \<or>
     hdr_magic (sector d s) \<noteq> [0x75, 0x73, 0x74, 0x61, 0x72, 0] \<or> hdr_version (sector d s) \<noteq> [0x30, 0x30]"
| "holds d s (e # es) \<longleftrightarrow> is_header (sector d s) e \<and> data_at d s (te_data e) \<and> holds d (next_header s e) es"

text \<open>The first entry of a path, with the sector of its header.\<close>

fun locate :: "u8 list \<Rightarrow> nat \<Rightarrow> tar_entry list \<Rightarrow> (tar_entry \<times> nat) option" where
  "locate path s [] = None"
| "locate path s (e # es) = (if te_path e = path then Some (e, s) else locate path (next_header s e) es)"

lemma same_name_cstr:
  assumes "0 \<notin> set path" "length (cstr h) < length h"
  shows "same_name path h \<longleftrightarrow> cstr h = path"
proof
  assume "cstr h = path"
  then have "take (length path) h = path" "h ! length path = 0"
    using assms(2) takeWhile_eq_take [of "\<lambda>b. b \<noteq> 0" h] nth_length_takeWhile [of "\<lambda>b. b \<noteq> 0" h]
    by (auto simp: cstr_def)
  then show "same_name path h" using assms(2) \<open>cstr h = path\<close> by (simp add: same_name_def take_Suc_conv_app_nth)
next
  assume "same_name path h"
  then have "h = path @ 0 # drop (length path + 1) h"
    by (metis append_Cons append_Nil append_assoc append_take_drop_id same_name_def)
  then have "cstr h = takeWhile (\<lambda>b. b \<noteq> 0) (path @ 0 # drop (length path + 1) h)" by (simp add: cstr_def)
  also have "\<dots> = path" using assms(1) by (subst takeWhile_append2) auto
  finally show "cstr h = path" .
qed

definition ramdisk :: "nat \<Rightarrow> u8 list \<Rightarrow> ('m, 'a) fs_state_scheme \<Rightarrow> bool" where
  "ramdisk i d st \<longleftrightarrow> d_type (fs_disks st i) = DISK_TYPE_RAMDISK \<and> rd_data (fs_disks st i) = d \<and> length d < 2 ^ 31"

lemma sector_offset:
  assumes "512 * s < 2 ^ 32"
  shows "(ucast (ucast (of_nat s :: u64) * TAR_SIZE :: u32) :: u64) = of_nat (512 * s)"
proof -
  have "(ucast (of_nat s :: u64) :: u32) = of_nat s"
    using assms by (simp add: ucast_eq uint_nat unat_of_nat64)
  then have "ucast (of_nat s :: u64) * TAR_SIZE = (of_nat (512 * s) :: u32)" by (simp add: TAR_SIZE_def mult.commute)
  moreover have "(ucast (of_nat (512 * s) :: u32) :: u64) = of_nat (512 * s)"
    using assms by (simp only: ucast_eq uint_nat unat_of_nat32 of_int_of_nat_eq)
  ultimately show ?thesis by simp
qed

lemma read_tar_header_ok:
  assumes disk: "ramdisk i d st" and len: "length hdr = 512" and h: "valid_header (sector d s)"
  shows "read_tar_header ops i (ucast (of_nat s :: u64)) hdr st = Some (NOERROR_TAR, sector d s, st)"
proof -
  have l: "512 * s + 512 \<le> length d" using h by (auto simp: valid_header_def min_def split: if_splits)
  then have "disk_read ops i (of_nat (512 * s)) (of_nat 512) st = Some (of_nat 512, sector d s, st)"
    using disk disk_read_ramdisk [of st i "512 * s" 512 ops] by (simp add: ramdisk_def)
  then have rd: "disk_read ops i (of_nat (512 * s)) (ucast TAR_SIZE) st = Some (512, sector d s, st)"
    by (simp add: TAR_SIZE_def del: of_nat_mult)
  have "512 * s < 2 ^ 32" using l disk by (simp add: ramdisk_def)
  note off = sector_offset [OF this]
  have len': "length (sector d s) = 512" using h unfolding valid_header_def by blast
  have "put_at 0 (sector d s) hdr = sector d s" using len len' by (simp add: put_at_def)
  then show ?thesis
    using h unfolding read_tar_header_def off rd valid_header_def by (simp add: TAR_SIZE_def)
qed

lemma read_tar_header_end:
  assumes disk: "ramdisk i d st" and len: "length hdr = 512" and h: "holds d s []" and s: "512 * s < 2 ^ 32"
  shows "\<exists>hdr'. read_tar_header ops i (ucast (of_nat s :: u64)) hdr st = Some (ERROR_TAR, hdr', st)"
proof -
  note off = sector_offset [OF s]
  consider "length d \<le> 512 * s" | "512 * s < length d" "length d < 512 * s + 512" | "512 * s + 512 \<le> length d" by linarith
  then show ?thesis
  proof cases
    case 1
    have "unat (of_nat (512 * s) :: u64) = 512 * s" "unat (of_nat (length d) :: u64) = length d"
      by (rule unat_of_nat64, use s disk in \<open>simp add: ramdisk_def\<close>)+
    then have "of_nat (length d) \<le> (of_nat (512 * s) :: u64)" using 1 by (simp only: word_le_nat_alt)
    then have "disk_read ops i (of_nat (512 * s)) (ucast TAR_SIZE) st = Some (2, [], st)"
      using disk by (intro ramdisk_read_past_end) (simp_all add: ramdisk_def)
    then show ?thesis unfolding read_tar_header_def off by (simp add: TAR_SIZE_def word_sless_alt Let_def)
  next
    case 2
    define n where "n = length d - 512 * s"
    have n: "n < 512" using 2 by (simp add: n_def)
    have u: "unat (of_nat (512 * s) :: u64) = 512 * s" "unat (of_nat (length d) :: u64) = length d"
      by (rule unat_of_nat64, use s disk in \<open>simp add: ramdisk_def\<close>)+
    have sub: "unat (of_nat (length d) - of_nat (512 * s) :: u64) = n"
      using 2 u by (simp add: unat_sub_if' n_def del: of_nat_mult)
    have "\<not> of_nat (length d) \<le> (of_nat (512 * s) :: u64)" using 2 u by (simp only: word_le_nat_alt not_le)
    moreover have "of_nat (length d) - of_nat (512 * s) < (512 :: u64)" using n sub by (simp add: word_less_nat_alt del: of_nat_mult)
    moreover have "(ucast (of_nat (length d) - of_nat (512 * s) :: u64) :: u32) = of_nat n"
      by (simp only: ucast_eq uint_nat sub of_int_of_nat_eq)
    ultimately have "disk_read ops i (of_nat (512 * s)) (ucast TAR_SIZE) st =
      Some (of_nat n, take n (drop (512 * s) d), st)"
      using disk sub u by (simp add: disk_read_def disk_read_rd_def ramdisk_def TAR_SIZE_def del: of_nat_mult)
    moreover have "(of_nat n :: u32) <s 512"
      using n by (subst sless_nonneg) (simp_all add: unat_of_nat32 word_less_nat_alt)
    ultimately show ?thesis unfolding read_tar_header_def off by (simp add: TAR_SIZE_def Let_def)
  next
    case 3
    then have "disk_read ops i (of_nat (512 * s)) (of_nat 512) st = Some (of_nat 512, sector d s, st)"
      using disk disk_read_ramdisk [of st i "512 * s" 512 ops] by (simp add: ramdisk_def)
    then have "disk_read ops i (of_nat (512 * s)) (ucast TAR_SIZE) st = Some (512, sector d s, st)"
      by (simp add: TAR_SIZE_def del: of_nat_mult)
    moreover have "put_at 0 (sector d s) hdr = sector d s" using len 3 by (simp add: put_at_def)
    moreover have "hdr_magic (sector d s) \<noteq> [0x75, 0x73, 0x74, 0x61, 0x72, 0] \<or> hdr_version (sector d s) \<noteq> [0x30, 0x30]"
      using h 3 by auto
    ultimately show ?thesis unfolding read_tar_header_def off by (simp add: Let_def)
  qed
qed

lemma next_sect_header:
  assumes "is_header h e" "length (te_data e) < 2 ^ 31"
  shows "next_sect (of_nat s) h = of_nat (next_header s e)"
proof -
  have "file_size h + ucast TAR_SIZE - 1 = of_nat (length (te_data e) + 511)"
    using assms(1) by (simp add: is_header_def valid_header_def TAR_SIZE_def)
  moreover have "(of_nat (length (te_data e) + 511) :: u64) div ucast TAR_SIZE = of_nat ((length (te_data e) + 511) div 512)"
  proof (rule word_unat_eq_iff [THEN iffD2])
    have "unat (of_nat (length (te_data e) + 511) :: u64) = length (te_data e) + 511"
      using assms(2) by (intro unat_of_nat64) simp
    moreover have "unat (of_nat ((length (te_data e) + 511) div 512) :: u64) = (length (te_data e) + 511) div 512"
      using assms(2) by (intro unat_of_nat64) simp
    ultimately show "unat ((of_nat (length (te_data e) + 511) :: u64) div ucast TAR_SIZE) =
      unat (of_nat ((length (te_data e) + 511) div 512) :: u64)"
      by (simp add: unat_div TAR_SIZE_def)
  qed
  ultimately have "next_sect (of_nat s) h = of_nat s + (of_nat ((length (te_data e) + 511) div 512) + 1)"
    unfolding next_sect_def by (simp only:)
  then show ?thesis by (simp add: next_header_def)
qed

lemma sector_bound: "q * 512 \<le> n + 511 \<Longrightarrow> 512 * (s + 1) + n \<le> l \<Longrightarrow> 512 * (s + (q + 1)) \<le> l + (512 :: nat)"
  by simp

text \<open>The search finds the first entry of the path and ends where the archive ends.\<close>

lemma find_loop_finds:
  assumes "ramdisk i d st" "length hdr = 512" "holds d s es" "0 \<notin> set path" "512 * s \<le> length d + 512"
  shows "find_loop (same_name path) ops i (of_nat s) hdr st =
    Some (case locate path s es of
            None \<Rightarrow> (ERROR_TAR, None, st)
          | Some (e, s') \<Rightarrow> (NOERROR_TAR, Some (sector d s', of_nat s'), st))"
  using assms(2,3,5)
proof (induction es arbitrary: s hdr)
  case Nil
  have "512 * s < 2 ^ 32" using Nil.prems(3) assms(1) by (simp add: ramdisk_def)
  from read_tar_header_end [OF assms(1) Nil.prems(1,2) this, of ops] obtain hdr' where
    "read_tar_header ops i (ucast (of_nat s :: u64)) hdr st = Some (ERROR_TAR, hdr', st)" by blast
  then show ?case by (subst find_loop.simps) (simp add: ERROR_TAR_def)
next
  case (Cons e es)
  then have h: "is_header (sector d s) e" "data_at d s (te_data e)" "holds d (next_header s e) es" by auto
  have v: "valid_header (sector d s)" using h(1) by (simp add: is_header_def)
  note rd = read_tar_header_ok [OF assms(1) Cons.prems(1) v, of ops]
  have len: "length (sector d s) = 512" "length (cstr (sector d s)) < length (sector d s)" using h(1) by (auto simp: is_header_def valid_header_def)
  have same: "same_name path (sector d s) \<longleftrightarrow> te_path e = path"
    using same_name_cstr [OF assms(4) len(2)] h(1) by (simp add: is_header_def valid_header_def)
  have small: "length (te_data e) < 2 ^ 31" using h(2) assms(1) by (simp add: data_at_def ramdisk_def)
  show ?case
  proof (cases "te_path e = path")
    case True
    then show ?thesis using rd same by (subst find_loop.simps) (simp add: NOERROR_TAR_def)
  next
    case False
    have "find_loop (same_name path) ops i (of_nat s) hdr st =
      find_loop (same_name path) ops i (of_nat (next_header s e)) (sector d s) st"
      using rd same False by (subst find_loop.simps) (simp add: NOERROR_TAR_def next_sect_header [OF h(1) small])
    moreover have "512 * next_header s e \<le> length d + 512"
      unfolding next_header_def
      by (rule sector_bound [OF div_times_less_eq_dividend h(2) [unfolded data_at_def, THEN conjunct1]])
    ultimately show ?thesis using Cons.IH [OF len(1) h(3)] False by simp
  qed
qed

lemma locate_holds:
  "holds d s es \<Longrightarrow> locate path s es = Some (e, s') \<Longrightarrow> is_header (sector d s') e \<and> data_at d s' (te_data e)"
  by (induction es arbitrary: s) (auto split: if_splits)

lemma find_file_finds:
  assumes "ramdisk i d st" "length junk = 512" "holds d 0 es" "0 \<notin> set path"
  shows "find_file ops i path None junk st =
    Some (case locate path 0 es of
            None \<Rightarrow> (ERROR_TAR, None, st)
          | Some (e, s) \<Rightarrow> (NOERROR_TAR, Some (sector d s, of_nat s), st))"
  using find_loop_finds [OF assms(1,2,3,4), of ops] by (simp add: find_file_def)

section \<open>Open files\<close>

text \<open>The object \<open>f\<close> is an open regular file with the bytes \<open>content\<close>, at the offset \<open>k\<close>.\<close>

definition open_at :: "u64 \<Rightarrow> u8 list \<Rightarrow> nat \<Rightarrow> ('m, 'a) tar_state_scheme \<Rightarrow> bool" where
  "open_at f content k st \<longleftrightarrow> k \<le> length content \<and>
     (\<exists>tf i d s. tar_files st f = Some tf \<and> tf_type tf = F_REG \<and> tf_len tf = of_nat (length content) \<and>
        tf_offset tf = of_nat k \<and> tf_sect tf = of_nat s \<and> file_disk tf st = Some i \<and> ramdisk i d st \<and> data_at d s content)"

lemma open_at_small: "open_at f content k st \<Longrightarrow> length content < 2 ^ 31"
  by (auto simp: open_at_def ramdisk_def data_at_def)

lemma open_at_move:
  assumes "open_at f content k st" "tar_files st f = Some tf" "j \<le> length content"
  shows "open_at f content j (st\<lparr>tar_files := (tar_files st)(f \<mapsto> tf\<lparr>tf_offset := of_nat j\<rparr>)\<rparr>)"
proof -
  from assms(1,2) obtain i d s where "tf_type tf = F_REG" "tf_len tf = of_nat (length content)"
    "tf_sect tf = of_nat s" "file_disk tf st = Some i" "ramdisk i d st" "data_at d s content"
    by (auto simp: open_at_def)
  then show ?thesis
    unfolding open_at_def using assms(3)
    by (intro conjI exI [of _ "tf\<lparr>tf_offset := of_nat j\<rparr>"] exI [of _ i] exI [of _ d] exI [of _ s])
      (simp_all add: file_disk_def ramdisk_def)
qed

lemma tar_seek_open:
  assumes "open_at f content k st" "j \<le> length content"
  shows "\<exists>T. tar_seek f (of_nat j) 0 st = Some (of_nat j, st\<lparr>tar_files := T\<rparr>) \<and> open_at f content j (st\<lparr>tar_files := T\<rparr>)"
proof -
  obtain tf where tf: "tar_files st f = Some tf" using assms(1) by (auto simp: open_at_def)
  have "unat (of_nat j :: u64) = j" using open_at_small [OF assms(1)] assms(2) by (intro unat_of_nat64) simp
  then have "(ucast (of_nat j :: u64) :: u32) = of_nat j" by (simp add: ucast_eq uint_nat)
  then show ?thesis using open_at_move [OF assms(1) tf assms(2)] tf by (auto simp: tar_seek_def)
qed

lemma sless_1_iff: "unat (w :: u64) < 2 ^ 63 \<Longrightarrow> w <s 1 \<longleftrightarrow> w = 0"
  by (subst sless_nonneg) (auto simp: word_less_nat_alt unat_eq_0)

lemma tar_read_open:
  assumes op: "open_at f content k st" and n: "0 < n" "k + n \<le> length content"
  shows "\<exists>T. tar_read ops f (of_nat n) st = Some (of_nat n, take n (drop k content), st\<lparr>tar_files := T\<rparr>) \<and>
    open_at f content (k + n) (st\<lparr>tar_files := T\<rparr>)"
proof -
  obtain tf i d s where tf: "tar_files st f = Some tf" "tf_type tf = F_REG" "tf_len tf = of_nat (length content)"
    "tf_offset tf = of_nat k" "tf_sect tf = of_nat s" "file_disk tf st = Some i" "ramdisk i d st" "data_at d s content"
    using op by (auto simp: open_at_def)
  have small: "length content < 2 ^ 31" by (rule open_at_small [OF op])
  have rest: "tf_len tf - tf_offset tf = of_nat (length content - k)" using n tf by (simp add: of_nat_diff)
  have u: "unat (of_nat (length content - k) :: u64) = length content - k" "unat (of_nat n :: u64) = n"
    by (rule unat_of_nat64, use small n in simp)+
  have size: "(if tf_len tf - tf_offset tf \<le> of_nat n then tf_len tf - tf_offset tf else of_nat n) = (of_nat n :: u64)"
  proof -
    have "length content - k = n" if "tf_len tf - tf_offset tf \<le> of_nat n"
      using that n u unfolding rest word_le_nat_alt by simp
    then show ?thesis using rest by auto
  qed
  have pos: "\<not> (of_nat n :: u64) <s 1" using n small u(2) by (subst sless_1_iff) (auto simp: unat_eq_0 [symmetric])
  have ts: "ucast TAR_SIZE = (512 :: u64)" by (simp add: TAR_SIZE_def)
  have addr: "(tf_sect tf + 1) * ucast TAR_SIZE + tf_offset tf = of_nat (512 * (s + 1) + k)"
    unfolding tf(4,5) ts by (simp only: of_nat_add of_nat_mult of_nat_numeral of_nat_1 mult.commute)
  have "512 * (s + 1) + k + n \<le> length d" using tf(8) n(2) by (simp add: data_at_def)
  then have rd: "disk_read ops i (of_nat (512 * (s + 1) + k)) (of_nat n) st =
    Some (of_nat n, take n (drop (512 * (s + 1) + k) d), st)"
    using tf(7) n(1) disk_read_ramdisk [of st i "512 * (s + 1) + k" n ops] by (simp only: ramdisk_def)
  have bytes: "take n (drop (512 * (s + 1) + k) d) = take n (drop k content)"
  proof -
    have "take (length content) (drop (512 * (s + 1)) d) = content" using tf(8) by (simp add: data_at_def)
    then have "drop k content = drop k (take (length content) (drop (512 * (s + 1)) d))" by simp
    also have "\<dots> = take (length content - k) (drop (512 * (s + 1) + k) d)"
      unfolding drop_take drop_drop by (simp add: add.commute)
    finally show ?thesis using n by (simp add: min_def)
  qed
  have "of_nat k + scast (of_nat n :: u32) = (of_nat (k + n) :: u64)" using n small by (simp add: scast_of_nat)
  then have "tar_read ops f (of_nat n) st = Some (of_nat n, take n (drop k content),
      st\<lparr>tar_files := (tar_files st)(f \<mapsto> tf\<lparr>tf_offset := of_nat (k + n)\<rparr>)\<rparr>)"
    unfolding tar_read_def using tf(1,2,4,6) size pos rd addr bytes by simp
  then show ?thesis using open_at_move [OF op tf(1) n(2)] by blast
qed

lemma tar_open_opens:
  assumes disk: "ramdisk i d st" "fs_disk (fs_loaded_file_systems st fs) = Some i" and junk: "length junk = 512"
    and arch: "holds d 0 es" "0 \<notin> set path" "locate path 0 es = Some (e, s)"
    and mem: "dev_alloc ops sizeof_tar_file (dev st) = (f, m)" "f \<noteq> 0"
  shows "\<exists>T. tar_open ops fs path O_RDONLY junk s0 st = Some (NOERROR_TAR, Some f, st\<lparr>tar_files := T, dev := m\<rparr>) \<and>
    open_at f (te_data e) 0 (st\<lparr>tar_files := T, dev := m\<rparr>)"
proof -
  note h = locate_holds [OF arch(1,3)]
  let ?tf = "\<lparr>tf_type = F_REG, tf_fs = fs, tf_len = file_size (sector d s), tf_offset = 0, tf_sect = of_nat s\<rparr>"
  let ?st = "st\<lparr>tar_files := (tar_files st)(f \<mapsto> ?tf), dev := m\<rparr>"
  have "tar_open ops fs path O_RDONLY junk s0 st = Some (NOERROR_TAR, Some f, ?st)"
    using disk(2) find_file_finds [OF disk(1) junk arch(1,2), of ops] arch(3) mem by (simp add: tar_open_def)
  moreover have "open_at f (te_data e) 0 ?st"
    unfolding open_at_def using h disk
    by (intro conjI exI [of _ ?tf] exI [of _ i] exI [of _ d] exI [of _ s])
      (simp_all add: is_header_def valid_header_def file_disk_def ramdisk_def)
  ultimately show ?thesis by blast
qed

section \<open>Properties\<close>

text \<open>C23: On a RAM disk that holds a tar archive, opening a path of the archive gives a file that reads back
  exactly the data of the first entry of that path: after a seek to any offset \<open>k\<close>, a read of \<open>n\<close>
  bytes inside the file returns \<open>n\<close> and the bytes \<open>k\<close> to \<open>k + n - 1\<close> of the entry. The search over the
  headers ends.\<close>

theorem tar_open_reads_back:
  assumes "ramdisk i d st" "fs_disk (fs_loaded_file_systems st fs) = Some i" "length junk = 512"
    "holds d 0 es" "0 \<notin> set path" "locate path 0 es = Some (e, s)"
    "dev_alloc ops sizeof_tar_file (dev st) = (f, m)" "f \<noteq> 0"
    "0 < n" "k + n \<le> length (te_data e)"
  shows "\<exists>st1 st2 st3. tar_open ops fs path O_RDONLY junk s0 st = Some (NOERROR_TAR, Some f, st1) \<and>
    tar_seek f (of_nat k) 0 st1 = Some (of_nat k, st2) \<and>
    tar_read ops f (of_nat n) st2 = Some (of_nat n, take n (drop k (te_data e)), st3)"
proof -
  obtain st1 where 1: "tar_open ops fs path O_RDONLY junk s0 st = Some (NOERROR_TAR, Some f, st1)" "open_at f (te_data e) 0 st1"
    using tar_open_opens [OF assms(1-8)] by blast
  have "k \<le> length (te_data e)" using assms(10) by simp
  from tar_seek_open [OF 1(2) this] obtain st2 where
    2: "tar_seek f (of_nat k) 0 st1 = Some (of_nat k, st2)" "open_at f (te_data e) k st2" by blast
  from tar_read_open [OF 2(2) assms(9,10)] 1 2 show ?thesis by blast
qed

definition tiny_header :: "u8 list" where
  "tiny_header = [0x61] @ replicate 123 0 @ [0x33] @ replicate 132 0 @ [0x75, 0x73, 0x74, 0x61, 0x72, 0, 0x30, 0x30] @ replicate 247 0"

definition tiny_disk :: "u8 list" where
  "tiny_disk = tiny_header @ [7, 8, 9] @ replicate 509 0"

definition tiny_entry :: tar_entry where
  "tiny_entry = \<lparr>te_path = [0x61], te_data = [7, 8, 9]\<rparr>"

lemma tiny_is_header: "is_header tiny_header tiny_entry"
proof -
  have "chars_of (hdr_fileSize tiny_header) = map itoc [3]"
    by (simp add: tiny_header_def hdr_fileSize_def chars_of_def cstr_def itoc_def)
  moreover have "strtoux (map itoc [3]) 8 = (3 :: u64, 1)"
    using strtoux_digits [of 8 "[3]", where ?'a = 64] by simp
  ultimately have "file_size tiny_header = 3" by (simp add: file_size_def strtoull_def)
  then show ?thesis
    by (simp add: is_header_def valid_header_def tiny_entry_def) (simp add: tiny_header_def cstr_def hdr_magic_def hdr_version_def)
qed

lemma tiny_holds: "holds tiny_disk 0 [tiny_entry]"
proof -
  have "length tiny_header = 512" using tiny_is_header by (simp add: is_header_def valid_header_def)
  then have "sector tiny_disk 0 = tiny_header" "length tiny_disk = 1024" "take 3 (drop 512 tiny_disk) = [7, 8, 9]"
    by (simp_all add: tiny_disk_def)
  then show ?thesis
    using tiny_is_header by (simp add: data_at_def tiny_entry_def next_header_def numeral_3_eq_3)
qed

definition tiny_state :: "unit tar_state" where
  "tiny_state = fs_state.extend ((one_disk (zero_disk\<lparr>d_present := True, d_type := DISK_TYPE_RAMDISK, rd_data := tiny_disk\<rparr>))
     \<lparr>fs_loaded_file_systems := \<lambda>_. zero_fs\<lparr>fs_present := True, fs_disk := Some 0\<rparr>\<rparr>) \<lparr>tar_files = \<lambda>_. None\<rparr>"

lemma tiny_state_disk:
  "ramdisk 0 tiny_disk tiny_state" "fs_disk (fs_loaded_file_systems tiny_state 0) = Some 0" "dev tiny_state = ()"
proof -
  have "length tiny_disk = 1024" by (simp add: tiny_disk_def tiny_header_def)
  then show "ramdisk 0 tiny_disk tiny_state" "fs_disk (fs_loaded_file_systems tiny_state 0) = Some 0" "dev tiny_state = ()"
    by (simp_all add: ramdisk_def tiny_state_def one_disk_def fs_state.defs)
qed

theorem tar_open_reads_back_witness:
  "\<exists>st1 st2 st3. tar_open no_dev 0 [0x61] O_RDONLY (replicate 512 0) 0 tiny_state = Some (NOERROR_TAR, Some 0x1000, st1) \<and>
    tar_seek 0x1000 1 0 st1 = Some (1, st2) \<and> tar_read no_dev 0x1000 2 st2 = Some (2, [8, 9], st3)"
  using tar_open_reads_back [OF tiny_state_disk(1,2) _ tiny_holds, where junk = "replicate 512 0" and path = "[0x61]"
      and e = tiny_entry and s = 0 and ops = no_dev and f = "0x1000" and m = "()" and n = 2 and k = 1 and ?s0.0 = 0]
  by (simp add: tiny_entry_def no_dev_def)

text \<open>The result of the search is not looked at when a file is opened: opening a path that the archive
  does not have succeeds, with the length and the place of the file taken from uninitialised variables.\<close>

theorem tar_open_missing_succeeds:
  assumes "ramdisk i d st" "fs_disk (fs_loaded_file_systems st fs) = Some i" "length junk = 512"
    "holds d 0 es" "0 \<notin> set path" "locate path 0 es = None"
    "dev_alloc ops sizeof_tar_file (dev st) = (f, m)" "f \<noteq> 0"
  shows "\<exists>st'. tar_open ops fs path O_RDONLY junk s0 st = Some (NOERROR_TAR, Some f, st') \<and>
    tar_files st' f = Some \<lparr>tf_type = F_REG, tf_fs = fs, tf_len = file_size junk, tf_offset = 0, tf_sect = s0\<rparr>"
  using assms find_file_finds [OF assms(1,3,4,5), of ops] by (simp add: tar_open_def)

theorem tar_open_missing_succeeds_witness:
  "\<exists>st'. tar_open no_dev 0 [0x62] O_RDONLY (replicate 512 0) 77 tiny_state = Some (NOERROR_TAR, Some 0x1000, st')"
  using tar_open_missing_succeeds [OF tiny_state_disk(1,2) _ tiny_holds, where junk = "replicate 512 0" and path = "[0x62]"
      and ops = no_dev and f = "0x1000" and m = "()" and ?s0.0 = 77]
  by (auto simp: tiny_entry_def no_dev_def)

text \<open>At the end of a file a read reports one byte, the value of \<^verbatim>\<open>ERROR_TAR\<close>, and stores none.\<close>

theorem tar_read_at_end:
  assumes "open_at f content (length content) st"
  shows "tar_read ops f len st = Some (1, [], st)"
  using assms by (auto simp: open_at_def tar_read_def ERROR_TAR_def word_sless_alt)

section \<open>The search on a damaged archive\<close>



text \<open>A header that claims a size of \<open>2 ^ 32 - 512\<close> bytes leads back to its own sector: the sector number
  grows by \<open>2 ^ 23\<close>, and its product with 512 is a 32-bit number.\<close>

lemma find_loop_stuck:
  assumes disk: "ramdisk i d st" and h: "valid_header (sector d 0)" "file_size (sector d 0) = 2 ^ 32 - 512" "\<not> matches (sector d 0)"
    and hdr: "length hdr = 512"
  shows "find_loop matches ops i (of_nat (2 ^ 23 * k)) hdr st = None"
proof -
  have step: "next_sect (of_nat (2 ^ 23 * k)) (sector d 0) = of_nat (2 ^ 23 * Suc k)" for k
    unfolding next_sect_def h(2) by (simp add: TAR_SIZE_def)
  have rd: "read_tar_header ops i (ucast (of_nat (2 ^ 23 * k) :: u64)) hdr st = Some (NOERROR_TAR, sector d 0, st)"
    if "length hdr = 512" for k hdr
  proof -
    have z: "ucast (of_nat (2 ^ 23 * k) :: u64) * TAR_SIZE = (0 :: u32)"
    proof -
      have "(ucast (of_nat (2 ^ 23 * k) :: u64) :: u32) = of_nat (2 ^ 23 * k)"
        by transfer simp
      then have "ucast (of_nat (2 ^ 23 * k) :: u64) * TAR_SIZE = (of_nat (2 ^ 32) * of_nat k :: u32)"
        by (simp add: TAR_SIZE_def)
      moreover have "(of_nat (2 ^ 32) :: u32) = 0" by transfer simp
      ultimately show ?thesis by (simp only: mult_zero_left)
    qed
    then show ?thesis using read_tar_header_ok [OF disk that h(1), of ops] by (simp add: read_tar_header_def TAR_SIZE_def)
  qed
  let ?here = "\<lambda>f ops' j (s :: u64) (h' :: tar_header) st'. f = matches \<and> ops' = ops \<and> j = i \<and> st' = st \<and> length h' = 512 \<and> (\<exists>k. s = of_nat (2 ^ 23 * k))"
  have "\<not> ?here matches ops i (of_nat (2 ^ 23 * k)) hdr st" if "find_loop matches ops i (of_nat (2 ^ 23 * k)) hdr st = Some r" for r
    using _ that
  proof (rule find_loop.raw_induct [of "\<lambda>f ops' j s h' st' r. \<not> ?here f ops' j s h' st'"])
    fix rec f j s h' st' r and ops' :: "('a, 'c) dev_ops_scheme"
    assume IH: "\<And>f ops' j s h' st' r. rec f ops' j s h' st' = Some r \<Longrightarrow> \<not> ?here f ops' j s h' st'"
      and eq: "(case read_tar_header ops' j (ucast s) h' st' of None \<Rightarrow> None
        | Some (e, hdr, st) \<Rightarrow> if e \<noteq> 0 then Some (ERROR_TAR, None, st)
            else if \<not> f hdr then rec f ops' j (next_sect s hdr) hdr st else Some (NOERROR_TAR, Some (hdr, s), st)) = Some r"
    show "\<not> ?here f ops' j s h' st'"
    proof
      assume "?here f ops' j s h' st'"
      then obtain k where k: "f = matches" "ops' = ops" "j = i" "st' = st" "length h' = 512" "s = of_nat (2 ^ 23 * k)" by blast
      have "rec matches ops i (of_nat (2 ^ 23 * Suc k)) (sector d 0) st = Some r"
        using eq rd [OF k(5), of k] step [of k] h(3) unfolding k by (simp add: NOERROR_TAR_def)
      moreover have "length (sector d 0) = 512" using h(1) by (simp only: valid_header_def)
      ultimately show False using IH by blast
    qed
  qed
  then show ?thesis using hdr by (cases "find_loop matches ops i (of_nat (2 ^ 23 * k)) hdr st") blast+
qed

text \<open>On an archive whose first header claims a size of \<open>2 ^ 32 - 512\<close> bytes the search for any other path
  never ends: the sector number overflows in the offset that is read, which is that of the first header
  again. Opening a file on such a disk hangs the kernel.\<close>

theorem find_file_hangs:
  assumes "ramdisk i d st" "valid_header (sector d 0)" "file_size (sector d 0) = 2 ^ 32 - 512"
    "0 \<notin> set path" "length (cstr (sector d 0)) < 512" "cstr (sector d 0) \<noteq> path" "length junk = 512"
  shows "find_file ops i path None junk st = None"
proof -
  have "\<not> same_name path (sector d 0)"
    using same_name_cstr [OF assms(4), of "sector d 0"] assms(2,5,6) by (simp only: valid_header_def not_False_eq_True)
  from find_loop_stuck [of i d st "same_name path" junk ops 0, OF assms(1-3) this assms(7)] show ?thesis by (simp add: find_file_def)
qed

definition looping_disk :: "u8 list" where
  "looping_disk = [0x61] @ replicate 123 0 @ [0x33, 0x37, 0x37, 0x37, 0x37, 0x37, 0x37, 0x37, 0x30, 0x30, 0x30] @ replicate 122 0 @
     [0x75, 0x73, 0x74, 0x61, 0x72, 0, 0x30, 0x30] @ replicate 247 0"

lemma looping_disk_header:
  "valid_header (sector looping_disk 0)" "cstr (sector looping_disk 0) = [0x61]" "length looping_disk = 512"
  "file_size (sector looping_disk 0) = 2 ^ 32 - 512"
proof -
  have l: "sector looping_disk 0 = looping_disk" "length looping_disk = 512" by (simp_all add: looping_disk_def)
  then show "length looping_disk = 512" by simp
  show "valid_header (sector looping_disk 0)" "cstr (sector looping_disk 0) = [0x61]"
    unfolding l by (simp_all add: valid_header_def looping_disk_def hdr_magic_def hdr_version_def cstr_def)
  have "chars_of (hdr_fileSize looping_disk) = map itoc [3, 7, 7, 7, 7, 7, 7, 7, 0, 0, 0]"
    by (simp add: looping_disk_def hdr_fileSize_def chars_of_def cstr_def itoc_def)
  moreover have "strtoux (map itoc [3, 7, 7, 7, 7, 7, 7, 7, 0, 0, 0]) 8 = (2 ^ 32 - 512 :: u64, 11)"
    using strtoux_digits [of 8 "[3, 7, 7, 7, 7, 7, 7, 7, 0, 0, 0]", where ?'a = 64] by simp
  ultimately show "file_size (sector looping_disk 0) = 2 ^ 32 - 512" unfolding l by (simp add: file_size_def strtoull_def)
qed

theorem find_file_hangs_witness:
  "find_file no_dev 0 [0x62] None (replicate 512 0)
     (one_disk (zero_disk\<lparr>d_present := True, d_type := DISK_TYPE_RAMDISK, rd_data := looping_disk\<rparr>)) = None"
  by (rule find_file_hangs [of 0 looping_disk])
    (use looping_disk_header in \<open>simp_all add: ramdisk_def one_disk_def\<close>)

section \<open>The tables\<close>

text \<open>A present disk has its index as id, and a present file system the disk of its own index and the
  functions of a driver.\<close>

definition fs_tables_ok :: "('m, 'a) fs_state_scheme \<Rightarrow> bool" where
  "fs_tables_ok st \<longleftrightarrow>
     (\<forall>i. d_present (fs_disks st i) \<longrightarrow> i < N_DISKS \<and> d_id (fs_disks st i) = i) \<and>
     (\<forall>i. fs_present (fs_loaded_file_systems st i) \<longrightarrow>
        d_present (fs_disks st i) \<and> fs_id (fs_loaded_file_systems st i) = i \<and>
        fs_disk (fs_loaded_file_systems st i) = Some i \<and> fs_vtable (fs_loaded_file_systems st i) = Some TarDriver)"

lemma disk_read_tables:
  "disk_read ops i off n st = Some (r, bs, st') \<Longrightarrow>
   fs_disks st' = fs_disks st \<and> fs_loaded_file_systems st' = fs_loaded_file_systems st"
  by (auto simp: disk_read_def disk_read_ata_def Let_def split: disk_type.splits if_splits prod.splits)

lemma read_tar_header_tables:
  "read_tar_header ops i s h st = Some (e, h', st') \<Longrightarrow>
   fs_disks st' = fs_disks st \<and> fs_loaded_file_systems st' = fs_loaded_file_systems st"
  by (auto simp: read_tar_header_def Let_def split: if_splits prod.splits bind_splits dest!: disk_read_tables)

lemma load_fs_tables:
  assumes ok: "fs_tables_ok st" and d: "d_present (fs_disks st i)" and ld: "load_fs (tar_mount ops junk) i st = Some st'"
  shows "fs_tables_ok st' \<and> fs_disks st' = fs_disks st"
proof -
  have i: "d_id (fs_disks st i) = i" using ok d by (simp add: fs_tables_ok_def)
  show ?thesis
    using ok d ld unfolding load_fs_def i
    by (auto simp: tar_mount_def Let_def fs_tables_ok_def SUCCESS_def NOERROR_TAR_def ERROR_TAR_def
        split: if_splits prod.splits bind_splits dest!: read_tar_header_tables)
qed

lemma load_all_tables:
  "fs_tables_ok st \<Longrightarrow> load_all (tar_mount ops junk) i n st = Some st' \<Longrightarrow> fs_tables_ok st' \<and> fs_disks st' = fs_disks st"
proof (induction n arbitrary: i st)
  case (Suc n)
  then obtain st1 where 1: "(if d_present (fs_disks st i) then load_fs (tar_mount ops junk) i st else Some st) = Some st1"
    "load_all (tar_mount ops junk) (Suc i) n st1 = Some st'"
    by (auto split: bind_splits)
  then have "fs_tables_ok st1 \<and> fs_disks st1 = fs_disks st"
    using Suc.prems(1) load_fs_tables [of st i ops junk st1] by (auto split: if_splits)
  then show ?case using Suc.IH [OF _ 1(2)] by auto
qed simp

definition disks_ok :: "nat \<Rightarrow> (nat \<Rightarrow> disk) \<Rightarrow> bool" where
  "disks_ok idx disks \<longleftrightarrow> (\<forall>i. d_present (disks i) \<longleftrightarrow> i < idx) \<and> (\<forall>i<idx. i < N_DISKS \<and> d_id (disks i) = i)"

lemma load_ide_ok:
  "disks_ok idx disks \<Longrightarrow> load_ide ide idx disks = Some (idx', disks') \<Longrightarrow> disks_ok idx' disks' \<and> idx' = idx + length ide"
proof (induction ide arbitrary: idx disks)
  case (Cons dv ide)
  then obtain disks1 where 1: "idx < N_DISKS" "disks1 = disks(idx := zero_disk\<lparr>d_present := True, d_id := idx, d_type := DISK_TYPE_ATA, d_ide := dv\<rparr>)"
    "load_ide ide (idx + 1) disks1 = Some (idx', disks')"
    by (auto simp: add_disk_def split: if_splits bind_splits)
  have "disks_ok (idx + 1) disks1" using Cons.prems(1) 1(1) by (auto simp: disks_ok_def 1(2))
  from Cons.IH [OF this 1(3)] show ?case by auto
qed simp

lemma load_disks_ok:
  assumes "load_disks rd ide (\<lambda>_. zero_disk) = Some disks"
  shows "disks_ok ((if rd = None then 0 else 1) + length ide) disks"
proof -
  have 0: "disks_ok 0 (\<lambda>_. zero_disk)" by (simp add: disks_ok_def zero_disk_def)
  have "disks_ok 1 ((\<lambda>_. zero_disk)(0 := zero_disk\<lparr>d_present := True, d_id := 0, d_type := DISK_TYPE_RAMDISK, rd_data := bytes\<rparr>))" for bytes
    by (auto simp: disks_ok_def zero_disk_def N_DISKS_def)
  note 1 = this
  obtain idx where "load_ide ide (if rd = None then 0 else 1) (case rd of None \<Rightarrow> \<lambda>_. zero_disk
     | Some bytes \<Rightarrow> (\<lambda>_. zero_disk)(0 := zero_disk\<lparr>d_present := True, d_id := 0, d_type := DISK_TYPE_RAMDISK, rd_data := bytes\<rparr>)) = Some (idx, disks)"
    using assms by (cases rd) (auto simp: load_disks_def add_disk_def N_DISKS_def split: bind_splits)
  from load_ide_ok [OF _ this] 0 1 show ?thesis by (cases rd) auto
qed



end
