(* ===== verification/Loader.thy ===== *)
theory Loader
  imports Tar User
begin

text \<open>
  The program loader on the tar file system: the operations of an open file that \<open>User\<close> takes as
  arguments are those of \<open>Tar\<close>. The locale \<open>byte_file\<close> of the loader is interpreted by an open file of an
  archive, so what the loader proves of such a file holds for programs of the initial RAM disk.
\<close>

text \<open>The state behind an open file, and the memory a segment is copied to.\<close>

record 'm vfs = "'m tar_state" +
  kmem :: "u64 \<Rightarrow> u8"

definition tar_env ::
  "('d, 'c) dev_ops_scheme \<Rightarrow> (('d, 'a) vfs_scheme, 'b) env_ops_scheme \<Rightarrow> (('d, 'a) vfs_scheme, 'b) env_ops_scheme" where
  "tar_env dops base = base\<lparr>op_fseek := \<lambda>f off whence m. tar_seek f off whence m,
     op_fread := \<lambda>f n m. tar_read dops f n m, op_fclose := \<lambda>f m. tar_close dops f m,
     op_copy_to := \<lambda>a bs m. Some (m\<lparr>kmem := stored a bs (kmem m)\<rparr>)\<rparr>"

lemma open_at_kmem [simp]: "open_at f content k (m\<lparr>kmem := x\<rparr>) \<longleftrightarrow> open_at f content k m"
  by (simp add: open_at_def file_disk_def ramdisk_def)

interpretation tar_file: byte_file "tar_env dops base" fp content "open_at fp content" kmem UNIV
  for dops :: "('d, 'c) dev_ops_scheme" and base :: "(('d, 'a) vfs_scheme, 'b) env_ops_scheme" and fp :: u64 and content :: "u8 list"
proof (unfold_locales, goal_cases)
  case (1 k m)
  then show ?case by (rule open_at_small)
next
  case (2 k m j)
  have "j < 2 ^ 31" using open_at_small [OF 2(1)] 2(2) by simp
  then show ?case
    using tar_seek_open [OF 2] of_nat_not_neg [of j] by (auto simp: tar_env_def SEEK_SET_def)
next
  case (3 k m n)
  then show ?case using tar_read_open [OF 3, of dops] by (auto simp: tar_env_def)
next
  case (4 k m bs a)
  then show ?case by (simp add: tar_env_def)
qed

section \<open>Programs of the initial RAM disk\<close>

text \<open>C8: A program in the archive of the initial RAM disk arrives in the kernel as it is in the archive: opening
  its path gives a file from which \<^verbatim>\<open>user_load_elf\<close> reads exactly the header and the program headers of
  the image into the process control block, and for every segment the read loop returns and leaves at
  the mapping of the segment exactly the bytes of the archive, with the rest of memory unchanged.\<close>

theorem archive_program_is_read:
  assumes disk: "ramdisk dsk d (memory st)" "fs_disk (fs_loaded_file_systems (memory st) i) = Some dsk" "length junk = 512"
    and arch: "holds d 0 es" "0 \<notin> set path" "locate path 0 es = Some (e, s)"
    and mem: "dev_alloc dops sizeof_tar_file (dev (memory st)) = (f, dm)" "f \<noteq> 0"
    and wf: "length (e_ident (elf_header (ptable st p))) = 16"
    and h: "take sizeof_ehdr (te_data e) = ehdr_bytes h" "length (e_ident h) = 16" "validate_elf_hdr h = 0"
    and ps: "take (sizeof_phdr * length ps) (drop (unat (e_phoff h)) (te_data e)) = concat (map phdr_bytes ps)"
      "length ps = unat (e_phnum h)" "0 < length ps" "unat (e_phoff h) + sizeof_phdr * length ps \<le> length (te_data e)"
    and seg: "j < length ps" "unat (p_offset (ps ! j)) + unat (p_filesz (ps ! j)) \<le> length (te_data e)"
  shows "\<exists>m st1 r m1 st2.
    tar_open dops i path O_RDONLY junk s0 (memory st) = Some (NOERROR_TAR, Some f, m) \<and>
    user_load_elf (tar_env dops base) p f (st\<lparr>memory := m\<rparr>) = Some (0, st1) \<and>
    elf_header (ptable st1 p) = h \<and> (\<forall>k<length ps. elf_segments (ptable st1 p) k = ps ! k) \<and>
    tar_seek f (p_offset (ps ! j)) SEEK_SET (memory st1) = Some (r, m1) \<and>
    load_data (tar_env dops base) f dst (p_filesz (ps ! j)) 0 (st1\<lparr>memory := m1\<rparr>) = Some (0, st2) \<and>
    kmem (memory st2) =
      stored dst (take (unat (p_filesz (ps ! j))) (drop (unat (p_offset (ps ! j))) (te_data e))) (kmem (memory st))"
proof -
  let ?off = "unat (p_offset (ps ! j))" and ?n = "unat (p_filesz (ps ! j))"
  obtain T where m: "tar_open dops i path O_RDONLY junk s0 (memory st) = Some (NOERROR_TAR, Some f, memory st\<lparr>tar_files := T, dev := dm\<rparr>)"
    "open_at f (te_data e) 0 (memory st\<lparr>tar_files := T, dev := dm\<rparr>)"
    using tar_open_opens [OF disk arch mem] by blast
  let ?st = "st\<lparr>memory := memory st\<lparr>tar_files := T, dev := dm\<rparr>\<rparr>"
  have "open_at f (te_data e) 0 (memory ?st)" "length (e_ident (elf_header (ptable ?st p))) = 16" using m(2) wf by simp_all
  from tar_file.user_load_elf_reads [OF this h ps, of dops base] obtain st1 where
    st1: "user_load_elf (tar_env dops base) p f ?st = Some (0, st1)" "elf_header (ptable st1 p) = h"
      "\<forall>k<length ps. elf_segments (ptable st1 p) k = ps ! k" "\<exists>q. open_at f (te_data e) q (memory st1)"
      "kmem (memory st1) = kmem (memory st)"
    by auto
  obtain q where q: "open_at f (te_data e) q (memory st1)" using st1(4) by blast
  have "?off \<le> length (te_data e)" using seg(2) by simp
  from tar_seek_open [OF q this] obtain T' where
    s: "tar_seek f (p_offset (ps ! j)) SEEK_SET (memory st1) = Some (of_nat ?off, memory st1\<lparr>tar_files := T'\<rparr>)"
      "open_at f (te_data e) ?off (memory st1\<lparr>tar_files := T'\<rparr>)"
    by (auto simp: SEEK_SET_def)
  let ?st1 = "st1\<lparr>memory := memory st1\<lparr>tar_files := T'\<rparr>\<rparr>"
  have "open_at f (te_data e) (?off + 0) (memory ?st1)" using s(2) by simp
  from tar_file.load_data_copies [OF this _ seg(2), of dst dops base] obtain st2 where
    "load_data (tar_env dops base) f dst (p_filesz (ps ! j)) 0 ?st1 = Some (0, st2)"
    "kmem (memory st2) = stored dst (take ?n (drop ?off (te_data e))) (kmem (memory st))"
    using st1(5) by force
  then show ?thesis using m(1) st1(1-3) s(1) by blast
qed

text \<open>The program of one segment, alone in an archive.\<close>

definition init_header :: "u8 list" where
  "init_header = [0x61] @ replicate 123 0 @ [0x31, 0x37, 0x34] @ replicate 130 0 @
     [0x75, 0x73, 0x74, 0x61, 0x72, 0, 0x30, 0x30] @ replicate 247 0"

definition init_disk :: "u8 list" where
  "init_disk = init_header @ hello_image @ replicate 388 0"

definition init_entry :: tar_entry where
  "init_entry = \<lparr>te_path = [0x61], te_data = hello_image\<rparr>"

lemma init_is_header: "is_header init_header init_entry"
proof -
  have "chars_of (hdr_fileSize init_header) = map itoc [1, 7, 4]"
    by (simp add: init_header_def hdr_fileSize_def chars_of_def cstr_def itoc_def)
  moreover have "strtoux (map itoc [1, 7, 4]) 8 = (124 :: u64, 3)"
    using strtoux_digits [of 8 "[1, 7, 4]", where ?'a = 64] by simp
  ultimately have "file_size init_header = 124" by (simp add: file_size_def strtoull_def)
  then show ?thesis
    by (simp add: is_header_def valid_header_def init_entry_def hello_image_parts) (simp add: init_header_def cstr_def hdr_magic_def hdr_version_def)
qed

lemma init_holds: "holds init_disk 0 [init_entry]"
proof -
  have "length init_header = 512" using init_is_header by (simp add: is_header_def valid_header_def)
  then have "sector init_disk 0 = init_header" "length init_disk = 1024" "take 124 (drop 512 init_disk) = hello_image"
    by (simp_all add: init_disk_def hello_image_parts)
  then show ?thesis
    using init_is_header by (simp add: data_at_def init_entry_def next_header_def hello_image_parts)
qed

definition init_state :: "unit vfs" where
  "init_state = tar_state.extend (tiny_state\<lparr>fs_disks := \<lambda>_. zero_disk\<lparr>d_present := True, d_type := DISK_TYPE_RAMDISK, rd_data := init_disk\<rparr>\<rparr>)
     \<lparr>kmem = \<lambda>_. 0\<rparr>"

lemma init_state_disk:
  "ramdisk 0 init_disk init_state" "fs_disk (fs_loaded_file_systems init_state 0) = Some 0" "dev init_state = ()" "kmem init_state = (\<lambda>_. 0)"
proof -
  have "length init_disk = 1024" using init_is_header by (simp add: init_disk_def is_header_def valid_header_def hello_image_parts)
  then show "ramdisk 0 init_disk init_state" by (simp add: ramdisk_def init_state_def tar_state.defs)
  show "fs_disk (fs_loaded_file_systems init_state 0) = Some 0" "dev init_state = ()" "kmem init_state = (\<lambda>_. 0)"
    using tiny_state_disk by (simp_all add: init_state_def tar_state.defs)
qed

definition init_kernel :: "unit vfs ukernel" where
  "init_kernel = (let q = \<lparr>head = None, tail = None, order = O_PCB_FIFO\<rparr> in
     \<lparr>ptable = (\<lambda>_. zero_pcb), pcb_freelist = q, ready_queue = q, zombie_queue = q,
      syscall_queue = (\<lambda>_. q), current_pcb = None, init_pcb = None, next_pid = 1, ticks = 0, memory = init_state,
      load_buffer = None\<rparr>)"

definition init_ops :: "unit vfs env_ops" where
  "init_ops = \<lparr>op_ctx_free = \<lambda>_. Some, op_store_status = \<lambda>_ _ _. Some, op_pgdir = \<lambda>_ _. 0x5000,
     op_ctx_alloc = \<lambda>m. (Some (UserCtx 0), m), op_ctx_clone = \<lambda>c _ m. Some (c, m),
     op_alloc_pages_at = \<lambda>_ _ v _ m. (v, m), op_kmapuser = \<lambda>_ v _ m. (v, m), op_kunmap = \<lambda>_ m. m,
     op_kalloc = \<lambda>_ m. (0x9000, m), op_fresh = \<lambda>_ _. 0, op_copy_to = \<lambda>_ _. Some, op_args = \<lambda>_ _ _. Some [],
     op_fseek = \<lambda>_ off _ m. None, op_fread = \<lambda>_ n m. None, op_fclose = \<lambda>_ m. m\<rparr>"

theorem archive_program_is_read_witness:
  "\<exists>m st1 r m1 st2.
    tar_open no_dev 0 [0x61] O_RDONLY (replicate 512 0) 0 init_state = Some (NOERROR_TAR, Some 0x1000, m) \<and>
    user_load_elf (tar_env no_dev init_ops) 2 0x1000 (init_kernel\<lparr>memory := m\<rparr>) = Some (0, st1) \<and>
    elf_header (ptable st1 2) = hello_ehdr \<and>
    tar_seek 0x1000 120 0 (memory st1) = Some (r, m1) \<and>
    load_data (tar_env no_dev init_ops) 0x1000 0x400000 4 0 (st1\<lparr>memory := m1\<rparr>) = Some (0, st2) \<and>
    kmem (memory st2) = stored 0x400000 [0xF4, 0xEB, 0xFD, 0x90] (\<lambda>_. 0)"
proof -
  have k: "memory init_kernel = init_state" "elf_header (ptable init_kernel 2) = zero_ehdr"
    by (simp_all add: init_kernel_def Let_def zero_pcb_def)
  have e: "te_data init_entry = hello_image" "te_path init_entry = [0x61]" by (simp_all add: init_entry_def)
  have hd: "length (e_ident hello_ehdr) = 16" "validate_elf_hdr hello_ehdr = 0" "e_phnum hello_ehdr = 1" "e_phoff hello_ehdr = 64"
    by (simp_all add: validate_elf_hdr_def hello_ehdr_def N_ELF_SEGMENTS_def)
  have ph: "p_filesz hello_phdr = 4" "p_offset hello_phdr = 120" by (simp_all add: hello_phdr_def)
  show ?thesis
    using archive_program_is_read [of 0 init_disk init_kernel 0 "replicate 512 0" "[init_entry]" "[0x61]" init_entry 0
        no_dev "0x1000" "()" 2 hello_ehdr "[hello_phdr]" 0 0 init_ops "0x400000"]
      init_state_disk init_holds k e hd ph hello_image_parts
    by (auto simp: no_dev_def SEEK_SET_def sizeof_ehdr_def sizeof_phdr_def zero_ehdr_def)
qed

end
