(* ===== verification/Physalloc.thy ===== *)
theory Physalloc
  imports Prelude
begin

text \<open>
  The physical page allocator of \<^verbatim>\<open>kernel/memory/physalloc.c\<close>: a bitmap with one bit per
  page (1 for a page in use) over the pages of the free segments of the boot memory map, in the
  order of the map. Before its tables exist the allocator hands out pages by bumping
  \<^verbatim>\<open>memory_start\<close>. An access outside the bitmap is \<open>None\<close>.

  The model keeps the widths of the C. \<^verbatim>\<open>bitmap_set\<close> shifts the \<^verbatim>\<open>int\<close> constant 1 by up to
  63: the target's 32-bit shift instruction takes its count modulo 32, and the \<^verbatim>\<open>int\<close> result
  is sign-extended when it meets the 64-bit word. The lemmas show what that does: below bit 31
  of a word the operation is exact, at bit 31 it acts on the whole upper half, and above it acts
  on the bit 32 below. Allocation is nevertheless sound (\<open>alloc_phys_pages_exact_sound\<close>),
  because in every word the bits 31 to 63 move together; freeing a run that crosses bit 31 is not.
\<close>

section \<open>State\<close>

record memory_segment =
  seg_addr :: u64
  seg_len :: u64
  seg_type :: u32

text \<open>The static variables of the file, and the linker symbols \<^verbatim>\<open>kernel_start\<close> and
  \<^verbatim>\<open>kernel_end\<close>. \<open>page_start\<close> is the address of the segment table (0 for \<^verbatim>\<open>NULL\<close>) and
  \<open>page_area\<close> its contents.\<close>

record physalloc =
  kernel_start :: u64
  kernel_end :: u64
  kernel_real_end :: u64
  memory_start :: u64
  bitmap :: "u64 list option"
  total_memory :: u64
  free_memory :: u64
  page_count :: u64
  segment_count :: u64
  page_start :: u64
  page_area :: "memory_segment list"
  phys_mmap :: "memory_segment list"

definition SEG_TYPE_FREE :: u32 where "SEG_TYPE_FREE = 0"

text \<open>\<^verbatim>\<open>sizeof(struct memory_segment)\<close>: two 8-byte members, a 4-byte member and padding.\<close>

definition sizeof_segment :: u64 where "sizeof_segment = 24"

section \<open>Segments and pages\<close>

text \<open>\<^verbatim>\<open>n_pages\<close> returns an \<^verbatim>\<open>int\<close>; its callers extend it to 64 bits.\<close>

definition n_pages :: "memory_segment \<Rightarrow> u32" where
  "n_pages m = ucast ((seg_len m + PAGE_SIZE - 1) div PAGE_SIZE)"

fun page_at_loop :: "u64 \<Rightarrow> u64 \<Rightarrow> memory_segment list \<Rightarrow> u64" where
  "page_at_loop i cur_page [] = 0"
| "page_at_loop i cur_page (m # ms) =
     (let pages = scast (n_pages m)
      in if i - cur_page < pages then seg_addr m + PAGE_SIZE * (i - cur_page)
         else page_at_loop i (cur_page + pages) ms)"

definition page_at :: "u64 \<Rightarrow> 'a physalloc_scheme \<Rightarrow> u64" where
  "page_at i st = page_at_loop i 0 (take (unat (segment_count st)) (page_area st))"

text \<open>The second test adds the length to the address of the table entry \<open>mp\<close>, not to the
  address of the segment, as the source does. The result \<^verbatim>\<open>-1\<close> is the all-ones word.\<close>

fun page_idx_loop :: "u64 \<Rightarrow> u32 \<Rightarrow> u64 \<Rightarrow> memory_segment list \<Rightarrow> u64" where
  "page_idx_loop addr cur_page mp [] = -1"
| "page_idx_loop addr cur_page mp (m # ms) =
     (if addr < seg_addr m then -1
      else if mp + seg_len m > addr then scast cur_page + (addr - seg_addr m) div PAGE_SIZE
      else page_idx_loop addr (cur_page + n_pages m) (mp + sizeof_segment) ms)"

definition page_idx :: "u64 \<Rightarrow> 'a physalloc_scheme \<Rightarrow> u64" where
  "page_idx page st =
     page_idx_loop page 0 (page_start st) (take (unat (segment_count st)) (page_area st))"

section \<open>The bitmap\<close>

definition bitmap_get :: "nat \<Rightarrow> 'a physalloc_scheme \<Rightarrow> bool option" where
  "bitmap_get i st =
     (case bitmap st of
        None \<Rightarrow> None
      | Some ws \<Rightarrow>
          if i div 64 < length ws then Some (drop_bit (i mod 64) (ws ! (i div 64)) AND 1 = 1)
          else None)"

text \<open>A shift of an \<^verbatim>\<open>int\<close> on the target.\<close>

definition int_shl :: "u32 \<Rightarrow> nat \<Rightarrow> u32" where
  "int_shl w k = push_bit (k mod 32) w"

definition set_bit_word :: "nat \<Rightarrow> bool \<Rightarrow> u64 \<Rightarrow> u64" where
  "set_bit_word k v w =
     (w AND scast (NOT (int_shl 1 k))) OR scast (int_shl (of_bool v) k)"

definition bitmap_set :: "nat \<Rightarrow> bool \<Rightarrow> 'a physalloc_scheme \<Rightarrow> 'a physalloc_scheme option" where
  "bitmap_set i v st =
     (let st1 = (if v then st\<lparr>free_memory := free_memory st - PAGE_SIZE\<rparr>
                 else st\<lparr>free_memory := free_memory st + PAGE_SIZE\<rparr>);
          idx = i div 64
      in case bitmap st of
           None \<Rightarrow> None
         | Some ws \<Rightarrow>
             if idx < length ws
             then Some (st1\<lparr>bitmap := Some (ws[idx := set_bit_word (i mod 64) v (ws ! idx)])\<rparr>)
             else None)"

text \<open>\<^verbatim>\<open>for (j = 0; j < pages; j++) bitmap_set(start + j, v)\<close>\<close>

fun bitmap_set_range :: "nat \<Rightarrow> nat \<Rightarrow> bool \<Rightarrow> 'a physalloc_scheme \<Rightarrow> 'a physalloc_scheme option" where
  "bitmap_set_range start 0 v st = Some st"
| "bitmap_set_range start (Suc n) v st =
     (case bitmap_set start v st of None \<Rightarrow> None | Some st' \<Rightarrow> bitmap_set_range (Suc start) n v st')"

section \<open>Allocating and freeing\<close>

function alloc_loop :: "nat \<Rightarrow> nat \<Rightarrow> nat \<Rightarrow> nat \<Rightarrow> 'a physalloc_scheme
    \<Rightarrow> (u64 \<times> 'a physalloc_scheme) option" where
  "alloc_loop pages i n_contiguous free_region_start st =
     (if i < unat (page_count st) then
        (case bitmap_get i st of
           None \<Rightarrow> None
         | Some used \<Rightarrow>
             if \<not> used then
               (let start = (if n_contiguous = 0 then i else free_region_start);
                    n = n_contiguous + 1
                in if n = pages then
                     (let pADDR = page_at (of_nat start) st
                      in if pADDR = 0 then alloc_loop pages (i + 1) 0 start st
                         else (case bitmap_set_range start pages True st of
                                 None \<Rightarrow> None
                               | Some st' \<Rightarrow> Some (pADDR, st')))
                   else alloc_loop pages (i + 1) n start st)
             else alloc_loop pages (i + 1) 0 free_region_start st)
      else Some (0, st))"
  by pat_completeness auto
termination
  by (relation "measure (\<lambda>(pages, i, n, start, st). unat (page_count st) - i)") auto

declare alloc_loop.simps [simp del]

definition alloc_phys_pages_exact ::
  "u64 \<Rightarrow> 'a physalloc_scheme \<Rightarrow> (u64 \<times> 'a physalloc_scheme) option" where
  "alloc_phys_pages_exact pages st =
     (if pages < 1 then Some (0, st)
      else if bitmap st = None \<or> page_start st = 0 then
        (if pages = 1
         then Some (memory_start st, st\<lparr>memory_start := memory_start st + PAGE_SIZE\<rparr>)
         else None)
      else alloc_loop (unat pages) 0 0 0 st)"

definition alloc_phys_page :: "'a physalloc_scheme \<Rightarrow> (u64 \<times> 'a physalloc_scheme) option" where
  "alloc_phys_page st = alloc_phys_pages_exact 1 st"

text \<open>\<^verbatim>\<open>alloc_phys_page_withextra\<close> and \<^verbatim>\<open>free_phys_pages_slice\<close> start with a call of
  \<^verbatim>\<open>panic\<close>.\<close>

definition alloc_phys_page_withextra ::
  "u64 \<Rightarrow> 'a physalloc_scheme \<Rightarrow> ((u64 \<times> u64) \<times> 'a physalloc_scheme) option" where
  "alloc_phys_page_withextra max_pages st = None"

definition free_phys_pages_slice ::
  "u64 \<times> u64 \<Rightarrow> 'a physalloc_scheme \<Rightarrow> 'a physalloc_scheme option" where
  "free_phys_pages_slice sl st = None"

text \<open>\<^verbatim>\<open>bitmap_set(idx + i, false)\<close> for the pages in turn; the sum is taken in 64 bits.\<close>

fun free_loop :: "u64 \<Rightarrow> nat \<Rightarrow> nat \<Rightarrow> 'a physalloc_scheme \<Rightarrow> 'a physalloc_scheme option" where
  "free_loop idx i 0 st = Some st"
| "free_loop idx i (Suc n) st =
     (case bitmap_set (unat (idx + of_nat i)) False st of
        None \<Rightarrow> None
      | Some st' \<Rightarrow> free_loop idx (Suc i) n st')"

definition free_phys_pages :: "u64 \<Rightarrow> u64 \<Rightarrow> 'a physalloc_scheme \<Rightarrow> 'a physalloc_scheme option" where
  "free_phys_pages ptr pages st =
     (if ptr = 0 then Some st
      else let idx = page_idx ptr st
           in if idx = -1 then Some st else free_loop idx 0 (unat pages) st)"

definition free_phys_page :: "u64 \<Rightarrow> 'a physalloc_scheme \<Rightarrow> 'a physalloc_scheme option" where
  "free_phys_page ptr st = free_phys_pages ptr 1 st"

section \<open>Initialisation\<close>

definition segment_invalid :: "memory_segment \<Rightarrow> 'a physalloc_scheme \<Rightarrow> bool" where
  "segment_invalid s st \<longleftrightarrow>
     seg_len s < 1 \<or> seg_type s \<noteq> SEG_TYPE_FREE \<or> seg_addr s < kernel_start st \<or>
     seg_addr s + seg_len s < memory_start st \<or> seg_addr s + seg_len s < kernel_start st"

text \<open>The returned structure's \<^verbatim>\<open>type\<close> member is never set (and never read).\<close>

definition clamp_segment :: "memory_segment \<Rightarrow> 'a physalloc_scheme \<Rightarrow> memory_segment" where
  "clamp_segment s st =
     (let start = (if memory_start st \<noteq> 0 then memory_start st else kernel_real_end st)
      in if seg_addr s < start
         then s\<lparr>seg_addr := start, seg_len := seg_len s - (start - seg_addr s)\<rparr>
         else s)"

definition page_align :: "u64 \<Rightarrow> u64" where
  "page_align ptr = (ptr + PAGE_SIZE - 1) div PAGE_SIZE * PAGE_SIZE"

fun count_segments :: "memory_segment list \<Rightarrow> 'a physalloc_scheme \<Rightarrow> 'a physalloc_scheme" where
  "count_segments [] st = st"
| "count_segments (s # ss) st =
     (if segment_invalid s st then count_segments ss st
      else count_segments ss
             (st\<lparr>page_count := page_count st + scast (n_pages (clamp_segment s st)),
                 segment_count := segment_count st + 1\<rparr>))"

definition fill_segments :: "memory_segment list \<Rightarrow> 'a physalloc_scheme \<Rightarrow> memory_segment list" where
  "fill_segments ss st =
     map (\<lambda>s. clamp_segment s st) (filter (\<lambda>s. \<not> segment_invalid s st) ss)"

text \<open>\<open>mboot_end\<close> is the value \<^verbatim>\<open>mboot_end()\<close> returns; \<open>kmapaddr phys len\<close> maps memory of
  the kernel (\<^verbatim>\<open>kmapaddr(phys, NULL, len, F_WRITEABLE)\<close>). Both tables are zeroed after they
  are mapped; a null mapping is an access through \<^verbatim>\<open>NULL\<close>.\<close>

definition physalloc_init :: "u64 \<Rightarrow>
    (u64 \<Rightarrow> u64 \<Rightarrow> 'a physalloc_scheme \<Rightarrow> (u64 \<times> 'a physalloc_scheme) option) \<Rightarrow>
    memory_segment list \<Rightarrow> 'a physalloc_scheme \<Rightarrow> 'a physalloc_scheme option" where
  "physalloc_init mboot_end kmapaddr mmap st =
     (let st = st\<lparr>bitmap := None, total_memory := 0, free_memory := 0, page_count := 0,
                  page_start := 0, page_area := [], phys_mmap := mmap, segment_count := 0,
                  kernel_real_end :=
                    (if mboot_end < kernel_end st then kernel_end st else mboot_end)\<rparr>;
          st = count_segments mmap st;
          bitmap_pages = page_count st div 64 div PAGE_SIZE + 1;
          bitmap_size = bitmap_pages * PAGE_SIZE;
          bitmap_addr = page_align (kernel_real_end st);
          page_area_size = segment_count st * sizeof_segment;
          page_area_addr = page_align (bitmap_addr + bitmap_size);
          st = st\<lparr>memory_start := page_align (page_area_addr + page_area_size)\<rparr>
      in do {
        (bitmap_virt, st) \<leftarrow> kmapaddr bitmap_addr bitmap_size st;
        st \<leftarrow> (if bitmap_virt = 0 then None
               else Some (st\<lparr>bitmap := Some (replicate (unat bitmap_size div 8) 0)\<rparr>));
        (area_virt, st) \<leftarrow> kmapaddr page_area_addr page_area_size st;
        (if area_virt = 0 then None
         else let area = fill_segments mmap st;
                  rest = replicate (unat (segment_count st) - length area)
                           \<lparr>seg_addr = 0, seg_len = 0, seg_type = 0\<rparr>
              in Some (st\<lparr>page_start := area_virt, page_area := area @ rest,
                          total_memory := page_count st * PAGE_SIZE,
                          page_count := page_count st - bitmap_pages,
                          free_memory := (page_count st - bitmap_pages) * PAGE_SIZE\<rparr>))
      })"

definition memory_total :: "'a physalloc_scheme \<Rightarrow> u64" where "memory_total st = total_memory st"
definition memory_free :: "'a physalloc_scheme \<Rightarrow> u64" where "memory_free st = free_memory st"
definition memory_used :: "'a physalloc_scheme \<Rightarrow> u64" where
  "memory_used st = total_memory st - free_memory st"

section \<open>What the bit operations do\<close>

text \<open>\<open>hit k j\<close>: the operation for position \<open>k\<close> of a word acts on bit \<open>j\<close>.\<close>

definition hit :: "nat \<Rightarrow> nat \<Rightarrow> bool" where
  "hit k j \<longleftrightarrow> (if k mod 32 = 31 then 31 \<le> j else j = k mod 32)"

lemma bit_int_shl [bits]: "bit (int_shl (of_bool v) k) j \<longleftrightarrow> v \<and> j = k mod 32"
  by (cases v) (auto simp: int_shl_def bit_push_bit_iff bit_1_iff bit_exp_iff)

lemma bit_scast_shl [bits]:
  "j < 64 \<Longrightarrow> bit (scast (int_shl (of_bool v) k) :: u64) j \<longleftrightarrow> v \<and> hit k j"
  by (auto simp: bit_signed_iff bit_int_shl hit_def min_def)

lemma bit_scast_not_shl [bits]:
  "j < 64 \<Longrightarrow> bit (scast (NOT (int_shl 1 k)) :: u64) j \<longleftrightarrow> \<not> hit k j"
  using bit_int_shl [of True k]
  by (auto simp: bit_signed_iff bit_not_iff hit_def min_def)

lemma bit_set_bit_word [bits]:
  "j < 64 \<Longrightarrow> bit (set_bit_word k v w) j \<longleftrightarrow> (if hit k j then v else bit w j)"
  by (auto simp: set_bit_word_def bit_and_iff bit_or_iff bits)


lemma hit_self: "k mod 64 \<le> 31 \<or> k mod 64 = 63 \<Longrightarrow> hit (k mod 64) (k mod 64)"
  by (auto simp: hit_def)

lemma hit_upper: "31 \<le> a \<Longrightarrow> 31 \<le> b \<Longrightarrow> hit k a = hit k b"
  using mod_less_divisor [of 32 k] by (auto simp: hit_def)

lemma hit_low: "k < 31 \<Longrightarrow> hit k j \<longleftrightarrow> j = k"
  by (auto simp: hit_def)

section \<open>The pages in use\<close>

definition page_used :: "'a physalloc_scheme \<Rightarrow> nat \<Rightarrow> bool" where
  "page_used st i =
     (case bitmap st of
        None \<Rightarrow> False
      | Some ws \<Rightarrow> i div 64 < length ws \<and> bit (ws ! (i div 64)) (i mod 64))"

definition in_bitmap :: "'a physalloc_scheme \<Rightarrow> nat \<Rightarrow> bool" where
  "in_bitmap st i \<longleftrightarrow> (case bitmap st of None \<Rightarrow> False | Some ws \<Rightarrow> i div 64 < length ws)"

text \<open>\<open>touched i j\<close>: a write for page \<open>i\<close> changes the bit of page \<open>j\<close>.\<close>

definition touched :: "nat \<Rightarrow> nat \<Rightarrow> bool" where
  "touched i j \<longleftrightarrow> i div 64 = j div 64 \<and> hit (i mod 64) (j mod 64)"

definition same_tables :: "'a physalloc_scheme \<Rightarrow> 'a physalloc_scheme \<Rightarrow> bool" where
  "same_tables st st' \<longleftrightarrow>
     (\<exists>ws f. st' = st\<lparr>bitmap := ws, free_memory := f\<rparr> \<and>
             map_option length ws = map_option length (bitmap st))"

lemma same_tables_refl [simp, frame]: "same_tables st st"
  by (auto simp: same_tables_def intro!: exI [of _ "bitmap st"] exI [of _ "free_memory st"])

lemma same_tables_trans [frame, trans]:
  assumes "same_tables a b" "same_tables b c"
  shows "same_tables a c"
proof -
  obtain ws f ws' f' where "b = a\<lparr>bitmap := ws, free_memory := f\<rparr>"
      "c = a\<lparr>bitmap := ws', free_memory := f'\<rparr>" "map_option length ws' = map_option length (bitmap a)"
    using assms by (auto simp: same_tables_def)
  then show ?thesis unfolding same_tables_def by blast
qed

lemma same_tables_simps:
  assumes "same_tables st st'"
  shows "page_count st' = page_count st" "segment_count st' = segment_count st"
    "page_area st' = page_area st" "page_start st' = page_start st"
    "in_bitmap st' i = in_bitmap st i" "page_at k st' = page_at k st"
proof -
  show "page_count st' = page_count st" "segment_count st' = segment_count st"
    "page_area st' = page_area st" "page_start st' = page_start st"
    "page_at k st' = page_at k st"
    using assms by (auto simp: same_tables_def page_at_def)
  show "in_bitmap st' i = in_bitmap st i"
    using assms by (auto simp: same_tables_def in_bitmap_def split: option.splits)
qed

lemma bitmap_get_used: "in_bitmap st i \<Longrightarrow> bitmap_get i st = Some (page_used st i)"
  by (auto simp: bitmap_get_def in_bitmap_def page_used_def bit_iff_and_drop_bit_eq_1 split: option.splits)

lemma bitmap_set_used:
  assumes "in_bitmap st i"
  obtains st' where "bitmap_set i v st = Some st'" "same_tables st st'"
    "\<And>j. page_used st' j \<longleftrightarrow> (if touched i j then v else page_used st j)"
    "free_memory st' = (if v then free_memory st - PAGE_SIZE else free_memory st + PAGE_SIZE)"
proof -
  obtain ws where ws: "bitmap st = Some ws" "i div 64 < length ws"
    using assms by (auto simp: in_bitmap_def split: option.splits)
  define f where "f = (if v then free_memory st - PAGE_SIZE else free_memory st + PAGE_SIZE)"
  define ws' where "ws' = ws[i div 64 := set_bit_word (i mod 64) v (ws ! (i div 64))]"
  have "bitmap_set i v st = Some (st\<lparr>bitmap := Some ws', free_memory := f\<rparr>)"
    using ws by (simp add: bitmap_set_def ws'_def f_def Let_def)
  moreover have "same_tables st (st\<lparr>bitmap := Some ws', free_memory := f\<rparr>)"
    unfolding same_tables_def using ws by (intro exI [of _ "Some ws'"] exI [of _ f]) (simp add: ws'_def)
  moreover have "page_used (st\<lparr>bitmap := Some ws', free_memory := f\<rparr>) j \<longleftrightarrow>
      (if touched i j then v else page_used st j)" for j
    using ws by (auto simp: page_used_def touched_def ws'_def nth_list_update bits)
  ultimately show thesis using that f_def by simp
qed

lemma ex_range_Suc:
  "(\<exists>i\<ge>s. i < s + Suc n \<and> P i) \<longleftrightarrow> P s \<or> (\<exists>i\<ge>Suc s. i < Suc s + n \<and> P i)"
proof
  assume "\<exists>i\<ge>s. i < s + Suc n \<and> P i"
  then obtain i where "s \<le> i" "i < s + Suc n" "P i" by blast
  then show "P s \<or> (\<exists>i\<ge>Suc s. i < Suc s + n \<and> P i)" by (cases "i = s") auto
next
  assume "P s \<or> (\<exists>i\<ge>Suc s. i < Suc s + n \<and> P i)"
  then show "\<exists>i\<ge>s. i < s + Suc n \<and> P i" by (auto dest: Suc_leD)
qed

lemma bitmap_set_range_used:
  assumes "\<And>i. s \<le> i \<Longrightarrow> i < s + n \<Longrightarrow> in_bitmap st i"
  obtains st' where "bitmap_set_range s n v st = Some st'" "same_tables st st'"
    "\<And>j. page_used st' j \<longleftrightarrow> (if \<exists>i. s \<le> i \<and> i < s + n \<and> touched i j then v else page_used st j)"
    "free_memory st' = free_memory st + (if v then -1 else 1) * of_nat n * PAGE_SIZE"
  using assms
proof (induction n arbitrary: s st thesis)
  case 0
  show ?case by (rule 0(1) [of st]) auto
next
  case (Suc n)
  obtain st1 where st1: "bitmap_set s v st = Some st1" "same_tables st st1"
      "\<And>j. page_used st1 j \<longleftrightarrow> (if touched s j then v else page_used st j)"
      "free_memory st1 = (if v then free_memory st - PAGE_SIZE else free_memory st + PAGE_SIZE)"
    by (rule bitmap_set_used [of st s v]) (use Suc.prems(2) [of s] in auto)
  have "in_bitmap st1 i" if "Suc s \<le> i" "i < Suc s + n" for i
    using that Suc.prems(2) [of i] by (simp add: same_tables_simps [OF st1(2)])
  then obtain st' where st': "bitmap_set_range (Suc s) n v st1 = Some st'" "same_tables st1 st'"
      "\<And>j. page_used st' j \<longleftrightarrow>
         (if \<exists>i. Suc s \<le> i \<and> i < Suc s + n \<and> touched i j then v else page_used st1 j)"
      "free_memory st' = free_memory st1 + (if v then -1 else 1) * of_nat n * PAGE_SIZE"
    using Suc.IH [of "Suc s" st1] by blast
  show ?case
    using st1 st' same_tables_trans [OF st1(2) st'(2)]
    by (intro Suc.prems(1) [of st']) (simp_all only: ex_range_Suc bitmap_set_range.simps option.case if_split simp_thms, auto simp: algebra_simps)
qed


text \<open>In every word of the bitmap the bits 31 to 63 are equal.\<close>

definition lockstep :: "(nat \<Rightarrow> bool) \<Rightarrow> bool" where
  "lockstep used \<longleftrightarrow>
     (\<forall>i j. i div 64 = j div 64 \<longrightarrow> 31 \<le> i mod 64 \<longrightarrow> 31 \<le> j mod 64 \<longrightarrow> used i = used j)"

lemma lockstepD:
  "lockstep used \<Longrightarrow> i div 64 = j div 64 \<Longrightarrow> 31 \<le> i mod 64 \<Longrightarrow> 31 \<le> j mod 64 \<Longrightarrow> used i = used j"
  unfolding lockstep_def by blast

lemma touched_upper:
  "i div 64 = j div 64 \<Longrightarrow> 31 \<le> i mod 64 \<Longrightarrow> 31 \<le> j mod 64 \<Longrightarrow> touched k i = touched k j"
  by (simp add: touched_def hit_upper [of "i mod 64" "j mod 64"])

lemma lockstep_write:
  assumes "lockstep used"
  shows "lockstep (\<lambda>j. if \<exists>i. s \<le> i \<and> i < s + n \<and> touched i j then v else used j)"
  unfolding lockstep_def
proof (intro allI impI)
  fix i j :: nat
  assume ij: "i div 64 = j div 64" "31 \<le> i mod 64" "31 \<le> j mod 64"
  have t: "touched k i = touched k j" for k using touched_upper [OF ij] by simp
  moreover have "used i = used j" by (rule lockstepD [OF assms ij])
  ultimately show "(if \<exists>k. s \<le> k \<and> k < s + n \<and> touched k i then v else used i) =
      (if \<exists>k. s \<le> k \<and> k < s + n \<and> touched k j then v else used j)"
    by (simp only: t)
qed

lemma word_pos: "i = q * 64 + r \<Longrightarrow> r < 64 \<Longrightarrow> i div 64 = q \<and> i mod 64 = (r::nat)"
  by simp

lemma lockstep_pred:
  assumes "lockstep used" "32 \<le> i mod 64"
  shows "used (i - 1) = used i"
proof -
  have "i - 1 = i div 64 * 64 + (i mod 64 - 1)" "i mod 64 - 1 < 64"
    using assms(2) div_mult_mod_eq [of i 64] mod_less_divisor [of 64 i] by linarith+
  note word_pos [OF this]
  then have "(i - 1) div 64 = i div 64" "31 \<le> (i - 1) mod 64"
    using assms(2) by linarith+
  moreover have "31 \<le> i mod 64" using assms(2) by simp
  ultimately show ?thesis by (rule lockstepD [OF assms(1)])
qed

text \<open>A run of free pages that starts after a page in use, or at page 0, is marked whole.\<close>

lemma run_marked:
  assumes "lockstep used" and free: "\<And>j. s \<le> j \<Longrightarrow> j < s + n \<Longrightarrow> \<not> used j"
    and first: "s = 0 \<or> used (s - 1)" and j: "s \<le> j" "j < s + n"
  shows "\<exists>i. s \<le> i \<and> i < s + n \<and> touched i j"
proof (cases "j mod 64 \<le> 31")
  case True
  then show ?thesis using j hit_self [of j] by (auto simp: touched_def)
next
  case False
  define i where "i = j div 64 * 64 + 31"
  have i: "i \<le> j" "i div 64 = j div 64" "i mod 64 = 31" 
    using False word_pos [OF i_def] div_mult_mod_eq [of j 64] i_def by linarith+
  have "s \<le> i"
  proof (rule ccontr)
    assume "\<not> s \<le> i"
    then have "s = j div 64 * 64 + (s - j div 64 * 64)" "s - j div 64 * 64 < 64" "32 \<le> s - j div 64 * 64"
      using i_def j(1) div_mult_mod_eq [of j 64] mod_less_divisor [of 64 j] by linarith+
    note word_pos [OF this(1,2)] this(3)
    then have "32 \<le> s mod 64" by linarith
    then have "used (s - 1) = used s" using lockstep_pred [OF assms(1)] by simp
    moreover have "s \<noteq> 0" using \<open>32 \<le> s mod 64\<close> by auto
    ultimately show False using first free [of s] j by auto
  qed
  then show ?thesis
    using i j False by (intro exI [of _ i]) (auto simp: touched_def hit_def)
qed


section \<open>The pages of the table\<close>

definition seg_pages :: "memory_segment \<Rightarrow> u64 list" where
  "seg_pages m = map (\<lambda>k. seg_addr m + PAGE_SIZE * of_nat k) [0..<unat (n_pages m)]"

definition page_list :: "'a physalloc_scheme \<Rightarrow> u64 list" where
  "page_list st = concat (map seg_pages (take (unat (segment_count st)) (page_area st)))"

lemma length_seg_pages [simp]: "length (seg_pages m) = unat (n_pages m)"
  by (simp add: seg_pages_def)

lemma page_at_loop_nth:
  assumes "\<forall>m\<in>set ms. unat (n_pages m) < 2 ^ 31"
    and "cur + length (concat (map seg_pages ms)) < 2 ^ 64" and "cur \<le> unat i"
  shows "page_at_loop i (of_nat cur) ms =
    (let pl = concat (map seg_pages ms) in if unat i - cur < length pl then pl ! (unat i - cur) else 0)"
  using assms
proof (induction ms arbitrary: cur)
  case (Cons m ms)
  define n where "n = unat (n_pages m)"
  have n: "scast (n_pages m) = (of_nat n :: u64)" using Cons.prems(1) scast_int_nonneg by (simp add: n_def)
  have cur: "cur < 2 ^ 64" "cur + n < 2 ^ 64" using Cons.prems(2) by (auto simp: n_def)
  have sub: "unat (i - of_nat cur) = unat i - cur"
    using Cons.prems(3) cur by (simp add: unat_sub word_le_nat_alt unat_of_nat)
  have lt: "i - of_nat cur < of_nat n \<longleftrightarrow> unat i - cur < n"
    using cur by (simp add: word_less_nat_alt sub unat_of_nat)
  show ?case
  proof (cases "unat i - cur < n")
    case True
    have "i - of_nat cur = of_nat (unat (i - of_nat cur))" by simp
    then have "i - of_nat cur = of_nat (unat i - cur)" unfolding sub .
    then show ?thesis using True lt n
      by (simp add: Let_def nth_append seg_pages_def n_def [symmetric])
  next
    case False
    have "page_at_loop i (of_nat (cur + n)) ms =
      (let pl = concat (map seg_pages ms)
       in if unat i - (cur + n) < length pl then pl ! (unat i - (cur + n)) else 0)"
      using Cons.prems False by (intro Cons.IH) (auto simp: n_def)
    then show ?thesis using False lt n
      by (auto simp: Let_def nth_append n_def [symmetric])
  qed
qed simp

definition segments_ok :: "'a physalloc_scheme \<Rightarrow> bool" where
  "segments_ok st \<longleftrightarrow>
     (\<forall>m\<in>set (page_area st). unat (n_pages m) < 2 ^ 31) \<and> length (page_list st) < 2 ^ 64 \<and>
     0 \<notin> set (page_list st)"

lemma page_at_nth:
  assumes "segments_ok st"
  shows "page_at i st = (if unat i < length (page_list st) then page_list st ! unat i else 0)"
proof -
  have "\<forall>m\<in>set (take (unat (segment_count st)) (page_area st)). unat (n_pages m) < 2 ^ 31"
    using assms by (auto simp: segments_ok_def dest: in_set_takeD)
  from page_at_loop_nth [OF this, of 0 i] assms show ?thesis
    by (simp add: page_at_def segments_ok_def page_list_def Let_def)
qed

lemma page_at_0_iff:
  assumes "segments_ok st" "i < 2 ^ 64"
  shows "page_at (of_nat i) st = 0 \<longleftrightarrow> length (page_list st) \<le> i"
  using assms by (auto simp: page_at_nth unat_of_nat segments_ok_def) (metis nth_mem)

text \<open>The state once \<^verbatim>\<open>physalloc_init\<close> has run.\<close>

definition physalloc_ok :: "'a physalloc_scheme \<Rightarrow> bool" where
  "physalloc_ok st \<longleftrightarrow>
     page_start st \<noteq> 0 \<and> bitmap st \<noteq> None \<and> (\<forall>i < unat (page_count st). in_bitmap st i) \<and>
     lockstep (page_used st) \<and> segments_ok st"

abbreviation free_run :: "'a physalloc_scheme \<Rightarrow> nat \<Rightarrow> nat \<Rightarrow> bool" where
  "free_run st s n \<equiv> \<forall>j. s \<le> j \<longrightarrow> j < s + n \<longrightarrow> \<not> page_used st j"


section \<open>The allocation loop\<close>

text \<open>What the scan for \<open>pages\<close> free pages knows before it looks at page \<open>i\<close>, having counted
  \<open>k\<close> free pages from \<open>start\<close>: the run it counts begins after a page in use (or beyond the table),
  no earlier page of the table starts a free run of that length.\<close>

definition scan_inv :: "'a physalloc_scheme \<Rightarrow> nat \<Rightarrow> nat \<Rightarrow> nat \<Rightarrow> nat \<Rightarrow> bool" where
  "scan_inv st pages i k start \<longleftrightarrow>
     k < pages \<and> k \<le> i \<and> (k > 0 \<longrightarrow> start = i - k) \<and> free_run st (i - k) k \<and>
     (i - k = 0 \<or> page_used st (i - k - 1) \<or> length (page_list st) \<le> i - k) \<and>
     (\<forall>t < length (page_list st). t < i - k \<longrightarrow> (\<exists>j\<ge>t. j < i - k \<and> page_used st j)) \<and>
     (\<forall>t < length (page_list st). t + pages \<le> i \<longrightarrow> \<not> free_run st t pages)"

lemma windows_Suc:
  assumes "\<forall>t<T. t + pages \<le> i \<longrightarrow> \<not> free_run st t pages"
    and "\<And>t. t < T \<Longrightarrow> t + pages = Suc i \<Longrightarrow> \<not> free_run st t pages"
  shows "\<forall>t<T. t + pages \<le> Suc i \<longrightarrow> \<not> free_run st t pages"
  using assms by (meson le_SucE)

lemma scan_inv_before:
  "scan_inv st pages i k start \<Longrightarrow> t < length (page_list st) \<Longrightarrow> t < i - k \<Longrightarrow>
    \<exists>j\<ge>t. j < i - k \<and> page_used st j"
  by (simp add: scan_inv_def)

lemma scan_inv_windows:
  "scan_inv st pages i k start \<Longrightarrow>
    \<forall>t < length (page_list st). t + pages \<le> i \<longrightarrow> \<not> free_run st t pages"
  by (simp add: scan_inv_def)

lemma scan_inv_used:
  assumes inv: "scan_inv st pages i k start" and used: "page_used st i"
  shows "scan_inv st pages (Suc i) 0 start"
proof -
  have "\<not> free_run st t pages" if "t + pages = Suc i" for t
    using used that inv by (intro notI) (drule spec [of _ i], auto simp: scan_inv_def)
  then have "\<forall>t < length (page_list st). t + pages \<le> Suc i \<longrightarrow> \<not> free_run st t pages"
    by (rule windows_Suc [OF scan_inv_windows [OF inv]])
  moreover have "\<exists>j\<ge>t. j < Suc i \<and> page_used st j" if "t < Suc i" for t
    using that used by (intro exI [of _ i]) simp
  ultimately show ?thesis using used inv by (auto simp: scan_inv_def)
qed

lemma scan_inv_run:
  assumes "scan_inv st pages i k start" "\<not> page_used st i"
  shows "free_run st (i - k) (Suc k)"
proof (intro allI impI)
  fix j
  assume "i - k \<le> j" "j < i - k + Suc k"
  then show "\<not> page_used st j" using assms by (cases "j = i") (auto simp: scan_inv_def)
qed

lemma scan_inv_free:
  assumes inv: "scan_inv st pages i k start" and free: "\<not> page_used st i" and "Suc k \<noteq> pages"
  shows "scan_inv st pages (Suc i) (Suc k) (if k = 0 then i else start)"
proof -
  have "\<not> free_run st t pages" if "t < length (page_list st)" "t + pages = Suc i" for t
  proof -
    have "k < pages" "k \<le> i" using inv by (simp_all add: scan_inv_def)
    then have "t < i - k" using that assms(3) by linarith
    then obtain j where "t \<le> j" "j < i - k" "page_used st j"
      using scan_inv_before [OF inv \<open>t < length (page_list st)\<close>] by blast
    moreover have "j < t + pages" using \<open>j < i - k\<close> that(2) by linarith
    ultimately show ?thesis by blast
  qed
  then have "\<forall>t < length (page_list st). t + pages \<le> Suc i \<longrightarrow> \<not> free_run st t pages"
    by (rule windows_Suc [OF scan_inv_windows [OF inv]])
  then show ?thesis
    using scan_inv_run [OF inv free] inv assms(3) by (auto simp: scan_inv_def)
qed

lemma scan_inv_restart:
  assumes inv: "scan_inv st pages i k start" and "Suc k = pages" "length (page_list st) \<le> i - k"
  shows "scan_inv st pages (Suc i) 0 (if k = 0 then i else start)"
proof -
  have "\<not> free_run st t pages" if "t < length (page_list st)" "t + pages = Suc i" for t
    using that assms(2,3) by linarith
  then have "\<forall>t < length (page_list st). t + pages \<le> Suc i \<longrightarrow> \<not> free_run st t pages"
    by (rule windows_Suc [OF scan_inv_windows [OF inv]])
  moreover have "\<exists>j\<ge>t. j < Suc i \<and> page_used st j" if "t < length (page_list st)" for t
  proof -
    have "t < i - k" using that assms(3) by linarith
    then obtain j where "j \<ge> t" "j < i - k" "page_used st j"
      using scan_inv_before [OF inv \<open>t < length (page_list st)\<close>] by blast
    then show ?thesis by (intro exI [of _ j]) simp
  qed
  ultimately show ?thesis using inv assms(2,3) by (auto simp: scan_inv_def)
qed

definition alloc_result :: "'a physalloc_scheme \<Rightarrow> nat \<Rightarrow> u64 \<Rightarrow> 'a physalloc_scheme \<Rightarrow> bool" where
  "alloc_result st pages p st' \<longleftrightarrow>
     (if p = 0 then st' = st \<and>
        (\<forall>t < length (page_list st). t + pages \<le> unat (page_count st) \<longrightarrow> \<not> free_run st t pages)
      else \<exists>s < length (page_list st). s + pages \<le> unat (page_count st) \<and> p = page_list st ! s \<and>
        free_run st s pages \<and> (s = 0 \<or> page_used st (s - 1)) \<and>
        bitmap_set_range s pages True st = Some st')"

lemma alloc_found:
  assumes ok: "physalloc_ok st" and inv: "scan_inv st pages i k start" and free: "\<not> page_used st i"
    and i: "i < unat (page_count st)" and k: "Suc k = pages" and s: "i - k < length (page_list st)"
  shows "\<exists>st'. bitmap_set_range (i - k) pages True st = Some st' \<and>
    alloc_result st pages (page_at (of_nat (i - k)) st) st'"
proof -
  have ki: "k \<le> i" using inv by (simp add: scan_inv_def)
  have small: "i - k < 2 ^ 64" using i unat_lt64 [of "page_count st"] by simp
  have seg: "segments_ok st" using ok by (simp add: physalloc_ok_def)
  have "\<And>j. i - k \<le> j \<Longrightarrow> j < i - k + pages \<Longrightarrow> in_bitmap st j"
    using ok i k ki by (auto simp: physalloc_ok_def)
  then obtain st' where "bitmap_set_range (i - k) pages True st = Some st'"
    by (rule bitmap_set_range_used) auto
  moreover have "page_at (of_nat (i - k)) st = page_list st ! (i - k)"
    using s small by (simp add: page_at_nth [OF seg] unat_of_nat)
  moreover have "page_at (of_nat (i - k)) st \<noteq> 0"
    using s small seg by (simp add: page_at_0_iff)
  ultimately show ?thesis
    using scan_inv_run [OF inv free] inv s i k ki
    by (auto simp: alloc_result_def scan_inv_def intro!: exI [of _ "i - k"])
qed

lemma alloc_loop_spec:
  assumes ok: "physalloc_ok st"
  shows "scan_inv st pages i k start \<Longrightarrow> i \<le> unat (page_count st) \<Longrightarrow>
    \<exists>p st'. alloc_loop pages i k start st = Some (p, st') \<and> alloc_result st pages p st'"
proof (induction "unat (page_count st) - i" arbitrary: i k start rule: less_induct)
  case less
  note inv = less.prems(1)
  show ?case
  proof (cases "i < unat (page_count st)")
    case False
    then show ?thesis
      using inv less.prems(2) by (simp add: alloc_loop.simps alloc_result_def scan_inv_def)
  next
    case True
    define s where "s = (if k = 0 then i else start)"
    have s: "s = i - k" "s < 2 ^ 64"
      using inv True unat_lt64 [of "page_count st"] by (auto simp: s_def scan_inv_def)
    have seg: "segments_ok st" using ok by (simp add: physalloc_ok_def)
    have get: "bitmap_get i st = Some (page_used st i)"
      using ok True by (auto simp: physalloc_ok_def intro: bitmap_get_used)
    consider (used) "page_used st i" | (more) "\<not> page_used st i" "Suc k \<noteq> pages"
      | (restart) "\<not> page_used st i" "Suc k = pages" "length (page_list st) \<le> i - k"
      | (found) "\<not> page_used st i" "Suc k = pages" "i - k < length (page_list st)" by linarith
    then show ?thesis
    proof cases
      case used
      then have "alloc_loop pages i k start st = alloc_loop pages (Suc i) 0 start st"
        using True get by (subst alloc_loop.simps) simp
      then show ?thesis using less.hyps [OF _ scan_inv_used [OF inv used]] True by auto
    next
      case more
      then have "alloc_loop pages i k start st = alloc_loop pages (Suc i) (Suc k) s st"
        using True get by (subst alloc_loop.simps) (simp add: s_def Let_def)
      then show ?thesis
        using less.hyps [OF _ scan_inv_free [OF inv more]] True by (auto simp: s_def)
    next
      case restart
      then have "alloc_loop pages i k start st = alloc_loop pages (Suc i) 0 s st"
        using True get page_at_0_iff [OF seg s(2)] s
        by (subst alloc_loop.simps) (simp add: s_def [symmetric] Let_def)
      then show ?thesis
        using less.hyps [OF _ scan_inv_restart [OF inv restart(2,3)]] True by (auto simp: s_def)
    next
      case found
      obtain st' where st': "bitmap_set_range s pages True st = Some st'"
          "alloc_result st pages (page_at (of_nat s) st) st'"
        using alloc_found [OF ok inv found(1) True found(2,3)] s by auto
      then have "alloc_loop pages i k start st = Some (page_at (of_nat s) st, st')"
        using True get found page_at_0_iff [OF seg s(2)] s
        by (subst alloc_loop.simps) (simp add: s_def [symmetric] Let_def)
      then show ?thesis using st' by blast
    qed
  qed
qed


section \<open>Allocation\<close>

lemma physalloc_ok_same_tables:
  assumes "physalloc_ok st" "same_tables st st'" "lockstep (page_used st')"
  shows "physalloc_ok st'"
  using assms same_tables_simps [OF assms(2)]
  by (auto simp: physalloc_ok_def segments_ok_def page_list_def same_tables_def)

lemma page_list_same_tables: "same_tables st st' \<Longrightarrow> page_list st' = page_list st"
  by (simp add: page_list_def same_tables_simps)

text \<open>The run a successful allocation marks.\<close>

definition takes_run :: "'a physalloc_scheme \<Rightarrow> 'a physalloc_scheme \<Rightarrow> nat \<Rightarrow> nat \<Rightarrow> bool" where
  "takes_run st st' s n \<longleftrightarrow>
     (\<forall>j. s \<le> j \<longrightarrow> j < s + n \<longrightarrow> \<not> page_used st j \<and> page_used st' j)"

lemma alloc_phys_pages_exact_cases:
  assumes ok: "physalloc_ok st" and "0 < pages"
  obtains (full) "alloc_phys_pages_exact pages st = Some (0, st)"
      "\<forall>t < length (page_list st). t + unat pages \<le> unat (page_count st) \<longrightarrow> \<not> free_run st t (unat pages)"
    | (run) s st' where "alloc_phys_pages_exact pages st = Some (page_list st ! s, st')"
      "s < length (page_list st)" "page_list st ! s \<noteq> 0" "s + unat pages \<le> unat (page_count st)"
      "takes_run st st' s (unat pages)" "bitmap_set_range s (unat pages) True st = Some st'"
      "same_tables st st'" "physalloc_ok st'" "\<And>j. page_used st j \<Longrightarrow> page_used st' j"
proof -
  have n: "0 < unat pages" using assms(2) by (simp add: unat_gt_0 word_gt_0)
  have "scan_inv st (unat pages) 0 0 0" using n by (simp add: scan_inv_def)
  from alloc_loop_spec [OF ok this] obtain p st' where
    loop: "alloc_loop (unat pages) 0 0 0 st = Some (p, st')" "alloc_result st (unat pages) p st'" by auto
  have eq: "alloc_phys_pages_exact pages st = Some (p, st')"
    using loop(1) ok n assms(2)
    by (auto simp: alloc_phys_pages_exact_def physalloc_ok_def word_less_nat_alt)
  show thesis
  proof (cases "p = 0")
    case True
    then show thesis using full loop(2) eq by (simp add: alloc_result_def)
  next
    case False
    then obtain s where s: "s < length (page_list st)" "s + unat pages \<le> unat (page_count st)"
        "p = page_list st ! s" "free_run st s (unat pages)" "s = 0 \<or> page_used st (s - 1)"
        "bitmap_set_range s (unat pages) True st = Some st'"
      using loop(2) by (auto simp: alloc_result_def)
    have "in_bitmap st j" if "s \<le> j" "j < s + unat pages" for j
      using that ok s(2) by (auto simp: physalloc_ok_def)
    then obtain st'' where st'': "bitmap_set_range s (unat pages) True st = Some st''" "same_tables st st''"
        and used: "\<And>j. page_used st'' j \<longleftrightarrow>
          (if \<exists>i. s \<le> i \<and> i < s + unat pages \<and> touched i j then True else page_used st j)"
      by (rule bitmap_set_range_used) auto
    then have [simp]: "st'' = st'" using s(6) by simp
    have lock: "lockstep (page_used st)" using ok by (simp add: physalloc_ok_def)
    have fn: "page_used st'' =
        (\<lambda>j. if \<exists>i. s \<le> i \<and> i < s + unat pages \<and> touched i j then True else page_used st j)"
      by (rule ext) (rule used)
    have "lockstep (page_used st'')" unfolding fn by (rule lockstep_write [OF lock])
    then have "physalloc_ok st''" by (rule physalloc_ok_same_tables [OF ok st''(2)])
    moreover have "takes_run st st'' s (unat pages)"
      using run_marked [OF lock _ s(5)] s(4) used by (simp add: takes_run_def)
    ultimately show thesis using run [of s st'] eq s st'' used False by auto
  qed
qed

text \<open>A request for a positive number of pages always returns. If the result is a page, it is
  the page of some index \<open>s\<close> of the table such that the requested number of pages from \<open>s\<close> were
  all free before and are all marked in use afterwards; if it is \<^verbatim>\<open>NULL\<close>, nothing changed and
  no page of the table starts a free run of that length. No page in use is ever released, and the
  allocator's invariant is kept.\<close>

theorem alloc_phys_pages_exact_sound:
  assumes "physalloc_ok st" "0 < pages"
  shows "\<exists>p st'. alloc_phys_pages_exact pages st = Some (p, st') \<and> physalloc_ok st' \<and>
    (\<forall>j. page_used st j \<longrightarrow> page_used st' j) \<and>
    (if p = 0 then st' = st \<and>
       (\<forall>s < length (page_list st). s + unat pages \<le> unat (page_count st) \<longrightarrow>
          (\<exists>j\<ge>s. j < s + unat pages \<and> page_used st j))
     else \<exists>s < length (page_list st). p = page_list st ! s \<and>
       s + unat pages \<le> unat (page_count st) \<and> takes_run st st' s (unat pages))"
proof (cases rule: alloc_phys_pages_exact_cases [OF assms, case_names full run])
  case full
  then show ?thesis using assms(1) by auto
next
  case (run s st')
  then show ?thesis by auto
qed


text \<open>Several requests in a row, and the blocks (first page and length) they returned.\<close>

fun alloc_seq :: "u64 list \<Rightarrow> 'a physalloc_scheme \<Rightarrow> ((u64 \<times> u64) list \<times> 'a physalloc_scheme) option" where
  "alloc_seq [] st = Some ([], st)"
| "alloc_seq (n # ns) st =
     (case alloc_phys_pages_exact n st of
        None \<Rightarrow> None
      | Some (p, st') \<Rightarrow>
          (case alloc_seq ns st' of
             None \<Rightarrow> None
           | Some (bs, st'') \<Rightarrow> Some (if p = 0 then bs else (p, n) # bs, st'')))"

definition block_pages :: "'a physalloc_scheme \<Rightarrow> u64 \<times> u64 \<Rightarrow> u64 set" where
  "block_pages st b = set (take (unat (snd b)) (dropWhile (\<lambda>q. q \<noteq> fst b) (page_list st)))"

lemma dropWhile_neq_nth: "distinct xs \<Longrightarrow> s < length xs \<Longrightarrow> dropWhile (\<lambda>q. q \<noteq> xs ! s) xs = drop s xs"
proof (induction xs arbitrary: s)
  case (Cons x xs)
  then show ?case by (cases s) auto
qed simp

lemma set_take_drop:
  "set (take n (drop s xs)) = (!) xs ` {j. s \<le> j \<and> j < s + n \<and> j < length xs}" (is "?l = ?r")
proof
  show "?l \<subseteq> ?r" by (auto simp: in_set_conv_nth intro!: imageI)
  show "?r \<subseteq> ?l"
  proof
    fix x
    assume "x \<in> ?r"
    then obtain j where "s \<le> j" "j < s + n" "j < length xs" "x = xs ! j" by auto
    then show "x \<in> ?l" by (auto simp: in_set_conv_nth intro!: exI [of _ "j - s"])
  qed
qed

lemma block_pages_nth:
  assumes "distinct (page_list st)" "s < length (page_list st)"
  shows "block_pages st (page_list st ! s, n) =
    (!) (page_list st) ` {j. s \<le> j \<and> j < s + unat n \<and> j < length (page_list st)}"
  using assms by (simp add: block_pages_def dropWhile_neq_nth set_take_drop)

lemma alloc_seq_blocks:
  assumes "physalloc_ok st" "distinct (page_list st)" "\<forall>n\<in>set ns. 0 < n"
  shows "\<exists>bs st'. alloc_seq ns st = Some (bs, st') \<and> physalloc_ok st' \<and> same_tables st st' \<and>
    (\<forall>j. page_used st j \<longrightarrow> page_used st' j) \<and>
    (\<forall>b\<in>set bs. \<forall>j < length (page_list st). page_list st ! j \<in> block_pages st b \<longrightarrow>
        \<not> page_used st j \<and> page_used st' j) \<and>
    sorted_wrt (\<lambda>b c. block_pages st b \<inter> block_pages st c = {}) bs"
  using assms
proof (induction ns arbitrary: st)
  case (Cons n ns)
  note ok = Cons.prems(1) and dist = Cons.prems(2)
  have n: "0 < n" using Cons.prems(3) by simp
  show ?case
  proof (cases rule: alloc_phys_pages_exact_cases [OF ok n, case_names full run])
    case full
    then show ?thesis using Cons.IH [OF ok dist] Cons.prems(3) by auto
  next
    case (run s st1)
    have pl: "page_list st1 = page_list st" by (rule page_list_same_tables [OF run(7)])
    then have bp: "block_pages st1 = block_pages st" by (simp add: block_pages_def fun_eq_iff)
    obtain bs st' where IH: "alloc_seq ns st1 = Some (bs, st')" "physalloc_ok st'" "same_tables st1 st'"
        "\<forall>j. page_used st1 j \<longrightarrow> page_used st' j"
        "\<forall>b\<in>set bs. \<forall>j < length (page_list st). page_list st ! j \<in> block_pages st b \<longrightarrow>
           \<not> page_used st1 j \<and> page_used st' j"
        "sorted_wrt (\<lambda>b c. block_pages st b \<inter> block_pages st c = {}) bs"
      using Cons.IH [OF run(8)] dist Cons.prems(3) unfolding pl bp by auto
    have blk: "s \<le> j \<and> j < s + unat n"
      if "j < length (page_list st)" "page_list st ! j \<in> block_pages st (page_list st ! s, n)" for j
      using that dist run(2) by (auto simp: block_pages_nth nth_eq_iff_index_eq)
    have "block_pages st (page_list st ! s, n) \<inter> block_pages st c = {}" if "c \<in> set bs" for c
    proof -
      have False if x: "x \<in> block_pages st (page_list st ! s, n)" "x \<in> block_pages st c" for x
      proof -
        obtain j where j: "j < length (page_list st)" "x = page_list st ! j" "s \<le> j" "j < s + unat n"
          using x(1) block_pages_nth [OF dist run(2)] by auto
        then show False using IH(5) \<open>c \<in> set bs\<close> x(2) run(5) unfolding takes_run_def by blast
      qed
      then show ?thesis by blast
    qed
    moreover have "\<not> page_used st j \<and> page_used st' j"
      if "b \<in> insert (page_list st ! s, n) (set bs)" "j < length (page_list st)"
         "page_list st ! j \<in> block_pages st b" for b j
      using that IH(4,5) run(5,9) blk unfolding takes_run_def by blast
    ultimately show ?thesis
      using run(1,3,9) IH same_tables_trans [OF run(7) IH(3)] by auto
  qed
qed simp




section \<open>Freeing\<close>

lemma free_loop_range:
  "unat idx + i + n < 2 ^ 64 \<Longrightarrow> free_loop idx i n st = bitmap_set_range (unat idx + i) n False st"
proof (induction n arbitrary: i st)
  case (Suc n)
  have "unat (idx + of_nat i) = unat idx + i" using Suc.prems by (simp add: unat_word_ariths unat_of_nat)
  then show ?case using Suc by (auto split: option.splits)
qed simp

lemma touched_low: "i mod 64 < 31 \<Longrightarrow> touched i j \<longleftrightarrow> j = i"
  by (metis div_mult_mod_eq hit_low touched_def)

lemma touched_run_low:
  assumes "\<And>j. s \<le> j \<Longrightarrow> j < s + n \<Longrightarrow> j mod 64 < 31"
  shows "(\<exists>i. s \<le> i \<and> i < s + n \<and> touched i j) \<longleftrightarrow> s \<le> j \<and> j < s + n"
proof
  assume "\<exists>i. s \<le> i \<and> i < s + n \<and> touched i j"
  then obtain i where "s \<le> i" "i < s + n" "touched i j" by blast
  then show "s \<le> j \<and> j < s + n" using touched_low [of i j] assms by simp
next
  assume "s \<le> j \<and> j < s + n"
  then show "\<exists>i. s \<le> i \<and> i < s + n \<and> touched i j"
    using touched_low [of j j] assms by (intro exI [of _ j]) simp
qed

text \<open>\<open>page_idx\<close> finds the index of every page of the table.\<close>

definition pages_indexed :: "'a physalloc_scheme \<Rightarrow> bool" where
  "pages_indexed st \<longleftrightarrow>
     (\<forall>i < length (page_list st). page_idx (page_list st ! i) st = of_nat i)"

lemma page_idx_same_tables: "same_tables st st' \<Longrightarrow> page_idx p st' = page_idx p st"
  by (simp add: page_idx_def same_tables_simps)

lemma free_phys_pages_run:
  assumes ok: "physalloc_ok st" and idx: "pages_indexed st"
    and s: "s < length (page_list st)" "s + unat n \<le> unat (page_count st)" and n: "0 < n"
    and low: "\<And>j. s \<le> j \<Longrightarrow> j < s + unat n \<Longrightarrow> j mod 64 < 31"
  obtains st' where "free_phys_pages (page_list st ! s) n st = Some st'" "same_tables st st'"
    "\<And>j. page_used st' j \<longleftrightarrow> page_used st j \<and> \<not> (s \<le> j \<and> j < s + unat n)"
    "free_memory st' = free_memory st + n * PAGE_SIZE"
proof -
  have n': "0 < unat n" using n by (simp add: unat_gt_0 word_gt_0)
  have lt: "s + unat n < 2 ^ 64" using s(2) unat_lt64 [of "page_count st"] by linarith
  have nz: "page_list st ! s \<noteq> 0" using ok s(1) by (metis nth_mem physalloc_ok_def segments_ok_def)
  have u: "unat (page_idx (page_list st ! s) st) = s"
    using idx s(1) lt by (simp add: pages_indexed_def unat_of_nat)
  then have "page_idx (page_list st ! s) st \<noteq> -1" using lt n' by (auto simp: unsigned_minus_1_eq_mask mask_eq_exp_minus_1)
  then have eq: "free_phys_pages (page_list st ! s) n st = bitmap_set_range s (unat n) False st"
    using nz lt by (simp add: free_phys_pages_def Let_def free_loop_range u)
  have "\<And>j. s \<le> j \<Longrightarrow> j < s + unat n \<Longrightarrow> in_bitmap st j" using ok s(2) by (auto simp: physalloc_ok_def)
  then obtain st' where st': "bitmap_set_range s (unat n) False st = Some st'" "same_tables st st'"
      "\<And>j. page_used st' j \<longleftrightarrow>
        (if \<exists>i. s \<le> i \<and> i < s + unat n \<and> touched i j then False else page_used st j)"
      "free_memory st' = free_memory st + (if False then -1 else 1) * of_nat (unat n) * PAGE_SIZE"
    by (rule bitmap_set_range_used [where v = False]) auto
  have "(\<exists>i. s \<le> i \<and> i < s + unat n \<and> touched i j) \<longleftrightarrow> s \<le> j \<and> j < s + unat n" for j
    by (rule touched_run_low [OF low])
  then show thesis using st' eq by (intro that [of st']) auto
qed

text \<open>C18: Freeing the block just allocated gives back the state of the bitmap and the amount of
  free memory from before, when the block lies in the part of the bitmap words (below bit 31)
  where the bit operations are exact and the table is one \<open>page_idx\<close> can search.\<close>

theorem free_undoes_alloc:
  assumes ok: "physalloc_ok st" and n: "0 < n" and idx: "pages_indexed st"
    and alloc: "alloc_phys_pages_exact n st = Some (p, st1)" and p: "p \<noteq> 0"
    and low: "\<forall>j. page_used st1 j \<and> \<not> page_used st j \<longrightarrow> j mod 64 < 31"
  shows "\<exists>st2. free_phys_pages p n st1 = Some st2 \<and> page_used st2 = page_used st \<and>
    free_memory st2 = free_memory st"
proof (cases rule: alloc_phys_pages_exact_cases [OF ok n, case_names full run])
  case full
  then show ?thesis using alloc p by simp
next
  case (run s st')
  have [simp]: "st' = st1" and ps: "p = page_list st1 ! s"
    using run(1) alloc page_list_same_tables [OF run(7)] by auto
  have len: "length (page_list st1) = length (page_list st)" "page_count st1 = page_count st"
    using page_list_same_tables [OF run(7)] same_tables_simps [OF run(7)] by auto
  have idx1: "pages_indexed st1"
    using idx page_list_same_tables [OF run(7)] page_idx_same_tables [OF run(7)]
    by (simp add: pages_indexed_def)
  have low': "\<And>j. s \<le> j \<Longrightarrow> j < s + unat n \<Longrightarrow> j mod 64 < 31"
    using low run(5) by (simp add: takes_run_def)
  obtain st2 where st2: "free_phys_pages p n st1 = Some st2"
      "\<And>j. page_used st2 j \<longleftrightarrow> page_used st1 j \<and> \<not> (s \<le> j \<and> j < s + unat n)"
      "free_memory st2 = free_memory st1 + n * PAGE_SIZE"
    by (rule free_phys_pages_run [of st1 s n]) (use run n idx1 low' len ps in auto)
  have "\<And>j. s \<le> j \<Longrightarrow> j < s + unat n \<Longrightarrow> in_bitmap st j" using ok run(4) by (auto simp: physalloc_ok_def)
  then obtain st3 where st3: "bitmap_set_range s (unat n) True st = Some st3"
      "\<And>j. page_used st3 j \<longleftrightarrow>
        (if \<exists>i. s \<le> i \<and> i < s + unat n \<and> touched i j then True else page_used st j)"
      "free_memory st3 = free_memory st + (if True then -1 else 1) * of_nat (unat n) * PAGE_SIZE"
    by (rule bitmap_set_range_used [where v = True]) auto
  have "(\<exists>i. s \<le> i \<and> i < s + unat n \<and> touched i j) \<longleftrightarrow> s \<le> j \<and> j < s + unat n" for j
    by (rule touched_run_low [OF low'])
  then have "page_used st2 j = page_used st j" for j
    using st2(2) st3 run(5,6) by (auto simp: takes_run_def)
  moreover have "free_memory st2 = free_memory st" using st2(3) st3 run(6) by simp
  ultimately show ?thesis using st2(1) by (auto simp: fun_eq_iff)
qed


section \<open>Initialisation\<close>

text \<open>What the initialisation relies on from \<^verbatim>\<open>kmapaddr\<close> while the tables do not exist yet: it
  returns a mapping, and of the allocator's state it changes only the bump pointer (it takes pages
  for page tables), never to the null address.\<close>

definition maps_early ::
  "(u64 \<Rightarrow> u64 \<Rightarrow> 'a physalloc_scheme \<Rightarrow> (u64 \<times> 'a physalloc_scheme) option) \<Rightarrow> bool" where
  "maps_early kmapaddr \<longleftrightarrow>
     (\<forall>a l st. \<exists>v m. kmapaddr a l st = Some (v, st\<lparr>memory_start := m\<rparr>) \<and> v \<noteq> 0 \<and> m \<noteq> 0)"

text \<open>The pages the first pass over the memory map counts.\<close>

definition counted_pages :: "u64 \<Rightarrow> memory_segment list \<Rightarrow> 'a physalloc_scheme \<Rightarrow> u64" where
  "counted_pages mboot_end mmap st =
     page_count (count_segments mmap
       (st\<lparr>page_count := 0, segment_count := 0,
           kernel_real_end := (if mboot_end < kernel_end st then kernel_end st else mboot_end)\<rparr>))"

lemma count_segments_cong:
  assumes "page_count st = page_count st'" "segment_count st = segment_count st'"
    "kernel_start st = kernel_start st'" "memory_start st = memory_start st'"
    "kernel_real_end st = kernel_real_end st'"
  shows "page_count (count_segments mmap st) = page_count (count_segments mmap st')"
  using assms
proof (induction mmap arbitrary: st st')
  case (Cons s mmap)
  then show ?case by (auto simp: segment_invalid_def clamp_segment_def intro!: Cons.IH)
qed simp

lemma count_segments_frame:
  "\<exists>p n. count_segments mmap st = st\<lparr>page_count := p, segment_count := n\<rparr>"
proof (induction mmap arbitrary: st)
  case (Cons s mmap)
  show ?case
  proof (cases "segment_invalid s st")
    case False
    then show ?thesis
      using Cons.IH [of "st\<lparr>page_count := page_count st + scast (n_pages (clamp_segment s st)),
                            segment_count := segment_count st + 1\<rparr>"] by auto
  qed (use Cons.IH in auto)
next
  case Nil
  show ?case by (intro exI [of _ "page_count st"] exI [of _ "segment_count st"]) simp
qed

lemma physalloc_init_shape:
  assumes "maps_early kmapaddr"
  obtains st' where "physalloc_init mboot_end kmapaddr mmap st = Some st'" "page_start st' \<noteq> 0"
    "memory_start st' \<noteq> 0" "kernel_start st' = kernel_start st"
    "page_count st' = counted_pages mboot_end mmap st -
       (counted_pages mboot_end mmap st div 64 div PAGE_SIZE + 1)"
    "bitmap st' = Some (replicate (unat ((counted_pages mboot_end mmap st div 64 div PAGE_SIZE + 1)
       * PAGE_SIZE) div 8) 0)"
    "\<exists>n. page_area st' = fill_segments mmap st' @
       replicate n \<lparr>seg_addr = 0, seg_len = 0, seg_type = 0\<rparr>"
proof -
  define st1 where "st1 = st\<lparr>bitmap := None, total_memory := 0, free_memory := 0, page_count := 0,
                  page_start := 0, page_area := [], phys_mmap := mmap, segment_count := 0,
                  kernel_real_end :=
                    (if mboot_end < kernel_end st then kernel_end st else mboot_end)\<rparr>"
  obtain p n where cnt: "count_segments mmap st1 = st1\<lparr>page_count := p, segment_count := n\<rparr>"
    using count_segments_frame by blast
  have p: "p = counted_pages mboot_end mmap st"
    using cnt count_segments_cong [of st1 "st\<lparr>page_count := 0, segment_count := 0,
        kernel_real_end := (if mboot_end < kernel_end st then kernel_end st else mboot_end)\<rparr>" mmap]
    by (simp add: counted_pages_def st1_def)
  define b where "b = (p div 64 div PAGE_SIZE + 1) * PAGE_SIZE"
  define ba where "ba = page_align (kernel_real_end st1)"
  define pa where "pa = page_align (ba + b)"
  define st2 where "st2 = st1\<lparr>page_count := p, segment_count := n,
    memory_start := page_align (pa + n * sizeof_segment)\<rparr>"
  obtain v1 m1 where k1: "kmapaddr ba b st2 = Some (v1, st2\<lparr>memory_start := m1\<rparr>)" "v1 \<noteq> 0" "m1 \<noteq> 0"
    using assms unfolding maps_early_def by blast
  define st3 where "st3 = st2\<lparr>memory_start := m1, bitmap := Some (replicate (unat b div 8) 0)\<rparr>"
  obtain v2 m2 where k2: "kmapaddr pa (n * sizeof_segment) st3 = Some (v2, st3\<lparr>memory_start := m2\<rparr>)" "v2 \<noteq> 0" "m2 \<noteq> 0"
    using assms unfolding maps_early_def by blast
  define area where "area = fill_segments mmap (st3\<lparr>memory_start := m2\<rparr>)"
  define st4 where "st4 = st3\<lparr>memory_start := m2, page_start := v2,
    page_area := area @ replicate (unat n - length area) \<lparr>seg_addr = 0, seg_len = 0, seg_type = 0\<rparr>,
    total_memory := p * PAGE_SIZE, page_count := p - (p div 64 div PAGE_SIZE + 1),
    free_memory := (p - (p div 64 div PAGE_SIZE + 1)) * PAGE_SIZE\<rparr>"
  have [simp]: "page_count st3 = p" "segment_count st3 = n" "kernel_start st3 = kernel_start st"
    by (simp_all add: st3_def st2_def st1_def)
  have init: "physalloc_init mboot_end kmapaddr mmap st = Some st4"
    unfolding physalloc_init_def Let_def st1_def [symmetric]
    using k1 k2 by (simp add: cnt b_def [symmetric] ba_def [symmetric] pa_def [symmetric]
      st2_def [symmetric] st3_def [symmetric] area_def [symmetric] st4_def)
  have "area = fill_segments mmap st4"
    by (simp add: area_def fill_segments_def st4_def segment_invalid_def clamp_segment_def)
  then show thesis
    using k2 by (intro that [OF init]) (auto simp: st4_def st3_def st2_def st1_def b_def p)
qed

definition boot_map_ok :: "memory_segment list \<Rightarrow> bool" where
  "boot_map_ok mmap \<longleftrightarrow> length mmap \<le> 256 \<and>
     (\<forall>s\<in>set mmap. unat (seg_len s) \<le> 2 ^ 42 \<and> unat (seg_addr s) + unat (seg_len s) < 2 ^ 63)"

lemma clamp_segment_ok:
  assumes "\<not> segment_invalid s st" "memory_start st \<noteq> 0" "kernel_start st \<noteq> 0"
    "unat (seg_len s) \<le> 2 ^ 42" "unat (seg_addr s) + unat (seg_len s) < 2 ^ 63"
  defines "c \<equiv> clamp_segment s st"
  shows "unat (seg_len c) \<le> 2 ^ 42 \<and> unat (seg_addr c) + unat (seg_len c) < 2 ^ 63 \<and> 0 < unat (seg_addr c)"
proof (cases "seg_addr s < memory_start st")
  case False
  have "0 < unat (kernel_start st)" "unat (kernel_start st) \<le> unat (seg_addr s)"
    using assms(1,3) by (auto simp: segment_invalid_def word_less_nat_alt unat_gt_0)
  then show ?thesis using False assms by (simp add: clamp_segment_def c_def)
next
  case True
  have sum: "unat (seg_addr s + seg_len s) = unat (seg_addr s) + unat (seg_len s)"
    using assms(5) by (simp add: unat_word_ariths)
  have "unat (memory_start st) \<le> unat (seg_addr s) + unat (seg_len s)"
    using assms(1) sum by (auto simp: segment_invalid_def word_less_nat_alt)
  moreover have d: "unat (memory_start st - seg_addr s) = unat (memory_start st) - unat (seg_addr s)"
    using True by (simp add: unat_sub word_le_nat_alt word_less_nat_alt)
  moreover have "unat (seg_len s - (memory_start st - seg_addr s)) =
      unat (seg_len s) - (unat (memory_start st) - unat (seg_addr s))"
    using calculation by (simp add: unat_sub word_le_nat_alt)
  moreover have "unat (seg_addr s) < unat (memory_start st)" using True by (simp add: word_less_nat_alt)
  ultimately show ?thesis using True assms(2,4,5) by (simp add: clamp_segment_def c_def Let_def)
qed

lemma seg_pages_ok:
  assumes "unat (seg_len c) \<le> 2 ^ 42" "unat (seg_addr c) + unat (seg_len c) < 2 ^ 63" "0 < unat (seg_addr c)"
  shows "unat (n_pages c) < 2 ^ 31 \<and> 0 \<notin> set (seg_pages c)"
proof -
  define n where "n = (unat (seg_len c) + 4095) div 4096"
  have "unat (seg_len c + PAGE_SIZE - 1) = unat (seg_len c) + 4095"
    using assms(1) by (simp add: PAGE_SIZE_def unat_word_ariths add.assoc)
  then have "unat ((seg_len c + PAGE_SIZE - 1) div PAGE_SIZE) = n"
    by (simp add: unat_div n_def PAGE_SIZE_def)
  moreover have "n \<le> 2 ^ 30" using assms(1) by (simp add: n_def)
  ultimately have n: "unat (n_pages c) = n" 
    by (simp add: n_pages_def unsigned_ucast_eq take_bit_nat_eq_self)
  have "seg_addr c + PAGE_SIZE * of_nat k \<noteq> 0" if "k < n" for k
  proof -
    have "4096 * k \<le> unat (seg_len c)" using that by (simp add: n_def)
    then have "unat (seg_addr c + PAGE_SIZE * of_nat k) = unat (seg_addr c) + 4096 * k"
      using assms by (simp add: unat_word_ariths PAGE_SIZE_def unat_of_nat)
    then show ?thesis using assms(3) by (metis unat_0 add_is_0 less_numeral_extra(3))
  qed
  then show ?thesis using n \<open>n \<le> 2 ^ 30\<close> by (auto simp: seg_pages_def)
qed


lemma length_concat_take: "length (concat (map f (take k xs))) \<le> length (concat (map f xs))"
  by (metis append_take_drop_id concat_append le_add1 length_append map_append)

lemma length_concat_le: "\<forall>x\<in>set xs. length (f x) \<le> b \<Longrightarrow> length (concat (map f xs)) \<le> length xs * b"
  by (induction xs) auto

lemma seg_pages_empty: "seg_pages \<lparr>seg_addr = 0, seg_len = 0, seg_type = 0\<rparr> = []"
  by (simp add: seg_pages_def n_pages_def PAGE_SIZE_def)

lemma segments_ok_init:
  assumes map_ok: "boot_map_ok mmap" and ms: "memory_start st \<noteq> 0" "kernel_start st \<noteq> 0"
    and area: "page_area st = fill_segments mmap st @ replicate n \<lparr>seg_addr = 0, seg_len = 0, seg_type = 0\<rparr>"
  shows "segments_ok st"
proof -
  have c: "unat (n_pages c) < 2 ^ 31 \<and> 0 \<notin> set (seg_pages c)" if fill: "c \<in> set (fill_segments mmap st)" for c
  proof -
    obtain s where s: "s \<in> set mmap" "\<not> segment_invalid s st" "c = clamp_segment s st"
      using fill by (auto simp: fill_segments_def)
    have len: "unat (seg_len s) \<le> 2 ^ 42" "unat (seg_addr s) + unat (seg_len s) < 2 ^ 63"
      using map_ok s(1) by (auto simp: boot_map_ok_def)
    show ?thesis using clamp_segment_ok [OF s(2) ms len] s(3) seg_pages_ok by blast
  qed
  have z: "n_pages \<lparr>seg_addr = 0, seg_len = 0, seg_type = 0\<rparr> = 0"
    by (simp add: n_pages_def PAGE_SIZE_def)
  have "length (page_list st) \<le> length (concat (map seg_pages (page_area st)))"
    unfolding page_list_def by (rule length_concat_take)
  also have "\<dots> = length (concat (map seg_pages (fill_segments mmap st)))"
    by (simp add: area seg_pages_empty map_replicate_const)
  also have "\<dots> \<le> length (fill_segments mmap st) * 2 ^ 31"
    by (rule length_concat_le) (use c in fastforce)
  also have "\<dots> \<le> 256 * 2 ^ 31"
    using map_ok by (auto simp: fill_segments_def boot_map_ok_def intro: le_trans [OF length_filter_le])
  finally have "length (page_list st) < 2 ^ 64" by simp
  moreover have "0 \<notin> set (page_list st)"
    using c area by (auto simp: page_list_def seg_pages_empty dest!: in_set_takeD)
  ultimately show ?thesis using c z by (auto simp: segments_ok_def area)
qed

lemma page_used_zero: "bitmap st = Some (replicate n 0) \<Longrightarrow> \<not> page_used st i"
  by (simp add: page_used_def)

text \<open>After \<^verbatim>\<open>physalloc_init\<close> on a memory map of at most 32768 counted pages (128 MiB) the
  allocator's invariant holds and no page is marked in use.\<close>

theorem physalloc_init_ok:
  assumes "maps_early kmapaddr" "boot_map_ok mmap" "kernel_start st \<noteq> 0"
    and "1 \<le> counted_pages mboot_end mmap st" "counted_pages mboot_end mmap st \<le> 32768"
  shows "\<exists>st'. physalloc_init mboot_end kmapaddr mmap st = Some st' \<and> physalloc_ok st' \<and>
    (\<forall>i. \<not> page_used st' i) \<and> page_count st' = counted_pages mboot_end mmap st - 1"
proof -
  define c where "c = counted_pages mboot_end mmap st"
  have uc: "1 \<le> unat c" "unat c \<le> 32768"
    using assms(4,5) unfolding c_def [symmetric] by (simp_all add: word_le_nat_alt)
  then have "unat (c div 64 div PAGE_SIZE) = 0" by (simp add: unat_div PAGE_SIZE_def)
  then have c: "c div 64 div PAGE_SIZE = 0" "1 \<le> unat c" "unat c \<le> 32768"
    using uc by (simp_all only: unsigned_eq_0_iff)
  obtain st' where st': "physalloc_init mboot_end kmapaddr mmap st = Some st'" "page_start st' \<noteq> 0"
      "memory_start st' \<noteq> 0" "kernel_start st' = kernel_start st" "page_count st' = c - 1"
      "bitmap st' = Some (replicate 512 0)"
      "\<exists>n. page_area st' = fill_segments mmap st' @
         replicate n \<lparr>seg_addr = 0, seg_len = 0, seg_type = 0\<rparr>"
    by (rule physalloc_init_shape [OF assms(1), of mboot_end mmap st])
      (simp_all add: c_def [symmetric] c(1), simp add: PAGE_SIZE_def)
  have "segments_ok st'" using segments_ok_init [OF assms(2) st'(3)] assms(3) st'(4,7) by auto
  moreover have "unat (page_count st') < 32768" using c st'(5) by (simp add: unat_sub word_le_nat_alt)
  then have "\<forall>i < unat (page_count st'). in_bitmap st' i" using st'(6) by (auto simp: in_bitmap_def)
  ultimately have "physalloc_ok st'"
    using st' page_used_zero [OF st'(6)] by (simp add: physalloc_ok_def lockstep_def)
  then show ?thesis using st' page_used_zero [OF st'(6)] c_def by blast
qed

text \<open>The bitmap \<^verbatim>\<open>physalloc_init\<close> makes has one byte for every 64 pages. With more than
  32769 counted pages some page below \<^verbatim>\<open>page_count\<close> has its bit outside the bitmap, so a scan
  that gets there reads past its end.\<close>

theorem physalloc_init_bitmap_too_small:
  assumes "maps_early kmapaddr" "32769 < counted_pages mboot_end mmap st" "counted_pages mboot_end mmap st < 2 ^ 52"
  shows "\<exists>st' i. physalloc_init mboot_end kmapaddr mmap st = Some st' \<and>
    i < unat (page_count st') \<and> bitmap_get i st' = None"
proof -
  define c where "c = unat (counted_pages mboot_end mmap st)"
  define b where "b = c div 262144 + 1"
  have c: "32769 < c" "c < 2 ^ 52" using assms(2,3) by (simp_all add: c_def word_less_nat_alt)
  have ub: "unat (counted_pages mboot_end mmap st div 64 div PAGE_SIZE + 1) = b"
    using c by (simp add: unat_word_ariths unat_div c_def [symmetric] PAGE_SIZE_def b_def div_mult2_eq [symmetric])
  have bs: "b \<le> c" "b * 32768 + b < c" "b * 4096 < 2 ^ 64"
    using c div_times_less_eq_dividend [of c 262144] unfolding b_def by (cases "c div 262144 = 0"; simp)+
  obtain st' where st': "physalloc_init mboot_end kmapaddr mmap st = Some st'"
      "page_count st' = counted_pages mboot_end mmap st - (counted_pages mboot_end mmap st div 64 div PAGE_SIZE + 1)"
      "bitmap st' = Some (replicate (unat ((counted_pages mboot_end mmap st div 64 div PAGE_SIZE + 1)
       * PAGE_SIZE) div 8) 0)"
    by (rule physalloc_init_shape [OF assms(1), of mboot_end mmap st])
  have "unat (page_count st') = c - b"
    using st'(2) bs(1) ub by (simp add: unat_sub word_le_nat_alt c_def)
  moreover have "unat ((counted_pages mboot_end mmap st div 64 div PAGE_SIZE + 1) * PAGE_SIZE) div 8 = b * 512"
    using bs ub by (simp add: unat_word_ariths PAGE_SIZE_def)
  then have "bitmap_get (b * 32768) st' = None" using st'(3) by (simp add: bitmap_get_def)
  ultimately show ?thesis using st'(1) bs(2) by (intro exI [of _ st'] exI [of _ "b * 32768"]) simp
qed


section \<open>Single pages as an interface\<close>

text \<open>What the clients that build page tables rely on: a page that is handed out was owned by
  nobody, and stays owned while only allocations follow.\<close>

locale page_source =
  fixes take_page :: "'s \<Rightarrow> (u64 \<times> 's) option"
    and ok :: "'s \<Rightarrow> bool"
    and owned :: "'s \<Rightarrow> u64 set"
  assumes take_returns: "ok st \<Longrightarrow> take_page st \<noteq> None"
    and take_ok: "ok st \<Longrightarrow> take_page st = Some (p, st') \<Longrightarrow> ok st'"
    and take_fresh: "ok st \<Longrightarrow> take_page st = Some (p, st') \<Longrightarrow> p \<noteq> 0 \<Longrightarrow> p \<notin> owned st \<and> p \<in> owned st'"
    and take_mono: "ok st \<Longrightarrow> take_page st = Some (p, st') \<Longrightarrow> owned st \<subseteq> owned st'"
    and take_null: "ok st \<Longrightarrow> take_page st = Some (0, st') \<Longrightarrow> st' = st"
begin

fun draw :: "nat \<Rightarrow> 's \<Rightarrow> (u64 list \<times> 's) option" where
  "draw 0 st = Some ([], st)"
| "draw (Suc n) st =
     (case take_page st of
        None \<Rightarrow> None
      | Some (p, st') \<Rightarrow>
          if p = 0 then Some ([], st')
          else map_option (\<lambda>(ps, st''). (p # ps, st'')) (draw n st'))"

lemma draw_distinct:
  "ok st \<Longrightarrow> \<exists>ps st'. draw n st = Some (ps, st') \<and> ok st' \<and> distinct ps \<and>
    set ps \<inter> owned st = {} \<and> owned st \<union> set ps \<subseteq> owned st'"
proof (induction n arbitrary: st)
  case (Suc n)
  obtain p st1 where p: "take_page st = Some (p, st1)" using take_returns [OF Suc.prems] by auto
  note facts = take_ok [OF Suc.prems p] take_mono [OF Suc.prems p]
  show ?case
  proof (cases "p = 0")
    case True
    then show ?thesis using p facts by simp
  next
    case False
    obtain ps st' where "draw n st1 = Some (ps, st')" "ok st'" "distinct ps"
        "set ps \<inter> owned st1 = {}" "owned st1 \<union> set ps \<subseteq> owned st'"
      using Suc.IH [OF facts(1)] by blast
    then show ?thesis using p False facts take_fresh [OF Suc.prems p False] by auto
  qed
qed simp

end

definition owned_pages :: "'a physalloc_scheme \<Rightarrow> u64 set" where
  "owned_pages st = {page_list st ! j | j. j < length (page_list st) \<and> page_used st j}"

definition physalloc_distinct :: "'a physalloc_scheme \<Rightarrow> bool" where
  "physalloc_distinct st \<longleftrightarrow> physalloc_ok st \<and> distinct (page_list st)"

lemma alloc_phys_page_step:
  assumes "physalloc_distinct st" "alloc_phys_page st = Some (p, st')"
  shows "physalloc_distinct st' \<and> owned_pages st \<subseteq> owned_pages st' \<and> (p = 0 \<longrightarrow> st' = st) \<and>
    (p \<noteq> 0 \<longrightarrow> p \<notin> owned_pages st \<and> p \<in> owned_pages st')"
proof -
  have ok: "physalloc_ok st" and dist: "distinct (page_list st)"
    using assms(1) by (auto simp: physalloc_distinct_def)
  have one: "0 < (1 :: u64)" by simp
  show ?thesis
  proof (cases rule: alloc_phys_pages_exact_cases [OF ok one, case_names full run])
    case full
    then show ?thesis using assms by (simp add: alloc_phys_page_def)
  next
    case (run s st1)
    have [simp]: "st1 = st'" "p = page_list st ! s" using run(1) assms(2) by (auto simp: alloc_phys_page_def)
    have pl: "page_list st' = page_list st" using page_list_same_tables [OF run(7)] by simp
    have s: "\<not> page_used st s" "page_used st' s" using run(5) by (auto simp: takes_run_def)
    then show ?thesis
      using run dist by (auto simp: physalloc_distinct_def pl owned_pages_def nth_eq_iff_index_eq)
  qed
qed

interpretation frames: page_source alloc_phys_page physalloc_distinct owned_pages
proof
  fix st :: "'a physalloc_scheme"
  assume "physalloc_distinct st"
  then have ok: "physalloc_ok st" by (simp add: physalloc_distinct_def)
  have one: "0 < (1 :: u64)" by simp
  show "alloc_phys_page st \<noteq> None"
    by (cases rule: alloc_phys_pages_exact_cases [OF ok one, case_names full run])
      (auto simp: alloc_phys_page_def)
qed (use alloc_phys_page_step in \<open>metis\<close>)+


section \<open>Concrete states\<close>

text \<open>A machine with one bitmap word and one segment of 64 pages from 4 MiB on whose table is at \<open>tab\<close>.\<close>

definition small_machine :: "u64 \<Rightarrow> physalloc" where
  "small_machine tab =
     \<lparr>kernel_start = 0x100000, kernel_end = 0x200000, kernel_real_end = 0x200000,
      memory_start = 0x203000, bitmap = Some [0],
      total_memory = 64 * PAGE_SIZE, free_memory = 64 * PAGE_SIZE,
      page_count = 64, segment_count = 1, page_start = tab,
      page_area = [\<lparr>seg_addr = 0x400000, seg_len = 64 * PAGE_SIZE, seg_type = 0\<rparr>],
      phys_mmap = []\<rparr>"

lemma page_list_small: "page_list (small_machine tab) = map (\<lambda>k. 0x400000 + 4096 * of_nat k) [0..<64]"
proof -
  define m :: memory_segment where "m = \<lparr>seg_addr = 0x400000, seg_len = 64 * PAGE_SIZE, seg_type = 0\<rparr>"
  have "unat (n_pages m) = 64" unfolding m_def by code_simp
  then have "seg_pages m = map (\<lambda>k. 0x400000 + 4096 * of_nat k) [0..<64]"
    by (simp add: seg_pages_def m_def PAGE_SIZE_def del: upt_rec_numeral)
  then show ?thesis by (simp add: page_list_def small_machine_def m_def)
qed

lemma distinct_page_list_small: "distinct (page_list (small_machine tab))"
  unfolding page_list_small by code_simp

lemma page_list_small_pos: "0 \<notin> set (page_list (small_machine tab))"
  unfolding page_list_small by code_simp

lemma not_used_small: "\<not> page_used (small_machine tab) i"
  by (rule page_used_zero [of _ 1]) (simp add: small_machine_def)

lemma small_machine_ok:
  assumes "tab \<noteq> 0"
  shows "physalloc_ok (small_machine tab)"
proof -
  have "length (page_list (small_machine tab)) = 64" by (simp add: page_list_small)
  then have "segments_ok (small_machine tab)"
    using page_list_small_pos [of tab]
    by (simp add: segments_ok_def small_machine_def n_pages_def PAGE_SIZE_def)
  then show ?thesis using assms not_used_small [of tab]
    by (auto simp: physalloc_ok_def lockstep_def in_bitmap_def small_machine_def)
qed

theorem alloc_phys_pages_exact_sound_witness:
  "\<exists>p st'. alloc_phys_pages_exact 40 (small_machine 0x300000) = Some (p, st') \<and> physalloc_ok st' \<and>
    (\<forall>j. page_used (small_machine 0x300000) j \<longrightarrow> page_used st' j)"
  using alloc_phys_pages_exact_sound [OF small_machine_ok, of "0x300000" 40] by auto


lemma pages_indexed_small: "pages_indexed (small_machine 0x400000)"
proof -
  have "list_all (\<lambda>i. page_idx (page_list (small_machine 0x400000) ! i) (small_machine 0x400000) = of_nat i) [0..<64]"
    unfolding page_list_small by code_simp
  then show ?thesis
    unfolding pages_indexed_def by (simp add: page_list_small list_all_iff)
qed


lemma page_used_one_word: "bitmap st = Some [w] \<Longrightarrow> page_used st j \<Longrightarrow> bit w (j mod 64)"
  unfolding page_used_def by (cases "j div 64") auto

theorem free_undoes_alloc_witness:
  "\<exists>st2. free_phys_pages 0x400000 3 (small_machine 0x400000\<lparr>bitmap := Some [7], free_memory := 61 * PAGE_SIZE\<rparr>)
     = Some st2 \<and> page_used st2 = page_used (small_machine 0x400000) \<and> free_memory st2 = 64 * PAGE_SIZE"
proof -
  let ?st = "small_machine 0x400000" and ?st1 = "small_machine 0x400000\<lparr>bitmap := Some [7], free_memory := 61 * PAGE_SIZE\<rparr>"
  have alloc: "alloc_phys_pages_exact 3 ?st = Some (0x400000, ?st1)" by code_simp
  have b7: "bit (7 :: u64) k \<longleftrightarrow> k < 3" for k
    using bit_mask_iff [of 3 k, where ?'a = u64] by (auto simp: mask_eq_exp_minus_1 min_def)
  have "j mod 64 < 31" if "page_used ?st1 j" for j
    by (rule less_trans [of _ 3], rule iffD1 [OF b7], rule page_used_one_word [OF _ that]) simp_all
  then have low: "\<forall>j. page_used ?st1 j \<and> \<not> page_used ?st j \<longrightarrow> j mod 64 < 31"
    by blast
  have "free_memory ?st = 64 * PAGE_SIZE" by (simp add: small_machine_def)
  then show ?thesis
    using free_undoes_alloc [OF small_machine_ok _ pages_indexed_small alloc _ low] by simp
qed

text \<open>Freeing can hand a live page out twice. On a machine of 64 pages a block of 31 pages and a
  block of 2 are allocated; the second is freed; the next single page returned is the first page of
  the first block, which was never freed.\<close>

theorem free_reuses_live_page:
  "(do { (a, st) \<leftarrow> alloc_phys_pages_exact 31 (small_machine 0x400000);
         (b, st) \<leftarrow> alloc_phys_pages_exact 2 st;
         st \<leftarrow> free_phys_pages b 2 st;
         (c, st) \<leftarrow> alloc_phys_page st;
         Some (a, b, c) }) = Some (0x400000, 0x41F000, 0x400000)"
  by code_simp

text \<open>With a table of one segment, \<^verbatim>\<open>page_idx\<close> compares the page with the address of the table
  entry plus the segment's length: a page at or above that sum is not found, and freeing it does
  nothing.\<close>

theorem free_unindexed_is_lost:
  assumes "segment_count st = 1" "page_area st = [m]" "page_start st + seg_len m \<le> p"
  shows "free_phys_pages p n st = Some st"
  using assms by (auto simp: free_phys_pages_def page_idx_def Let_def not_less dest: leD)

theorem free_unindexed_is_lost_witness:
  "free_phys_pages 0x400000 1 (small_machine 0x300000) = Some (small_machine 0x300000)"
  by (rule free_unindexed_is_lost) (auto simp: small_machine_def PAGE_SIZE_def)

text \<open>Pages taken one at a time are pairwise distinct and none was in use before.\<close>

theorem single_pages_distinct:
  assumes "physalloc_distinct st"
  shows "\<exists>ps st'. frames.draw n st = Some (ps, st') \<and> distinct ps \<and>
    set ps \<inter> owned_pages st = {} \<and> set ps \<subseteq> owned_pages st'"
  using frames.draw_distinct [OF assms, of n] by blast

theorem single_pages_distinct_witness:
  "\<exists>ps st'. frames.draw 5 (small_machine 0x400000) = Some (ps, st') \<and> distinct ps"
  using single_pages_distinct [of "small_machine 0x400000" 5] small_machine_ok [of "0x400000"]
    distinct_page_list_small by (auto simp: physalloc_distinct_def)

definition map_high :: "u64 \<Rightarrow> u64 \<Rightarrow> physalloc \<Rightarrow> (u64 \<times> physalloc) option" where
  "map_high a l st = Some (0x40000000, st\<lparr>memory_start := 0x300000\<rparr>)"

lemma map_high_maps_early: "maps_early map_high"
  by (auto simp: maps_early_def map_high_def)

definition one_segment_map :: "u64 \<Rightarrow> memory_segment list" where
  "one_segment_map len = [\<lparr>seg_addr = 0x100000, seg_len = len, seg_type = 0\<rparr>]"

theorem physalloc_init_ok_witness:
  "\<exists>st'. physalloc_init 0x180000 map_high (one_segment_map 0x1000000) (small_machine 0) = Some st' \<and>
     physalloc_ok st' \<and> (\<forall>i. \<not> page_used st' i)"
proof -
  have "1 \<le> counted_pages 0x180000 (one_segment_map 0x1000000) (small_machine 0) \<and>
      counted_pages 0x180000 (one_segment_map 0x1000000) (small_machine 0) \<le> 32768" by code_simp
  moreover have "boot_map_ok (one_segment_map 0x1000000)" by (simp add: boot_map_ok_def one_segment_map_def)
  moreover have "kernel_start (small_machine 0) \<noteq> 0" by (simp add: small_machine_def)
  ultimately show ?thesis
    using physalloc_init_ok [OF map_high_maps_early, of "one_segment_map 0x1000000" "small_machine 0" "0x180000"]
    by blast
qed

theorem physalloc_init_bitmap_too_small_witness:
  "\<exists>st' i. physalloc_init 0x180000 map_high (one_segment_map 0x20000000) (small_machine 0) = Some st' \<and>
     i < unat (page_count st') \<and> bitmap_get i st' = None"
proof (rule physalloc_init_bitmap_too_small [OF map_high_maps_early])
  show "32769 < counted_pages 0x180000 (one_segment_map 0x20000000) (small_machine 0)" by code_simp
  show "counted_pages 0x180000 (one_segment_map 0x20000000) (small_machine 0) < 2 ^ 52" by code_simp
qed

end
