(* ===== verification/Paging.thy ===== *)
theory Paging
  imports Physalloc
begin

text \<open>
  The page tables of \<^verbatim>\<open>kernel/memory/paging.c\<close>. An entry is a 64-bit word with the bit fields of the
  C structures; a table is the page frame it lives in, named by its physical address, and the physical
  memory is a function from frames to their 512 words. The kernel reaches a frame through one of the
  windows of \<^verbatim>\<open>paging_pt\<close>: \<^verbatim>\<open>map_addr\<close> points a window at a frame, and every access names the window
  and the index of the entry. An access through a window that is not present is a fault, \<open>None\<close>.

  Frames come from the allocator of \<open>Physalloc\<close>, which is the component \<open>phys\<close> of the state.
\<close>

section \<open>Entries\<close>

definition get_address :: "u64 \<Rightarrow> u64" where "get_address e = take_bit 40 (drop_bit 12 e)"

definition set_address :: "u64 \<Rightarrow> u64 \<Rightarrow> u64" where
  "set_address a e = (e AND NOT (push_bit 12 (mask 40))) OR push_bit 12 (take_bit 40 a)"

text \<open>The flags are six bits wide in the upper tables and nine in a page table.\<close>

definition get_flags :: "nat \<Rightarrow> u64 \<Rightarrow> u64" where "get_flags w e = take_bit w e"

definition set_flags :: "nat \<Rightarrow> u64 \<Rightarrow> u64 \<Rightarrow> u64" where
  "set_flags w f e = (e AND NOT (mask w)) OR take_bit w f"

definition get_xd :: "u64 \<Rightarrow> u64" where "get_xd e = drop_bit 63 e"

definition set_xd :: "u64 \<Rightarrow> u64 \<Rightarrow> u64" where
  "set_xd x e = take_bit 63 e OR push_bit 63 (take_bit 1 x)"

text \<open>The number of entries of a table, kept in ignored bits of its first entry.\<close>

definition get_count :: "u64 \<Rightarrow> u64" where "get_count e = take_bit 9 (drop_bit 54 e)"

definition set_count :: "u64 \<Rightarrow> u64 \<Rightarrow> u64" where
  "set_count c e = (e AND NOT (push_bit 54 (mask 9))) OR push_bit 54 (take_bit 9 c)"

definition get_pt_count :: "u64 \<Rightarrow> u64" where
  "get_pt_count e = push_bit 2 (take_bit 7 (drop_bit 52 e)) OR take_bit 2 (drop_bit 10 e)"

definition set_pt_count :: "u64 \<Rightarrow> u64 \<Rightarrow> u64" where
  "set_pt_count c e = (e AND NOT (push_bit 10 (mask 2)) AND NOT (push_bit 52 (mask 7))) OR
     push_bit 10 (take_bit 2 c) OR push_bit 52 (take_bit 7 (drop_bit 2 c))"

definition PTE_PRESENT :: u64 where "PTE_PRESENT = 1"
definition PTE_WRITEABLE :: u64 where "PTE_WRITEABLE = 2"

definition present :: "u64 \<Rightarrow> bool" where "present e \<longleftrightarrow> e AND PTE_PRESENT \<noteq> 0"

text \<open>The physical address an entry points to.\<close>

definition pointee :: "u64 \<Rightarrow> u64" where "pointee e = push_bit 12 (get_address e)"

section \<open>Windows\<close>

record pgstate =
  phys :: physalloc
  pmem :: "u64 \<Rightarrow> nat \<Rightarrow> u64"
  paging_pt :: "nat \<Rightarrow> u64"

definition map_addr :: "u64 \<Rightarrow> nat \<Rightarrow> pgstate \<Rightarrow> pgstate option" where
  "map_addr pADDR pt_idx st =
     (if \<not> pt_idx < 512 then None
      else if drop_bit 12 pADDR = get_address (paging_pt st pt_idx) then Some st
      else Some (st\<lparr>paging_pt := (paging_pt st)(pt_idx :=
             set_flags 9 (PTE_PRESENT OR PTE_WRITEABLE) (set_address (drop_bit 12 pADDR) (paging_pt st pt_idx)))\<rparr>))"

text \<open>The entry \<open>k\<close> seen from the window \<open>w\<close>; an index of 512 or more reaches into the next windows.\<close>

definition win_frame :: "nat \<Rightarrow> nat \<Rightarrow> pgstate \<Rightarrow> u64 option" where
  "win_frame w k st =
     (let e = paging_pt st (w + k div 512)
      in if w + k div 512 < 512 \<and> present e then Some (pointee e) else None)"

definition rd :: "nat \<Rightarrow> nat \<Rightarrow> pgstate \<Rightarrow> u64 option" where
  "rd w k st = map_option (\<lambda>f. pmem st f (k mod 512)) (win_frame w k st)"

definition wr :: "nat \<Rightarrow> nat \<Rightarrow> u64 \<Rightarrow> pgstate \<Rightarrow> pgstate option" where
  "wr w k v st = map_option (\<lambda>f. st\<lparr>pmem := (pmem st)(f := (pmem st f)(k mod 512 := v))\<rparr>) (win_frame w k st)"

definition modify :: "nat \<Rightarrow> nat \<Rightarrow> (u64 \<Rightarrow> u64) \<Rightarrow> pgstate \<Rightarrow> pgstate option" where
  "modify w k f st = do { e \<leftarrow> rd w k st; wr w k (f e) st }"

text \<open>\<^verbatim>\<open>memsetv(v, 0, PAGE_SIZE)\<close> and \<^verbatim>\<open>memcpyv(new, old, PAGE_SIZE)\<close> through windows.\<close>

definition zero_page :: "nat \<Rightarrow> pgstate \<Rightarrow> pgstate option" where
  "zero_page w st = map_option (\<lambda>f. st\<lparr>pmem := (pmem st)(f := \<lambda>_. 0)\<rparr>) (win_frame w 0 st)"

definition copy_page :: "nat \<Rightarrow> nat \<Rightarrow> pgstate \<Rightarrow> pgstate option" where
  "copy_page dst src st = do {
     d \<leftarrow> win_frame dst 0 st;
     s \<leftarrow> win_frame src 0 st;
     Some (st\<lparr>pmem := (pmem st)(d := pmem st s)\<rparr>)
   }"

definition frame_alloc :: "pgstate \<Rightarrow> (u64 \<times> pgstate) option" where
  "frame_alloc st = map_option (\<lambda>(p, ph). (p, st\<lparr>phys := ph\<rparr>)) (alloc_phys_page (phys st))"

definition frame_free :: "u64 \<Rightarrow> pgstate \<Rightarrow> pgstate option" where
  "frame_free p st = map_option (\<lambda>ph. st\<lparr>phys := ph\<rparr>) (free_phys_page p (phys st))"

section \<open>Locate\<close>

text \<open>Looking up the entry \<open>off\<close> of the table \<open>p\<close> through the window \<open>w\<close>.\<close>

definition locate_in :: "nat \<Rightarrow> nat \<Rightarrow> u64 \<Rightarrow> pgstate \<Rightarrow> (u64 \<times> pgstate) option" where
  "locate_in w off p st = do {
     st \<leftarrow> map_addr p w st;
     e \<leftarrow> rd w off st;
     Some (if present e then pointee e else 0, st)
   }"

definition idx4 :: "u64 \<Rightarrow> nat" where "idx4 v = unat (drop_bit 39 v)"
definition idx3 :: "u64 \<Rightarrow> nat" where "idx3 v = unat (take_bit 9 (drop_bit 30 v))"
definition idx2 :: "u64 \<Rightarrow> nat" where "idx2 v = unat (take_bit 9 (drop_bit 21 v))"
definition idx1 :: "u64 \<Rightarrow> nat" where "idx1 v = unat (take_bit 9 (drop_bit 12 v))"

definition pdpt_locate :: "u64 \<Rightarrow> u64 \<Rightarrow> pgstate \<Rightarrow> (u64 \<times> pgstate) option" where
  "pdpt_locate pPML4 vADDR st = locate_in 0 (idx4 vADDR) pPML4 st"

definition pd_locate :: "u64 \<Rightarrow> u64 \<Rightarrow> pgstate \<Rightarrow> (u64 \<times> pgstate) option" where
  "pd_locate pPDPT vADDR st = locate_in 1 (idx3 vADDR) pPDPT st"

definition pt_locate :: "u64 \<Rightarrow> u64 \<Rightarrow> pgstate \<Rightarrow> (u64 \<times> pgstate) option" where
  "pt_locate pPD vADDR st = locate_in 2 (idx2 vADDR) pPD st"

section \<open>Alloc\<close>

definition pml4_alloc :: "pgstate \<Rightarrow> (u64 \<times> pgstate) option" where
  "pml4_alloc st = do {
     (p, st) \<leftarrow> frame_alloc st;
     (if p = 0 then Some (0, st)
      else do {
        st \<leftarrow> map_addr p 0 st;
        st \<leftarrow> zero_page 0 st;
        Some (p, st)
      })
   }"

text \<open>The table below the entry \<open>off\<close> of \<open>p\<close>, made if it is not there; \<open>w\<close> and \<open>sub\<close> are the windows of the
  two levels.\<close>

definition alloc_in :: "nat \<Rightarrow> nat \<Rightarrow> nat \<Rightarrow> u64 \<Rightarrow> u64 \<Rightarrow> pgstate \<Rightarrow> (u64 \<times> pgstate) option" where
  "alloc_in w sub off p flags st = do {
     st \<leftarrow> map_addr p w st;
     (q, st) \<leftarrow> locate_in w off p st;
     (if q \<noteq> 0 then do {
        st \<leftarrow> modify w off (\<lambda>e. set_flags 6 (get_flags 6 e OR flags) e) st;
        Some (q, st)
      }
      else do {
        (q, st) \<leftarrow> frame_alloc st;
        (if q = 0 then Some (0, st)
         else do {
           st \<leftarrow> map_addr q sub st;
           st \<leftarrow> zero_page sub st;
           st \<leftarrow> modify w off (set_address (drop_bit 12 q)) st;
           st \<leftarrow> modify w off (set_flags 6 (PTE_PRESENT OR flags)) st;
           st \<leftarrow> modify w 0 (\<lambda>e. set_count (get_count e + 1) e) st;
           Some (q, st)
         })
      })
   }"

definition pdpt_alloc :: "u64 \<Rightarrow> u64 \<Rightarrow> u64 \<Rightarrow> pgstate \<Rightarrow> (u64 \<times> pgstate) option" where
  "pdpt_alloc pPML4 vADDR flags st = alloc_in 0 1 (idx4 vADDR) pPML4 flags st"

definition pd_alloc :: "u64 \<Rightarrow> u64 \<Rightarrow> u64 \<Rightarrow> pgstate \<Rightarrow> (u64 \<times> pgstate) option" where
  "pd_alloc pPDPT vADDR flags st = alloc_in 1 2 (idx3 vADDR) pPDPT flags st"

definition pt_alloc :: "u64 \<Rightarrow> u64 \<Rightarrow> u64 \<Rightarrow> pgstate \<Rightarrow> (u64 \<times> pgstate) option" where
  "pt_alloc pPD vADDR flags st = alloc_in 2 3 (idx2 vADDR) pPD flags st"

section \<open>Free\<close>

text \<open>The loop over the entries of the table in window \<open>w\<close>; \<open>below\<close> frees what an entry points to.\<close>

fun free_ents :: "nat \<Rightarrow> (u64 \<Rightarrow> pgstate \<Rightarrow> pgstate option) \<Rightarrow> nat \<Rightarrow> nat \<Rightarrow> u64 \<Rightarrow> pgstate \<Rightarrow> (u64 \<times> pgstate) option" where
  "free_ents w below i 0 cnt st = Some (cnt, st)"
| "free_ents w below i (Suc n) cnt st = do {
     e \<leftarrow> rd w i st;
     (if \<not> present e then free_ents w below (Suc i) n cnt st
      else do {
        st \<leftarrow> below (pointee e) st;
        free_ents w below (Suc i) n (cnt - 1) st
      })
   }"

definition free_table ::
  "nat \<Rightarrow> (u64 \<Rightarrow> u64) \<Rightarrow> (u64 \<Rightarrow> u64 \<Rightarrow> u64) \<Rightarrow> (u64 \<Rightarrow> pgstate \<Rightarrow> pgstate option) \<Rightarrow> u64 \<Rightarrow> bool \<Rightarrow> pgstate \<Rightarrow> pgstate option" where
  "free_table w getc setc below p force st = do {
     st \<leftarrow> map_addr p w st;
     e \<leftarrow> rd w 0 st;
     (if getc e = 0 then frame_free p st
      else do {
        (cnt, st) \<leftarrow> free_ents w below 0 512 (getc e) st;
        (if \<not> force \<and> cnt \<noteq> 0 then modify w 0 (setc cnt) st else frame_free p st)
      })
   }"

definition pt_free :: "u64 \<Rightarrow> bool \<Rightarrow> pgstate \<Rightarrow> pgstate option" where
  "pt_free pPT force st = free_table 3 get_pt_count set_pt_count frame_free pPT force st"

definition pd_free :: "u64 \<Rightarrow> bool \<Rightarrow> pgstate \<Rightarrow> pgstate option" where
  "pd_free pPD force st = free_table 2 get_count set_count (\<lambda>p. pt_free p force) pPD force st"

definition pdpt_free :: "u64 \<Rightarrow> bool \<Rightarrow> pgstate \<Rightarrow> pgstate option" where
  "pdpt_free pPDPT force st = free_table 1 get_count set_count (\<lambda>p. pd_free p force) pPDPT force st"

definition pml4_free :: "u64 \<Rightarrow> bool \<Rightarrow> pgstate \<Rightarrow> pgstate option" where
  "pml4_free pPML4 force st = free_table 0 get_count set_count (\<lambda>p. pdpt_free p force) pPML4 force st"

section \<open>Clone\<close>

definition page_clone :: "u64 \<Rightarrow> pgstate \<Rightarrow> (u64 \<times> pgstate) option" where
  "page_clone old_pADDR st =
     (if old_pADDR \<le> kernel_end (phys st) then Some (old_pADDR, st)
      else do {
        (new_pADDR, st) \<leftarrow> frame_alloc st;
        (if new_pADDR = 0 then Some (0, st)
         else do {
           st \<leftarrow> map_addr old_pADDR 9 st;
           st \<leftarrow> map_addr new_pADDR 8 st;
           st \<leftarrow> copy_page 8 9 st;
           Some (new_pADDR, st)
         })
      })"

text \<open>The loop over the entries: \<open>fw\<close> is the width of the flags, \<open>old\<close> and \<open>new\<close> the windows, \<open>below\<close> clones
  what an entry points to. The first component says whether every clone succeeded.\<close>

fun clone_ents ::
  "nat \<Rightarrow> nat \<Rightarrow> nat \<Rightarrow> (u64 \<Rightarrow> pgstate \<Rightarrow> (u64 \<times> pgstate) option) \<Rightarrow> nat \<Rightarrow> nat \<Rightarrow> pgstate \<Rightarrow> (bool \<times> pgstate) option" where
  "clone_ents fw old new below i 0 st = Some (True, st)"
| "clone_ents fw old new below i (Suc n) st = do {
     e \<leftarrow> rd old i st;
     st \<leftarrow> modify new i (set_xd (get_xd e)) st;
     st \<leftarrow> modify new i (set_flags fw (get_flags fw e)) st;
     (if \<not> present e then clone_ents fw old new below (Suc i) n st
      else do {
        (p, st) \<leftarrow> below (pointee e) st;
        (if p = 0 then Some (False, st)
         else do {
           st \<leftarrow> modify new i (set_address (drop_bit 12 p)) st;
           clone_ents fw old new below (Suc i) n st
         })
      })
   }"

definition clone_table ::
  "nat \<Rightarrow> nat \<Rightarrow> nat \<Rightarrow> (u64 \<Rightarrow> u64 \<Rightarrow> u64) \<Rightarrow> (u64 \<Rightarrow> u64) \<Rightarrow> (u64 \<Rightarrow> pgstate \<Rightarrow> (u64 \<times> pgstate) option) \<Rightarrow>
   (u64 \<Rightarrow> pgstate \<Rightarrow> pgstate option) \<Rightarrow> u64 \<Rightarrow> pgstate \<Rightarrow> (u64 \<times> pgstate) option" where
  "clone_table fw old new setc getc below discard p st = do {
     (q, st) \<leftarrow> frame_alloc st;
     (if q = 0 then Some (0, st)
      else do {
        st \<leftarrow> map_addr p old st;
        st \<leftarrow> map_addr q new st;
        st \<leftarrow> zero_page new st;
        e \<leftarrow> rd old 0 st;
        st \<leftarrow> modify new 0 (setc (getc e)) st;
        (ok, st) \<leftarrow> clone_ents fw old new below 0 512 st;
        (if ok then Some (q, st) else do { st \<leftarrow> discard q st; Some (0, st) })
      })
   }"

definition pt_clone :: "u64 \<Rightarrow> pgstate \<Rightarrow> (u64 \<times> pgstate) option" where
  "pt_clone old_pPT st = clone_table 9 7 3 set_pt_count get_pt_count page_clone (\<lambda>p. pt_free p True) old_pPT st"

definition pd_clone :: "u64 \<Rightarrow> pgstate \<Rightarrow> (u64 \<times> pgstate) option" where
  "pd_clone old_pPD st = clone_table 6 6 2 set_count get_count pt_clone (\<lambda>p. pd_free p True) old_pPD st"

definition pdpt_clone :: "u64 \<Rightarrow> pgstate \<Rightarrow> (u64 \<times> pgstate) option" where
  "pdpt_clone old_pPDPT st = clone_table 6 5 1 set_count get_count pd_clone (\<lambda>p. pdpt_free p True) old_pPDPT st"

text \<open>\<^verbatim>\<open>pml4_clone\<close> maps the old table after the new one has been zeroed.\<close>

definition pml4_clone :: "u64 \<Rightarrow> pgstate \<Rightarrow> (u64 \<times> pgstate) option" where
  "pml4_clone old_pPML4 st = do {
     (q, st) \<leftarrow> pml4_alloc st;
     (if q = 0 then Some (0, st)
      else do {
        st \<leftarrow> map_addr old_pPML4 4 st;
        st \<leftarrow> map_addr q 0 st;
        e \<leftarrow> rd 4 0 st;
        st \<leftarrow> modify 0 0 (set_count (get_count e)) st;
        (ok, st) \<leftarrow> clone_ents 6 4 0 pdpt_clone 0 512 st;
        (if ok then Some (q, st) else do { st \<leftarrow> pml4_free q True st; Some (0, st) })
      })
   }"

section \<open>Pages\<close>

text \<open>The result is the index of the entry in window 3, \<open>None\<close> for \<^verbatim>\<open>NULL\<close>.\<close>

definition page_locate :: "u64 \<Rightarrow> u64 \<Rightarrow> pgstate \<Rightarrow> (nat option \<times> pgstate) option" where
  "page_locate pPML4 vADDR st = do {
     (pPDPT, st) \<leftarrow> pdpt_locate pPML4 vADDR st;
     (if pPDPT = 0 then Some (None, st)
      else do {
        (pPD, st) \<leftarrow> pd_locate pPDPT vADDR st;
        (if pPD = 0 then Some (None, st)
         else do {
           (pPT, st) \<leftarrow> pt_locate pPD vADDR st;
           (if pPT = 0 then Some (None, st)
            else do {
              st \<leftarrow> map_addr pPT 3 st;
              e \<leftarrow> rd 3 (idx1 vADDR) st;
              Some (if present e then Some (idx1 vADDR) else None, st)
            })
         })
      })
   }"

definition page_alloc :: "u64 \<Rightarrow> u64 \<Rightarrow> u64 \<Rightarrow> pgstate \<Rightarrow> (nat option \<times> pgstate) option" where
  "page_alloc pPML4 vADDR flags st = do {
     (pPDPT, st) \<leftarrow> pdpt_alloc pPML4 vADDR flags st;
     (if pPDPT = 0 then Some (None, st)
      else do {
        (pPD, st) \<leftarrow> pd_alloc pPDPT vADDR flags st;
        (if pPD = 0 then Some (None, st)
         else do {
           (pPT, st) \<leftarrow> pt_alloc pPD vADDR flags st;
           (if pPT = 0 then Some (None, st)
            else do {
              st \<leftarrow> map_addr pPT 3 st;
              st \<leftarrow> wr 3 (idx1 vADDR) 0 st;
              st \<leftarrow> modify 3 0 (\<lambda>e. set_pt_count (get_pt_count e + 1) e) st;
              Some (Some (idx1 vADDR), st)
            })
         })
      })
   }"

text \<open>The address is read after it has been cleared.\<close>

definition page_free :: "u64 \<Rightarrow> u64 \<Rightarrow> bool \<Rightarrow> pgstate \<Rightarrow> pgstate option" where
  "page_free pPML4 vADDR deallocate st = do {
     (pte, st) \<leftarrow> page_locate pPML4 vADDR st;
     (case pte of
        None \<Rightarrow> Some st
      | Some k \<Rightarrow> do {
          st \<leftarrow> modify 3 k (set_flags 9 0) st;
          st \<leftarrow> modify 3 k (set_address 0) st;
          (if deallocate then do { e \<leftarrow> rd 3 k st; frame_free (pointee e) st } else Some st)
        })
   }"

fun unmap_pages :: "u64 \<Rightarrow> u64 \<Rightarrow> nat \<Rightarrow> bool \<Rightarrow> pgstate \<Rightarrow> pgstate option" where
  "unmap_pages pPML4 vADDR 0 deallocate st = Some st"
| "unmap_pages pPML4 vADDR (Suc n) deallocate st = do {
     st \<leftarrow> page_free pPML4 vADDR deallocate st;
     unmap_pages pPML4 (vADDR + PAGE_SIZE) n deallocate st
   }"

text \<open>Assigning the address and the flags of the entry \<open>k\<close> in window 3.\<close>

definition put_leaf :: "u64 \<Rightarrow> u64 \<Rightarrow> nat \<Rightarrow> pgstate \<Rightarrow> pgstate option" where
  "put_leaf pADDR flags k st = do {
     st \<leftarrow> modify 3 k (set_address (drop_bit 12 pADDR)) st;
     modify 3 k (set_flags 9 (PTE_PRESENT OR flags)) st
   }"

text \<open>The loop of \<^verbatim>\<open>map_pages\<close> with \<open>n\<close> pages to go of \<open>pages\<close>; the pages are counted in the C type long, and a
  count below 1 maps nothing.\<close>

fun map_loop :: "u64 \<Rightarrow> u64 \<Rightarrow> u64 \<Rightarrow> u64 \<Rightarrow> nat \<Rightarrow> nat \<Rightarrow> pgstate \<Rightarrow> (int \<times> pgstate) option" where
  "map_loop pPML4 vADDR pADDR flags pages 0 st = Some (0, st)"
| "map_loop pPML4 vADDR pADDR flags pages (Suc n) st = do {
     (pte, st) \<leftarrow> page_alloc pPML4 vADDR flags st;
     (case pte of
        None \<Rightarrow> do { st \<leftarrow> unmap_pages pPML4 vADDR pages True st; Some (1, st) }
      | Some k \<Rightarrow> do {
          st \<leftarrow> put_leaf pADDR flags k st;
          map_loop pPML4 (vADDR + PAGE_SIZE) (pADDR + PAGE_SIZE) flags pages n st
        })
   }"

definition map_pages :: "u64 \<Rightarrow> u64 \<Rightarrow> u64 \<Rightarrow> u64 \<Rightarrow> int \<Rightarrow> pgstate \<Rightarrow> (int \<times> pgstate) option" where
  "map_pages pPML4 vADDR pADDR flags pages st =
     map_loop pPML4 vADDR pADDR flags (nat pages) (nat pages) st"

section \<open>Directories\<close>

definition pgdir_alloc :: "pgstate \<Rightarrow> (u64 \<times> pgstate) option" where
  "pgdir_alloc st = do {
     (p, st) \<leftarrow> pml4_alloc st;
     (if p = 0 then Some (0, st)
      else do {
        (e, st) \<leftarrow> map_pages p (kernel_start (phys st)) (kernel_start (phys st)) (PTE_PRESENT OR PTE_WRITEABLE)
                     (sint (kernel_end (phys st) - kernel_start (phys st)) div 4096) st;
        (if e \<noteq> 0 then do { st \<leftarrow> pml4_free p False st; Some (0, st) } else Some (p, st))
      })
   }"

definition pgdir_clone :: "u64 \<Rightarrow> pgstate \<Rightarrow> (u64 \<times> pgstate) option" where
  "pgdir_clone old_pgdir st = pml4_clone old_pgdir st"

definition pgdir_free :: "u64 \<Rightarrow> pgstate \<Rightarrow> pgstate option" where
  "pgdir_free addr st = pml4_free addr True st"

text \<open>The tables of the kernel image: their symbols, which are physical and virtual addresses alike.\<close>

record ksyms =
  kernel_pml4 :: u64
  kernel_pdpt_0 :: u64
  kernel_pd_0 :: u64
  kernel_pd_0_ents :: "nat \<Rightarrow> u64"
  kernel_pd_1 :: u64
  paging_pt_addr :: u64

definition N_IDENT_PTS :: nat where "N_IDENT_PTS = 64"

text \<open>Assigning the flags and the address of an entry; \<open>fw\<close> is the width of the flags.\<close>

definition put_entry :: "nat \<Rightarrow> u64 \<Rightarrow> nat \<Rightarrow> u64 \<Rightarrow> (u64 \<Rightarrow> nat \<Rightarrow> u64) \<Rightarrow> u64 \<Rightarrow> nat \<Rightarrow> u64" where
  "put_entry fw f k a pm =
     pm(f := (pm f)(k := set_address (drop_bit 12 a) (set_flags fw (PTE_PRESENT OR PTE_WRITEABLE) (pm f k))))"

fun ident_entries :: "u64 \<Rightarrow> nat \<Rightarrow> nat \<Rightarrow> nat \<Rightarrow> (u64 \<Rightarrow> nat \<Rightarrow> u64) \<Rightarrow> u64 \<Rightarrow> nat \<Rightarrow> u64" where
  "ident_entries f i j 0 pm = pm"
| "ident_entries f i j (Suc n) pm = ident_entries f i (Suc j) n (put_entry 9 f j (of_nat (i * 512 + j) * PAGE_SIZE) pm)"

fun ident_tables :: "ksyms \<Rightarrow> nat \<Rightarrow> nat \<Rightarrow> (u64 \<Rightarrow> nat \<Rightarrow> u64) \<Rightarrow> u64 \<Rightarrow> nat \<Rightarrow> u64" where
  "ident_tables k i 0 pm = pm"
| "ident_tables k i (Suc n) pm =
     ident_tables k (Suc i) n (ident_entries (kernel_pd_0_ents k i) i 0 512 (put_entry 6 (kernel_pd_0 k) i (kernel_pd_0_ents k i) pm))"

definition paging_init :: "ksyms \<Rightarrow> pgstate \<Rightarrow> pgstate" where
  "paging_init k st =
     (let pm = put_entry 6 (kernel_pml4 k) 0 (kernel_pdpt_0 k) (pmem st);
          pm = put_entry 6 (kernel_pdpt_0 k) 0 (kernel_pd_0 k) pm;
          pm = put_entry 6 (kernel_pdpt_0 k) 1 (kernel_pd_1 k) pm;
          pm = ident_tables k 0 N_IDENT_PTS pm;
          pm = put_entry 6 (kernel_pd_1 k) 0 (paging_pt_addr k) pm
      in st\<lparr>pmem := pm, paging_pt := \<lambda>_. 0\<rparr>)"

section \<open>Bit fields\<close>

lemma present_bit: "present e \<longleftrightarrow> bit e 0"
  by (simp add: present_def PTE_PRESENT_def and_one_eq odd_iff_mod_2_eq_one bit_0)

lemma get_address_fields [simp]:
  "get_address (set_address a e) = take_bit 40 a" "w \<le> 12 \<Longrightarrow> get_address (set_flags w f e) = get_address e"
  "get_address (set_count c e) = get_address e" "get_address (set_pt_count c e) = get_address e"
  "get_address (set_xd x e) = get_address e" "get_address 0 = 0"
  by (rule bit_word_eqI;
      auto simp: get_address_def set_address_def set_flags_def set_count_def set_pt_count_def set_xd_def bit_simps)+

lemma present_fields [simp]:
  "present (set_address a e) = present e" "0 < w \<Longrightarrow> present (set_flags w f e) = bit f 0"
  "present (set_count c e) = present e" "present (set_pt_count c e) = present e" "present (set_xd x e) = present e" "\<not> present 0"
  by (auto simp: present_bit set_address_def set_flags_def set_count_def set_pt_count_def set_xd_def bit_simps)

lemma pointee_fields [simp]:
  "pointee (set_address a e) = push_bit 12 (take_bit 40 a)" "w \<le> 12 \<Longrightarrow> pointee (set_flags w f e) = pointee e"
  "pointee (set_count c e) = pointee e" "pointee (set_pt_count c e) = pointee e" "pointee (set_xd x e) = pointee e"
  by (simp_all add: pointee_def)

section \<open>Windows show frames\<close>

text \<open>A page frame an entry can name: page aligned, within 52 bits, and not the null frame.\<close>

definition frame_ok :: "u64 \<Rightarrow> bool" where
  "frame_ok f \<longleftrightarrow> f \<noteq> 0 \<and> push_bit 12 (take_bit 40 (drop_bit 12 f)) = f"

definition win_ok :: "pgstate \<Rightarrow> bool" where
  "win_ok st \<longleftrightarrow> (\<forall>w. get_address (paging_pt st w) \<noteq> 0 \<longrightarrow> present (paging_pt st w))"

definition sees :: "pgstate \<Rightarrow> nat \<Rightarrow> u64 \<Rightarrow> bool" where
  "sees st w f \<longleftrightarrow> w < 512 \<and> present (paging_pt st w) \<and> pointee (paging_pt st w) = f"

lemma sees_access:
  assumes "sees st w f" "k < 512"
  shows "rd w k st = Some (pmem st f k)" "wr w k v st = Some (st\<lparr>pmem := (pmem st)(f := (pmem st f)(k := v))\<rparr>)"
    "modify w k g st = Some (st\<lparr>pmem := (pmem st)(f := (pmem st f)(k := g (pmem st f k)))\<rparr>)"
    "zero_page w st = Some (st\<lparr>pmem := (pmem st)(f := \<lambda>_. 0)\<rparr>)"
  using assms by (simp_all add: sees_def rd_def wr_def modify_def zero_page_def win_frame_def)

lemma sees_upd [simp]: "sees (st\<lparr>pmem := pm\<rparr>) w f = sees st w f" "sees (st\<lparr>phys := ph\<rparr>) w f = sees st w f"
  "win_ok (st\<lparr>pmem := pm\<rparr>) = win_ok st" "win_ok (st\<lparr>phys := ph\<rparr>) = win_ok st"
  by (simp_all add: sees_def win_ok_def)

text \<open>\<open>st'\<close> differs from \<open>st\<close> in the window \<open>w\<close> only, which shows \<open>f\<close>.\<close>

definition rewindowed :: "nat \<Rightarrow> u64 \<Rightarrow> pgstate \<Rightarrow> pgstate \<Rightarrow> bool" where
  "rewindowed w f st st' \<longleftrightarrow> (\<exists>W. st' = st\<lparr>paging_pt := (paging_pt st)(w := W)\<rparr>) \<and> sees st' w f \<and> win_ok st'"

lemma rewindowed_simps:
  assumes "rewindowed w f st st'"
  shows "pmem st' = pmem st" "phys st' = phys st" "sees st' w f" "win_ok st'" "u \<noteq> w \<Longrightarrow> sees st' u g = sees st u g"
  using assms by (auto simp: rewindowed_def sees_def)

lemma frame_ok_address: "frame_ok f \<Longrightarrow> take_bit 40 (drop_bit 12 f) = drop_bit 12 f \<and> drop_bit 12 f \<noteq> 0"
proof -
  assume f: "frame_ok f"
  have "drop_bit 12 (push_bit 12 (take_bit 40 (drop_bit 12 f))) = take_bit 40 (drop_bit 12 f)"
    by (rule bit_word_eqI) (auto simp: bit_simps)
  then have "take_bit 40 (drop_bit 12 f) = drop_bit 12 f" using f by (simp add: frame_ok_def)
  then show ?thesis using f by (auto simp: frame_ok_def)
qed

lemma map_addr_ok:
  assumes "frame_ok f" "win_ok st" "w < 512"
  obtains st' where "map_addr f w st = Some st'" "rewindowed w f st st'"
proof (cases "drop_bit 12 f = get_address (paging_pt st w)")
  case True
  note a = frame_ok_address [OF assms(1)]
  have "present (paging_pt st w)" using True a assms(2) by (simp add: win_ok_def)
  moreover have "pointee (paging_pt st w) = f" using True a assms(1) by (simp add: pointee_def frame_ok_def)
  ultimately have "rewindowed w f st st" using assms by (auto simp: rewindowed_def sees_def intro: exI [of _ "paging_pt st w"])
  then show thesis using True assms(3) that by (simp add: map_addr_def)
next
  case False
  let ?W = "set_flags 9 (PTE_PRESENT OR PTE_WRITEABLE) (set_address (drop_bit 12 f) (paging_pt st w))"
  have "present ?W" by (simp add: PTE_PRESENT_def PTE_WRITEABLE_def bit_simps)
  moreover have "pointee ?W = f" using assms(1) by (simp add: frame_ok_def)
  ultimately have "rewindowed w f st (st\<lparr>paging_pt := (paging_pt st)(w := ?W)\<rparr>)"
    using assms by (auto simp: rewindowed_def sees_def win_ok_def)
  then show thesis using False assms(3) that by (simp add: map_addr_def)
qed

section \<open>Tables as links\<close>

text \<open>The frame below an entry, 0 for none, and the frame at the end of a path of indices.\<close>

definition link :: "(u64 \<Rightarrow> nat \<Rightarrow> u64) \<Rightarrow> u64 \<Rightarrow> nat \<Rightarrow> u64" where
  "link pm f k = (if present (pm f k) then pointee (pm f k) else 0)"

fun fr :: "(u64 \<Rightarrow> nat \<Rightarrow> u64) \<Rightarrow> u64 \<Rightarrow> nat list \<Rightarrow> u64" where
  "fr lk r [] = r"
| "fr lk r (i # is) = (if r = 0 then 0 else fr lk (lk r i) is)"

lemma fr_zero [simp]: "fr lk 0 ps = 0"
  by (cases ps) auto

lemma fr_snoc: "fr lk r (is @ [i]) = (if fr lk r is = 0 then 0 else lk (fr lk r is) i)"
  by (induction "is" arbitrary: r) auto

definition path :: "nat list \<Rightarrow> bool" where
  "path ps \<longleftrightarrow> length ps \<le> 3 \<and> (\<forall>i\<in>set ps. i < 512)"

definition frames_of :: "(u64 \<Rightarrow> nat \<Rightarrow> u64) \<Rightarrow> u64 \<Rightarrow> u64 set" where
  "frames_of lk root = {fr lk root ps | ps. path ps \<and> fr lk root ps \<noteq> 0}"

definition tree_ok :: "(u64 \<Rightarrow> nat \<Rightarrow> u64) \<Rightarrow> u64 \<Rightarrow> bool" where
  "tree_ok lk root \<longleftrightarrow>
     (\<forall>ps qs. path ps \<longrightarrow> path qs \<longrightarrow> fr lk root ps \<noteq> 0 \<longrightarrow> fr lk root ps = fr lk root qs \<longrightarrow> ps = qs)"

lemma path_snoc: "path (ps @ [i]) \<longleftrightarrow> length ps < 3 \<and> (\<forall>j\<in>set ps. j < 512) \<and> i < 512"
  by (auto simp: path_def)

lemma path_prefix: "path (ps @ qs) \<Longrightarrow> path ps"
  by (simp add: path_def)

text \<open>Hanging a fresh table \<open>q\<close> below the entry \<open>off\<close> of the table at \<open>ps\<close>.\<close>

definition hang :: "u64 \<Rightarrow> u64 \<Rightarrow> nat \<Rightarrow> (u64 \<Rightarrow> nat \<Rightarrow> u64) \<Rightarrow> u64 \<Rightarrow> nat \<Rightarrow> u64" where
  "hang q p off lk f k = (if f = p then if k = off then q else lk p k else if f = q then 0 else lk f k)"

lemma hang_at:
  "hang q p off lk p k = (if k = off then q else lk p k)" "p \<noteq> q \<Longrightarrow> hang q p off lk q k = 0"
  "f \<noteq> p \<Longrightarrow> f \<noteq> q \<Longrightarrow> hang q p off lk f k = lk f k"
  by (simp_all add: hang_def)

lemma fr_hang:
  assumes tree: "tree_ok lk root" and p: "fr lk root ps = p" "p \<noteq> 0" "path (ps @ [off])" and e: "lk p off = 0"
    and q: "q \<noteq> 0" "q \<notin> frames_of lk root" and rs: "path rs"
  shows "fr (hang q p off lk) root rs = (if rs = ps @ [off] then q else fr lk root rs)"
  using rs
proof (induction rs rule: rev_induct)
  case Nil
  then show ?case by simp
next
  case (snoc i rs)
  have path: "path rs" "path ps" using snoc.prems p(3) by (auto intro: path_prefix)
  have pq: "p \<noteq> q" using p(1,2) q(2) path(2) by (auto simp: frames_of_def)
  have IH: "fr (hang q p off lk) root rs = (if rs = ps @ [off] then q else fr lk root rs)" by (rule snoc.IH [OF path(1)])
  have e': "fr lk root (ps @ [off]) = 0" using p e by (simp add: fr_snoc)
  show ?case
  proof (cases "rs = ps @ [off]")
    case True
    have "fr (hang q p off lk) root (rs @ [i]) = 0" unfolding fr_snoc IH using True pq by (simp add: hang_at)
    moreover have "fr lk root (rs @ [i]) = 0" unfolding fr_snoc using True e' by simp
    ultimately show ?thesis using True by simp
  next
    case False
    then have f: "fr (hang q p off lk) root rs = fr lk root rs" using IH by simp
    show ?thesis
    proof (cases "fr lk root rs = 0")
      case True
      then have "rs \<noteq> ps" using p by auto
      then show ?thesis using True f by (simp add: fr_snoc)
    next
      case nz: False
      then have "fr lk root rs \<noteq> q" using q(2) path(1) by (auto simp: frames_of_def)
      moreover have "fr lk root rs = p \<longleftrightarrow> rs = ps" using tree p nz path by (auto simp: tree_ok_def)
      ultimately show ?thesis using f nz p(1) by (auto simp: fr_snoc hang_at)
    qed
  qed
qed

lemma tree_hang:
  assumes "tree_ok lk root" "fr lk root ps = p" "p \<noteq> 0" "path (ps @ [off])" "lk p off = 0" "q \<noteq> 0" "q \<notin> frames_of lk root"
  shows "tree_ok (hang q p off lk) root" "frames_of (hang q p off lk) root = insert q (frames_of lk root)"
proof -
  note f = fr_hang [OF assms]
  show "tree_ok (hang q p off lk) root"
    unfolding tree_ok_def
  proof (intro allI impI)
    fix rs ts
    assume a: "path rs" "path ts" "fr (hang q p off lk) root rs \<noteq> 0" "fr (hang q p off lk) root rs = fr (hang q p off lk) root ts"
    then show "rs = ts"
      using assms(1,7) f [OF a(1)] f [OF a(2)] unfolding tree_ok_def frames_of_def by (auto split: if_splits)
  qed
  have "fr lk root (ps @ [off]) = 0" using assms by (simp add: fr_snoc)
  then show "frames_of (hang q p off lk) root = insert q (frames_of lk root)"
    using f assms(4,6) unfolding frames_of_def by auto metis+
qed

section \<open>The invariant of a directory\<close>

lemma frame_ok_pointee: "frame_ok (pointee e) \<longleftrightarrow> pointee e \<noteq> 0"
proof -
  have "push_bit 12 (take_bit 40 (drop_bit 12 (pointee e))) = pointee e"
    by (rule bit_word_eqI) (auto simp: pointee_def get_address_def bit_simps)
  then show ?thesis by (simp add: frame_ok_def)
qed

lemma frame_ok_link: "link pm f k \<noteq> 0 \<Longrightarrow> frame_ok (link pm f k)"
  by (simp add: link_def frame_ok_pointee split: if_splits)

text \<open>The tables of a directory form a tree, and the allocator will not hand out one of them.\<close>

definition pg_ok :: "u64 \<Rightarrow> pgstate \<Rightarrow> bool" where
  "pg_ok root st \<longleftrightarrow>
     win_ok st \<and> physalloc_distinct (phys st) \<and> (\<forall>p\<in>set (page_list (phys st)). frame_ok p) \<and>
     frame_ok root \<and> tree_ok (link (pmem st)) root \<and>
     frames_of (link (pmem st)) root \<inter> set (page_list (phys st)) \<subseteq> owned_pages (phys st)"

lemma frames_of_root: "root \<noteq> 0 \<Longrightarrow> root \<in> frames_of lk root"
  by (auto simp: frames_of_def path_def intro: exI [of _ "[]"])

lemma fr_ok: "frame_ok root \<Longrightarrow> fr (link pm) root ps \<noteq> 0 \<Longrightarrow> frame_ok (fr (link pm) root ps)"
  by (cases ps rule: rev_exhaust) (auto simp: fr_snoc frame_ok_link split: if_splits)

text \<open>\<open>st'\<close> is \<open>st\<close> but for windows and for what the tables keep besides links and pages.\<close>

lemma pg_ok_cong:
  assumes "pg_ok root st" "win_ok st'" "phys st' = phys st" "link (pmem st') = link (pmem st)"
  shows "pg_ok root st'"
  using assms by (simp add: pg_ok_def)

lemma alloc_page_list:
  assumes "physalloc_distinct st" "alloc_phys_page st = Some (p, st')"
  shows "same_tables st st'" "p \<noteq> 0 \<Longrightarrow> p \<in> set (page_list st)"
proof -
  have ok: "physalloc_ok st" and one: "0 < (1 :: u64)" using assms(1) by (simp_all add: physalloc_distinct_def)
  have "same_tables st st' \<and> (p \<noteq> 0 \<longrightarrow> p \<in> set (page_list st))"
    using assms(2)
    by (cases rule: alloc_phys_pages_exact_cases [OF ok one, case_names full run]) (auto simp: alloc_phys_page_def)
  then show "same_tables st st'" "p \<noteq> 0 \<Longrightarrow> p \<in> set (page_list st)" by simp_all
qed

lemma frame_alloc_ok:
  assumes "pg_ok root st"
  obtains (full) "frame_alloc st = Some (0, st)"
    | (page) p ph where "frame_alloc st = Some (p, st\<lparr>phys := ph\<rparr>)" "pg_ok root (st\<lparr>phys := ph\<rparr>)" "frame_ok p"
      "p \<notin> frames_of (link (pmem st)) root" "p \<in> owned_pages ph" "p \<notin> owned_pages (phys st)"
      "owned_pages (phys st) \<subseteq> owned_pages ph" "same_tables (phys st) ph"
proof -
  have d: "physalloc_distinct (phys st)" using assms by (simp add: pg_ok_def)
  obtain p ph where a: "alloc_phys_page (phys st) = Some (p, ph)"
    using frames.take_returns [OF d] by (auto simp: not_None_eq)
  show thesis
  proof (cases "p = 0")
    case True
    then have "ph = phys st" using frames.take_null [OF d] a by simp
    then show thesis using full a True by (simp add: frame_alloc_def)
  next
    case False
    note l = alloc_page_list [OF d a] and f = frames.take_fresh [OF d a False] and mono = frames.take_mono [OF d a]
    have "pg_ok root (st\<lparr>phys := ph\<rparr>)" using assms frames.take_ok [OF d a] page_list_same_tables [OF l(1)] mono by (auto simp: pg_ok_def)
    moreover have "frame_ok p" "p \<notin> frames_of (link (pmem st)) root"
      using assms f l(2) [OF False] by (auto simp: pg_ok_def)
    ultimately show thesis using page [of p ph] a f mono l(1) by (simp add: frame_alloc_def)
  qed
qed

section \<open>Locating and allocating tables\<close>

lemma locate_in_ok:
  assumes "pg_ok root st" "frame_ok p" "w < 512" "off < 512"
  obtains st' where "locate_in w off p st = Some (link (pmem st) p off, st')" "rewindowed w p st st'"
proof -
  obtain st1 where st1: "map_addr p w st = Some st1" "rewindowed w p st st1"
    by (rule map_addr_ok [OF assms(2) _ assms(3)]) (use assms(1) in \<open>auto simp: pg_ok_def\<close>)
  have "locate_in w off p st = Some (link (pmem st) p off, st1)"
    using st1 rewindowed_simps [OF st1(2)] assms(4) by (simp add: locate_in_def sees_access link_def)
  then show thesis using that st1(2) by blast
qed

lemma pg_ok_rewindowed: "pg_ok root st \<Longrightarrow> rewindowed w p st st' \<Longrightarrow> pg_ok root st'"
  by (erule pg_ok_cong) (simp_all add: rewindowed_simps)

text \<open>The page at the index \<open>k\<close> of the page table at the path \<open>ts\<close>: its frame and its flags.\<close>

definition leaf :: "u64 \<Rightarrow> pgstate \<Rightarrow> nat list \<Rightarrow> nat \<Rightarrow> (u64 \<times> u64) option" where
  "leaf root st ts k =
     (let t = fr (link (pmem st)) root ts; e = pmem st t k
      in if t \<noteq> 0 \<and> present e then Some (pointee e, get_flags 9 e) else None)"

text \<open>Frames the allocator does not hand out.\<close>

definition kept :: "pgstate \<Rightarrow> u64 set" where
  "kept st = - set (page_list (phys st)) \<union> owned_pages (phys st)"

text \<open>What an operation on the directory \<open>root\<close> leaves alone besides its pages: the tables stay where they are, new
  ones come from the allocator, and no other frame that is in use changes.\<close>

definition grown :: "u64 \<Rightarrow> pgstate \<Rightarrow> pgstate \<Rightarrow> bool" where
  "grown root st st' \<longleftrightarrow>
     (\<forall>ts. path ts \<longrightarrow> fr (link (pmem st)) root ts \<noteq> 0 \<longrightarrow> fr (link (pmem st')) root ts = fr (link (pmem st)) root ts) \<and>
     frames_of (link (pmem st')) root \<inter> kept st \<subseteq> frames_of (link (pmem st)) root \<and>
     (\<forall>f\<in>kept st - frames_of (link (pmem st)) root. pmem st' f = pmem st f) \<and> kept st \<subseteq> kept st' \<and>
     same_tables (phys st) (phys st')"

lemma grown_refl: "pmem st' = pmem st \<Longrightarrow> phys st' = phys st \<Longrightarrow> grown root st st'"
  by (simp add: grown_def kept_def)

lemma grown_trans: "grown root st1 st2 \<Longrightarrow> grown root st2 st3 \<Longrightarrow> grown root st1 st3"
proof -
  assume a: "grown root st1 st2" and b: "grown root st2 st3"
  have "pmem st3 f = pmem st1 f" if f: "f \<in> kept st1" "f \<notin> frames_of (link (pmem st1)) root" for f
  proof -
    have "f \<in> kept st2" "f \<notin> frames_of (link (pmem st2)) root" "pmem st2 f = pmem st1 f" using a f by (auto simp: grown_def)
    then show ?thesis using b by (simp add: grown_def)
  qed
  moreover have "fr (link (pmem st3)) root ts = fr (link (pmem st1)) root ts"
    if "path ts" "fr (link (pmem st1)) root ts \<noteq> 0" for ts
    using a b that by (simp add: grown_def)
  moreover have "frames_of (link (pmem st3)) root \<inter> kept st1 \<subseteq> frames_of (link (pmem st1)) root" "kept st1 \<subseteq> kept st3"
    using a b unfolding grown_def by blast+
  moreover have "same_tables (phys st1) (phys st3)" using a b same_tables_trans unfolding grown_def by blast
  ultimately show ?thesis by (simp add: grown_def)
qed

definition same_leaves :: "u64 \<Rightarrow> pgstate \<Rightarrow> pgstate \<Rightarrow> bool" where
  "same_leaves root st st' \<longleftrightarrow> (\<forall>ts k. path ts \<longrightarrow> length ts = 3 \<longrightarrow> k < 512 \<longrightarrow> leaf root st' ts k = leaf root st ts k)"

lemma same_leaves_refl: "pmem st' = pmem st \<Longrightarrow> same_leaves root st st'"
  by (simp add: same_leaves_def leaf_def)

lemma same_leaves_trans: "same_leaves root st1 st2 \<Longrightarrow> same_leaves root st2 st3 \<Longrightarrow> same_leaves root st1 st3"
  by (simp add: same_leaves_def)

text \<open>Changing a table above the page tables without changing its links.\<close>

lemma relabel_ok:
  assumes ok: "pg_ok root st" and p: "fr (link (pmem st)) root ps = p" "p \<noteq> 0" "path ps"
    and st': "phys st' = phys st" "win_ok st'" "\<forall>f. f \<noteq> p \<longrightarrow> pmem st' f = pmem st f" "link (pmem st') = link (pmem st)"
  shows "pg_ok root st'" "grown root st st'" "length ps < 3 \<Longrightarrow> same_leaves root st st'"
proof -
  have pf: "p \<in> frames_of (link (pmem st)) root" using p by (auto simp: frames_of_def)
  show "pg_ok root st'" using ok st' by (simp add: pg_ok_def)
  have "pmem st' f = pmem st f" if "f \<notin> frames_of (link (pmem st)) root" for f using that pf st'(3) by auto
  then show "grown root st st'" using st' by (simp add: grown_def kept_def)
  show "same_leaves root st st'" if "length ps < 3"
  proof (unfold same_leaves_def, intro allI impI)
    fix ts k
    assume ts: "path ts" "length ts = 3"
    have "fr (link (pmem st)) root ts \<noteq> p" using ok p ts that by (auto simp: pg_ok_def tree_ok_def)
    then show "leaf root st' ts k = leaf root st ts k" using st' by (simp add: leaf_def Let_def)
  qed
qed

text \<open>Hanging a zeroed frame into a directory.\<close>

lemma hang_ok:
  assumes ok: "pg_ok root st" and p: "fr (link (pmem st)) root ps = p" "p \<noteq> 0" "path (ps @ [off])"
    and e: "link (pmem st) p off = 0" and q: "frame_ok q" "q \<notin> frames_of (link (pmem st)) root" "q \<in> owned_pages (phys st')"
      "q \<notin> kept st"
    and ph: "physalloc_distinct (phys st')" "same_tables (phys st) (phys st')" "owned_pages (phys st) \<subseteq> owned_pages (phys st')"
    and st': "win_ok st'" "\<forall>f. f \<noteq> p \<longrightarrow> f \<noteq> q \<longrightarrow> pmem st' f = pmem st f" "pmem st' q = (\<lambda>_. 0)"
      "link (pmem st') = hang q p off (link (pmem st))"
  shows "pg_ok root st'" "grown root st st'" "same_leaves root st st'" "fr (link (pmem st')) root (ps @ [off]) = q"
proof -
  have t: "tree_ok (link (pmem st)) root" and q0: "q \<noteq> 0" using ok q by (auto simp: pg_ok_def frame_ok_def)
  have pf: "p \<in> frames_of (link (pmem st)) root" using p path_prefix by (auto simp: frames_of_def)
  note f = fr_hang [OF t p e q0 q(2)] and th = tree_hang [OF t p e q0 q(2)]
  have z: "fr (link (pmem st)) root (ps @ [off]) = 0" using p e by (simp add: fr_snoc)
  have pl: "page_list (phys st') = page_list (phys st)" using ph(2) by (rule page_list_same_tables)
  show "pg_ok root st'" using ok ph pl st' th q(3) by (auto simp: pg_ok_def)
  have "pmem st' f = pmem st f" if "f \<in> kept st - frames_of (link (pmem st)) root" for f
    using that pf q(4) st'(2) by auto
  then show "grown root st st'" using ph(2,3) pl st'(4) th f z q(4) by (auto simp: grown_def kept_def)
  show "fr (link (pmem st')) root (ps @ [off]) = q" using f [OF p(3)] st'(4) by simp
  show "same_leaves root st st'"
  proof (unfold same_leaves_def, intro allI impI)
    fix ts k
    assume ts: "path ts" "length ts = 3"
    show "leaf root st' ts k = leaf root st ts k"
    proof (cases "ts = ps @ [off]")
      case True
      then show ?thesis using f [OF ts(1)] z st'(3,4) by (simp add: leaf_def Let_def)
    next
      case False
      have "path ps" "length ps < 3" using p(3) by (auto simp: path_def)
      then have "fr (link (pmem st)) root ts \<noteq> p" using t p(1,2) ts by (auto simp: tree_ok_def)
      moreover have "fr (link (pmem st)) root ts \<noteq> q" using q(2) q0 ts by (auto simp: frames_of_def)
      ultimately show ?thesis using f [OF ts(1)] False st' by (simp add: leaf_def Let_def)
    qed
  qed
qed

lemma get_flags_fields [simp]:
  "w \<le> 12 \<Longrightarrow> get_flags w (set_address a e) = get_flags w e" "get_flags w (set_flags w f e) = take_bit w f"
  "w \<le> 10 \<Longrightarrow> get_flags w (set_pt_count c e) = get_flags w e"
  by (rule bit_word_eqI; auto simp: get_flags_def set_address_def set_flags_def set_pt_count_def bit_simps)+

lemma present_or_flags [simp]: "present (set_flags 6 (get_flags 6 e OR f) e) \<longleftrightarrow> present e \<or> bit f 0"
  by (auto simp: present_bit set_flags_def get_flags_def bit_simps)

lemma bit_PRESENT [simp]: "bit (PTE_PRESENT OR f) 0"
  by (simp add: PTE_PRESENT_def bit_simps)

text \<open>One step down in a directory: the table is there afterwards unless the allocator is out of pages.\<close>

lemma alloc_in_ok:
  assumes ok: "pg_ok root st" and p: "fr (link (pmem st)) root ps = p" "p \<noteq> 0" "path (ps @ [off])"
    and w: "w < 512" "sub < 512" "w \<noteq> sub"
  obtains q st' where "alloc_in w sub off p flags st = Some (q, st')" "pg_ok root st'" "grown root st st'"
    "same_leaves root st st'" "q \<noteq> 0 \<Longrightarrow> fr (link (pmem st')) root (ps @ [off]) = q"
proof -
  have off: "off < 512" "path ps" "length ps < 3" using p(3) by (auto simp: path_def)
  have fp: "frame_ok p" using ok p fr_ok by (auto simp: pg_ok_def)
  have wok: "win_ok st" using ok by (simp add: pg_ok_def)
  obtain st1 where st1: "map_addr p w st = Some st1" "rewindowed w p st st1" by (rule map_addr_ok [OF fp wok w(1)])
  note ok1 = pg_ok_rewindowed [OF ok st1(2)] and r1 = rewindowed_simps [OF st1(2)]
  obtain st2 where st2: "locate_in w off p st1 = Some (link (pmem st1) p off, st2)" "rewindowed w p st1 st2"
    by (rule locate_in_ok [OF ok1 fp w(1) off(1)])
  note ok2 = pg_ok_rewindowed [OF ok1 st2(2)] and r2 = rewindowed_simps [OF st2(2)]
  have eqs: "pmem st2 = pmem st" "phys st2 = phys st" using r1 r2 by simp_all
  show thesis
  proof (cases "link (pmem st) p off = 0")
    case False
    then have "present (pmem st p off)" by (auto simp: link_def split: if_splits)
    define g where "g = (\<lambda>e. set_flags 6 (get_flags 6 e OR flags) e)"
    define st3 where "st3 = st2\<lparr>pmem := (pmem st)(p := (pmem st p)(off := g (pmem st p off)))\<rparr>"
    have run: "alloc_in w sub off p flags st = Some (link (pmem st) p off, st3)"
      using False st1 st2 eqs sees_access(3) [OF r2(3) off(1), of g] r1
      by (simp add: alloc_in_def g_def st3_def)
    have lk: "link (pmem st3) = link (pmem st)"
      using \<open>present (pmem st p off)\<close> by (auto simp: st3_def link_def fun_eq_iff g_def)
    have s3: "phys st3 = phys st" "win_ok st3" "\<forall>f. f \<noteq> p \<longrightarrow> pmem st3 f = pmem st f"
      using eqs r2 by (simp_all add: st3_def)
    note rl = relabel_ok [OF ok p(1,2) off(2) s3 lk]
    show thesis using that [OF run rl(1,2) rl(3) [OF off(3)]] p lk False by (simp add: fr_snoc)
  next
    case none: True
    show thesis
    proof (cases rule: frame_alloc_ok [OF ok2, case_names full page])
      case full
      then have "alloc_in w sub off p flags st = Some (0, st2)" using none st1 st2 eqs r1 by (simp add: alloc_in_def)
      then show thesis using that ok2 eqs by (simp add: grown_refl same_leaves_refl)
    next
      case (page q ph)
      let ?s = "st2\<lparr>phys := ph\<rparr>"
      have "win_ok ?s" using ok2 by (simp add: pg_ok_def)
      then obtain st3 where st3: "map_addr q sub ?s = Some st3" "rewindowed sub q ?s st3" by (rule map_addr_ok [OF page(3) _ w(2)])
      note r3 = rewindowed_simps [OF st3(2)]
      have wp: "sees st3 w p" using r3(5) [of w p] r2(3) w(3) by simp
      have qp: "q \<noteq> p" using page(4) p off(2) eqs by (auto simp: frames_of_def)
      define e where "e = set_flags 6 (PTE_PRESENT OR flags) (set_address (drop_bit 12 q) (pmem st p off))"
      define row where "row = (pmem st p)(off := e)"
      define st4 where "st4 = st3\<lparr>pmem := (pmem st)(q := \<lambda>_. 0, p := row(0 := set_count (get_count (row 0) + 1) (row 0)))\<rparr>"
      have run: "alloc_in w sub off p flags st = Some (q, st4)"
        using none st1 st2 st3 page eqs r1 r3 wp qp off(1) sees_access [OF r3(3)]
        by (simp add: alloc_in_def sees_access [of _ w p] st4_def row_def e_def frame_ok_def fun_upd_twist)
      have q: "push_bit 12 (take_bit 40 (drop_bit 12 q)) = q" using page(3) by (simp add: frame_ok_def)
      have lk: "link (pmem st4) = hang q p off (link (pmem st))"
        using q qp by (auto simp: st4_def row_def e_def link_def hang_def fun_eq_iff)
      have s4: "win_ok st4" "phys st4 = ph" "pmem st4 q = (\<lambda>_. 0)" "\<forall>f. f \<noteq> p \<longrightarrow> f \<noteq> q \<longrightarrow> pmem st4 f = pmem st f"
        using r3 qp by (simp_all add: st4_def)
      have fresh: "q \<notin> kept st" "q \<notin> frames_of (link (pmem st)) root"
        using page(2,4,5,6) page_list_same_tables [OF page(8)] eqs by (auto simp: kept_def owned_pages_def)
      note h = hang_ok [OF ok p none page(3) fresh(2) _ fresh(1) _ _ _ s4(1) s4(4) s4(3) lk]
      have "pg_ok root st4" "grown root st st4" "same_leaves root st st4" "fr (link (pmem st4)) root (ps @ [off]) = q"
        using h page eqs s4(2) by (auto simp: pg_ok_def)
      then show thesis using that run by blast
    qed
  qed
qed

section \<open>Pages\<close>

text \<open>Writing the row of a page table: the tables above do not notice.\<close>

lemma fr_pt_write:
  assumes "tree_ok lk root" "fr lk root ts = t" "t \<noteq> 0" "path ts" "length ts = 3" "\<forall>f. f \<noteq> t \<longrightarrow> lk' f = lk f" "path rs"
  shows "fr lk' root rs = fr lk root rs"
  using assms(7)
proof (induction rs rule: rev_induct)
  case (snoc i rs)
  have "path rs" "length rs < 3" using snoc.prems by (auto simp: path_def)
  then have "fr lk root rs \<noteq> t" "fr lk' root rs = fr lk root rs"
    using assms(1-5) snoc.IH by (auto simp: tree_ok_def)
  then show ?case using assms(6) by (simp add: fr_snoc)
qed simp

lemma pt_write_ok:
  assumes ok: "pg_ok root st" and t: "fr (link (pmem st)) root ts = t" "t \<noteq> 0" "path ts" "length ts = 3"
    and st': "st' = st\<lparr>pmem := (pmem st)(t := row)\<rparr>"
  shows "pg_ok root st'" "grown root st st'" "fr (link (pmem st')) root ts = t"
    "path us \<Longrightarrow> length us = 3 \<Longrightarrow> leaf root st' us k =
       (if us = ts then if present (row k) then Some (pointee (row k), get_flags 9 (row k)) else None else leaf root st us k)"
proof -
  have tree: "tree_ok (link (pmem st)) root" using ok by (simp add: pg_ok_def)
  have "\<forall>f. f \<noteq> t \<longrightarrow> link (pmem st') f = link (pmem st) f" by (simp add: st' link_def fun_eq_iff)
  note f = fr_pt_write [OF tree t this]
  have fo: "frames_of (link (pmem st')) root = frames_of (link (pmem st)) root" "tree_ok (link (pmem st')) root"
    using f tree by (auto simp: frames_of_def tree_ok_def) metis
  show "pg_ok root st'" using ok fo by (simp add: pg_ok_def st')
  have "t \<in> frames_of (link (pmem st)) root" using t by (auto simp: frames_of_def)
  then show "grown root st st'" using f fo by (auto simp: grown_def kept_def st')
  show tt: "fr (link (pmem st')) root ts = t" using f t by simp
  assume us: "path us" "length us = 3"
  have "us \<noteq> ts \<Longrightarrow> fr (link (pmem st)) root us \<noteq> t" using tree us t by (auto simp: tree_ok_def)
  then show "leaf root st' us k =
      (if us = ts then if present (row k) then Some (pointee (row k), get_flags 9 (row k)) else None else leaf root st us k)"
    using t f [OF us(1)] tt by (auto simp: leaf_def Let_def st')
qed

text \<open>The path of a virtual address. The code uses 25 bits for the first index; addresses below $2^{48}$ stay in the table.\<close>

definition walk :: "u64 \<Rightarrow> nat list" where "walk v = [idx4 v, idx3 v, idx2 v]"

abbreviation low48 :: "u64 \<Rightarrow> bool" where "low48 v \<equiv> unat v < 2 ^ 48"

lemma idx_bounds: "low48 v \<Longrightarrow> idx4 v < 512" "idx3 v < 512" "idx2 v < 512" "idx1 v < 512"
proof -
  assume "low48 v"
  then show "idx4 v < 512" by (simp add: idx4_def drop_bit_eq_div unat_div)
next
  show "idx3 v < 512" "idx2 v < 512" "idx1 v < 512"
    by (simp_all add: idx3_def idx2_def idx1_def take_bit_eq_mod unat_mod)
qed

lemma walk_path: "low48 v \<Longrightarrow> path (walk v)" "length (walk v) = 3"
  by (simp_all add: walk_def path_def idx_bounds)

lemma fr_walk:
  "root \<noteq> 0 \<Longrightarrow> fr lk root (walk v) =
     (if lk root (idx4 v) = 0 \<or> lk (lk root (idx4 v)) (idx3 v) = 0 then 0 else lk (lk (lk root (idx4 v)) (idx3 v)) (idx2 v))"
  by (simp add: walk_def)

definition view :: "u64 \<Rightarrow> pgstate \<Rightarrow> u64 \<Rightarrow> (u64 \<times> u64) option" where
  "view root st v = leaf root st (walk v) (idx1 v)"

lemma page_locate_ok:
  assumes ok: "pg_ok root st" and v: "low48 v"
  obtains st' where "page_locate root v st = Some (if view root st v = None then None else Some (idx1 v), st')"
    "pmem st' = pmem st" "phys st' = phys st" "win_ok st'"
    "view root st v \<noteq> None \<Longrightarrow> sees st' 3 (fr (link (pmem st)) root (walk v))"
proof -
  let ?lk = "link (pmem st)"
  have b: "idx4 v < 512" "idx3 v < 512" "idx2 v < 512" "idx1 v < 512" using idx_bounds v by auto
  have r: "frame_ok root" "root \<noteq> 0" using ok by (auto simp: pg_ok_def frame_ok_def)
  define pp where "pp = ?lk root (idx4 v)"
  define pd where "pd = ?lk pp (idx3 v)"
  define pt where "pt = ?lk pd (idx2 v)"
  note fw = fr_walk [OF r(2), of ?lk v, folded pp_def, folded pd_def, folded pt_def]
  obtain st1 where s1: "locate_in 0 (idx4 v) root st = Some (pp, st1)" "rewindowed 0 root st st1"
    unfolding pp_def by (rule locate_in_ok [OF ok r(1) _ b(1)]) auto
  note ok1 = pg_ok_rewindowed [OF ok s1(2)] and r1 = rewindowed_simps [OF s1(2)]
  show thesis
  proof (cases "pp = 0")
    case True
    then show thesis using that [of st1] s1 r1 fw by (simp add: page_locate_def pdpt_locate_def view_def leaf_def)
  next
    case pp: False
    then have fpp: "frame_ok pp" unfolding pp_def by (rule frame_ok_link)
    obtain st2 where s2: "locate_in 1 (idx3 v) pp st1 = Some (pd, st2)" "rewindowed 1 pp st1 st2"
      by (rule locate_in_ok [OF ok1 fpp _ b(2), of 1]) (simp_all add: r1(1) pd_def)
    note ok2 = pg_ok_rewindowed [OF ok1 s2(2)] and r2 = rewindowed_simps [OF s2(2)]
    show thesis
    proof (cases "pd = 0")
      case True
      then show thesis using that [of st2] s1 s2 r1 r2 fw pp
        by (simp add: page_locate_def pdpt_locate_def pd_locate_def view_def leaf_def)
    next
      case pd: False
      then have fpd: "frame_ok pd" unfolding pd_def by (rule frame_ok_link)
      obtain st3 where s3: "locate_in 2 (idx2 v) pd st2 = Some (pt, st3)" "rewindowed 2 pd st2 st3"
        by (rule locate_in_ok [OF ok2 fpd _ b(3), of 2]) (simp_all add: r1(1) r2(1) pt_def)
      note ok3 = pg_ok_rewindowed [OF ok2 s3(2)] and r3 = rewindowed_simps [OF s3(2)]
      show thesis
      proof (cases "pt = 0")
        case True
        then show thesis using that [of st3] s1 s2 s3 r1 r2 r3 fw pp pd
          by (simp add: page_locate_def pdpt_locate_def pd_locate_def pt_locate_def view_def leaf_def)
      next
        case pt: False
        then have "frame_ok pt" unfolding pt_def by (rule frame_ok_link)
        then obtain st4 where s4: "map_addr pt 3 st3 = Some st4" "rewindowed 3 pt st3 st4"
          using map_addr_ok [of pt st3 3] r3(4) by auto
        note r4 = rewindowed_simps [OF s4(2)]
        show thesis using that [of st4] s1 s2 s3 s4 r1 r2 r3 r4 fw pp pd pt b(4)
          by (auto simp: page_locate_def pdpt_locate_def pd_locate_def pt_locate_def view_def leaf_def sees_access Let_def)
      qed
    qed
  qed
qed

lemma pt_entry_ok:
  assumes ok: "pg_ok root st" and v: "low48 v" and t: "fr (link (pmem st)) root (walk v) = t" "t \<noteq> 0"
    and row: "\<forall>k. k \<noteq> idx1 v \<longrightarrow> present (row k) = present (pmem st t k) \<and> pointee (row k) = pointee (pmem st t k) \<and>
      get_flags 9 (row k) = get_flags 9 (pmem st t k)"
    and st': "st' = st\<lparr>pmem := (pmem st)(t := row)\<rparr>" and us: "path us" "length us = 3"
  shows "leaf root st' us k =
    (if us = walk v \<and> k = idx1 v then if present (row k) then Some (pointee (row k), get_flags 9 (row k)) else None
     else leaf root st us k)"
  using pt_write_ok(4) [OF ok t walk_path(1) [OF v] walk_path(2) st' us] row t by (auto simp: leaf_def Let_def)

lemma page_alloc_ok:
  assumes ok: "pg_ok root st" and v: "low48 v"
  obtains r st' where "page_alloc root v flags st = Some (r, st')" "pg_ok root st'" "grown root st st'"
    "r = None \<and> same_leaves root st st' \<or>
     r = Some (idx1 v) \<and> fr (link (pmem st')) root (walk v) \<noteq> 0 \<and> sees st' 3 (fr (link (pmem st')) root (walk v)) \<and>
     (\<forall>us k. path us \<longrightarrow> length us = 3 \<longrightarrow> k < 512 \<longrightarrow>
        leaf root st' us k = (if us = walk v \<and> k = idx1 v then None else leaf root st us k))"
proof -
  have b: "idx4 v < 512" "idx3 v < 512" "idx2 v < 512" "idx1 v < 512" using idx_bounds v by auto
  have r: "root \<noteq> 0" using ok by (auto simp: pg_ok_def frame_ok_def)
  have path: "path ([] @ [idx4 v])" "path ([idx4 v] @ [idx3 v])" "path ([idx4 v, idx3 v] @ [idx2 v])"
    using b by (simp_all add: path_def)
  obtain pp st1 where s1: "alloc_in 0 1 (idx4 v) root flags st = Some (pp, st1)" "pg_ok root st1" "grown root st st1"
      "same_leaves root st st1" "pp \<noteq> 0 \<Longrightarrow> fr (link (pmem st1)) root ([] @ [idx4 v]) = pp"
    by (rule alloc_in_ok [OF ok _ r path(1), of 0 1 flags]) auto
  show thesis
  proof (cases "pp = 0")
    case True
    then show thesis using that [of None st1] s1 by (simp add: page_alloc_def pdpt_alloc_def)
  next
    case pp: False
    obtain pd st2 where s2: "alloc_in 1 2 (idx3 v) pp flags st1 = Some (pd, st2)" "pg_ok root st2" "grown root st1 st2"
        "same_leaves root st1 st2" "pd \<noteq> 0 \<Longrightarrow> fr (link (pmem st2)) root ([idx4 v] @ [idx3 v]) = pd"
      by (rule alloc_in_ok [OF s1(2) _ pp path(2), of 1 2 flags]) (use s1(5) pp in auto)
    note g2 = grown_trans [OF s1(3) s2(3)] same_leaves_trans [OF s1(4) s2(4)]
    show thesis
    proof (cases "pd = 0")
      case True
      then show thesis using that [of None st2] s1(1) s2 pp g2 by (simp add: page_alloc_def pdpt_alloc_def pd_alloc_def)
    next
      case pd: False
      obtain pt st3 where s3: "alloc_in 2 3 (idx2 v) pd flags st2 = Some (pt, st3)" "pg_ok root st3" "grown root st2 st3"
          "same_leaves root st2 st3" "pt \<noteq> 0 \<Longrightarrow> fr (link (pmem st3)) root ([idx4 v, idx3 v] @ [idx2 v]) = pt"
        by (rule alloc_in_ok [OF s2(2) _ pd path(3), of 2 3 flags]) (use s2(5) pd in auto)
      note g3 = grown_trans [OF g2(1) s3(3)] same_leaves_trans [OF g2(2) s3(4)]
      show thesis
      proof (cases "pt = 0")
        case True
        then show thesis using that [of None st3] s1(1) s2(1) s3 pp pd g3
          by (simp add: page_alloc_def pdpt_alloc_def pd_alloc_def pt_alloc_def)
      next
        case pt: False
        have ptw: "fr (link (pmem st3)) root (walk v) = pt" using s3(5) pt by (simp add: walk_def)
        then have "frame_ok pt" using fr_ok pt s3(2) by (auto simp: pg_ok_def)
        then obtain st4 where s4: "map_addr pt 3 st3 = Some st4" "rewindowed 3 pt st3 st4"
          using map_addr_ok [of pt st3 3] s3(2) by (auto simp: pg_ok_def)
        note r4 = rewindowed_simps [OF s4(2)] and ok4 = pg_ok_rewindowed [OF s3(2) s4(2)]
        define row0 where "row0 = (pmem st4 pt)(idx1 v := 0)"
        define row where "row = row0(0 := set_pt_count (get_pt_count (row0 0) + 1) (row0 0))"
        define st5 where "st5 = st4\<lparr>pmem := (pmem st4)(pt := row)\<rparr>"
        have run: "page_alloc root v flags st = Some (Some (idx1 v), st5)"
          using s1(1) s2(1) s3(1) s4(1) pp pd pt b(4) r4(3)
          by (simp add: page_alloc_def pdpt_alloc_def pd_alloc_def pt_alloc_def sees_access [of _ 3 pt] st5_def row_def row0_def)
        have w4: "fr (link (pmem st4)) root (walk v) = pt" using ptw r4(1) by simp
        note pw = pt_write_ok [OF ok4 w4 pt walk_path(1) [OF v] walk_path(2) st5_def]
        have "leaf root st5 us k = (if us = walk v \<and> k = idx1 v then None else leaf root st us k)"
          if us: "path us" "length us = 3" "k < 512" for us k
        proof -
          have row: "\<not> present (row (idx1 v))" "\<forall>k. k \<noteq> idx1 v \<longrightarrow> present (row k) = present (pmem st4 pt k) \<and>
              pointee (row k) = pointee (pmem st4 pt k) \<and> get_flags 9 (row k) = get_flags 9 (pmem st4 pt k)"
            by (auto simp: row_def row0_def)
          have "leaf root st4 us k = leaf root st us k"
            using g3(2) us r4(1) by (simp add: same_leaves_def leaf_def)
          then show ?thesis using pt_entry_ok [OF ok4 v w4 pt row(2) st5_def us(1,2)] row(1) by simp
        qed
        moreover have "grown root st st5"
          using grown_trans [OF g3(1) grown_trans [OF grown_refl [OF r4(1,2)] pw(2)]] .
        moreover have "sees st5 3 pt" using r4(3) by (simp add: st5_def)
        ultimately show thesis using that [OF run pw(1)] pw(3) pt by simp
      qed
    qed
  qed
qed

section \<open>Virtual pages\<close>

definition vpn :: "u64 \<Rightarrow> nat" where "vpn v = unat v div 4096"

lemma field_bits:
  assumes "take_bit 9 (drop_bit a u) = (take_bit 9 (drop_bit a v) :: u64)" "a \<le> m" "m < a + 9"
  shows "bit u m = bit v m"
proof -
  have "bit (take_bit 9 (drop_bit a u)) (m - a) = bit (take_bit 9 (drop_bit a v)) (m - a)" using assms(1) by simp
  then show ?thesis using assms(2,3) by (auto simp: bit_simps)
qed

lemma vpn_eq_iff: "vpn u = vpn v \<longleftrightarrow> drop_bit 12 u = drop_bit 12 v"
  by (auto simp: vpn_def drop_bit_eq_div word_unat_eq_iff unat_div)

lemma walk_eq_iff: "walk u = walk v \<and> idx1 u = idx1 v \<longleftrightarrow> vpn u = vpn v"
proof
  assume "walk u = walk v \<and> idx1 u = idx1 v"
  then have f: "drop_bit 39 u = drop_bit 39 v" "take_bit 9 (drop_bit 30 u) = take_bit 9 (drop_bit 30 v)"
    "take_bit 9 (drop_bit 21 u) = take_bit 9 (drop_bit 21 v)" "take_bit 9 (drop_bit 12 u) = take_bit 9 (drop_bit 12 v)"
    by (simp_all add: walk_def idx4_def idx3_def idx2_def idx1_def word_unat_eq_iff)
  have "bit u m = bit v m" if "12 \<le> m" for m
  proof (cases "39 \<le> m")
    case True
    have "bit (drop_bit 39 u) (m - 39) = bit (drop_bit 39 v) (m - 39)" using f(1) by simp
    then show ?thesis using True by (simp add: bit_simps)
  next
    case False
    then consider "m < 21" | "21 \<le> m" "m < 30" | "30 \<le> m" "m < 39" by linarith
    then show ?thesis using field_bits [OF f(4)] field_bits [OF f(3)] field_bits [OF f(2)] that by cases auto
  qed
  then have "drop_bit 12 u = drop_bit 12 v" by (intro bit_word_eqI) (simp add: bit_simps)
  then show "vpn u = vpn v" by (simp add: vpn_eq_iff)
next
  assume "vpn u = vpn v"
  then have d: "drop_bit 12 u = drop_bit 12 v" by (simp add: vpn_eq_iff)
  have "drop_bit 39 w = drop_bit 27 (drop_bit 12 w)" "drop_bit 30 w = drop_bit 18 (drop_bit 12 w)"
    "drop_bit 21 w = drop_bit 9 (drop_bit 12 w)" for w :: u64 by simp_all
  then show "walk u = walk v \<and> idx1 u = idx1 v"
    unfolding walk_def idx4_def idx3_def idx2_def idx1_def using d by metis
qed

lemma view_cong: "vpn u = vpn v \<Longrightarrow> view root st u = view root st v"
  using walk_eq_iff [of u v] by (simp add: view_def)

lemma vpn_next:
  assumes "unat v + 4096 < 2 ^ 64"
  shows "unat (v + PAGE_SIZE) = unat v + 4096" "vpn (v + PAGE_SIZE) = vpn v + 1"
proof -
  show "unat (v + PAGE_SIZE) = unat v + 4096" using assms by (simp add: PAGE_SIZE_def unat_word_ariths)
  then show "vpn (v + PAGE_SIZE) = vpn v + 1" by (simp add: vpn_def)
qed

text \<open>The frame that the 40 bits of an entry keep of a physical address.\<close>

definition page_frame :: "u64 \<Rightarrow> u64" where "page_frame a = push_bit 12 (take_bit 40 (drop_bit 12 a))"

lemma page_frame_ok: "frame_ok p \<Longrightarrow> page_frame p = p"
  by (simp add: page_frame_def frame_ok_def)

lemma map_one_ok:
  assumes ok: "pg_ok root st" and v: "low48 v"
  obtains r st1 where "page_alloc root v flags st = Some (r, st1)" "pg_ok root st1" "grown root st st1"
    "r = None \<and> same_leaves root st st1 \<or>
     (\<exists>k st'. r = Some k \<and> put_leaf pADDR flags k st1 = Some st' \<and> pg_ok root st' \<and> grown root st st' \<and>
       (\<forall>u. low48 u \<longrightarrow> view root st' u =
          (if vpn u = vpn v then Some (page_frame pADDR, take_bit 9 (PTE_PRESENT OR flags)) else view root st u)))"
proof -
  obtain r st1 where a: "page_alloc root v flags st = Some (r, st1)" "pg_ok root st1" "grown root st st1"
    "r = None \<and> same_leaves root st st1 \<or>
     r = Some (idx1 v) \<and> fr (link (pmem st1)) root (walk v) \<noteq> 0 \<and> sees st1 3 (fr (link (pmem st1)) root (walk v)) \<and>
     (\<forall>us k. path us \<longrightarrow> length us = 3 \<longrightarrow> k < 512 \<longrightarrow>
        leaf root st1 us k = (if us = walk v \<and> k = idx1 v then None else leaf root st us k))"
    by (rule page_alloc_ok [OF ok v]) (rule that)
  show thesis
  proof (cases r)
    case None
    then show thesis using that [OF a(1-3)] a(4) by simp
  next
    case (Some k)
    define t where "t = fr (link (pmem st1)) root (walk v)"
    have t: "k = idx1 v" "t \<noteq> 0" "sees st1 3 t" and l: "\<And>us k. path us \<Longrightarrow> length us = 3 \<Longrightarrow> k < 512 \<Longrightarrow>
        leaf root st1 us k = (if us = walk v \<and> k = idx1 v then None else leaf root st us k)"
      using a(4) Some by (auto simp: t_def)
    define e where "e = set_flags 9 (PTE_PRESENT OR flags) (set_address (drop_bit 12 pADDR) (pmem st1 t k))"
    define row where "row = (pmem st1 t)(k := e)"
    define st' where "st' = st1\<lparr>pmem := (pmem st1)(t := row)\<rparr>"
    have run: "put_leaf pADDR flags k st1 = Some st'"
      using t idx_bounds(4) [of v] by (simp add: put_leaf_def sees_access [of _ 3 t] st'_def row_def e_def)
    note pw = pt_write_ok [OF a(2) t_def [symmetric] t(2) walk_path(1) [OF v] walk_path(2) st'_def]
    have "view root st' u = (if vpn u = vpn v then Some (page_frame pADDR, take_bit 9 (PTE_PRESENT OR flags)) else view root st u)"
      if u: "low48 u" for u
    proof -
      have "\<forall>j. j \<noteq> idx1 v \<longrightarrow> present (row j) = present (pmem st1 t j) \<and>
          pointee (row j) = pointee (pmem st1 t j) \<and> get_flags 9 (row j) = get_flags 9 (pmem st1 t j)"
        using t(1) by (simp add: row_def)
      note pe = pt_entry_ok [OF a(2) v t_def [symmetric] t(2) this st'_def walk_path(1) [OF u] walk_path(2), of "idx1 u"]
      show ?thesis using pe l [OF walk_path(1) [OF u] walk_path(2) idx_bounds(4)] walk_eq_iff [of u v] t(1)
        by (auto simp: view_def row_def e_def page_frame_def)
    qed
    then show thesis using that [OF a(1-3)] Some run pw(1) grown_trans [OF a(3) pw(2)] by blast
  qed
qed

lemma page_free_ok:
  assumes ok: "pg_ok root st" and v: "low48 v"
  obtains st' where "page_free root v deallocate st = Some st'" "pg_ok root st'" "grown root st st'" "phys st' = phys st"
    "\<And>u. low48 u \<Longrightarrow> view root st' u = (if vpn u = vpn v then None else view root st u)"
proof -
  obtain st1 where a: "page_locate root v st = Some (if view root st v = None then None else Some (idx1 v), st1)"
    "pmem st1 = pmem st" "phys st1 = phys st" "win_ok st1"
    "view root st v \<noteq> None \<Longrightarrow> sees st1 3 (fr (link (pmem st)) root (walk v))"
    by (rule page_locate_ok [OF ok v]) (rule that)
  have ok1: "pg_ok root st1" and g1: "grown root st st1" using pg_ok_cong [OF ok a(4,3)] a grown_refl by auto
  have v1: "view root st1 u = view root st u" for u using a(2) by (simp add: view_def leaf_def)
  show thesis
  proof (cases "view root st v = None")
    case True
    have run: "page_free root v deallocate st = Some st1" using True a(1) by (simp add: page_free_def)
    have "view root st1 u = (if vpn u = vpn v then None else view root st u)" for u
      using True view_cong [of u v root st] v1 [of u] by simp
    then show thesis using that [OF run ok1 g1 a(3)] by blast
  next
    case False
    define t where "t = fr (link (pmem st1)) root (walk v)"
    have t: "t \<noteq> 0" "sees st1 3 t" using False a(2,5) by (auto simp: t_def view_def leaf_def split: if_splits)
    define row where "row = (pmem st1 t)(idx1 v := set_address 0 (set_flags 9 0 (pmem st1 t (idx1 v))))"
    define st' where "st' = st1\<lparr>pmem := (pmem st1)(t := row)\<rparr>"
    have "page_locate root v st = Some (Some (idx1 v), st1)" using False a(1) by simp
    then have run: "page_free root v deallocate st = Some st'"
      using t idx_bounds(4) [of v]
      by (simp add: page_free_def sees_access [of _ 3 t] st'_def row_def frame_free_def free_phys_page_def free_phys_pages_def)
    note pw = pt_write_ok [OF ok1 t_def [symmetric] t(1) walk_path(1) [OF v] walk_path(2) st'_def]
    have "view root st' u = (if vpn u = vpn v then None else view root st u)" if u: "low48 u" for u
    proof -
      have "\<forall>j. j \<noteq> idx1 v \<longrightarrow> present (row j) = present (pmem st1 t j) \<and>
          pointee (row j) = pointee (pmem st1 t j) \<and> get_flags 9 (row j) = get_flags 9 (pmem st1 t j)"
        by (simp add: row_def)
      note pe = pt_entry_ok [OF ok1 v t_def [symmetric] t(1) this st'_def walk_path(1) [OF u] walk_path(2), of "idx1 u"]
      show ?thesis using pe v1 [of u] walk_eq_iff [of u v] by (auto simp: view_def row_def)
    qed
    then show thesis using that [OF run pw(1) grown_trans [OF g1 pw(2)]] a(3) by (simp add: st'_def)
  qed
qed

lemma unmap_pages_ok:
  assumes "pg_ok root st" "unat v + 4096 * n \<le> 2 ^ 48"
  shows "\<exists>st'. unmap_pages root v n deallocate st = Some st' \<and> pg_ok root st' \<and> grown root st st' \<and> phys st' = phys st \<and>
    (\<forall>u. low48 u \<longrightarrow> view root st' u = (if vpn v \<le> vpn u \<and> vpn u < vpn v + n then None else view root st u))"
  using assms
proof (induction n arbitrary: st v)
  case 0
  then show ?case by (auto simp: grown_refl)
next
  case (Suc n)
  have v: "low48 v" using Suc.prems(2) by simp
  note nx = vpn_next [of v]
  have nxt: "unat (v + PAGE_SIZE) = unat v + 4096" "vpn (v + PAGE_SIZE) = vpn v + 1" using nx Suc.prems(2) by auto
  obtain st1 where a: "page_free root v deallocate st = Some st1" "pg_ok root st1" "grown root st st1" "phys st1 = phys st"
    "\<And>u. low48 u \<Longrightarrow> view root st1 u = (if vpn u = vpn v then None else view root st u)"
    by (rule page_free_ok [OF Suc.prems(1) v]) (rule that)
  obtain st' where b: "unmap_pages root (v + PAGE_SIZE) n deallocate st1 = Some st'" "pg_ok root st'" "grown root st1 st'"
    "phys st' = phys st1"
    "\<And>u. low48 u \<Longrightarrow> view root st' u = (if vpn v + 1 \<le> vpn u \<and> vpn u < vpn v + 1 + n then None else view root st1 u)"
    using Suc.IH [OF a(2), of "v + PAGE_SIZE"] Suc.prems(2) nxt by auto
  show ?case using a b grown_trans [OF a(3) b(3)] by (auto simp: le_less)
qed

definition mapped :: "u64 \<Rightarrow> u64 \<Rightarrow> u64 \<Rightarrow> nat \<Rightarrow> (u64 \<Rightarrow> (u64 \<times> u64) option) \<Rightarrow> u64 \<Rightarrow> (u64 \<times> u64) option" where
  "mapped v p flags n vw u =
     (if vpn v \<le> vpn u \<and> vpn u < vpn v + n
      then Some (page_frame (p + PAGE_SIZE * of_nat (vpn u - vpn v)), take_bit 9 (PTE_PRESENT OR flags)) else vw u)"

definition unmapped :: "u64 \<Rightarrow> nat \<Rightarrow> nat \<Rightarrow> (u64 \<Rightarrow> (u64 \<times> u64) option) \<Rightarrow> u64 \<Rightarrow> (u64 \<times> u64) option" where
  "unmapped v i n vw u = (if vpn v + i \<le> vpn u \<and> vpn u < vpn v + i + n then None else vw u)"

lemma map_loop_ok:
  assumes "pg_ok root st" "unat v + 4096 * (n + pages) \<le> 2 ^ 48"
  shows "\<exists>r st'. map_loop root v p flags pages n st = Some (r, st') \<and> pg_ok root st' \<and> grown root st st' \<and>
    (r = 0 \<and> (\<forall>u. low48 u \<longrightarrow> view root st' u = mapped v p flags n (view root st) u) \<or>
     r = 1 \<and> (\<exists>i<n. \<forall>u. low48 u \<longrightarrow> view root st' u = unmapped v i pages (mapped v p flags i (view root st)) u))"
  using assms
proof (induction n arbitrary: st v p)
  case 0
  then show ?case by (auto simp: grown_refl mapped_def)
next
  case (Suc n)
  have v: "low48 v" using Suc.prems(2) by simp
  have nxt: "unat (v + PAGE_SIZE) = unat v + 4096" "vpn (v + PAGE_SIZE) = vpn v + 1"
    using vpn_next [of v] Suc.prems(2) by auto
  obtain r st1 where a: "page_alloc root v flags st = Some (r, st1)" "pg_ok root st1" "grown root st st1"
    "r = None \<and> same_leaves root st st1 \<or>
     (\<exists>k st'. r = Some k \<and> put_leaf p flags k st1 = Some st' \<and> pg_ok root st' \<and> grown root st st' \<and>
       (\<forall>u. low48 u \<longrightarrow> view root st' u =
          (if vpn u = vpn v then Some (page_frame p, take_bit 9 (PTE_PRESENT OR flags)) else view root st u)))"
    by (rule map_one_ok [OF Suc.prems(1) v, of flags p]) (rule that)
  show ?case
  proof (cases r)
    case None
    then have "view root st1 u = view root st u" if "low48 u" for u
      using a(4) that idx_bounds walk_path by (auto simp: view_def same_leaves_def)
    moreover obtain st' where "unmap_pages root v pages True st1 = Some st'" "pg_ok root st'" "grown root st1 st'"
      "\<And>u. low48 u \<Longrightarrow> view root st' u = (if vpn v \<le> vpn u \<and> vpn u < vpn v + pages then None else view root st1 u)"
      using unmap_pages_ok [OF a(2), of v pages True] Suc.prems(2) by auto
    ultimately have "map_loop root v p flags pages (Suc n) st = Some (1, st') \<and> pg_ok root st' \<and> grown root st st' \<and>
        (\<forall>u. low48 u \<longrightarrow> view root st' u = unmapped v 0 pages (mapped v p flags 0 (view root st)) u)"
      using a(1) None grown_trans [OF a(3)] by (simp add: unmapped_def mapped_def)
    then show ?thesis by blast
  next
    case (Some k)
    then obtain st2 where b: "put_leaf p flags k st1 = Some st2" "pg_ok root st2" "grown root st st2"
      "\<And>u. low48 u \<Longrightarrow> view root st2 u = (if vpn u = vpn v then Some (page_frame p, take_bit 9 (PTE_PRESENT OR flags)) else view root st u)"
      using a(4) by auto
    have m: "mapped (v + PAGE_SIZE) (p + PAGE_SIZE) flags i (view root st2) u = mapped v p flags (Suc i) (view root st) u" if "low48 u" for i u
    proof (cases "vpn u \<le> vpn v")
      case True
      then show ?thesis using b(4) [OF that] nxt by (auto simp: mapped_def)
    next
      case False
      then have "vpn u - vpn v = Suc (vpn u - Suc (vpn v))" by simp
      then show ?thesis using b(4) [OF that] nxt False by (simp add: mapped_def algebra_simps)
    qed
    obtain r' st' where c: "map_loop root (v + PAGE_SIZE) (p + PAGE_SIZE) flags pages n st2 = Some (r', st')"
      "pg_ok root st'" "grown root st2 st'"
      "r' = 0 \<and> (\<forall>u. low48 u \<longrightarrow> view root st' u = mapped (v + PAGE_SIZE) (p + PAGE_SIZE) flags n (view root st2) u) \<or>
       r' = 1 \<and> (\<exists>i<n. \<forall>u. low48 u \<longrightarrow> view root st' u =
         unmapped (v + PAGE_SIZE) i pages (mapped (v + PAGE_SIZE) (p + PAGE_SIZE) flags i (view root st2)) u)"
      using Suc.IH [OF b(2), of "v + PAGE_SIZE" "p + PAGE_SIZE"] Suc.prems(2) nxt by auto
    have "unmapped (v + PAGE_SIZE) i pages = unmapped v (Suc i) pages" for i
      using nxt by (simp add: unmapped_def fun_eq_iff)
    then have "r' = 0 \<and> (\<forall>u. low48 u \<longrightarrow> view root st' u = mapped v p flags (Suc n) (view root st) u) \<or>
       r' = 1 \<and> (\<exists>i<Suc n. \<forall>u. low48 u \<longrightarrow> view root st' u = unmapped v i pages (mapped v p flags i (view root st)) u)"
      using c(4) m by (auto simp: unmapped_def)
    then show ?thesis using a(1) Some b(1) c(1,2) grown_trans [OF b(3) c(3)] by simp
  qed
qed

section \<open>The tables of the kernel\<close>

definition kernel_tables :: "ksyms \<Rightarrow> u64 list" where
  "kernel_tables k = [kernel_pml4 k, kernel_pdpt_0 k, kernel_pd_0 k, kernel_pd_1 k, paging_pt_addr k] @
     map (kernel_pd_0_ents k) [0..<N_IDENT_PTS]"

definition ksyms_ok :: "ksyms \<Rightarrow> bool" where
  "ksyms_ok k \<longleftrightarrow> distinct (kernel_tables k) \<and> (\<forall>f\<in>set (kernel_tables k). frame_ok f)"

definition entry :: "nat \<Rightarrow> u64 \<Rightarrow> u64 \<Rightarrow> u64" where
  "entry fw a e = set_address (drop_bit 12 a) (set_flags fw (PTE_PRESENT OR PTE_WRITEABLE) e)"

lemma put_entry_at: "put_entry fw f k a pm g j = (if g = f \<and> j = k then entry fw a (pm f k) else pm g j)"
  by (simp add: put_entry_def entry_def)

lemma entry_simps [simp]:
  "0 < fw \<Longrightarrow> present (entry fw a e)" "pointee (entry fw a e) = page_frame a" "get_flags 9 (entry 9 a e) = PTE_PRESENT OR PTE_WRITEABLE"
  by (simp_all add: entry_def page_frame_def PTE_PRESENT_def PTE_WRITEABLE_def)

lemma ident_entries_at:
  "ident_entries f i j n pm g m =
     (if g = f \<and> j \<le> m \<and> m < j + n then entry 9 (of_nat (i * 512 + m) * PAGE_SIZE) (pm f m) else pm g m)"
proof (induction n arbitrary: j pm)
  case (Suc n)
  show ?case unfolding ident_entries.simps Suc.IH put_entry_at by auto
qed auto

lemma ident_tables_other:
  "g \<noteq> kernel_pd_0 k \<Longrightarrow> \<forall>t. i \<le> t \<longrightarrow> t < i + n \<longrightarrow> g \<noteq> kernel_pd_0_ents k t \<Longrightarrow> ident_tables k i n pm g m = pm g m"
proof (induction n arbitrary: i pm)
  case (Suc n)
  then have "ident_tables k i (Suc n) pm g m =
      ident_entries (kernel_pd_0_ents k i) i 0 512 (put_entry 6 (kernel_pd_0 k) i (kernel_pd_0_ents k i) pm) g m"
    by simp
  then show ?case unfolding ident_entries_at put_entry_at using Suc.prems by auto
qed simp

lemma ident_tables_pd:
  assumes "\<forall>t. i \<le> t \<longrightarrow> t < i + n \<longrightarrow> kernel_pd_0_ents k t \<noteq> kernel_pd_0 k"
  shows "ident_tables k i n pm (kernel_pd_0 k) m =
    (if i \<le> m \<and> m < i + n then entry 6 (kernel_pd_0_ents k m) (pm (kernel_pd_0 k) m) else pm (kernel_pd_0 k) m)"
  using assms
proof (induction n arbitrary: i pm)
  case (Suc n)
  have "kernel_pd_0_ents k i \<noteq> kernel_pd_0 k" using Suc.prems by simp
  moreover have "\<forall>t. Suc i \<le> t \<longrightarrow> t < Suc i + n \<longrightarrow> kernel_pd_0_ents k t \<noteq> kernel_pd_0 k" using Suc.prems by simp
  ultimately show ?case unfolding ident_tables.simps Suc.IH [OF \<open>\<forall>t. Suc i \<le> t \<longrightarrow> _ t\<close>] ident_entries_at put_entry_at by auto
qed auto

lemma ident_tables_pt:
  assumes "inj_on (kernel_pd_0_ents k) {i..<i + n}" "\<forall>t. i \<le> t \<longrightarrow> t < i + n \<longrightarrow> kernel_pd_0_ents k t \<noteq> kernel_pd_0 k"
    "i \<le> t" "t < i + n" "m < 512"
  shows "ident_tables k i n pm (kernel_pd_0_ents k t) m =
    entry 9 (of_nat (t * 512 + m) * PAGE_SIZE) (pm (kernel_pd_0_ents k t) m)"
  using assms
proof (induction n arbitrary: i pm)
  case (Suc n)
  let ?E = "kernel_pd_0_ents k"
  let ?pm = "ident_entries (?E i) i 0 512 (put_entry 6 (kernel_pd_0 k) i (?E i) pm)"
  show ?case
  proof (cases "t = i")
    case True
    have "\<forall>t. Suc i \<le> t \<longrightarrow> t < Suc i + n \<longrightarrow> ?E i \<noteq> ?E t" using Suc.prems(1) by (auto dest: inj_onD)
    moreover have "?E i \<noteq> kernel_pd_0 k" using Suc.prems(2) by simp
    ultimately have "ident_tables k (Suc i) n ?pm (?E i) m = ?pm (?E i) m" by (rule ident_tables_other [rotated])
    then show ?thesis unfolding ident_tables.simps True ident_entries_at put_entry_at using Suc.prems(2,5) by simp
  next
    case False
    have "inj_on ?E {Suc i..<Suc i + n}" using Suc.prems(1) by (rule inj_on_subset) auto
    moreover have "\<forall>t. Suc i \<le> t \<longrightarrow> t < Suc i + n \<longrightarrow> ?E t \<noteq> kernel_pd_0 k" using Suc.prems(2) by simp
    ultimately have "ident_tables k (Suc i) n ?pm (?E t) m = entry 9 (of_nat (t * 512 + m) * PAGE_SIZE) (?pm (?E t) m)"
      using Suc.prems False by (intro Suc.IH) auto
    moreover have "?E t \<noteq> ?E i" "?E t \<noteq> kernel_pd_0 k" using Suc.prems False by (auto dest: inj_onD)
    ultimately show ?thesis unfolding ident_tables.simps ident_entries_at put_entry_at by simp
  qed
qed simp

lemma ksyms_distinct:
  assumes "ksyms_ok k"
  shows "kernel_pml4 k \<noteq> kernel_pdpt_0 k" "kernel_pml4 k \<noteq> kernel_pd_0 k" "kernel_pml4 k \<noteq> kernel_pd_1 k"
    "kernel_pdpt_0 k \<noteq> kernel_pd_0 k" "kernel_pdpt_0 k \<noteq> kernel_pd_1 k" "kernel_pd_0 k \<noteq> kernel_pd_1 k"
    "paging_pt_addr k \<notin> {kernel_pml4 k, kernel_pdpt_0 k, kernel_pd_0 k, kernel_pd_1 k}"
    "t < N_IDENT_PTS \<Longrightarrow> kernel_pd_0_ents k t \<notin> {kernel_pml4 k, kernel_pdpt_0 k, kernel_pd_0 k, kernel_pd_1 k, paging_pt_addr k}"
    "inj_on (kernel_pd_0_ents k) {0..<N_IDENT_PTS}"
proof -
  have "kernel_pd_0_ents k ` {0..<N_IDENT_PTS} \<inter>
      {kernel_pml4 k, kernel_pdpt_0 k, kernel_pd_0 k, kernel_pd_1 k, paging_pt_addr k} = {}"
    using assms by (simp add: ksyms_ok_def kernel_tables_def)
  moreover have "t \<in> {0..<N_IDENT_PTS}" if "t < N_IDENT_PTS" using that by simp
  ultimately show "t < N_IDENT_PTS \<Longrightarrow>
      kernel_pd_0_ents k t \<notin> {kernel_pml4 k, kernel_pdpt_0 k, kernel_pd_0 k, kernel_pd_1 k, paging_pt_addr k}"
    by blast
qed (use assms in \<open>auto simp: ksyms_ok_def kernel_tables_def distinct_map\<close>)

lemma ksyms_frames:
  assumes "ksyms_ok k"
  shows "page_frame (kernel_pml4 k) = kernel_pml4 k" "page_frame (kernel_pdpt_0 k) = kernel_pdpt_0 k"
    "page_frame (kernel_pd_0 k) = kernel_pd_0 k" "page_frame (kernel_pd_1 k) = kernel_pd_1 k"
    "page_frame (paging_pt_addr k) = paging_pt_addr k" "t < N_IDENT_PTS \<Longrightarrow> page_frame (kernel_pd_0_ents k t) = kernel_pd_0_ents k t"
    "0 \<notin> set (kernel_tables k)"
  using assms by (auto simp: ksyms_ok_def kernel_tables_def page_frame_ok frame_ok_def)

lemma paging_init_rows:
  assumes "ksyms_ok k"
  shows "pmem (paging_init k st) (kernel_pml4 k) j =
      (if j = 0 then entry 6 (kernel_pdpt_0 k) (pmem st (kernel_pml4 k) 0) else pmem st (kernel_pml4 k) j)"
    "pmem (paging_init k st) (kernel_pdpt_0 k) j =
      (if j = 0 then entry 6 (kernel_pd_0 k) (pmem st (kernel_pdpt_0 k) 0)
       else if j = 1 then entry 6 (kernel_pd_1 k) (pmem st (kernel_pdpt_0 k) 1) else pmem st (kernel_pdpt_0 k) j)"
    "pmem (paging_init k st) (kernel_pd_0 k) j =
      (if j < N_IDENT_PTS then entry 6 (kernel_pd_0_ents k j) (pmem st (kernel_pd_0 k) j) else pmem st (kernel_pd_0 k) j)"
    "pmem (paging_init k st) (kernel_pd_1 k) j =
      (if j = 0 then entry 6 (paging_pt_addr k) (pmem st (kernel_pd_1 k) 0) else pmem st (kernel_pd_1 k) j)"
    "t < N_IDENT_PTS \<Longrightarrow> j < 512 \<Longrightarrow> pmem (paging_init k st) (kernel_pd_0_ents k t) j =
      entry 9 (of_nat (t * 512 + j) * PAGE_SIZE) (pmem st (kernel_pd_0_ents k t) j)"
proof -
  note d = ksyms_distinct [OF assms]
  define pm1 where "pm1 = put_entry 6 (kernel_pdpt_0 k) 1 (kernel_pd_1 k) (put_entry 6 (kernel_pdpt_0 k) 0 (kernel_pd_0 k)
    (put_entry 6 (kernel_pml4 k) 0 (kernel_pdpt_0 k) (pmem st)))"
  have pm1: "pm1 g m = (if g = kernel_pdpt_0 k \<and> m = 1 then entry 6 (kernel_pd_1 k) (pmem st g m)
      else if g = kernel_pdpt_0 k \<and> m = 0 then entry 6 (kernel_pd_0 k) (pmem st g m)
      else if g = kernel_pml4 k \<and> m = 0 then entry 6 (kernel_pdpt_0 k) (pmem st g m) else pmem st g m)" for g m
    unfolding pm1_def put_entry_at using d(1) by auto
  have E: "\<forall>t. 0 \<le> t \<longrightarrow> t < 0 + N_IDENT_PTS \<longrightarrow> kernel_pd_0_ents k t \<noteq> kernel_pd_0 k" using d(8) by auto
  have p: "pmem (paging_init k st) = put_entry 6 (kernel_pd_1 k) 0 (paging_pt_addr k) (ident_tables k 0 N_IDENT_PTS pm1)"
    by (simp add: paging_init_def pm1_def)
  have o: "ident_tables k 0 N_IDENT_PTS pm1 g m = pm1 g m" if "g \<in> {kernel_pml4 k, kernel_pdpt_0 k, kernel_pd_1 k}" for g m
  proof (rule ident_tables_other)
    show "g \<noteq> kernel_pd_0 k" using that d(1-6) by auto
    show "\<forall>t. 0 \<le> t \<longrightarrow> t < 0 + N_IDENT_PTS \<longrightarrow> g \<noteq> kernel_pd_0_ents k t" using that d(8) by fastforce
  qed
  note at = p put_entry_at pm1 o ident_tables_pd [OF E] ident_tables_pt [OF _ E]
  show "pmem (paging_init k st) (kernel_pml4 k) j =
      (if j = 0 then entry 6 (kernel_pdpt_0 k) (pmem st (kernel_pml4 k) 0) else pmem st (kernel_pml4 k) j)"
    using d(1-6) by (simp add: at)
  show "pmem (paging_init k st) (kernel_pdpt_0 k) j =
      (if j = 0 then entry 6 (kernel_pd_0 k) (pmem st (kernel_pdpt_0 k) 0)
       else if j = 1 then entry 6 (kernel_pd_1 k) (pmem st (kernel_pdpt_0 k) 1) else pmem st (kernel_pdpt_0 k) j)"
    using d(1-6) by (auto simp: at)
  show "pmem (paging_init k st) (kernel_pd_0 k) j =
      (if j < N_IDENT_PTS then entry 6 (kernel_pd_0_ents k j) (pmem st (kernel_pd_0 k) j) else pmem st (kernel_pd_0 k) j)"
    using d(1-6) by (simp add: at)
  show "pmem (paging_init k st) (kernel_pd_1 k) j =
      (if j = 0 then entry 6 (paging_pt_addr k) (pmem st (kernel_pd_1 k) 0) else pmem st (kernel_pd_1 k) j)"
    using d(1-6) by (simp add: at)
  assume t: "t < N_IDENT_PTS" "j < 512"
  then show "pmem (paging_init k st) (kernel_pd_0_ents k t) j =
      entry 9 (of_nat (t * 512 + j) * PAGE_SIZE) (pmem st (kernel_pd_0_ents k t) j)"
    using d(8) [OF t(1)] d(9) by (simp add: at)
qed

lemma paging_init_links:
  fixes st :: pgstate
  assumes "ksyms_ok k"
  defines "lk \<equiv> link (pmem (paging_init k st))"
  shows "lk (kernel_pml4 k) 0 = kernel_pdpt_0 k" "lk (kernel_pdpt_0 k) 0 = kernel_pd_0 k" "lk (kernel_pdpt_0 k) 1 = kernel_pd_1 k"
    "t < N_IDENT_PTS \<Longrightarrow> lk (kernel_pd_0 k) t = kernel_pd_0_ents k t" "lk (kernel_pd_1 k) 0 = paging_pt_addr k"
  unfolding lk_def link_def by (simp_all add: paging_init_rows [OF assms(1)] ksyms_frames [OF assms(1)])

lemma low_indices:
  assumes "unat u < 2 ^ 27"
  shows "idx4 u = 0" "idx3 u = 0" "idx2 u < N_IDENT_PTS" "idx2 u * 512 + idx1 u = vpn u"
proof -
  have d: "unat (drop_bit k u) = unat u div 2 ^ k" for k unfolding unat_drop_bit_eq by (simp add: drop_bit_eq_div)
  have m: "unat (take_bit 9 w) = unat w mod 512" for w :: u64 by (simp add: take_bit_eq_mod unat_mod)
  show "idx4 u = 0" "idx3 u = 0" "idx2 u < N_IDENT_PTS"
    using assms by (simp_all add: idx4_def idx3_def idx2_def m d N_IDENT_PTS_def)
  have "unat u div 2097152 = unat u div 4096 div 512" by (simp flip: div_mult2_eq)
  moreover have "unat u div 2097152 < 512" using assms by simp
  ultimately show "idx2 u * 512 + idx1 u = vpn u" by (simp add: idx2_def idx1_def m d vpn_def)
qed

lemma page_frame_vpn:
  assumes "unat u < 2 ^ 27"
  shows "page_frame (of_nat (vpn u) * PAGE_SIZE) = page_frame u"
proof -
  have "vpn u < 2 ^ 15" using assms by (simp add: vpn_def)
  then have "unat (of_nat (vpn u) * PAGE_SIZE :: u64) = vpn u * 4096"
    by (simp add: unat_word_ariths PAGE_SIZE_def unat_of_nat64)
  then have "vpn (of_nat (vpn u) * PAGE_SIZE) = vpn u" by (simp add: vpn_def)
  then show ?thesis by (simp add: page_frame_def vpn_eq_iff)
qed

text \<open>The paths of the kernel's directory when its tables start out as zeroes.\<close>

definition kernel_paths :: "ksyms \<Rightarrow> (nat list \<times> u64) set" where
  "kernel_paths k = {([], kernel_pml4 k), ([0], kernel_pdpt_0 k), ([0, 0], kernel_pd_0 k), ([0, 1], kernel_pd_1 k),
     ([0, 1, 0], paging_pt_addr k)} \<union> (\<lambda>t. ([0, 0, t], kernel_pd_0_ents k t)) ` {0..<N_IDENT_PTS}"

lemma kernel_paths_zip:
  "kernel_paths k = set (zip ([[], [0], [0, 0], [0, 1], [0, 1, 0]] @ map (\<lambda>t. [0, 0, t]) [0..<N_IDENT_PTS]) (kernel_tables k))"
  by (simp add: kernel_paths_def kernel_tables_def zip_map_map zip_same_conv_map image_image)

lemma kernel_paths_unique:
  assumes "ksyms_ok k" "(ps, f) \<in> kernel_paths k" "(qs, f) \<in> kernel_paths k"
  shows "ps = qs"
  using assms nth_eq_iff_index_eq [of "kernel_tables k"] by (auto simp: kernel_paths_zip in_set_zip ksyms_ok_def)

lemma paging_init_paths:
  assumes ok: "ksyms_ok k" and z: "\<forall>f\<in>set (kernel_tables k). pmem st f = (\<lambda>_. 0)"
    and p: "path ps" "fr (link (pmem (paging_init k st))) (kernel_pml4 k) ps \<noteq> 0"
  shows "(ps, fr (link (pmem (paging_init k st))) (kernel_pml4 k) ps) \<in> kernel_paths k"
proof -
  let ?lk = "link (pmem (paging_init k st))"
  have nz: "kernel_pml4 k \<noteq> 0" "kernel_pdpt_0 k \<noteq> 0" "kernel_pd_0 k \<noteq> 0" "kernel_pd_1 k \<noteq> 0"
    using ksyms_frames(7) [OF ok] by (auto simp: kernel_tables_def)
  have lk: "?lk (kernel_pml4 k) j = (if j = 0 then kernel_pdpt_0 k else 0)"
    "?lk (kernel_pdpt_0 k) j = (if j = 0 then kernel_pd_0 k else if j = 1 then kernel_pd_1 k else 0)"
    "?lk (kernel_pd_0 k) j = (if j < N_IDENT_PTS then kernel_pd_0_ents k j else 0)"
    "?lk (kernel_pd_1 k) j = (if j = 0 then paging_pt_addr k else 0)" for j
    unfolding link_def using z by (auto simp: paging_init_rows [OF ok] ksyms_frames [OF ok] kernel_tables_def)
  from p(1) consider "ps = []" | a where "ps = [a]" | a b where "ps = [a, b]" | a b c where "ps = [a, b, c]"
    by (auto simp: path_def length_Suc_conv le_Suc_eq numeral_3_eq_3)
  then show ?thesis using p(2) nz
    by cases (auto simp: lk kernel_paths_def split: if_splits)
qed

section \<open>Several directories\<close>

lemma link_cong: "pm' f = pm f \<Longrightarrow> link pm' f = link pm f"
  by (simp add: link_def fun_eq_iff)

text \<open>A directory none of whose tables changes keeps its shape and its pages.\<close>

lemma untouched:
  assumes same: "\<forall>f\<in>frames_of (link (pmem st)) other. pmem st' f = pmem st f"
  shows "path ps \<Longrightarrow> fr (link (pmem st')) other ps = fr (link (pmem st)) other ps"
    "frames_of (link (pmem st')) other = frames_of (link (pmem st)) other"
    "tree_ok (link (pmem st')) other = tree_ok (link (pmem st)) other"
    "low48 u \<Longrightarrow> view other st' u = view other st u"
proof -
  have f: "fr (link (pmem st')) other ps = fr (link (pmem st)) other ps" if "path ps" for ps
    using that
  proof (induction ps rule: rev_induct)
    case (snoc i ps)
    have p: "path ps" by (rule path_prefix [OF snoc.prems])
    then have "fr (link (pmem st)) other ps \<noteq> 0 \<Longrightarrow>
        link (pmem st') (fr (link (pmem st)) other ps) = link (pmem st) (fr (link (pmem st)) other ps)"
      using same by (intro link_cong) (auto simp: frames_of_def)
    then show ?case using snoc.IH [OF p] by (simp add: fr_snoc)
  qed simp
  then show "path ps \<Longrightarrow> fr (link (pmem st')) other ps = fr (link (pmem st)) other ps" .
  show "frames_of (link (pmem st')) other = frames_of (link (pmem st)) other"
    using f by (auto simp: frames_of_def) metis
  show "tree_ok (link (pmem st')) other = tree_ok (link (pmem st)) other" using f by (auto simp: tree_ok_def)
  assume u: "low48 u"
  define t where "t = fr (link (pmem st)) other (walk u)"
  have "t \<noteq> 0 \<Longrightarrow> pmem st' t = pmem st t" using same walk_path(1) [OF u] by (auto simp: frames_of_def t_def)
  then show "view other st' u = view other st u"
    using f [OF walk_path(1) [OF u]] by (auto simp: view_def leaf_def Let_def simp flip: t_def)
qed

lemma frames_kept: "pg_ok other st \<Longrightarrow> frames_of (link (pmem st)) other \<subseteq> kept st"
  by (auto simp: pg_ok_def kept_def)

lemma pg_ok_other:
  assumes o: "pg_ok other st" and p: "pg_ok root st'" and same: "\<forall>f\<in>frames_of (link (pmem st)) other. pmem st' f = pmem st f"
    and "kept st \<subseteq> kept st'"
  shows "pg_ok other st'"
  using o p assms(4) untouched(2,3) [OF same] frames_kept [OF o] by (auto simp: pg_ok_def kept_def)

text \<open>Growing one directory leaves alone another one with tables of its own.\<close>

lemma other_ok:
  assumes g: "grown root st st'" and r: "pg_ok root st'" and o: "pg_ok other st"
    and disj: "frames_of (link (pmem st)) root \<inter> frames_of (link (pmem st)) other = {}"
  shows "pg_ok other st'" "frames_of (link (pmem st')) root \<inter> frames_of (link (pmem st')) other = {}"
    "low48 u \<Longrightarrow> view other st' u = view other st u"
proof -
  note k = frames_kept [OF o]
  have same: "\<forall>f\<in>frames_of (link (pmem st)) other. pmem st' f = pmem st f" using g k disj by (auto simp: grown_def)
  show "pg_ok other st'" by (rule pg_ok_other [OF o r same]) (use g in \<open>simp add: grown_def\<close>)
  show "frames_of (link (pmem st')) root \<inter> frames_of (link (pmem st')) other = {}"
    using g k disj unfolding untouched(2) [OF same] by (auto simp: grown_def)
  show "low48 u \<Longrightarrow> view other st' u = view other st u" by (rule untouched(4) [OF same])
qed

text \<open>A new directory: one frame from the allocator, empty.\<close>

lemma pml4_alloc_ok:
  assumes ok: "pg_ok other st"
  obtains (none) "pml4_alloc st = Some (0, st)"
    | (new) p st' where "pml4_alloc st = Some (p, st')" "p \<noteq> 0" "pg_ok p st'" "frames_of (link (pmem st')) p = {p}"
      "\<And>u. view p st' u = None" "pg_ok other st'" "p \<notin> frames_of (link (pmem st')) other"
      "\<And>u. low48 u \<Longrightarrow> view other st' u = view other st u" "same_tables (phys st) (phys st')"
proof (cases rule: frame_alloc_ok [OF ok, case_names full page])
  case full
  then show thesis using none by (simp add: pml4_alloc_def)
next
  case (page p ph)
  have pnz: "p \<noteq> 0" using page(3) by (simp add: frame_ok_def)
  obtain st1 where s1: "map_addr p 0 (st\<lparr>phys := ph\<rparr>) = Some st1" "rewindowed 0 p (st\<lparr>phys := ph\<rparr>) st1"
    using map_addr_ok [OF page(3), of "st\<lparr>phys := ph\<rparr>" 0] page(2) by (auto simp: pg_ok_def)
  note r = rewindowed_simps [OF s1(2)]
  define st' where "st' = st1\<lparr>pmem := (pmem st1)(p := \<lambda>_. 0)\<rparr>"
  have run: "pml4_alloc st = Some (p, st')"
    using page(1) s1(1) pnz sees_access(4) [OF r(3), of 0] by (simp add: pml4_alloc_def st'_def)
  have st': "phys st' = ph" "win_ok st'" "pmem st' p = (\<lambda>_. 0)" "\<forall>f. f \<noteq> p \<longrightarrow> pmem st' f = pmem st f"
    using r by (simp_all add: st'_def)
  have "link (pmem st') p i = 0" for i using st'(3) by (simp add: link_def)
  then have f0: "fr (link (pmem st')) p ps = (if ps = [] then p else 0)" for ps
    by (cases ps) (auto simp: fr_zero)
  then have fo: "frames_of (link (pmem st')) p = {p}" "tree_ok (link (pmem st')) p"
    using pnz by (auto simp: frames_of_def tree_ok_def path_def split: if_splits)
  have pp: "pg_ok p st'" using page(2,3,5) st' fo by (auto simp: pg_ok_def)
  have same: "\<forall>f\<in>frames_of (link (pmem st)) other. pmem st' f = pmem st f" using page(4) st'(4) by auto
  have "kept st \<subseteq> kept st'" using page(7) page_list_same_tables [OF page(8)] st'(1) by (auto simp: kept_def)
  note o = pg_ok_other [OF ok pp same this] untouched(2,4) [OF same]
  have "view p st' u = None" for u using f0 [of "walk u"] by (simp add: view_def leaf_def walk_def)
  then show thesis using new [OF run pnz pp fo(1) _ o(1)] o(2,3) page(4,8) st'(1) by auto
qed

section \<open>Properties of the page tables\<close>

text \<open>After \<^verbatim>\<open>paging_init\<close> the kernel's directory maps the first 128 MiB to themselves: every address
  below $2^{27}$ has a page, whose frame is the page of the address itself and whose flags are present and writeable.\<close>

theorem paging_init_identity:
  assumes "ksyms_ok k" "unat u < 2 ^ 27"
  shows "view (kernel_pml4 k) (paging_init k st) u = Some (page_frame u, PTE_PRESENT OR PTE_WRITEABLE)"
proof -
  note i = low_indices [OF assms(2)] and l = paging_init_links [OF assms(1), where st = st]
  have "kernel_pml4 k \<noteq> 0" "kernel_pdpt_0 k \<noteq> 0" "kernel_pd_0 k \<noteq> 0" "kernel_pd_0_ents k (idx2 u) \<noteq> 0"
    using ksyms_frames(7) [OF assms(1)] i(3) by (auto simp: kernel_tables_def image_iff)
  moreover have "pmem (paging_init k st) (kernel_pd_0_ents k (idx2 u)) (idx1 u) =
      entry 9 (of_nat (vpn u) * PAGE_SIZE) (pmem st (kernel_pd_0_ents k (idx2 u)) (idx1 u))"
    using paging_init_rows(5) [OF assms(1) i(3) idx_bounds(4), of st u] unfolding i(4) .
  ultimately show ?thesis
    using i(1-3) l(1,2) l(4) [OF i(3)] page_frame_vpn [OF assms(2)] by (simp add: view_def leaf_def fr_walk)
qed

text \<open>Once the page allocator works on pages that are none of the kernel's tables, the kernel's directory satisfies the
  invariant: its tables, which start out as zeroes in the image, form a tree that the allocator will not hand out.\<close>

theorem paging_init_ok:
  assumes "ksyms_ok k" "\<forall>f\<in>set (kernel_tables k). pmem st f = (\<lambda>_. 0)"
    "physalloc_distinct ph" "\<forall>p\<in>set (page_list ph). frame_ok p \<and> p \<notin> set (kernel_tables k)"
  shows "pg_ok (kernel_pml4 k) ((paging_init k st)\<lparr>phys := ph\<rparr>)"
proof -
  note paths = paging_init_paths [OF assms(1,2)]
  have "tree_ok (link (pmem (paging_init k st))) (kernel_pml4 k)"
    unfolding tree_ok_def using paths kernel_paths_unique [OF assms(1)] by metis
  moreover have "frames_of (link (pmem (paging_init k st))) (kernel_pml4 k) \<subseteq> set (kernel_tables k)"
    using paths by (fastforce simp: frames_of_def kernel_paths_def kernel_tables_def)
  moreover have "frame_ok (kernel_pml4 k)" using assms(1) by (simp add: ksyms_ok_def kernel_tables_def)
  ultimately show ?thesis using assms(3,4) by (auto simp: pg_ok_def win_ok_def paging_init_def)
qed




text \<open>\<^verbatim>\<open>unmap_pages\<close> removes exactly the requested virtual pages from a directory and returns no frame to
  the page allocator, whether or not it was asked to deallocate them.\<close>

theorem unmap_pages_removes:
  assumes "pg_ok root st" "unat v + 4096 * n \<le> 2 ^ 48"
  shows "\<exists>st'. unmap_pages root v n deallocate st = Some st' \<and> pg_ok root st' \<and> phys st' = phys st \<and>
    (\<forall>u. low48 u \<longrightarrow> view root st' u = (if vpn v \<le> vpn u \<and> vpn u < vpn v + n then None else view root st u))"
  using unmap_pages_ok [OF assms, of deallocate] by blast

section \<open>A concrete machine\<close>

text \<open>Empty memory with the 64 pages of \<open>small_machine\<close>, and tables of the kernel from 1 MiB on.\<close>

definition blank_pages :: pgstate where
  "blank_pages = \<lparr>phys = small_machine 0x400000, pmem = \<lambda>_ _. 0, paging_pt = \<lambda>_. 0\<rparr>"

definition boot_syms :: ksyms where
  "boot_syms = \<lparr>kernel_pml4 = 0x100000, kernel_pdpt_0 = 0x101000, kernel_pd_0 = 0x102000,
     kernel_pd_0_ents = \<lambda>t. 0x110000 + 4096 * of_nat t, kernel_pd_1 = 0x103000, paging_pt_addr = 0x104000\<rparr>"

definition frame_no :: "nat \<Rightarrow> u64" where "frame_no n = of_nat (4096 * n)"

lemma unat_frame_no: "n < 2 ^ 40 \<Longrightarrow> unat (frame_no n) = 4096 * n"
  unfolding frame_no_def by (rule unat_of_nat64) simp

lemma frame_no_inj: "n < 2 ^ 40 \<Longrightarrow> m < 2 ^ 40 \<Longrightarrow> frame_no n = frame_no m \<longleftrightarrow> n = m"
  using unat_frame_no by (metis mult_left_cancel zero_neq_numeral)

lemma frame_no_ok: "0 < n \<Longrightarrow> n < 2 ^ 40 \<Longrightarrow> frame_ok (frame_no n)"
proof -
  assume a: "0 < n" "n < 2 ^ 40"
  have "unat (push_bit 12 (take_bit 40 (drop_bit 12 (frame_no n)))) = 4096 * n"
    using a(2) unat_frame_no [OF a(2)]
    by (simp add: push_bit_eq_mult take_bit_eq_mod drop_bit_eq_div unat_word_ariths unat_div unat_mod)
  then have "push_bit 12 (take_bit 40 (drop_bit 12 (frame_no n))) = frame_no n"
    using unat_frame_no [OF a(2)] by (simp only: word_unat_eq_iff)
  moreover have "frame_no n \<noteq> 0" using unat_frame_no [OF a(2)] a(1) by auto
  ultimately show ?thesis by (simp only: frame_ok_def) simp
qed

lemma small_pages: "set (page_list (small_machine tab)) = frame_no ` {1024..<1088}"
proof -
  have "set (page_list (small_machine tab)) = (\<lambda>k. frame_no (1024 + k)) ` {0..<64}"
    unfolding page_list_small set_map set_upt by (simp add: frame_no_def)
  also have "\<dots> = frame_no ` ((+) 1024 ` {0..<64})" by (simp only: image_image)
  also have "(+) 1024 ` {0..<64} = {1024..<1088 :: nat}" by (simp only: image_add_atLeastLessThan) simp
  finally show ?thesis .
qed

lemma small_frames: "\<forall>p\<in>set (page_list (small_machine tab)). frame_ok p"
  by (auto simp: small_pages intro!: frame_no_ok)

lemma small_distinct: "physalloc_distinct (small_machine 0x400000)"
  using small_machine_ok [of "0x400000"] distinct_page_list_small by (simp add: physalloc_distinct_def)

lemma blank_ok:
  assumes "frame_ok root" "root \<notin> set (page_list (small_machine 0x400000))"
  shows "pg_ok root blank_pages" "frames_of (link (pmem blank_pages)) root = {root}"
proof -
  have "link (pmem blank_pages) = (\<lambda>_ _. 0)" by (simp add: blank_pages_def link_def fun_eq_iff)
  moreover have fr0: "fr (\<lambda>_ _. 0) r ps = (if ps = [] then r else 0)" for r ps by (induction ps arbitrary: r) auto
  moreover have nz: "root \<noteq> 0" using assms(1) by (simp add: frame_ok_def)
  ultimately have f: "frames_of (link (pmem blank_pages)) root = {root}" "tree_ok (link (pmem blank_pages)) root"
    by (auto simp: frames_of_def tree_ok_def path_def split: if_splits)
  then show "frames_of (link (pmem blank_pages)) root = {root}" by simp
  show "pg_ok root blank_pages"
    using f assms small_frames small_distinct by (simp add: pg_ok_def win_ok_def blank_pages_def)
qed

lemma boot_tables: "kernel_tables boot_syms = map frame_no ([256, 257, 258, 259, 260] @ map ((+) 272) [0..<64])"
proof -
  have "map (kernel_pd_0_ents boot_syms) [0..<N_IDENT_PTS] = map frame_no (map ((+) 272) [0..<64])"
    unfolding N_IDENT_PTS_def map_map o_def by (rule map_cong [OF refl]) (simp add: boot_syms_def frame_no_def)
  then show ?thesis unfolding kernel_tables_def map_append by (simp only: boot_syms_def ksyms.simps) (simp add: frame_no_def)
qed

lemma boot_syms_ok: "ksyms_ok boot_syms"
proof -
  let ?ns = "[256, 257, 258, 259, 260] @ map ((+) 272) [0..<64] :: nat list"
  have ns: "n \<in> set ?ns \<Longrightarrow> 0 < n \<and> n < 2 ^ 40" for n unfolding set_append set_map set_upt by auto
  have "distinct ?ns" by (simp only: distinct_append distinct_map distinct_upt set_map set_upt) auto
  then have "distinct (kernel_tables boot_syms)"
    unfolding boot_tables using ns by (simp only: distinct_map) (auto simp only: inj_on_def frame_no_inj)
  then show ?thesis unfolding ksyms_ok_def boot_tables using ns by (auto simp only: set_map intro!: frame_no_ok)
qed

lemma boot_tables_reserved: "\<forall>p\<in>set (page_list (small_machine 0x400000)). p \<notin> set (kernel_tables boot_syms)"
proof -
  have "set (kernel_tables boot_syms) \<subseteq> frame_no ` {..<1024}"
    unfolding boot_tables set_map set_append set_upt by auto
  then show ?thesis unfolding small_pages by (auto simp: frame_no_inj)
qed

lemma blank_roots: "0x250000 \<notin> set (page_list (small_machine 0x400000))" "0x251000 \<notin> set (page_list (small_machine 0x400000))"
    "frame_ok 0x250000" "frame_ok 0x251000"
proof -
  have f: "0x250000 = frame_no 592" "0x251000 = frame_no 593" by (simp_all add: frame_no_def)
  show "0x250000 \<notin> set (page_list (small_machine 0x400000))" "0x251000 \<notin> set (page_list (small_machine 0x400000))"
    "frame_ok 0x250000" "frame_ok 0x251000"
    unfolding f small_pages by (auto simp: frame_no_inj intro!: frame_no_ok)
qed

theorem paging_init_identity_witness:
  "view (kernel_pml4 boot_syms) (paging_init boot_syms blank_pages) 0x123456 = Some (0x123000, 3)"
proof -
  have "page_frame 0x123456 = 0x123000" "PTE_PRESENT OR PTE_WRITEABLE = 3" unfolding page_frame_def by code_simp+
  then show ?thesis using paging_init_identity [OF boot_syms_ok, of "0x123456" blank_pages] by simp
qed

theorem paging_init_ok_witness:
  "pg_ok (kernel_pml4 boot_syms) ((paging_init boot_syms blank_pages)\<lparr>phys := small_machine 0x400000\<rparr>)"
  by (rule paging_init_ok [OF boot_syms_ok _ small_distinct])
    (use small_frames boot_tables_reserved in \<open>auto simp: blank_pages_def\<close>)




theorem unmap_pages_removes_witness:
  "\<exists>st'. unmap_pages 0x250000 0x40000000 3 True blank_pages = Some st' \<and> pg_ok 0x250000 st' \<and> phys st' = phys blank_pages"
  using unmap_pages_removes [OF blank_ok(1) [OF blank_roots(3,1)], of "0x40000000" 3 True] by auto

end
