(* ===== verification/Virtalloc.thy ===== *)
theory Virtalloc
  imports Prelude
begin

text \<open>
  The virtual address allocator of \<^verbatim>\<open>kernel/memory/virtalloc.c\<close>: a doubly linked list of
  nodes, each an address range that is either taken or free. Nodes live in an array inside
  the context and, when that runs out, in an array from the kernel heap.

  The nodes are an explicit store from node addresses to nodes, because the code works through
  pointers that several lists share (\<^verbatim>\<open>virtaddr_clone\<close> copies a context whose nodes point
  into the original). The heap functions \<^verbatim>\<open>kalloc\<close> and \<^verbatim>\<open>kfree\<close>, which call back into this
  allocator, are arguments of the operations that may call them. The specification is a list of
  ranges that tile the address space; every operation refines an operation on that list.
\<close>

section \<open>State\<close>

definition BOOTSTRAP_VIRT_ALLOC_NODES :: nat where "BOOTSTRAP_VIRT_ALLOC_NODES = 256"

text \<open>A node address: entry \<open>i\<close> of the array inside context \<open>c\<close>, or entry \<open>i\<close> of the
  heap block at an address.\<close>

datatype vptr = Boot nat nat | Heap u64 nat

record virt_addr_node =
  vn_start :: u64
  vn_end :: u64
  vn_next :: "vptr option"
  vn_prev :: "vptr option"
  vn_is_alloc :: bool
  vn_is_used :: bool

type_synonym vmem = "vptr \<Rightarrow> virt_addr_node"

text \<open>\<open>ctx_id\<close> identifies the context's own memory; \<open>alloc_nodes\<close> is 0 for \<^verbatim>\<open>NULL\<close>.\<close>

record virt_ctx =
  ctx_id :: nat
  alloc_nodes :: u64
  start_node :: "vptr option"
  free_node_start :: u64
  alloc_node_count :: u64
  used_node_count :: u64
  is_allocating :: bool

type_synonym kalloc_fun = "u64 \<Rightarrow> virt_ctx \<Rightarrow> vmem \<Rightarrow> (u64 \<times> virt_ctx \<times> vmem) option"
type_synonym kfree_fun = "u64 \<Rightarrow> virt_ctx \<Rightarrow> vmem \<Rightarrow> (virt_ctx \<times> vmem) option"

section \<open>Nodes\<close>

definition get_node_idx :: "virt_ctx \<Rightarrow> nat \<Rightarrow> vptr" where
  "get_node_idx ctx idx =
     (if idx < BOOTSTRAP_VIRT_ALLOC_NODES then Boot (ctx_id ctx) idx
      else Heap (alloc_nodes ctx) (idx - BOOTSTRAP_VIRT_ALLOC_NODES))"

abbreviation upd_node :: "vptr \<Rightarrow> (virt_addr_node \<Rightarrow> virt_addr_node) \<Rightarrow> vmem \<Rightarrow> vmem" where
  "upd_node p f mem \<equiv> mem(p := f (mem p))"

text \<open>\<^verbatim>\<open>if (p != NULL) p->field = v\<close>\<close>

definition upd_opt :: "vptr option \<Rightarrow> (virt_addr_node \<Rightarrow> virt_addr_node) \<Rightarrow> vmem \<Rightarrow> vmem" where
  "upd_opt p f mem = (case p of None \<Rightarrow> mem | Some q \<Rightarrow> upd_node q f mem)"

text \<open>The first loop of \<^verbatim>\<open>update_node_ptrs\<close> (entry \<open>i\<close> of \<open>n\<close>), then the second.\<close>

fun move_nodes :: "u64 \<Rightarrow> u64 \<Rightarrow> nat \<Rightarrow> nat \<Rightarrow> nat \<Rightarrow> vmem \<Rightarrow> nat \<times> vmem" where
  "move_nodes old new i 0 idx mem = (idx, mem)"
| "move_nodes old new i (Suc n) idx mem =
     (if \<not> vn_is_used (mem (Heap old i)) then move_nodes old new (Suc i) n idx mem
      else let p = Heap new idx;
               mem = mem(p := mem (Heap old i));
               mem = upd_opt (vn_prev (mem p)) (\<lambda>m. m\<lparr>vn_next := Some p\<rparr>) mem;
               mem = upd_opt (vn_next (mem p)) (\<lambda>m. m\<lparr>vn_prev := Some p\<rparr>) mem
           in move_nodes old new (Suc i) n (Suc idx) mem)"

fun clear_nodes :: "u64 \<Rightarrow> nat \<Rightarrow> nat \<Rightarrow> vmem \<Rightarrow> vmem" where
  "clear_nodes new idx 0 mem = mem"
| "clear_nodes new idx (Suc n) mem =
     clear_nodes new (Suc idx) n (upd_node (Heap new idx) (\<lambda>m. m\<lparr>vn_is_used := False\<rparr>) mem)"

definition update_node_ptrs :: "u64 \<Rightarrow> u64 \<Rightarrow> nat \<Rightarrow> nat \<Rightarrow> vmem \<Rightarrow> vmem" where
  "update_node_ptrs old new old_len new_len mem =
     (if old = 0 then mem
      else let (idx, mem) = move_nodes old new 0 old_len 0 mem
           in clear_nodes new idx (new_len - idx) mem)"

text \<open>\<^verbatim>\<open>sizeof(struct virt_addr_node)\<close>\<close>

definition sizeof_node :: u64 where "sizeof_node = 40"

text \<open>\<open>new_alloc\<close> is an \<^verbatim>\<open>int\<close>.\<close>

definition grow_nodes :: "kalloc_fun \<Rightarrow> kfree_fun \<Rightarrow> virt_ctx \<Rightarrow> vmem \<Rightarrow> (virt_ctx \<times> vmem) option" where
  "grow_nodes kalloc kfree ctx mem =
     (let ctx = ctx\<lparr>is_allocating := True\<rparr>;
          new_alloc = (ucast (alloc_node_count ctx * 2) :: u32);
          new_alloc = (if new_alloc <s 8 then 8 else new_alloc)
      in do {
        (new_nodes, ctx, mem) \<leftarrow> kalloc (sizeof_node * scast new_alloc) ctx mem;
        (if new_nodes = 0 then None
         else do {
           let mem = update_node_ptrs (alloc_nodes ctx) new_nodes
                       (unat (alloc_node_count ctx)) (unat new_alloc) mem;
           (ctx, mem) \<leftarrow> kfree (alloc_nodes ctx) ctx mem;
           Some (ctx\<lparr>alloc_nodes := new_nodes, alloc_node_count := scast new_alloc,
                     is_allocating := False\<rparr>, mem)
         })
      })"

text \<open>The search of \<^verbatim>\<open>get_node\<close> over the next \<open>n\<close> entries from \<open>idx\<close>; running out is a
  \<^verbatim>\<open>panic\<close>.\<close>

fun find_unused :: "virt_ctx \<Rightarrow> nat \<Rightarrow> nat \<Rightarrow> vmem \<Rightarrow> vptr option" where
  "find_unused ctx idx 0 mem = None"
| "find_unused ctx idx (Suc n) mem =
     (let p = get_node_idx ctx idx
      in if \<not> vn_is_used (mem p) then Some p else find_unused ctx (Suc idx) n mem)"

definition node_count :: "virt_ctx \<Rightarrow> u64" where
  "node_count ctx = of_nat BOOTSTRAP_VIRT_ALLOC_NODES + alloc_node_count ctx"

definition get_node :: "kalloc_fun \<Rightarrow> kfree_fun \<Rightarrow> virt_ctx \<Rightarrow> vmem \<Rightarrow> (vptr \<times> virt_ctx \<times> vmem) option" where
  "get_node kalloc kfree ctx mem = do {
     (ctx, mem) \<leftarrow> (if \<not> is_allocating ctx \<and> used_node_count ctx + 16 \<ge> node_count ctx
                    then grow_nodes kalloc kfree ctx mem else Some (ctx, mem));
     p \<leftarrow> find_unused ctx (unat (free_node_start ctx))
            (unat (node_count ctx) - unat (free_node_start ctx)) mem;
     Some (p, ctx\<lparr>used_node_count := used_node_count ctx + 1\<rparr>,
           upd_node p (\<lambda>m. m\<lparr>vn_is_used := True\<rparr>) mem)
   }"

definition free_node :: "virt_ctx \<Rightarrow> vptr \<Rightarrow> vmem \<Rightarrow> virt_ctx \<times> vmem" where
  "free_node ctx p mem =
     (ctx\<lparr>used_node_count := used_node_count ctx - 1\<rparr>, upd_node p (\<lambda>m. m\<lparr>vn_is_used := False\<rparr>) mem)"

section \<open>Merging\<close>

partial_function (option) merge_back_loop ::
  "vptr \<Rightarrow> vptr option \<Rightarrow> virt_ctx \<Rightarrow> vmem \<Rightarrow> (virt_ctx \<times> vmem) option" where
  "merge_back_loop node prev ctx mem =
     (if prev = None \<or> vn_is_alloc (mem (the prev)) then Some (ctx, mem)
      else
        let p = the prev;
            mem = upd_node node (\<lambda>m. m\<lparr>vn_start := vn_start (mem p), vn_prev := vn_prev (mem p)\<rparr>) mem;
            mem = upd_opt (vn_prev (mem node)) (\<lambda>m. m\<lparr>vn_next := Some node\<rparr>) mem;
            r = free_node ctx p mem
        in merge_back_loop node (vn_prev (snd r p)) (fst r) (snd r))"

definition merge_back :: "virt_ctx \<Rightarrow> vptr \<Rightarrow> vmem \<Rightarrow> (virt_ctx \<times> vmem) option" where
  "merge_back ctx node mem = do {
     (ctx, mem) \<leftarrow> merge_back_loop node (vn_prev (mem node)) ctx mem;
     Some (if vn_prev (mem node) = None then ctx\<lparr>start_node := Some node\<rparr> else ctx, mem)
   }"

partial_function (option) merge_forward ::
  "vptr \<Rightarrow> vptr option \<Rightarrow> virt_ctx \<Rightarrow> vmem \<Rightarrow> (virt_ctx \<times> vmem) option" where
  "merge_forward node nxt ctx mem =
     (if nxt = None \<or> vn_is_alloc (mem (the nxt)) then Some (ctx, mem)
      else
        let p = the nxt;
            mem = upd_node node (\<lambda>m. m\<lparr>vn_end := vn_end (mem p), vn_next := vn_next (mem p)\<rparr>) mem;
            mem = upd_opt (vn_next (mem node)) (\<lambda>m. m\<lparr>vn_prev := Some node\<rparr>) mem;
            r = free_node ctx p mem
        in merge_forward node (vn_next (snd r p)) (fst r) (snd r))"

section \<open>Operations\<close>

text \<open>\<^verbatim>\<open>long n_length = n_pages * PAGE_SIZE\<close>: the product is taken in \<^verbatim>\<open>int\<close>.\<close>

definition pages_length :: "u32 \<Rightarrow> u64" where
  "pages_length n_pages = scast (n_pages * 4096)"

partial_function (option) alloc_find :: "u64 \<Rightarrow> vptr option \<Rightarrow> vmem \<Rightarrow> u64 option" where
  "alloc_find n_length node mem =
     (if node = None then Some 0
      else let m = mem (the node)
           in if \<not> vn_is_alloc m \<and> \<not> (vn_end m - vn_start m <s n_length) then Some (vn_start m)
              else alloc_find n_length (vn_next m) mem)"

definition virtaddr_alloc :: "virt_ctx \<Rightarrow> u32 \<Rightarrow> vmem \<Rightarrow> u64 option" where
  "virtaddr_alloc ctx n_pages mem =
     (if n_pages <s 1 then Some 0 else alloc_find (pages_length n_pages) (start_node ctx) mem)"

partial_function (option) take_find :: "u64 \<Rightarrow> u64 \<Rightarrow> vptr option \<Rightarrow> vmem \<Rightarrow> vptr option option" where
  "take_find virt n_length node mem =
     (if node = None then Some None
      else let m = mem (the node)
           in if \<not> vn_is_alloc m \<and> \<not> (vn_start m > virt \<or> vn_end m < virt + n_length) then Some node
              else take_find virt n_length (vn_next m) mem)"

text \<open>The two halves of the body of \<^verbatim>\<open>virtaddr_take\<close> once a node is found.\<close>

definition take_left :: "kalloc_fun \<Rightarrow> kfree_fun \<Rightarrow> u64 \<Rightarrow> vptr \<Rightarrow> virt_ctx \<Rightarrow> vmem \<Rightarrow> (virt_ctx \<times> vmem) option" where
  "take_left kalloc kfree virt node ctx mem =
     (if vn_start (mem node) < virt then do {
        (left, ctx, mem) \<leftarrow> get_node kalloc kfree ctx mem;
        let mem = upd_node left (\<lambda>m. m\<lparr>vn_next := Some node, vn_prev := vn_prev (mem node),
                    vn_start := vn_start (mem node), vn_end := virt, vn_is_alloc := False\<rparr>) mem;
        let mem = upd_opt (vn_prev (mem node)) (\<lambda>m. m\<lparr>vn_next := Some left\<rparr>) mem;
        Some (ctx, upd_node node (\<lambda>m. m\<lparr>vn_prev := Some left\<rparr>) mem)
      } else Some (ctx, mem))"

definition take_right :: "kalloc_fun \<Rightarrow> kfree_fun \<Rightarrow> u64 \<Rightarrow> vptr \<Rightarrow> virt_ctx \<Rightarrow> vmem \<Rightarrow> (virt_ctx \<times> vmem) option" where
  "take_right kalloc kfree limit node ctx mem =
     (if vn_end (mem node) > limit then do {
        (right, ctx, mem) \<leftarrow> get_node kalloc kfree ctx mem;
        let mem = upd_node right (\<lambda>m. m\<lparr>vn_prev := Some node, vn_next := vn_next (mem node),
                    vn_start := limit, vn_end := vn_end (mem node), vn_is_alloc := False\<rparr>) mem;
        let mem = upd_opt (vn_next (mem node)) (\<lambda>m. m\<lparr>vn_prev := Some right\<rparr>) mem;
        Some (ctx, upd_node node (\<lambda>m. m\<lparr>vn_next := Some right\<rparr>) mem)
      } else Some (ctx, mem))"

definition virtaddr_take :: "kalloc_fun \<Rightarrow> kfree_fun \<Rightarrow> virt_ctx \<Rightarrow> u64 \<Rightarrow> u32 \<Rightarrow> vmem
    \<Rightarrow> (int \<times> virt_ctx \<times> vmem) option" where
  "virtaddr_take kalloc kfree ctx virt n_pages mem =
     (if n_pages <s 1 then Some (0, ctx, mem)
      else do {
        let n_length = pages_length n_pages;
        found \<leftarrow> take_find virt n_length (start_node ctx) mem;
        (case found of
           None \<Rightarrow> Some (1, ctx, mem)
         | Some node \<Rightarrow> do {
             (ctx, mem) \<leftarrow> take_left kalloc kfree virt node ctx mem;
             (ctx, mem) \<leftarrow> take_right kalloc kfree (virt + n_length) node ctx mem;
             Some (0, ctx, upd_node node (\<lambda>m. m\<lparr>vn_start := virt, vn_end := virt + n_length,
                                                vn_is_alloc := True\<rparr>) mem)
           })
      })"

partial_function (option) free_find :: "u64 \<Rightarrow> vptr option \<Rightarrow> vmem \<Rightarrow> vptr option option" where
  "free_find virt node mem =
     (if node = None then Some None
      else if vn_start (mem (the node)) = virt then Some node
      else free_find virt (vn_next (mem (the node))) mem)"

text \<open>\<^verbatim>\<open>length\<close> and \<^verbatim>\<open>pages\<close> are \<^verbatim>\<open>int\<close>s; the division rounds toward zero.\<close>

definition int_pages :: "u64 \<Rightarrow> int" where
  "int_pages nbytes =
     (let len = sint (ucast nbytes :: u32) in if len < 0 then - (- len div 4096) else len div 4096)"

definition virtaddr_free :: "virt_ctx \<Rightarrow> u64 \<Rightarrow> vmem \<Rightarrow> (int \<times> virt_ctx \<times> vmem) option" where
  "virtaddr_free ctx virt mem =
     (if virt = 0 then Some (-1, ctx, mem)
      else if virt mod PAGE_SIZE \<noteq> 0 then Some (-1, ctx, mem)
      else do {
        found \<leftarrow> free_find virt (start_node ctx) mem;
        (case found of
           None \<Rightarrow> Some (-1, ctx, mem)
         | Some node \<Rightarrow> do {
             let pages = int_pages (vn_end (mem node) - vn_start (mem node));
             let mem = upd_node node (\<lambda>m. m\<lparr>vn_is_alloc := False\<rparr>) mem;
             (ctx, mem) \<leftarrow> merge_back ctx node mem;
             (ctx, mem) \<leftarrow> merge_forward node (vn_next (mem node)) ctx mem;
             Some (pages, ctx, mem)
           })
      })"

definition zero_node :: virt_addr_node where
  "zero_node = \<lparr>vn_start = 0, vn_end = 0, vn_next = None, vn_prev = None,
     vn_is_alloc = False, vn_is_used = False\<rparr>"

definition init_node :: virt_addr_node where
  "init_node = \<lparr>vn_start = 0, vn_end = 0x1000000000000, vn_next = None, vn_prev = None,
     vn_is_alloc = False, vn_is_used = True\<rparr>"

text \<open>The context and the nodes after the assignments of \<^verbatim>\<open>virtaddr_init\<close>; \<^verbatim>\<open>memset\<close> of the
  context zeroes its own node array.\<close>

definition fresh_ctx :: "nat \<Rightarrow> virt_ctx" where
  "fresh_ctx i = \<lparr>ctx_id = i, alloc_nodes = 0, start_node = Some (Boot i 0), free_node_start = 0,
     alloc_node_count = 0, used_node_count = 0, is_allocating = False\<rparr>"

definition fresh_mem :: "nat \<Rightarrow> vmem \<Rightarrow> vmem" where
  "fresh_mem i mem = (\<lambda>p. case p of
       Boot c k \<Rightarrow> if c = i then (if k = 0 then init_node else zero_node) else mem p
     | Heap a k \<Rightarrow> mem p)"

text \<open>The byte count is passed as a page count, and narrowed to \<^verbatim>\<open>int\<close> on the way.\<close>

definition virtaddr_init :: "kalloc_fun \<Rightarrow> kfree_fun \<Rightarrow> u64 \<Rightarrow> virt_ctx \<Rightarrow> vmem \<Rightarrow> (virt_ctx \<times> vmem) option" where
  "virtaddr_init kalloc kfree kernel_end ctx mem = do {
     (r, ctx, mem) \<leftarrow> virtaddr_take kalloc kfree (fresh_ctx (ctx_id ctx)) 0
       (ucast ((kernel_end + PAGE_SIZE - 1) div PAGE_SIZE * PAGE_SIZE)) (fresh_mem (ctx_id ctx) mem);
     Some (ctx, mem)
   }"

text \<open>The loop over the bootstrap nodes of \<^verbatim>\<open>virtaddr_clone\<close>.\<close>

fun relink_bootstrap :: "nat \<Rightarrow> nat \<Rightarrow> nat \<Rightarrow> vmem \<Rightarrow> vmem" where
  "relink_bootstrap c i 0 mem = mem"
| "relink_bootstrap c i (Suc n) mem =
     (if i \<ge> BOOTSTRAP_VIRT_ALLOC_NODES then mem
      else let prv = (if i > 0 then Some (Boot c (i - 1)) else None);
               nxt = (if i < BOOTSTRAP_VIRT_ALLOC_NODES - 1 then Some (Boot c (i + 1)) else None)
           in relink_bootstrap c (Suc i) n
                (upd_node (Boot c i) (\<lambda>m. m\<lparr>vn_prev := prv, vn_next := nxt\<rparr>) mem))"

text \<open>\<open>kalloc\<close> here allocates for the kernel, and does not change the contexts at hand.\<close>

definition virtaddr_clone :: "kalloc_fun \<Rightarrow> virt_ctx \<Rightarrow> nat \<Rightarrow> vmem \<Rightarrow> (int \<times> virt_ctx \<times> vmem) option" where
  "virtaddr_clone kalloc old new_id mem =
     (let new = old\<lparr>ctx_id := new_id\<rparr>;
          mem = (\<lambda>p. case p of
                       Boot c k \<Rightarrow> if c = new_id \<and> k < BOOTSTRAP_VIRT_ALLOC_NODES
                                   then mem (Boot (ctx_id old) k) else mem p
                     | Heap a k \<Rightarrow> mem p)
      in do {
        (a, _, mem) \<leftarrow> kalloc (sizeof_node * alloc_node_count new) new mem;
        let new = new\<lparr>alloc_nodes := a\<rparr>;
        (if a = 0 then Some (1, new, mem)
         else let mem = update_node_ptrs (alloc_nodes old) a (unat (alloc_node_count old))
                          (unat (alloc_node_count new)) mem;
                  mem = relink_bootstrap new_id 0 (unat (used_node_count new)) mem
              in Some (0, new\<lparr>start_node := Some (Boot new_id 0)\<rparr>, mem))
      })"

definition virtaddr_cleanup :: "kfree_fun \<Rightarrow> virt_ctx \<Rightarrow> vmem \<Rightarrow> (virt_ctx \<times> vmem) option" where
  "virtaddr_cleanup kfree ctx mem = kfree (alloc_nodes ctx) ctx mem"


declare merge_back_loop.simps [code] merge_forward.simps [code] alloc_find.simps [code]
  take_find.simps [code] free_find.simps [code]

section \<open>Doubly linked lists\<close>

definition first :: "'a list \<Rightarrow> 'a option \<Rightarrow> 'a option" where
  "first xs q = (case xs of [] \<Rightarrow> q | x # _ \<Rightarrow> Some x)"

definition final :: "'a option \<Rightarrow> 'a list \<Rightarrow> 'a option" where
  "final q xs = (if xs = [] then q else Some (last xs))"

lemma first_simps [simp]: "first [] q = q" "first (x # xs) q = Some x"
  by (simp_all add: first_def)

lemma first_append [simp]: "first (xs @ ys) q = first xs (first ys q)"
  by (cases xs) simp_all

lemma final_simps [simp]: "final q [] = q" "final q (x # xs) = final (Some x) xs"
  by (simp_all add: final_def)

lemma final_append [simp]: "final q (xs @ ys) = final (final q xs) ys"
  by (induction xs arbitrary: q) simp_all

lemma final_in: "xs \<noteq> [] \<Longrightarrow> \<exists>x\<in>set xs. final q xs = Some x"
  by (simp add: final_def)

lemma first_Some: "first xs None = Some q \<Longrightarrow> q \<in> set xs"
  by (cases xs) simp_all

lemma first_in: "xs \<noteq> [] \<Longrightarrow> \<exists>x\<in>set xs. first xs q = Some x"
  by (cases xs) simp_all

text \<open>\<open>linked mem prv xs nxt\<close>: the nodes \<open>xs\<close> are linked in both directions, from \<open>prv\<close> on the
  left to \<open>nxt\<close> on the right.\<close>

primrec linked :: "vmem \<Rightarrow> vptr option \<Rightarrow> vptr list \<Rightarrow> vptr option \<Rightarrow> bool" where
  "linked mem prv [] nxt \<longleftrightarrow> True"
| "linked mem prv (x # xs) nxt \<longleftrightarrow>
     vn_prev (mem x) = prv \<and> vn_next (mem x) = first xs nxt \<and> linked mem (Some x) xs nxt"

lemma linked_append [chain_simps]:
  "linked mem prv (xs @ ys) nxt \<longleftrightarrow>
     linked mem prv xs (first ys nxt) \<and> linked mem (final prv xs) ys nxt"
  by (induction xs arbitrary: prv) auto

lemma linked_cong:
  "(\<And>x. x \<in> set xs \<Longrightarrow> vn_prev (mem' x) = vn_prev (mem x) \<and> vn_next (mem' x) = vn_next (mem x)) \<Longrightarrow>
    linked mem' prv xs nxt = linked mem prv xs nxt"
  by (induction xs arbitrary: prv) auto

lemma linked_upd [chain_simps]: "x \<notin> set xs \<Longrightarrow> linked (mem(x := m)) prv xs nxt = linked mem prv xs nxt"
  by (rule linked_cong) auto

text \<open>Redirecting the last link forward, or the first link backward.\<close>

lemma linked_final:
  assumes "linked mem prv xs nxt" "distinct xs"
  shows "linked (upd_opt (final None xs) (\<lambda>m. m\<lparr>vn_next := nxt'\<rparr>) mem) prv xs nxt'"
proof (cases xs rule: rev_cases)
  case (snoc ys y)
  then show ?thesis using assms by (simp add: upd_opt_def chain_simps)
qed (simp add: upd_opt_def)

lemma linked_first:
  assumes "linked mem prv xs nxt" "distinct xs"
  shows "linked (upd_opt (first xs None) (\<lambda>m. m\<lparr>vn_prev := prv'\<rparr>) mem) prv' xs nxt"
  using assms by (cases xs) (auto simp: upd_opt_def chain_simps)

lemma linked_upd_opt: "set_option p \<inter> set xs = {} \<Longrightarrow> linked (upd_opt p f mem) prv xs nxt = linked mem prv xs nxt"
  by (cases p) (auto simp: upd_opt_def chain_simps)

section \<open>Representation\<close>

type_synonym range = "u64 \<times> u64 \<times> bool"

definition range_of :: "virt_addr_node \<Rightarrow> range" where
  "range_of m = (vn_start m, vn_end m, vn_is_alloc m)"

lemma range_of_links [simp]:
  "range_of (m\<lparr>vn_next := q\<rparr>) = range_of m" "range_of (m\<lparr>vn_prev := q\<rparr>) = range_of m"
  "range_of (m\<lparr>vn_is_used := b\<rparr>) = range_of m"
  by (simp_all add: range_of_def)

definition ranges :: "vmem \<Rightarrow> vptr list \<Rightarrow> range list" where
  "ranges mem ps = map (\<lambda>p. range_of (mem p)) ps"

lemma ranges_simps [simp]:
  "ranges mem [] = []" "ranges mem (p # ps) = range_of (mem p) # ranges mem ps"
  "ranges mem (ps @ qs) = ranges mem ps @ ranges mem qs"
  by (simp_all add: ranges_def)

lemma ranges_cong: "(\<And>p. p \<in> set ps \<Longrightarrow> range_of (mem' p) = range_of (mem p)) \<Longrightarrow> ranges mem' ps = ranges mem ps"
  by (simp add: ranges_def)

lemma ranges_upd [simp]: "p \<notin> set ps \<Longrightarrow> ranges (mem(p := m)) ps = ranges mem ps"
  by (rule ranges_cong) auto

definition vnodes :: "virt_ctx \<Rightarrow> vptr set" where
  "vnodes ctx = get_node_idx ctx ` {..<unat (node_count ctx)}"

lemma inj_get_node_idx: "inj (get_node_idx ctx)"
  by (auto simp: inj_def get_node_idx_def split: if_splits)

lemma card_vnodes: "card (vnodes ctx) = unat (node_count ctx)"
  by (simp add: vnodes_def card_image inj_on_subset [OF inj_get_node_idx])

text \<open>The list of a context is \<open>ps\<close>: exactly the nodes in use, linked both ways. The counter
  starts at 0 with one node already in use, so it is one behind.\<close>

definition vrep :: "virt_ctx \<Rightarrow> vmem \<Rightarrow> vptr list \<Rightarrow> bool" where
  "vrep ctx mem ps \<longleftrightarrow>
     ps \<noteq> [] \<and> start_node ctx = Some (hd ps) \<and> linked mem None ps None \<and> distinct ps \<and>
     set ps = {p \<in> vnodes ctx. vn_is_used (mem p)} \<and>
     length ps = unat (used_node_count ctx) + 1 \<and> free_node_start ctx = 0"

text \<open>\<open>k\<close> more nodes can be taken without growing the array.\<close>

definition room :: "nat \<Rightarrow> virt_ctx \<Rightarrow> bool" where
  "room k ctx \<longleftrightarrow> unat (used_node_count ctx) + 16 + k \<le> unat (node_count ctx) \<and> unat (node_count ctx) < 2 ^ 63"

lemma find_unused_some:
  "(\<exists>i<n. \<not> vn_is_used (mem (get_node_idx ctx (idx + i)))) \<Longrightarrow>
    \<exists>i<n. find_unused ctx idx n mem = Some (get_node_idx ctx (idx + i)) \<and>
          \<not> vn_is_used (mem (get_node_idx ctx (idx + i)))"
proof (induction n arbitrary: idx)
  case (Suc n)
  show ?case
  proof (cases "vn_is_used (mem (get_node_idx ctx idx))")
    case True
    obtain i where i: "i < Suc n" "\<not> vn_is_used (mem (get_node_idx ctx (idx + i)))" using Suc.prems by blast
    then obtain k where "i = Suc k" using True by (cases i) auto
    then have "\<exists>i<n. \<not> vn_is_used (mem (get_node_idx ctx (Suc idx + i)))" using i by auto
    from Suc.IH [OF this] obtain j where "j < n"
      "find_unused ctx (Suc idx) n mem = Some (get_node_idx ctx (Suc idx + j))"
      "\<not> vn_is_used (mem (get_node_idx ctx (Suc idx + j)))" by blast
    then show ?thesis using True by (intro exI [of _ "Suc j"]) simp
  qed (auto intro!: exI [of _ 0])
qed simp

lemma get_node_room:
  assumes rep: "vrep ctx mem ps" and room: "room (Suc k) ctx"
  obtains p where "get_node kalloc kfree ctx mem =
      Some (p, ctx\<lparr>used_node_count := used_node_count ctx + 1\<rparr>, upd_node p (\<lambda>m. m\<lparr>vn_is_used := True\<rparr>) mem)"
    "p \<in> vnodes ctx" "p \<notin> set ps"
    "room k (ctx\<lparr>used_node_count := used_node_count ctx + 1\<rparr>)"
    "unat (used_node_count ctx + 1) = unat (used_node_count ctx) + 1"
proof -
  have u: "unat (used_node_count ctx + 16) = unat (used_node_count ctx) + 16"
    "unat (used_node_count ctx + 1) = unat (used_node_count ctx) + 1"
    using room by (auto simp: room_def unat_word_ariths)
  then have no_grow: "\<not> node_count ctx \<le> used_node_count ctx + 16"
    using room by (simp add: room_def word_le_nat_alt)
  have "card (set ps) = unat (used_node_count ctx) + 1"
    using rep distinct_card [of ps] by (simp only: vrep_def)
  then have "card (set ps) < card (vnodes ctx)"
    using room by (simp add: card_vnodes room_def)
  then obtain q where "q \<in> vnodes ctx" "q \<notin> set ps"
    using card_mono [of "set ps" "vnodes ctx"] by fastforce
  then have "\<exists>i < unat (node_count ctx). \<not> vn_is_used (mem (get_node_idx ctx (0 + i)))"
    using rep by (auto simp: vrep_def vnodes_def)
  from find_unused_some [OF this] obtain i where i: "i < unat (node_count ctx)"
      "find_unused ctx 0 (unat (node_count ctx)) mem = Some (get_node_idx ctx i)"
      "\<not> vn_is_used (mem (get_node_idx ctx i))" by auto
  show thesis
  proof (rule that [of "get_node_idx ctx i"])
    show "get_node_idx ctx i \<in> vnodes ctx" using i by (simp add: vnodes_def)
    show "get_node_idx ctx i \<notin> set ps" using i rep by (auto simp: vrep_def)
    show "room k (ctx\<lparr>used_node_count := used_node_count ctx + 1\<rparr>)"
      using room u by (simp add: room_def node_count_def)
  qed (use no_grow i rep u in \<open>auto simp: get_node_def vrep_def\<close>)
qed


lemma vnodes_used [simp]: "vnodes (ctx\<lparr>used_node_count := u\<rparr>) = vnodes ctx"
  by (simp add: vnodes_def node_count_def get_node_idx_def)

lemma vnodes_start [simp]: "vnodes (ctx\<lparr>start_node := q\<rparr>) = vnodes ctx"
  by (simp add: vnodes_def node_count_def get_node_idx_def)

text \<open>Two nodes become neighbours of a new one.\<close>

lemma linked_insert:
  assumes "linked mem None (A @ B) None" "distinct (A @ B)" "p \<notin> set (A @ B)"
    and "vn_next m = first B None" "vn_prev m = final None A"
  shows "linked (upd_opt (final None A) (\<lambda>m. m\<lparr>vn_next := Some p\<rparr>)
      (upd_opt (first B None) (\<lambda>m. m\<lparr>vn_prev := Some p\<rparr>) (mem(p := m)))) None (A @ p # B) None"
proof -
  let ?mem1 = "upd_opt (first B None) (\<lambda>m. m\<lparr>vn_prev := Some p\<rparr>) (mem(p := m))"
  let ?mem2 = "upd_opt (final None A) (\<lambda>m. m\<lparr>vn_next := Some p\<rparr>) ?mem1"
  have A: "linked mem None A (first B None)" and B: "linked mem (final None A) B None"
    using assms(1) by (simp_all add: chain_simps)
  have fA: "set_option (final None A) \<subseteq> set A" and fB: "set_option (first B None) \<subseteq> set B"
    by (auto simp: final_def first_def split: list.splits)
  have pA: "p \<notin> set A" and pB: "p \<notin> set B" and AB: "set A \<inter> set B = {}" using assms(2,3) by auto
  have "linked (mem(p := m)) (final None A) B None" using B pB by (simp add: chain_simps)
  then have "linked ?mem1 (Some p) B None" by (rule linked_first) (use assms(2) in simp)
  moreover have "linked ?mem2 (Some p) B None = linked ?mem1 (Some p) B None"
    by (rule linked_upd_opt) (use fA AB in blast)
  moreover have "linked ?mem1 None A (first B None) = linked (mem(p := m)) None A (first B None)"
    by (rule linked_upd_opt) (use fB AB in blast)
  then have "linked ?mem1 None A (first B None)" using A pA by (simp add: chain_simps)
  then have "linked ?mem2 None A (Some p)" by (rule linked_final) (use assms(2) in simp)
  moreover have "?mem2 p = m"
    using fA fB pA pB by (auto simp: upd_opt_def split: option.splits)
  ultimately show ?thesis using assms(4,5) by (simp add: chain_simps)
qed

lemma upd_opt_range: "(\<And>m. range_of (f m) = range_of m) \<Longrightarrow> range_of (upd_opt q f mem p) = range_of (mem p)"
  by (simp add: upd_opt_def split: option.splits)

lemma upd_opt_used: "(\<And>m. vn_is_used (f m) = vn_is_used m) \<Longrightarrow> vn_is_used (upd_opt q f mem p) = vn_is_used (mem p)"
  by (simp add: upd_opt_def split: option.splits)

text \<open>What linking a fresh node into the list gives.\<close>

lemma vrep_insert:
  assumes rep: "vrep ctx mem (A @ B)" and p: "p \<in> vnodes ctx" "p \<notin> set (A @ B)" and A: "A \<noteq> []"
    and u: "unat (used_node_count ctx + 1) = unat (used_node_count ctx) + 1"
    and m: "vn_next m = first B None" "vn_prev m = final None A" "vn_is_used m"
    and mem': "mem' = upd_opt (final None A) (\<lambda>m. m\<lparr>vn_next := Some p\<rparr>)
      (upd_opt (first B None) (\<lambda>m. m\<lparr>vn_prev := Some p\<rparr>) (mem(p := m)))"
  shows "vrep (ctx\<lparr>used_node_count := used_node_count ctx + 1\<rparr>) mem' (A @ p # B) \<and>
    (\<forall>q. range_of (mem' q) = range_of ((mem(p := m)) q))"
proof -
  have rng: "range_of (mem' q) = range_of ((mem(p := m)) q)" for q
    unfolding mem' by (simp add: upd_opt_range)
  have used: "vn_is_used (mem' q) = vn_is_used ((mem(p := m)) q)" for q
    unfolding mem' by (simp add: upd_opt_used)
  have "linked mem' None (A @ p # B) None"
    unfolding mem' by (rule linked_insert) (use rep p m in \<open>auto simp: vrep_def\<close>)
  moreover have "set (A @ p # B) = {q \<in> vnodes ctx. vn_is_used (mem' q)}"
  proof -
    have "set (A @ B) = {q \<in> vnodes ctx. vn_is_used (mem q)}" using rep by (simp add: vrep_def)
    moreover have "set (A @ p # B) = insert p (set (A @ B))" by auto
    ultimately show ?thesis using p m(3) by (auto simp: used)
  qed
  ultimately show ?thesis using rep p u A rng by (auto simp: vrep_def)
qed

lemma take_left_spec:
  assumes rep: "vrep ctx mem (A @ node # B)" and A: "A \<noteq> []" and room: "room (Suc k) ctx"
  obtains ctx' mem' L where "take_left kalloc kfree virt node ctx mem = Some (ctx', mem')"
    "vrep ctx' mem' (A @ L @ node # B)" "room k ctx'"
    "ranges mem' A = ranges mem A" "ranges mem' (node # B) = ranges mem (node # B)"
    "ranges mem' L = (if vn_start (mem node) < virt then [(vn_start (mem node), virt, False)] else [])"
proof (cases "vn_start (mem node) < virt")
  case False
  then show thesis using rep room by (intro that [of ctx mem "[]"]) (auto simp: take_left_def room_def)
next
  case True
  obtain p where p: "get_node kalloc kfree ctx mem =
      Some (p, ctx\<lparr>used_node_count := used_node_count ctx + 1\<rparr>, upd_node p (\<lambda>m. m\<lparr>vn_is_used := True\<rparr>) mem)"
      "p \<in> vnodes ctx" "p \<notin> set (A @ node # B)" "room k (ctx\<lparr>used_node_count := used_node_count ctx + 1\<rparr>)"
      "unat (used_node_count ctx + 1) = unat (used_node_count ctx) + 1"
    by (rule get_node_room [OF rep room])
  define m where "m = (mem p)\<lparr>vn_is_used := True, vn_next := Some node, vn_prev := vn_prev (mem node),
                    vn_start := vn_start (mem node), vn_end := virt, vn_is_alloc := False\<rparr>"
  have prev: "vn_prev (mem node) = final None A" using rep by (simp add: vrep_def chain_simps)
  obtain q where q: "final None A = Some q" "q \<in> set A" using final_in [OF A] by blast
  define mem' where "mem' = upd_opt (final None A) (\<lambda>m. m\<lparr>vn_next := Some p\<rparr>)
      (upd_opt (first (node # B) None) (\<lambda>m. m\<lparr>vn_prev := Some p\<rparr>) (mem(p := m)))"
  have "node \<noteq> p" "q \<noteq> p" "q \<noteq> node" using p(3) q(2) rep by (auto simp: vrep_def)
  then have eq: "take_left kalloc kfree virt node ctx mem =
      Some (ctx\<lparr>used_node_count := used_node_count ctx + 1\<rparr>, mem')"
    using True p(1) by (simp add: take_left_def mem'_def m_def prev q upd_opt_def fun_upd_twist)
  have "vrep (ctx\<lparr>used_node_count := used_node_count ctx + 1\<rparr>) mem' (A @ p # node # B) \<and>
    (\<forall>q. range_of (mem' q) = range_of ((mem(p := m)) q))"
    by (rule vrep_insert [OF rep p(2,3) A p(5) _ _ _ mem'_def]) (simp_all add: m_def prev)
  then show thesis
    using eq p True by (intro that [of _ mem' "[p]"])
      (auto simp: m_def range_of_def intro!: ranges_cong)
qed


lemma take_right_spec:
  assumes rep: "vrep ctx mem (A @ node # B)" and room: "room (Suc k) ctx"
  obtains ctx' mem' R where "take_right kalloc kfree limit node ctx mem = Some (ctx', mem')"
    "vrep ctx' mem' (A @ node # R @ B)"
    "ranges mem' (A @ [node]) = ranges mem (A @ [node])" "ranges mem' B = ranges mem B"
    "ranges mem' R = (if limit < vn_end (mem node) then [(limit, vn_end (mem node), False)] else [])"
proof (cases "limit < vn_end (mem node)")
  case False
  then show thesis using rep by (intro that [of ctx mem "[]"]) (auto simp: take_right_def)
next
  case True
  have rep': "vrep ctx mem ((A @ [node]) @ B)" using rep by simp
  obtain p where p: "get_node kalloc kfree ctx mem =
      Some (p, ctx\<lparr>used_node_count := used_node_count ctx + 1\<rparr>, upd_node p (\<lambda>m. m\<lparr>vn_is_used := True\<rparr>) mem)"
      "p \<in> vnodes ctx" "p \<notin> set ((A @ [node]) @ B)"
      "unat (used_node_count ctx + 1) = unat (used_node_count ctx) + 1"
    by (rule get_node_room [OF rep' room])
  define m where "m = (mem p)\<lparr>vn_is_used := True, vn_prev := Some node, vn_next := vn_next (mem node),
                    vn_start := limit, vn_end := vn_end (mem node), vn_is_alloc := False\<rparr>"
  have nxt: "vn_next (mem node) = first B None" using rep by (simp add: vrep_def chain_simps)
  define mem' where "mem' = upd_opt (final None (A @ [node])) (\<lambda>m. m\<lparr>vn_next := Some p\<rparr>)
      (upd_opt (first B None) (\<lambda>m. m\<lparr>vn_prev := Some p\<rparr>) (mem(p := m)))"
  have np: "node \<noteq> p" using p(3) by auto
  have "q \<noteq> p \<and> q \<noteq> node" if "first B None = Some q" for q
    using that p(3) rep by (cases B) (auto simp: vrep_def)
  then have eq: "take_right kalloc kfree limit node ctx mem =
      Some (ctx\<lparr>used_node_count := used_node_count ctx + 1\<rparr>, mem')"
    using True p(1) np
    by (auto simp: take_right_def mem'_def m_def nxt upd_opt_def fun_upd_twist split: option.splits)
  have "vrep (ctx\<lparr>used_node_count := used_node_count ctx + 1\<rparr>) mem' ((A @ [node]) @ p # B) \<and>
    (\<forall>q. range_of (mem' q) = range_of ((mem(p := m)) q))"
    by (rule vrep_insert [OF rep' p(2,3) _ p(4) _ _ _ mem'_def]) (simp_all add: m_def nxt)
  then show thesis
    using eq p True by (intro that [of _ mem' "[p]"])
      (auto simp: m_def range_of_def intro!: ranges_cong)
qed

section \<open>Specification\<close>

text \<open>The ranges tile the addresses from \<open>a\<close> to \<open>b\<close>; no two free ranges are neighbours.\<close>

fun tiles :: "u64 \<Rightarrow> range list \<Rightarrow> u64 \<Rightarrow> bool" where
  "tiles a [] b \<longleftrightarrow> a = b"
| "tiles a ((s, e, al) # rs) b \<longleftrightarrow> s = a \<and> s < e \<and> tiles e rs b"

fun coalesced :: "range list \<Rightarrow> bool" where
  "coalesced ((s, e, al) # (s', e', al') # rs) \<longleftrightarrow> (al \<or> al') \<and> coalesced ((s', e', al') # rs)"
| "coalesced rs \<longleftrightarrow> True"

definition fits :: "u64 \<Rightarrow> u64 \<Rightarrow> range \<Rightarrow> bool" where
  "fits v len = (\<lambda>(s, e, al). \<not> al \<and> s \<le> v \<and> v + len \<le> e)"

definition carve :: "u64 \<Rightarrow> u64 \<Rightarrow> range \<Rightarrow> range list" where
  "carve v len = (\<lambda>(s, e, al). (if s < v then [(s, v, False)] else []) @ [(v, v + len, True)] @
     (if v + len < e then [(v + len, e, False)] else []))"

fun take_spec :: "u64 \<Rightarrow> u64 \<Rightarrow> range list \<Rightarrow> range list option" where
  "take_spec v len [] = None"
| "take_spec v len (r # rs) =
     (if fits v len r then Some (carve v len r @ rs)
      else map_option (\<lambda>rs'. r # rs') (take_spec v len rs))"

lemma take_find_spec:
  assumes "linked mem prv ps None"
  shows "take_find v len (first ps None) mem =
    Some (find (\<lambda>p. fits v len (range_of (mem p))) ps)"
  using assms
proof (induction ps arbitrary: prv)
  case Nil
  then show ?case by (simp add: take_find.simps)
next
  case (Cons p ps)
  then have "take_find v len (vn_next (mem p)) mem = Some (find (\<lambda>p. fits v len (range_of (mem p))) ps)" by auto
  then show ?case by (simp add: take_find.simps [of _ _ "Some p"] Let_def fits_def range_of_def not_less)
qed

lemma find_split:
  "find P xs = Some x \<Longrightarrow> \<exists>A B. xs = A @ x # B \<and> P x \<and> (\<forall>a\<in>set A. \<not> P a)"
  by (metis find_Some_iff append_Cons append_Nil in_set_conv_nth id_take_nth_drop length_take min.absorb4 nth_take)

lemma take_spec_append:
  "\<forall>r\<in>set A. \<not> fits v len r \<Longrightarrow> fits v len r \<Longrightarrow>
    take_spec v len (A @ r # B) = Some (A @ carve v len r @ B)"
  by (induction A) auto

lemma take_spec_None: "\<forall>r\<in>set A. \<not> fits v len r \<Longrightarrow> take_spec v len A = None"
  by (induction A) auto


section \<open>Taking\<close>

lemma sless_1_small: "0 < (n :: u32) \<Longrightarrow> unat n < 2 ^ 31 \<Longrightarrow> \<not> n <s 1"
  using sless_nonneg [of n 1] by (simp add: word_less_nat_alt)

lemma pages_length_small:
  assumes "unat (n :: u32) < 2 ^ 19"
  shows "pages_length n = of_nat (unat n * 4096)"
proof -
  have "unat (n * 4096) = unat n * 4096" using assms by (simp add: unat_word_ariths)
  then show ?thesis using assms scast_int_nonneg [of "n * 4096"] by (simp add: pages_length_def)
qed

lemma vrep_range_cong:
  assumes "vrep ctx mem ps" "\<And>q. vn_next (mem' q) = vn_next (mem q)" "\<And>q. vn_prev (mem' q) = vn_prev (mem q)"
    "\<And>q. vn_is_used (mem' q) = vn_is_used (mem q)"
  shows "vrep ctx mem' ps"
  using assms linked_cong [of ps mem' mem None None] by (simp add: vrep_def)

lemma find_range:
  assumes "\<forall>q\<in>set A. \<not> P (range_of (mem q))"
  shows "\<forall>r\<in>set (ranges mem A). \<not> P r"
  using assms by (auto simp: ranges_def)

lemma virtaddr_take_found:
  assumes rep: "vrep ctx mem (A @ node # B)" and room: "room 2 ctx" and A: "A \<noteq> []"
  obtains ctx' mem' ps' where
    "do { (ctx, mem) \<leftarrow> take_left kalloc kfree virt node ctx mem;
          (ctx, mem) \<leftarrow> take_right kalloc kfree (virt + len) node ctx mem;
          Some (0 :: int, ctx, upd_node node (\<lambda>m. m\<lparr>vn_start := virt, vn_end := virt + len,
                                                vn_is_alloc := True\<rparr>) mem) } = Some (0, ctx', mem')"
    "vrep ctx' mem' ps'" "range_of (mem' (hd ps')) = range_of (mem (hd A))"
    "ranges mem' ps' = ranges mem A @ carve virt len (range_of (mem node)) @ ranges mem B"
proof -
  obtain ctx1 mem1 L where left: "take_left kalloc kfree virt node ctx mem = Some (ctx1, mem1)"
      "vrep ctx1 mem1 (A @ L @ node # B)" "room (Suc 0) ctx1"
      "ranges mem1 A = ranges mem A" "ranges mem1 (node # B) = ranges mem (node # B)"
      "ranges mem1 L = (if vn_start (mem node) < virt then [(vn_start (mem node), virt, False)] else [])"
    by (rule take_left_spec [OF rep A, of 1]) (use room in \<open>auto simp: numeral_2_eq_2\<close>)
  have rep1: "vrep ctx1 mem1 ((A @ L) @ node # B)" using left(2) by simp
  obtain ctx2 mem2 R where right: "take_right kalloc kfree (virt + len) node ctx1 mem1 = Some (ctx2, mem2)"
      "vrep ctx2 mem2 ((A @ L) @ node # R @ B)"
      "ranges mem2 ((A @ L) @ [node]) = ranges mem1 ((A @ L) @ [node])" "ranges mem2 B = ranges mem1 B"
      "ranges mem2 R = (if virt + len < vn_end (mem1 node) then [(virt + len, vn_end (mem1 node), False)] else [])"
    by (rule take_right_spec [OF rep1 left(3)])
  define mem3 where "mem3 = upd_node node (\<lambda>m. m\<lparr>vn_start := virt, vn_end := virt + len, vn_is_alloc := True\<rparr>) mem2"
  have rep3: "vrep ctx2 mem3 (A @ L @ node # R @ B)"
    by (rule vrep_range_cong [of _ mem2]) (use right(2) in \<open>auto simp: mem3_def\<close>)
  then have "distinct (A @ L @ node # R @ B)" by (simp add: vrep_def)
  then have "ranges mem3 (A @ L @ node # R @ B) = ranges mem A @ carve virt len (range_of (mem node)) @ ranges mem B"
    using left(4-) right(3-) by (auto simp: mem3_def carve_def range_of_def)
  moreover have "range_of (mem3 (hd (A @ L @ node # R @ B))) = range_of (mem (hd A))"
  proof -
    have "hd A \<noteq> node" using A rep by (auto simp: vrep_def)
    moreover have "range_of (mem2 (hd A)) = range_of (mem (hd A))"
      using left(4) right(3) A by (cases A) auto
    ultimately show ?thesis using A by (simp add: mem3_def)
  qed
  ultimately show thesis
    using left(1) right(1) rep3 by (intro that [of ctx2 mem3 "A @ L @ node # R @ B"]) (simp_all add: mem3_def)
qed

text \<open>The invariant of a context: its list of nodes represents \<open>rs\<close>, ranges that tile the 48-bit
  address space, of which the first is taken and no two free ones are neighbours.\<close>

definition ranges_ok :: "range list \<Rightarrow> bool" where
  "ranges_ok rs \<longleftrightarrow> tiles 0 rs 0x1000000000000 \<and> coalesced rs \<and> rs \<noteq> [] \<and> snd (snd (hd rs))"

definition virt_inv :: "virt_ctx \<Rightarrow> vmem \<Rightarrow> range list \<Rightarrow> bool" where
  "virt_inv ctx mem rs \<longleftrightarrow> ranges_ok rs \<and> (\<exists>ps. vrep ctx mem ps \<and> ranges mem ps = rs)"

lemma virtaddr_take_spec:
  assumes rep: "vrep ctx mem ps" and room: "room 2 ctx" and n: "0 < n" "unat n < 2 ^ 19"
    and head: "vn_is_alloc (mem (hd ps))"
  shows "\<exists>r ctx' mem' ps'. virtaddr_take kalloc kfree ctx virt n mem = Some (r, ctx', mem') \<and>
    vrep ctx' mem' ps' \<and>
    (case take_spec virt (of_nat (unat n * 4096)) (ranges mem ps) of
       None \<Rightarrow> r = 1 \<and> ctx' = ctx \<and> mem' = mem \<and> ps' = ps
     | Some rs \<Rightarrow> r = 0 \<and> ranges mem' ps' = rs)"
proof -
  define len :: u64 where "len = of_nat (unat n * 4096)"
  have len: "pages_length n = len" "\<not> n <s 1"
    using pages_length_small [OF n(2)] sless_1_small [OF n(1)] n(2) by (auto simp: len_def)
  have start: "start_node ctx = first ps None"
    using rep by (cases ps) (auto simp: vrep_def)
  have find: "take_find virt len (start_node ctx) mem = Some (find (\<lambda>p. fits virt len (range_of (mem p))) ps)"
    unfolding start by (rule take_find_spec [of _ None]) (use rep in \<open>simp add: vrep_def\<close>)
  show ?thesis
  proof (cases "find (\<lambda>p. fits virt len (range_of (mem p))) ps")
    case None
    then have none: "take_spec virt len (ranges mem ps) = None"
      by (intro take_spec_None find_range) (simp add: find_None_iff)
    have "virtaddr_take kalloc kfree ctx virt n mem = Some (1, ctx, mem)"
      using None find len by (simp add: virtaddr_take_def Let_def)
    then show ?thesis
      using rep unfolding len_def [symmetric] none
      by (intro exI [of _ 1] exI [of _ ctx] exI [of _ mem] exI [of _ ps]) (simp only: option.case simp_thms)
  next
    case (Some node)
    then obtain A B where ps: "ps = A @ node # B" "fits virt len (range_of (mem node))"
        "\<forall>a\<in>set A. \<not> fits virt len (range_of (mem a))"
      using find_split [OF Some] by blast
    have A: "A \<noteq> []" using head ps by (cases A) (auto simp: fits_def range_of_def)
    obtain ctx' mem' ps' where take:
      "do { (ctx, mem) \<leftarrow> take_left kalloc kfree virt node ctx mem;
            (ctx, mem) \<leftarrow> take_right kalloc kfree (virt + len) node ctx mem;
            Some (0 :: int, ctx, upd_node node (\<lambda>m. m\<lparr>vn_start := virt, vn_end := virt + len,
                                                  vn_is_alloc := True\<rparr>) mem) } = Some (0, ctx', mem')"
      "vrep ctx' mem' ps'"
      "ranges mem' ps' = ranges mem A @ carve virt len (range_of (mem node)) @ ranges mem B"
      by (rule virtaddr_take_found [OF rep [unfolded ps(1)] room A])
    have "take_spec virt len (ranges mem ps) = Some (ranges mem A @ carve virt len (range_of (mem node)) @ ranges mem B)"
      using take_spec_append [OF find_range [OF ps(3)] ps(2)] ps(1) by simp
    moreover have "virtaddr_take kalloc kfree ctx virt n mem = Some (0, ctx', mem')"
      using find Some len take(1) by (simp add: virtaddr_take_def Let_def)
    ultimately show ?thesis using take(2,3) unfolding len_def [symmetric] by fastforce
  qed
qed

section \<open>Properties of the specification\<close>

lemma tiles_append: "tiles a (xs @ ys) b \<longleftrightarrow> (\<exists>c. tiles a xs c \<and> tiles c ys b)"
  by (induction a xs b rule: tiles.induct) auto

lemma tiles_mono: "tiles a rs b \<Longrightarrow> a \<le> b"
  by (induction a rs b rule: tiles.induct) auto

lemma tiles_pos: "tiles a xs b \<Longrightarrow> xs \<noteq> [] \<Longrightarrow> a < b"
proof (cases xs)
  case (Cons r ys)
  obtain s e al where "r = (s, e, al)" by (cases r)
  moreover assume "tiles a xs b"
  ultimately show ?thesis using Cons tiles_mono [of e ys b] by auto
qed simp

lemma tiles_bounds: "tiles a rs b \<Longrightarrow> (s, e, al) \<in> set rs \<Longrightarrow> a \<le> s \<and> s < e \<and> e \<le> b"
  by (induction a rs b rule: tiles.induct) (auto dest: tiles_mono)

lemma tiles_carve:
  assumes "tiles s [(s, e, False)] e" "fits v len (s, e, False)" "v < v + len"
  shows "tiles s (carve v len (s, e, False)) e"
  using assms by (auto simp: carve_def fits_def)

lemma coalesced_Cons: "coalesced (r # rs) \<longleftrightarrow> (rs \<noteq> [] \<longrightarrow> snd (snd r) \<or> snd (snd (hd rs))) \<and> coalesced rs"
  by (cases r; cases rs) auto

lemma coalesced_append:
  "coalesced (xs @ ys) \<longleftrightarrow> coalesced xs \<and> coalesced ys \<and>
     (xs \<noteq> [] \<and> ys \<noteq> [] \<longrightarrow> snd (snd (last xs)) \<or> snd (snd (hd ys)))"
  by (induction xs) (auto simp: coalesced_Cons)

lemma take_spec_SomeE:
  assumes "take_spec v len rs = Some rs'"
  obtains A r B where "rs = A @ r # B" "fits v len r" "rs' = A @ carve v len r @ B"
  using assms
proof (induction rs arbitrary: rs' thesis)
  case (Cons r rs)
  show ?case
  proof (cases "fits v len r")
    case True
    then show ?thesis using Cons.prems(1) [of "[]" r rs] Cons.prems(2) by simp
  next
    case False
    then obtain t where t: "take_spec v len rs = Some t" "rs' = r # t" using Cons.prems(2) by auto
    then obtain A x B where "rs = A @ x # B" "fits v len x" "t = A @ carve v len x @ B" using Cons.IH by blast
    then show ?thesis using Cons.prems(1) [of "r # A" x B] t by simp
  qed
qed simp

lemma take_spec_ok:
  assumes "ranges_ok rs" "take_spec v len rs = Some rs'" "v < v + len"
  shows "ranges_ok rs'"
proof -
  obtain A r B where rs: "rs = A @ r # B" "fits v len r" "rs' = A @ carve v len r @ B"
    by (rule take_spec_SomeE [OF assms(2)])
  obtain s e where r: "r = (s, e, False)" using rs(2) by (cases r) (auto simp: fits_def)
  have A: "A \<noteq> []" using assms(1) rs(1) r by (cases A) (auto simp: ranges_ok_def)
  have "tiles 0 rs' 0x1000000000000"
    using assms(1) rs r tiles_carve [of s e v len] assms(3) by (auto simp: ranges_ok_def tiles_append)
  moreover have "coalesced rs'"
    using assms(1) rs r A by (auto simp: ranges_ok_def coalesced_append coalesced_Cons carve_def)
  ultimately show ?thesis using assms(1) rs A by (simp add: ranges_ok_def)
qed


section \<open>Freeing\<close>

lemma linked_delete:
  assumes "linked mem None (X @ p # Y) None" "distinct (X @ p # Y)"
  shows "linked (upd_opt (final None X) (\<lambda>m. m\<lparr>vn_next := first Y None\<rparr>)
      (upd_opt (first Y None) (\<lambda>m. m\<lparr>vn_prev := final None X\<rparr>) mem)) None (X @ Y) None"
proof -
  let ?mem1 = "upd_opt (first Y None) (\<lambda>m. m\<lparr>vn_prev := final None X\<rparr>) mem"
  let ?mem2 = "upd_opt (final None X) (\<lambda>m. m\<lparr>vn_next := first Y None\<rparr>) ?mem1"
  have X: "linked mem None X (Some p)" and Y: "linked mem (Some p) Y None"
    using assms(1) by (simp_all add: chain_simps)
  have fX: "set_option (final None X) \<subseteq> set X" and fY: "set_option (first Y None) \<subseteq> set Y"
    by (auto simp: final_def first_def split: list.splits)
  have XY: "set X \<inter> set Y = {}" using assms(2) by auto
  have "linked ?mem1 (final None X) Y None" by (rule linked_first [OF Y]) (use assms(2) in simp)
  moreover have "linked ?mem2 (final None X) Y None = linked ?mem1 (final None X) Y None"
    by (rule linked_upd_opt) (use fX XY in blast)
  moreover have "linked ?mem1 None X (Some p) = linked mem None X (Some p)"
    by (rule linked_upd_opt) (use fY XY in blast)
  then have "linked ?mem2 None X (first Y None)"
    using X assms(2) by (intro linked_final) auto
  ultimately show ?thesis by (simp add: chain_simps)
qed

text \<open>Dropping a node other than the first from the list.\<close>

lemma vrep_delete:
  assumes rep: "vrep ctx mem (X @ p # Y)" and X: "X \<noteq> []"
    and links: "\<And>q. q \<in> set (X @ Y) \<Longrightarrow>
      vn_prev (mem' q) = (if first Y None = Some q then final None X else vn_prev (mem q)) \<and>
      vn_next (mem' q) = (if final None X = Some q then first Y None else vn_next (mem q))"
    and used: "\<And>q. vn_is_used (mem' q) \<longleftrightarrow> q \<noteq> p \<and> vn_is_used (mem q)"
  shows "vrep (ctx\<lparr>used_node_count := used_node_count ctx - 1\<rparr>) mem' (X @ Y)"
proof -
  have d: "distinct (X @ p # Y)" and l: "linked mem None (X @ p # Y) None" using rep by (auto simp: vrep_def)
  have sep: "\<not> (first Y None = Some q \<and> final None X = Some q)" for q
    using d by (auto simp: first_def final_def split: list.splits if_splits)
  have "linked mem' None (X @ Y) None"
    using linked_delete [OF l d]
    by (rule iffD2 [OF linked_cong, rotated]) (use links sep in \<open>auto simp: upd_opt_def split: option.splits\<close>)
  moreover have "set (X @ Y) = {q \<in> vnodes ctx. vn_is_used (mem' q)}"
  proof -
    have "set (X @ p # Y) = {q \<in> vnodes ctx. vn_is_used (mem q)}" using rep by (simp add: vrep_def)
    moreover have "set (X @ Y) = set (X @ p # Y) - {p}" using d by auto
    ultimately show ?thesis by (auto simp: used)
  qed
  moreover have "unat (used_node_count ctx - 1) + 1 = length (X @ Y)"
  proof -
    have n: "unat (used_node_count ctx) = length (X @ Y)" using rep by (simp add: vrep_def)
    then have "1 \<le> used_node_count ctx" using X by (simp add: word_le_nat_alt Suc_le_eq)
    then show ?thesis using n X by (simp add: unat_sub Suc_le_eq)
  qed
  ultimately show ?thesis using rep X by (simp add: vrep_def)
qed

definition lead_start :: "range list \<Rightarrow> u64 \<Rightarrow> u64" where
  "lead_start rs s = (case rs of [] \<Rightarrow> s | (s', _, _) # _ \<Rightarrow> s')"

definition tail_end :: "u64 \<Rightarrow> range list \<Rightarrow> u64" where
  "tail_end e rs = (if rs = [] then e else fst (snd (last rs)))"

lemma merge_back_loop_spec:
  assumes "vrep ctx mem (A @ F @ node # B)" "A \<noteq> []" "vn_is_alloc (mem (last A))"
    and "\<forall>p\<in>set F. \<not> vn_is_alloc (mem p)"
  shows "\<exists>ctx' mem'. merge_back_loop node (vn_prev (mem node)) ctx mem = Some (ctx', mem') \<and>
    vrep ctx' mem' (A @ node # B) \<and> ranges mem' A = ranges mem A \<and> ranges mem' B = ranges mem B \<and>
    range_of (mem' node) = (lead_start (ranges mem F) (vn_start (mem node)), vn_end (mem node), vn_is_alloc (mem node))"
  using assms
proof (induction F arbitrary: ctx mem rule: rev_induct)
  case Nil
  then have "vn_prev (mem node) = Some (last A)" by (simp add: vrep_def chain_simps final_def)
  then show ?case using Nil by (subst merge_back_loop.simps) (auto simp: lead_start_def range_of_def)
next
  case (snoc p F)
  let ?X = "A @ F"
  have d: "distinct (A @ F @ p # node # B)" and l: "linked mem None (A @ F @ p # node # B) None"
    using snoc.prems(1) by (auto simp: vrep_def)
  obtain q where q: "final None ?X = Some q" "q \<in> set ?X" using final_in [of ?X None] snoc.prems(2) by auto
  have pn: "vn_prev (mem node) = Some p" "vn_prev (mem p) = Some q"
    using l q(1) by (simp_all add: chain_simps)
  have ne: "q \<noteq> p" "q \<noteq> node" "p \<noteq> node" using d q(2) by auto
  define mem1 where "mem1 = mem(node := (mem node)\<lparr>vn_start := vn_start (mem p), vn_prev := Some q\<rparr>,
      q := (mem q)\<lparr>vn_next := Some node\<rparr>, p := (mem p)\<lparr>vn_is_used := False\<rparr>)"
  have step: "merge_back_loop node (vn_prev (mem node)) ctx mem =
      merge_back_loop node (vn_prev (mem1 node)) (ctx\<lparr>used_node_count := used_node_count ctx - 1\<rparr>) mem1"
    using snoc.prems(4) pn ne
    by (subst merge_back_loop.simps) (simp add: Let_def free_node_def upd_opt_def mem1_def fun_upd_twist)
  have "vrep (ctx\<lparr>used_node_count := used_node_count ctx - 1\<rparr>) mem1 ((A @ F) @ node # B)"
    by (rule vrep_delete [of _ mem _ p]) (use snoc.prems(1,2) q ne in \<open>auto simp: mem1_def\<close>)
  then have rep1: "vrep (ctx\<lparr>used_node_count := used_node_count ctx - 1\<rparr>) mem1 (A @ F @ node # B)" by simp
  have rng: "range_of (mem1 x) = range_of (mem x)" if "x \<noteq> node" for x
    using that by (auto simp: mem1_def)
  then have al: "vn_is_alloc (mem1 x) = vn_is_alloc (mem x)" if "x \<noteq> node" for x
    using that by (simp add: range_of_def)
  have nodes: "node \<notin> set A" "node \<notin> set F" "node \<notin> set B" using d by auto
  have "last A \<noteq> node" using nodes(1) snoc.prems(2) by auto
  then have last: "vn_is_alloc (mem1 (last A))" using snoc.prems(3) al by simp
  have "\<not> vn_is_alloc (mem1 x)" if "x \<in> set F" for x
    using that al [of x] nodes(2) snoc.prems(4) by auto
  then obtain ctx' mem' where IH: "merge_back_loop node (vn_prev (mem1 node))
        (ctx\<lparr>used_node_count := used_node_count ctx - 1\<rparr>) mem1 = Some (ctx', mem')"
      "vrep ctx' mem' (A @ node # B)" "ranges mem' A = ranges mem1 A" "ranges mem' B = ranges mem1 B"
      "range_of (mem' node) = (lead_start (ranges mem1 F) (vn_start (mem1 node)), vn_end (mem1 node), vn_is_alloc (mem1 node))"
    using snoc.IH [OF rep1 snoc.prems(2) last] by blast
  have "ranges mem1 xs = ranges mem xs" if "node \<notin> set xs" for xs
    by (rule ranges_cong, rule rng) (use that in auto)
  moreover have "lead_start (ranges mem F) (vn_start (mem p)) = lead_start (ranges mem (F @ [p])) (vn_start (mem node))"
    by (cases F) (auto simp: lead_start_def range_of_def)
  ultimately show ?case using step IH nodes ne by (auto simp: mem1_def)
qed


lemma merge_forward_spec:
  assumes "vrep ctx mem (A @ node # F @ B)" "B \<noteq> [] \<Longrightarrow> vn_is_alloc (mem (hd B))"
    and "\<forall>p\<in>set F. \<not> vn_is_alloc (mem p)"
  shows "\<exists>ctx' mem'. merge_forward node (vn_next (mem node)) ctx mem = Some (ctx', mem') \<and>
    vrep ctx' mem' (A @ node # B) \<and> ranges mem' A = ranges mem A \<and> ranges mem' B = ranges mem B \<and>
    range_of (mem' node) = (vn_start (mem node), tail_end (vn_end (mem node)) (ranges mem F), vn_is_alloc (mem node))"
  using assms
proof (induction F arbitrary: ctx mem)
  case Nil
  then have "vn_next (mem node) = first B None" by (simp add: vrep_def chain_simps)
  then show ?case using Nil
    by (subst merge_forward.simps) (cases B; auto simp: tail_end_def range_of_def)
next
  case (Cons p F)
  have d: "distinct (A @ node # p # F @ B)" and l: "linked mem None (A @ node # p # F @ B) None"
    using Cons.prems(1) by (auto simp: vrep_def)
  have pn: "vn_next (mem node) = Some p" "vn_next (mem p) = first (F @ B) None"
    using l by (simp_all add: chain_simps)
  define mem1 where "mem1 = (upd_opt (first (F @ B) None) (\<lambda>m. m\<lparr>vn_prev := Some node\<rparr>)
      (mem(node := (mem node)\<lparr>vn_end := vn_end (mem p), vn_next := first (F @ B) None\<rparr>)))
      (p := (mem p)\<lparr>vn_is_used := False\<rparr>)"
  have ne: "p \<noteq> node" "\<And>q. first (F @ B) None = Some q \<Longrightarrow> q \<noteq> node \<and> q \<noteq> p"
    using d first_Some [of "F @ B"] by auto
  have step: "merge_forward node (vn_next (mem node)) ctx mem =
      merge_forward node (vn_next (mem1 node)) (ctx\<lparr>used_node_count := used_node_count ctx - 1\<rparr>) mem1"
    using Cons.prems(3) pn ne
    by (subst merge_forward.simps)
      (auto simp: Let_def free_node_def upd_opt_def mem1_def fun_upd_twist split: option.splits)
  have "vrep (ctx\<lparr>used_node_count := used_node_count ctx - 1\<rparr>) mem1 ((A @ [node]) @ F @ B)"
    by (rule vrep_delete [of _ mem _ p])
      (use Cons.prems(1) d ne in \<open>auto simp: mem1_def upd_opt_def split: option.splits\<close>)
  then have rep1: "vrep (ctx\<lparr>used_node_count := used_node_count ctx - 1\<rparr>) mem1 (A @ node # F @ B)" by simp
  have rng: "range_of (mem1 x) = range_of (mem x)" if "x \<noteq> node" for x
    using that by (auto simp: mem1_def upd_opt_def split: option.splits)
  then have al: "vn_is_alloc (mem1 x) = vn_is_alloc (mem x)" if "x \<noteq> node" for x
    using that by (simp add: range_of_def)
  have nodes: "node \<notin> set A" "node \<notin> set F" "node \<notin> set B" using d by auto
  have hd: "vn_is_alloc (mem1 (hd B))" if "B \<noteq> []"
    using that Cons.prems(2) al nodes(3) by (metis list.set_sel(1))
  have "\<not> vn_is_alloc (mem1 x)" if "x \<in> set F" for x
    using that al [of x] nodes(2) Cons.prems(3) by auto
  then obtain ctx' mem' where IH: "merge_forward node (vn_next (mem1 node))
        (ctx\<lparr>used_node_count := used_node_count ctx - 1\<rparr>) mem1 = Some (ctx', mem')"
      "vrep ctx' mem' (A @ node # B)" "ranges mem' A = ranges mem1 A" "ranges mem' B = ranges mem1 B"
      "range_of (mem' node) = (vn_start (mem1 node), tail_end (vn_end (mem1 node)) (ranges mem1 F), vn_is_alloc (mem1 node))"
    using Cons.IH [OF rep1 hd] by blast
  have "ranges mem1 xs = ranges mem xs" if "node \<notin> set xs" for xs
    by (rule ranges_cong, rule rng) (use that in auto)
  moreover have "tail_end (vn_end (mem p)) (ranges mem F) = tail_end (vn_end (mem node)) (ranges mem (p # F))"
    by (cases F rule: rev_cases) (auto simp: tail_end_def range_of_def)
  moreover have "vn_start (mem1 node) = vn_start (mem node) \<and> vn_end (mem1 node) = vn_end (mem p) \<and>
      vn_is_alloc (mem1 node) = vn_is_alloc (mem node)"
    using ne by (auto simp: mem1_def upd_opt_def split: option.splits)
  ultimately show ?case using step IH nodes by auto
qed

definition range_free :: "range \<Rightarrow> bool" where
  "range_free = (\<lambda>(s, e, al). \<not> al)"

text \<open>The range \<open>r\<close> between \<open>A\<close> and \<open>B\<close> becomes free and absorbs its free neighbours.\<close>

definition free_at :: "range list \<Rightarrow> range \<Rightarrow> range list \<Rightarrow> range list" where
  "free_at A r B =
     rev (dropWhile range_free (rev A)) @
     (lead_start (rev (takeWhile range_free (rev A))) (fst r),
      tail_end (fst (snd r)) (takeWhile range_free B), False) #
     dropWhile range_free B"

fun free_spec :: "u64 \<Rightarrow> range list \<Rightarrow> range list \<Rightarrow> range list option" where
  "free_spec v A [] = None"
| "free_spec v A (r # B) = (if fst r = v then Some (free_at A r B) else free_spec v (A @ [r]) B)"

lemma free_find_spec:
  "linked mem prv ps None \<Longrightarrow> free_find v (first ps None) mem = Some (find (\<lambda>p. vn_start (mem p) = v) ps)"
proof (induction ps arbitrary: prv)
  case Nil
  then show ?case by (simp add: free_find.simps)
next
  case (Cons p ps)
  then have "free_find v (vn_next (mem p)) mem = Some (find (\<lambda>p. vn_start (mem p) = v) ps)" by auto
  then show ?case by (simp add: free_find.simps [of _ "Some p"])
qed

lemma free_spec_append:
  "\<forall>r\<in>set A. fst r \<noteq> v \<Longrightarrow> fst r = v \<Longrightarrow> free_spec v P (A @ r # B) = Some (free_at (P @ A) r B)"
  by (induction A arbitrary: P) auto

lemma free_spec_None: "\<forall>r\<in>set A. fst r \<noteq> v \<Longrightarrow> free_spec v P A = None"
  by (induction A arbitrary: P) auto

lemma takeWhile_ranges:
  "takeWhile range_free (ranges mem ps) = ranges mem (takeWhile (\<lambda>p. \<not> vn_is_alloc (mem p)) ps)"
  "dropWhile range_free (ranges mem ps) = ranges mem (dropWhile (\<lambda>p. \<not> vn_is_alloc (mem p)) ps)"
  by (induction ps) (auto simp: range_free_def range_of_def)

lemma rev_ranges: "rev (ranges mem ps) = ranges mem (rev ps)"
  by (simp add: ranges_def rev_map)


lemma node_split_back:
  assumes "A \<noteq> []" "vn_is_alloc (mem (hd A))"
  obtains A' F where "A = A' @ F" "A' \<noteq> []" "vn_is_alloc (mem (last A'))" "\<forall>p\<in>set F. \<not> vn_is_alloc (mem p)"
    "ranges mem A' = rev (dropWhile range_free (rev (ranges mem A)))"
    "ranges mem F = rev (takeWhile range_free (rev (ranges mem A)))"
proof -
  let ?P = "\<lambda>p. \<not> vn_is_alloc (mem p)"
  let ?A = "rev (dropWhile ?P (rev A))" and ?F = "rev (takeWhile ?P (rev A))"
  have eq: "A = ?A @ ?F" by (metis rev_append rev_rev_ident takeWhile_dropWhile_id)
  have free: "\<forall>p\<in>set ?F. ?P p" by (auto dest: set_takeWhileD)
  have "hd A \<in> set A" using assms(1) by simp
  then have "hd A \<in> set (rev A)" "\<not> ?P (hd A)" using assms(2) by simp_all
  then have ne: "dropWhile ?P (rev A) \<noteq> []" unfolding dropWhile_eq_Nil_conv by blast
  then have "\<not> ?P (hd (dropWhile ?P (rev A)))" by (rule hd_dropWhile)
  then have "vn_is_alloc (mem (last ?A))" by (simp add: last_rev ne)
  then show thesis
    using eq free ne by (intro that [of ?A ?F]) (simp_all add: rev_ranges takeWhile_ranges)
qed

lemma node_split_forward:
  obtains F B' where "B = F @ B'" "B' \<noteq> [] \<Longrightarrow> vn_is_alloc (mem (hd B'))" "\<forall>p\<in>set F. \<not> vn_is_alloc (mem p)"
    "ranges mem B' = dropWhile range_free (ranges mem B)" "ranges mem F = takeWhile range_free (ranges mem B)"
proof -
  let ?P = "\<lambda>p. \<not> vn_is_alloc (mem p)"
  have "vn_is_alloc (mem (hd (dropWhile ?P B)))" if "dropWhile ?P B \<noteq> []"
    using hd_dropWhile [OF that] by simp
  then show thesis
    by (rule that [of "takeWhile ?P B" "dropWhile ?P B", rotated])
      (auto simp: takeWhile_ranges dest: set_takeWhileD)
qed

lemma free_node_in_list:
  assumes rep: "vrep ctx mem (A @ node # B)" and A: "A \<noteq> []" "vn_is_alloc (mem (hd A))"
  shows "\<exists>ctx' mem' ps'.
    do { (ctx, mem) \<leftarrow> merge_back ctx node (upd_node node (\<lambda>m. m\<lparr>vn_is_alloc := False\<rparr>) mem);
         (ctx, mem) \<leftarrow> merge_forward node (vn_next (mem node)) ctx mem;
         Some (pages :: int, ctx, mem) } = Some (pages, ctx', mem') \<and>
    vrep ctx' mem' ps' \<and> ranges mem' ps' = free_at (ranges mem A) (range_of (mem node)) (ranges mem B)"
proof -
  define mem0 where "mem0 = upd_node node (\<lambda>m. m\<lparr>vn_is_alloc := False\<rparr>) mem"
  have nodes: "node \<notin> set A" "node \<notin> set B" using rep by (auto simp: vrep_def)
  have rep0: "vrep ctx mem0 (A @ node # B)" by (rule vrep_range_cong [OF rep]) (auto simp: mem0_def)
  have r0: "ranges mem0 A = ranges mem A" "ranges mem0 B = ranges mem B" using nodes by (auto simp: mem0_def)
  have hd0: "vn_is_alloc (mem0 (hd A))" using A nodes by (auto simp: mem0_def)
  obtain A' F where A': "A = A' @ F" "A' \<noteq> []" "vn_is_alloc (mem0 (last A'))" "\<forall>p\<in>set F. \<not> vn_is_alloc (mem0 p)"
      "ranges mem0 A' = rev (dropWhile range_free (rev (ranges mem0 A)))"
      "ranges mem0 F = rev (takeWhile range_free (rev (ranges mem0 A)))"
    by (rule node_split_back [of A mem0, OF A(1) hd0])
  have "vrep ctx mem0 (A' @ F @ node # B)" using rep0 A'(1) by simp
  from merge_back_loop_spec [OF this A'(2,3,4)] obtain ctx1 mem1 where bk:
      "merge_back_loop node (vn_prev (mem0 node)) ctx mem0 = Some (ctx1, mem1)"
      "vrep ctx1 mem1 (A' @ node # B)" "ranges mem1 A' = ranges mem0 A'" "ranges mem1 B = ranges mem0 B"
      "range_of (mem1 node) = (lead_start (ranges mem0 F) (vn_start (mem0 node)), vn_end (mem0 node), vn_is_alloc (mem0 node))"
    by blast
  have "vn_prev (mem1 node) \<noteq> None" using bk(2) A'(2) by (simp add: vrep_def chain_simps final_def)
  then have mb: "merge_back ctx node mem0 = Some (ctx1, mem1)" using bk(1) by (auto simp: merge_back_def)
  obtain G B' where B': "B = G @ B'" "B' \<noteq> [] \<Longrightarrow> vn_is_alloc (mem1 (hd B'))" "\<forall>p\<in>set G. \<not> vn_is_alloc (mem1 p)"
      "ranges mem1 B' = dropWhile range_free (ranges mem1 B)" "ranges mem1 G = takeWhile range_free (ranges mem1 B)"
    by (rule node_split_forward [of B mem1]) (rule that)
  have "vrep ctx1 mem1 (A' @ node # G @ B')" using bk(2) B'(1) by simp
  from merge_forward_spec [OF this B'(2,3)] obtain ctx2 mem2 where fwd:
      "merge_forward node (vn_next (mem1 node)) ctx1 mem1 = Some (ctx2, mem2)"
      "vrep ctx2 mem2 (A' @ node # B')" "ranges mem2 A' = ranges mem1 A'" "ranges mem2 B' = ranges mem1 B'"
      "range_of (mem2 node) = (vn_start (mem1 node), tail_end (vn_end (mem1 node)) (ranges mem1 G), vn_is_alloc (mem1 node))"
    by blast
  have "ranges mem2 (A' @ node # B') = free_at (ranges mem A) (range_of (mem node)) (ranges mem B)"
    using fwd(3-) bk(3-) B'(4,5) A'(5,6) r0 by (simp add: free_at_def range_of_def mem0_def)
  then show ?thesis using mb fwd(1,2) unfolding mem0_def [symmetric] by auto
qed

lemma virtaddr_free_spec:
  assumes rep: "vrep ctx mem ps" and head: "vn_is_alloc (mem (hd ps))" "vn_start (mem (hd ps)) = 0"
    and v: "v \<noteq> 0" "v mod PAGE_SIZE = 0"
  shows "\<exists>r ctx' mem' ps'. virtaddr_free ctx v mem = Some (r, ctx', mem') \<and> vrep ctx' mem' ps' \<and>
    (case free_spec v [] (ranges mem ps) of
       None \<Rightarrow> r = -1 \<and> ctx' = ctx \<and> mem' = mem \<and> ps' = ps
     | Some rs \<Rightarrow> ranges mem' ps' = rs \<and>
         (\<exists>p\<in>set ps. vn_start (mem p) = v \<and> r = int_pages (vn_end (mem p) - v)))"
proof -
  have "start_node ctx = first ps None" using rep by (cases ps) (auto simp: vrep_def)
  then have find: "free_find v (start_node ctx) mem = Some (find (\<lambda>p. vn_start (mem p) = v) ps)"
    using free_find_spec [of mem None ps v] rep by (simp add: vrep_def)
  show ?thesis
  proof (cases "find (\<lambda>p. vn_start (mem p) = v) ps")
    case None
    then have none: "free_spec v [] (ranges mem ps) = None"
      by (intro free_spec_None) (auto simp: find_None_iff ranges_def range_of_def)
    have "virtaddr_free ctx v mem = Some (-1, ctx, mem)" using None find v by (simp add: virtaddr_free_def)
    then show ?thesis using rep unfolding none by fastforce
  next
    case (Some node)
    then obtain A B where ps: "ps = A @ node # B" "vn_start (mem node) = v" "\<forall>a\<in>set A. vn_start (mem a) \<noteq> v"
      using find_split [OF Some] by blast
    have A: "A \<noteq> []" "vn_is_alloc (mem (hd A))" using head ps v(1) by (cases A; auto)+
    have "\<forall>r\<in>set (ranges mem A). fst r \<noteq> v" using ps(3) by (auto simp: ranges_def range_of_def)
    then have spec: "free_spec v [] (ranges mem ps) = Some (free_at (ranges mem A) (range_of (mem node)) (ranges mem B))"
      using free_spec_append [of "ranges mem A" v "range_of (mem node)" "[]"] ps by (simp add: range_of_def)
    define pages where "pages = int_pages (vn_end (mem node) - vn_start (mem node))"
    obtain ctx' mem' ps' where fr:
      "do { (ctx, mem) \<leftarrow> merge_back ctx node (upd_node node (\<lambda>m. m\<lparr>vn_is_alloc := False\<rparr>) mem);
         (ctx, mem) \<leftarrow> merge_forward node (vn_next (mem node)) ctx mem;
         Some (pages, ctx, mem) } = Some (pages, ctx', mem')"
      "vrep ctx' mem' ps'" "ranges mem' ps' = free_at (ranges mem A) (range_of (mem node)) (ranges mem B)"
      using free_node_in_list [OF rep [unfolded ps(1)] A] by blast
    have "virtaddr_free ctx v mem = Some (pages, ctx', mem')"
      using find Some v fr(1) by (simp add: virtaddr_free_def Let_def pages_def)
    then show ?thesis using fr ps pages_def unfolding spec by fastforce
  qed
qed


section \<open>The operations keep the invariant\<close>

lemma virt_invE:
  assumes "virt_inv ctx mem rs"
  obtains ps where "vrep ctx mem ps" "ranges mem ps = rs" "vn_is_alloc (mem (hd ps))" "vn_start (mem (hd ps)) = 0"
proof -
  obtain ps where ps: "vrep ctx mem ps" "ranges mem ps = rs" "ranges_ok rs"
    using assms by (auto simp: virt_inv_def)
  then have "vn_is_alloc (mem (hd ps)) \<and> vn_start (mem (hd ps)) = 0"
    by (cases ps) (auto simp: ranges_ok_def vrep_def range_of_def)
  then show thesis using that ps by blast
qed

abbreviation page_bytes :: "u32 \<Rightarrow> u64" where
  "page_bytes n \<equiv> of_nat (unat n * 4096)"

lemma unat_page_bytes: "unat n < 2 ^ 19 \<Longrightarrow> unat (page_bytes n) = unat n * 4096"
  by (subst unat_of_nat) simp

lemma page_bytes_pos:
  assumes "0 < n" "unat n < 2 ^ 19" "v < 2 ^ 63"
  shows "v < v + page_bytes n"
proof -
  note unat_page_bytes [OF assms(2)]
  moreover have "unat v < 2 ^ 63" using assms(3) by (simp add: word_less_nat_alt)
  moreover have "0 < unat n" using assms(1) by (simp add: word_less_nat_alt)
  ultimately show ?thesis using assms(2) by (simp add: word_less_nat_alt unat_word_ariths del: of_nat_mult of_nat_unat)
qed

lemma virtaddr_take_inv:
  assumes inv: "virt_inv ctx mem rs" and room: "room 2 ctx" and n: "0 < n" "unat n < 2 ^ 19"
    and v: "v < 2 ^ 63"
  shows "\<exists>r ctx' mem'. virtaddr_take kalloc kfree ctx v n mem = Some (r, ctx', mem') \<and>
    (case take_spec v (page_bytes n) rs of
       None \<Rightarrow> r = 1 \<and> ctx' = ctx \<and> mem' = mem
     | Some rs' \<Rightarrow> r = 0 \<and> virt_inv ctx' mem' rs')"
proof -
  obtain ps where ps: "vrep ctx mem ps" "ranges mem ps = rs" "vn_is_alloc (mem (hd ps))"
    by (rule virt_invE [OF inv])
  have ok: "ranges_ok rs" using inv by (simp add: virt_inv_def)
  obtain r ctx' mem' ps' where t: "virtaddr_take kalloc kfree ctx v n mem = Some (r, ctx', mem')"
      "vrep ctx' mem' ps'" "case take_spec v (page_bytes n) rs of
         None \<Rightarrow> r = 1 \<and> ctx' = ctx \<and> mem' = mem \<and> ps' = ps
       | Some rs \<Rightarrow> r = 0 \<and> ranges mem' ps' = rs"
    using virtaddr_take_spec [OF ps(1) room n ps(3), of kalloc kfree v] unfolding ps(2) by blast
  show ?thesis
  proof (cases "take_spec v (page_bytes n) rs")
    case None
    then show ?thesis using t by simp
  next
    case (Some rs')
    have "ranges_ok rs'" by (rule take_spec_ok [OF ok Some page_bytes_pos [OF n v]])
    then show ?thesis using t Some by (auto simp: virt_inv_def)
  qed
qed

definition alloc_spec :: "u64 \<Rightarrow> range list \<Rightarrow> u64" where
  "alloc_spec len rs = (case find (\<lambda>(s, e, al). \<not> al \<and> len \<le> e - s) rs of None \<Rightarrow> 0 | Some r \<Rightarrow> fst r)"

lemma range_size_small:
  assumes "s < e" "e \<le> (0x1000000000000 :: u64)"
  shows "unat (e - s) < 2 ^ 63"
proof -
  have "unat e \<le> 0x1000000000000" using assms(2) by (simp add: word_le_nat_alt)
  moreover have "unat (e - s) \<le> unat e" using assms(1) by (simp add: unat_sub word_le_nat_alt word_less_nat_alt)
  ultimately show ?thesis by simp
qed

lemma alloc_find_spec:
  assumes "linked mem prv ps None" "tiles a (ranges mem ps) b" "b \<le> 0x1000000000000" "unat len < 2 ^ 63"
  shows "alloc_find len (first ps None) mem = Some (alloc_spec len (ranges mem ps))"
  using assms
proof (induction ps arbitrary: prv a)
  case Nil
  then show ?case by (simp add: alloc_find.simps alloc_spec_def)
next
  case (Cons p ps)
  have t: "vn_start (mem p) < vn_end (mem p)" "tiles (vn_end (mem p)) (ranges mem ps) b"
    using Cons.prems(2) by (auto simp: range_of_def)
  then have "vn_end (mem p) \<le> 0x1000000000000" using tiles_mono Cons.prems(3) by (meson order_trans)
  then have "unat (vn_end (mem p) - vn_start (mem p)) < 2 ^ 63" by (rule range_size_small [OF t(1)])
  then have "vn_end (mem p) - vn_start (mem p) <s len \<longleftrightarrow> vn_end (mem p) - vn_start (mem p) < len"
    using sless_nonneg [of "vn_end (mem p) - vn_start (mem p)" len] Cons.prems(4) by simp
  moreover have "alloc_find len (vn_next (mem p)) mem = Some (alloc_spec len (ranges mem ps))"
    using Cons.IH [of "Some p" "vn_end (mem p)"] Cons.prems t by auto
  ultimately show ?case
    by (auto simp: alloc_find.simps [of _ "Some p"] Let_def alloc_spec_def range_of_def not_less)
qed

lemma virtaddr_alloc_spec:
  assumes inv: "virt_inv ctx mem rs" and n: "0 < n" "unat n < 2 ^ 19"
  shows "virtaddr_alloc ctx n mem = Some (alloc_spec (page_bytes n) rs)"
proof -
  obtain ps where ps: "vrep ctx mem ps" "ranges mem ps = rs" by (rule virt_invE [OF inv])
  have "start_node ctx = first ps None" using ps(1) by (cases ps) (auto simp: vrep_def)
  moreover have "unat (page_bytes n) < 2 ^ 63" unfolding unat_page_bytes [OF n(2)] using n(2) by simp
  moreover have "tiles 0 (ranges mem ps) 0x1000000000000" using inv ps(2) by (simp add: virt_inv_def ranges_ok_def)
  ultimately show ?thesis
    using alloc_find_spec [of mem None ps 0 "0x1000000000000" "page_bytes n"] ps sless_1_small [OF n(1)] n(2)
      pages_length_small [OF n(2)]
    by (simp add: virtaddr_alloc_def vrep_def)
qed


lemma free_spec_SomeE:
  assumes "free_spec v P rs = Some rs'"
  obtains A r B where "rs = A @ r # B" "fst r = v" "rs' = free_at (P @ A) r B"
  using assms
proof (induction rs arbitrary: P thesis)
  case (Cons r rs)
  show ?case
  proof (cases "fst r = v")
    case True
    then show ?thesis using Cons.prems(1) [of "[]" r rs] Cons.prems(2) by simp
  next
    case False
    then have "free_spec v (P @ [r]) rs = Some rs'" using Cons.prems(2) by simp
    then obtain A x B where "rs = A @ x # B" "fst x = v" "rs' = free_at ((P @ [r]) @ A) x B"
      using Cons.IH by blast
    then show ?thesis using Cons.prems(1) [of "r # A" x B] by simp
  qed
qed simp

lemma lead_start_tiles: "tiles a F s \<Longrightarrow> lead_start F s = a"
  by (cases F) (auto simp: lead_start_def)

lemma tail_end_tiles: "tiles e G b \<Longrightarrow> tail_end e G = b"
proof (cases G rule: rev_cases)
  case (snoc G' r)
  assume "tiles e G b"
  then show ?thesis using snoc by (cases r) (auto simp: tail_end_def tiles_append)
qed (simp add: tail_end_def)

lemma rev_takeWhile_dropWhile: "rev (dropWhile P (rev A)) @ rev (takeWhile P (rev A)) = A"
  by (metis rev_append rev_rev_ident takeWhile_dropWhile_id)

lemma free_at_ok:
  assumes ok: "ranges_ok (A @ r # B)" and A: "A \<noteq> []"
  shows "ranges_ok (free_at A r B)"
proof -
  define A' F where "A' = rev (dropWhile range_free (rev A))" and "F = rev (takeWhile range_free (rev A))"
  define G B' where "G = takeWhile range_free B" and "B' = dropWhile range_free B"
  obtain s e al where r: "r = (s, e, al)" by (cases r)
  have AF: "A = A' @ F" and GB: "B = G @ B'"
    by (simp_all add: A'_def F_def G_def B'_def rev_takeWhile_dropWhile)
  have hd: "\<not> range_free (hd A)" using ok A by (auto simp: ranges_ok_def range_free_def split: prod.splits)
  have "hd A \<in> set (rev A)" using A by simp
  then have ne: "dropWhile range_free (rev A) \<noteq> []" using hd unfolding dropWhile_eq_Nil_conv by blast
  then have lastA: "snd (snd (last A'))" and A': "A' \<noteq> []"
    using hd_dropWhile [OF ne] by (auto simp: A'_def last_rev range_free_def split: prod.splits)
  have hdB: "snd (snd (hd B'))" if "B' \<noteq> []"
    using hd_dropWhile [of range_free B] that by (auto simp: B'_def range_free_def split: prod.splits)
  obtain x y where t: "tiles 0 A' x" "tiles x F s" "s < e" "tiles e G y" "tiles y B' 0x1000000000000"
    using ok unfolding AF GB r ranges_ok_def by (auto simp: tiles_append)
  have eq: "free_at A r B = A' @ (x, y, False) # B'"
    unfolding free_at_def A'_def [symmetric] F_def [symmetric] G_def [symmetric] B'_def [symmetric]
    using lead_start_tiles [OF t(2)] tail_end_tiles [OF t(4)] by (simp add: r)
  have "x < y" using tiles_mono [OF t(2)] t(3) tiles_mono [OF t(4)] by simp
  then have "tiles 0 (free_at A r B) 0x1000000000000" using t by (auto simp: eq tiles_append)
  moreover have "coalesced A'" "coalesced B'"
    using ok unfolding AF GB ranges_ok_def by (auto simp: coalesced_append coalesced_Cons)
  then have "coalesced (free_at A r B)"
    using lastA hdB by (auto simp: eq coalesced_append coalesced_Cons)
  moreover have "hd (free_at A r B) = hd A" using A' by (metis eq AF hd_append2)
  ultimately show ?thesis using ok A A' by (simp add: ranges_ok_def eq)
qed

lemma virtaddr_free_inv:
  assumes inv: "virt_inv ctx mem rs"
  shows "\<exists>r ctx' mem'. virtaddr_free ctx v mem = Some (r, ctx', mem') \<and>
    (case (if v = 0 \<or> v mod PAGE_SIZE \<noteq> 0 then None else free_spec v [] rs) of
       None \<Rightarrow> r = -1 \<and> ctx' = ctx \<and> mem' = mem
     | Some rs' \<Rightarrow> virt_inv ctx' mem' rs' \<and> (\<exists>e al. (v, e, al) \<in> set rs \<and> r = int_pages (e - v)))"
proof (cases "v = 0 \<or> v mod PAGE_SIZE \<noteq> 0")
  case True
  then show ?thesis by (cases "v = 0") (simp_all add: virtaddr_free_def mod_eq_0_iff_dvd)
next
  case False
  obtain ps where ps: "vrep ctx mem ps" "ranges mem ps = rs" "vn_is_alloc (mem (hd ps))" "vn_start (mem (hd ps)) = 0"
    by (rule virt_invE [OF inv])
  have ok: "ranges_ok rs" using inv by (simp add: virt_inv_def)
  obtain r ctx' mem' ps' where f: "virtaddr_free ctx v mem = Some (r, ctx', mem')" "vrep ctx' mem' ps'"
      "case free_spec v [] rs of
         None \<Rightarrow> r = -1 \<and> ctx' = ctx \<and> mem' = mem \<and> ps' = ps
       | Some rs \<Rightarrow> ranges mem' ps' = rs \<and>
           (\<exists>p\<in>set ps. vn_start (mem p) = v \<and> r = int_pages (vn_end (mem p) - v))"
    using virtaddr_free_spec [OF ps(1,3,4), of v] False unfolding ps(2) by blast
  show ?thesis
  proof (cases "free_spec v [] rs")
    case None
    then show ?thesis using f False by simp
  next
    case (Some rs')
    obtain A x B where rs: "rs = A @ x # B" "fst x = v" "rs' = free_at A x B"
      by (rule free_spec_SomeE [OF Some]) (auto intro: that)
    have "A \<noteq> []" using ok rs False by (cases A; cases x) (auto simp: ranges_ok_def)
    then have "ranges_ok rs'" using free_at_ok ok rs by blast
    moreover obtain p where "p \<in> set ps" "vn_start (mem p) = v" "r = int_pages (vn_end (mem p) - v)"
      using f(3) Some by auto
    moreover from this have "(v, vn_end (mem p), vn_is_alloc (mem p)) \<in> set rs"
      unfolding ps(2) [symmetric] by (auto simp: ranges_def range_of_def image_iff)
    ultimately show ?thesis using f Some False by (auto simp: virt_inv_def)
  qed
qed

section \<open>Allocate, take and free\<close>

definition taken :: "range list \<Rightarrow> u64 set" where
  "taken rs = {a. \<exists>(s, e, al)\<in>set rs. al \<and> s \<le> a \<and> a < e}"

lemma taken_simps [simp]:
  "taken [] = {}" "taken ((s, e, al) # rs) = (if al then {s..<e} else {}) \<union> taken rs"
  "taken (xs @ ys) = taken xs \<union> taken ys"
  by (auto simp: taken_def)

lemma taken_bounds: "tiles a rs b \<Longrightarrow> x \<in> taken rs \<Longrightarrow> a \<le> x \<and> x < b"
proof (induction a rs b rule: tiles.induct)
  case (2 a s e al rs b)
  then have "s = a" "a < e" "e \<le> b" using tiles_mono [of e rs b] by auto
  then show ?case using 2 by (auto split: if_splits intro: order_trans less_le_trans)
qed simp

lemma take_spec_taken:
  assumes "tiles a rs b" "take_spec v len rs = Some rs'" "v < v + len"
  shows "taken rs' = taken rs \<union> {v..<v + len} \<and> taken rs \<inter> {v..<v + len} = {}"
proof -
  obtain A r B where rs: "rs = A @ r # B" "fits v len r" "rs' = A @ carve v len r @ B"
    by (rule take_spec_SomeE [OF assms(2)])
  obtain s e where r: "r = (s, e, False)" using rs(2) by (cases r) (auto simp: fits_def)
  have se: "s \<le> v" "v + len \<le> e" using rs(2) r by (auto simp: fits_def)
  have "tiles a A s" "tiles e B b" using assms(1) by (auto simp: rs(1) r tiles_append)
  then have "x < s \<or> e \<le> x" if "x \<in> taken rs" for x
    using taken_bounds that unfolding rs(1) r by fastforce
  then have "taken rs \<inter> {v..<v + len} = {}" using se by fastforce
  then show ?thesis by (auto simp: rs r carve_def)
qed

lemma alloc_spec_fits:
  assumes "tiles a rs b" "alloc_spec len rs \<noteq> 0"
  shows "alloc_spec len rs < b \<and> (\<exists>rs'. take_spec (alloc_spec len rs) len rs = Some rs')"
proof -
  obtain r where r: "find (\<lambda>(s, e, al). \<not> al \<and> len \<le> e - s) rs = Some r" "alloc_spec len rs = fst r"
    using assms(2) by (auto simp: alloc_spec_def split: option.splits)
  then have "r \<in> set rs" "case r of (s, e, al) \<Rightarrow> \<not> al \<and> len \<le> e - s"
    using find_split [OF r(1)] by auto
  moreover obtain s e al where "r = (s, e, al)" by (cases r)
  ultimately have f: "(s, e, False) \<in> set rs" "len \<le> e - s" "alloc_spec len rs = s"
    using r(2) by auto
  have se: "s < e" "e \<le> b" using tiles_bounds [OF assms(1) f(1)] by simp_all
  then have "s + len \<le> e" using f(2)
    by (metis diff_add_cancel add.commute less_imp_le word_plus_mono_right word_sub_le)
  then have "fits s len (s, e, False)" by (simp add: fits_def)
  then have "take_spec s len rs \<noteq> None" using f(1) by (induction rs) (auto split: if_splits)
  then show ?thesis using f(3) se by auto
qed


text \<open>An address that \<^verbatim>\<open>virtaddr_alloc\<close> proposes can be taken: \<^verbatim>\<open>virtaddr_take\<close> then returns
  0, and what is taken afterwards is what was taken before plus exactly the requested bytes, none of
  which was taken before. It proposes no address only when no free range is large enough.\<close>

theorem virtaddr_alloc_then_take:
  assumes inv: "virt_inv ctx mem rs" and room: "room 2 ctx" and n: "0 < n" "unat n < 2 ^ 19"
  shows "\<exists>p. virtaddr_alloc ctx n mem = Some p \<and>
    (if p = 0 then \<forall>(s, e, al)\<in>set rs. al \<or> e - s < page_bytes n
     else \<exists>ctx' mem' rs'. virtaddr_take kalloc kfree ctx p n mem = Some (0, ctx', mem') \<and>
       virt_inv ctx' mem' rs' \<and> taken rs' = taken rs \<union> {p..<p + page_bytes n} \<and>
       taken rs \<inter> {p..<p + page_bytes n} = {})"
proof -
  define p where "p = alloc_spec (page_bytes n) rs"
  have tl: "tiles 0 rs 0x1000000000000" using inv by (simp add: virt_inv_def ranges_ok_def)
  have al: "virtaddr_alloc ctx n mem = Some p" using virtaddr_alloc_spec [OF inv n] by (simp add: p_def)
  have "\<forall>(s, e, al)\<in>set rs. al \<or> e - s < page_bytes n" if "p = 0"
  proof -
    have "find (\<lambda>(s, e, al). \<not> al \<and> page_bytes n \<le> e - s) rs = None"
    proof (rule ccontr)
      assume "\<not> ?thesis"
      then obtain r where r: "find (\<lambda>(s, e, al). \<not> al \<and> page_bytes n \<le> e - s) rs = Some r" by auto
      then obtain A B where rs: "rs = A @ r # B" "case r of (s, e, al) \<Rightarrow> \<not> al \<and> page_bytes n \<le> e - s"
        using find_split [OF r] by blast
      have "fst r = 0" using r that by (simp add: p_def alloc_spec_def)
      moreover have "A \<noteq> []" using inv rs by (cases A) (auto simp: virt_inv_def ranges_ok_def)
      ultimately show False using tl tiles_pos [of 0 A "fst r"] rs(1) by (cases r) (auto simp: tiles_append)
    qed
    then show ?thesis by (auto simp: find_None_iff not_le)
  qed
  moreover have "\<exists>ctx' mem' rs'. virtaddr_take kalloc kfree ctx p n mem = Some (0, ctx', mem') \<and>
       virt_inv ctx' mem' rs' \<and> taken rs' = taken rs \<union> {p..<p + page_bytes n} \<and>
       taken rs \<inter> {p..<p + page_bytes n} = {}" if pnz: "p \<noteq> 0"
  proof -
    obtain rs' where rs': "take_spec p (page_bytes n) rs = Some rs'"
      using alloc_spec_fits [OF tl, of "page_bytes n"] pnz unfolding p_def by blast
    have "p < 0x1000000000000" using alloc_spec_fits [OF tl, of "page_bytes n"] pnz unfolding p_def by blast
    then have p: "p < 2 ^ 63" by (rule order_less_trans) simp
    show ?thesis
      using virtaddr_take_inv [OF inv room n p, of kalloc kfree] rs'
        take_spec_taken [OF tl rs' page_bytes_pos [OF n p]] by auto
  qed
  ultimately show ?thesis using al by auto
qed


lemma free_undoes_carve:
  assumes ok: "ranges_ok (A @ (s, e, False) # B)" and f: "fits v len (s, e, False)" and v: "v < v + len"
  shows "free_spec v [] (A @ carve v len (s, e, False) @ B) = Some (A @ (s, e, False) # B)"
proof -
  have A: "A \<noteq> []" using ok by (cases A) (auto simp: ranges_ok_def)
  have se: "s \<le> v" "v + len \<le> e" using f by (auto simp: fits_def)
  have t: "tiles 0 A s" "s < e" "tiles e B 0x1000000000000" using ok by (auto simp: ranges_ok_def tiles_append)
  have "coalesced (A @ (s, e, False) # B)" using ok by (simp add: ranges_ok_def)
  then have al: "snd (snd (last A))" "B \<noteq> [] \<Longrightarrow> snd (snd (hd B))"
    using A by (auto simp: coalesced_append coalesced_Cons)
  define L where "L = (if s < v then [(s, v, False)] else [])"
  define R where "R = (if v + len < e then [(v + len, e, False)] else [])"
  have early: "\<forall>r\<in>set (A @ L). fst r \<noteq> v"
    using tiles_bounds [OF t(1)] se(1) by (fastforce simp: L_def)
  have bw: "takeWhile range_free (rev (A @ L)) = rev L" "dropWhile range_free (rev (A @ L)) = rev A"
    using al(1) A by (cases A rule: rev_cases; auto simp: L_def range_free_def split: prod.splits)+
  have fwd: "takeWhile range_free (R @ B) = R" "dropWhile range_free (R @ B) = B"
    using al(2) by (cases B; auto simp: R_def range_free_def split: prod.splits)+
  have "carve v len (s, e, False) = L @ (v, v + len, True) # R" by (simp add: carve_def L_def R_def)
  then have "free_spec v [] (A @ carve v len (s, e, False) @ B) = Some (free_at (A @ L) (v, v + len, True) (R @ B))"
    using free_spec_append [OF early, of "(v, v + len, True)" "[]" "R @ B"] by simp
  also have "free_at (A @ L) (v, v + len, True) (R @ B) = A @ (s, e, False) # B"
    unfolding free_at_def bw fwd using se t(2)
    by (auto simp: L_def R_def lead_start_def tail_end_def)
  finally show ?thesis .
qed

lemma tiles_start_unique:
  "tiles a rs b \<Longrightarrow> (s, e, al) \<in> set rs \<Longrightarrow> (s, e', al') \<in> set rs \<Longrightarrow> e = e'"
proof (induction a rs b rule: tiles.induct)
  case (2 a s' e'' al'' rs b)
  then show ?case using tiles_bounds [of e'' rs b] by fastforce
qed simp

lemma int_pages_small:
  assumes "unat w = 4096 * k" "k < 2 ^ 19"
  shows "int_pages w = int k"
proof -
  have "unat (ucast w :: u32) = take_bit 32 (unat w)" by (simp add: unsigned_ucast_eq)
  then have u: "unat (ucast w :: u32) = 4096 * k" using assms by (simp add: take_bit_nat_eq_self)
  then have "sint (ucast w :: u32) = uint (ucast w :: u32)" using assms(2) by (intro sint_nonneg) simp
  also have "\<dots> = int (4096 * k)" by (simp only: uint_nat u)
  finally show ?thesis by (simp add: int_pages_def Let_def)
qed

lemma int_pages_bytes: "unat n < 2 ^ 19 \<Longrightarrow> int_pages (page_bytes n) = int (unat n)"
  by (rule int_pages_small) (simp_all only: unat_page_bytes mult.commute)



text \<open>Freeing an address always returns. An address that is null, not page aligned or not the
  start of a range gives -1 and changes nothing; otherwise the range that starts there becomes
  free, merged with the free ranges next to it, the result is its length in pages (as an
  \<^verbatim>\<open>int\<close>), and the invariant holds again.\<close>

theorem virtaddr_free_refines:
  assumes inv: "virt_inv ctx mem rs"
  shows "\<exists>r ctx' mem'. virtaddr_free ctx v mem = Some (r, ctx', mem') \<and>
    (case (if v = 0 \<or> v mod PAGE_SIZE \<noteq> 0 then None else free_spec v [] rs) of
       None \<Rightarrow> r = -1 \<and> ctx' = ctx \<and> mem' = mem
     | Some rs' \<Rightarrow> virt_inv ctx' mem' rs' \<and> (\<exists>e al. (v, e, al) \<in> set rs \<and> r = int_pages (e - v)))"
  by (rule virtaddr_free_inv [OF assms])


section \<open>Initialisation\<close>

lemma node_count_fresh: "unat (node_count (fresh_ctx i)) = 256"
  by (simp add: node_count_def fresh_ctx_def BOOTSTRAP_VIRT_ALLOC_NODES_def)

lemma vnodes_fresh: "vnodes (fresh_ctx i) = Boot i ` {..<256}"
  unfolding vnodes_def node_count_fresh
  by (rule image_cong) (auto simp: get_node_idx_def BOOTSTRAP_VIRT_ALLOC_NODES_def fresh_ctx_def)

lemma vrep_fresh: "vrep (fresh_ctx i) (fresh_mem i mem) [Boot i 0]"
proof -
  have "{p \<in> vnodes (fresh_ctx i). vn_is_used (fresh_mem i mem p)} = {Boot i 0}"
    by (auto simp: vnodes_fresh fresh_mem_def init_node_def zero_node_def split: if_splits)
  then show ?thesis
    by (simp add: vrep_def) (simp add: fresh_ctx_def fresh_mem_def init_node_def)
qed

lemma room_fresh: "room 2 (fresh_ctx i)"
  unfolding room_def node_count_fresh by (simp add: fresh_ctx_def)

lemma virtaddr_init_reserves:
  fixes kernel_end :: u64
  defines "n \<equiv> ucast ((kernel_end + PAGE_SIZE - 1) div PAGE_SIZE * PAGE_SIZE) :: u32"
  assumes n: "\<not> n <s 1" and len: "pages_length n < 0x1000000000000"
  shows "\<exists>ctx' mem' ps. virtaddr_init kalloc kfree kernel_end ctx mem = Some (ctx', mem') \<and> vrep ctx' mem' ps \<and>
    ranges mem' ps = [(0, pages_length n, True), (pages_length n, 0x1000000000000, False)]"
proof -
  define i where "i = ctx_id ctx"
  let ?ctx = "fresh_ctx i" and ?mem = "fresh_mem i mem" and ?len = "pages_length n"
  have node: "?mem (Boot i 0) = init_node" by (simp add: fresh_mem_def)
  have find: "take_find 0 ?len (start_node ?ctx) ?mem = Some (Some (Boot i 0))"
    using len less_imp_le [OF len]
    by (subst take_find.simps) (simp add: fresh_ctx_def node init_node_def Let_def not_less)
  have left: "take_left kalloc kfree 0 (Boot i 0) ?ctx ?mem = Some (?ctx, ?mem)"
    by (simp add: take_left_def node init_node_def)
  have rep: "vrep ?ctx ?mem ([] @ Boot i 0 # [])" using vrep_fresh by simp
  have rm: "room (Suc 0) ?ctx" using room_fresh [of i] by (simp add: room_def)
  obtain ctx' mem' R where right: "take_right kalloc kfree ?len (Boot i 0) ?ctx ?mem = Some (ctx', mem')"
      "vrep ctx' mem' ([] @ Boot i 0 # R @ [])"
      "ranges mem' R = (if ?len < vn_end (?mem (Boot i 0)) then [(?len, vn_end (?mem (Boot i 0)), False)] else [])"
    by (rule take_right_spec [OF rep rm]) auto
  define mem2 where "mem2 = upd_node (Boot i 0) (\<lambda>m. m\<lparr>vn_start := 0, vn_end := ?len, vn_is_alloc := True\<rparr>) mem'"
  have rep2: "vrep ctx' mem2 (Boot i 0 # R)"
    by (rule vrep_range_cong [of _ mem']) (use right(2) in \<open>auto simp: mem2_def\<close>)
  then have "Boot i 0 \<notin> set R" by (simp add: vrep_def)
  then have "ranges mem2 (Boot i 0 # R) = [(0, ?len, True), (?len, 0x1000000000000, False)]"
    using right(3) len by (simp add: mem2_def range_of_def node init_node_def)
  moreover have "virtaddr_init kalloc kfree kernel_end ctx mem = Some (ctx', mem2)"
    using n find left right(1)
    by (simp add: virtaddr_init_def i_def [symmetric] n_def [symmetric] virtaddr_take_def Let_def mem2_def)
  ultimately show ?thesis using rep2 by blast
qed

text \<open>The kernel's end in pages, as a page count of the reservation.\<close>

lemma init_pages:
  assumes "kernel_end = of_nat (m * 4096)" "0 < m" "m < 2 ^ 19"
  shows "\<not> (ucast ((kernel_end + PAGE_SIZE - 1) div PAGE_SIZE * PAGE_SIZE) :: u32) <s 1 \<and>
    (m mod 256 < 128 \<longrightarrow>
     pages_length (ucast ((kernel_end + PAGE_SIZE - 1) div PAGE_SIZE * PAGE_SIZE)) = of_nat (m mod 256 * 2 ^ 24))"
proof -
  have ke: "unat kernel_end = m * 4096" unfolding assms(1) using assms(3) by (subst unat_of_nat) simp
  have "unat (kernel_end + PAGE_SIZE - 1) = m * 4096 + 4095"
    using ke assms(3) by (simp add: PAGE_SIZE_def unat_word_ariths add.assoc)
  then have "unat ((kernel_end + PAGE_SIZE - 1) div PAGE_SIZE) = m" by (simp add: unat_div PAGE_SIZE_def)
  then have al: "unat ((kernel_end + PAGE_SIZE - 1) div PAGE_SIZE * PAGE_SIZE) = m * 4096"
    using assms(3) by (simp add: unat_word_ariths PAGE_SIZE_def)
  define n where "n = (ucast ((kernel_end + PAGE_SIZE - 1) div PAGE_SIZE * PAGE_SIZE) :: u32)"
  have "unat n = take_bit 32 (m * 4096)" unfolding n_def by (simp add: unsigned_ucast_eq al)
  then have n: "unat n = m * 4096" using assms(3) by (simp add: take_bit_nat_eq_self)
  have "\<not> n <s 1" by (rule sless_1_small) (use n assms in \<open>simp_all add: word_less_nat_alt\<close>)
  moreover have "pages_length n = of_nat (m mod 256 * 2 ^ 24)" if "m mod 256 < 128"
  proof -
    have "unat (n * 4096) = m * 16777216 mod 4294967296"
      using n by (simp add: unat_word_ariths mult.commute)
    also have "\<dots> = m mod 256 * 16777216"
      using mult_mod_right [of 16777216 m 256] by (simp add: mult.commute)
    finally have u: "unat (n * 4096) = m mod 256 * 2 ^ 24" by simp
    then show ?thesis using that scast_int_nonneg [of "n * 4096"] by (simp add: pages_length_def)
  qed
  ultimately show ?thesis unfolding n_def by blast
qed


text \<open>Initialisation passes the size of the kernel in bytes where a number of pages is expected,
  and the product with the page size is an \<^verbatim>\<open>int\<close>. When the kernel ends at page \<open>m\<close> and the last
  8 bits of \<open>m\<close> are between 1 and 127, the context satisfies the invariant with that many times
  16 MiB reserved from address 0 and the rest of the 48-bit space free.\<close>

theorem virtaddr_init_inv:
  assumes "kernel_end = of_nat (m * 4096)" "0 < m mod 256" "m mod 256 < 128" "m < 2 ^ 19"
  shows "\<exists>ctx' mem'. virtaddr_init kalloc kfree kernel_end ctx mem = Some (ctx', mem') \<and>
    virt_inv ctx' mem' [(0, of_nat (m mod 256 * 2 ^ 24), True), (of_nat (m mod 256 * 2 ^ 24), 0x1000000000000, False)]"
proof -
  define len :: u64 where "len = of_nat (m mod 256 * 2 ^ 24)"
  have "unat len = m mod 256 * 2 ^ 24" unfolding len_def using assms(3) by (subst unat_of_nat) simp
  then have len: "0 < len" "len < 0x1000000000000" using assms(2,3) by (simp_all add: word_less_nat_alt)
  have "0 < m" using assms(2) by (cases m) auto
  note ip = init_pages [OF assms(1) this assms(4)]
  obtain ctx' mem' ps where init: "virtaddr_init kalloc kfree kernel_end ctx mem = Some (ctx', mem')"
      "vrep ctx' mem' ps" "ranges mem' ps = [(0, len, True), (len, 0x1000000000000, False)]"
    using virtaddr_init_reserves [of kernel_end kalloc kfree ctx mem] ip assms(3) len(2)
    unfolding len_def by auto
  then have "virt_inv ctx' mem' [(0, len, True), (len, 0x1000000000000, False)]"
    using len by (auto simp: virt_inv_def ranges_ok_def)
  then show ?thesis using init unfolding len_def by blast
qed

text \<open>When the kernel ends on a multiple of 256 pages (1 MiB), the product wraps to 0: nothing is
  reserved, the first free range starts at address 0, and every later request to
  \<^verbatim>\<open>virtaddr_alloc\<close> is answered with \<^verbatim>\<open>NULL\<close> although the whole address space is free.\<close>

theorem virtaddr_init_wraps:
  assumes "kernel_end = of_nat (m * 4096)" "0 < m" "m mod 256 = 0" "m < 2 ^ 19" "0 < n" "unat n < 2 ^ 19"
  shows "\<exists>ctx' mem'. virtaddr_init kalloc kfree kernel_end ctx mem = Some (ctx', mem') \<and>
    virtaddr_alloc ctx' n mem' = Some 0"
proof -
  note ip = init_pages [OF assms(1,2,4)]
  obtain ctx' mem' ps where init: "virtaddr_init kalloc kfree kernel_end ctx mem = Some (ctx', mem')"
      "vrep ctx' mem' ps" "ranges mem' ps = [(0, 0, True), (0, 0x1000000000000, False)]"
    using virtaddr_init_reserves [of kernel_end kalloc kfree ctx mem] ip assms(3) by auto
  obtain p q where ps: "ps = [p, q]" using init(3) by (auto simp: ranges_def)
  have st: "start_node ctx' = Some p" "vn_next (mem' p) = Some q" "vn_is_alloc (mem' p)"
    "\<not> vn_is_alloc (mem' q)" "vn_start (mem' q) = 0" "vn_end (mem' q) = 0x1000000000000"
    using init(2,3) by (auto simp: ps vrep_def range_of_def)
  have "unat (page_bytes n) < 2 ^ 31" unfolding unat_page_bytes [OF assms(6)] using assms(6) by simp
  then have "\<not> (0x1000000000000 :: u64) <s page_bytes n"
    using sless_nonneg [of "0x1000000000000 :: u64" "page_bytes n"]
    by (simp add: word_less_nat_alt del: of_nat_mult of_nat_unat)
  then have "virtaddr_alloc ctx' n mem' = Some 0"
    using st sless_1_small [OF assms(5)] assms(6) pages_length_small [OF assms(6)]
    by (simp add: virtaddr_alloc_def alloc_find.simps [of _ "Some p"] alloc_find.simps [of _ "Some q"] Let_def
        del: of_nat_mult of_nat_unat)
  then show ?thesis using init(1) by blast
qed


section \<open>A concrete context\<close>

definition two_ctx :: virt_ctx where
  "two_ctx = (fresh_ctx 0)\<lparr>used_node_count := 1\<rparr>"

definition two_mem :: vmem where
  "two_mem = (fresh_mem 0 (\<lambda>_. zero_node))
     (Boot 0 0 := init_node\<lparr>vn_end := 0x1000000, vn_next := Some (Boot 0 1), vn_is_alloc := True\<rparr>,
      Boot 0 1 := init_node\<lparr>vn_start := 0x1000000, vn_prev := Some (Boot 0 0)\<rparr>)"

abbreviation two_ranges :: "range list" where
  "two_ranges \<equiv> [(0, 0x1000000, True), (0x1000000, 0x1000000000000, False)]"

lemma two_inv: "virt_inv two_ctx two_mem two_ranges"
proof -
  have "vnodes two_ctx = Boot 0 ` {..<256}" by (simp add: two_ctx_def vnodes_fresh)
  then have "{p \<in> vnodes two_ctx. vn_is_used (two_mem p)} = {Boot 0 0, Boot 0 1}"
    by (auto simp: two_mem_def fresh_mem_def init_node_def zero_node_def split: if_splits)
  then have "vrep two_ctx two_mem [Boot 0 0, Boot 0 1]"
    by (simp add: vrep_def) (simp add: two_ctx_def two_mem_def fresh_ctx_def init_node_def)
  moreover have "ranges two_mem [Boot 0 0, Boot 0 1] = two_ranges"
    by (simp add: two_mem_def range_of_def init_node_def)
  ultimately show ?thesis unfolding virt_inv_def by (auto simp: ranges_ok_def)
qed

lemma two_room: "room 2 two_ctx"
  by (simp add: room_def two_ctx_def node_count_def fresh_ctx_def BOOTSTRAP_VIRT_ALLOC_NODES_def)

abbreviation no_kalloc :: kalloc_fun where "no_kalloc \<equiv> \<lambda>_ _ _. None"
abbreviation no_kfree :: kfree_fun where "no_kfree \<equiv> \<lambda>_ _ _. None"

lemma two_take_spec:
  "take_spec 0x2000000 (page_bytes 3) two_ranges =
     Some [(0, 0x1000000, True), (0x1000000, 0x2000000, False), (0x2000000, 0x2003000, True),
           (0x2003000, 0x1000000000000, False)]"
  by code_simp


theorem virtaddr_free_refines_witness:
  "\<exists>r ctx' mem'. virtaddr_free two_ctx 0x1000000 two_mem = Some (r, ctx', mem') \<and> virt_inv ctx' mem' two_ranges"
proof -
  have "free_spec 0x1000000 [] two_ranges = Some two_ranges" by code_simp
  moreover have "\<not> (0x1000000 = (0 :: u64) \<or> 0x1000000 mod PAGE_SIZE \<noteq> 0)" by code_simp
  ultimately show ?thesis using virtaddr_free_refines [OF two_inv, of "0x1000000"] by auto
qed

theorem virtaddr_alloc_then_take_witness:
  "\<exists>ctx' mem' rs'. virtaddr_take no_kalloc no_kfree two_ctx 0x1000000 3 two_mem = Some (0, ctx', mem') \<and>
     virt_inv ctx' mem' rs' \<and> taken rs' = taken two_ranges \<union> {0x1000000..<0x1003000}"
proof -
  have "virtaddr_alloc two_ctx 3 two_mem = Some 0x1000000"
    using virtaddr_alloc_spec [OF two_inv, of 3] by simp (code_simp)
  then show ?thesis
    using virtaddr_alloc_then_take [OF two_inv two_room, of 3 no_kalloc no_kfree] by auto
qed


theorem virtaddr_init_inv_witness:
  "\<exists>ctx' mem'. virtaddr_init no_kalloc no_kfree 0x150000 two_ctx two_mem = Some (ctx', mem') \<and>
     virt_inv ctx' mem' [(0, 0x50000000, True), (0x50000000, 0x1000000000000, False)]"
  using virtaddr_init_inv [of "0x150000" 336 no_kalloc no_kfree two_ctx two_mem] by simp

theorem virtaddr_init_wraps_witness:
  "\<exists>ctx' mem'. virtaddr_init no_kalloc no_kfree 0x200000 two_ctx two_mem = Some (ctx', mem') \<and>
     virtaddr_alloc ctx' 1 mem' = Some 0"
  using virtaddr_init_wraps [of "0x200000" 512 1 no_kalloc no_kfree two_ctx two_mem] by simp


section \<open>Cloning\<close>

abbreviation heap_block :: kalloc_fun where "heap_block \<equiv> \<lambda>_ ctx mem. Some (0x40000000, ctx, mem)"

text \<open>Cloning relinks the bootstrap nodes in the order of the array, not of the list. After three
  pages are taken from the middle of the free range, the clone's list goes from the range that ends
  at 16 MiB straight to the one that starts at 32 MiB, and the range between them follows later.\<close>

theorem virtaddr_clone_reorders:
  "(do { (r, ctx, mem) \<leftarrow> virtaddr_take no_kalloc no_kfree two_ctx 0x2000000 3 two_mem;
         (r', ctx', mem') \<leftarrow> virtaddr_clone heap_block ctx 1 mem;
         Some (r', start_node ctx', vn_end (mem' (Boot 1 0)), vn_next (mem' (Boot 1 0)),
               vn_start (mem' (Boot 1 1)), vn_next (mem' (Boot 1 1)), vn_start (mem' (Boot 1 2))) }) =
   Some (0, Some (Boot 1 0), 0x1000000, Some (Boot 1 1), 0x2000000, Some (Boot 1 2), 0x1000000)"
  by code_simp

end
