(* ===== verification/Memory.thy ===== *)
theory Memory
  imports Paging Virtalloc Pcb
begin

text \<open>
  Memory contexts: the operations at the end of \<^verbatim>\<open>kernel/memory/paging.c\<close>, which combine the address
  allocator of a context, its page tables and the page allocator, and \<^verbatim>\<open>kernel/memory/memory.c\<close>, which
  keeps the contexts. A context is named by its index: the user contexts are 0 to \<^verbatim>\<open>N_PROCS - 1\<close>, the
  kernel's is \<^verbatim>\<open>N_PROCS\<close>. A failed assertion is \<open>None\<close>.

  \<^verbatim>\<open>kalloc\<close> and \<^verbatim>\<open>kfree\<close>, with which the address allocator grows its array of nodes, are arguments; the
  kernel's page tables do not record the pages behind such an array.
\<close>

section \<open>State\<close>

record mem_ctx =
  pml4 :: u64
  virtctx :: virt_ctx
  mc_next :: "nat option"
  mc_prev :: "nat option"

record memstate =
  pgs :: pgstate
  nodes :: vmem
  ctx_of :: "nat \<Rightarrow> mem_ctx"
  user_mem_ctx_next :: "nat option"
  cr3 :: u64

definition kernel_mem_ctx :: nat where "kernel_mem_ctx = N_PROCS"

definition upd_ctx :: "nat \<Rightarrow> (mem_ctx \<Rightarrow> mem_ctx) \<Rightarrow> memstate \<Rightarrow> memstate" where
  "upd_ctx c f ms = ms\<lparr>ctx_of := (ctx_of ms)(c := f (ctx_of ms c))\<rparr>"

text \<open>Running an operation of the address allocator of the context \<open>c\<close>, or one on the page tables.\<close>

definition on_virt :: "nat \<Rightarrow> (virt_ctx \<Rightarrow> vmem \<Rightarrow> ('a \<times> virt_ctx \<times> vmem) option) \<Rightarrow> memstate \<Rightarrow> ('a \<times> memstate) option" where
  "on_virt c f ms = map_option (\<lambda>(r, vc, mem). (r, (upd_ctx c (\<lambda>x. x\<lparr>virtctx := vc\<rparr>) ms)\<lparr>nodes := mem\<rparr>))
     (f (virtctx (ctx_of ms c)) (nodes ms))"

definition on_pages :: "(pgstate \<Rightarrow> ('a \<times> pgstate) option) \<Rightarrow> memstate \<Rightarrow> ('a \<times> memstate) option" where
  "on_pages f ms = map_option (\<lambda>(r, pg). (r, ms\<lparr>pgs := pg\<rparr>)) (f (pgs ms))"

definition in_pages :: "(pgstate \<Rightarrow> pgstate option) \<Rightarrow> memstate \<Rightarrow> memstate option" where
  "in_pages f ms = map_option (\<lambda>pg. ms\<lparr>pgs := pg\<rparr>) (f (pgs ms))"

definition virt_alloc :: "nat \<Rightarrow> u64 \<Rightarrow> memstate \<Rightarrow> u64 option" where
  "virt_alloc c pages ms = virtaddr_alloc (virtctx (ctx_of ms c)) (ucast pages) (nodes ms)"

definition virt_take :: "kalloc_fun \<Rightarrow> kfree_fun \<Rightarrow> nat \<Rightarrow> u64 \<Rightarrow> u64 \<Rightarrow> memstate \<Rightarrow> (int \<times> memstate) option" where
  "virt_take kalloc kfree c virt pages ms = on_virt c (\<lambda>vc. virtaddr_take kalloc kfree vc virt (ucast pages)) ms"

definition virt_free :: "nat \<Rightarrow> u64 \<Rightarrow> memstate \<Rightarrow> (int \<times> memstate) option" where
  "virt_free c virt ms = on_virt c (\<lambda>vc. virtaddr_free vc virt) ms"

section \<open>Mapping\<close>

definition mem_mapaddr :: "kalloc_fun \<Rightarrow> kfree_fun \<Rightarrow> nat \<Rightarrow> u64 \<Rightarrow> u64 \<Rightarrow> u64 \<Rightarrow> u64 \<Rightarrow> memstate \<Rightarrow> (u64 \<times> memstate) option" where
  "mem_mapaddr kalloc kfree c pADDR virt len flags ms = do {
     let error = pADDR mod PAGE_SIZE;
     let len = len + error;
     let pages = (len + PAGE_SIZE - 1) div PAGE_SIZE;
     let aligned_phys = pADDR - error;
     virt \<leftarrow> (if virt = 0 then virt_alloc c pages ms else Some virt);
     (if virt = 0 then Some (0, ms)
      else do {
        (r, ms) \<leftarrow> virt_take kalloc kfree c virt pages ms;
        (if r \<noteq> 0 then Some (0, ms)
         else if virt mod PAGE_SIZE \<noteq> 0 then None
         else do {
           (e, ms) \<leftarrow> on_pages (map_pages (pml4 (ctx_of ms c)) virt aligned_phys (PTE_PRESENT OR flags) (sint pages)) ms;
           (if e \<noteq> 0 then do { (_, ms) \<leftarrow> virt_free c virt ms; Some (0, ms) }
            else Some (virt + error, ms))
         })
      })
   }"

definition mem_get_phys :: "nat \<Rightarrow> u64 \<Rightarrow> memstate \<Rightarrow> (u64 \<times> memstate) option" where
  "mem_get_phys c vADDR ms = do {
     (pte, ms) \<leftarrow> on_pages (page_locate (pml4 (ctx_of ms c)) vADDR) ms;
     (case pte of
        None \<Rightarrow> Some (0, ms)
      | Some k \<Rightarrow> do {
          e \<leftarrow> rd 3 k (pgs ms);
          Some (pointee e + vADDR mod PAGE_SIZE, ms)
        })
   }"

text \<open>The loop of \<^verbatim>\<open>kmapuseraddr\<close> from page \<open>i\<close> on with \<open>n\<close> to go; the result is the page at which it failed, if any.
  The clean up uses the symbol \<^verbatim>\<open>kernel_pml4\<close>, which is \<open>kp\<close> here.\<close>

fun kmapuser_loop :: "nat \<Rightarrow> u64 \<Rightarrow> u64 \<Rightarrow> nat \<Rightarrow> nat \<Rightarrow> memstate \<Rightarrow> (nat option \<times> memstate) option" where
  "kmapuser_loop c usrADDR vADDR i 0 ms = Some (None, ms)"
| "kmapuser_loop c usrADDR vADDR i (Suc n) ms = do {
     (p, ms) \<leftarrow> mem_get_phys c (usrADDR + of_nat i * PAGE_SIZE) ms;
     (if p = 0 then Some (Some i, ms)
      else do {
        (e, ms) \<leftarrow> on_pages (map_pages (pml4 (ctx_of ms kernel_mem_ctx)) (vADDR + of_nat i * PAGE_SIZE)
                     (p div PAGE_SIZE * PAGE_SIZE) (PTE_PRESENT OR PTE_WRITEABLE) 1) ms;
        (if e \<noteq> 0 then Some (Some i, ms) else kmapuser_loop c usrADDR vADDR (Suc i) n ms)
      })
   }"

definition kmapuseraddr :: "kalloc_fun \<Rightarrow> kfree_fun \<Rightarrow> u64 \<Rightarrow> nat \<Rightarrow> u64 \<Rightarrow> u64 \<Rightarrow> memstate \<Rightarrow> (u64 \<times> memstate) option" where
  "kmapuseraddr kalloc kfree kp c usrADDR len ms = do {
     let npages = (len + PAGE_SIZE - 1) div PAGE_SIZE;
     let error = usrADDR mod PAGE_SIZE;
     vADDR \<leftarrow> virt_alloc kernel_mem_ctx npages ms;
     (if vADDR = 0 then Some (0, ms)
      else do {
        (r, ms) \<leftarrow> virt_take kalloc kfree kernel_mem_ctx vADDR npages ms;
        (if r \<noteq> 0 then Some (0, ms)
         else if vADDR mod PAGE_SIZE \<noteq> 0 then None
         else do {
           (bad, ms) \<leftarrow> kmapuser_loop c usrADDR vADDR 0 (unat npages) ms;
           (case bad of
              None \<Rightarrow> Some (vADDR + error, ms)
            | Some i \<Rightarrow> do {
                ms \<leftarrow> in_pages (unmap_pages kp vADDR i False) ms;
                (_, ms) \<leftarrow> virt_free kernel_mem_ctx vADDR ms;
                Some (0, ms)
              })
         })
      })
   }"

definition mem_unmapaddr :: "u64 \<Rightarrow> nat \<Rightarrow> u64 \<Rightarrow> memstate \<Rightarrow> memstate option" where
  "mem_unmapaddr kp c virt ms =
     (if virt = 0 then Some ms
      else do {
        let virt = virt div PAGE_SIZE * PAGE_SIZE;
        (pages, ms) \<leftarrow> virt_free c virt ms;
        (if pages < 1 then Some ms else in_pages (unmap_pages kp virt (nat pages) False) ms)
      })"

section \<open>Pages\<close>

text \<open>\<^verbatim>\<open>alloc_phys_pages_exact\<close> and \<^verbatim>\<open>free_phys_pages\<close> on the state.\<close>

definition phys_alloc :: "u64 \<Rightarrow> memstate \<Rightarrow> (u64 \<times> memstate) option" where
  "phys_alloc n ms = map_option (\<lambda>(p, ph). (p, ms\<lparr>pgs := (pgs ms)\<lparr>phys := ph\<rparr>\<rparr>)) (alloc_phys_pages_exact n (phys (pgs ms)))"

definition phys_free :: "u64 \<Rightarrow> u64 \<Rightarrow> memstate \<Rightarrow> memstate option" where
  "phys_free p n ms = map_option (\<lambda>ph. ms\<lparr>pgs := (pgs ms)\<lparr>phys := ph\<rparr>\<rparr>) (free_phys_pages p n (phys (pgs ms)))"

definition mem_alloc_pages_at :: "kalloc_fun \<Rightarrow> kfree_fun \<Rightarrow> nat \<Rightarrow> u64 \<Rightarrow> u64 \<Rightarrow> u64 \<Rightarrow> memstate \<Rightarrow> (u64 \<times> memstate) option" where
  "mem_alloc_pages_at kalloc kfree c npages virt flags ms = do {
     (r, ms) \<leftarrow> virt_take kalloc kfree c virt npages ms;
     (if r \<noteq> 0 then Some (0, ms)
      else do {
        (p, ms) \<leftarrow> phys_alloc npages ms;
        (e, ms) \<leftarrow> (if p = 0 then Some (1, ms) else on_pages (map_pages (pml4 (ctx_of ms c)) virt p flags (sint npages)) ms);
        (if e = 0 then Some (virt, ms)
         else do {
           ms \<leftarrow> phys_free p npages ms;
           (_, ms) \<leftarrow> virt_free c virt ms;
           Some (0, ms)
         })
      })
   }"

definition mem_alloc_pages :: "kalloc_fun \<Rightarrow> kfree_fun \<Rightarrow> nat \<Rightarrow> u64 \<Rightarrow> u64 \<Rightarrow> memstate \<Rightarrow> (u64 \<times> memstate) option" where
  "mem_alloc_pages kalloc kfree c npages flags ms = do {
     virt \<leftarrow> virt_alloc c npages ms;
     (if virt = 0 then Some (0, ms)
      else do {
        (p, ms) \<leftarrow> mem_alloc_pages_at kalloc kfree c npages virt flags ms;
        (if p = 0 then do { (_, ms) \<leftarrow> virt_free c virt ms; Some (0, ms) } else Some (virt, ms))
      })
   }"

definition mem_alloc_page :: "kalloc_fun \<Rightarrow> kfree_fun \<Rightarrow> nat \<Rightarrow> u64 \<Rightarrow> memstate \<Rightarrow> (u64 \<times> memstate) option" where
  "mem_alloc_page kalloc kfree c flags ms = mem_alloc_pages kalloc kfree c 1 flags ms"

definition mem_alloc_page_at :: "kalloc_fun \<Rightarrow> kfree_fun \<Rightarrow> nat \<Rightarrow> u64 \<Rightarrow> u64 \<Rightarrow> memstate \<Rightarrow> (u64 \<times> memstate) option" where
  "mem_alloc_page_at kalloc kfree c virt flags ms = mem_alloc_pages_at kalloc kfree c 1 virt flags ms"

definition mem_free_pages :: "nat \<Rightarrow> u64 \<Rightarrow> memstate \<Rightarrow> memstate option" where
  "mem_free_pages c virt ms =
     (if virt = 0 then Some ms
      else do {
        (pages, ms) \<leftarrow> virt_free c virt ms;
        in_pages (unmap_pages (pml4 (ctx_of ms c)) virt (nat pages) True) ms
      })"

section \<open>The kernel's context\<close>

definition kmapaddr :: "kalloc_fun \<Rightarrow> kfree_fun \<Rightarrow> u64 \<Rightarrow> u64 \<Rightarrow> u64 \<Rightarrow> u64 \<Rightarrow> memstate \<Rightarrow> (u64 \<times> memstate) option" where
  "kmapaddr kalloc kfree pADDR virt len flags ms = mem_mapaddr kalloc kfree kernel_mem_ctx pADDR virt len flags ms"

definition kunmapaddr :: "u64 \<Rightarrow> u64 \<Rightarrow> memstate \<Rightarrow> memstate option" where
  "kunmapaddr kp virt ms = mem_unmapaddr kp kernel_mem_ctx virt ms"

definition kget_phys :: "u64 \<Rightarrow> memstate \<Rightarrow> (u64 \<times> memstate) option" where
  "kget_phys virt ms = mem_get_phys kernel_mem_ctx virt ms"

definition kalloc_page :: "kalloc_fun \<Rightarrow> kfree_fun \<Rightarrow> memstate \<Rightarrow> (u64 \<times> memstate) option" where
  "kalloc_page kalloc kfree ms = mem_alloc_page kalloc kfree kernel_mem_ctx (PTE_PRESENT OR PTE_WRITEABLE) ms"

definition kalloc_pages :: "kalloc_fun \<Rightarrow> kfree_fun \<Rightarrow> u64 \<Rightarrow> memstate \<Rightarrow> (u64 \<times> memstate) option" where
  "kalloc_pages kalloc kfree npages ms = mem_alloc_pages kalloc kfree kernel_mem_ctx npages (PTE_PRESENT OR PTE_WRITEABLE) ms"

definition kfree_pages :: "u64 \<Rightarrow> memstate \<Rightarrow> memstate option" where
  "kfree_pages ptr ms = mem_free_pages kernel_mem_ctx ptr ms"

section \<open>Contexts\<close>

text \<open>Popping the context \<open>c\<close> off the list of free ones, which \<^verbatim>\<open>mem_ctx_alloc\<close> and \<^verbatim>\<open>mem_ctx_clone\<close> share, and pushing.\<close>

definition unlink_ctx :: "nat \<Rightarrow> memstate \<Rightarrow> memstate" where
  "unlink_ctx c ms =
     (let p = mc_prev (ctx_of ms c);
          ms = ms\<lparr>user_mem_ctx_next := p\<rparr>;
          ms = (case p of None \<Rightarrow> ms | Some q \<Rightarrow> upd_ctx q (\<lambda>x. x\<lparr>mc_next := None\<rparr>) ms)
      in upd_ctx c (\<lambda>x. x\<lparr>mc_prev := None\<rparr>) ms)"

definition push_ctx :: "nat \<Rightarrow> memstate \<Rightarrow> memstate" where
  "push_ctx c ms =
     (case user_mem_ctx_next ms of
        None \<Rightarrow> ms\<lparr>user_mem_ctx_next := Some c\<rparr>
      | Some n \<Rightarrow> (upd_ctx c (\<lambda>x. x\<lparr>mc_prev := Some n\<rparr>) (upd_ctx n (\<lambda>x. x\<lparr>mc_next := Some c\<rparr>) ms))\<lparr>user_mem_ctx_next := Some c\<rparr>)"

definition mem_ctx_alloc :: "kalloc_fun \<Rightarrow> kfree_fun \<Rightarrow> memstate \<Rightarrow> (nat option \<times> memstate) option" where
  "mem_ctx_alloc kalloc kfree ms =
     (case user_mem_ctx_next ms of
        None \<Rightarrow> Some (None, ms)
      | Some c \<Rightarrow> do {
          (p, ms) \<leftarrow> on_pages pgdir_alloc ms;
          let ms = upd_ctx c (\<lambda>x. x\<lparr>pml4 := p\<rparr>) ms;
          (if p = 0 then Some (None, ms)
           else do {
             (_, ms) \<leftarrow> on_virt c (\<lambda>vc mem. map_option (\<lambda>r. ((), r)) (virtaddr_init kalloc kfree (kernel_end (phys (pgs ms))) vc mem)) ms;
             Some (Some c, unlink_ctx c ms)
           })
        })"

definition mem_ctx_clone :: "kalloc_fun \<Rightarrow> nat option \<Rightarrow> memstate \<Rightarrow> (nat option \<times> memstate) option" where
  "mem_ctx_clone kalloc old ms =
     (case old of
        None \<Rightarrow> None
      | Some d \<Rightarrow>
          if pml4 (ctx_of ms d) = 0 then None
          else case user_mem_ctx_next ms of
            None \<Rightarrow> Some (None, ms)
          | Some c \<Rightarrow> do {
              (p, ms) \<leftarrow> on_pages (pgdir_clone (pml4 (ctx_of ms d))) ms;
              let ms = upd_ctx c (\<lambda>x. x\<lparr>pml4 := p\<rparr>) ms;
              (if p = 0 then Some (None, ms)
               else do {
                 (r, ms) \<leftarrow> on_virt c (\<lambda>vc. virtaddr_clone kalloc (virtctx (ctx_of ms d)) (ctx_id vc)) ms;
                 (if r \<noteq> 0 then do { ms \<leftarrow> in_pages (pgdir_free p) ms; Some (None, ms) }
                  else Some (Some c, unlink_ctx c ms))
               })
            })"

definition mem_ctx_free :: "kfree_fun \<Rightarrow> nat option \<Rightarrow> memstate \<Rightarrow> memstate option" where
  "mem_ctx_free kfree ctx ms =
     (case ctx of
        None \<Rightarrow> None
      | Some c \<Rightarrow>
          if pml4 (ctx_of ms c) = 0 then None
          else do {
            ms \<leftarrow> in_pages (pgdir_free (pml4 (ctx_of ms c))) ms;
            (_, ms) \<leftarrow> on_virt c (\<lambda>vc mem. map_option (\<lambda>r. ((), r)) (virtaddr_cleanup kfree vc mem)) ms;
            Some (push_ctx c ms)
          })"

definition mem_ctx_switch :: "nat option \<Rightarrow> memstate \<Rightarrow> memstate option" where
  "mem_ctx_switch ctx ms =
     (case ctx of
        None \<Rightarrow> None
      | Some c \<Rightarrow> if pml4 (ctx_of ms c) = 0 then None else Some (ms\<lparr>cr3 := pml4 (ctx_of ms c)\<rparr>))"

definition mem_ctx_pgdir :: "nat option \<Rightarrow> memstate \<Rightarrow> u64 option" where
  "mem_ctx_pgdir ctx ms =
     (case ctx of
        None \<Rightarrow> None
      | Some c \<Rightarrow> if pml4 (ctx_of ms c) = 0 then None else Some (pml4 (ctx_of ms c)))"

section \<open>Initialisation\<close>

definition SEG_TYPE_EFI :: u32 where "SEG_TYPE_EFI = 5"

fun map_efi :: "kalloc_fun \<Rightarrow> kfree_fun \<Rightarrow> memory_segment list \<Rightarrow> memstate \<Rightarrow> memstate option" where
  "map_efi kalloc kfree [] ms = Some ms"
| "map_efi kalloc kfree (s # ss) ms =
     (if seg_type s \<noteq> SEG_TYPE_EFI then map_efi kalloc kfree ss ms
      else do {
        (_, ms) \<leftarrow> kmapaddr kalloc kfree (seg_addr s) (seg_addr s) (seg_len s) PTE_WRITEABLE ms;
        map_efi kalloc kfree ss ms
      })"

fun list_ctxs :: "nat \<Rightarrow> nat \<Rightarrow> memstate \<Rightarrow> memstate" where
  "list_ctxs i 0 ms = ms"
| "list_ctxs i (Suc n) ms =
     list_ctxs (Suc i) n (push_ctx i (upd_ctx i (\<lambda>x. x\<lparr>mc_next := None, mc_prev := None\<rparr>) ms))"

text \<open>While \<^verbatim>\<open>physalloc_init\<close> runs, its calls of \<^verbatim>\<open>kmapaddr\<close> work on the whole state, which the page allocator's
  own variables carry along.\<close>

record booting = physalloc +
  rest :: memstate

definition boot_up :: "memstate \<Rightarrow> booting" where
  "boot_up ms = physalloc.extend (phys (pgs ms)) (booting.fields ms)"

definition boot_down :: "booting \<Rightarrow> memstate" where
  "boot_down b = (rest b)\<lparr>pgs := (pgs (rest b))\<lparr>phys := physalloc.truncate b\<rparr>\<rparr>"

definition boot_kmap :: "kalloc_fun \<Rightarrow> kfree_fun \<Rightarrow> u64 \<Rightarrow> u64 \<Rightarrow> booting \<Rightarrow> (u64 \<times> booting) option" where
  "boot_kmap kalloc kfree addr len b =
     map_option (\<lambda>(v, ms). (v, boot_up ms)) (kmapaddr kalloc kfree addr 0 len PTE_WRITEABLE (boot_down b))"

text \<open>The memory map comes from the boot loader or the firmware; having neither is a panic.\<close>

definition memory_init :: "kalloc_fun \<Rightarrow> kfree_fun \<Rightarrow> ksyms \<Rightarrow> u64 \<Rightarrow> memory_segment list option \<Rightarrow> memstate \<Rightarrow> memstate option" where
  "memory_init kalloc kfree k mboot_end mmap ms = do {
     mmap \<leftarrow> mmap;
     let ms = upd_ctx kernel_mem_ctx (\<lambda>x. x\<lparr>pml4 := kernel_pml4 k\<rparr>) ms;
     let ms = ms\<lparr>pgs := paging_init k (pgs ms), cr3 := kernel_pml4 k\<rparr>;
     (_, ms) \<leftarrow> on_virt kernel_mem_ctx
       (\<lambda>vc mem. map_option (\<lambda>r. ((), r)) (virtaddr_init kalloc kfree (kernel_end (phys (pgs ms))) vc mem)) ms;
     b \<leftarrow> physalloc_init mboot_end (boot_kmap kalloc kfree) mmap (boot_up ms);
     ms \<leftarrow> map_efi kalloc kfree mmap (boot_down b);
     Some (list_ctxs 0 N_PROCS ms)
   }"

section \<open>The three allocators together\<close>

text \<open>The invariant of the context \<open>c\<close>: its address allocator represents \<open>rs\<close>, and its page tables are a tree.\<close>

definition ctx_ok :: "nat \<Rightarrow> range list \<Rightarrow> memstate \<Rightarrow> bool" where
  "ctx_ok c rs ms \<longleftrightarrow> virt_inv (virtctx (ctx_of ms c)) (nodes ms) rs \<and> pg_ok (pml4 (ctx_of ms c)) (pgs ms)"

abbreviation ctx_view :: "nat \<Rightarrow> memstate \<Rightarrow> u64 \<Rightarrow> (u64 \<times> u64) option" where
  "ctx_view c ms \<equiv> view (pml4 (ctx_of ms c)) (pgs ms)"

lemma on_virt_simps:
  assumes "on_virt c f ms = Some (r, ms')"
  shows "pgs ms' = pgs ms" "pml4 (ctx_of ms' c) = pml4 (ctx_of ms c)" "d \<noteq> c \<Longrightarrow> ctx_of ms' d = ctx_of ms d"
    "f (virtctx (ctx_of ms c)) (nodes ms) = Some (r, virtctx (ctx_of ms' c), nodes ms')"
  using assms by (auto simp: on_virt_def upd_ctx_def)

text \<open>Lengths that fit the address allocator's int.\<close>

lemma small_pages_cast:
  fixes n :: u64
  assumes "0 < n" "unat n < 2 ^ 19"
  shows "unat (ucast n :: u32) = unat n" "0 < (ucast n :: u32)" "sint n = int (unat n)"
proof -
  show u: "unat (ucast n :: u32) = unat n" using assms(2) by (simp add: unsigned_ucast_eq take_bit_nat_eq_self)
  show "0 < (ucast n :: u32)" using u assms(1) by (metis unat_gt_0 word_gt_0)
  show "sint n = int (unat n)" using assms(2) sint_nonneg [of n] by simp
qed

lemma phys_block:
  assumes ok: "pg_ok root st" and n: "0 < n"
  obtains (none) "alloc_phys_pages_exact n (phys st) = Some (0, phys st)"
    | (block) s ph where "alloc_phys_pages_exact n (phys st) = Some (page_list (phys st) ! s, ph)"
      "pg_ok root (st\<lparr>phys := ph\<rparr>)" "grown root st (st\<lparr>phys := ph\<rparr>)" "page_list (phys st) ! s \<noteq> 0"
      "s < length (page_list (phys st))" "s + unat n \<le> unat (page_count (phys st))" "same_tables (phys st) ph"
      "set (take (unat n) (drop s (page_list (phys st)))) \<inter> owned_pages (phys st) = {}"
      "set (take (unat n) (drop s (page_list (phys st)))) \<subseteq> owned_pages ph"
proof -
  have d: "physalloc_ok (phys st)" "distinct (page_list (phys st))" using ok by (auto simp: pg_ok_def physalloc_distinct_def)
  show thesis
  proof (cases rule: alloc_phys_pages_exact_cases [OF d(1) n, case_names full run])
    case full
    then show thesis using none by simp
  next
    case (run s ph)
    have pl: "page_list ph = page_list (phys st)" using run(7) by (rule page_list_same_tables)
    have mono: "owned_pages (phys st) \<subseteq> owned_pages ph" using run(9) pl by (auto simp: owned_pages_def)
    have "pg_ok root (st\<lparr>phys := ph\<rparr>)"
      using ok pl mono run(8) by (auto simp: pg_ok_def physalloc_distinct_def)
    moreover have "grown root st (st\<lparr>phys := ph\<rparr>)" using pl mono run(7) by (auto simp: grown_def kept_def)
    moreover have "x \<in> owned_pages ph \<and> x \<notin> owned_pages (phys st)" if x: "x \<in> set (take (unat n) (drop s (page_list (phys st))))" for x
    proof -
      obtain i where i: "i < unat n" "s + i < length (page_list (phys st))" "x = page_list (phys st) ! (s + i)"
        using x by (auto simp: in_set_conv_nth)
      then have "page_used ph (s + i)" "\<not> page_used (phys st) (s + i)" using run(5) by (auto simp: takes_run_def)
      then show ?thesis using i d(2) pl by (auto simp: owned_pages_def nth_eq_iff_index_eq)
    qed
    ultimately show thesis using block [of s ph] run by blast
  qed
qed

lemma phys_free_returns:
  assumes "physalloc_ok st" "pages_indexed st" "s < length (page_list st)" "s + unat n \<le> unat (page_count st)"
  shows "\<exists>st'. free_phys_pages (page_list st ! s) n st = Some st'"
proof (cases "page_idx (page_list st ! s) st = -1")
  case False
  have lt: "s + unat n < 2 ^ 64" using assms(4) unat_lt64 [of "page_count st"] by linarith
  have u: "unat (page_idx (page_list st ! s) st) = s" using assms(2,3) lt by (simp add: pages_indexed_def unat_of_nat)
  have "\<And>j. s \<le> j \<Longrightarrow> j < s + unat n \<Longrightarrow> in_bitmap st j" using assms(1,4) by (auto simp: physalloc_ok_def)
  then obtain st' where "bitmap_set_range s (unat n) False st = Some st'"
    by (rule bitmap_set_range_used [where v = False]) auto
  then show ?thesis using False lt u by (simp add: free_phys_pages_def Let_def free_loop_range)
qed (simp add: free_phys_pages_def)

lemma virt_free_ok:
  assumes "virt_inv (virtctx (ctx_of ms c)) (nodes ms) rs"
  obtains r ms' rs' where "virt_free c v ms = Some (r, ms')" "pgs ms' = pgs ms" "pml4 (ctx_of ms' c) = pml4 (ctx_of ms c)"
    "virt_inv (virtctx (ctx_of ms' c)) (nodes ms') rs'"
    "case (if v = 0 \<or> v mod PAGE_SIZE \<noteq> 0 then None else free_spec v [] rs) of
       None \<Rightarrow> r = -1 \<and> rs' = rs | Some rs1 \<Rightarrow> rs' = rs1 \<and> (\<exists>e al. (v, e, al) \<in> set rs \<and> r = int_pages (e - v))"
proof -
  obtain r vc mem where v: "virtaddr_free (virtctx (ctx_of ms c)) v (nodes ms) = Some (r, vc, mem)"
    "case (if v = 0 \<or> v mod PAGE_SIZE \<noteq> 0 then None else free_spec v [] rs) of
       None \<Rightarrow> r = -1 \<and> vc = virtctx (ctx_of ms c) \<and> mem = nodes ms
     | Some rs' \<Rightarrow> virt_inv vc mem rs' \<and> (\<exists>e al. (v, e, al) \<in> set rs \<and> r = int_pages (e - v))"
    using virtaddr_free_inv [OF assms, of v] by blast
  obtain ms' where ms': "virt_free c v ms = Some (r, ms')" "virtctx (ctx_of ms' c) = vc" "nodes ms' = mem"
    using v(1) by (simp add: virt_free_def on_virt_def upd_ctx_def)
  note vs = on_virt_simps [OF ms'(1) [unfolded virt_free_def]]
  show thesis
  proof (cases "if v = 0 \<or> v mod PAGE_SIZE \<noteq> 0 then None else free_spec v [] rs")
    case None
    then show thesis using that [OF ms'(1) vs(1,2), of rs] v(2) ms'(2,3) assms by simp
  next
    case (Some rs1)
    then show thesis using that [OF ms'(1) vs(1,2), of rs1] v(2) ms'(2,3) by simp
  qed
qed

text \<open>What the context has after a successful allocation of \<open>n\<close> pages at \<open>v\<close>: the pages of the table from some index on,
  none of which was in use, are in use and mapped at \<open>v\<close>.\<close>

definition allocated :: "nat \<Rightarrow> u64 \<Rightarrow> nat \<Rightarrow> u64 \<Rightarrow> memstate \<Rightarrow> memstate \<Rightarrow> bool" where
  "allocated c v n flags ms ms' \<longleftrightarrow>
     (\<exists>s. let P = phys (pgs ms); B = set (take n (drop s (page_list P))) in
        s < length (page_list P) \<and> B \<inter> owned_pages P = {} \<and> B \<subseteq> owned_pages (phys (pgs ms')) \<and>
        (\<forall>u. low48 u \<longrightarrow> ctx_view c ms' u = mapped v (page_list P ! s) flags n (ctx_view c ms) u))"

lemma mem_alloc_pages_at_ok:
  assumes ok: "ctx_ok c rs ms" and room: "room 2 (virtctx (ctx_of ms c))" and n: "0 < n" "unat n < 2 ^ 19"
    and take: "take_spec v (page_bytes (ucast n)) rs = Some rs'" and v: "unat v + 8192 * unat n \<le> 2 ^ 48"
    and idx: "pages_indexed (phys (pgs ms))"
  obtains r ms' rs'' where "mem_alloc_pages_at kalloc kfree c n v flags ms = Some (r, ms')"
    "virt_inv (virtctx (ctx_of ms' c)) (nodes ms') rs''"
    "r \<noteq> 0 \<Longrightarrow> r = v \<and> rs'' = rs' \<and> ctx_ok c rs' ms' \<and> allocated c v (unat n) flags ms ms'"
proof -
  note nc = small_pages_cast [OF n]
  have inv: "virt_inv (virtctx (ctx_of ms c)) (nodes ms) rs" and pg: "pg_ok (pml4 (ctx_of ms c)) (pgs ms)"
    using ok by (auto simp: ctx_ok_def)
  have v63: "v < 2 ^ 63" using v by (simp add: word_less_nat_alt)
  obtain vc mem where t: "virtaddr_take kalloc kfree (virtctx (ctx_of ms c)) v (ucast n) (nodes ms) = Some (0, vc, mem)" "virt_inv vc mem rs'"
    using virtaddr_take_inv [OF inv room nc(2) _ v63, of kalloc kfree] nc(1) n(2) take by auto
  obtain ms1 where m1: "virt_take kalloc kfree c v n ms = Some (0, ms1)" "virtctx (ctx_of ms1 c) = vc" "nodes ms1 = mem"
    using t(1) by (simp add: virt_take_def on_virt_def upd_ctx_def)
  note s1 = on_virt_simps [OF m1(1) [unfolded virt_take_def]]
  have inv1: "virt_inv (virtctx (ctx_of ms1 c)) (nodes ms1) rs'" using t(2) m1 by simp
  show thesis
  proof (cases rule: phys_block [OF pg n(1), case_names none block])
    case none
    obtain r ms' rs2 where "virt_free c v ms1 = Some (r, ms')" "virt_inv (virtctx (ctx_of ms' c)) (nodes ms') rs2"
      by (rule virt_free_ok [OF inv1, of v])
    moreover have "phys_alloc n ms1 = Some (0, ms1)" using none s1(1) by (simp add: phys_alloc_def)
    moreover have "phys_free 0 n ms1 = Some ms1" by (simp add: phys_free_def free_phys_pages_def)
    ultimately have "mem_alloc_pages_at kalloc kfree c n v flags ms = Some (0, ms')"
      using m1(1) by (simp add: mem_alloc_pages_at_def)
    then show thesis using that \<open>virt_inv (virtctx (ctx_of ms' c)) (nodes ms') rs2\<close> by blast
  next
    case (block s ph)
    let ?p = "page_list (phys (pgs ms)) ! s" and ?root = "pml4 (ctx_of ms c)"
    define ms2 where "ms2 = ms1\<lparr>pgs := (pgs ms1)\<lparr>phys := ph\<rparr>\<rparr>"
    have m2: "phys_alloc n ms1 = Some (?p, ms2)" using block(1) s1(1) by (simp add: phys_alloc_def ms2_def)
    have p2: "pgs ms2 = (pgs ms)\<lparr>phys := ph\<rparr>" "ctx_of ms2 = ctx_of ms1" "nodes ms2 = nodes ms1" using s1(1) by (simp_all add: ms2_def)
    obtain e st' where map: "map_pages ?root v ?p flags (sint n) (pgs ms2) = Some (e, st')" "pg_ok ?root st'" "grown ?root (pgs ms2) st'"
        "e = 0 \<and> (\<forall>u. low48 u \<longrightarrow> view ?root st' u = mapped v ?p flags (unat n) (view ?root (pgs ms2)) u) \<or> e = 1"
      using map_loop_ok [OF block(2), of v "unat n" "unat n" ?p flags] v nc(3) p2(1) unfolding map_pages_def by auto
    define ms3 where "ms3 = ms2\<lparr>pgs := st'\<rparr>"
    have m3: "on_pages (map_pages (pml4 (ctx_of ms2 c)) v ?p flags (sint n)) ms2 = Some (e, ms3)"
      using map(1) s1(2) p2(2) by (simp add: on_pages_def ms3_def)
    have p3: "pgs ms3 = st'" "virtctx (ctx_of ms3 c) = vc" "nodes ms3 = mem" "pml4 (ctx_of ms3 c) = ?root"
      using p2 m1 s1(2) by (simp_all add: ms3_def)
    show thesis
    proof (cases "e = 0")
      case True
      then have run: "mem_alloc_pages_at kalloc kfree c n v flags ms = Some (v, ms3)"
        using m1(1) m2 m3 block(4) by (simp add: mem_alloc_pages_at_def)
      have g: "grown ?root (pgs ms2) (pgs ms3)" using map(3) p3 by simp
      have "page_list (phys (pgs ms3)) = page_list ph" "page_list ph = page_list (phys (pgs ms))"
        using g p2(1) block(7) page_list_same_tables by (auto simp: grown_def)
      then have "owned_pages ph \<inter> set (page_list ph) \<subseteq> owned_pages (phys (pgs ms3))"
        using g p2(1) by (auto simp: grown_def kept_def)
      then have "set (take (unat n) (drop s (page_list (phys (pgs ms))))) \<subseteq> owned_pages (phys (pgs ms3))"
        using block(9) \<open>page_list ph = page_list (phys (pgs ms))\<close> by (auto dest: in_set_takeD in_set_dropD)
      moreover have "view ?root (pgs ms2) = view ?root (pgs ms)" using p2(1) by (simp add: view_def leaf_def fun_eq_iff)
      ultimately have "allocated c v (unat n) flags ms ms3"
        using map(4) True block(5,8) p3 unfolding allocated_def Let_def by (intro exI [of _ s]) simp
      moreover have "ctx_ok c rs' ms3" using t(2) map(2) p3 by (simp add: ctx_ok_def)
      ultimately show thesis using that [OF run, of rs'] t(2) p3 by simp
    next
      case False
      have same: "same_tables (phys (pgs ms)) (phys st')" using block(7) map(3) p2(1) same_tables_trans by (auto simp: grown_def)
      have "pages_indexed (phys st')" using idx page_list_same_tables [OF same] page_idx_same_tables [OF same] by (simp add: pages_indexed_def)
      moreover have "physalloc_ok (phys st')" using map(2) by (simp add: pg_ok_def physalloc_distinct_def)
      ultimately obtain ph' where "free_phys_pages ?p n (phys st') = Some ph'"
        using phys_free_returns [of "phys st'" s n] block(5,6) page_list_same_tables [OF same] same_tables_simps(1) [OF same] by auto
      then obtain ms4 where m4: "phys_free ?p n ms3 = Some ms4" "ctx_of ms4 = ctx_of ms3" "nodes ms4 = nodes ms3"
        using p3(1) by (simp add: phys_free_def)
      have "virt_inv (virtctx (ctx_of ms4 c)) (nodes ms4) rs'" using t(2) m4 p3 by simp
      then obtain r ms5 rs5 where m5: "virt_free c v ms4 = Some (r, ms5)" "virt_inv (virtctx (ctx_of ms5 c)) (nodes ms5) rs5"
        by (rule virt_free_ok [of ms4 c rs' v])
      then have "mem_alloc_pages_at kalloc kfree c n v flags ms = Some (0, ms5)"
        using m1(1) m2 m3 m4(1) block(4) False by (simp add: mem_alloc_pages_at_def)
      then show thesis using that m5(2) by blast
    qed
  qed
qed

section \<open>The pool of contexts\<close>

text \<open>The free contexts, the next one first, and the contexts that are in use point nowhere.\<close>

definition pool :: "memstate \<Rightarrow> nat list \<Rightarrow> bool" where
  "pool ms xs \<longleftrightarrow> chain (\<lambda>c. mc_prev (ctx_of ms c)) (user_mem_ctx_next ms) xs \<and>
     (\<forall>c. c \<notin> set xs \<longrightarrow> mc_prev (ctx_of ms c) = None)"

lemma pool_distinct: "pool ms xs \<Longrightarrow> distinct xs"
  by (auto simp: pool_def dest: chain_distinct)

lemma pool_cong:
  assumes "\<And>c. mc_prev (ctx_of ms' c) = mc_prev (ctx_of ms c)" "user_mem_ctx_next ms' = user_mem_ctx_next ms"
  shows "pool ms' xs = pool ms xs"
  using assms by (simp add: pool_def)

lemma pool_unlink:
  assumes "pool ms (c # xs)"
  shows "pool (unlink_ctx c ms) xs"
proof -
  have c: "chain (\<lambda>d. mc_prev (ctx_of ms d)) (mc_prev (ctx_of ms c)) xs" "c \<notin> set xs"
    using assms pool_distinct [OF assms] by (auto simp: pool_def)
  have "mc_prev (ctx_of (unlink_ctx c ms) d) = (if d = c then None else mc_prev (ctx_of ms d))" for d
    by (auto simp: unlink_ctx_def upd_ctx_def Let_def split: option.splits)
  moreover have "user_mem_ctx_next (unlink_ctx c ms) = mc_prev (ctx_of ms c)"
    by (auto simp: unlink_ctx_def upd_ctx_def Let_def split: option.splits)
  moreover have "chain (\<lambda>d. if d = c then None else mc_prev (ctx_of ms d)) (mc_prev (ctx_of ms c)) xs"
    using c seg_cong [of xs "\<lambda>d. if d = c then None else mc_prev (ctx_of ms d)" "\<lambda>d. mc_prev (ctx_of ms d)"] by auto
  ultimately show ?thesis using assms by (auto simp: pool_def)
qed

lemma pool_push:
  assumes "pool ms xs" "c \<notin> set xs"
  shows "pool (push_ctx c ms) (c # xs)"
proof -
  have nx: "user_mem_ctx_next (push_ctx c ms) = Some c" by (auto simp: push_ctx_def upd_ctx_def split: option.splits)
  have pv: "mc_prev (ctx_of (push_ctx c ms) d) = (if d = c then user_mem_ctx_next ms else mc_prev (ctx_of ms d))" for d
    using assms by (auto simp: push_ctx_def upd_ctx_def pool_def split: option.splits)
  have "chain (\<lambda>d. if d = c then user_mem_ctx_next ms else mc_prev (ctx_of ms d)) (user_mem_ctx_next ms) xs"
    using assms seg_cong [of xs "\<lambda>d. if d = c then user_mem_ctx_next ms else mc_prev (ctx_of ms d)" "\<lambda>d. mc_prev (ctx_of ms d)"]
    by (auto simp: pool_def)
  then show ?thesis using assms nx pv by (auto simp: pool_def)
qed

lemma list_ctxs_pool:
  assumes "pool ms xs" "\<forall>x\<in>set xs. x < i"
  shows "pool (list_ctxs i n ms) (rev [i..<i + n] @ xs)"
  using assms
proof (induction n arbitrary: i ms xs)
  case (Suc n)
  let ?ms = "upd_ctx i (\<lambda>x. x\<lparr>mc_next := None, mc_prev := None\<rparr>) ms"
  have i: "i \<notin> set xs" using Suc.prems(2) by auto
  then have "mc_prev (ctx_of ms i) = None" using Suc.prems(1) by (simp add: pool_def)
  then have "pool ?ms xs" using pool_cong [of ?ms ms xs] Suc.prems(1) by (simp add: upd_ctx_def)
  then have "pool (push_ctx i ?ms) (i # xs)" using i by (rule pool_push)
  then have "pool (list_ctxs (Suc i) n (push_ctx i ?ms)) (rev [Suc i..<Suc i + n] @ i # xs)"
    by (rule Suc.IH) (use Suc.prems(2) in auto)
  moreover have "rev [i..<i + Suc n] @ xs = rev [Suc i..<Suc i + n] @ i # xs" using upt_conv_Cons [of i "i + Suc n"] by simp
  ultimately show ?case by simp
qed simp

text \<open>A pool from which clients take items and to which they give them back.\<close>

datatype 'i pool_event = Take | Put 'i

fun pool_serve :: "('s \<Rightarrow> ('i option \<times> 's) option) \<Rightarrow> ('i \<Rightarrow> 's \<Rightarrow> 's option) \<Rightarrow> 'i pool_event list \<Rightarrow> 's \<Rightarrow> 'i set \<Rightarrow> ('s \<times> 'i set) option" where
  "pool_serve tk pt [] s held = Some (s, held)"
| "pool_serve tk pt (Take # evs) s held = do {
     (r, s) \<leftarrow> tk s;
     pool_serve tk pt evs s (case r of None \<Rightarrow> held | Some i \<Rightarrow> insert i held)
   }"
| "pool_serve tk pt (Put i # evs) s held =
     (if i \<notin> held then pool_serve tk pt evs s held
      else do {
        s \<leftarrow> pt i s;
        pool_serve tk pt evs s (held - {i})
      })"

locale item_pool =
  fixes tk :: "'s \<Rightarrow> ('i option \<times> 's) option"
    and pt :: "'i \<Rightarrow> 's \<Rightarrow> 's option"
    and avail :: "'s \<Rightarrow> 'i list \<Rightarrow> bool"
  assumes avail_distinct: "avail s xs \<Longrightarrow> distinct xs"
    and take_some: "avail s xs \<Longrightarrow> tk s = Some (Some i, s') \<Longrightarrow> \<exists>ys. xs = i # ys \<and> avail s' ys"
    and take_none: "avail s xs \<Longrightarrow> tk s = Some (None, s') \<Longrightarrow> avail s' xs"
    and put_back: "avail s xs \<Longrightarrow> i \<notin> set xs \<Longrightarrow> pt i s = Some s' \<Longrightarrow> avail s' (i # xs)"
begin

lemma serve_conserves:
  "avail s xs \<Longrightarrow> set xs \<inter> held = {} \<Longrightarrow> pool_serve tk pt evs s held = Some (s', held') \<Longrightarrow>
   \<exists>xs'. avail s' xs' \<and> set xs' \<inter> held' = {} \<and> set xs' \<union> held' = set xs \<union> held"
proof (induction evs arbitrary: s held xs)
  case (Cons ev evs)
  show ?case
  proof (cases ev)
    case Take
    then obtain r s1 where r: "tk s = Some (r, s1)"
      "pool_serve tk pt evs s1 (case r of None \<Rightarrow> held | Some i \<Rightarrow> insert i held) = Some (s', held')"
      using Cons.prems(3) by (auto split: bind_splits)
    show ?thesis
    proof (cases r)
      case None
      then show ?thesis using Cons.IH [of s1 xs held] take_none [OF Cons.prems(1)] Cons.prems(2) r by simp
    next
      case (Some i)
      then obtain ys where ys: "xs = i # ys" "avail s1 ys" using take_some [OF Cons.prems(1)] r(1) by blast
      then have "set ys \<inter> insert i held = {}" using Cons.prems(2) avail_distinct [OF Cons.prems(1)] by auto
      moreover have "set ys \<union> insert i held = set xs \<union> held" using ys(1) by auto
      ultimately show ?thesis using Cons.IH [OF ys(2), of "insert i held"] r(2) Some by simp
    qed
  next
    case (Put i)
    show ?thesis
    proof (cases "i \<in> held")
      case False
      then show ?thesis using Cons Put by simp
    next
      case True
      then obtain s1 where s1: "pt i s = Some s1" "pool_serve tk pt evs s1 (held - {i}) = Some (s', held')"
        using Cons.prems(3) Put by (auto split: bind_splits)
      have "avail s1 (i # xs)" using put_back [OF Cons.prems(1) _ s1(1)] Cons.prems(2) True by auto
      moreover have "set (i # xs) \<inter> (held - {i}) = {}" using Cons.prems(2) by auto
      moreover have "set (i # xs) \<union> (held - {i}) = set xs \<union> held" using True by auto
      ultimately show ?thesis using Cons.IH [of s1 "i # xs" "held - {i}"] s1(2) by metis
    qed
  qed
qed auto

end

lemma pool_on_pages: "on_pages f ms = Some (r, ms') \<Longrightarrow> pool ms' xs = pool ms xs"
  by (rule pool_cong) (auto simp: on_pages_def)

lemma pool_in_pages: "in_pages f ms = Some ms' \<Longrightarrow> pool ms' xs = pool ms xs"
  by (rule pool_cong) (auto simp: in_pages_def)

lemma pool_on_virt: "on_virt c f ms = Some (r, ms') \<Longrightarrow> pool ms' xs = pool ms xs"
  by (rule pool_cong) (auto simp: on_virt_def upd_ctx_def)

lemma pool_pml4: "pool (upd_ctx c (\<lambda>x. x\<lparr>pml4 := p\<rparr>) ms) xs = pool ms xs"
  by (rule pool_cong) (simp_all add: upd_ctx_def)

lemmas pool_frame = pool_on_pages pool_in_pages pool_on_virt pool_pml4

lemma next_frame:
  "on_pages f ms = Some (r, ms') \<Longrightarrow> user_mem_ctx_next ms' = user_mem_ctx_next ms"
  "on_virt c g ms = Some (q, ms') \<Longrightarrow> user_mem_ctx_next ms' = user_mem_ctx_next ms"
  by (auto simp: on_pages_def on_virt_def upd_ctx_def)

lemma mem_ctx_alloc_pool:
  assumes "pool ms xs" "mem_ctx_alloc kalloc kfree ms = Some (r, ms')"
  shows "case r of None \<Rightarrow> pool ms' xs | Some c \<Rightarrow> \<exists>ys. xs = c # ys \<and> pool ms' ys"
proof (cases "user_mem_ctx_next ms")
  case None
  then show ?thesis using assms by (simp add: mem_ctx_alloc_def)
next
  case (Some c)
  then obtain ys where xs: "xs = c # ys" using assms(1) by (auto simp: pool_def chain_Some)
  show ?thesis using assms Some unfolding xs
    by (auto simp: mem_ctx_alloc_def Let_def pool_pml4 pool_on_pages pool_on_virt pool_unlink split: bind_splits if_splits)
qed

lemma mem_ctx_clone_pool:
  assumes "pool ms xs" "mem_ctx_clone kalloc old ms = Some (r, ms')"
  shows "case r of None \<Rightarrow> pool ms' xs | Some c \<Rightarrow> \<exists>ys. xs = c # ys \<and> pool ms' ys"
proof (cases "user_mem_ctx_next ms")
  case None
  then show ?thesis using assms by (auto simp: mem_ctx_clone_def split: option.splits if_splits)
next
  case (Some c)
  then obtain ys where xs: "xs = c # ys" using assms(1) by (auto simp: pool_def chain_Some)
  show ?thesis using assms Some unfolding xs
    by (auto simp: mem_ctx_clone_def Let_def pool_frame pool_unlink split: bind_splits if_splits option.splits)
qed

lemma mem_ctx_free_pool:
  assumes "pool ms xs" "c \<notin> set xs" "mem_ctx_free kfree (Some c) ms = Some ms'"
  shows "pool ms' (c # xs)"
  using assms by (auto simp: mem_ctx_free_def pool_in_pages pool_on_virt intro!: pool_push split: bind_splits if_splits)

interpretation ctxs: item_pool "mem_ctx_alloc kalloc kfree" "\<lambda>c. mem_ctx_free kfree (Some c)" pool for kalloc kfree
proof
  fix s s' xs i
  show "pool s xs \<Longrightarrow> distinct xs" by (rule pool_distinct)
  show "pool s xs \<Longrightarrow> mem_ctx_alloc kalloc kfree s = Some (Some i, s') \<Longrightarrow> \<exists>ys. xs = i # ys \<and> pool s' ys"
    using mem_ctx_alloc_pool by fastforce
  show "pool s xs \<Longrightarrow> mem_ctx_alloc kalloc kfree s = Some (None, s') \<Longrightarrow> pool s' xs" using mem_ctx_alloc_pool by fastforce
  show "pool s xs \<Longrightarrow> i \<notin> set xs \<Longrightarrow> mem_ctx_free kfree (Some i) s = Some s' \<Longrightarrow> pool s' (i # xs)" by (rule mem_ctx_free_pool)
qed

section \<open>Properties of the memory contexts\<close>

lemma mem_alloc_pages_ok:
  assumes ok: "ctx_ok c rs ms" and room: "room 2 (virtctx (ctx_of ms c))" and n: "0 < n" "unat n < 2 ^ 19"
    and v: "virt_alloc c n ms = Some v" "unat v + 8192 * unat n \<le> 2 ^ 48" and idx: "pages_indexed (phys (pgs ms))"
  shows "\<exists>r ms'. mem_alloc_pages kalloc kfree c n flags ms = Some (r, ms') \<and>
    (r \<noteq> 0 \<longrightarrow> r = v \<and> allocated c v (unat n) flags ms ms' \<and>
       (\<exists>rs'. ctx_ok c rs' ms' \<and> taken rs' = taken rs \<union> {v..<v + of_nat (unat n * 4096)} \<and>
          taken rs \<inter> {v..<v + of_nat (unat n * 4096)} = {}))"
proof -
  note nc = small_pages_cast [OF n]
  have inv: "virt_inv (virtctx (ctx_of ms c)) (nodes ms) rs" using ok by (simp add: ctx_ok_def)
  then have tl: "tiles 0 rs 0x1000000000000" by (simp add: virt_inv_def ranges_ok_def)
  have va: "v = alloc_spec (page_bytes (ucast n)) rs"
    using virtaddr_alloc_spec [OF inv nc(2)] nc(1) n(2) v(1) by (simp add: virt_alloc_def)
  show ?thesis
  proof (cases "v = 0")
    case True
    then show ?thesis using v(1) by (simp add: mem_alloc_pages_def)
  next
    case False
    then obtain rs' where take: "take_spec v (page_bytes (ucast n)) rs = Some rs'"
      using alloc_spec_fits [OF tl, of "page_bytes (ucast n)"] unfolding va by blast
    have "v < v + page_bytes (ucast n)" by (rule page_bytes_pos) (use nc n(2) v(2) in \<open>simp_all add: word_less_nat_alt\<close>)
    note tk = take_spec_taken [OF tl take this]
    obtain r ms' rs'' where r: "mem_alloc_pages_at kalloc kfree c n v flags ms = Some (r, ms')"
      "virt_inv (virtctx (ctx_of ms' c)) (nodes ms') rs''"
      "r \<noteq> 0 \<Longrightarrow> r = v \<and> rs'' = rs' \<and> ctx_ok c rs' ms' \<and> allocated c v (unat n) flags ms ms'"
      by (rule mem_alloc_pages_at_ok [OF ok room n take v(2) idx]) (rule that)
    show ?thesis
    proof (cases "r = 0")
      case True
      obtain q ms2 rs2 where "virt_free c v ms' = Some (q, ms2)" by (rule virt_free_ok [OF r(2), of v])
      then show ?thesis using v(1) False r(1) True by (simp add: mem_alloc_pages_def)
    next
      case nz: False
      then have "mem_alloc_pages kalloc kfree c n flags ms = Some (v, ms')" using v(1) False r by (simp add: mem_alloc_pages_def)
      then show ?thesis using r(3) [OF nz] tk nc(1) by auto
    qed
  qed
qed


text \<open>\<^verbatim>\<open>mem_get_phys\<close> is the translation of the context's page tables: the frame of the page plus the offset in it, or
  \<^verbatim>\<open>NULL\<close> when the page is not mapped; it changes no page.\<close>

theorem mem_get_phys_translates:
  assumes "pg_ok (pml4 (ctx_of ms c)) (pgs ms)" "low48 v"
  shows "\<exists>ms'. mem_get_phys c v ms =
      Some (case ctx_view c ms v of None \<Rightarrow> 0 | Some (f, flags) \<Rightarrow> f + v mod PAGE_SIZE, ms') \<and>
    pg_ok (pml4 (ctx_of ms' c)) (pgs ms') \<and> ctx_view c ms' = ctx_view c ms"
proof -
  obtain st' where l: "page_locate (pml4 (ctx_of ms c)) v (pgs ms) = Some (if ctx_view c ms v = None then None else Some (idx1 v), st')"
    "pmem st' = pmem (pgs ms)" "phys st' = phys (pgs ms)" "win_ok st'"
    "ctx_view c ms v \<noteq> None \<Longrightarrow> sees st' 3 (fr (link (pmem (pgs ms))) (pml4 (ctx_of ms c)) (walk v))"
    by (rule page_locate_ok [OF assms]) (rule that)
  define ms' where "ms' = ms\<lparr>pgs := st'\<rparr>"
  have on: "on_pages (page_locate (pml4 (ctx_of ms c)) v) ms = Some (if ctx_view c ms v = None then None else Some (idx1 v), ms')"
    using l(1) by (simp add: on_pages_def ms'_def)
  have "view root st' = view root (pgs ms)" for root unfolding view_def [abs_def] leaf_def l(2) by simp
  then have ok: "pg_ok (pml4 (ctx_of ms' c)) (pgs ms')" "ctx_view c ms' = ctx_view c ms"
    using pg_ok_cong [OF assms(1) l(4,3)] l(2) by (simp_all add: ms'_def)
  have "mem_get_phys c v ms = Some (case ctx_view c ms v of None \<Rightarrow> 0 | Some (f, flags) \<Rightarrow> f + v mod PAGE_SIZE, ms')"
  proof (cases "ctx_view c ms v")
    case None
    then show ?thesis using on by (simp add: mem_get_phys_def)
  next
    case (Some e)
    let ?t = "fr (link (pmem (pgs ms))) (pml4 (ctx_of ms c)) (walk v)"
    have "rd 3 (idx1 v) (pgs ms') = Some (pmem (pgs ms) ?t (idx1 v))"
      using sees_access(1) [OF l(5) idx_bounds(4)] Some l(2) by (simp add: ms'_def)
    moreover have "fst e = pointee (pmem (pgs ms) ?t (idx1 v))" using Some by (auto simp: view_def leaf_def Let_def split: if_splits)
    ultimately show ?thesis using on Some by (cases e) (simp add: mem_get_phys_def)
  qed
  then show ?thesis using ok by blast
qed

text \<open>The block of \<open>n\<close> pages that starts at \<open>v\<close>, which freeing makes the ranges \<open>rs'\<close>.\<close>

definition block_at :: "u64 \<Rightarrow> u32 \<Rightarrow> range list \<Rightarrow> range list \<Rightarrow> bool" where
  "block_at v n rs rs' \<longleftrightarrow> v \<noteq> 0 \<and> v mod PAGE_SIZE = 0 \<and> 0 < n \<and> unat n < 2 ^ 19 \<and> unat v + 4096 * unat n \<le> 2 ^ 48 \<and>
     (v, v + page_bytes n, True) \<in> set rs \<and> free_spec v [] rs = Some rs'"

lemma virt_free_block:
  assumes "virt_inv (virtctx (ctx_of ms c)) (nodes ms) rs" "block_at v n rs rs'"
  obtains ms' where "virt_free c v ms = Some (int (unat n), ms')" "pgs ms' = pgs ms" "pml4 (ctx_of ms' c) = pml4 (ctx_of ms c)"
    "virt_inv (virtctx (ctx_of ms' c)) (nodes ms') rs'"
proof -
  have fs: "(if v = 0 \<or> v mod PAGE_SIZE \<noteq> 0 then None else free_spec v [] rs) = Some rs'" using assms(2) by (simp add: block_at_def)
  obtain r ms' rs1 where f: "virt_free c v ms = Some (r, ms')" "pgs ms' = pgs ms" "pml4 (ctx_of ms' c) = pml4 (ctx_of ms c)"
    "virt_inv (virtctx (ctx_of ms' c)) (nodes ms') rs1" "rs1 = rs' \<and> (\<exists>e al. (v, e, al) \<in> set rs \<and> r = int_pages (e - v))"
    by (rule virt_free_ok [OF assms(1), of v]) (unfold fs option.case, rule that)
  then obtain e al where e: "(v, e, al) \<in> set rs" "r = int_pages (e - v)" by blast
  have "tiles 0 rs 0x1000000000000" using assms(1) by (simp add: virt_inv_def ranges_ok_def)
  then have "e = v + page_bytes n" using e(1) assms(2) tiles_start_unique unfolding block_at_def by blast
  then have "r = int (unat n)" using e(2) assms(2) int_pages_bytes by (simp add: block_at_def)
  then show thesis using that f by blast
qed

text \<open>C28: \<^verbatim>\<open>mem_free_pages\<close> on the start of a block returns, unmaps exactly the pages of the block, makes its addresses
  free again and keeps the invariant, but returns none of the frames to the page allocator, whose state it leaves as it was.\<close>

theorem mem_free_pages_unmaps:
  assumes "ctx_ok c rs ms" "block_at v n rs rs'"
  shows "\<exists>ms'. mem_free_pages c v ms = Some ms' \<and> ctx_ok c rs' ms' \<and> phys (pgs ms') = phys (pgs ms) \<and>
    (\<forall>u. low48 u \<longrightarrow> ctx_view c ms' u = (if vpn v \<le> vpn u \<and> vpn u < vpn v + unat n then None else ctx_view c ms u))"
proof -
  have inv: "virt_inv (virtctx (ctx_of ms c)) (nodes ms) rs" and pg: "pg_ok (pml4 (ctx_of ms c)) (pgs ms)"
    using assms(1) by (auto simp: ctx_ok_def)
  have b: "v \<noteq> 0" "unat v + 4096 * unat n \<le> 2 ^ 48" using assms(2) by (auto simp: block_at_def)
  obtain ms1 where f: "virt_free c v ms = Some (int (unat n), ms1)" "pgs ms1 = pgs ms" "pml4 (ctx_of ms1 c) = pml4 (ctx_of ms c)"
    "virt_inv (virtctx (ctx_of ms1 c)) (nodes ms1) rs'"
    by (rule virt_free_block [OF inv assms(2)]) (rule that)
  obtain st' where u: "unmap_pages (pml4 (ctx_of ms c)) v (unat n) True (pgs ms) = Some st'" "pg_ok (pml4 (ctx_of ms c)) st'"
    "phys st' = phys (pgs ms)"
    "\<And>u. low48 u \<Longrightarrow> view (pml4 (ctx_of ms c)) st' u = (if vpn v \<le> vpn u \<and> vpn u < vpn v + unat n then None else ctx_view c ms u)"
    using unmap_pages_ok [OF pg b(2), of True] by blast
  have "mem_free_pages c v ms = Some (ms1\<lparr>pgs := st'\<rparr>)"
    using b(1) f u(1) by (simp add: mem_free_pages_def in_pages_def)
  then show ?thesis using f u by (simp add: ctx_ok_def)
qed

text \<open>\<^verbatim>\<open>mem_unmapaddr\<close> on a context other than the kernel's frees the addresses but removes the pages from the kernel's
  page tables: every page of the context stays mapped, and what the kernel had at these addresses is gone.\<close>

theorem mem_unmapaddr_wrong_directory:
  assumes "ctx_ok c rs ms" "pg_ok kp (pgs ms)" "block_at v n rs rs'"
    "frames_of (link (pmem (pgs ms))) kp \<inter> frames_of (link (pmem (pgs ms))) (pml4 (ctx_of ms c)) = {}"
  shows "\<exists>ms'. mem_unmapaddr kp c v ms = Some ms' \<and> ctx_ok c rs' ms' \<and>
    (\<forall>u. low48 u \<longrightarrow> ctx_view c ms' u = ctx_view c ms u \<and>
       view kp (pgs ms') u = (if vpn v \<le> vpn u \<and> vpn u < vpn v + unat n then None else view kp (pgs ms) u))"
proof -
  have inv: "virt_inv (virtctx (ctx_of ms c)) (nodes ms) rs" and pg: "pg_ok (pml4 (ctx_of ms c)) (pgs ms)"
    using assms(1) by (auto simp: ctx_ok_def)
  have b: "v \<noteq> 0" "unat v + 4096 * unat n \<le> 2 ^ 48" "v mod PAGE_SIZE = 0" "0 < unat n"
    using assms(3) by (auto simp: block_at_def word_less_nat_alt)
  have al: "v div PAGE_SIZE * PAGE_SIZE = v" using b(3) div_mult_mod_eq [of v PAGE_SIZE] by simp
  obtain ms1 where f: "virt_free c v ms = Some (int (unat n), ms1)" "pgs ms1 = pgs ms" "pml4 (ctx_of ms1 c) = pml4 (ctx_of ms c)"
    "virt_inv (virtctx (ctx_of ms1 c)) (nodes ms1) rs'"
    by (rule virt_free_block [OF inv assms(3)]) (rule that)
  obtain st' where u: "unmap_pages kp v (unat n) False (pgs ms) = Some st'" "pg_ok kp st'" "grown kp (pgs ms) st'"
    "\<And>u. low48 u \<Longrightarrow> view kp st' u = (if vpn v \<le> vpn u \<and> vpn u < vpn v + unat n then None else view kp (pgs ms) u)"
    using unmap_pages_ok [OF assms(2) b(2), of False] by blast
  note o = other_ok [OF u(3,2) pg assms(4)]
  have "\<not> int (unat n) < 1" using b(4) by linarith
  then have "mem_unmapaddr kp c v ms = Some (ms1\<lparr>pgs := st'\<rparr>)"
    using b(1) f u(1) al by (simp add: mem_unmapaddr_def in_pages_def Let_def del: int_nat_eq of_nat_unat)
  then show ?thesis using f u(4) o by (simp add: ctx_ok_def)
qed

text \<open>C29: Starting from the list that \<^verbatim>\<open>memory_init\<close> builds, whatever allocations and frees of held contexts follow, the
  free contexts and the ones that are held are always disjoint and together all of the \<^verbatim>\<open>N_PROCS\<close> contexts: none is handed out
  twice or lost.\<close>

theorem contexts_conserved:
  assumes "user_mem_ctx_next ms = None" "\<forall>c. mc_prev (ctx_of ms c) = None"
    "pool_serve (mem_ctx_alloc kalloc kfree) (\<lambda>c. mem_ctx_free kfree (Some c)) evs (list_ctxs 0 N_PROCS ms) {} = Some (ms', held)"
  shows "\<exists>xs. pool ms' xs \<and> set xs \<inter> held = {} \<and> set xs \<union> held = {0..<N_PROCS}"
proof -
  have "pool ms []" using assms(1,2) by (simp add: pool_def)
  then have "pool (list_ctxs 0 N_PROCS ms) (rev [0..<N_PROCS])" using list_ctxs_pool [of ms "[]" 0 N_PROCS] by simp
  from ctxs.serve_conserves [OF this _ assms(3)] show ?thesis by simp
qed

section \<open>A concrete state\<close>

definition boot_mem :: memstate where
  "boot_mem = \<lparr>pgs = blank_pages, nodes = two_mem,
     ctx_of = \<lambda>_. \<lparr>pml4 = 0x250000, virtctx = two_ctx, mc_next = None, mc_prev = None\<rparr>, user_mem_ctx_next = None, cr3 = 0\<rparr>"

lemma boot_mem_ok: "ctx_ok c two_ranges boot_mem"
  using two_inv blank_ok(1) [OF blank_roots(3,1)] by (simp add: ctx_ok_def boot_mem_def)

text \<open>The same with three pages taken at 32 MiB.\<close>

abbreviation three_ranges :: "range list" where
  "three_ranges \<equiv> [(0, 0x1000000, True), (0x1000000, 0x2000000, False), (0x2000000, 0x2003000, True), (0x2003000, 0x1000000000000, False)]"

lemma taken_mem_ok:
  obtains vc mem where "ctx_ok c three_ranges (boot_mem\<lparr>ctx_of := \<lambda>_. \<lparr>pml4 = 0x250000, virtctx = vc, mc_next = None, mc_prev = None\<rparr>, nodes := mem\<rparr>)"
proof -
  obtain vc mem where "virt_inv vc mem three_ranges"
    using virtaddr_take_inv [OF two_inv two_room, of 3 "0x2000000" no_kalloc no_kfree] unfolding two_take_spec by auto
  then show thesis using that [where vc = vc and mem = mem] blank_ok(1) [OF blank_roots(3,1)] by (simp add: ctx_ok_def boot_mem_def)
qed

lemma three_block: "block_at 0x2000000 3 three_ranges two_ranges"
proof -
  have "free_spec 0x2000000 [] three_ranges = Some two_ranges" "(0x2000000 :: u64) mod PAGE_SIZE = 0" by code_simp+
  then show ?thesis by (simp add: block_at_def)
qed


theorem mem_get_phys_translates_witness:
  "\<exists>ms'. mem_get_phys 0 0x1000 boot_mem = Some (0, ms')"
proof -
  have "ctx_view 0 boot_mem 0x1000 = None" by (simp add: boot_mem_def blank_pages_def view_def leaf_def walk_def link_def)
  then show ?thesis
    using mem_get_phys_translates [of boot_mem 0 "0x1000"] boot_mem_ok [of 0] by (auto simp: ctx_ok_def)
qed

theorem mem_free_pages_unmaps_witness:
  "\<exists>ms ms'. mem_free_pages 0 0x2000000 ms = Some ms' \<and> ctx_ok 0 two_ranges ms' \<and> phys (pgs ms') = phys (pgs ms)"
proof -
  obtain vc mem where "ctx_ok 0 three_ranges (boot_mem\<lparr>ctx_of := \<lambda>_. \<lparr>pml4 = 0x250000, virtctx = vc, mc_next = None, mc_prev = None\<rparr>, nodes := mem\<rparr>)"
    by (rule taken_mem_ok)
  from mem_free_pages_unmaps [OF this three_block] show ?thesis by blast
qed

theorem mem_unmapaddr_wrong_directory_witness:
  "\<exists>ms ms'. mem_unmapaddr 0x251000 0 0x2000000 ms = Some ms' \<and> ctx_ok 0 two_ranges ms'"
proof -
  obtain vc mem where ok: "ctx_ok 0 three_ranges (boot_mem\<lparr>ctx_of := \<lambda>_. \<lparr>pml4 = 0x250000, virtctx = vc, mc_next = None, mc_prev = None\<rparr>, nodes := mem\<rparr>)"
    by (rule taken_mem_ok)
  have p: "pgs boot_mem = blank_pages" by (simp add: boot_mem_def)
  show ?thesis
    using mem_unmapaddr_wrong_directory [OF ok _ three_block, of "0x251000"] blank_ok [OF blank_roots(3,1)] blank_ok [OF blank_roots(4,2)]
    by (auto simp: p)
qed

text \<open>A kernel image of length 0, for which a new directory is one empty table.\<close>

definition pool_mem :: memstate where
  "pool_mem = boot_mem\<lparr>pgs := blank_pages\<lparr>phys := (small_machine 0x400000)\<lparr>kernel_end := 0x100000\<rparr>\<rparr>\<rparr>"

lemma pool_pages_ok: "pg_ok 0x250000 (pgs pool_mem)"
proof -
  let ?p = "(small_machine 0x400000)\<lparr>kernel_end := 0x100000\<rparr>"
  have l: "page_list ?p = page_list (small_machine 0x400000)" "page_used ?p = page_used (small_machine 0x400000)"
    "in_bitmap ?p = in_bitmap (small_machine 0x400000)"
    by (simp_all add: page_list_def page_used_def in_bitmap_def fun_eq_iff)
  have "physalloc_distinct ?p" "owned_pages ?p = owned_pages (small_machine 0x400000)"
    using small_distinct by (simp_all add: physalloc_distinct_def physalloc_ok_def segments_ok_def owned_pages_def l)
  then show ?thesis
    using blank_ok(1) [OF blank_roots(3,1)] by (simp add: pg_ok_def pool_mem_def boot_mem_def l) (simp add: blank_pages_def win_ok_def l)
qed

lemma list_ctxs_pgs: "pgs (list_ctxs i n ms) = pgs ms"
  by (induction i n ms rule: list_ctxs.induct) (auto simp: push_ctx_def upd_ctx_def split: option.splits)

lemma pool_mem_alloc:
  "\<exists>r ms'. mem_ctx_alloc no_kalloc no_kfree (list_ctxs 0 N_PROCS pool_mem) = Some (r, ms') \<and> r \<noteq> Some 3"
proof -
  let ?ms = "list_ctxs 0 N_PROCS pool_mem"
  have k: "kernel_start (phys (pgs pool_mem)) = 0x100000" "kernel_end (phys (pgs pool_mem)) = 0x100000"
    by (simp_all add: pool_mem_def small_machine_def)
  have "\<exists>p st'. pgdir_alloc (pgs pool_mem) = Some (p, st') \<and> kernel_end (phys st') = 0x100000"
  proof (cases rule: pml4_alloc_ok [OF pool_pages_ok, case_names none new])
    case none
    then show ?thesis using k by (simp add: pgdir_alloc_def)
  next
    case (new p st')
    then have "kernel_start (phys st') = 0x100000" "kernel_end (phys st') = 0x100000"
      using k by (auto simp: same_tables_def)
    then show ?thesis using new(1,2) by (simp add: pgdir_alloc_def map_pages_def)
  qed
  then obtain p st' where p: "pgdir_alloc (pgs ?ms) = Some (p, st')" "kernel_end (phys st') = 0x100000"
    by (auto simp: list_ctxs_pgs)
  have i: "\<exists>vc' mem'. virtaddr_init no_kalloc no_kfree 0x100000 vc mem = Some (vc', mem')" for vc mem
    using virtaddr_init_reserves [of "0x100000" no_kalloc no_kfree vc mem] init_pages [of "0x100000" 256] by auto
  have "pool pool_mem []" by (simp add: pool_def pool_mem_def boot_mem_def)
  then have "pool ?ms (rev [0..<N_PROCS])" using list_ctxs_pool [of pool_mem "[]" 0 N_PROCS] by simp
  moreover have "hd (rev [0..<N_PROCS]) = 255" "rev [0..<N_PROCS] \<noteq> []" by (simp_all add: hd_rev N_PROCS_def)
  ultimately have "user_mem_ctx_next ?ms = Some 255"
    using chain_hd [of "\<lambda>c. mc_prev (ctx_of ?ms c)" "user_mem_ctx_next ?ms" "rev [0..<N_PROCS]"] unfolding pool_def by simp
  then show ?thesis
    using p i [of "virtctx (ctx_of ?ms 255)" "nodes ?ms"]
    by (auto simp: mem_ctx_alloc_def on_pages_def on_virt_def upd_ctx_def Let_def)
qed

theorem contexts_conserved_witness:
  "\<exists>ms' held xs. pool_serve (mem_ctx_alloc no_kalloc no_kfree) (\<lambda>c. mem_ctx_free no_kfree (Some c)) [Take, Put 3] (list_ctxs 0 N_PROCS pool_mem) {} =
     Some (ms', held) \<and> pool ms' xs \<and> set xs \<inter> held = {} \<and> set xs \<union> held = {0..<N_PROCS}"
proof -
  obtain r ms' where r: "mem_ctx_alloc no_kalloc no_kfree (list_ctxs 0 N_PROCS pool_mem) = Some (r, ms')" "r \<noteq> Some 3"
    using pool_mem_alloc by blast
  then obtain held where run: "pool_serve (mem_ctx_alloc no_kalloc no_kfree) (\<lambda>c. mem_ctx_free no_kfree (Some c)) [Take, Put 3]
      (list_ctxs 0 N_PROCS pool_mem) {} = Some (ms', held)"
    by (cases r) auto
  have "user_mem_ctx_next pool_mem = None" "\<forall>c. mc_prev (ctx_of pool_mem c) = None"
    by (simp_all add: pool_mem_def boot_mem_def)
  from contexts_conserved [OF this run] run show ?thesis by blast
qed

end
