(* ===== verification/Kprintf.thy ===== *)
theory Kprintf
  imports Klib
begin

text \<open>
  The formatted output of \<^verbatim>\<open>kernel/lib/kprintf.c\<close>. A call is a format string, the list of its
  variable arguments and a context that collects what is written, to the console or to the buffer
  of the caller; both are the list of characters in the order they are put. The model follows the C
  through every option of a specifier. \<open>None\<close> stands for what the C leaves undefined: an argument
  that is missing, a write past the 50 bytes of the number buffer, a read past the end of a string
  or of the format.
\<close>

section \<open>State\<close>

definition PRINTF_NUMERIC_BUF_LEN :: nat where "PRINTF_NUMERIC_BUF_LEN = 50"

datatype printf_len =
  PRINTF_LEN_CHAR | PRINTF_LEN_SHORT_INT | PRINTF_LEN_INT | PRINTF_LEN_LONG_INT
| PRINTF_LEN_LONG_LONG_INT | PRINTF_LEN_SIZE_T

record options_t =
  opt_left :: bool
  opt_sign :: bool
  opt_space :: bool
  opt_hash :: bool
  opt_zero :: bool
  opt_width :: int
  opt_precision :: int
  opt_width_set :: bool
  opt_width_varies :: bool
  opt_precision_set :: bool
  opt_precision_varies :: bool
  opt_len :: printf_len
  opt_radix :: int
  opt_is_uppercase :: bool

definition no_options :: options_t where
  "no_options =
     \<lparr>opt_left = False, opt_sign = False, opt_space = False, opt_hash = False, opt_zero = False,
      opt_width = 0, opt_precision = 0, opt_width_set = False, opt_width_varies = False,
      opt_precision_set = False, opt_precision_varies = False, opt_len = PRINTF_LEN_CHAR,
      opt_radix = 0, opt_is_uppercase = False\<rparr>"

text \<open>What \<^verbatim>\<open>va_arg\<close> reads: a word of up to 64 bits, a string (or \<^verbatim>\<open>NULL\<close>), or the place
  where \<^verbatim>\<open>%n\<close> stores, of which the context keeps the values stored.\<close>

datatype va = VaWord u64 | VaStr "string option" | VaPlace

record context_t =
  cx_max_len :: nat
  cx_has_max_len :: bool
  cx_written_len :: nat
  cx_possible_written_len :: nat
  cx_sprintf :: bool
  cx_out :: string
  cx_stored :: "nat list"

definition printf_putc :: "char \<Rightarrow> context_t \<Rightarrow> context_t" where
  "printf_putc c ctx =
     (let ctx = ctx\<lparr>cx_possible_written_len := cx_possible_written_len ctx + 1\<rparr>
      in if cx_has_max_len ctx \<and> cx_written_len ctx \<ge> cx_max_len ctx then ctx
         else ctx\<lparr>cx_out := cx_out ctx @ [c], cx_written_len := cx_written_len ctx + 1\<rparr>)"

text \<open>A loop that puts the characters of a list in turn.\<close>

definition put_all :: "string \<Rightarrow> context_t \<Rightarrow> context_t" where
  "put_all cs ctx = fold printf_putc cs ctx"

section \<open>Parsing a specifier\<close>

definition parse_flag :: "string \<Rightarrow> options_t \<Rightarrow> (string \<times> options_t) option" where
  "parse_flag fmt opts =
     (if deref fmt = CHR ''-'' then Some (tl fmt, opts\<lparr>opt_left := True\<rparr>)
      else if deref fmt = CHR ''+'' then Some (tl fmt, opts\<lparr>opt_sign := True\<rparr>)
      else if deref fmt = CHR '' '' then Some (tl fmt, opts\<lparr>opt_space := True\<rparr>)
      else if deref fmt = CHR ''#'' then Some (tl fmt, opts\<lparr>opt_hash := True\<rparr>)
      else if deref fmt = CHR ''0'' then Some (tl fmt, opts\<lparr>opt_zero := True\<rparr>)
      else None)"

text \<open>\<^verbatim>\<open>while (parse_flag(&fmt, &opts));\<close>\<close>

function parse_flags :: "string \<Rightarrow> options_t \<Rightarrow> string \<times> options_t" where
  "parse_flags fmt opts =
     (case parse_flag fmt opts of None \<Rightarrow> (fmt, opts) | Some (fmt', opts') \<Rightarrow> parse_flags fmt' opts')"
  by pat_completeness auto
termination
  by (relation "measure (\<lambda>(fmt, opts). length fmt)")
    (auto simp: parse_flag_def deref_def split: if_splits list.splits)

declare parse_flags.simps [simp del]

text \<open>\<^verbatim>\<open>opts->width = strtol(...)\<close>: a \<^verbatim>\<open>long\<close> narrowed to \<^verbatim>\<open>int\<close>. \<^verbatim>\<open>strtol\<close> always sets
  \<^verbatim>\<open>end\<close>, so the width is always set.\<close>

definition narrow_int :: "u64 \<Rightarrow> int" where
  "narrow_int w = sint (ucast w :: u32)"

definition parse_width :: "string \<Rightarrow> options_t \<Rightarrow> string \<times> options_t" where
  "parse_width fmt opts =
     (if deref fmt = CHR ''*'' then (tl fmt, opts\<lparr>opt_width_varies := True\<rparr>)
      else let (width, k) = strtol fmt 10
           in (drop k fmt, opts\<lparr>opt_width_set := True, opt_width := narrow_int width\<rparr>))"

definition parse_precision :: "string \<Rightarrow> options_t \<Rightarrow> string \<times> options_t" where
  "parse_precision fmt opts =
     (if deref fmt \<noteq> CHR ''.'' then (fmt, opts)
      else let fmt = tl fmt
           in if deref fmt = CHR ''*'' then (tl fmt, opts\<lparr>opt_precision_varies := True\<rparr>)
              else let (precision, k) = strtol fmt 10
                   in (drop k fmt, opts\<lparr>opt_precision_set := True, opt_precision := narrow_int precision\<rparr>))"

definition parse_length :: "string \<Rightarrow> options_t \<Rightarrow> string \<times> options_t" where
  "parse_length fmt opts =
     (if deref fmt = CHR ''h'' then
        (if deref (tl fmt) = CHR ''h'' then (tl (tl fmt), opts\<lparr>opt_len := PRINTF_LEN_CHAR\<rparr>)
         else (tl fmt, opts\<lparr>opt_len := PRINTF_LEN_SHORT_INT\<rparr>))
      else if deref fmt = CHR ''l'' then
        (if deref (tl fmt) = CHR ''l'' then (tl (tl fmt), opts\<lparr>opt_len := PRINTF_LEN_LONG_LONG_INT\<rparr>)
         else (tl fmt, opts\<lparr>opt_len := PRINTF_LEN_LONG_INT\<rparr>))
      else if deref fmt = CHR ''z'' then (tl fmt, opts\<lparr>opt_len := PRINTF_LEN_SIZE_T\<rparr>)
      else (fmt, opts\<lparr>opt_len := PRINTF_LEN_INT\<rparr>))"

definition get_radix :: "char \<Rightarrow> options_t \<Rightarrow> options_t" where
  "get_radix spec opts =
     opts\<lparr>opt_radix :=
       (if spec = CHR ''x'' \<or> spec = CHR ''X'' then 16 else if spec = CHR ''o'' then 8
        else if spec = CHR ''b'' then 2 else 10)\<rparr>"

definition get_case :: "char \<Rightarrow> options_t \<Rightarrow> options_t" where
  "get_case spec opts = (if spec = CHR ''X'' then opts\<lparr>opt_is_uppercase := True\<rparr> else opts)"

section \<open>Numbers\<close>

definition printf_itoc :: "bool \<Rightarrow> int \<Rightarrow> char" where
  "printf_itoc uppercase i =
     (if i < 10 then char_of (i + 48) else if uppercase then char_of ((i - 10) + 65)
      else char_of ((i - 10) + 97))"

text \<open>The digits of \<^verbatim>\<open>while (num) ...\<close>, least significant first; \<open>p\<close> is the counter
  \<^verbatim>\<open>precision\<close>. The loop that only counts them runs in the same way.\<close>

function lltoa_digits :: "options_t \<Rightarrow> int \<Rightarrow> int \<Rightarrow> string" where
  "lltoa_digits opts p num =
     (if num \<le> 0 \<or> opt_radix opts < 2 then []
      else if opt_precision_set opts \<and> p \<ge> opt_precision opts then []
      else printf_itoc (opt_is_uppercase opts) (num mod opt_radix opts) #
           lltoa_digits opts (p + 1) (num div opt_radix opts))"
  by pat_completeness auto
termination by (relation "measure (\<lambda>(opts, p, num). nat num)") (auto intro!: int_div_less_self)

declare lltoa_digits.simps [simp del]

text \<open>The buffer, in the order it is written: digits, zeros, radix, sign, terminator. The result
  of the function is its length.\<close>

definition printf_lltoa :: "options_t \<Rightarrow> bool \<Rightarrow> u64 \<Rightarrow> string option" where
  "printf_lltoa opts is_neg num =
     (let digits = (if num = 0 then ''0'' else lltoa_digits opts 0 (uint num));
          len = int (length digits);
          zeros = (if opt_width_set opts \<and> len < opt_width opts \<and> opt_zero opts
                   then replicate (nat (opt_width opts - len)) CHR ''0'' else []);
          radix = (if \<not> opt_hash opts then []
                   else if opt_radix opts = 2 then ''b0'' else if opt_radix opts = 8 then ''o0''
                   else if opt_radix opts = 16 then ''x0'' else []);
          sign = (if is_neg then ''-'' else if opt_sign opts then ''+''
                  else if opt_space opts then '' '' else []);
          buf = digits @ zeros @ radix @ sign @ [CHR 0x00]
      in if length buf \<le> PRINTF_NUMERIC_BUF_LEN then Some buf else None)"

definition handle_int_specifier :: "options_t \<Rightarrow> bool \<Rightarrow> u64 \<Rightarrow> context_t \<Rightarrow> context_t option" where
  "handle_int_specifier opts has_sign_bit num ctx =
     (let is_neg = (has_sign_bit \<and> sint num < 0);
          num = (if is_neg then - num else num)
      in do {
        buf \<leftarrow> printf_lltoa opts is_neg num;
        let buf_len = int (length buf);
        let padding = (if opt_width_set opts \<and> buf_len < opt_width opts then opt_width opts - buf_len else 0);
        let pad = replicate (nat padding) (if opt_zero opts then CHR ''0'' else CHR '' '');
        let ctx = (if \<not> opt_left opts then put_all pad ctx else ctx);
        let ctx = put_all (rev buf) ctx;
        Some (if opt_left opts then put_all pad ctx else ctx)
      })"

definition handle_char_specifier :: "char \<Rightarrow> context_t \<Rightarrow> context_t" where
  "handle_char_specifier c ctx = printf_putc c ctx"

text \<open>\<^verbatim>\<open>str[i]\<close> for \<open>i < str_len\<close>: the terminator may be read, nothing behind it.\<close>

definition handle_string_specifier :: "options_t \<Rightarrow> string option \<Rightarrow> context_t \<Rightarrow> context_t option" where
  "handle_string_specifier opts data ctx =
     (let str = (case data of None \<Rightarrow> ''(null)'' | Some s \<Rightarrow> s);
          str_len = (if opt_precision_set opts then opt_precision opts else int (length str));
          padding = (if opt_width_set opts \<and> str_len < opt_width opts then opt_width opts - str_len else 0);
          pad = replicate (nat padding) CHR '' '';
          mem = str @ [CHR 0x00]
      in if nat str_len > length mem then None
         else let ctx = (if \<not> opt_left opts then put_all pad ctx else ctx);
                  ctx = put_all (take (nat str_len) mem) ctx
              in Some (if opt_left opts then put_all pad ctx else ctx))"

section \<open>The format\<close>

definition is_int_spec :: "char \<Rightarrow> bool" where
  "is_int_spec c \<longleftrightarrow> c \<in> {CHR ''p'', CHR ''d'', CHR ''i'', CHR ''u'', CHR ''b'', CHR ''o'', CHR ''x'', CHR ''X''}"

definition take_word :: "va list \<Rightarrow> (u64 \<times> va list) option" where
  "take_word args = (case args of VaWord w # rest \<Rightarrow> Some (w, rest) | _ \<Rightarrow> None)"

text \<open>\<^verbatim>\<open>va_arg(args, int)\<close> for a varied width or precision.\<close>

definition read_varied :: "options_t \<Rightarrow> va list \<Rightarrow> (options_t \<times> va list) option" where
  "read_varied opts args = do {
     (opts, args) \<leftarrow> (if opt_width_varies opts then do {
         (w, args) \<leftarrow> take_word args;
         Some (opts\<lparr>opt_width_set := True, opt_width := narrow_int w\<rparr>, args)
       } else Some (opts, args));
     (if opt_precision_varies opts then do {
        (w, args) \<leftarrow> take_word args;
        Some (opts\<lparr>opt_precision_set := True, opt_precision := narrow_int w\<rparr>, args)
      } else Some (opts, args))
   }"

definition pointer_options :: "char \<Rightarrow> options_t \<Rightarrow> options_t" where
  "pointer_options spec opts =
     (if spec = CHR ''p''
      then opts\<lparr>opt_len := PRINTF_LEN_SIZE_T, opt_width_set := True, opt_width := 16,
                opt_radix := 16, opt_hash := True, opt_zero := True\<rparr>
      else opts)"

text \<open>The argument of a numeric specifier: \<^verbatim>\<open>unsigned int\<close> for the lengths up to \<^verbatim>\<open>int\<close>.\<close>

definition int_data :: "options_t \<Rightarrow> u64 \<Rightarrow> u64" where
  "int_data opts w =
     (case opt_len opts of
        PRINTF_LEN_CHAR \<Rightarrow> ucast (ucast w :: u32)
      | PRINTF_LEN_SHORT_INT \<Rightarrow> ucast (ucast w :: u32)
      | PRINTF_LEN_INT \<Rightarrow> ucast (ucast w :: u32)
      | PRINTF_LEN_LONG_INT \<Rightarrow> w
      | PRINTF_LEN_LONG_LONG_INT \<Rightarrow> w
      | PRINTF_LEN_SIZE_T \<Rightarrow> w)"

definition do_spec :: "char \<Rightarrow> options_t \<Rightarrow> string \<Rightarrow> va list \<Rightarrow> context_t \<Rightarrow> (va list \<times> context_t) option" where
  "do_spec spec opts txt args ctx =
     (if is_int_spec spec then do {
        (w, args) \<leftarrow> take_word args;
        let opts = pointer_options spec opts;
        ctx \<leftarrow> handle_int_specifier opts (spec = CHR ''d'' \<or> spec = CHR ''i'') (int_data opts w) ctx;
        Some (args, ctx)
      }
      else if spec = CHR ''c'' then do {
        (w, args) \<leftarrow> take_word args;
        Some (args, handle_char_specifier (char_of (uint w)) ctx)
      }
      else if spec = CHR ''s'' then
        (case args of
           VaStr str # args \<Rightarrow> do {
             ctx \<leftarrow> handle_string_specifier opts str ctx;
             Some (args, ctx)
           }
         | _ \<Rightarrow> None)
      else if spec = CHR ''n'' then
        (case args of
           VaPlace # args \<Rightarrow> Some (args, ctx\<lparr>cx_stored := cx_stored ctx @ [cx_written_len ctx]\<rparr>)
         | _ \<Rightarrow> None)
      else Some (args, put_all txt ctx))"

text \<open>The options of a specifier, and the format behind them.\<close>

definition parse_options :: "string \<Rightarrow> string \<times> options_t" where
  "parse_options fmt =
     (let (fmt, opts) = parse_flags fmt no_options;
          (fmt, opts) = parse_width fmt opts;
          (fmt, opts) = parse_precision fmt opts
      in parse_length fmt opts)"

lemma length_parse_flags: "length (fst (parse_flags fmt opts)) \<le> length fmt"
proof (induction fmt opts rule: parse_flags.induct)
  case (1 fmt opts)
  show ?case
  proof (cases "parse_flag fmt opts")
    case None
    then show ?thesis by (simp add: parse_flags.simps [of fmt])
  next
    case (Some r)
    then have "length (fst r) \<le> length fmt" by (auto simp: parse_flag_def split: if_splits)
    then show ?thesis using 1 [OF Some] Some by (cases r) (simp add: parse_flags.simps [of fmt])
  qed
qed

lemma length_parse_options: "length (fst (parse_options fmt)) \<le> length fmt"
proof -
  have w: "length (fst (parse_width f oo)) \<le> length f" for f oo
    by (auto simp: parse_width_def split: prod.splits)
  have p: "length (fst (parse_precision f oo)) \<le> length f" for f oo
    by (auto simp: parse_precision_def Let_def split: prod.splits)
  have l: "length (fst (parse_length f oo)) \<le> length f" for f oo
    by (auto simp: parse_length_def)
  obtain f1 o1 f2 o2 f3 o3 where
    eqs: "parse_flags fmt no_options = (f1, o1)" "parse_width f1 o1 = (f2, o2)" "parse_precision f2 o2 = (f3, o3)"
    by (metis surj_pair)
  have "length (fst (parse_length f3 o3)) \<le> length fmt"
    using length_parse_flags [of fmt no_options] w [of f1 o1] p [of f2 o2] l [of f3 o3] by (simp add: eqs)
  then show ?thesis by (simp add: parse_options_def eqs)
qed

text \<open>The main loop. A specifier that ends the format takes the terminator as its letter, and the
  loop goes on reading behind it.\<close>

function do_printf :: "string \<Rightarrow> va list \<Rightarrow> context_t \<Rightarrow> context_t option" where
  "do_printf [] args ctx =
     Some (if cx_sprintf ctx
           then (printf_putc CHR 0x00 ctx)\<lparr>cx_written_len := cx_written_len ctx,
                  cx_possible_written_len := cx_possible_written_len ctx\<rparr>
           else ctx)"
| "do_printf (c # fmt) args ctx =
     (if c \<noteq> CHR ''%'' then do_printf fmt args (printf_putc c ctx)
      else case parse_options fmt of (rest, opts) \<Rightarrow>
        (case rest of
           [] \<Rightarrow> None
         | spec # rest' \<Rightarrow>
             (case read_varied (get_case spec (get_radix spec opts)) args of
                None \<Rightarrow> None
              | Some (opts, args) \<Rightarrow>
                  (case do_spec spec opts (take (length fmt - length rest' + 1) (c # fmt)) args ctx of
                     None \<Rightarrow> None
                   | Some (args, ctx) \<Rightarrow> do_printf rest' args ctx))))"
  by pat_completeness auto
termination
proof (relation "measure (\<lambda>(fmt, args, ctx). length fmt)", goal_cases)
  case (3 c fmt args ctx rest opts spec rest' z opts' args' z' args'' ctx')
  then have "length (spec # rest') \<le> length fmt" using length_parse_options [of fmt] by (metis fst_conv)
  then show ?case by simp
qed auto

definition context0 :: "bool \<Rightarrow> nat option \<Rightarrow> context_t" where
  "context0 spr mx =
     \<lparr>cx_max_len = (case mx of None \<Rightarrow> 0 | Some k \<Rightarrow> k), cx_has_max_len = (mx \<noteq> None),
      cx_written_len = 0, cx_possible_written_len = 0, cx_sprintf = spr, cx_out = [], cx_stored = []\<rparr>"

text \<open>The three entry points: what is written and the result.\<close>

definition kvprintf :: "string \<Rightarrow> va list \<Rightarrow> (string \<times> nat) option" where
  "kvprintf format args =
     map_option (\<lambda>ctx. (cx_out ctx, cx_written_len ctx)) (do_printf format args (context0 False None))"

definition kvsprintf :: "string \<Rightarrow> va list \<Rightarrow> (string \<times> nat) option" where
  "kvsprintf format args =
     map_option (\<lambda>ctx. (cx_out ctx, cx_written_len ctx)) (do_printf format args (context0 True None))"

definition kvsnprintf :: "nat \<Rightarrow> string \<Rightarrow> va list \<Rightarrow> (string \<times> nat) option" where
  "kvsnprintf maxlen format args =
     map_option (\<lambda>ctx. (cx_out ctx, cx_possible_written_len ctx))
       (do_printf format args (context0 True (Some maxlen)))"

text \<open>The functions with variable arguments only collect them.\<close>

definition kprintf :: "string \<Rightarrow> va list \<Rightarrow> (string \<times> nat) option" where "kprintf = kvprintf"
definition ksprintf :: "string \<Rightarrow> va list \<Rightarrow> (string \<times> nat) option" where "ksprintf = kvsprintf"
definition snprintf :: "nat \<Rightarrow> string \<Rightarrow> va list \<Rightarrow> (string \<times> nat) option" where "snprintf = kvsnprintf"


section \<open>Bounds\<close>

text \<open>What every step keeps: the counters agree with the output, and the output with the limit.\<close>

definition cx_ok :: "context_t \<Rightarrow> bool" where
  "cx_ok ctx \<longleftrightarrow> length (cx_out ctx) = cx_written_len ctx \<and>
     cx_written_len ctx \<le> cx_possible_written_len ctx \<and>
     (cx_has_max_len ctx \<longrightarrow> cx_written_len ctx \<le> cx_max_len ctx)"

definition cx_same :: "context_t \<Rightarrow> context_t \<Rightarrow> bool" where
  "cx_same a b \<longleftrightarrow> cx_max_len b = cx_max_len a \<and> cx_has_max_len b = cx_has_max_len a \<and>
     cx_sprintf b = cx_sprintf a"

definition cx_step :: "context_t \<Rightarrow> context_t \<Rightarrow> bool" where
  "cx_step a b \<longleftrightarrow> cx_same a b \<and> (cx_ok a \<longrightarrow> cx_ok b)"

lemma cx_step_refl [simp]: "cx_step a a"
  by (simp add: cx_step_def cx_same_def)

lemma cx_step_trans: "cx_step a b \<Longrightarrow> cx_step b c \<Longrightarrow> cx_step a c"
  by (auto simp: cx_step_def cx_same_def)

lemma printf_putc_step [frame]: "cx_step ctx (printf_putc c ctx)"
  by (auto simp: cx_step_def cx_same_def cx_ok_def printf_putc_def Let_def)

lemma put_all_step [frame]: "cx_step ctx (put_all cs ctx)"
proof (induction cs arbitrary: ctx)
  case (Cons c cs)
  have "cx_step ctx (put_all cs (printf_putc c ctx))"
    by (rule cx_step_trans [OF printf_putc_step Cons.IH])
  then show ?case by (simp add: put_all_def)
qed (simp add: put_all_def)

lemma handle_int_step: "handle_int_specifier opts sb num ctx = Some ctx' \<Longrightarrow> cx_step ctx ctx'"
  by (auto simp: handle_int_specifier_def Let_def bind_eq_Some_conv
      intro: frame cx_step_trans [OF put_all_step put_all_step])

lemma handle_string_step: "handle_string_specifier opts data ctx = Some ctx' \<Longrightarrow> cx_step ctx ctx'"
  by (auto simp: handle_string_specifier_def Let_def split: if_splits
      intro: frame cx_step_trans [OF put_all_step put_all_step])

lemma do_spec_step: "do_spec spec opts txt args ctx = Some (args', ctx') \<Longrightarrow> cx_step ctx ctx'"
  by (auto simp: do_spec_def Let_def bind_eq_Some_conv handle_char_specifier_def
      split: if_splits list.splits va.splits intro: frame dest: handle_int_step handle_string_step)
    (auto simp: cx_step_def cx_same_def cx_ok_def)

lemma do_printf_bounds:
  assumes "do_printf fmt args ctx = Some ctx'" "cx_ok ctx"
  shows "cx_written_len ctx' \<le> cx_possible_written_len ctx' \<and>
    (cx_has_max_len ctx \<longrightarrow> length (cx_out ctx') \<le> cx_max_len ctx)"
  using assms
proof (induction fmt args ctx rule: do_printf.induct)
  case (1 args ctx)
  then show ?case by (auto simp: printf_putc_def cx_ok_def Let_def)
next
  case (2 c fmt args ctx)
  show ?case
  proof (cases "c = CHR ''%''")
    case False
    have st: "cx_step ctx (printf_putc c ctx)" by (rule printf_putc_step)
    then show ?thesis using 2(1) [OF False] 2(3,4) False by (simp add: cx_step_def cx_same_def)
  next
    case True
    obtain rest opts where po: "parse_options fmt = (rest, opts)" by (cases "parse_options fmt")
    obtain spec rest' where r: "rest = spec # rest'" using 2(3) True po by (cases rest) auto
    obtain opts1 args1 where rv: "read_varied (get_case spec (get_radix spec opts)) args = Some (opts1, args1)"
      using 2(3) True po r by (auto split: option.splits)
    obtain args2 ctx2 where ds: "do_spec spec opts1 (take (length fmt - length rest' + 1) (c # fmt)) args1 ctx = Some (args2, ctx2)"
      using 2(3) True po r rv by (auto split: option.splits)
    have "do_printf rest' args2 ctx2 = Some ctx'" using 2(3) True po r rv ds by simp
    moreover have "cx_step ctx ctx2" by (rule do_spec_step [OF ds])
    ultimately show ?thesis
      using 2(2) [OF _ po [symmetric] r rv refl ds refl] True 2(4) by (simp add: cx_step_def cx_same_def)
  qed
qed



section \<open>What is printed\<close>

lemma put_all_unlimited:
  "\<not> cx_has_max_len ctx \<Longrightarrow> put_all cs ctx = ctx\<lparr>cx_out := cx_out ctx @ cs,
     cx_written_len := cx_written_len ctx + length cs,
     cx_possible_written_len := cx_possible_written_len ctx + length cs\<rparr>"
proof (induction cs arbitrary: ctx)
  case (Cons c cs)
  have "put_all (c # cs) ctx = put_all cs (printf_putc c ctx)" by (simp add: put_all_def)
  then show ?case using Cons by (simp add: printf_putc_def Let_def)
qed (simp add: put_all_def)

lemma do_printf_plain:
  "CHR ''%'' \<notin> set fmt \<Longrightarrow> do_printf (fmt @ rest) args ctx = do_printf rest args (put_all fmt ctx)"
  by (induction fmt arbitrary: ctx) (auto simp: put_all_def)

text \<open>Text without a percent sign is printed as it is, and the result is its length.\<close>

theorem kvprintf_plain:
  assumes "CHR ''%'' \<notin> set format"
  shows "kvprintf format args = Some (format, length format)"
  using do_printf_plain [OF assms, of "[]" args "context0 False None"]
  by (simp add: kvprintf_def put_all_unlimited context0_def)

theorem kvprintf_plain_witness: "kvprintf ''booting'' [] = Some (''booting'', 7)"
  using kvprintf_plain [of "''booting''" "[]"] by simp


text \<open>The digits agree with those of \<^verbatim>\<open>ulltoa\<close> in lower case.\<close>

lemma printf_itoc_lower: "printf_itoc False i = itoc i"
  by (simp add: printf_itoc_def itoc_def add.commute)

lemma lltoa_digits_list:
  "2 \<le> opt_radix opts \<Longrightarrow> \<not> opt_precision_set opts \<Longrightarrow> \<not> opt_is_uppercase opts \<Longrightarrow>
    lltoa_digits opts p num = map itoc (digit_list (opt_radix opts) num)"
proof (induction opts p num rule: lltoa_digits.induct)
  case (1 opts p num)
  show ?case
  proof (cases "num \<le> 0")
    case True
    then show ?thesis by (simp add: lltoa_digits.simps digit_list.simps)
  next
    case False
    then show ?thesis
      using 1 by (simp add: lltoa_digits.simps [of opts p num] digit_list.simps [of "opt_radix opts" num]
        printf_itoc_lower)
  qed
qed

definition long_options :: options_t where
  "long_options = no_options\<lparr>opt_width_set := True, opt_len := PRINTF_LEN_LONG_INT, opt_radix := 10\<rparr>"

lemma printf_lltoa_decimal:
  "\<exists>s. ulltoa n 10 = Some s \<and> printf_lltoa long_options False n = Some (rev s @ [CHR 0x00])"
proof (cases "n = 0")
  case True
  then show ?thesis
    by (simp add: ulltoa_def uxtoa_def printf_lltoa_def long_options_def no_options_def PRINTF_NUMERIC_BUF_LEN_def)
next
  case False
  let ?o = "long_options"
  have o: "opt_radix ?o = 10" "\<not> opt_precision_set ?o" "\<not> opt_is_uppercase ?o" "opt_width ?o = 0"
    "\<not> opt_hash ?o" "\<not> opt_sign ?o" "\<not> opt_space ?o" by (simp_all add: long_options_def no_options_def)
  have d: "lltoa_digits ?o 0 (uint n) = map itoc (digit_list 10 (uint n))"
    using lltoa_digits_list [of ?o 0 "uint n"] o by simp
  have "uint n < 10 ^ 20" using unsigned_less [of n, where ?'a = int] by simp
  then have "length (digit_list 10 (uint n)) \<le> 20" by (intro digit_list_length) simp_all
  then show ?thesis
    using uxtoa_digits [of 10 n] d o False
    by (simp add: ulltoa_def printf_lltoa_def Let_def rev_map PRINTF_NUMERIC_BUF_LEN_def)
qed

lemma parse_long_unsigned: "parse_options ''lu'' = (''u'', long_options\<lparr>opt_radix := 0\<rparr>)"
  by code_simp

text \<open>Every number is printed with a null character in front of it, because the length of the number
  buffer includes its terminator: for any 64-bit number, the format \<^verbatim>\<open>%lu\<close> puts that character
  and then the decimal text that \<^verbatim>\<open>ulltoa\<close> gives.\<close>

theorem kvprintf_number:
  "\<exists>s. ulltoa n 10 = Some s \<and> kvprintf ''%lu'' [VaWord n] = Some (CHR 0x00 # s, length s + 1)"
proof -
  obtain s where s: "ulltoa n 10 = Some s" "printf_lltoa long_options False n = Some (rev s @ [CHR 0x00])"
    using printf_lltoa_decimal by blast
  have opts: "get_case CHR ''u'' (get_radix CHR ''u'' (long_options\<lparr>opt_radix := 0\<rparr>)) = long_options"
    by (simp add: get_case_def get_radix_def long_options_def)
  have rv: "read_varied long_options args = Some (long_options, args)" for args
    by (simp add: read_varied_def long_options_def no_options_def)
  have "handle_int_specifier long_options False n ctx = Some (put_all (CHR 0x00 # s) ctx)" for ctx
    using s(2) by (simp add: handle_int_specifier_def Let_def long_options_def no_options_def put_all_def)
  then have "do_spec CHR ''u'' long_options tx [VaWord n] ctx = Some ([], put_all (CHR 0x00 # s) ctx)" for tx ctx
    by (simp add: do_spec_def is_int_spec_def take_word_def pointer_options_def int_data_def Let_def long_options_def)
  then have "do_printf ''%lu'' [VaWord n] (context0 False None) = Some (put_all (CHR 0x00 # s) (context0 False None))"
    by (simp add: parse_long_unsigned opts rv) (simp add: put_all_unlimited context0_def)
  then show ?thesis
    using s(1) by (simp add: kvprintf_def put_all_unlimited context0_def)
qed

text \<open>Three consequences and divergences on concrete calls: text printed to a buffer ends, as a C string,
  before its first number; a negative \<^verbatim>\<open>int\<close> is printed as the unsigned number of its bits, since the
  argument is read as an \<^verbatim>\<open>unsigned int\<close>; and a result that was cut to the limit has no terminator.\<close>

theorem kprintf_divergences:
  "ksprintf ''n=%d'' [VaWord 5] = Some (''n='' @ [CHR 0x00, CHR ''5'', CHR 0x00], 4) \<and>
   kprintf ''%d'' [VaWord (-1)] = Some (CHR 0x00 # ''4294967295'', 11) \<and>
   snprintf 3 ''abcdef'' [] = Some (''abc'', 6)"
  by code_simp

end
