(* ===== verification/Ports.thy ===== *)
theory Ports
  imports Prelude
begin

text \<open>
  Port input and output (\<^verbatim>\<open>include/comus/asm.h\<close>). What the devices behind the ports do is not part of the kernel: it is the
  argument \<open>io\<close> of the drivers, functions on a device state of any type.
\<close>

record 'd ports =
  inb :: "u16 \<Rightarrow> 'd \<Rightarrow> u8 \<times> 'd"
  outb :: "u16 \<Rightarrow> u8 \<Rightarrow> 'd \<Rightarrow> 'd"
  inw :: "u16 \<Rightarrow> 'd \<Rightarrow> u16 \<times> 'd"
  outw :: "u16 \<Rightarrow> u16 \<Rightarrow> 'd \<Rightarrow> 'd"
  inl :: "u16 \<Rightarrow> 'd \<Rightarrow> u32 \<times> 'd"
  outl :: "u16 \<Rightarrow> u32 \<Rightarrow> 'd \<Rightarrow> 'd"

definition io_wait :: "'d ports \<Rightarrow> 'd \<Rightarrow> 'd" where
  "io_wait io d = outb io 0x80 0 d"

text \<open>A loop over the values of a counter whose body may fail to come back.\<close>

primrec for_each :: "('a \<Rightarrow> 's \<Rightarrow> 's option) \<Rightarrow> 'a list \<Rightarrow> 's \<Rightarrow> 's option" where
  "for_each body [] s = Some s"
| "for_each body (x # xs) s = (case body x s of None \<Rightarrow> None | Some s' \<Rightarrow> for_each body xs s')"

lemma for_each_append:
  "for_each body (xs @ ys) s = (case for_each body xs s of None \<Rightarrow> None | Some s' \<Rightarrow> for_each body ys s')"
  by (induction xs arbitrary: s) (auto split: option.splits)

text \<open>A loop whose steps each establish some facts and keep those of \<open>Y\<close> establishes them all.\<close>

lemma for_each_establishes:
  assumes "\<And>x s. x \<in> set xs \<Longrightarrow> I s \<Longrightarrow>
      \<exists>s'. body x s = Some s' \<and> I s' \<and> (\<forall>y\<in>est x. P y s') \<and> (\<forall>y\<in>Y. P y s \<longrightarrow> P y s')"
    and "I s" and "\<And>x. x \<in> set xs \<Longrightarrow> est x \<subseteq> Y"
  shows "\<exists>s'. for_each body xs s = Some s' \<and> I s' \<and> (\<forall>x\<in>set xs. \<forall>y\<in>est x. P y s') \<and> (\<forall>y\<in>Y. P y s \<longrightarrow> P y s')"
  using assms
proof (induction xs arbitrary: s)
  case (Cons x xs)
  from Cons.prems(1) [of x s] Cons.prems(2) obtain s1 where s1: "body x s = Some s1" "I s1" "\<forall>y\<in>est x. P y s1" "\<forall>y\<in>Y. P y s \<longrightarrow> P y s1"
    by auto
  have "\<exists>s'. for_each body xs s1 = Some s' \<and> I s' \<and> (\<forall>x\<in>set xs. \<forall>y\<in>est x. P y s') \<and> (\<forall>y\<in>Y. P y s1 \<longrightarrow> P y s')"
    by (rule Cons.IH) (use Cons.prems s1(2) in auto)
  then obtain s2 where s2: "for_each body xs s1 = Some s2" "I s2" "\<forall>x\<in>set xs. \<forall>y\<in>est x. P y s2" "\<forall>y\<in>Y. P y s1 \<longrightarrow> P y s2" by blast
  have "\<forall>y\<in>est x. P y s2" using s1(3) s2(4) Cons.prems(3) [of x] by auto
  with s1 s2 show ?case by auto
qed auto

lemma for_each_inv:
  assumes "for_each body xs s = Some s'" "I s" "\<And>x s s'. x \<in> set xs \<Longrightarrow> I s \<Longrightarrow> body x s = Some s' \<Longrightarrow> I s'"
  shows "I s'"
  using assms
proof (induction xs arbitrary: s)
  case (Cons x xs)
  then obtain s1 where s1: "body x s = Some s1" "for_each body xs s1 = Some s'" by (auto split: option.splits)
  then have "I s1" using Cons.prems(2,3) by (meson list.set_intros(1))
  with s1(2) show ?case using Cons.IH Cons.prems(3) by (meson list.set_intros(2))
qed simp

end
