(* ===== verification/Ps2.thy ===== *)
theory Ps2
  imports Ports Input "HOL-Library.Monad_Syntax"
begin

text \<open>
  The PS/2 keyboard and mouse (\<^verbatim>\<open>kernel/drivers/ps2.c\<close>). The interrupt handlers read one byte each and decode
  the stream of bytes into events, which they push into the buffers of \<open>Input\<close>. The loops that wait for the controller need not
  end; not returning is \<open>None\<close>, as is an access beyond a table.
\<close>

section \<open>Key codes\<close>

definition KC_FLAG_KEY_DOWN :: u8 where "KC_FLAG_KEY_DOWN = 0x01"
definition KC_FLAG_KEY_UP :: u8 where "KC_FLAG_KEY_UP = 0x02"
definition KC_FLAG_ERROR :: u8 where "KC_FLAG_ERROR = 0x04"
definition KEY_NONE :: u8 where "KEY_NONE = 0x00"

definition scancodes :: "u8 list" where
  "scancodes = [
     0x00, 0x78, 0x00, 0x74, 0x72, 0x70, 0x71, 0x7B, 0x00, 0x79, 0x77, 0x75, 0x73, 0x20, 0x4B, 0x00,
     0x00, 0x3E, 0x1E, 0x00, 0x2E, 0x21, 0x11, 0x00, 0x00, 0x00, 0x41, 0x32, 0x31, 0x22, 0x12, 0x00,
     0x00, 0x43, 0x42, 0x33, 0x23, 0x14, 0x13, 0x00, 0x00, 0x40, 0x44, 0x34, 0x25, 0x24, 0x15, 0x00,
     0x00, 0x46, 0x45, 0x36, 0x35, 0x26, 0x16, 0x00, 0x00, 0x00, 0x47, 0x37, 0x27, 0x17, 0x18, 0x00,
     0x00, 0x48, 0x38, 0x28, 0x29, 0x1A, 0x19, 0x00, 0x00, 0x49, 0x4A, 0x39, 0x3A, 0x2A, 0x1B, 0x00,
     0x00, 0x00, 0x3B, 0x00, 0x2B, 0x1C, 0x00, 0x00, 0x30, 0x1F, 0x3C, 0x2C, 0x00, 0x2D, 0x00, 0x00,
     0x00, 0x00, 0x00, 0x00, 0x00, 0x00, 0x1D, 0x00, 0x00, 0x59, 0x00, 0x55, 0x51, 0x00, 0x00, 0x00,
     0x5D, 0x5E, 0x5A, 0x56, 0x57, 0x52, 0x10, 0x4C, 0x7A, 0x5C, 0x5B, 0x58, 0x54, 0x53, 0x4D, 0x00,
     0x00, 0x00, 0x00, 0x76]"

definition scancodes_ext :: "u8 list" where
  "scancodes_ext = [
     0x00, 0x00, 0x00, 0x00, 0x00, 0x00, 0x00, 0x00, 0x00, 0x00, 0x00, 0x00, 0x00, 0x00, 0x00, 0x00,
     0x01, 0x3F, 0x60, 0x00, 0x2F, 0x01, 0x00, 0x00, 0x01, 0x00, 0x00, 0x00, 0x00, 0x00, 0x00, 0x4E,
     0x01, 0x01, 0x00, 0x01, 0x00, 0x00, 0x00, 0x4F, 0x01, 0x00, 0x00, 0x01, 0x00, 0x00, 0x00, 0x3D,
     0x01, 0x00, 0x01, 0x00, 0x01, 0x00, 0x00, 0x01, 0x01, 0x00, 0x01, 0x01, 0x00, 0x00, 0x00, 0x01,
     0x01, 0x00, 0x00, 0x00, 0x00, 0x00, 0x00, 0x00, 0x01, 0x00, 0x50, 0x00, 0x00, 0x01, 0x00, 0x00,
     0x01, 0x00, 0x00, 0x00, 0x00, 0x00, 0x00, 0x00, 0x00, 0x00, 0x5F, 0x00, 0x00, 0x00, 0x01, 0x00,
     0x00, 0x00, 0x00, 0x00, 0x00, 0x00, 0x00, 0x00, 0x00, 0x66, 0x00, 0x6A, 0x63, 0x00, 0x00, 0x00,
     0x62, 0x65, 0x69, 0x00, 0x6B, 0x68, 0x00, 0x00, 0x00, 0x00, 0x67, 0x00, 0x00, 0x64, 0x00, 0x00,
     0x00, 0x00, 0x00, 0x00, 0x00, 0x00, 0x00, 0x00]"

section \<open>The controller\<close>

definition STATUS_OUT_BUF :: u8 where "STATUS_OUT_BUF = 0x01"
definition STATUS_IN_BUF :: u8 where "STATUS_IN_BUF = 0x02"
definition CONFIG_INT_0 :: u8 where "CONFIG_INT_0 = 0x01"
definition CONFIG_INT_1 :: u8 where "CONFIG_INT_1 = 0x02"
definition CONFIG_TRANS :: u8 where "CONFIG_TRANS = 0x40"

definition ps2ctrl_in_status :: "'d ports \<Rightarrow> 'd \<Rightarrow> u8 \<times> 'd" where
  "ps2ctrl_in_status io d = inb io 0x64 d"

partial_function (option) ps2ctrl_in :: "'d ports \<Rightarrow> 'd \<Rightarrow> (u8 \<times> 'd) option" where
  "ps2ctrl_in io d =
     (let r = ps2ctrl_in_status io d
      in if fst r AND STATUS_OUT_BUF = 0 then ps2ctrl_in io (io_wait io (snd r)) else Some (inb io 0x60 (snd r)))"

partial_function (option) out_wait :: "'d ports \<Rightarrow> 'd \<Rightarrow> 'd option" where
  "out_wait io d =
     (let r = ps2ctrl_in_status io d
      in if fst r AND STATUS_IN_BUF \<noteq> 0 then out_wait io (io_wait io (snd r)) else Some (snd r))"

definition ps2ctrl_out_cmd :: "'d ports \<Rightarrow> u8 \<Rightarrow> 'd \<Rightarrow> 'd option" where
  "ps2ctrl_out_cmd io cmd d = map_option (outb io 0x64 cmd) (out_wait io d)"

definition ps2ctrl_out_data :: "'d ports \<Rightarrow> u8 \<Rightarrow> 'd \<Rightarrow> 'd option" where
  "ps2ctrl_out_data io dat d = map_option (outb io 0x60 dat) (out_wait io d)"

definition ps2ctrl_set_port2 :: "'d ports \<Rightarrow> 'd \<Rightarrow> 'd" where
  "ps2ctrl_set_port2 io d = outb io 0x64 0xD4 d"

section \<open>State\<close>

record ps2 =
  has_kbd :: bool
  has_mouse :: bool
  state_keyup :: bool
  state_ext :: bool
  last_keycode :: keycode
  first_b :: u8
  second_b :: u8
  third_b :: u8
  packet_num :: u8
  keybuf :: keycode_buf
  mousebuf :: mouse_event_buf
  interrupts :: bool

section \<open>Initialisation\<close>

definition ps2kb_init :: "'d ports \<Rightarrow> ps2 \<Rightarrow> 'd \<Rightarrow> (int \<times> ps2 \<times> 'd) option" where
  "ps2kb_init io st d = do {
     d \<leftarrow> ps2ctrl_out_data io 0xFF d;
     (result, d) \<leftarrow> ps2ctrl_in io d;
     (if result \<noteq> 0xFA then Some (1, st, d)
      else do {
        (result, d) \<leftarrow> ps2ctrl_in io d;
        (if result \<noteq> 0xAA then Some (1, st, d)
         else do {
           d \<leftarrow> ps2ctrl_out_data io 0xF4 d;
           (result, d) \<leftarrow> ps2ctrl_in io d;
           (if result \<noteq> 0xFA then Some (1, st, d) else Some (0, st\<lparr>has_kbd := True\<rparr>, d))
         })
      })
   }"

definition ps2mouse_init :: "'d ports \<Rightarrow> ps2 \<Rightarrow> 'd \<Rightarrow> (int \<times> ps2 \<times> 'd) option" where
  "ps2mouse_init io st d = do {
     d \<leftarrow> ps2ctrl_out_data io 0xFF (ps2ctrl_set_port2 io d);
     (result, d) \<leftarrow> ps2ctrl_in io d;
     (if result \<noteq> 0xFA then Some (1, st, d)
      else do {
        (result, d) \<leftarrow> ps2ctrl_in io d;
        (if result \<noteq> 0xAA then Some (1, st, d)
         else do {
           d \<leftarrow> ps2ctrl_out_data io 0xF4 (ps2ctrl_set_port2 io d);
           Some (0, st\<lparr>has_mouse := True\<rparr>, d)
         })
      })
   }"

text \<open>The test of port 2 compares the truth value of \<^verbatim>\<open>result != ps2ctrl_in()\<close> with 1. A failed test returns with
  interrupts off.\<close>

definition ps2_init :: "'d ports \<Rightarrow> ps2 \<Rightarrow> 'd \<Rightarrow> (int \<times> ps2 \<times> 'd) option" where
  "ps2_init io st d = do {
     let st = st\<lparr>interrupts := False\<rparr>;
     let d = snd (inb io 0x60 d);
     d \<leftarrow> ps2ctrl_out_cmd io 0xAA d;
     (result, d) \<leftarrow> ps2ctrl_in io d;
     (if result \<noteq> 0x55 then Some (1, st, d)
      else do {
        d \<leftarrow> ps2ctrl_out_cmd io 0x20 d;
        (config, d) \<leftarrow> ps2ctrl_in io d;
        let config = (config OR CONFIG_INT_0 OR CONFIG_INT_1) AND NOT CONFIG_TRANS;
        d \<leftarrow> ps2ctrl_out_cmd io 0x60 d;
        d \<leftarrow> ps2ctrl_out_data io config d;
        d \<leftarrow> ps2ctrl_out_cmd io 0xAE d;
        d \<leftarrow> ps2ctrl_out_cmd io 0xA9 d;
        (port2, d) \<leftarrow> ps2ctrl_in io d;
        (if (of_bool (result \<noteq> port2) :: int) \<noteq> 1 then Some (1, st, d)
         else do {
           d \<leftarrow> ps2ctrl_out_cmd io 0xA8 d;
           (_, st, d) \<leftarrow> ps2kb_init io st d;
           (_, st, d) \<leftarrow> ps2mouse_init io st d;
           Some (0, st\<lparr>interrupts := True\<rparr>, d)
         })
      })
   }"

definition ps2_set_leds :: "'d ports \<Rightarrow> u8 \<Rightarrow> ps2 \<Rightarrow> 'd \<Rightarrow> (int \<times> 'd) option" where
  "ps2_set_leds io leds st d =
     (if \<not> (has_mouse st \<or> has_kbd st) then Some (1, d)
      else do {
        d \<leftarrow> ps2ctrl_out_cmd io 0xED d;
        d \<leftarrow> ps2ctrl_out_data io leds d;
        (result, d) \<leftarrow> ps2ctrl_in io d;
        Some (if result \<noteq> 0xFA then 1 else 0, d)
      })"

section \<open>Receiving\<close>

text \<open>The body of \<^verbatim>\<open>ps2kb_recv\<close> once the byte is read.\<close>

definition kb_byte :: "u8 \<Rightarrow> ps2 \<Rightarrow> ps2 option" where
  "kb_byte code st =
     (if code = 0x00 \<or> code = 0x0F then Some (st\<lparr>last_keycode := \<lparr>kc_key = KEY_NONE, kc_flags = KC_FLAG_ERROR\<rparr>\<rparr>)
      else if code = 0xF0 then Some (st\<lparr>state_keyup := True\<rparr>)
      else if code = 0xE0 then Some (st\<lparr>state_ext := True\<rparr>)
      else if code \<le> 0x84 then
        (let table = (if state_ext st then scancodes_ext else scancodes)
         in if unat code < length table then
              let kcode = table ! unat code;
                  st = (if kcode \<noteq> KEY_NONE
                        then let k = \<lparr>kc_key = kcode, kc_flags = (if state_keyup st then KC_FLAG_KEY_UP else KC_FLAG_KEY_DOWN)\<rparr>
                             in st\<lparr>last_keycode := k, keybuf := keycode_push k (keybuf st)\<rparr>
                        else st)
              in Some (st\<lparr>state_keyup := False, state_ext := False\<rparr>)
            else None)
      else Some st)"

definition ps2kb_recv :: "'d ports \<Rightarrow> ps2 \<Rightarrow> 'd \<Rightarrow> (ps2 \<times> 'd) option" where
  "ps2kb_recv io st d =
     (if \<not> has_kbd st then Some (st, d)
      else do {
        (code, d) \<leftarrow> ps2ctrl_in io d;
        st \<leftarrow> kb_byte code st;
        Some (st, d)
      })"

text \<open>\<^verbatim>\<open>d - ((state << s) & 0x100)\<close> on ints.\<close>

definition mouse_rel :: "u8 \<Rightarrow> u8 \<Rightarrow> nat \<Rightarrow> int" where
  "mouse_rel state d s = uint d - (push_bit s (uint state) AND 0x100)"

definition mouse_byte :: "u8 \<Rightarrow> ps2 \<Rightarrow> ps2" where
  "mouse_byte code st =
     (let st =
        (if packet_num st = 0 then st\<lparr>first_b := code\<rparr>
         else if packet_num st = 1 then st\<lparr>second_b := code\<rparr>
         else if packet_num st = 2 then
           (let ev = \<lparr>me_updated = True, me_lmb = first_b st AND 0x01 \<noteq> 0, me_rmb = first_b st AND 0x02 \<noteq> 0,
                      me_mmb = first_b st AND 0x04 \<noteq> 0, me_relx = mouse_rel (first_b st) (second_b st) 4,
                      me_rely = mouse_rel (first_b st) code 3\<rparr>
            in st\<lparr>third_b := code, mousebuf := mouse_event_push ev (mousebuf st)\<rparr>)
         else st)
      in st\<lparr>packet_num := (packet_num st + 1) mod 3\<rparr>)"

definition ps2mouse_recv :: "'d ports \<Rightarrow> ps2 \<Rightarrow> 'd \<Rightarrow> (ps2 \<times> 'd) option" where
  "ps2mouse_recv io st d =
     (if \<not> has_mouse st then Some (st, d)
      else do {
        (code, d) \<leftarrow> ps2ctrl_in io d;
        Some (mouse_byte code st, d)
      })"

section \<open>A stream of bytes\<close>

text \<open>The controller has the bytes \<open>bs\<close> ready, one for each interrupt, and is in the state \<open>d'\<close> after them.\<close>

fun supplies :: "'d ports \<Rightarrow> 'd \<Rightarrow> u8 list \<Rightarrow> 'd \<Rightarrow> bool" where
  "supplies io d [] d' \<longleftrightarrow> d' = d"
| "supplies io d (b # bs) d' \<longleftrightarrow>
     fst (inb io 0x64 d) AND STATUS_OUT_BUF \<noteq> 0 \<and> fst (inb io 0x60 (snd (inb io 0x64 d))) = b \<and>
     supplies io (snd (inb io 0x60 (snd (inb io 0x64 d)))) bs d'"

text \<open>The handler called for \<open>n\<close> interrupts.\<close>

fun recvs :: "(ps2 \<Rightarrow> 'd \<Rightarrow> (ps2 \<times> 'd) option) \<Rightarrow> nat \<Rightarrow> ps2 \<Rightarrow> 'd \<Rightarrow> (ps2 \<times> 'd) option" where
  "recvs recv 0 st d = Some (st, d)"
| "recvs recv (Suc n) st d = do { (st, d) \<leftarrow> recv st d; recvs recv n st d }"

lemma ps2ctrl_in_ready:
  "fst (inb io 0x64 d) AND STATUS_OUT_BUF \<noteq> 0 \<Longrightarrow> ps2ctrl_in io d = Some (inb io 0x60 (snd (inb io 0x64 d)))"
  by (subst ps2ctrl_in.simps) (simp add: ps2ctrl_in_status_def Let_def)

fun kb_bytes :: "u8 list \<Rightarrow> ps2 \<Rightarrow> ps2 option" where
  "kb_bytes [] st = Some st"
| "kb_bytes (b # bs) st = do { st \<leftarrow> kb_byte b st; kb_bytes bs st }"

lemma kb_byte_has_kbd: "kb_byte b st = Some st' \<Longrightarrow> has_kbd st' = has_kbd st"
  by (auto simp: kb_byte_def Let_def split: if_splits)

lemma kb_recvs:
  "has_kbd st \<Longrightarrow> supplies io d bs d' \<Longrightarrow> kb_bytes bs st = Some st' \<Longrightarrow>
   recvs (ps2kb_recv io) (length bs) st d = Some (st', d')"
proof (induction bs arbitrary: st d)
  case (Cons b bs)
  obtain st1 where b: "kb_byte b st = Some st1" "kb_bytes bs st1 = Some st'" using Cons.prems(3) by (auto split: bind_splits)
  have "ps2kb_recv io st d = Some (st1, snd (inb io 0x60 (snd (inb io 0x64 d))))"
    using Cons.prems(1,2) b(1) by (simp add: ps2kb_recv_def ps2ctrl_in_ready case_prod_beta)
  then show ?case using Cons.IH [of st1] Cons.prems(1,2) b kb_byte_has_kbd [OF b(1)] by simp
qed simp

lemma kb_bytes_append: "kb_bytes (xs @ ys) st = do { st \<leftarrow> kb_bytes xs st; kb_bytes ys st }"
  by (induction xs arbitrary: st) (auto split: bind_splits)

section \<open>Keys\<close>

text \<open>A key event as the keyboard sends it: from the extended table or not, released or pressed, and the code.\<close>

type_synonym key_event = "bool \<times> bool \<times> u8"

definition key_table :: "bool \<Rightarrow> u8 list" where
  "key_table ext = (if ext then scancodes_ext else scancodes)"

fun key_bytes :: "key_event \<Rightarrow> u8 list" where
  "key_bytes (ext, up, code) = (if ext then [0xE0] else []) @ (if up then [0xF0] else []) @ [code]"

fun key_known :: "key_event \<Rightarrow> bool" where
  "key_known (ext, up, code) \<longleftrightarrow> code < 0x84 \<and> key_table ext ! unat code \<noteq> KEY_NONE"

fun key_code :: "key_event \<Rightarrow> keycode" where
  "key_code (ext, up, code) =
     \<lparr>kc_key = key_table ext ! unat code, kc_flags = (if up then KC_FLAG_KEY_UP else KC_FLAG_KEY_DOWN)\<rparr>"

definition kb_neutral :: "ps2 \<Rightarrow> bool" where
  "kb_neutral st \<longleftrightarrow> \<not> state_keyup st \<and> \<not> state_ext st"

lemma length_tables: "length scancodes = 132" "length scancodes_ext = 136"
  by (simp_all add: scancodes_def scancodes_ext_def)

lemma special_codes: "key_table ext ! 0x00 = KEY_NONE" "key_table ext ! 0x0F = KEY_NONE"
  by (cases ext; simp add: key_table_def scancodes_def scancodes_ext_def KEY_NONE_def)+

lemma kb_byte_key:
  assumes "key_known (state_ext st, state_keyup st, code)"
  shows "\<exists>k. kb_byte code st = Some (st\<lparr>last_keycode := k, keybuf := keycode_push (key_code (state_ext st, state_keyup st, code)) (keybuf st),
    state_keyup := False, state_ext := False\<rparr>)"
proof -
  have u: "unat code < 132" using assms by (simp add: word_less_nat_alt)
  have ne: "code \<noteq> 0x00" "code \<noteq> 0x0F" using assms special_codes [of "state_ext st"] by auto
  have "code \<noteq> 0xF0" "code \<noteq> 0xE0" "code \<le> 0x84" using u by (auto simp: word_le_nat_alt)
  then show ?thesis
    using assms u ne length_tables by (auto simp: kb_byte_def key_table_def Let_def)
qed

lemma kb_bytes_key:
  assumes "key_known e" "kb_neutral st"
  obtains st' where "kb_bytes (key_bytes e) st = Some st'" "kb_neutral st'" "keybuf st' = keycode_push (key_code e) (keybuf st)"
proof -
  obtain ext up code where e: "e = (ext, up, code)" by (cases e)
  let ?st = "st\<lparr>state_ext := ext, state_keyup := up\<rparr>"
  have "kb_bytes ((if ext then [0xE0] else []) @ (if up then [0xF0] else [])) st = Some ?st"
    using assms(2) by (auto simp: kb_byte_def kb_neutral_def)
  moreover obtain k where "kb_byte code ?st = Some (?st\<lparr>last_keycode := k, keybuf := keycode_push (key_code e) (keybuf st),
      state_keyup := False, state_ext := False\<rparr>)"
    using kb_byte_key [of ?st code] assms(1) e by auto
  ultimately have "kb_bytes (key_bytes e) st = Some (?st\<lparr>last_keycode := k, keybuf := keycode_push (key_code e) (keybuf st),
      state_keyup := False, state_ext := False\<rparr>)"
    unfolding e key_bytes.simps append_assoc [symmetric] kb_bytes_append by simp
  then show thesis using that by (simp add: kb_neutral_def)
qed

lemma kb_bytes_keys:
  "list_all key_known es \<Longrightarrow> kb_neutral st \<Longrightarrow>
   \<exists>st'. kb_bytes (concat (map key_bytes es)) st = Some st' \<and> kb_neutral st' \<and>
     keybuf st' = fold keycode_push (map key_code es) (keybuf st)"
proof (induction es arbitrary: st)
  case (Cons e es)
  obtain st1 where "kb_bytes (key_bytes e) st = Some st1" "kb_neutral st1" "keybuf st1 = keycode_push (key_code e) (keybuf st)"
    by (rule kb_bytes_key [of e st]) (use Cons.prems in auto)
  then show ?case using Cons.IH [of st1] Cons.prems(1) by (simp add: kb_bytes_append)
qed simp

section \<open>Pushing many events\<close>

definition newest :: "'e list \<Rightarrow> 'e list" where
  "newest xs = drop (length xs - N_KEYCODE) xs"

lemma length_newest: "length (newest xs) \<le> N_KEYCODE"
  by (simp add: newest_def)

lemma newest_short: "length xs \<le> N_KEYCODE \<Longrightarrow> newest xs = xs"
  by (simp add: newest_def)

lemma newest_snoc:
  "(if length (newest xs) < N_KEYCODE then newest xs else tl (newest xs)) @ [e] = newest (xs @ [e])"
proof (cases "length xs < N_KEYCODE")
  case True
  then show ?thesis by (simp add: newest_def)
next
  case False
  then have "length xs + 1 - N_KEYCODE = Suc (length xs - N_KEYCODE)" by simp
  then show ?thesis using False by (simp add: newest_def drop_Suc tl_drop N_KEYCODE_def)
qed

context event_ring begin

lemma fold_push: "ok b \<Longrightarrow> ok (fold push es b) \<and> contents (fold push es b) = newest (contents b @ es)"
proof (induction es rule: rev_induct)
  case Nil
  then show ?case using newest_short [OF capacity] by simp
next
  case (snoc e es)
  then have "ok (fold push es b)" "contents (fold push es b) = newest (contents b @ es)" by simp_all
  then show ?case using ok_push push_contents newest_snoc [of "contents b @ es" e] by (simp split: if_splits)
qed

end

section \<open>Mouse packets\<close>

type_synonym mouse_packet = "u8 \<times> u8 \<times> u8"

fun packet_bytes :: "mouse_packet \<Rightarrow> u8 list" where
  "packet_bytes (a, b, c) = [a, b, c]"

text \<open>A movement is nine bits in two's complement, whose sign is a bit of the first byte.\<close>

definition signed9 :: "bool \<Rightarrow> u8 \<Rightarrow> int" where
  "signed9 neg d = (if neg then uint d - 256 else uint d)"

fun packet_event :: "mouse_packet \<Rightarrow> mouse_event" where
  "packet_event (a, b, c) = \<lparr>me_updated = True, me_lmb = bit a 0, me_rmb = bit a 1, me_mmb = bit a 2,
     me_relx = signed9 (bit a 4) b, me_rely = signed9 (bit a 5) c\<rparr>"

lemma and_256: "(x :: int) AND 256 = (if bit x 8 then 256 else 0)"
proof -
  have b: "bit (256 :: int) n \<longleftrightarrow> n = 8" for n using bit_exp_iff [where ?'a = int and m = 8 and n = n] by auto
  show ?thesis by (rule bit_eqI) (auto simp: bit_and_iff b)
qed

lemma mouse_rel_signed: "mouse_rel a d 4 = signed9 (bit a 4) d" "mouse_rel a d 3 = signed9 (bit a 5) d"
  by (auto simp: mouse_rel_def and_256 signed9_def bit_simps)

lemma and_bit_u8: "(a :: u8) AND 1 \<noteq> 0 \<longleftrightarrow> bit a 0" "a AND 2 \<noteq> 0 \<longleftrightarrow> bit a 1" "a AND 4 \<noteq> 0 \<longleftrightarrow> bit a 2"
  using and_exp_eq_0_iff_not_bit [of a 0] and_exp_eq_0_iff_not_bit [of a 1] and_exp_eq_0_iff_not_bit [of a 2] by simp_all

lemma mouse_packet_bytes:
  assumes "packet_num st = 0"
  shows "packet_num (fold mouse_byte (packet_bytes p) st) = 0"
    "mousebuf (fold mouse_byte (packet_bytes p) st) = mouse_event_push (packet_event p) (mousebuf st)"
  using assms by (cases p; simp add: mouse_byte_def Let_def mouse_rel_signed and_bit_u8)+

lemma mouse_recvs:
  "has_mouse st \<Longrightarrow> supplies io d bs d' \<Longrightarrow> recvs (ps2mouse_recv io) (length bs) st d = Some (fold mouse_byte bs st, d')"
proof (induction bs arbitrary: st d)
  case (Cons b bs)
  have "has_mouse (mouse_byte b st)" using Cons.prems(1) by (simp add: mouse_byte_def Let_def)
  moreover have "ps2mouse_recv io st d = Some (mouse_byte b st, snd (inb io 0x60 (snd (inb io 0x64 d))))"
    using Cons.prems by (simp add: ps2mouse_recv_def ps2ctrl_in_ready case_prod_beta)
  ultimately show ?case using Cons.IH Cons.prems(2) by simp
qed simp

lemma mouse_packets_fold:
  "packet_num st = 0 \<Longrightarrow> packet_num (fold mouse_byte (concat (map packet_bytes ps)) st) = 0 \<and>
   mousebuf (fold mouse_byte (concat (map packet_bytes ps)) st) = fold mouse_event_push (map packet_event ps) (mousebuf st)"
  by (induction ps arbitrary: st) (simp_all add: mouse_packet_bytes)

section \<open>Properties\<close>

text \<open>C30: When the keyboard sends the bytes of any sequence of presses and releases of keys it knows, the handler, called once
  for every byte, takes exactly these events, in their order and each with its key and whether it was pressed or
  released, into the key buffer, which keeps the newest \<^verbatim>\<open>N_KEYCODE\<close> of them, and is ready for the next key.\<close>

theorem keyboard_decodes:
  assumes "has_kbd st" "kb_neutral st" "keycode_ok (keybuf st)" "list_all key_known es"
    "supplies io d (concat (map key_bytes es)) d'"
  shows "\<exists>st'. recvs (ps2kb_recv io) (length (concat (map key_bytes es))) st d = Some (st', d') \<and> kb_neutral st' \<and>
    keycodes (keybuf st') = newest (keycodes (keybuf st) @ map key_code es)"
proof -
  obtain st' where st': "kb_bytes (concat (map key_bytes es)) st = Some st'" "kb_neutral st'"
      "keybuf st' = fold keycode_push (map key_code es) (keybuf st)"
    using kb_bytes_keys [OF assms(4,2)] by blast
  then show ?thesis using kb_recvs [OF assms(1,5) st'(1)] keys.fold_push [OF assms(3), of "map key_code es"] by simp
qed

text \<open>When the mouse sends whole packets of three bytes, the handler turns each into one event with the three buttons and the two
  nine bit movements, from -256 to 255, and the event buffer keeps the newest \<^verbatim>\<open>N_MOUSEEV\<close> of them.\<close>

theorem mouse_decodes:
  assumes "has_mouse st" "packet_num st = 0" "mouse_ok (mousebuf st)" "supplies io d (concat (map packet_bytes ps)) d'"
  shows "\<exists>st'. recvs (ps2mouse_recv io) (length (concat (map packet_bytes ps))) st d = Some (st', d') \<and> packet_num st' = 0 \<and>
    mouse_events (mousebuf st') = newest (mouse_events (mousebuf st) @ map packet_event ps)"
  using mouse_recvs [OF assms(1,4)] mouse_packets_fold [OF assms(2), of ps] mice.fold_push [OF assms(3), of "map packet_event ps"]
  by simp

text \<open>The handler accepts the code 0x84, for which the table of the plain codes has no entry: exactly then it reads beyond a table.\<close>

theorem scancode_overrun: "kb_byte code st = None \<longleftrightarrow> code = 0x84 \<and> \<not> state_ext st"
proof -
  have "unat code \<le> 0x84 \<Longrightarrow> \<not> unat code < 132 \<longleftrightarrow> code = 0x84" by (auto simp: word_unat_eq_iff)
  moreover have "code \<le> 0x84 \<longleftrightarrow> unat code \<le> 0x84" by (simp add: word_le_nat_alt)
  ultimately show ?thesis by (auto simp: kb_byte_def Let_def length_tables)
qed

section \<open>A concrete controller\<close>

text \<open>A controller that holds a queue of bytes and is always ready.\<close>

definition queue_ports :: "u8 list ports" where
  "queue_ports = \<lparr>inb = (\<lambda>p q. if p = 0x60 then (hd q, tl q) else (1, q)), outb = (\<lambda>_ _ q. q), inw = (\<lambda>_ q. (0, q)),
     outw = (\<lambda>_ _ q. q), inl = (\<lambda>_ q. (0, q)), outl = (\<lambda>_ _ q. q)\<rparr>"

definition ready_ps2 :: ps2 where
  "ready_ps2 = \<lparr>has_kbd = True, has_mouse = True, state_keyup = False, state_ext = False,
     last_keycode = \<lparr>kc_key = 0, kc_flags = 0\<rparr>, first_b = 0, second_b = 0, third_b = 0, packet_num = 0,
     keybuf = keycode_buffer_init, mousebuf = mouse_event_buffer_init, interrupts = True\<rparr>"

lemma queue_supplies: "supplies queue_ports (bs @ q) bs q"
  by (induction bs) (simp_all add: queue_ports_def STATUS_OUT_BUF_def)

theorem keyboard_decodes_witness:
  "\<exists>st'. recvs (ps2kb_recv queue_ports) 6 ready_ps2 [0x1C, 0xE0, 0xF0, 0x75, 0xF0, 0x1C] = Some (st', []) \<and>
     keycodes (keybuf st') = [\<lparr>kc_key = 0x31, kc_flags = 1\<rparr>, \<lparr>kc_key = 0x68, kc_flags = 2\<rparr>, \<lparr>kc_key = 0x31, kc_flags = 2\<rparr>]"
proof -
  let ?es = "[(False, False, 0x1C), (True, True, 0x75), (False, True, 0x1C)] :: key_event list"
  have known: "list_all key_known ?es"
    and bytes: "concat (map key_bytes ?es) = [0x1C, 0xE0, 0xF0, 0x75, 0xF0, 0x1C]" "length (concat (map key_bytes ?es)) = 6"
    and codes: "newest (map key_code ?es) =
      [\<lparr>kc_key = 0x31, kc_flags = 1\<rparr>, \<lparr>kc_key = 0x68, kc_flags = 2\<rparr>, \<lparr>kc_key = 0x31, kc_flags = 2\<rparr>]"
    by code_simp+
  have ready: "has_kbd ready_ps2" "kb_neutral ready_ps2" "keycode_ok (keybuf ready_ps2)" "keycodes (keybuf ready_ps2) = []"
    using keycode_ok_init keycodes_init by (simp_all add: ready_ps2_def kb_neutral_def)
  have "supplies queue_ports [0x1C, 0xE0, 0xF0, 0x75, 0xF0, 0x1C] (concat (map key_bytes ?es)) []"
    using queue_supplies [of "[0x1C, 0xE0, 0xF0, 0x75, 0xF0, 0x1C]" "[]"] by (simp only: bytes append_Nil2)
  from keyboard_decodes [OF ready(1-3) known this] show ?thesis
    unfolding bytes(2) ready(4) append_Nil codes by blast
qed

theorem mouse_decodes_witness:
  "\<exists>st'. recvs (ps2mouse_recv queue_ports) 3 ready_ps2 [0x19, 0xFE, 0x03] = Some (st', []) \<and>
     mouse_events (mousebuf st') = [\<lparr>me_updated = True, me_lmb = True, me_rmb = False, me_mmb = False, me_relx = -2, me_rely = 3\<rparr>]"
proof -
  let ?ps = "[(0x19, 0xFE, 0x03)] :: mouse_packet list"
  have bytes: "concat (map packet_bytes ?ps) = [0x19, 0xFE, 0x03]" "length (concat (map packet_bytes ?ps)) = 3"
    and event: "newest (map packet_event ?ps) =
      [\<lparr>me_updated = True, me_lmb = True, me_rmb = False, me_mmb = False, me_relx = -2, me_rely = 3\<rparr>]"
    by code_simp+
  have ready: "has_mouse ready_ps2" "packet_num ready_ps2 = 0" "mouse_ok (mousebuf ready_ps2)" "mouse_events (mousebuf ready_ps2) = []"
    using mouse_ok_init mouse_events_init by (simp_all add: ready_ps2_def)
  have "supplies queue_ports [0x19, 0xFE, 0x03] (concat (map packet_bytes ?ps)) []"
    using queue_supplies [of "[0x19, 0xFE, 0x03]" "[]"] by (simp only: bytes append_Nil2)
  from mouse_decodes [OF ready(1-3) this] show ?thesis
    unfolding bytes(2) ready(4) append_Nil event by blast
qed

end
