(* ===== verification/Clock.thy ===== *)
theory Clock
  imports Ports
begin

text \<open>
  The clock (\<^verbatim>\<open>kernel/drivers/clock.c\<close>): the registers of the battery-backed clock, the broken-down time made of them and
  the number of seconds that \<^verbatim>\<open>gettime\<close> returns to user programs. The C type \<^verbatim>\<open>int\<close> has 32 bits; where a value cannot leave
  its range it is an integer, and the multiplications of \<^verbatim>\<open>unixtime\<close> wrap around.
\<close>

section \<open>Reading the clock\<close>

definition CMOS_WRITE_PORT :: u16 where "CMOS_WRITE_PORT = 0x70"
definition CMOS_READ_PORT :: u16 where "CMOS_READ_PORT = 0x71"
definition CMOS_REG_SEC :: u8 where "CMOS_REG_SEC = 0x00"
definition CMOS_REG_MIN :: u8 where "CMOS_REG_MIN = 0x02"
definition CMOS_REG_HOUR :: u8 where "CMOS_REG_HOUR = 0x04"
definition CMOS_REG_WDAY :: u8 where "CMOS_REG_WDAY = 0x06"
definition CMOS_REG_MDAY :: u8 where "CMOS_REG_MDAY = 0x07"
definition CMOS_REG_MON :: u8 where "CMOS_REG_MON = 0x08"
definition CMOS_REG_YEAR :: u8 where "CMOS_REG_YEAR = 0x09"

lemmas cmos_regs = CMOS_REG_SEC_def CMOS_REG_MIN_def CMOS_REG_HOUR_def CMOS_REG_WDAY_def CMOS_REG_MDAY_def CMOS_REG_MON_def
  CMOS_REG_YEAR_def

definition from_bcd :: "u8 \<Rightarrow> u8" where
  "from_bcd hex = (hex AND 0x0F) + (hex AND 0xF0) div 16 * 10"

definition cmos_read :: "'d ports \<Rightarrow> u8 \<Rightarrow> 'd \<Rightarrow> u8 \<times> 'd" where
  "cmos_read io reg d = map_prod from_bcd id (inb io CMOS_READ_PORT (outb io CMOS_WRITE_PORT reg d))"

record time =
  sec :: int
  min :: int
  hour :: int
  mday :: int
  mon :: int
  year :: int
  wday :: int
  yday :: int
  yn :: int
  cen :: int
  leap :: bool

definition mday_offset :: "int list" where
  "mday_offset = [0, 31, 59, 90, 120, 151, 181, 212, 243, 273, 304, 334]"

text \<open>A month outside the table is an access outside the object.\<close>

definition gettime :: "'d ports \<Rightarrow> 'd \<Rightarrow> (time \<times> 'd) option" where
  "gettime io d =
     (let (s, d) = cmos_read io CMOS_REG_SEC d;
          (m, d) = cmos_read io CMOS_REG_MIN d;
          (h, d) = cmos_read io CMOS_REG_HOUR d;
          (wd, d) = cmos_read io CMOS_REG_WDAY d;
          (md, d) = cmos_read io CMOS_REG_MDAY d;
          (mo, d) = cmos_read io CMOS_REG_MON d;
          (y, d) = cmos_read io CMOS_REG_YEAR d;
          month = uint mo - 1;
          full = uint y + 20 * 100;
          lp = (full mod 4 = 0 \<and> full mod 100 \<noteq> 0)
      in if month < 0 \<or> 12 \<le> month then None
         else Some (\<lparr>sec = uint s, min = uint m, hour = uint h, mday = uint md, mon = month, year = full - 1900, wday = uint wd - 1,
           yday = mday_offset ! nat month + uint md + (if lp \<and> month > 2 then 1 else 0), yn = uint y, cen = 20, leap = lp\<rparr>, d))"

definition int32 :: "int \<Rightarrow> int" where
  "int32 k = sint (word_of_int k :: u32)"

definition unixtime :: "'d ports \<Rightarrow> 'd \<Rightarrow> (u64 \<times> 'd) option" where
  "unixtime io d = map_option (\<lambda>(t, d).
     (of_int (sec t) + of_int (int32 (min t * 60)) + of_int (int32 (hour t * 60 * 60)) + of_int (int32 (yday t * 60 * 60 * 24)) +
      of_int (int32 (year t * 60 * 60 * 24 * 365)), d)) (gettime io d)"

section \<open>The registers\<close>

text \<open>What the driver relies on: the data port reads the register selected by the index port, and reading changes none; the
  registers hold the time in binary-coded decimal.\<close>

definition to_bcd :: "nat \<Rightarrow> u8" where
  "to_bcd n = of_nat (n div 10 * 16 + n mod 10)"

definition cmos_clock :: "'d ports \<Rightarrow> ('d \<Rightarrow> u8 \<Rightarrow> nat) \<Rightarrow> bool" where
  "cmos_clock io regs \<longleftrightarrow> (\<forall>d reg.
     fst (inb io CMOS_READ_PORT (outb io CMOS_WRITE_PORT reg d)) = to_bcd (regs d reg) \<and>
     regs (snd (inb io CMOS_READ_PORT (outb io CMOS_WRITE_PORT reg d))) = regs d)"

lemma from_bcd_to_bcd: "n < 100 \<Longrightarrow> from_bcd (to_bcd n) = of_nat n"
proof -
  assume n: "n < 100"
  have "\<forall>n<100. from_bcd (to_bcd n) = of_nat n" by code_simp
  with n show ?thesis by blast
qed

lemma cmos_read_bcd:
  assumes "cmos_clock io regs" "regs d reg < 100"
  shows "fst (cmos_read io reg d) = of_nat (regs d reg)" "regs (snd (cmos_read io reg d)) = regs d"
  using assms from_bcd_to_bcd by (simp_all add: cmos_clock_def cmos_read_def)

section \<open>The calendar\<close>

text \<open>The reference: the lengths of the months of the Gregorian calendar and the number of a day in its year, from 1.\<close>

definition leap_year :: "nat \<Rightarrow> bool" where
  "leap_year y \<longleftrightarrow> y mod 4 = 0 \<and> (y mod 100 \<noteq> 0 \<or> y mod 400 = 0)"

definition month_days :: "nat \<Rightarrow> nat list" where
  "month_days y = [31, if leap_year y then 29 else 28, 31, 30, 31, 30, 31, 31, 30, 31, 30, 31]"

definition day_of_year :: "nat \<Rightarrow> nat \<Rightarrow> nat \<Rightarrow> nat" where
  "day_of_year y month day = sum_list (take month (month_days y)) + day"

definition clock_ok :: "(u8 \<Rightarrow> nat) \<Rightarrow> bool" where
  "clock_ok r \<longleftrightarrow> r CMOS_REG_SEC < 60 \<and> r CMOS_REG_MIN < 60 \<and> r CMOS_REG_HOUR < 24 \<and> r CMOS_REG_WDAY \<in> {1..7} \<and>
     r CMOS_REG_MON \<in> {1..12} \<and> r CMOS_REG_YEAR < 100 \<and>
     r CMOS_REG_MDAY \<in> {1..month_days (2000 + r CMOS_REG_YEAR) ! (r CMOS_REG_MON - 1)}"

lemma month_days_le: "m \<in> {1..12} \<Longrightarrow> month_days y ! (m - 1) \<le> 31"
  by (auto simp: month_days_def nth_Cons' split: if_splits)

lemma mday_offset_days:
  "m < 12 \<Longrightarrow> mday_offset ! m = int (sum_list (take m (month_days y))) - (if leap_year y \<and> m \<ge> 2 then 1 else 0)"
proof -
  assume "m < 12"
  moreover have "\<forall>m<12. mday_offset ! m = int (sum_list (take m [31, 29, 31, 30, 31, 30, 31, 31, 30, 31, 30, 31])) - (if m \<ge> 2 then 1 else 0)"
    "\<forall>m<12. mday_offset ! m = int (sum_list (take m [31, 28, 31, 30, 31, 30, 31, 31, 30, 31, 30, 31]))"
    by code_simp+
  ultimately show ?thesis unfolding month_days_def by (cases "leap_year y") (simp_all only: if_True if_False simp_thms, simp_all)
qed

lemma leap_test: "n < 100 \<Longrightarrow> (2000 + int n) mod 4 = 0 \<and> (2000 + int n) mod 100 \<noteq> 0 \<longleftrightarrow> leap_year (2000 + n) \<and> n \<noteq> 0"
proof -
  assume "n < 100"
  then have "(2000 + n) mod 400 = n" "(2000 + n) mod 100 = n" "(2000 + int n) mod 100 = int n"
    by (simp_all add: mod_add_left_eq [of 2000, symmetric])
  moreover have "(2000 + int n) mod 4 = int ((2000 + n) mod 4)" by (simp add: zmod_int)
  ultimately show ?thesis by (auto simp: leap_year_def)
qed

lemma uint_small: "n < 100 \<Longrightarrow> uint (of_nat n :: u8) = int n"
  by (simp add: unsigned_of_nat take_bit_eq_mod)

lemma clock_ok_small:
  "clock_ok r \<Longrightarrow> r CMOS_REG_SEC < 100 \<and> r CMOS_REG_MIN < 100 \<and> r CMOS_REG_HOUR < 100 \<and> r CMOS_REG_WDAY < 100 \<and>
     r CMOS_REG_MDAY < 100 \<and> r CMOS_REG_MON < 100 \<and> r CMOS_REG_YEAR < 100"
  using month_days_le [of "r CMOS_REG_MON" "2000 + r CMOS_REG_YEAR"] by (auto simp: clock_ok_def)

text \<open>The fields of the time in terms of the registers.\<close>

definition clock_time :: "(u8 \<Rightarrow> nat) \<Rightarrow> time" where
  "clock_time r = \<lparr>sec = int (r CMOS_REG_SEC), min = int (r CMOS_REG_MIN), hour = int (r CMOS_REG_HOUR),
      mday = int (r CMOS_REG_MDAY), mon = int (r CMOS_REG_MON) - 1, year = 100 + int (r CMOS_REG_YEAR), wday = int (r CMOS_REG_WDAY) - 1,
      yday = mday_offset ! (r CMOS_REG_MON - 1) + int (r CMOS_REG_MDAY) +
        (if leap_year (2000 + r CMOS_REG_YEAR) \<and> r CMOS_REG_YEAR \<noteq> 0 \<and> r CMOS_REG_MON > 3 then 1 else 0),
      yn = int (r CMOS_REG_YEAR), cen = 20, leap = leap_year (2000 + r CMOS_REG_YEAR) \<and> r CMOS_REG_YEAR \<noteq> 0\<rparr>"

lemma gettime_fields:
  assumes "cmos_clock io regs" "clock_ok (regs d)"
  obtains d' where "regs d' = regs d" "gettime io d = Some (clock_time (regs d), d')"
proof -
  let ?y = "regs d CMOS_REG_YEAR" and ?m = "regs d CMOS_REG_MON"
  note small = clock_ok_small [OF assms(2)]
  have "?m \<in> {1..12}" using assms(2) by (auto simp: clock_ok_def)
  then have month: "nat (int ?m - 1) = ?m - 1" "\<not> int ?m - 1 < 0" "\<not> 12 \<le> int ?m - 1" "2 < int ?m - 1 \<longleftrightarrow> ?m > 3" "0 < ?m" "\<not> 12 < ?m" by auto
  have leap: "(int ?y + 20 * 100) mod 4 = 0 \<and> (int ?y + 20 * 100) mod 100 \<noteq> 0 \<longleftrightarrow> leap_year (2000 + ?y) \<and> ?y \<noteq> 0"
    using leap_test [of ?y] small by (simp add: add.commute)
  show thesis
  proof (rule that)
    let ?rd = "\<lambda>reg d. snd (cmos_read io reg d)"
    let ?d = "?rd CMOS_REG_YEAR (?rd CMOS_REG_MON (?rd CMOS_REG_MDAY (?rd CMOS_REG_WDAY (?rd CMOS_REG_HOUR (?rd CMOS_REG_MIN
      (?rd CMOS_REG_SEC d))))))"
    show "regs ?d = regs d" using small by (simp add: cmos_read_bcd [OF assms(1)])
    show "gettime io d = Some (clock_time (regs d), ?d)"
      using small unfolding gettime_def clock_time_def Let_def case_prod_beta
      by (simp add: cmos_read_bcd [OF assms(1)] uint_small leap [simplified] month)
  qed
qed

text \<open>From a clock that holds a date of this century in binary-coded decimal, \<^verbatim>\<open>gettime\<close> reads the time of day and the date,
  and the number of the day in its year is that of the Gregorian calendar, counted from 1, except in the March of a leap year
  and from March 2000 to its end, where it is one less.\<close>

theorem gettime_calendar:
  assumes "cmos_clock io regs" "clock_ok (regs d)"
  defines "r \<equiv> regs d"
  defines "y \<equiv> 2000 + r CMOS_REG_YEAR"
  shows "\<exists>t d'. gettime io d = Some (t, d') \<and>
    [hour t, min t, sec t] = map int [r CMOS_REG_HOUR, r CMOS_REG_MIN, r CMOS_REG_SEC] \<and>
    [year t + 1900, mon t + 1, mday t, wday t + 1] = map int [y, r CMOS_REG_MON, r CMOS_REG_MDAY, r CMOS_REG_WDAY] \<and>
    yday t = int (day_of_year y (r CMOS_REG_MON - 1) (r CMOS_REG_MDAY)) -
      (if leap_year y \<and> (r CMOS_REG_MON = 3 \<or> y = 2000 \<and> r CMOS_REG_MON > 3) then 1 else 0)"
proof -
  obtain d' where d': "gettime io d = Some (clock_time r, d')" using gettime_fields [OF assms(1,2)] unfolding r_def by metis
  have "r CMOS_REG_MON - 1 < 12" "r CMOS_REG_MON \<ge> 1" using assms(2) by (auto simp: clock_ok_def r_def)
  then show ?thesis
    unfolding d' using mday_offset_days [of "r CMOS_REG_MON - 1" y]
    by (auto simp: clock_time_def day_of_year_def y_def)
qed

lemma int32_id: "0 \<le> k \<Longrightarrow> k < 2 ^ 31 \<Longrightarrow> int32 k = k"
  by (simp add: int32_def signed_of_int signed_take_bit_int_eq_self)

lemma int32_bounds: "- (2 ^ 31) \<le> int32 k" "int32 k < 2 ^ 31"
  using sint_greater_eq [of "word_of_int k :: u32"] sint_less [of "word_of_int k :: u32"] by (simp_all add: int32_def)

lemma word_of_int_differ:
  assumes "k \<noteq> l" "\<bar>k - l\<bar> < 2 ^ 64"
  shows "(of_int k :: u64) \<noteq> of_int l"
proof
  assume "(of_int k :: u64) = of_int l"
  then have "k mod 2 ^ 64 = l mod 2 ^ 64" by (simp add: word_of_int_eq_iff take_bit_eq_mod)
  then have "2 ^ 64 dvd k - l" by (simp add: mod_eq_dvd_iff)
  with assms show False using zdvd_imp_le [of "2 ^ 64" "\<bar>k - l\<bar>"] by auto
qed

text \<open>The seconds of the years since 1900 do not fit the type \<^verbatim>\<open>int\<close> in which \<^verbatim>\<open>unixtime\<close> multiplies them: in every year of
  this century the product wraps around, and the result is not the number of seconds the formula says.\<close>

theorem unixtime_wraps:
  assumes "cmos_clock io regs" "clock_ok (regs d)"
  shows "\<exists>t u d'. gettime io d = Some (t, d') \<and> unixtime io d = Some (u, d') \<and>
    u \<noteq> of_int (sec t + min t * 60 + hour t * 60 * 60 + yday t * 60 * 60 * 24 + year t * 60 * 60 * 24 * 365)"
proof -
  let ?t = "clock_time (regs d)"
  obtain d' where d': "gettime io d = Some (?t, d')" using gettime_fields [OF assms] by metis
  have "regs d CMOS_REG_MON - 1 < 12" using assms(2) by (auto simp: clock_ok_def)
  moreover have "\<forall>m<12. 0 \<le> mday_offset ! m \<and> mday_offset ! m < 335" by code_simp
  ultimately have "0 \<le> yday ?t" "yday ?t < 500" using clock_ok_small [OF assms(2)] by (auto simp: clock_time_def)
  moreover have t: "0 \<le> min ?t" "min ?t < 100" "0 \<le> hour ?t" "hour ?t < 100" "100 \<le> year ?t" "year ?t < 200"
    using clock_ok_small [OF assms(2)] by (auto simp: clock_time_def)
  ultimately have parts: "int32 (min ?t * 60) = min ?t * 60" "int32 (hour ?t * 60 * 60) = hour ?t * 60 * 60"
    "int32 (yday ?t * 60 * 60 * 24) = yday ?t * 60 * 60 * 24"
    by (auto intro!: int32_id)
  let ?a = "sec ?t + min ?t * 60 + hour ?t * 60 * 60 + yday ?t * 60 * 60 * 24"
  have u: "unixtime io d = Some (of_int (?a + int32 (year ?t * 60 * 60 * 24 * 365)), d')"
    by (simp only: unixtime_def d' option.map case_prod_conv parts of_int_add)
  have "(of_int (?a + int32 (year ?t * 60 * 60 * 24 * 365)) :: u64) \<noteq> of_int (?a + year ?t * 60 * 60 * 24 * 365)"
    using int32_bounds [of "year ?t * 60 * 60 * 24 * 365"] t by (intro word_of_int_differ) auto
  with d' u show ?thesis by blast
qed

section \<open>A concrete clock\<close>

text \<open>A clock stopped in March of a leap year: the device state is the selected register.\<close>

definition stopped :: "u8 \<Rightarrow> nat" where
  "stopped = (\<lambda>_. 0)(CMOS_REG_SEC := 59, CMOS_REG_MIN := 30, CMOS_REG_HOUR := 12, CMOS_REG_WDAY := 6, CMOS_REG_MDAY := 1,
     CMOS_REG_MON := 3, CMOS_REG_YEAR := 24)"

definition stopped_clock :: "u8 ports" where
  "stopped_clock = \<lparr>inb = (\<lambda>p d. (to_bcd (stopped d), d)), outb = (\<lambda>p v d. v), inw = (\<lambda>_ d. (0, d)), outw = (\<lambda>_ _ d. d),
     inl = (\<lambda>_ d. (0, d)), outl = (\<lambda>_ _ d. d)\<rparr>"

lemma stopped_clock_ok: "cmos_clock stopped_clock (\<lambda>_. stopped)" "clock_ok stopped"
  by (simp_all add: cmos_clock_def stopped_clock_def clock_ok_def stopped_def cmos_regs month_days_def leap_year_def)

theorem gettime_calendar_witness:
  "\<exists>t d'. gettime stopped_clock 0 = Some (t, d') \<and> [hour t, min t, sec t] = [12, 30, 59] \<and> year t = 124 \<and> yday t = 60 \<and> day_of_year 2024 2 1 = 61"
proof -
  have "leap_year 2024" "day_of_year 2024 2 1 = 61" by code_simp+
  then show ?thesis
    using gettime_calendar [of stopped_clock "\<lambda>_. stopped" 0, OF stopped_clock_ok] by (auto simp: stopped_def cmos_regs)
qed

end
