(* ===== verification/Gpu.thy ===== *)
theory Gpu
  imports Ports Syscall
begin

text \<open>
  Drawing characters (\<^verbatim>\<open>kernel/drivers/gpu.c\<close>, \<^verbatim>\<open>kernel/drivers/gpu/vga_text.c\<close>): on a frame buffer with the glyphs of the font,
  or in text mode when there is no graphics device. The font file linked into the kernel is an argument; a read beyond its data, like a
  division by a width of 0, is \<open>None\<close>. The frame buffer and the text buffer are functions from the index that the code computes.
\<close>

section \<open>State\<close>

record psf2_font =
  fnt_glyph_size :: u32
  fnt_height :: u32
  fnt_width :: u32
  fnt_data :: "u8 list"

record 'd gpu =
  gpu_dev :: "gpu_dev_t option"
  fb :: "int \<Rightarrow> u32"
  vga :: "nat \<Rightarrow> u16"
  gpu_ports :: 'd

section \<open>Operations\<close>

definition VGA_WIDTH :: nat where "VGA_WIDTH = 80"
definition VGA_HEIGHT :: nat where "VGA_HEIGHT = 25"
definition vga_fg :: u8 where "vga_fg = 15"
definition vga_bg :: u8 where "vga_bg = 0"

text \<open>The character is a signed \<^verbatim>\<open>char\<close>: in the expression it is extended with its sign.\<close>

definition vga_cell :: "u8 \<Rightarrow> u16" where
  "vga_cell c = ucast (scast c OR push_bit 12 (ucast vga_bg) OR push_bit 8 (ucast vga_fg) :: u32)"

definition vga_text_draw_char :: "'d ports \<Rightarrow> u8 \<Rightarrow> u16 \<Rightarrow> u16 \<Rightarrow> 'd gpu \<Rightarrow> 'd gpu" where
  "vga_text_draw_char io c x y st =
     (let index = unat y * VGA_WIDTH + unat x;
          st = st\<lparr>vga := (vga st)(index := vga_cell c)\<rparr>;
          pos = y * of_nat VGA_HEIGHT + x;
          d = outb io 0x3D4 0x0F (gpu_ports st);
          d = outb io 0x3D5 (ucast (pos AND 0xFF)) d;
          d = outb io 0x3D4 0x0E d;
          d = outb io 0x3D5 (ucast (drop_bit 8 pos AND 0xFF)) d
      in st\<lparr>gpu_ports := d\<rparr>)"

definition gpu_set_pixel :: "u32 \<Rightarrow> u32 \<Rightarrow> u32 \<Rightarrow> u32 \<Rightarrow> u32 \<Rightarrow> 'd gpu \<Rightarrow> 'd gpu option" where
  "gpu_set_pixel x y r g b st =
     (case gpu_dev st of
        None \<Rightarrow> Some st
      | Some dev \<Rightarrow>
          if gpu_width dev = 0 \<or> gpu_height dev = 0 then None
          else let x = x mod ucast (gpu_width dev);
                   y = y mod ucast (gpu_height dev);
                   offset = sint (y * ucast (gpu_width dev) + x)
               in Some (st\<lparr>fb := (fb st)(offset := b OR push_bit 8 g OR push_bit 16 r)\<rparr>))"

definition glyph_byte :: "psf2_font \<Rightarrow> u8 \<Rightarrow> u32 \<Rightarrow> u8 option" where
  "glyph_byte font c byteoff =
     (let k = unat (fnt_glyph_size font * scast c) + unat byteoff
      in if k < length (fnt_data font) then Some (fnt_data font ! k) else None)"

definition draw_dot :: "psf2_font \<Rightarrow> u8 \<Rightarrow> u32 \<Rightarrow> u32 \<Rightarrow> nat \<Rightarrow> nat \<Rightarrow> 'd gpu \<Rightarrow> 'd gpu option" where
  "draw_dot font c sx sy i j st = do {
     let x = sx + (fnt_width font - of_nat i - 1);
     let y = sy + of_nat j;
     let bitoff = of_nat i + of_nat j * fnt_width font;
     byte \<leftarrow> glyph_byte font c (bitoff div 8);
     let color = ucast (drop_bit (unat (bitoff mod 8)) byte AND 1) * 255;
     gpu_set_pixel x y color color color st
   }"

definition gpu_draw_char :: "'d ports \<Rightarrow> psf2_font \<Rightarrow> u8 \<Rightarrow> u16 \<Rightarrow> u16 \<Rightarrow> 'd gpu \<Rightarrow> 'd gpu option" where
  "gpu_draw_char io font c cx cy st =
     (if gpu_dev st = None then Some (vga_text_draw_char io c cx cy st)
      else let sx = fnt_width font * ucast cx;
               sy = fnt_height font * ucast cy
           in for_each (\<lambda>i. for_each (draw_dot font c sx sy i) [0..<unat (fnt_height font)]) [0..<unat (fnt_width font)] st)"

section \<open>What is on the screen\<close>

text \<open>The place of the dot at column \<open>i\<close> (from the right) and row \<open>j\<close> of a character, and its colour.\<close>

definition dot :: "nat \<Rightarrow> psf2_font \<Rightarrow> nat \<Rightarrow> nat \<Rightarrow> nat \<Rightarrow> nat \<Rightarrow> nat" where
  "dot w font cx cy i j =
     (cy * unat (fnt_height font) + j) * w + (cx * unat (fnt_width font) + (unat (fnt_width font) - 1 - i))"

definition colour :: "psf2_font \<Rightarrow> u8 \<Rightarrow> nat \<Rightarrow> nat \<Rightarrow> u32" where
  "colour font c i j =
     (let bitoff = i + j * unat (fnt_width font)
      in if bit (fnt_data font ! (unat (fnt_glyph_size font) * unat c + bitoff div 8)) (bitoff mod 8) then 0xFFFFFF else 0)"

definition shown :: "psf2_font \<Rightarrow> 'd gpu \<Rightarrow> u8 \<Rightarrow> u16 \<Rightarrow> u16 \<Rightarrow> bool" where
  "shown font st c cx cy \<longleftrightarrow>
     (case gpu_dev st of
        None \<Rightarrow> vga st (unat cy * VGA_WIDTH + unat cx) = vga_cell c
      | Some dev \<Rightarrow> \<forall>i<unat (fnt_width font). \<forall>j<unat (fnt_height font).
          fb st (int (dot (unat (gpu_width dev)) font (unat cx) (unat cy) i j)) = colour font c i j)"

text \<open>A font has the glyphs of the characters below 128, and a place is on the screen when all its dots are.\<close>

definition font_ok :: "psf2_font \<Rightarrow> bool" where
  "font_ok font \<longleftrightarrow> 0 < fnt_width font \<and> 0 < fnt_height font \<and>
     unat (fnt_width font) * unat (fnt_height font) \<le> 8 * unat (fnt_glyph_size font) \<and>
     128 * unat (fnt_glyph_size font) \<le> length (fnt_data font) \<and> 128 * unat (fnt_glyph_size font) < 2 ^ 28"

definition on_screen :: "psf2_font \<Rightarrow> 'd gpu \<Rightarrow> u16 \<Rightarrow> u16 \<Rightarrow> bool" where
  "on_screen font st cx cy \<longleftrightarrow>
     (case gpu_dev st of
        None \<Rightarrow> unat cx < VGA_WIDTH \<and> unat cy < VGA_HEIGHT
      | Some dev \<Rightarrow> font_ok font \<and> (unat cx + 1) * unat (fnt_width font) \<le> unat (gpu_width dev) \<and>
          (unat cy + 1) * unat (fnt_height font) \<le> unat (gpu_height dev) \<and> unat (gpu_width dev) * unat (gpu_height dev) < 2 ^ 31)"

section \<open>Drawing one character\<close>

lemma unat_u16: "unat (c :: u16) < 65536"
proof -
  have "unat c < 2 ^ LENGTH(16)" by (rule unsigned_less)
  then show ?thesis by simp
qed

lemma unat_ucast16: "unat (ucast (c :: u16) :: u32) = unat c"
  using unat_u16 [of c] by (simp add: unsigned_ucast_eq take_bit_nat_eq_self)

lemma unat_ucast8: "unat (ucast (c :: u8) :: u32) = unat c"
proof -
  have "unat c < 2 ^ LENGTH(8)" by (rule unsigned_less)
  then show ?thesis by (simp add: unsigned_ucast_eq take_bit_nat_eq_self)
qed

lemma cell_bound: "(c + 1) * k \<le> w \<Longrightarrow> i < k \<Longrightarrow> c * k + i < (w :: nat)"
  by simp

lemma dot_coordinate:
  fixes k :: u32 and c :: u16
  assumes "(unat c + 1) * unat k \<le> w" "w < 2 ^ 16" "j < unat k"
  shows "unat (k * ucast c + of_nat j) = unat c * unat k + j"
proof -
  have lt: "unat c * unat k + j < w" using assms by simp
  have "unat (k * ucast c) = unat c * unat k"
    using lt assms(2) by (subst unat_mult_small) (simp_all add: unat_ucast16 mult.commute)
  moreover have "unat (of_nat j :: u32) = j" using lt assms(2) by (simp add: unat_of_nat32)
  ultimately show ?thesis using lt assms(2) by (subst unat_add_small) simp_all
qed

lemma scast_low: "c < 0x80 \<Longrightarrow> (scast (c :: u8) :: u32) = ucast c"
proof -
  assume "c < 0x80"
  then have "unat c < 128" by (simp add: word_less_nat_alt)
  moreover have "\<forall>n<128. (scast (of_nat n :: u8) :: u32) = ucast (of_nat n :: u8)" by code_simp
  ultimately show ?thesis by (metis of_nat_unat ucast_id)
qed

lemma colour_word:
  fixes byte :: u8
  shows "(let col = ucast (drop_bit n byte AND 1) * 255 in col OR push_bit 8 col OR push_bit 16 col :: u32) =
    (if bit byte n then 0xFFFFFF else 0)"
  by (cases "bit byte n") (simp_all add: Let_def and_one_eq mod_2_eq_odd flip: bit_iff_odd_drop_bit)

text \<open>The dot at column \<open>i\<close> and row \<open>j\<close> of a character on the screen gets the colour of the font.\<close>

lemma draw_dot_on_screen:
  assumes "c < 0x80" "gpu_dev st = Some dev" "on_screen font st cx cy"
    "i < unat (fnt_width font)" "j < unat (fnt_height font)"
  shows "draw_dot font c (fnt_width font * ucast cx) (fnt_height font * ucast cy) i j st =
    Some (st\<lparr>fb := (fb st)(int (dot (unat (gpu_width dev)) font (unat cx) (unat cy) i j) := colour font c i j)\<rparr>)"
proof -
  let ?fw = "fnt_width font" and ?fh = "fnt_height font" and ?g = "fnt_glyph_size font"
  let ?W = "unat (gpu_width dev)" and ?H = "unat (gpu_height dev)"
  let ?x = "?fw * ucast cx + (?fw - of_nat i - 1)" and ?y = "?fh * ucast cy + of_nat j"
  have font: "font_ok font" and scr: "(unat cx + 1) * unat ?fw \<le> ?W" "(unat cy + 1) * unat ?fh \<le> ?H" "?W * ?H < 2 ^ 31"
    using assms(2,3) by (simp_all add: on_screen_def)
  have lim: "?W < 2 ^ 16" "?H < 2 ^ 16" using unat_u16 by simp_all
  have e: "?fw - of_nat i - 1 = of_nat (unat ?fw - 1 - i)" using assms(4) by (simp add: of_nat_diff diff_diff_eq)
  have i: "unat ?fw - 1 - i < unat ?fw" using assms(4) by simp
  from dot_coordinate [OF scr(1) lim(1) i] have x: "unat ?x = unat cx * unat ?fw + (unat ?fw - 1 - i)" (is "_ = ?xn")
    unfolding e .
  have y: "unat ?y = unat cy * unat ?fh + j" (is "_ = ?yn") using dot_coordinate [OF scr(2) lim(2) assms(5)] .
  have lt: "?xn < ?W" "?yn < ?H" by (fact cell_bound [OF scr(1) i] cell_bound [OF scr(2) assms(5)])+
  have pos: "gpu_width dev \<noteq> 0" "gpu_height dev \<noteq> 0" using lt by auto
  have m: "?x mod ucast (gpu_width dev) = ?x" "?y mod ucast (gpu_height dev) = ?y"
    using x y lt by (simp_all add: word_unat_eq_iff unat_mod unat_ucast16)
  have "?yn * ?W + ?xn < ?H * ?W"
  proof -
    have "?yn * ?W + ?xn < (?yn + 1) * ?W" using lt(1) by simp
    also have "\<dots> \<le> ?H * ?W" using lt(2) by (intro mult_right_mono) simp_all
    finally show ?thesis .
  qed
  then have "unat (?y * ucast (gpu_width dev) + ?x) = ?yn * ?W + ?xn \<and> ?yn * ?W + ?xn < 2 ^ 31"
    using x y scr(3) by (subst unat_add_small; subst unat_mult_small) (simp_all add: unat_ucast16 mult.commute)
  then have off: "sint (?y * ucast (gpu_width dev) + ?x) = int (dot ?W font (unat cx) (unat cy) i j)"
    by (subst sint_nonneg) (simp_all only: dot_def uint_nat, simp_all)
  let ?b = "of_nat i + of_nat j * ?fw :: u32" and ?n = "i + j * unat ?fw"
  have "?n < unat ?fw * unat ?fh"
  proof -
    have "?n < (j + 1) * unat ?fw" using assms(4) by simp
    also have "\<dots> \<le> unat ?fh * unat ?fw" using assms(5) by (intro mult_right_mono) simp_all
    finally show ?thesis by (simp add: mult.commute)
  qed
  then have n: "?n < 8 * unat ?g" "?n < 2 ^ 31" and g: "128 * unat ?g < 2 ^ 28" "128 * unat ?g \<le> length (fnt_data font)"
    using font by (auto simp: font_ok_def)
  have b: "unat ?b = ?n" using n(2) assms(4,5) by (subst unat_add_small; subst unat_mult_small) (simp_all add: unat_of_nat_less [OF assms(4)] unat_of_nat_less [OF assms(5)])
  have top: "unat ?g * unat c + unat ?g \<le> 128 * unat ?g"
    using assms(1) mult_right_mono [of "unat c + 1" 128 "unat ?g"] by (simp add: word_less_nat_alt)
  have "unat ?g * unat c < 2 ^ LENGTH(32)" using le_less_trans [OF add_leD1 [OF top] g(1)]
    by (rule less_trans) simp
  then have k: "unat (?g * scast c) = unat ?g * unat c"
    unfolding scast_low [OF assms(1)] by (subst unat_mult_small) (simp_all only: unat_ucast8)
  from top have "unat ?g * unat c + ?n div 8 < length (fnt_data font)" using n(1) g(2) by linarith
  then have byte: "glyph_byte font c (?b div 8) = Some (fnt_data font ! (unat ?g * unat c + ?n div 8))"
    by (simp add: glyph_byte_def k unat_div b)
  show ?thesis
    unfolding draw_dot_def Let_def byte
    using pos by (simp add: gpu_set_pixel_def assms(2) m off unat_mod b colour_word [unfolded Let_def] colour_def Let_def)
qed

lemma base_eq: "r < k \<Longrightarrow> r' < k \<Longrightarrow> a * k + r = b * k + r' \<longleftrightarrow> a = b \<and> r = (r' :: nat)"
proof
  assume r: "r < k" "r' < k" and eq: "a * k + r = b * k + r'"
  have "(a * k + r) div k = a" "(b * k + r') div k = b" using r by simp_all
  with eq show "a = b \<and> r = r'" by auto
qed simp

lemma dot_eq:
  assumes "(cx + 1) * unat (fnt_width font) \<le> w" "(cx' + 1) * unat (fnt_width font) \<le> w"
    "i < unat (fnt_width font)" "i' < unat (fnt_width font)" "j < unat (fnt_height font)" "j' < unat (fnt_height font)"
  shows "dot w font cx cy i j = dot w font cx' cy' i' j' \<longleftrightarrow> cx = cx' \<and> cy = cy' \<and> i = i' \<and> j = j'"
proof -
  let ?fw = "unat (fnt_width font)"
  have k: "?fw - 1 - i < ?fw" "?fw - 1 - i' < ?fw" using assms(3,4) by simp_all
  have "dot w font cx cy i j = dot w font cx' cy' i' j' \<longleftrightarrow>
      cy * unat (fnt_height font) + j = cy' * unat (fnt_height font) + j' \<and> cx * ?fw + (?fw - 1 - i) = cx' * ?fw + (?fw - 1 - i')"
    unfolding dot_def by (rule base_eq) (fact cell_bound [OF assms(1) k(1)] cell_bound [OF assms(2) k(2)])+
  also have "\<dots> \<longleftrightarrow> cy = cy' \<and> j = j' \<and> cx = cx' \<and> ?fw - 1 - i = ?fw - 1 - i'"
    using base_eq [OF assms(5,6), of cy cy'] base_eq [OF k, of cx cx'] by simp
  also have "?fw - 1 - i = ?fw - 1 - i' \<longleftrightarrow> i = i'" using assms(3,4) by auto
  finally show ?thesis by auto
qed

lemma on_screen_cong: "gpu_dev s = gpu_dev st \<Longrightarrow> on_screen font s x y = on_screen font st x y"
  by (simp add: on_screen_def)

text \<open>The loops of \<^verbatim>\<open>gpu_draw_char\<close> give every dot of the character its colour and keep every other.\<close>

lemma draw_dots:
  assumes "c < 0x80" "gpu_dev st = Some dev" "on_screen font st cx cy"
  obtains f where "gpu_draw_char io font c cx cy st = Some (st\<lparr>fb := f\<rparr>)"
    "\<forall>i<unat (fnt_width font). \<forall>j<unat (fnt_height font). f (int (dot (unat (gpu_width dev)) font (unat cx) (unat cy) i j)) = colour font c i j"
    "\<forall>k. k \<notin> (\<lambda>(i, j). int (dot (unat (gpu_width dev)) font (unat cx) (unat cy) i j)) `
       ({..<unat (fnt_width font)} \<times> {..<unat (fnt_height font)}) \<longrightarrow> f k = fb st k"
proof -
  let ?fw = "unat (fnt_width font)" and ?fh = "unat (fnt_height font)"
  let ?dot = "\<lambda>i j. int (dot (unat (gpu_width dev)) font (unat cx) (unat cy) i j)"
  let ?draw = "draw_dot font c (fnt_width font * ucast cx) (fnt_height font * ucast cy)"
  define Y where "Y = {(k, v). \<forall>i<?fw. \<forall>j<?fh. k = ?dot i j \<longrightarrow> v = colour font c i j}"
  define P where "P = (\<lambda>(k, v) s. fb (s :: 'a gpu) k = v)"
  define I where "I = (\<lambda>s. \<exists>f. s = st\<lparr>fb := f\<rparr>)"
  have I0: "I st" unfolding I_def by (intro exI [of _ "fb st"]) simp
  have scr: "(unat cx + 1) * ?fw \<le> unat (gpu_width dev)" using assms(2,3) by (simp add: on_screen_def)
  have mem: "(?dot i j, colour font c i j) \<in> Y" if "i < ?fw" "j < ?fh" for i j
    unfolding Y_def using dot_eq [OF scr scr that(1) _ that(2)] by simp
  have step: "\<exists>s'. ?draw i j s = Some s' \<and> I s' \<and> (\<forall>y\<in>{(?dot i j, colour font c i j)}. P y s') \<and> (\<forall>y\<in>Y. P y s \<longrightarrow> P y s')"
    if ij: "i < ?fw" "j < ?fh" and s: "I s" for i j s
  proof -
    have "gpu_dev s = gpu_dev st" using s by (auto simp: I_def)
    then have "gpu_dev s = Some dev" "on_screen font s cx cy" using assms(2,3) on_screen_cong [of s st] by simp_all
    from draw_dot_on_screen [OF assms(1) this ij] ij show ?thesis
      using s by (auto simp: I_def P_def Y_def)
  qed
  have "\<exists>s'. for_each (?draw i) [0..<?fh] s = Some s' \<and> I s' \<and>
      (\<forall>j\<in>set [0..<?fh]. \<forall>y\<in>{(?dot i j, colour font c i j)}. P y s') \<and> (\<forall>y\<in>Y. P y s \<longrightarrow> P y s')" if "i < ?fw" "I s" for i s
    by (rule for_each_establishes [where est = "\<lambda>j. {(?dot i j, colour font c i j)}"]) (use step mem that in auto)
  then have row: "\<exists>s'. for_each (?draw i) [0..<?fh] s = Some s' \<and> I s' \<and>
      (\<forall>y\<in>(\<lambda>j. (?dot i j, colour font c i j)) ` {..<?fh}. P y s') \<and> (\<forall>y\<in>Y. P y s \<longrightarrow> P y s')" if "i < ?fw" "I s" for i s
    using that by fastforce
  have "\<exists>s'. for_each (\<lambda>i. for_each (?draw i) [0..<?fh]) [0..<?fw] st = Some s' \<and> I s' \<and>
      (\<forall>i\<in>set [0..<?fw]. \<forall>y\<in>(\<lambda>j. (?dot i j, colour font c i j)) ` {..<?fh}. P y s') \<and> (\<forall>y\<in>Y. P y st \<longrightarrow> P y s')"
    by (rule for_each_establishes) (use row mem I0 in auto)
  then obtain s' where s': "gpu_draw_char io font c cx cy st = Some s'" "I s'"
      "\<forall>i<?fw. \<forall>j<?fh. P (?dot i j, colour font c i j) s'" "\<forall>y\<in>Y. P y st \<longrightarrow> P y s'"
    unfolding gpu_draw_char_def Let_def assms(2) by (auto simp: atLeast0LessThan)
  show thesis
  proof (rule that)
    show "gpu_draw_char io font c cx cy st = Some (st\<lparr>fb := fb s'\<rparr>)" using s'(1,2) by (auto simp: I_def)
    show "\<forall>i<?fw. \<forall>j<?fh. fb s' (?dot i j) = colour font c i j" using s'(3) by (simp add: P_def)
    show "\<forall>k. k \<notin> (\<lambda>(i, j). ?dot i j) ` ({..<?fw} \<times> {..<?fh}) \<longrightarrow> fb s' k = fb st k"
      using s'(4) by (fastforce simp: P_def Y_def)
  qed
qed

section \<open>The interface of a display\<close>

text \<open>A client of a display relies on this: drawing a character at a place of the screen makes it visible there and leaves what is
  visible elsewhere.\<close>

locale display =
  fixes draw :: "u8 \<Rightarrow> u16 \<Rightarrow> u16 \<Rightarrow> 'g \<Rightarrow> 'g option"
    and visible :: "'g \<Rightarrow> u8 \<Rightarrow> u16 \<Rightarrow> u16 \<Rightarrow> bool"
    and place :: "'g \<Rightarrow> u16 \<Rightarrow> u16 \<Rightarrow> bool"
  assumes draw_visible: "c < 0x80 \<Longrightarrow> place g x y \<Longrightarrow>
    \<exists>g'. draw c x y g = Some g' \<and> visible g' c x y \<and> (\<forall>a b. place g' a b \<longleftrightarrow> place g a b) \<and>
      (\<forall>c' a b. place g a b \<longrightarrow> (a, b) \<noteq> (x, y) \<longrightarrow> visible g c' a b \<longrightarrow> visible g' c' a b)"
begin

lemma draw_cases:
  assumes "c < 0x80" "place g x y"
  obtains g' where "draw c x y g = Some g'" "visible g' c x y" "\<And>a b. place g' a b \<longleftrightarrow> place g a b"
    "\<And>c' a b. place g a b \<Longrightarrow> (a, b) \<noteq> (x, y) \<Longrightarrow> visible g c' a b \<Longrightarrow> visible g' c' a b"
  using draw_visible [OF assms] by blast

end

lemma vga_places: "unat x < VGA_WIDTH \<Longrightarrow> unat a < VGA_WIDTH \<Longrightarrow>
  unat y * VGA_WIDTH + unat x = unat b * VGA_WIDTH + unat a \<longleftrightarrow> x = a \<and> y = (b :: u16)"
  using base_eq [of "unat x" VGA_WIDTH "unat a" "unat y" "unat b"] by (auto simp: word_unat_eq_iff)

text \<open>Drawing a character makes its glyph, or in text mode its cell, visible at its place, and every character visible at
  another place of the screen stays visible.\<close>

lemma gpu_draw_char_visible:
  assumes "c < 0x80" "on_screen font st x y"
  shows "\<exists>st'. gpu_draw_char io font c x y st = Some st' \<and> shown font st' c x y \<and> (\<forall>a b. on_screen font st' a b \<longleftrightarrow> on_screen font st a b) \<and>
    (\<forall>c' a b. on_screen font st a b \<longrightarrow> (a, b) \<noteq> (x, y) \<longrightarrow> shown font st c' a b \<longrightarrow> shown font st' c' a b)"
proof (cases "gpu_dev st")
  case None
  with assms(2) show ?thesis
    by (auto simp: gpu_draw_char_def vga_text_draw_char_def Let_def shown_def on_screen_def vga_places)
next
  case (Some dev)
  from draw_dots [OF assms(1) Some assms(2), of io] obtain f where f: "gpu_draw_char io font c x y st = Some (st\<lparr>fb := f\<rparr>)"
      "\<forall>i<unat (fnt_width font). \<forall>j<unat (fnt_height font). f (int (dot (unat (gpu_width dev)) font (unat x) (unat y) i j)) = colour font c i j"
      "\<forall>k. k \<notin> (\<lambda>(i, j). int (dot (unat (gpu_width dev)) font (unat x) (unat y) i j)) `
         ({..<unat (fnt_width font)} \<times> {..<unat (fnt_height font)}) \<longrightarrow> f k = fb st k" by blast
  have "f (int (dot (unat (gpu_width dev)) font (unat a) (unat b) i j)) = fb st (int (dot (unat (gpu_width dev)) font (unat a) (unat b) i j))"
    if "on_screen font st a b" "(a, b) \<noteq> (x, y)" "i < unat (fnt_width font)" "j < unat (fnt_height font)" for a b i j
  proof -
    have "dot (unat (gpu_width dev)) font (unat a) (unat b) i j \<noteq> dot (unat (gpu_width dev)) font (unat x) (unat y) i' j'"
      if "i' < unat (fnt_width font)" "j' < unat (fnt_height font)" for i' j'
      using dot_eq [of "unat a" font "unat (gpu_width dev)" "unat x" i i' j j'] that \<open>on_screen font st a b\<close> assms(2) Some
        \<open>i < _\<close> \<open>j < _\<close> \<open>(a, b) \<noteq> (x, y)\<close> by (auto simp: on_screen_def word_unat_eq_iff)
    then show ?thesis by (intro f(3) [rule_format]) auto
  qed
  then show ?thesis using f(1,2) Some by (auto simp: shown_def on_screen_def)
qed

interpretation screen: display "gpu_draw_char io font" "shown font" "on_screen font" for io font
  by unfold_locales (use gpu_draw_char_visible in blast)

end
