(* ===== verification/Term.thy ===== *)
theory Term
  imports Gpu
begin

text \<open>
  The terminal (\<^verbatim>\<open>kernel/term.c\<close>): a cyclic buffer of lines, of which the last are on the screen, and a cursor. The drawing
  function of the display is an argument, and what the terminal relies on is the interface \<open>display\<close>. An index outside the buffer is
  \<open>None\<close>.
\<close>

section \<open>State\<close>

definition TERM_MAX_WIDTH :: int where "TERM_MAX_WIDTH = 1920"
definition TERM_MAX_HEIGHT :: int where "TERM_MAX_HEIGHT = 1080"

record 'g tty =
  buffer :: "int \<Rightarrow> u8"
  buffer_line :: u16
  last_width :: u16
  width :: u16
  last_height :: u16
  height :: u16
  scrolling :: u16
  cur_x :: u16
  cur_y :: u16
  display_state :: 'g

text \<open>The remainder of C has the sign of the dividend.\<close>

definition c_rem :: "int \<Rightarrow> int \<Rightarrow> int" where
  "c_rem a b = (if a < 0 then - (- a mod b) else a mod b)"

definition BUFY :: "'g tty \<Rightarrow> int \<Rightarrow> int" where
  "BUFY st y = c_rem (uint (buffer_line st) + y) TERM_MAX_HEIGHT"

definition BUFIDX :: "'g tty \<Rightarrow> int \<Rightarrow> int \<Rightarrow> int" where
  "BUFIDX st x y = x + BUFY st y * TERM_MAX_WIDTH"

definition in_buffer :: "int \<Rightarrow> bool" where
  "in_buffer i \<longleftrightarrow> 0 \<le> i \<and> i < TERM_MAX_WIDTH * TERM_MAX_HEIGHT"

definition buf_get :: "int \<Rightarrow> 'g tty \<Rightarrow> u8 option" where
  "buf_get i st = (if in_buffer i then Some (buffer st i) else None)"

definition buf_set :: "int \<Rightarrow> u8 \<Rightarrow> 'g tty \<Rightarrow> 'g tty option" where
  "buf_set i c st = (if in_buffer i then Some (st\<lparr>buffer := (buffer st)(i := c)\<rparr>) else None)"

type_synonym 'g drawing = "u8 \<Rightarrow> u16 \<Rightarrow> u16 \<Rightarrow> 'g \<Rightarrow> 'g option"

definition draw_char :: "'g drawing \<Rightarrow> u8 \<Rightarrow> u16 \<Rightarrow> u16 \<Rightarrow> 'g tty \<Rightarrow> 'g tty option" where
  "draw_char draw c x y st = map_option (\<lambda>g. st\<lparr>display_state := g\<rparr>) (draw c x y (display_state st))"

section \<open>Operations\<close>

definition buffer_check :: "'g tty \<Rightarrow> 'g tty" where
  "buffer_check st = (if buffer_line st = 0xFFFF then st\<lparr>buffer_line := 0, buffer := \<lambda>_. 0\<rparr> else st)"

definition printable :: "u8 \<Rightarrow> bool" where
  "printable c \<longleftrightarrow> c \<notin> {0, 0x0A, 0x09, 0x0B, 0x0C, 0x0D}"

definition term_out_at :: "'g drawing \<Rightarrow> u8 \<Rightarrow> u16 \<Rightarrow> u16 \<Rightarrow> 'g tty \<Rightarrow> 'g tty option" where
  "term_out_at draw c x y st =
     (let st = buffer_check st
      in if \<not> printable c then Some st
         else do {
           st \<leftarrow> buf_set (BUFIDX st (uint x) (uint y)) c st;
           draw_char draw c x y st
         })"

definition clear_cell :: "'g drawing \<Rightarrow> u16 \<Rightarrow> nat \<Rightarrow> 'g tty \<Rightarrow> 'g tty option" where
  "clear_cell draw line x st = do {
     st \<leftarrow> buf_set (BUFIDX st (int x) (uint line)) 0 st;
     draw_char draw 0 (of_nat x) line st
   }"

definition term_clear_line :: "'g drawing \<Rightarrow> u16 \<Rightarrow> 'g tty \<Rightarrow> 'g tty option" where
  "term_clear_line draw line st =
     (let st = buffer_check st
      in if line > height st then Some st
         else for_each (clear_cell draw line) [0..<unat (width st)] st)"

definition term_clear :: "'g drawing \<Rightarrow> 'g tty \<Rightarrow> 'g tty option" where
  "term_clear draw st = for_each (\<lambda>y. term_clear_line draw (of_nat y)) [0..<unat (height st)] st"

text \<open>The test for an unchanged size compares the old width with the height.\<close>

definition redraw_cell :: "'g drawing \<Rightarrow> nat \<Rightarrow> nat \<Rightarrow> 'g tty \<Rightarrow> 'g tty option" where
  "redraw_cell draw j i st = do {
     c \<leftarrow> buf_get (BUFIDX st (int i) (int j)) st;
     (if last_width st = height st \<and> last_width st = width st
      then do {
        prev \<leftarrow> buf_get (BUFIDX st (int i) (int j - uint (scrolling st))) st;
        (if c = prev then Some st else draw_char draw c (of_nat i) (of_nat j) st)
      }
      else draw_char draw c (of_nat i) (of_nat j) st)
   }"

definition term_redraw :: "'g drawing \<Rightarrow> 'g tty \<Rightarrow> 'g tty option" where
  "term_redraw draw st =
     (let st = buffer_check st
      in map_option (\<lambda>st. st\<lparr>last_width := width st, last_height := height st, scrolling := 0\<rparr>)
           (for_each (\<lambda>j. for_each (redraw_cell draw j) [0..<unat (width st)]) [0..<unat (height st)] st))"

definition term_scroll :: "'g drawing \<Rightarrow> u16 \<Rightarrow> 'g tty \<Rightarrow> 'g tty option" where
  "term_scroll draw lines st =
     (if lines = 0 then Some st
      else do {
        let st = st\<lparr>buffer_line := buffer_line st + lines\<rparr>;
        st \<leftarrow> term_clear_line draw (cur_y st) st;
        term_redraw draw (st\<lparr>scrolling := lines\<rparr>)
      })"

definition term_resize :: "'g drawing \<Rightarrow> u16 \<Rightarrow> u16 \<Rightarrow> 'g tty \<Rightarrow> 'g tty option" where
  "term_resize draw w h st = term_redraw draw (st\<lparr>width := w mod 1920, height := h mod 1080\<rparr>)"

definition move_char :: "u8 \<Rightarrow> 'g tty \<Rightarrow> 'g tty" where
  "move_char c st =
     (if c = 0x0A then st\<lparr>cur_x := 0, cur_y := cur_y st + 1\<rparr>
      else if c = 0x09 then st\<lparr>cur_x := cur_x st + 4\<rparr>
      else if c = 0x0B \<or> c = 0x0C then st\<lparr>cur_y := cur_y st + 1\<rparr>
      else if c = 0x0D then st\<lparr>cur_x := 0\<rparr>
      else st\<lparr>cur_x := cur_x st + 1\<rparr>)"

definition term_move_cur :: "'g drawing \<Rightarrow> u8 \<Rightarrow> 'g tty \<Rightarrow> 'g tty option" where
  "term_move_cur draw c st =
     (if c = 0 then Some st
      else let st = move_char c st;
               st = (if cur_x st \<ge> width st then st\<lparr>cur_x := 0, cur_y := cur_y st + 1\<rparr> else st)
           in if cur_y st \<ge> height st then term_scroll draw 1 (st\<lparr>cur_y := height st - 1\<rparr>) else Some st)"

definition term_width :: "'g tty \<Rightarrow> u16" where "term_width st = width st"
definition term_height :: "'g tty \<Rightarrow> u16" where "term_height st = height st"

definition term_out :: "'g drawing \<Rightarrow> u8 \<Rightarrow> 'g tty \<Rightarrow> 'g tty option" where
  "term_out draw c st = do {
     st \<leftarrow> term_out_at draw c (cur_x st) (cur_y st) st;
     term_move_cur draw c st
   }"

text \<open>A string is the list of its bytes before the terminator.\<close>

definition term_out_str :: "'g drawing \<Rightarrow> u8 list \<Rightarrow> 'g tty \<Rightarrow> 'g tty option" where
  "term_out_str draw str st = for_each (\<lambda>c st. do {
     st \<leftarrow> term_out_at draw c (cur_x st) (cur_y st) st;
     term_move_cur draw c st
   }) str st"

definition term_out_str_at :: "'g drawing \<Rightarrow> u8 list \<Rightarrow> u16 \<Rightarrow> u16 \<Rightarrow> 'g tty \<Rightarrow> 'g tty option" where
  "term_out_str_at draw str x y st = for_each (\<lambda>c. term_out_at draw c x y) str st"

definition tty_init :: "'g \<Rightarrow> 'g tty" where
  "tty_init g = \<lparr>buffer = \<lambda>_. 0, buffer_line = 0xFFFF, last_width = 80, width = 80, last_height = 25, height = 25, scrolling = 0,
     cur_x = 0, cur_y = 0, display_state = g\<rparr>"

section \<open>The abstract screen\<close>

text \<open>A grid of characters and a cursor. What leaves the screen at the top is gone.\<close>

record screen =
  cells :: "nat \<times> nat \<Rightarrow> u8"
  col :: nat
  row :: nat

definition screen_put :: "u8 \<Rightarrow> screen \<Rightarrow> screen" where
  "screen_put c s = (if printable c then s\<lparr>cells := (cells s)((col s, row s) := c)\<rparr> else s)"

definition screen_move :: "nat \<Rightarrow> u8 \<Rightarrow> screen \<Rightarrow> screen" where
  "screen_move w c s =
     (let s = (if c = 0x0A then s\<lparr>col := 0, row := row s + 1\<rparr>
               else if c = 0x09 then s\<lparr>col := col s + 4\<rparr>
               else if c = 0x0B \<or> c = 0x0C then s\<lparr>row := row s + 1\<rparr>
               else if c = 0x0D then s\<lparr>col := 0\<rparr>
               else s\<lparr>col := col s + 1\<rparr>)
      in if col s \<ge> w then s\<lparr>col := 0, row := row s + 1\<rparr> else s)"

definition screen_scroll :: "nat \<Rightarrow> screen \<Rightarrow> screen" where
  "screen_scroll h s = s\<lparr>cells := \<lambda>(x, y). if y + 1 = h then 0 else cells s (x, y + 1), row := h - 1\<rparr>"

definition screen_out :: "nat \<Rightarrow> nat \<Rightarrow> u8 \<Rightarrow> screen \<Rightarrow> screen" where
  "screen_out w h c s =
     (let s = screen_put c s
      in if c = 0 then s
         else let s = screen_move w c s in if row s \<ge> h then screen_scroll h s else s)"

text \<open>The screen of a terminal, and the terminals whose display shows it.\<close>

definition content :: "'g tty \<Rightarrow> nat \<Rightarrow> nat \<Rightarrow> u8" where
  "content st x y = buffer (buffer_check st) (BUFIDX (buffer_check st) (int x) (int y))"

definition screen_of :: "'g tty \<Rightarrow> screen" where
  "screen_of st = \<lparr>cells = \<lambda>(x, y). if x < unat (width st) \<and> y < unat (height st) then content st x y else 0,
     col = unat (cur_x st), row = unat (cur_y st)\<rparr>"

definition size_ok :: "'g tty \<Rightarrow> bool" where
  "size_ok st \<longleftrightarrow> 0 < width st \<and> width st < 1920 \<and> 0 < height st \<and> height st < 1080 \<and> cur_x st < width st \<and> cur_y st < height st \<and>
     (\<forall>i. buffer st i < 0x80)"

definition mirrored :: "('g \<Rightarrow> u8 \<Rightarrow> u16 \<Rightarrow> u16 \<Rightarrow> bool) \<Rightarrow> ('g \<Rightarrow> u16 \<Rightarrow> u16 \<Rightarrow> bool) \<Rightarrow> 'g tty \<Rightarrow> bool" where
  "mirrored visible place st \<longleftrightarrow> (\<forall>x<unat (width st). \<forall>y<unat (height st).
     place (display_state st) (of_nat x) (of_nat y) \<and> visible (display_state st) (content st x y) (of_nat x) (of_nat y))"

text \<open>How many lines the terminal has scrolled since its buffer was cleared.\<close>

definition scrolled :: "'g tty \<Rightarrow> nat" where
  "scrolled st = unat (buffer_line (buffer_check st))"

section \<open>Places in the buffer\<close>

lemma uint_line: "0 \<le> uint (buffer_line st)" "uint (buffer_line st) < 65536"
  using uint_lt2p [of "buffer_line st"] by simp_all

lemma BUFIDX_in:
  assumes "0 \<le> x" "x < 1920" "0 \<le> uint (buffer_line st) + y"
  shows "in_buffer (BUFIDX st x y)"
proof -
  have "BUFY st y = (uint (buffer_line st) + y) mod 1080" using assms(3) by (simp add: BUFY_def c_rem_def TERM_MAX_HEIGHT_def)
  then have "0 \<le> BUFY st y" "BUFY st y < 1080" by simp_all
  with assms show ?thesis by (simp add: in_buffer_def BUFIDX_def TERM_MAX_WIDTH_def TERM_MAX_HEIGHT_def)
qed

lemma mod_window: "\<bar>a - b\<bar> < (k :: int) \<Longrightarrow> a mod k = b mod k \<longleftrightarrow> a = b"
  using zdvd_imp_le [of k "\<bar>a - b\<bar>"] by (auto simp: mod_eq_dvd_iff)

lemma base_int_eq: "0 \<le> x \<Longrightarrow> x < k \<Longrightarrow> 0 \<le> x' \<Longrightarrow> x' < k \<Longrightarrow> x + b * k = x' + b' * k \<longleftrightarrow> x = x' \<and> b = (b' :: int)"
proof
  assume x: "0 \<le> x" "x < k" "0 \<le> x'" "x' < k" and eq: "x + b * k = x' + b' * k"
  have "(x + b * k) mod k = x" "(x' + b' * k) mod k = x'" using x by simp_all
  with eq have "x = x'" by simp
  with eq x show "x = x' \<and> b = b'" by simp
qed simp

lemma BUFIDX_eq:
  assumes "0 \<le> x" "x < 1920" "0 \<le> x'" "x' < 1920" "0 \<le> uint (buffer_line st) + y" "0 \<le> uint (buffer_line st) + y'" "\<bar>y - y'\<bar> < 1080"
  shows "BUFIDX st x y = BUFIDX st x' y' \<longleftrightarrow> x = x' \<and> y = y'"
proof -
  let ?L = "uint (buffer_line st)"
  have b: "BUFY st y = (?L + y) mod 1080" "BUFY st y' = (?L + y') mod 1080"
    using assms(5,6) by (simp_all add: BUFY_def c_rem_def TERM_MAX_HEIGHT_def)
  have "BUFIDX st x y = BUFIDX st x' y' \<longleftrightarrow> x = x' \<and> BUFY st y = BUFY st y'"
    using base_int_eq [OF assms(1-4)] by (simp add: BUFIDX_def TERM_MAX_WIDTH_def)
  then show ?thesis using b mod_window [of "?L + y" "?L + y'" 1080] assms(7) by simp
qed

lemma BUFIDX_eq_nat:
  "x < 1920 \<Longrightarrow> x' < 1920 \<Longrightarrow> y \<le> h \<Longrightarrow> h < 1080 \<Longrightarrow>
     BUFIDX st (int x) (int y) = BUFIDX st (int x') (int h) \<longleftrightarrow> x = x' \<and> y = h"
  using BUFIDX_eq [of "int x" "int x'" st "int y" "int h"] uint_line [of st] by simp

lemma of_nat16_eq: "a < 65536 \<Longrightarrow> b < 65536 \<Longrightarrow> (of_nat a :: u16) = of_nat b \<longleftrightarrow> a = b"
  by (auto simp: word_unat_eq_iff unat_of_nat)

lemma BUFIDX_upd [simp]:
  "BUFIDX (st\<lparr>buffer := b\<rparr>) x y = BUFIDX st x y" "BUFIDX (st\<lparr>display_state := g\<rparr>) x y = BUFIDX st x y"
  "BUFIDX (st\<lparr>scrolling := l\<rparr>) x y = BUFIDX st x y" "BUFIDX (st\<lparr>cur_y := cy\<rparr>) x y = BUFIDX st x y"
  "BUFIDX (st\<lparr>cur_x := cx\<rparr>) x y = BUFIDX st x y" "BUFIDX (st\<lparr>last_width := lw\<rparr>) x y = BUFIDX st x y"
  "BUFIDX (st\<lparr>last_height := lh\<rparr>) x y = BUFIDX st x y"
  by (simp_all add: BUFIDX_def BUFY_def)

lemma buffer_check_id: "buffer_line st \<noteq> 0xFFFF \<Longrightarrow> buffer_check st = st"
  by (simp add: buffer_check_def)

lemma size_okD:
  assumes "size_ok st"
  shows "0 < unat (width st)" "unat (width st) < 1920" "0 < unat (height st)" "unat (height st) < 1080"
    "unat (cur_x st) < unat (width st)" "unat (cur_y st) < unat (height st)" "buffer st i < 0x80"
  using assms by (auto simp: size_ok_def word_less_nat_alt)

section \<open>The terminal on a display\<close>

lemma uint_next: "buffer_line st \<noteq> 0xFFFF \<Longrightarrow> uint (buffer_line st + 1) = uint (buffer_line st) + 1"
proof -
  assume "buffer_line st \<noteq> 0xFFFF"
  then have "uint (buffer_line st) \<noteq> 0xFFFF" by (auto simp: word_uint_eq_iff)
  then show ?thesis using uint_line [of st] by (simp add: uint_word_ariths)
qed

lemma BUFIDX_next:
  "buffer_line st \<noteq> 0xFFFF \<Longrightarrow> BUFIDX (st\<lparr>buffer_line := buffer_line st + 1\<rparr>) x y = BUFIDX st x (y + 1)"
  unfolding BUFIDX_def BUFY_def by (simp add: uint_next) (simp add: algebra_simps)

text \<open>The check of the buffer changes nothing that is seen.\<close>

lemma buffer_check_props:
  "buffer_line (buffer_check st) \<noteq> 0xFFFF" "buffer_check (buffer_check st) = buffer_check st" "content (buffer_check st) = content st"
  "width (buffer_check st) = width st" "height (buffer_check st) = height st" "cur_x (buffer_check st) = cur_x st"
  "cur_y (buffer_check st) = cur_y st" "display_state (buffer_check st) = display_state st" "scrolled (buffer_check st) = scrolled st"
  by (auto simp: buffer_check_def content_def fun_eq_iff scrolled_def)

lemma buffer_check_ok:
  "mirrored visible place (buffer_check st) = mirrored visible place st" "screen_of (buffer_check st) = screen_of st"
  by (simp_all add: mirrored_def screen_of_def buffer_check_props fun_eq_iff)

lemma buffer_check_size: "size_ok st \<Longrightarrow> size_ok (buffer_check st)"
  by (auto simp: size_ok_def buffer_check_def)

text \<open>The part of the cursor movement before the scroll.\<close>

definition moved :: "u8 \<Rightarrow> 'g tty \<Rightarrow> 'g tty" where
  "moved c st = (let st = move_char c st in if cur_x st \<ge> width st then st\<lparr>cur_x := 0, cur_y := cur_y st + 1\<rparr> else st)"

lemma moved_fields:
  "buffer (moved c st) = buffer st" "buffer_line (moved c st) = buffer_line st" "width (moved c st) = width st" "height (moved c st) = height st"
  "display_state (moved c st) = display_state st" "content (moved c st) = content st"
  by (simp_all add: moved_def move_char_def Let_def content_def fun_eq_iff buffer_check_def)

lemma term_move_cur_moved:
  "c \<noteq> 0 \<Longrightarrow> term_move_cur draw c st =
     (if cur_y (moved c st) \<ge> height st then term_scroll draw 1 ((moved c st)\<lparr>cur_y := height st - 1\<rparr>) else Some (moved c st))"
  using moved_fields(4) [of c st] by (simp add: term_move_cur_def moved_def Let_def)

lemma content_cur_y: "content (st\<lparr>cur_y := v\<rparr>) = content st"
  by (simp add: content_def buffer_check_def fun_eq_iff)

lemma unat_add16: "unat (x :: u16) + unat k < 65536 \<Longrightarrow> unat (x + k) = unat x + unat k"
  by (simp add: unat_word_ariths)

lemma moved_cursor:
  assumes "size_ok st"
  shows "unat (cur_x (moved c st)) = col (screen_move (unat (width st)) c (screen_of st))"
    "unat (cur_y (moved c st)) = row (screen_move (unat (width st)) c (screen_of st))"
    "cur_x (moved c st) < width st"
proof -
  note sz = size_okD [OF assms]
  have u: "unat (cur_x st + 4) = unat (cur_x st) + 4" "unat (cur_x st + 1) = unat (cur_x st) + 1" "unat (cur_y st + 1) = unat (cur_y st) + 1"
    "unat (cur_y st + 1 + 1) = unat (cur_y st) + 2"
    using sz by (simp_all add: unat_word_ariths)
  show "unat (cur_x (moved c st)) = col (screen_move (unat (width st)) c (screen_of st))"
    "unat (cur_y (moved c st)) = row (screen_move (unat (width st)) c (screen_of st))" "cur_x (moved c st) < width st"
    using sz u by (simp_all add: moved_def move_char_def screen_move_def screen_of_def Let_def word_le_nat_alt word_less_nat_alt)
qed

text \<open>The places that a redraw skips.\<close>

definition known :: "'g tty \<Rightarrow> (nat \<times> nat) set" where
  "known st = {(x, y). last_width st = height st \<and> last_width st = width st \<and>
     buffer st (BUFIDX st (int x) (int y)) = buffer st (BUFIDX st (int x) (int y - uint (scrolling st)))}"

context display
begin

lemma clear_cells:
  assumes "n \<le> 1920" "\<forall>x<n. place (display_state st) (of_nat x) line"
  shows "\<exists>g b. for_each (clear_cell draw line) [0..<n] st = Some (st\<lparr>buffer := b, display_state := g\<rparr>) \<and>
    (\<forall>i. b i = (if \<exists>x<n. i = BUFIDX st (int x) (uint line) then 0 else buffer st i)) \<and>
    (\<forall>x<n. visible g 0 (of_nat x) line) \<and> (\<forall>a b. place g a b \<longleftrightarrow> place (display_state st) a b) \<and>
    (\<forall>c a b. place (display_state st) a b \<longrightarrow> b \<noteq> line \<longrightarrow> visible (display_state st) c a b \<longrightarrow> visible g c a b)"
  using assms
proof (induction n)
  case 0
  show ?case by (intro exI [of _ "display_state st"] exI [of _ "buffer st"]) simp
next
  case (Suc n)
  then obtain g b where IH: "for_each (clear_cell draw line) [0..<n] st = Some (st\<lparr>buffer := b, display_state := g\<rparr>)"
      "\<forall>i. b i = (if \<exists>x<n. i = BUFIDX st (int x) (uint line) then 0 else buffer st i)"
      "\<forall>x<n. visible g 0 (of_nat x) line" "\<forall>a b. place g a b \<longleftrightarrow> place (display_state st) a b"
      "\<forall>c a b. place (display_state st) a b \<longrightarrow> b \<noteq> line \<longrightarrow> visible (display_state st) c a b \<longrightarrow> visible g c a b"
    by auto
  let ?s = "st\<lparr>buffer := b, display_state := g\<rparr>" and ?i = "BUFIDX st (int n) (uint line)"
  have idx: "in_buffer ?i" "BUFIDX ?s (int n) (uint line) = ?i" using Suc.prems(1) uint_line [of st] BUFIDX_in [of "int n" st "uint line"] by auto
  have pl: "place g (of_nat n) line" using IH(4) Suc.prems(2) by simp
  from draw_cases [OF _ pl, of 0] obtain g' where g': "draw 0 (of_nat n) line g = Some g'" "visible g' 0 (of_nat n) line"
      "\<And>a b. place g' a b \<longleftrightarrow> place g a b"
      "\<And>c a b. place g a b \<Longrightarrow> (a, b) \<noteq> (of_nat n, line) \<Longrightarrow> visible g c a b \<Longrightarrow> visible g' c a b" by auto
  have A: "for_each (clear_cell draw line) [0..<Suc n] st = Some (st\<lparr>buffer := b(?i := 0), display_state := g'\<rparr>)"
    using IH(1) idx g'(1) by (simp add: for_each_append clear_cell_def buf_set_def draw_char_def)
  have V: "visible g' 0 (of_nat x) line" if "x < Suc n" for x
    using that g'(2) g'(4) [of "of_nat x" line 0] IH(3,4) Suc.prems(2) of_nat16_eq [of x n] Suc.prems(1) by (cases "x = n") auto
  have B: "(b(?i := 0)) i = (if \<exists>x<Suc n. i = BUFIDX st (int x) (uint line) then 0 else buffer st i)" for i
    using IH(2) by (auto simp: less_Suc_eq)
  have O: "\<forall>c a b. place (display_state st) a b \<longrightarrow> b \<noteq> line \<longrightarrow> visible (display_state st) c a b \<longrightarrow> visible g' c a b"
    using IH(4,5) g'(4) by simp
  show ?case using A V B O IH(4) g'(3) by blast
qed

text \<open>A redraw shows the buffer, if what it skips is visible already.\<close>

lemma redraw_shows:
  assumes line: "buffer_line st \<noteq> 0xFFFF" "uint (scrolling st) \<le> uint (buffer_line st)"
    and size: "unat (width st) < 1920" "unat (height st) < 1080" and chars: "\<forall>i. buffer st i < 0x80"
    and places: "\<forall>x<unat (width st). \<forall>y<unat (height st). place (display_state st) (of_nat x) (of_nat y)"
    and skip: "\<forall>x<unat (width st). \<forall>y<unat (height st). (x, y) \<in> known st \<longrightarrow> visible (display_state st) (content st x y) (of_nat x) (of_nat y)"
  shows "\<exists>g. term_redraw draw st = Some (st\<lparr>display_state := g, last_width := width st, last_height := height st, scrolling := 0\<rparr>) \<and>
    (\<forall>x y. place g x y \<longleftrightarrow> place (display_state st) x y) \<and>
    (\<forall>x<unat (width st). \<forall>y<unat (height st). visible g (content st x y) (of_nat x) (of_nat y))"
proof -
  let ?w = "unat (width st)" and ?h = "unat (height st)"
  define Y where "Y = {..<?w} \<times> {..<?h}"
  define P where "P = (\<lambda>(x, y) s. visible (display_state (s :: 'g tty)) (content st x y) (of_nat x) (of_nat y))"
  define I where "I = (\<lambda>s. (\<exists>g. s = st\<lparr>display_state := g\<rparr>) \<and> (\<forall>x y. place (display_state s) x y \<longleftrightarrow> place (display_state st) x y) \<and>
    (\<forall>p\<in>Y. p \<in> known st \<longrightarrow> P p s))"
  have I0: "I st"
    using skip unfolding I_def by (auto simp: P_def Y_def intro!: exI [of _ "display_state st"])
  have cell: "\<exists>s'. redraw_cell draw y x s = Some s' \<and> I s' \<and> (\<forall>p\<in>{(x, y)}. P p s') \<and> (\<forall>p\<in>Y. P p s \<longrightarrow> P p s')"
    if xy: "x < ?w" "y < ?h" and s: "I s" for x y s
  proof -
    obtain g where g: "s = st\<lparr>display_state := g\<rparr>" "\<forall>x y. place g x y \<longleftrightarrow> place (display_state st) x y"
        "\<forall>p\<in>Y. p \<in> known st \<longrightarrow> P p s" using s unfolding I_def by auto
    have c: "content st x y = buffer st (BUFIDX st (int x) (int y))" by (simp add: content_def buffer_check_id [OF line(1)])
    have idx: "in_buffer (BUFIDX st (int x) (int y))" "in_buffer (BUFIDX st (int x) (int y - uint (scrolling st)))"
      using xy size line(2) uint_line [of st] by (auto intro!: BUFIDX_in)
    show ?thesis
    proof (cases "(x, y) \<in> known st")
      case True
      then have "redraw_cell draw y x s = Some s" using idx g(1) by (auto simp: redraw_cell_def buf_get_def known_def)
      moreover have "P (x, y) s" using True g(3) xy by (simp add: Y_def)
      ultimately show ?thesis using s by auto
    next
      case False
      have "place g (of_nat x) (of_nat y)" "content st x y < 0x80" using g(2) places xy chars by (simp_all add: c)
      from draw_cases [OF this(2,1)] obtain g' where g': "draw (content st x y) (of_nat x) (of_nat y) g = Some g'"
          "visible g' (content st x y) (of_nat x) (of_nat y)" "\<And>a b. place g' a b \<longleftrightarrow> place g a b"
          "\<And>c' a b. place g a b \<Longrightarrow> (a, b) \<noteq> (of_nat x, of_nat y) \<Longrightarrow> visible g c' a b \<Longrightarrow> visible g' c' a b" by blast
      let ?s = "st\<lparr>display_state := g'\<rparr>"
      have "redraw_cell draw y x s = Some ?s"
        using False idx g(1) g'(1) by (auto simp: redraw_cell_def buf_get_def known_def draw_char_def c)
      moreover have keep: "P p ?s" if p: "p \<in> Y" "P p s" for p
      proof (cases "p = (x, y)")
        case True
        then show ?thesis using g'(2) by (simp add: P_def)
      next
        case False
        obtain a b where ab: "p = (a, b)" "a < ?w" "b < ?h" using p(1) unfolding Y_def by auto
        then have "(of_nat a :: u16, of_nat b :: u16) \<noteq> (of_nat x, of_nat y)"
          using False xy size of_nat16_eq [of a x] of_nat16_eq [of b y] by auto
        then show ?thesis using g'(4) places g(1,2) ab p(2) by (simp add: P_def)
      qed
      moreover have "I ?s" unfolding I_def using g(2,3) g'(3) keep by auto
      moreover have "P (x, y) ?s" using g'(2) by (simp add: P_def)
      ultimately show ?thesis by blast
    qed
  qed
  have row: "\<exists>s'. for_each (redraw_cell draw y) [0..<?w] s = Some s' \<and> I s' \<and> (\<forall>p\<in>(\<lambda>x. (x, y)) ` {..<?w}. P p s') \<and>
      (\<forall>p\<in>Y. P p s \<longrightarrow> P p s')" if "y < ?h" "I s" for y s
  proof -
    have "\<exists>s'. for_each (redraw_cell draw y) [0..<?w] s = Some s' \<and> I s' \<and> (\<forall>x\<in>set [0..<?w]. \<forall>p\<in>{(x, y)}. P p s') \<and>
        (\<forall>p\<in>Y. P p s \<longrightarrow> P p s')"
      by (rule for_each_establishes [where est = "\<lambda>x. {(x, y)}"]) (use cell that in \<open>auto simp: Y_def\<close>)
    then show ?thesis by (auto simp: atLeast0LessThan)
  qed
  have "\<exists>s'. for_each (\<lambda>y. for_each (redraw_cell draw y) [0..<?w]) [0..<?h] st = Some s' \<and> I s' \<and>
      (\<forall>y\<in>set [0..<?h]. \<forall>p\<in>(\<lambda>x. (x, y)) ` {..<?w}. P p s') \<and> (\<forall>p\<in>Y. P p st \<longrightarrow> P p s')"
    by (rule for_each_establishes) (use row I0 in \<open>auto simp: Y_def\<close>)
  then obtain s' where s': "for_each (\<lambda>y. for_each (redraw_cell draw y) [0..<?w]) [0..<?h] st = Some s'" "I s'"
      "\<forall>x<?w. \<forall>y<?h. P (x, y) s'" by (auto simp: atLeast0LessThan)
  then show ?thesis unfolding term_redraw_def Let_def buffer_check_id [OF line(1)]
    by (auto simp: I_def P_def)
qed

lemma scroll_shows:
  assumes line: "buffer_line st \<noteq> 0xFFFF" "buffer_line st \<noteq> 0xFFFE" and ok: "size_ok st" and last: "cur_y st = height st - 1"
    and mirror: "mirrored visible place st"
  shows "\<exists>st'. term_scroll draw 1 st = Some st' \<and> size_ok st' \<and> mirrored visible place st' \<and> buffer_line st' = buffer_line st + 1 \<and>
    width st' = width st \<and> height st' = height st \<and> cur_x st' = cur_x st \<and> cur_y st' = cur_y st \<and>
    (\<forall>x<unat (width st). \<forall>y<unat (height st). content st' x y = (if y + 1 = unat (height st) then 0 else content st x (y + 1)))"
proof -
  let ?L = "buffer_line st"
  define w h where "w = unat (width st)" and "h = unat (height st)"
  define st1 where "st1 = st\<lparr>buffer_line := ?L + 1\<rparr>"
  note sz = size_okD [OF ok, folded w_def h_def]
  have L1: "buffer_line st1 \<noteq> 0xFFFF" using line uint_next [OF line(1)] by (auto simp: word_uint_eq_iff st1_def)
  have u: "unat (cur_y st) = h - 1" using last sz(3) by (simp add: unat_sub word_le_nat_alt h_def)
  then have h1: "uint (cur_y st) = int h - 1" "cur_y st = of_nat (h - 1)"
    using sz(3) last by (simp_all only: uint_nat, simp_all add: h_def)
  have places: "\<forall>x<w. \<forall>y<h. place (display_state st) (of_nat x) (of_nat y)" using mirror by (simp add: mirrored_def w_def h_def)
  have ds: "display_state st1 = display_state st" by (simp add: st1_def)
  have "\<forall>x<w. place (display_state st1) (of_nat x) (cur_y st)"
    using places sz(3) unfolding h1(2) ds by (meson diff_less zero_less_one)
  from clear_cells [OF _ this] sz(2) obtain g b where
    cl: "for_each (clear_cell draw (cur_y st)) [0..<w] st1 = Some (st1\<lparr>buffer := b, display_state := g\<rparr>)"
      "\<And>i. b i = (if \<exists>x<w. i = BUFIDX st1 (int x) (uint (cur_y st)) then 0 else buffer st1 i)"
      "\<forall>x<w. visible g 0 (of_nat x) (cur_y st)" "\<forall>x y. place g x y \<longleftrightarrow> place (display_state st) x y"
      "\<forall>c x y. place (display_state st) x y \<longrightarrow> y \<noteq> cur_y st \<longrightarrow> visible (display_state st) c x y \<longrightarrow> visible g c x y"
    by (auto simp: st1_def)
  define st2 where "st2 = st1\<lparr>buffer := b, display_state := g, scrolling := 1\<rparr>"
  have idx: "BUFIDX st2 x y = BUFIDX st x (y + 1)" "BUFIDX st1 x y = BUFIDX st x (y + 1)" for x y
    using BUFIDX_next [OF line(1)] by (simp_all add: st1_def st2_def)
  have b: "b (BUFIDX st (int x) (int y)) = (if y = h then 0 else content st x y)" if "x < w" "y \<le> h" for x y
  proof -
    have "b (BUFIDX st (int x) (int y)) = (if \<exists>x'<w. BUFIDX st (int x) (int y) = BUFIDX st (int x') (int h) then 0
        else buffer st (BUFIDX st (int x) (int y)))"
      using cl(2) [of "BUFIDX st (int x) (int y)"] unfolding idx h1(1) by (auto simp: st1_def)
    moreover have "(\<exists>x'<w. BUFIDX st (int x) (int y) = BUFIDX st (int x') (int h)) \<longleftrightarrow> y = h"
      using BUFIDX_eq_nat [of x _ y h st] that sz(2,4) less_trans by metis
    ultimately show ?thesis by (simp add: content_def buffer_check_id [OF line(1)])
  qed
  have L2: "buffer_line st2 \<noteq> 0xFFFF" using L1 by (simp add: st2_def)
  have con: "content st2 x y = b (BUFIDX st (int x) (int (y + 1)))" for x y
    unfolding content_def buffer_check_id [OF L2] idx by (simp add: st2_def add.commute)
  have skip: "visible g (content st2 x y) (of_nat x) (of_nat y)" if xy: "x < w" "y < h" and k: "(x, y) \<in> known st2" for x y
  proof (cases "y + 1 = h")
    case True
    then have "of_nat y = cur_y st" using h1(2) by auto
    with True show ?thesis using cl(3) xy(1) b [of x "y + 1"] unfolding con by simp
  next
    case False
    have "content st2 x y = b (BUFIDX st (int x) (int y))"
      using k unfolding known_def con idx by (simp add: st2_def idx add.commute)
    then have "content st2 x y = content st x y" using b [of x y] xy by simp
    moreover have "(of_nat y :: u16) \<noteq> cur_y st" using False xy sz(4) of_nat16_eq [of y "h - 1"] unfolding h1(2) by auto
    ultimately show ?thesis using cl(5) places mirror xy by (simp add: mirrored_def w_def h_def)
  qed
  have st2: "width st2 = width st" "height st2 = height st" "display_state st2 = g" "buffer st2 = b" "scrolling st2 = 1"
    "cur_x st2 = cur_x st" "cur_y st2 = cur_y st" "buffer_line st2 = ?L + 1"
    by (simp_all add: st1_def st2_def)
  have chars: "b i < 0x80" for i using cl(2) [of i] sz(7) by (simp add: st1_def)
  have "\<exists>g'. term_redraw draw st2 = Some (st2\<lparr>display_state := g', last_width := width st2, last_height := height st2, scrolling := 0\<rparr>) \<and>
      (\<forall>x y. place g' x y \<longleftrightarrow> place (display_state st2) x y) \<and>
      (\<forall>x<unat (width st2). \<forall>y<unat (height st2). visible g' (content st2 x y) (of_nat x) (of_nat y))"
    by (rule redraw_shows) (use L2 sz(2,4) chars places cl(4) skip uint_next [OF line(1)] uint_line [of st] in \<open>simp_all add: st2 w_def h_def\<close>)
  then obtain g' where g': "term_redraw draw st2 = Some (st2\<lparr>display_state := g', last_width := width st2, last_height := height st2, scrolling := 0\<rparr>)"
      "\<forall>x y. place g' x y \<longleftrightarrow> place g x y" "\<forall>x<w. \<forall>y<h. visible g' (content st2 x y) (of_nat x) (of_nat y)"
    by (auto simp: st2 w_def h_def)
  define st3 where "st3 = st2\<lparr>display_state := g', last_width := width st2, last_height := height st2, scrolling := 0\<rparr>"
  have "term_clear_line draw (cur_y st) st1 = Some (st1\<lparr>buffer := b, display_state := g\<rparr>)"
    unfolding term_clear_line_def Let_def buffer_check_id [OF L1]
    using cl(1) ok by (auto simp: st1_def size_ok_def w_def)
  then have "term_scroll draw 1 st = Some st3"
    using g'(1) by (simp add: term_scroll_def st1_def st2_def st3_def)
  moreover have con3: "content st3 x y = content st2 x y" for x y
    using L2 by (simp add: content_def buffer_check_def st3_def)
  moreover have "size_ok st3" using ok chars by (simp add: size_ok_def st3_def st2)
  moreover have "mirrored visible place st3"
    using g' con3 places cl(4) by (simp add: mirrored_def st3_def st2 w_def h_def)
  moreover have "content st2 x y = (if y + 1 = h then 0 else content st x (y + 1))" if "x < w" "y < h" for x y
    using b [of x "y + 1"] that unfolding con by simp
  ultimately show ?thesis by (simp add: st3_def st2 w_def h_def)
qed

lemma out_at_shows:
  assumes line: "buffer_line st \<noteq> 0xFFFF" and ok: "size_ok st" and mirror: "mirrored visible place st" and c: "c < 0x80"
  shows "\<exists>st'. term_out_at draw c (cur_x st) (cur_y st) st = Some st' \<and> size_ok st' \<and> mirrored visible place st' \<and>
    buffer_line st' = buffer_line st \<and> width st' = width st \<and> height st' = height st \<and> screen_of st' = screen_put c (screen_of st)"
proof (cases "printable c")
  case False
  then show ?thesis using assms by (auto simp: term_out_at_def buffer_check_id screen_put_def)
next
  case True
  note sz = size_okD [OF ok]
  define w h x y where "w = unat (width st)" and "h = unat (height st)" and "x = unat (cur_x st)" and "y = unat (cur_y st)"
  have xy: "x < w" "y < h" "w < 1920" "h < 1080" using sz by (simp_all add: w_def h_def x_def y_def)
  have cur: "cur_x st = of_nat x" "cur_y st = of_nat y" "uint (cur_x st) = int x" "uint (cur_y st) = int y"
    by (simp_all add: x_def y_def)
  let ?i = "BUFIDX st (int x) (int y)"
  have idx: "in_buffer ?i" using xy uint_line [of st] by (intro BUFIDX_in) simp_all
  have pl: "\<forall>a<w. \<forall>b<h. place (display_state st) (of_nat a) (of_nat b) \<and> visible (display_state st) (content st a b) (of_nat a) (of_nat b)"
    using mirror by (simp add: mirrored_def w_def h_def)
  then have "place (display_state st) (of_nat x) (of_nat y)" using xy by blast
  from draw_cases [OF c this] obtain g where g: "draw c (of_nat x) (of_nat y) (display_state st) = Some g" "visible g c (of_nat x) (of_nat y)"
      "\<And>a b. place g a b \<longleftrightarrow> place (display_state st) a b"
      "\<And>c' a b. place (display_state st) a b \<Longrightarrow> (a, b) \<noteq> (of_nat x, of_nat y) \<Longrightarrow> visible (display_state st) c' a b \<Longrightarrow> visible g c' a b"
    by blast
  define st' where "st' = st\<lparr>buffer := (buffer st)(?i := c), display_state := g\<rparr>"
  have out: "term_out_at draw c (cur_x st) (cur_y st) st = Some st'"
    using True idx g(1) unfolding term_out_at_def Let_def buffer_check_id [OF line] cur(3,4)
    by (simp add: buf_set_def draw_char_def st'_def cur(1,2) [symmetric])
  have con: "content st' a b = (if (a, b) = (x, y) then c else content st a b)" if "a < w" "b < h" for a b
    using BUFIDX_eq [of "int a" "int x" st "int b" "int y"] that xy line uint_line [of st]
    by (simp add: content_def buffer_check_def st'_def)
  have "mirrored visible place st'"
    unfolding mirrored_def
  proof (intro allI impI)
    fix a b assume ab: "a < unat (width st')" "b < unat (height st')"
    then have ab': "a < w" "b < h" by (simp_all add: st'_def w_def h_def)
    have "(of_nat a :: u16, of_nat b :: u16) = (of_nat x, of_nat y) \<longleftrightarrow> (a, b) = (x, y)"
      using ab' xy of_nat16_eq [of a x] of_nat16_eq [of b y] by simp
    then show "place (display_state st') (of_nat a) (of_nat b) \<and> visible (display_state st') (content st' a b) (of_nat a) (of_nat b)"
      using pl ab' g(2-4) con [OF ab'] by (auto simp: st'_def)
  qed
  moreover have "size_ok st'" using ok c by (simp add: size_ok_def st'_def)
  moreover have "screen_of st' = screen_put c (screen_of st)"
  proof -
    have "(if a < w \<and> b < h then content st' a b else 0) = (if (a, b) = (x, y) then c else if a < w \<and> b < h then content st a b else 0)" for a b
      using con xy by auto
    then have "(\<lambda>(a, b). if a < w \<and> b < h then content st' a b else 0) =
        (\<lambda>(a, b). if a < w \<and> b < h then content st a b else 0)((x, y) := c)"
      by (simp add: fun_eq_iff)
    then show ?thesis using True by (simp add: screen_of_def screen_put_def w_def h_def x_def y_def) (simp add: st'_def)
  qed
  ultimately show ?thesis using out by (auto simp: st'_def)
qed

lemma move_shows:
  assumes line: "buffer_line st \<noteq> 0xFFFF" "buffer_line st \<noteq> 0xFFFE" and ok: "size_ok st" and mirror: "mirrored visible place st" and c: "c \<noteq> 0"
  defines "s \<equiv> screen_move (unat (width st)) c (screen_of st)"
  shows "\<exists>st'. term_move_cur draw c st = Some st' \<and> size_ok st' \<and> mirrored visible place st' \<and>
    (buffer_line st' = buffer_line st \<or> buffer_line st' = buffer_line st + 1) \<and> width st' = width st \<and> height st' = height st \<and>
    screen_of st' = (if row s \<ge> unat (height st) then screen_scroll (unat (height st)) s else s)"
proof -
  let ?m = "moved c st"
  note sz = size_okD [OF ok] and mv = moved_cursor [OF ok, of c, folded s_def] and mf = moved_fields [of c st]
  have cells: "cells s = cells (screen_of st)" by (simp add: s_def screen_move_def Let_def)
  have mir: "mirrored visible place (?m\<lparr>cur_y := v\<rparr>)" for v
    using mirror by (simp add: mirrored_def content_cur_y mf)
  note move = term_move_cur_moved [OF c, of draw st]
  show ?thesis
  proof (cases "cur_y ?m \<ge> height st")
    case False
    then have "size_ok ?m" using ok mv(3) mf by (simp add: size_ok_def)
    moreover have "screen_of ?m = s" using mv(1,2) mf cells by (intro screen.equality) (simp_all add: screen_of_def fun_eq_iff)
    moreover have "\<not> row s \<ge> unat (height st)" using False mv(2) by (simp add: word_le_nat_alt)
    moreover have "mirrored visible place ?m" using mir [of "cur_y ?m"] by simp
    ultimately show ?thesis using move False mf by simp
  next
    case True
    let ?n = "?m\<lparr>cur_y := height st - 1\<rparr>"
    have h1: "unat (height st - 1) = unat (height st) - 1" using sz(3) by (simp add: unat_sub word_le_nat_alt)
    then have "height st - 1 < height st" using sz(3) by (simp add: word_less_nat_alt)
    then have "size_ok ?n" using ok mv(3) mf by (simp add: size_ok_def)
    from scroll_shows [of ?n, OF _ _ this _ mir] line mf obtain st' where st': "term_scroll draw 1 ?n = Some st'" "size_ok st'"
        "mirrored visible place st'" "buffer_line st' = buffer_line st + 1" "width st' = width st" "height st' = height st"
        "cur_x st' = cur_x ?m" "cur_y st' = height st - 1"
        "\<forall>x<unat (width st). \<forall>y<unat (height st). content st' x y = (if y + 1 = unat (height st) then 0 else content ?n x (y + 1))"
      by auto
    have con: "content ?n = content st" by (simp add: content_cur_y mf)
    have "row s \<ge> unat (height st)" using True mv(2) by (simp add: word_le_nat_alt)
    moreover from h1 have "screen_of st' = screen_scroll (unat (height st)) s"
      using st'(5-9) sz(3) mv(1) unfolding screen_scroll_def cells con
      by (intro screen.equality) (auto simp: screen_of_def fun_eq_iff)
    ultimately show ?thesis using move True st' by simp
  qed
qed

lemma out_shows:
  assumes "size_ok st" "mirrored visible place st" "c < 0x80" "scrolled st + 1 < 0xFFFF"
  shows "\<exists>st'. term_out draw c st = Some st' \<and> size_ok st' \<and> mirrored visible place st' \<and> scrolled st' \<le> scrolled st + 1 \<and>
    width st' = width st \<and> height st' = height st \<and> screen_of st' = screen_out (unat (width st)) (unat (height st)) c (screen_of st)"
proof -
  let ?b = "buffer_check st"
  have at: "term_out_at draw c x y st = term_out_at draw c x y ?b" for x y
    by (simp add: term_out_at_def buffer_check_props(2) Let_def)
  from out_at_shows [OF buffer_check_props(1) buffer_check_size [OF assms(1)] _ assms(3)] assms(2)
  obtain s1 where s1: "term_out_at draw c (cur_x st) (cur_y st) st = Some s1" "size_ok s1" "mirrored visible place s1"
      "buffer_line s1 = buffer_line ?b" "width s1 = width st" "height s1 = height st" "screen_of s1 = screen_put c (screen_of st)"
    by (auto simp: buffer_check_ok buffer_check_props at [symmetric])
  have line: "buffer_line s1 \<noteq> 0xFFFF" "buffer_line s1 \<noteq> 0xFFFE" "unat (buffer_line s1) = scrolled st"
    using s1(4) assms(4) by (auto simp: scrolled_def)
  show ?thesis
  proof (cases "c = 0")
    case True
    then show ?thesis
      using s1 line by (simp add: term_out_def term_move_cur_def screen_out_def scrolled_def [of s1] buffer_check_id)
  next
    case False
    from move_shows [OF line(1,2) s1(2,3) False] s1(5-7) obtain s2 where s2: "term_move_cur draw c s1 = Some s2" "size_ok s2"
        "mirrored visible place s2" "buffer_line s2 = buffer_line s1 \<or> buffer_line s2 = buffer_line s1 + 1"
        "width s2 = width st" "height s2 = height st" "screen_of s2 = screen_out (unat (width st)) (unat (height st)) c (screen_of st)"
      using False by (auto simp: screen_out_def Let_def)
    have "unat (buffer_line s2) \<le> scrolled st + 1"
      using s2(4) line(3) assms(4) by (auto simp: unat_add16)
    then have "scrolled s2 \<le> scrolled st + 1" by (simp add: scrolled_def [of s2] buffer_check_def)
    with s1(1) s2 show ?thesis by (simp add: term_out_def)
  qed
qed

lemma out_str_shows:
  assumes "size_ok st" "mirrored visible place st" "list_all (\<lambda>c. c < 0x80) cs" "scrolled st + length cs < 0xFFFF"
  shows "\<exists>st'. term_out_str draw cs st = Some st' \<and> size_ok st' \<and> mirrored visible place st' \<and>
    screen_of st' = fold (screen_out (unat (width st)) (unat (height st))) cs (screen_of st)"
  using assms
proof (induction cs arbitrary: st)
  case Nil
  then show ?case by (simp add: term_out_str_def)
next
  case (Cons c cs)
  then obtain s1 where s1: "term_out draw c st = Some s1" "size_ok s1" "mirrored visible place s1" "scrolled s1 \<le> scrolled st + 1"
      "width s1 = width st" "height s1 = height st" "screen_of s1 = screen_out (unat (width st)) (unat (height st)) c (screen_of st)"
    using out_shows [of st c] by auto
  from Cons.IH [OF s1(2,3)] Cons.prems(3,4) s1(4) obtain s2 where "term_out_str draw cs s1 = Some s2" "size_ok s2" "mirrored visible place s2"
      "screen_of s2 = fold (screen_out (unat (width st)) (unat (height st))) cs (screen_of s1)"
    using s1(5,6) by auto
  with s1(1,7) show ?case by (simp add: term_out_str_def term_out_def)
qed

end

section \<open>Properties\<close>


text \<open>The line number that marks a buffer not yet cleared is also that of a terminal that has scrolled 65535 lines: scrolling to it
  clears the whole buffer, and every line on the screen is lost.\<close>

theorem term_scroll_loses_screen:
  assumes "buffer_line st = 0xFFFE" "term_scroll draw 1 st = Some st'"
  shows "buffer st' = (\<lambda>_. 0)"
proof -
  let ?I = "\<lambda>s. buffer s = (\<lambda>_. 0 :: u8)" and ?s = "st\<lparr>buffer_line := buffer_line st + 1\<rparr>"
  obtain s1 where s1: "term_clear_line draw (cur_y st) ?s = Some s1" "term_redraw draw (s1\<lparr>scrolling := 1\<rparr>) = Some st'"
    using assms(2) by (auto simp: term_scroll_def bind_eq_Some_conv)
  have chk: "buffer_check ?s = ?s\<lparr>buffer_line := 0, buffer := \<lambda>_. 0\<rparr>" using assms(1) by (simp add: buffer_check_def)
  have "buffer s' i = (if i = BUFIDX s (int x) (uint line) then 0 else buffer s i)" if "clear_cell draw line x s = Some s'" for i line x s s'
    using that by (auto simp: clear_cell_def buf_set_def draw_char_def bind_eq_Some_conv split: if_splits)
  then have cell: "?I s'" if "clear_cell draw line x s = Some s'" "?I s" for line x s s' using that by (auto simp: fun_eq_iff)
  have line: "?I s'" if "for_each (clear_cell draw line) xs s = Some s'" "?I s" for line xs s s'
    using for_each_inv [of "clear_cell draw line" xs s s' ?I] that cell by blast
  have "?I s1"
  proof (cases "height st < cur_y st")
    case True
    then have "s1 = buffer_check ?s" using s1(1) by (simp add: term_clear_line_def chk)
    then show ?thesis unfolding chk by simp
  next
    case False
    then have "for_each (clear_cell draw (cur_y st)) [0..<unat (width st)] (buffer_check ?s) = Some s1"
      using s1(1) by (simp add: term_clear_line_def chk)
    then show ?thesis by (rule line) (simp add: chk)
  qed
  then have blank: "?I (buffer_check (s1\<lparr>scrolling := 1\<rparr>))" by (simp add: buffer_check_def)
  have drawn: "buffer s' = buffer s" if "draw_char draw c x y s = Some s'" for c x y s s' using that by (auto simp: draw_char_def)
  have "buffer s' = buffer s" if r: "redraw_cell draw j i s = Some s'" for i j s s'
  proof -
    obtain c where "s' = s \<or> draw_char draw c (of_nat i) (of_nat j) s = Some s'"
      using r unfolding redraw_cell_def bind_eq_Some_conv by (fastforce simp only: bind_eq_Some_conv split: if_split_asm)
    then show ?thesis using drawn by blast
  qed
  then have row: "?I s'" if "for_each (redraw_cell draw j) xs s = Some s'" "?I s" for j xs s s'
    using for_each_inv [of "redraw_cell draw j" xs s s' ?I] that by metis
  obtain s2 w h where s2: "for_each (\<lambda>j. for_each (redraw_cell draw j) [0..<w]) [0..<h] (buffer_check (s1\<lparr>scrolling := 1\<rparr>)) = Some s2"
      "buffer st' = buffer s2"
    using s1(2) unfolding term_redraw_def Let_def by auto
  from for_each_inv [OF s2(1), where I = ?I, OF blank row] have "?I s2" .
  then show ?thesis using s2(2) by simp
qed

text \<open>A resize to a square as wide as before draws nothing, because the test for an unchanged size takes the old width for the old
  height: the lines that have become visible keep what the display had there.\<close>

theorem term_resize_skips_redraw:
  assumes "last_width st = w mod 1920" "h mod 1080 = w mod 1920" "scrolling st = 0" "term_resize draw w h st = Some st'"
  shows "display_state st' = display_state st \<and> height st' = h mod 1080"
proof -
  let ?s = "buffer_check (st\<lparr>width := w mod 1920, height := h mod 1080\<rparr>)"
  have sq: "last_width ?s = height ?s" "last_width ?s = width ?s" "scrolling ?s = 0" "display_state ?s = display_state st"
      "height ?s = h mod 1080"
    using assms(1-3) by (simp_all add: buffer_check_def)
  have cell: "s' = ?s" if "redraw_cell draw j i s = Some s'" "s = ?s" for i j s s'
    using that(1) sq(1-3) unfolding that(2) redraw_cell_def by (auto simp: bind_eq_Some_conv)
  then have row: "s' = ?s" if "for_each (redraw_cell draw j) xs s = Some s'" "s = ?s" for j xs s s'
    using for_each_inv [of "redraw_cell draw j" xs s s' "\<lambda>s. s = ?s"] that by blast
  obtain s2 v u where s2: "for_each (\<lambda>j. for_each (redraw_cell draw j) [0..<v]) [0..<u] ?s = Some s2"
      "display_state st' = display_state s2" "height st' = height s2"
    using assms(4) unfolding term_resize_def term_redraw_def Let_def by auto
  from for_each_inv [OF s2(1), where I = "\<lambda>s. s = ?s", OF refl row] have "s2 = ?s" .
  then show ?thesis using s2(2,3) sq(4,5) by simp
qed

text \<open>Writing a string at a place writes every character to the same place: only the last stays.\<close>

theorem term_out_str_at_overwrites:
  assumes "cs \<noteq> []" "list_all printable cs" "term_out_str_at draw cs x y st = Some st'"
  shows "buffer st' = (buffer (buffer_check st))(BUFIDX (buffer_check st) (uint x) (uint y) := last cs)"
  using assms
proof (induction cs arbitrary: st)
  case (Cons c cs)
  let ?b = "buffer_check st" and ?i = "BUFIDX (buffer_check st) (uint x) (uint y)"
  obtain s1 where s1: "term_out_at draw c x y st = Some s1" "term_out_str_at draw cs x y s1 = Some st'"
    using Cons.prems(3) by (auto simp: term_out_str_at_def split: option.splits)
  then have b1: "buffer s1 = (buffer ?b)(?i := c)" "buffer_line s1 = buffer_line ?b"
    using Cons.prems(2) by (auto simp: term_out_at_def buf_set_def draw_char_def bind_eq_Some_conv Let_def split: if_splits)
  then have "buffer_check s1 = s1" "BUFIDX s1 (uint x) (uint y) = ?i"
    using buffer_check_props(1) [of st] by (simp_all add: buffer_check_id BUFIDX_def BUFY_def)
  then show ?case
    using Cons.IH [OF _ _ s1(2)] Cons.prems(2) b1(1) s1(2) by (cases "cs = []") (auto simp: term_out_str_at_def)
qed simp

section \<open>A concrete terminal\<close>

definition text_gpu :: "unit gpu" where
  "text_gpu = \<lparr>gpu_dev = None, fb = \<lambda>_. 0, vga = \<lambda>_. vga_cell 0, gpu_ports = ()\<rparr>"

definition no_ports :: "unit ports" where
  "no_ports = \<lparr>inb = (\<lambda>_ d. (0, d)), outb = (\<lambda>_ _ d. d), inw = (\<lambda>_ d. (0, d)), outw = (\<lambda>_ _ d. d), inl = (\<lambda>_ d. (0, d)), outl = (\<lambda>_ _ d. d)\<rparr>"

definition no_font :: psf2_font where
  "no_font = \<lparr>fnt_glyph_size = 16, fnt_height = 16, fnt_width = 8, fnt_data = []\<rparr>"

lemma tty_init_ok: "size_ok (tty_init text_gpu)" "mirrored (shown no_font) (on_screen no_font) (tty_init text_gpu)" "scrolled (tty_init text_gpu) = 0"
  by (auto simp: size_ok_def tty_init_def mirrored_def on_screen_def shown_def content_def buffer_check_def text_gpu_def scrolled_def
      VGA_WIDTH_def VGA_HEIGHT_def unat_of_nat)


end
