(* ===== verification/Pci.thy ===== *)
theory Pci
  imports Ports Kprintf
begin

text \<open>
  The PCI driver (\<^verbatim>\<open>kernel/drivers/pci.c\<close>): reading and writing the configuration registers of a device through a
  pair of ports, the table of the devices found at boot and the searches in it. Counters and offsets into the table stay below the
  size of the table and are natural numbers.
\<close>

section \<open>Devices and their configuration registers\<close>

record pci_device =
  pd_bus :: u8
  pd_device :: "5 word"
  pd_function :: "3 word"

definition N_PCI_DEV :: nat where "N_PCI_DEV = 256"
definition CONF_ADDR :: u16 where "CONF_ADDR = 0xCF8"
definition CONF_DATA :: u16 where "CONF_DATA = 0xCFC"

definition conf_address :: "pci_device \<Rightarrow> u8 \<Rightarrow> u32" where
  "conf_address dev offset =
     0x80000000 OR push_bit 16 (ucast (pd_bus dev)) OR push_bit 11 (ucast (pd_device dev)) OR
     push_bit 8 (ucast (pd_function dev)) OR ucast (offset AND 0xFC)"

definition pci_rcfg_d :: "'d ports \<Rightarrow> pci_device \<Rightarrow> u8 \<Rightarrow> 'd \<Rightarrow> u32 \<times> 'd" where
  "pci_rcfg_d io dev offset d = inl io CONF_DATA (outl io CONF_ADDR (conf_address dev offset) d)"

definition pci_rcfg_w :: "'d ports \<Rightarrow> pci_device \<Rightarrow> u8 \<Rightarrow> 'd \<Rightarrow> u16 \<times> 'd" where
  "pci_rcfg_w io dev offset d =
     (let (dword, d) = pci_rcfg_d io dev offset d
      in (ucast (drop_bit (unat (offset AND 2) * 8) dword AND 0xFFFF), d))"

definition pci_rcfg_b :: "'d ports \<Rightarrow> pci_device \<Rightarrow> u8 \<Rightarrow> 'd \<Rightarrow> u8 \<times> 'd" where
  "pci_rcfg_b io dev offset d =
     (let (dword, d) = pci_rcfg_d io dev offset d
      in (ucast (drop_bit (unat (offset AND 3) * 8) dword AND 0xFF), d))"

definition pci_wcfg_d :: "'d ports \<Rightarrow> pci_device \<Rightarrow> u8 \<Rightarrow> u32 \<Rightarrow> 'd \<Rightarrow> 'd" where
  "pci_wcfg_d io dev offset dword d = outl io CONF_DATA dword (outl io CONF_ADDR (conf_address dev offset) d)"

definition pci_wcfg_w :: "'d ports \<Rightarrow> pci_device \<Rightarrow> u8 \<Rightarrow> u16 \<Rightarrow> 'd \<Rightarrow> 'd" where
  "pci_wcfg_w io dev offset w d =
     (let shift = unat (offset AND 2) * 8;
          (dword, d) = pci_rcfg_d io dev offset d;
          dword = dword AND NOT (push_bit shift 0xFFFF);
          dword = dword OR push_bit shift (ucast w)
      in pci_wcfg_d io dev offset dword d)"

definition pci_wcfg_b :: "'d ports \<Rightarrow> pci_device \<Rightarrow> u8 \<Rightarrow> u8 \<Rightarrow> 'd \<Rightarrow> 'd" where
  "pci_wcfg_b io dev offset b d =
     (let shift = unat (offset AND 3) * 8;
          (dword, d) = pci_rcfg_d io dev offset d;
          dword = dword AND NOT (push_bit shift 0xFF);
          dword = dword OR push_bit shift (ucast b)
      in pci_wcfg_d io dev offset dword d)"

section \<open>The table of devices\<close>

record pci_table_entry =
  pe_device :: pci_device
  pe_device_id :: u16
  pe_vendor_id :: u16
  pe_class :: u8
  pe_subclass :: u8
  pe_prog_if :: u8
  pe_revision :: u8

record pci =
  pci_table :: "pci_table_entry list"
  pci_table_next :: nat

text \<open>The entry made of the two registers that name a device and its class.\<close>

definition entry_of :: "pci_device \<Rightarrow> u32 \<Rightarrow> u32 \<Rightarrow> pci_table_entry" where
  "entry_of dev dword0 dword2 =
     \<lparr>pe_device = dev, pe_device_id = ucast (drop_bit 16 dword0 AND 0xFFFF), pe_vendor_id = ucast (dword0 AND 0xFFFF),
      pe_class = ucast (drop_bit 24 dword2 AND 0xFF), pe_subclass = ucast (drop_bit 16 dword2 AND 0xFF),
      pe_prog_if = ucast (drop_bit 8 dword2 AND 0xFF), pe_revision = ucast (dword2 AND 0xFF)\<rparr>"

text \<open>A full table panics.\<close>

definition load_device :: "'d ports \<Rightarrow> pci_device \<Rightarrow> pci \<times> 'd \<Rightarrow> (pci \<times> 'd) option" where
  "load_device io dev = (\<lambda>(st, d).
     if pci_table_next st \<ge> N_PCI_DEV then None
     else let i = pci_table_next st;
              (dword0, d) = pci_rcfg_d io dev 0 d;
              (dword2, d) = pci_rcfg_d io dev 8 d
          in Some (st\<lparr>pci_table := (pci_table st)[i := entry_of dev dword0 dword2], pci_table_next := i + 1\<rparr>, d))"

definition pcidev :: "nat \<Rightarrow> nat \<Rightarrow> nat \<Rightarrow> pci_device" where
  "pcidev bus dev func = \<lparr>pd_bus = of_nat bus, pd_device = of_nat dev, pd_function = of_nat func\<rparr>"

definition init_func :: "'d ports \<Rightarrow> nat \<Rightarrow> nat \<Rightarrow> nat \<Rightarrow> pci \<times> 'd \<Rightarrow> (pci \<times> 'd) option" where
  "init_func io bus dev func = (\<lambda>(st, d).
     let (vendor, d) = pci_rcfg_w io (pcidev bus dev func) 0 d
     in if vendor = 0xFFFF then Some (st, d) else load_device io (pcidev bus dev func) (st, d))"

definition init_funcs :: "'d ports \<Rightarrow> nat \<Rightarrow> nat \<Rightarrow> pci \<times> 'd \<Rightarrow> (pci \<times> 'd) option" where
  "init_funcs io bus dev = (\<lambda>(st, d).
     let (header_type, d) = pci_rcfg_b io (pcidev bus dev 0) 14 d
     in if header_type AND 0x80 = 0 then Some (st, d) else for_each (init_func io bus dev) [1..<8] (st, d))"

definition init_slot :: "'d ports \<Rightarrow> nat \<Rightarrow> nat \<Rightarrow> pci \<times> 'd \<Rightarrow> (pci \<times> 'd) option" where
  "init_slot io bus dev = (\<lambda>(st, d).
     let (vendor, d) = pci_rcfg_w io (pcidev bus dev 0) 0 d
     in if vendor = 0xFFFF then Some (st, d)
        else case load_device io (pcidev bus dev 0) (st, d) of None \<Rightarrow> None | Some s \<Rightarrow> init_funcs io bus dev s)"

definition init_bus :: "'d ports \<Rightarrow> nat \<Rightarrow> pci \<times> 'd \<Rightarrow> (pci \<times> 'd) option" where
  "init_bus io bus = for_each (init_slot io bus) [0..<32]"

definition pci_init :: "'d ports \<Rightarrow> pci \<Rightarrow> 'd \<Rightarrow> (pci \<times> 'd) option" where
  "pci_init io st d = for_each (init_bus io) [0..<256] (st\<lparr>pci_table_next := 0\<rparr>, d)"

section \<open>Searches and the report\<close>

text \<open>Both searches scan from the offset on, which they leave at the entry found. Without an offset they start at 0.\<close>

function find_entry :: "(pci_table_entry \<Rightarrow> bool) \<Rightarrow> pci \<Rightarrow> nat \<Rightarrow> pci_device option \<times> nat" where
  "find_entry P st offset =
     (if offset < pci_table_next st
      then let entry = pci_table st ! offset
           in if P entry then (Some (pe_device entry), offset) else find_entry P st (offset + 1)
      else (None, offset))"
  by auto
termination by (relation "measure (\<lambda>(P, st, offset). pci_table_next st - offset)") auto

declare find_entry.simps [simp del]

definition pci_findby_class :: "u8 \<Rightarrow> u8 \<Rightarrow> nat option \<Rightarrow> pci \<Rightarrow> pci_device option \<times> nat" where
  "pci_findby_class cls subclass offset st =
     find_entry (\<lambda>e. pe_class e = cls \<and> pe_subclass e = subclass) st (case offset of None \<Rightarrow> 0 | Some i \<Rightarrow> i)"

definition pci_findby_id :: "u16 \<Rightarrow> u16 \<Rightarrow> nat option \<Rightarrow> pci \<Rightarrow> pci_device option \<times> nat" where
  "pci_findby_id device vendor offset st =
     find_entry (\<lambda>e. pe_device_id e = device \<and> pe_vendor_id e = vendor) st (case offset of None \<Rightarrow> 0 | Some i \<Rightarrow> i)"

definition print_device :: "pci_table_entry \<Rightarrow> string option" where
  "print_device e = map_option fst (kprintf
     (''BUS: %#-4x  DEV: %#-4x  FUNC: %#-4x  ID: %04x:%04x  CLASS: %02x:%02x:%02x  REV: %#02x'' @ [CHR 0x0A])
     [VaWord (ucast (pd_bus (pe_device e))), VaWord (ucast (pd_device (pe_device e))), VaWord (ucast (pd_function (pe_device e))),
      VaWord (ucast (pe_vendor_id e)), VaWord (ucast (pe_device_id e)), VaWord (ucast (pe_class e)), VaWord (ucast (pe_subclass e)),
      VaWord (ucast (pe_prog_if e)), VaWord (ucast (pe_revision e))])"

definition pci_report :: "pci \<Rightarrow> string option" where
  "pci_report st = do {
     (title, _) \<leftarrow> kprintf (''PCI DEVICES'' @ [CHR 0x0A]) [];
     devices \<leftarrow> for_each (\<lambda>i out. map_option (\<lambda>line. out @ line) (print_device (pci_table st ! i))) [0..<pci_table_next st] title;
     Some (devices @ [CHR 0x0A])
   }"

section \<open>The bus\<close>

text \<open>What the driver relies on: the device state holds a register for every configuration address, the data port reads
  the register the address port selects, and reading changes none. A register that \<open>stores\<close> keeps what is written to it and
  leaves the others alone.\<close>

definition config_space :: "'d ports \<Rightarrow> ('d \<Rightarrow> u32 \<Rightarrow> u32) \<Rightarrow> bool" where
  "config_space io cfg \<longleftrightarrow>
     (\<forall>d a. fst (inl io CONF_DATA (outl io CONF_ADDR a d)) = cfg d a \<and> cfg (snd (inl io CONF_DATA (outl io CONF_ADDR a d))) = cfg d)"

definition stores :: "'d ports \<Rightarrow> ('d \<Rightarrow> u32 \<Rightarrow> u32) \<Rightarrow> u32 \<Rightarrow> bool" where
  "stores io cfg a \<longleftrightarrow> (\<forall>d v. cfg (outl io CONF_DATA v (outl io CONF_ADDR a d)) = (cfg d)(a := v))"

definition reg_w :: "(u32 \<Rightarrow> u32) \<Rightarrow> pci_device \<Rightarrow> u8 \<Rightarrow> u16" where
  "reg_w c dev offset = ucast (drop_bit (unat (offset AND 2) * 8) (c (conf_address dev offset)))"

definition reg_b :: "(u32 \<Rightarrow> u32) \<Rightarrow> pci_device \<Rightarrow> u8 \<Rightarrow> u8" where
  "reg_b c dev offset = ucast (drop_bit (unat (offset AND 3) * 8) (c (conf_address dev offset)))"

lemma rcfg_d:
  assumes "config_space io cfg"
  shows "fst (pci_rcfg_d io dev offset d) = cfg d (conf_address dev offset)" "cfg (snd (pci_rcfg_d io dev offset d)) = cfg d"
  using assms by (auto simp: config_space_def pci_rcfg_d_def)

lemma bit_masks [bits]:
  "bit (0xFFFF :: int) n \<longleftrightarrow> n < 16" "bit (0xFF :: int) n \<longleftrightarrow> n < 8"
  "bit (0x80000000 :: int) n \<longleftrightarrow> n = 31" "bit (0xFC :: int) n \<longleftrightarrow> 2 \<le> n \<and> n < 8"
proof -
  have "(0xFFFF :: int) = mask 16" "(0xFF :: int) = mask 8" "(0x80000000 :: int) = 2 ^ 31" "(0xFC :: int) = push_bit 2 (mask 6)"
    by (simp_all add: mask_eq_exp_minus_1)
  then show "bit (0xFFFF :: int) n \<longleftrightarrow> n < 16" "bit (0xFF :: int) n \<longleftrightarrow> n < 8"
    "bit (0x80000000 :: int) n \<longleftrightarrow> n = 31" "bit (0xFC :: int) n \<longleftrightarrow> 2 \<le> n \<and> n < 8"
    by (auto simp only: bit_simps possible_bit_int)
qed

lemma ucast_mask16: "(ucast (x AND 0xFFFF :: u32) :: u16) = ucast x"
  by (rule bit_word_eqI) (simp add: bits bit_simps)

lemma ucast_mask8: "(ucast (x AND 0xFF :: u32) :: u8) = ucast x"
  by (rule bit_word_eqI) (simp add: bits bit_simps)

lemma rcfg_w:
  assumes "config_space io cfg"
  shows "fst (pci_rcfg_w io dev offset d) = reg_w (cfg d) dev offset" "cfg (snd (pci_rcfg_w io dev offset d)) = cfg d"
  using rcfg_d [OF assms] by (simp_all add: pci_rcfg_w_def reg_w_def case_prod_beta ucast_mask16)

lemma rcfg_b:
  assumes "config_space io cfg"
  shows "fst (pci_rcfg_b io dev offset d) = reg_b (cfg d) dev offset" "cfg (snd (pci_rcfg_b io dev offset d)) = cfg d"
  using rcfg_d [OF assms] by (simp_all add: pci_rcfg_b_def reg_b_def case_prod_beta ucast_mask8)

lemma bit_conf_address:
  "n < 32 \<Longrightarrow> bit (conf_address dev offset) n \<longleftrightarrow>
     n = 31 \<or> 16 \<le> n \<and> n < 24 \<and> bit (pd_bus dev) (n - 16) \<or> 11 \<le> n \<and> n < 16 \<and> bit (pd_device dev) (n - 11) \<or>
     8 \<le> n \<and> n < 11 \<and> bit (pd_function dev) (n - 8) \<or> 2 \<le> n \<and> n < 8 \<and> bit offset n"
  by (auto simp: conf_address_def bits bit_simps dest: bit_imp_le_length)

lemma conf_address_fields:
  "ucast (drop_bit 16 (conf_address dev offset)) = pd_bus dev"
  "ucast (drop_bit 11 (conf_address dev offset)) = pd_device dev"
  "ucast (drop_bit 8 (conf_address dev offset)) = pd_function dev"
  "ucast (conf_address dev offset) = offset AND 0xFC"
  by (rule bit_word_eqI, auto simp: bit_conf_address bit_simps bits)+

lemma conf_address_eq: "conf_address dev offset = conf_address dev' offset' \<longleftrightarrow> dev = dev' \<and> offset AND 0xFC = offset' AND 0xFC"
proof
  assume "conf_address dev offset = conf_address dev' offset'"
  then have "pd_bus dev = pd_bus dev'" "pd_device dev = pd_device dev'" "pd_function dev = pd_function dev'" "offset AND 0xFC = offset' AND 0xFC"
    by (metis conf_address_fields(1)) (metis \<open>conf_address dev offset = _\<close> conf_address_fields)+
  then show "dev = dev' \<and> offset AND 0xFC = offset' AND 0xFC" by simp
qed (simp add: conf_address_def)

text \<open>Writing the byte or the half of a register.\<close>

lemma wcfg_b:
  assumes "config_space io cfg" "stores io cfg (conf_address dev offset)"
  shows "cfg (pci_wcfg_b io dev offset b d) = (cfg d)(conf_address dev offset :=
    (cfg d (conf_address dev offset) AND NOT (push_bit (unat (offset AND 3) * 8) 0xFF)) OR push_bit (unat (offset AND 3) * 8) (ucast b))"
  using assms(2) rcfg_d [OF assms(1)] by (simp add: pci_wcfg_b_def pci_wcfg_d_def Let_def case_prod_beta stores_def)

lemma wcfg_w:
  assumes "config_space io cfg" "stores io cfg (conf_address dev offset)"
  shows "cfg (pci_wcfg_w io dev offset w d) = (cfg d)(conf_address dev offset :=
    (cfg d (conf_address dev offset) AND NOT (push_bit (unat (offset AND 2) * 8) 0xFFFF)) OR push_bit (unat (offset AND 2) * 8) (ucast w))"
  using assms(2) rcfg_d [OF assms(1)] by (simp add: pci_wcfg_w_def pci_wcfg_d_def Let_def case_prod_beta stores_def)

lemma insert_byte:
  fixes x :: u32 and b :: u8
  assumes "i < 4" "j < 4"
  shows "(ucast (drop_bit (j * 8) ((x AND NOT (push_bit (i * 8) 0xFF)) OR push_bit (i * 8) (ucast b))) :: u8) =
    (if i = j then b else ucast (drop_bit (j * 8) x))"
  by (rule bit_word_eqI) (use assms in \<open>auto simp: bits bit_simps dest: bit_imp_le_length\<close>)

lemma insert_half:
  fixes x :: u32 and w :: u16
  assumes "i < 4" "j < 4" "even i" "even j"
  shows "(ucast (drop_bit (j * 8) ((x AND NOT (push_bit (i * 8) 0xFFFF)) OR push_bit (i * 8) (ucast w))) :: u16) =
    (if i = j then w else ucast (drop_bit (j * 8) x))"
  by (rule bit_word_eqI) (use assms in \<open>auto simp: bits bit_simps elim!: evenE dest: bit_imp_le_length\<close>)

text \<open>An offset is the address of a register and the place of the byte, or of the half, in it.\<close>

lemma unat_and3: "unat (o1 AND 3 :: u8) < 4"
  using word_and_le1 [of o1 3] by (simp add: word_le_nat_alt)

lemma unat_and2: "unat (o1 AND 2 :: u8) < 4" "even (unat (o1 AND 2 :: u8))"
proof -
  show "unat (o1 AND 2 :: u8) < 4" using word_and_le1 [of o1 2] by (simp add: word_le_nat_alt)
  show "even (unat (o1 AND 2 :: u8))" by (simp add: unsigned_and_eq even_and_iff)
qed

lemma offset_byte: "o1 AND 0xFC = o2 AND 0xFC \<Longrightarrow> unat (o1 AND 3) = unat (o2 AND 3) \<longleftrightarrow> o1 = (o2 :: u8)"
proof -
  have split: "(x AND 0xFC) OR (x AND 3) = x" for x :: u8
  proof -
    have "0xFC OR 3 = (- 1 :: u8)" by simp
    then show ?thesis by (simp only: flip: bit.conj_disj_distrib) simp
  qed
  show "o1 AND 0xFC = o2 AND 0xFC \<Longrightarrow> unat (o1 AND 3) = unat (o2 AND 3) \<longleftrightarrow> o1 = o2"
    using split by (metis word_unat_eq_iff)
qed

text \<open>Writing a byte of a configuration register is seen by a read of that byte, and by no read of any other byte of this or of
  another device: the write replaces the byte inside its register of 32 bits.\<close>

theorem pci_wcfg_b_reads_back:
  assumes "config_space io cfg" "stores io cfg (conf_address dev offset)"
  shows "fst (pci_rcfg_b io dev' offset' (pci_wcfg_b io dev offset b d)) =
    (if dev' = dev \<and> offset' = offset then b else fst (pci_rcfg_b io dev' offset' d))"
proof (cases "conf_address dev' offset' = conf_address dev offset")
  case True
  then have eq: "dev' = dev" "offset' AND 0xFC = offset AND 0xFC" by (simp_all add: conf_address_eq)
  then show ?thesis
    using offset_byte [OF eq(2)] insert_byte [OF unat_and3 unat_and3, of offset' "cfg d (conf_address dev offset)" offset b] True
    by (simp add: rcfg_b [OF assms(1)] wcfg_b [OF assms] reg_b_def eq_commute [of "unat (offset AND 3)"])
next
  case False
  then show ?thesis by (auto simp: rcfg_b [OF assms(1)] wcfg_b [OF assms] reg_b_def)
qed

section \<open>The scan of the bus\<close>

definition pci_ok :: "pci \<Rightarrow> bool" where
  "pci_ok st \<longleftrightarrow> length (pci_table st) = N_PCI_DEV \<and> pci_table_next st \<le> N_PCI_DEV"

definition entries :: "pci \<Rightarrow> pci_table_entry list" where
  "entries st = take (pci_table_next st) (pci_table st)"

text \<open>The reference: function 0 of every slot that answers, and the others of a slot whose function 0 says it has several.\<close>

definition responds :: "(u32 \<Rightarrow> u32) \<Rightarrow> nat \<Rightarrow> nat \<Rightarrow> nat \<Rightarrow> bool" where
  "responds c bus dev func \<longleftrightarrow> reg_w c (pcidev bus dev func) 0 \<noteq> 0xFFFF \<and>
     (func = 0 \<or> reg_w c (pcidev bus dev 0) 0 \<noteq> 0xFFFF \<and> reg_b c (pcidev bus dev 0) 14 AND 0x80 \<noteq> 0)"

definition entry_at :: "(u32 \<Rightarrow> u32) \<Rightarrow> nat \<Rightarrow> nat \<Rightarrow> nat \<Rightarrow> pci_table_entry" where
  "entry_at c bus dev func =
     entry_of (pcidev bus dev func) (c (conf_address (pcidev bus dev func) 0)) (c (conf_address (pcidev bus dev func) 8))"

definition in_slot :: "(u32 \<Rightarrow> u32) \<Rightarrow> nat \<Rightarrow> nat \<Rightarrow> pci_table_entry list" where
  "in_slot c bus dev = map (entry_at c bus dev) (filter (responds c bus dev) [0..<8])"

definition on_bus :: "(u32 \<Rightarrow> u32) \<Rightarrow> nat \<Rightarrow> pci_table_entry list" where
  "on_bus c bus = concat (map (in_slot c bus) [0..<32])"

definition present_devices :: "(u32 \<Rightarrow> u32) \<Rightarrow> pci_table_entry list" where
  "present_devices c = concat (map (on_bus c) [0..<256])"

text \<open>A step of the scan appends the entries it finds when there is room for them, and panics when there is none.\<close>

definition appends :: "('d \<Rightarrow> u32 \<Rightarrow> u32) \<Rightarrow> (u32 \<Rightarrow> u32) \<Rightarrow> (pci \<times> 'd \<Rightarrow> (pci \<times> 'd) option) \<Rightarrow> pci_table_entry list \<Rightarrow> bool" where
  "appends cfg c step es \<longleftrightarrow> (\<forall>st d. pci_ok st \<longrightarrow> cfg d = c \<longrightarrow>
     (case step (st, d) of None \<Rightarrow> N_PCI_DEV < length (entries st) + length es
      | Some r \<Rightarrow> pci_ok (fst r) \<and> cfg (snd r) = c \<and> entries (fst r) = entries st @ es))"

lemma length_entries: "pci_ok st \<Longrightarrow> length (entries st) = pci_table_next st"
  by (simp add: pci_ok_def entries_def)

lemma entries_fit: "pci_ok st \<Longrightarrow> length (entries st) \<le> N_PCI_DEV"
  by (simp add: length_entries) (simp add: pci_ok_def)

lemma appendsD:
  assumes "appends cfg c step es" "pci_ok st" "cfg d = c"
  shows "case step (st, d) of None \<Rightarrow> N_PCI_DEV < length (entries st) + length es
    | Some r \<Rightarrow> pci_ok (fst r) \<and> cfg (snd r) = c \<and> entries (fst r) = entries st @ es"
  using assms unfolding appends_def by blast

lemma appends_Nil: "appends cfg c Some []"
  by (simp add: appends_def)

lemma appends_seq:
  assumes "appends cfg c f xs" "appends cfg c g ys"
  shows "appends cfg c (\<lambda>s. case f s of None \<Rightarrow> None | Some s' \<Rightarrow> g s') (xs @ ys)"
  unfolding appends_def
proof (intro allI impI)
  fix st :: pci and d assume ok: "pci_ok st" "cfg d = c"
  show "case (case f (st, d) of None \<Rightarrow> None | Some s' \<Rightarrow> g s') of None \<Rightarrow> N_PCI_DEV < length (entries st) + length (xs @ ys)
      | Some r \<Rightarrow> pci_ok (fst r) \<and> cfg (snd r) = c \<and> entries (fst r) = entries st @ xs @ ys"
  proof (cases "f (st, d)")
    case None
    with appendsD [OF assms(1) ok] show ?thesis by simp
  next
    case (Some r)
    with appendsD [OF assms(1) ok] have r: "pci_ok (fst r)" "cfg (snd r) = c" "entries (fst r) = entries st @ xs" by simp_all
    from appendsD [OF assms(2) r(1,2)] Some r(3) show ?thesis by (cases "g r") simp_all
  qed
qed

lemma appends_for_each:
  "(\<And>x. x \<in> set xs \<Longrightarrow> appends cfg c (body x) (f x)) \<Longrightarrow> appends cfg c (for_each body xs) (concat (map f xs))"
proof (induction xs)
  case Nil
  then show ?case using appends_Nil by (simp add: appends_def)
next
  case (Cons x xs)
  then have "appends cfg c (\<lambda>s. case body x s of None \<Rightarrow> None | Some s' \<Rightarrow> for_each body xs s') (f x @ concat (map f xs))"
    by (intro appends_seq) auto
  then show ?case by (simp add: appends_def)
qed

lemma appends_load_device:
  assumes "config_space io cfg"
  shows "appends cfg c (load_device io (pcidev bus dev func)) [entry_at c bus dev func]"
  using rcfg_d [OF assms]
  by (auto simp: appends_def load_device_def pci_ok_def entries_def entry_at_def case_prod_beta Let_def take_Suc_conv_app_nth
      take_update_swap list_update_append)

lemma appends_read:
  assumes "appends cfg c step es" "\<And>d. cfg (rd d) = cfg d"
  shows "appends cfg c (\<lambda>s. step (fst s, rd (snd s))) es"
  using assms(1) by (auto simp: appends_def assms(2))

text \<open>What the loop over the functions of a slot finds is what the reference has for the slot.\<close>

definition loaded :: "(u32 \<Rightarrow> u32) \<Rightarrow> nat \<Rightarrow> nat \<Rightarrow> nat \<Rightarrow> pci_table_entry list" where
  "loaded c bus dev func = (if reg_w c (pcidev bus dev func) 0 = 0xFFFF then [] else [entry_at c bus dev func])"

lemma concat_loaded:
  "concat (map (loaded c bus dev) fs) = map (entry_at c bus dev) (filter (\<lambda>func. reg_w c (pcidev bus dev func) 0 \<noteq> 0xFFFF) fs)"
  by (induction fs) (simp_all add: loaded_def)

lemma in_slot_eq:
  "in_slot c bus dev =
     (if reg_w c (pcidev bus dev 0) 0 = 0xFFFF then []
      else entry_at c bus dev 0 # (if reg_b c (pcidev bus dev 0) 14 AND 0x80 = 0 then [] else concat (map (loaded c bus dev) [1..<8])))"
proof -
  have range: "[0..<8] = 0 # [1..<8 :: nat]" by (subst upt_conv_Cons) simp_all
  have "filter (responds c bus dev) [1..<8] =
      (if reg_w c (pcidev bus dev 0) 0 = 0xFFFF \<or> reg_b c (pcidev bus dev 0) 14 AND 0x80 = 0 then []
       else filter (\<lambda>func. reg_w c (pcidev bus dev func) 0 \<noteq> 0xFFFF) [1..<8])"
    unfolding responds_def by (auto intro!: filter_cong simp del: upt_conv_Cons_Cons simp: filter_empty_conv)
  then show ?thesis unfolding in_slot_def range concat_loaded by (simp add: responds_def)
qed

lemma appends_if_vendor:
  assumes "config_space io cfg" "appends cfg c step es"
  shows "appends cfg c (\<lambda>(st, d). let (vendor, d) = pci_rcfg_w io dev 0 d in if vendor = 0xFFFF then Some (st, d) else step (st, d))
    (if reg_w c dev 0 = 0xFFFF then [] else es)"
  using appendsD [OF assms(2)] rcfg_w [OF assms(1)] by (simp add: appends_def case_prod_beta Let_def)

lemma appends_init_func:
  assumes "config_space io cfg"
  shows "appends cfg c (init_func io bus dev func) (loaded c bus dev func)"
  unfolding init_func_def loaded_def by (intro appends_if_vendor appends_load_device assms)

lemma appends_init_funcs:
  assumes "config_space io cfg"
  shows "appends cfg c (init_funcs io bus dev)
    (if reg_b c (pcidev bus dev 0) 14 AND 0x80 = 0 then [] else concat (map (loaded c bus dev) [1..<8]))"
proof -
  have "appends cfg c (for_each (init_func io bus dev) [1..<8]) (concat (map (loaded c bus dev) [1..<8]))"
    by (rule appends_for_each) (rule appends_init_func [OF assms])
  from appendsD [OF this] show ?thesis
    using rcfg_b [OF assms] by (simp add: appends_def init_funcs_def case_prod_beta Let_def del: upt_rec_numeral)
qed

lemma appends_init_slot:
  assumes "config_space io cfg"
  shows "appends cfg c (init_slot io bus dev) (in_slot c bus dev)"
proof -
  have "appends cfg c (\<lambda>s. case load_device io (pcidev bus dev 0) s of None \<Rightarrow> None | Some s' \<Rightarrow> init_funcs io bus dev s')
      (entry_at c bus dev 0 # (if reg_b c (pcidev bus dev 0) 14 AND 0x80 = 0 then [] else concat (map (loaded c bus dev) [1..<8])))"
    using appends_seq [OF appends_load_device appends_init_funcs, OF assms assms] by (simp only: append_Cons append_Nil)
  from appends_if_vendor [OF assms this] show ?thesis by (simp only: init_slot_def in_slot_eq)
qed

lemma appends_all:
  assumes "config_space io cfg"
  shows "appends cfg c (for_each (init_bus io) [0..<256]) (present_devices c)"
  unfolding present_devices_def on_bus_def init_bus_def by (intro appends_for_each appends_init_slot assms)

text \<open>C31: The scan at boot fills the table with exactly the functions that answer on the bus, in the order of bus, device and
  function and each with its identification and its class: the others of a slot are looked at only when its function 0 says it has
  several. It panics exactly when there are more than the table holds.\<close>

theorem pci_init_finds_devices:
  assumes "config_space io cfg" "length (pci_table st) = N_PCI_DEV"
  shows "if length (present_devices (cfg d)) \<le> N_PCI_DEV
    then \<exists>st' d'. pci_init io st d = Some (st', d') \<and> pci_ok st' \<and> entries st' = present_devices (cfg d) \<and> cfg d' = cfg d
    else pci_init io st d = None"
proof -
  have "pci_ok (st\<lparr>pci_table_next := 0\<rparr>)" "entries (st\<lparr>pci_table_next := 0\<rparr>) = []"
    using assms(2) by (simp_all add: pci_ok_def entries_def)
  from appendsD [OF appends_all [OF assms(1)] this(1) refl, of d] this(2)
  have "case pci_init io st d of None \<Rightarrow> N_PCI_DEV < length (present_devices (cfg d))
    | Some r \<Rightarrow> pci_ok (fst r) \<and> cfg (snd r) = cfg d \<and> entries (fst r) = present_devices (cfg d)"
    by (simp only: pci_init_def append_Nil list.size add_0)
  then show ?thesis using entries_fit [of "fst (the (pci_init io st d))"] by (cases "pci_init io st d") auto
qed

section \<open>Searches\<close>

text \<open>A search from an offset finds the first entry there or behind that fits, and says which it is.\<close>

lemma find_entry_first:
  "find_entry P st i = (if \<exists>j. i \<le> j \<and> j < pci_table_next st \<and> P (pci_table st ! j)
     then let j = LEAST j. i \<le> j \<and> j < pci_table_next st \<and> P (pci_table st ! j) in (Some (pe_device (pci_table st ! j)), j)
     else (None, max i (pci_table_next st)))"
  (is "_ = ?rhs i")
proof (induction P st i rule: find_entry.induct)
  case (1 P st i)
  let ?Q = "\<lambda>i j. i \<le> j \<and> j < pci_table_next st \<and> P (pci_table st ! j)"
  show ?case
  proof (cases "i < pci_table_next st")
    case False
    then show ?thesis by (subst find_entry.simps) auto
  next
    case less: True
    show ?thesis
    proof (cases "P (pci_table st ! i)")
      case True
      with less have "(LEAST j. ?Q i j) = i" by (intro Least_equality) auto
      with less True show ?thesis by (subst find_entry.simps) (auto simp: Let_def)
    next
      case False
      then have "?Q i j \<longleftrightarrow> ?Q (i + 1) j" for j by (cases "i = j") auto
      with 1 [OF less refl False] less False show ?thesis
        by (subst find_entry.simps) (auto simp: Let_def max_def)
    qed
  qed
qed

section \<open>A concrete bus\<close>

text \<open>A bus of plain registers: the state is the selected address and the registers.\<close>

definition bus_ports :: "(u32 \<times> (u32 \<Rightarrow> u32)) ports" where
  "bus_ports = \<lparr>inb = (\<lambda>_ d. (0, d)), outb = (\<lambda>_ _ d. d), inw = (\<lambda>_ d. (0, d)), outw = (\<lambda>_ _ d. d),
     inl = (\<lambda>_ d. (snd d (fst d), d)),
     outl = (\<lambda>p v d. if p = CONF_ADDR then (v, snd d) else (fst d, (snd d)(fst d := v)))\<rparr>"

lemma bus_config_space: "config_space bus_ports snd" "stores bus_ports snd a"
  by (simp_all add: config_space_def stores_def bus_ports_def CONF_ADDR_def CONF_DATA_def)

theorem pci_wcfg_b_reads_back_witness:
  "fst (pci_rcfg_b bus_ports (pcidev 0 1 0) 0x3C (pci_wcfg_b bus_ports (pcidev 0 1 0) 0x3C 11 (0, \<lambda>_. 0))) = 11"
  using pci_wcfg_b_reads_back [where dev = "pcidev 0 1 0" and offset = "0x3C" and dev' = "pcidev 0 1 0" and offset' = "0x3C" and b = 11
      and d = "(0, \<lambda>_. 0)", OF bus_config_space] by simp

text \<open>One disk controller on a bus where nothing else answers.\<close>

definition one_device :: "u32 \<Rightarrow> u32" where
  "one_device = (\<lambda>_. 0xFFFFFFFF)(conf_address (pcidev 0 1 0) 0 := 0x70108086, conf_address (pcidev 0 1 0) 8 := 0x01018000)"

lemma concat_single:
  "distinct xs \<Longrightarrow> x \<in> set xs \<Longrightarrow> \<forall>y\<in>set xs. y \<noteq> x \<longrightarrow> f y = [] \<Longrightarrow> concat (map f xs) = f x"
  by (induction xs) auto

lemma pcidev_eq:
  "b < 256 \<Longrightarrow> d < 32 \<Longrightarrow> f < 8 \<Longrightarrow> pcidev b d f = pcidev 0 1 0 \<longleftrightarrow> b = 0 \<and> d = 1 \<and> f = 0"
  by (simp add: pcidev_def word_unat_eq_iff unat_of_nat)

lemma one_device_reg_w:
  assumes "b < 256" "d < 32" "f < 8"
  shows "reg_w one_device (pcidev b d f) 0 = (if b = 0 \<and> d = 1 \<and> f = 0 then 0x8086 else 0xFFFF)"
  using pcidev_eq [OF assms] by (auto simp: reg_w_def one_device_def conf_address_eq)

lemma one_device_responds:
  assumes "b < 256" "d < 32" "f < 8"
  shows "responds one_device b d f \<longleftrightarrow> b = 0 \<and> d = 1 \<and> f = 0"
  using assms by (auto simp: responds_def one_device_reg_w)

lemma one_device_slot:
  assumes "b < 256" "d < 32"
  shows "in_slot one_device b d = (if b = 0 \<and> d = 1 then [entry_at one_device 0 1 0] else [])"
proof -
  have "filter (responds one_device b d) [0..<8] = filter (\<lambda>f. b = 0 \<and> d = 1 \<and> f = 0) [0..<8]"
    using assms by (intro filter_cong) (auto simp: one_device_responds)
  then show ?thesis by (simp add: in_slot_def upt_rec)
qed

lemma one_device_present: "present_devices one_device = [entry_at one_device 0 1 0]"
proof -
  have bus: "on_bus one_device b = (if b = 0 then [entry_at one_device 0 1 0] else [])" if "b < 256" for b
    using that concat_single [of "[0..<32]" 1 "in_slot one_device b"] by (auto simp: on_bus_def one_device_slot concat_eq_Nil_conv)
  show ?thesis
    using concat_single [of "[0..<256]" 0 "on_bus one_device"] by (simp add: present_devices_def bus)
qed

theorem pci_init_finds_devices_witness:
  "\<exists>st' d'. pci_init bus_ports \<lparr>pci_table = replicate 256 (entry_of (pcidev 0 0 0) 0 0), pci_table_next = 0\<rparr> (0, one_device) = Some (st', d') \<and>
     map pe_device (entries st') = [pcidev 0 1 0]"
  using pci_init_finds_devices [OF bus_config_space(1), of "\<lparr>pci_table = replicate 256 (entry_of (pcidev 0 0 0) 0 0), pci_table_next = 0\<rparr>" "(0, one_device)"]
  by (auto simp: N_PCI_DEV_def one_device_present entry_at_def entry_of_def)

end
