(* ===== verification/Console.thy ===== *)
theory Console
  imports Term Pci
begin

text \<open>
  The console: the serial port (\<^verbatim>\<open>kernel/drivers/uart.c\<close>), \<^verbatim>\<open>kputc\<close> and \<^verbatim>\<open>kputs\<close> of \<^verbatim>\<open>kernel/lib/kprintf.c\<close>, which write to the
  terminal and to the serial port, and the choice of a graphics device (\<^verbatim>\<open>kernel/drivers/gpu.c\<close>, \<^verbatim>\<open>gpu/gop.c\<close>, \<^verbatim>\<open>gpu/bochs.c\<close>). The
  state of the devices behind the ports is that of the display. Waiting for the serial port need not end.
\<close>

section \<open>The serial port\<close>

definition UART_PORT :: u16 where "UART_PORT = 0x3F8"

definition uart_init :: "'d ports \<Rightarrow> 'd \<Rightarrow> int \<times> 'd" where
  "uart_init io d =
     (let d = outb io (UART_PORT + 1) 0x00 d;
          d = outb io (UART_PORT + 3) 0x80 d;
          d = outb io (UART_PORT + 0) 0x03 d;
          d = outb io (UART_PORT + 1) 0x00 d;
          d = outb io (UART_PORT + 3) 0x03 d;
          d = outb io (UART_PORT + 2) 0xC7 d;
          d = outb io (UART_PORT + 4) 0x0B d;
          d = outb io (UART_PORT + 4) 0x1E d;
          d = outb io (UART_PORT + 0) 0xAE d;
          (response, d) = inb io (UART_PORT + 0) d
      in if response \<noteq> 0xAE then (-1, d) else (0, outb io (UART_PORT + 4) 0x0F d))"

partial_function (option) uart_in :: "'d ports \<Rightarrow> 'd \<Rightarrow> (u8 \<times> 'd) option" where
  "uart_in io d =
     (let r = inb io (UART_PORT + 5) d
      in if fst r AND 0x01 = 0 then uart_in io (snd r) else Some (inb io UART_PORT (snd r)))"

partial_function (option) uart_wait :: "'d ports \<Rightarrow> 'd \<Rightarrow> 'd option" where
  "uart_wait io d =
     (let r = inb io (UART_PORT + 5) d
      in if fst r AND 0x20 = 0 then uart_wait io (snd r) else Some (snd r))"

definition uart_out :: "'d ports \<Rightarrow> u8 \<Rightarrow> 'd \<Rightarrow> 'd option" where
  "uart_out io ch d = map_option (outb io UART_PORT ch) (uart_wait io d)"

definition uart_out_str :: "'d ports \<Rightarrow> u8 list \<Rightarrow> 'd \<Rightarrow> 'd option" where
  "uart_out_str io str d = for_each (uart_out io) str d"

section \<open>The console\<close>

definition on_ports :: "('d \<Rightarrow> 'd option) \<Rightarrow> 'd gpu tty \<Rightarrow> 'd gpu tty option" where
  "on_ports f st =
     map_option (\<lambda>d. st\<lparr>display_state := (display_state st)\<lparr>gpu_ports := d\<rparr>\<rparr>) (f (gpu_ports (display_state st)))"

definition kputc :: "'d ports \<Rightarrow> psf2_font \<Rightarrow> u8 \<Rightarrow> 'd gpu tty \<Rightarrow> 'd gpu tty option" where
  "kputc io font c st = do {
     st \<leftarrow> term_out (gpu_draw_char io font) c st;
     on_ports (uart_out io c) st
   }"

definition kputs :: "'d ports \<Rightarrow> psf2_font \<Rightarrow> u8 list \<Rightarrow> 'd gpu tty \<Rightarrow> 'd gpu tty option" where
  "kputs io font str st = do {
     st \<leftarrow> term_out_str (gpu_draw_char io font) str st;
     on_ports (uart_out_str io str) st
   }"

section \<open>The graphics device\<close>

text \<open>The frame buffer the firmware reports, if it has one: its resolution, address and size. \<open>kmap\<close> maps physical memory.\<close>

record gop_mode =
  gop_hres :: u32
  gop_vres :: u32
  gop_base :: u64
  gop_size :: u64

definition gop_init :: "(u64 \<Rightarrow> u64 \<Rightarrow> u32 \<Rightarrow> u64) \<Rightarrow> gop_mode option \<Rightarrow> gpu_dev_t option \<Rightarrow> int \<times> gpu_dev_t option" where
  "gop_init kmap gop dev =
     (case gop of
        None \<Rightarrow> (1, dev)
      | Some m \<Rightarrow> (1, Some \<lparr>gpu_width = ucast (gop_hres m), gpu_height = ucast (gop_vres m), gpu_bit_depth = 32,
            gpu_framebuffer = kmap (gop_base m) (gop_size m) F_WRITEABLE\<rparr>))"

definition bochs_write :: "'d ports \<Rightarrow> u16 \<Rightarrow> u16 \<Rightarrow> 'd \<Rightarrow> 'd" where
  "bochs_write io index dat d = outw io 0x1CF dat (outw io 0x1CE index d)"

definition bochs_read :: "'d ports \<Rightarrow> u16 \<Rightarrow> 'd \<Rightarrow> u16 \<times> 'd" where
  "bochs_read io v d = inw io 0x1CF (outw io 0x1CE v d)"

definition bochs_init :: "'d ports \<Rightarrow> (u64 \<Rightarrow> u64 \<Rightarrow> u32 \<Rightarrow> u64) \<Rightarrow> pci \<Rightarrow> gpu_dev_t option \<Rightarrow> 'd \<Rightarrow> int \<times> gpu_dev_t option \<times> 'd" where
  "bochs_init io kmap pci dev d =
     (case fst (pci_findby_id 0x1111 0x1234 None pci) of
        None \<Rightarrow> (1, dev, d)
      | Some bochs \<Rightarrow>
          let d = bochs_write io 4 0x00 d;
              d = bochs_write io 1 1024 d;
              d = bochs_write io 2 768 d;
              d = bochs_write io 3 32 d;
              d = bochs_write io 4 (0x01 OR 0x40) d;
              (ident, d) = bochs_read io 0 d
          in if ident \<noteq> 0xB0C5 then (1, dev, d)
             else let (bar0, d) = pci_rcfg_d io bochs 0x10 d
                  in (0, Some \<lparr>gpu_width = 1024, gpu_height = 768, gpu_bit_depth = 32,
                        gpu_framebuffer = kmap (ucast bar0) (1024 * 768 * (32 div 8)) F_WRITEABLE\<rparr>, d))"

text \<open>A font of width or height 0 divides by zero.\<close>

definition gpu_init ::
  "'d ports \<Rightarrow> psf2_font \<Rightarrow> (u64 \<Rightarrow> u64 \<Rightarrow> u32 \<Rightarrow> u64) \<Rightarrow> gop_mode option \<Rightarrow> pci \<Rightarrow> 'd gpu tty \<Rightarrow> (int \<times> 'd gpu tty) option" where
  "gpu_init io font kmap gop pci st =
     (let g = display_state st;
          dev = (if gpu_dev g = None then snd (gop_init kmap gop (gpu_dev g)) else gpu_dev g);
          (dev, d) = (if dev = None then snd (bochs_init io kmap pci dev (gpu_ports g)) else (dev, gpu_ports g));
          st = st\<lparr>display_state := g\<lparr>gpu_dev := dev, gpu_ports := d\<rparr>\<rparr>
      in case dev of
           None \<Rightarrow> Some (0, st)
         | Some v \<Rightarrow>
             if fnt_width font = 0 \<or> fnt_height font = 0 then None
             else map_option (Pair 1) (term_resize (gpu_draw_char io font)
                    (ucast (ucast (gpu_width v) div fnt_width font)) (ucast (ucast (gpu_height v) div fnt_height font)) st))"

definition gpu_report :: "string \<Rightarrow> 'd gpu \<Rightarrow> string option" where
  "gpu_report name g =
     (case gpu_dev g of
        None \<Rightarrow> Some []
      | Some v \<Rightarrow> do {
          (a, _) \<leftarrow> kprintf (''GPU (%s)'' @ [CHR 0x0A]) [VaStr (Some name)];
          (b, _) \<leftarrow> kprintf (''Width: %d'' @ [CHR 0x0A]) [VaWord (ucast (gpu_width v))];
          (c, _) \<leftarrow> kprintf (''Height: %d'' @ [CHR 0x0A]) [VaWord (ucast (gpu_height v))];
          (e, _) \<leftarrow> kprintf (''Bit depth: %d'' @ [CHR 0x0A, CHR 0x0A]) [VaWord (ucast (gpu_bit_depth v))];
          Some (a @ b @ c @ e)
        })"

section \<open>Output reaches the screen and the serial port\<close>

text \<open>What the driver relies on: the transmitter is ready, bytes written to the data port are sent in their order, and no other port
  sends any.\<close>

definition serial :: "'d ports \<Rightarrow> ('d \<Rightarrow> u8 list) \<Rightarrow> bool" where
  "serial io sent \<longleftrightarrow>
     (\<forall>d. fst (inb io (UART_PORT + 5) d) AND 0x20 \<noteq> 0 \<and> sent (snd (inb io (UART_PORT + 5) d)) = sent d) \<and>
     (\<forall>c d. sent (outb io UART_PORT c d) = sent d @ [c]) \<and> (\<forall>p c d. p \<noteq> UART_PORT \<longrightarrow> sent (outb io p c d) = sent d)"

lemma uart_out_sends:
  assumes "serial io sent"
  shows "\<exists>d'. uart_out io c d = Some d' \<and> sent d' = sent d @ [c]"
proof -
  have "uart_wait io d = Some (snd (inb io (UART_PORT + 5) d))"
    using assms by (subst uart_wait.simps) (simp add: serial_def Let_def)
  with assms show ?thesis by (simp add: uart_out_def serial_def)
qed

lemma uart_out_str_sends:
  assumes "serial io sent"
  shows "\<exists>d'. uart_out_str io cs d = Some d' \<and> sent d' = sent d @ cs"
proof (induction cs arbitrary: d)
  case (Cons c cs)
  from uart_out_sends [OF assms, of c d] obtain d1 where "uart_out io c d = Some d1" "sent d1 = sent d @ [c]" by blast
  then show ?case using Cons [of d1] by (auto simp: uart_out_str_def)
qed (simp add: uart_out_str_def)

lemma shown_ports:
  "shown font (g\<lparr>gpu_ports := d\<rparr>) c x y = shown font g c x y" "on_screen font (g\<lparr>gpu_ports := d\<rparr>) x y = on_screen font g x y"
  by (simp_all add: shown_def on_screen_def split: option.splits)

text \<open>Drawing sends nothing.\<close>

lemma draw_silent:
  assumes "serial io sent" "gpu_draw_char io font c x y g = Some g'"
  shows "sent (gpu_ports g') = sent (gpu_ports g)"
proof (cases "gpu_dev g")
  case None
  then show ?thesis
    using assms by (auto simp: gpu_draw_char_def vga_text_draw_char_def Let_def serial_def UART_PORT_def)
next
  case (Some dev)
  have dot: "gpu_ports s' = gpu_ports s" if "draw_dot font c sx sy i j s = Some s'" for sx sy i j s s'
    using that by (auto simp: draw_dot_def gpu_set_pixel_def bind_eq_Some_conv Let_def split: option.splits if_splits)
  then have row: "gpu_ports s' = gpu_ports g" if "for_each (draw_dot font c sx sy i) js s = Some s'" "gpu_ports s = gpu_ports g" for sx sy i js s s'
    using for_each_inv [of "draw_dot font c sx sy i" js s s' "\<lambda>s. gpu_ports s = gpu_ports g"] that by metis
  have "gpu_ports g' = gpu_ports g"
    using assms(2) Some for_each_inv [of _ _ g g' "\<lambda>s. gpu_ports s = gpu_ports g", OF _ refl row] unfolding gpu_draw_char_def Let_def
    by simp
  then show ?thesis by simp
qed

text \<open>What every drawing keeps, the terminal keeps.\<close>

locale kept =
  fixes draw :: "'g drawing" and J :: "'g \<Rightarrow> bool"
  assumes draw_keeps: "J g \<Longrightarrow> draw c x y g = Some g' \<Longrightarrow> J g'"
begin

abbreviation keeps :: "'g tty option \<Rightarrow> bool" where
  "keeps r \<equiv> \<forall>st'. r = Some st' \<longrightarrow> J (display_state st')"

lemma keeps_draw: "J (display_state st) \<Longrightarrow> keeps (draw_char draw c x y st)"
  using draw_keeps by (auto simp: draw_char_def)

lemma keeps_check [simp]: "display_state (buffer_check st) = display_state st"
  by (simp add: buffer_check_def)

lemma keeps_set: "buf_set i c st = Some st' \<Longrightarrow> display_state st' = display_state st"
  by (auto simp: buf_set_def split: if_splits)

lemma keeps_set_draw: "J (display_state st) \<Longrightarrow> keeps (buf_set i c st \<bind> draw_char draw c' x y)"
proof (cases "buf_set i c st")
  case (Some s1)
  moreover assume "J (display_state st)"
  ultimately have "J (display_state s1)" using keeps_set [OF Some] by simp
  with Some show ?thesis using keeps_draw [of s1] by simp
qed simp

lemma keeps_for_each:
  assumes "\<And>x st. J (display_state st) \<Longrightarrow> keeps (body x st)" "J (display_state st)"
  shows "keeps (for_each body xs st)"
proof (intro allI impI)
  fix st' assume r: "for_each body xs st = Some st'"
  show "J (display_state st')"
    by (rule for_each_inv [OF r, where I = "\<lambda>s. J (display_state s)"]) (use assms in auto)
qed

lemma keeps_clear_line: "J (display_state st) \<Longrightarrow> keeps (term_clear_line draw line st)"
proof -
  have "J (display_state st) \<Longrightarrow> keeps (clear_cell draw line x st)" for x st
    unfolding clear_cell_def by (rule keeps_set_draw)
  from keeps_for_each [of "clear_cell draw line" "buffer_check st", OF this]
  have "J (display_state st) \<Longrightarrow> keeps (for_each (clear_cell draw line) xs (buffer_check st))" for xs by simp
  then show "J (display_state st) \<Longrightarrow> keeps (term_clear_line draw line st)" by (simp add: term_clear_line_def Let_def)
qed

lemma keeps_redraw: "J (display_state st) \<Longrightarrow> keeps (term_redraw draw st)"
proof -
  have "keeps (redraw_cell draw j i st)" if "J (display_state st)" for i j st
    using keeps_draw [OF that] that unfolding redraw_cell_def bind_eq_Some_conv by (fastforce simp only: bind_eq_Some_conv split: if_split_asm)
  from keeps_for_each [OF this] have "J (display_state st) \<Longrightarrow> keeps (for_each (redraw_cell draw j) is st)" for j "is" st .
  from keeps_for_each [OF this] have rows: "J (display_state st) \<Longrightarrow> keeps (for_each (\<lambda>j. for_each (redraw_cell draw j) is) js st)" for "is" js st .
  show "J (display_state st) \<Longrightarrow> keeps (term_redraw draw st)"
    using rows [of "buffer_check st"] unfolding term_redraw_def Let_def by auto
qed

lemma keeps_out:
  assumes "J (display_state st)"
  shows "keeps (term_out draw c st)"
proof -
  have at: "keeps (term_out_at draw c x y st)" if "J (display_state st)" for x y st
    using that keeps_set_draw [of "buffer_check st"] by (simp add: term_out_at_def Let_def)
  have scroll: "keeps (term_scroll draw 1 st)" if J: "J (display_state st)" for st
  proof -
    have "J (display_state s1)" if "term_clear_line draw l (st\<lparr>buffer_line := b\<rparr>) = Some s1" for l b s1
      using keeps_clear_line [of "st\<lparr>buffer_line := b\<rparr>"] J that by simp
    moreover have "J (display_state s2)" if "J (display_state s1)" "term_redraw draw (s1\<lparr>scrolling := 1\<rparr>) = Some s2" for s1 s2
      using keeps_redraw [of "s1\<lparr>scrolling := 1\<rparr>"] that by simp
    ultimately show ?thesis by (simp add: term_scroll_def bind_eq_Some_conv Let_def) blast
  qed
  have "keeps (term_move_cur draw c st)" if "J (display_state st)" for st
    using that scroll [of "(moved c st)\<lparr>cur_y := height st - 1\<rparr>"] term_move_cur_moved [of c draw st]
    by (cases "c = 0") (auto simp: term_move_cur_def moved_fields)
  with at [OF assms] show ?thesis by (simp add: term_out_def bind_eq_Some_conv) blast
qed

lemma keeps_out_str: "J (display_state st) \<Longrightarrow> keeps (term_out_str draw cs st)"
  using keeps_for_each [of "term_out draw" st cs, OF keeps_out] by (simp add: term_out_str_def term_out_def [abs_def])

end

interpretation silent: kept "gpu_draw_char io font" "\<lambda>g. serial io sent \<longrightarrow> sent (gpu_ports g) = v" for io font sent v
  by unfold_locales (use draw_silent in metis)

text \<open>\<^verbatim>\<open>kputs\<close> writes a text to both outputs: it appears on the screen, as the abstract screen has it, and its bytes are sent through
  the serial port, in their order and nothing else.\<close>

theorem kputs_shows_and_sends:
  assumes "size_ok st" "mirrored (shown font) (on_screen font) st" "list_all (\<lambda>c. c < 0x80) cs" "scrolled st + length cs < 0xFFFF"
    "serial io sent"
  shows "\<exists>st'. kputs io font cs st = Some st' \<and> mirrored (shown font) (on_screen font) st' \<and>
    screen_of st' = fold (screen_out (unat (width st)) (unat (height st))) cs (screen_of st) \<and>
    sent (gpu_ports (display_state st')) = sent (gpu_ports (display_state st)) @ cs"
proof -
  from screen.out_str_shows [OF assms(1-4), of io] obtain s1 where s1: "term_out_str (gpu_draw_char io font) cs st = Some s1"
      "mirrored (shown font) (on_screen font) s1" "screen_of s1 = fold (screen_out (unat (width st)) (unat (height st))) cs (screen_of st)"
    by blast
  have sent: "sent (gpu_ports (display_state s1)) = sent (gpu_ports (display_state st))"
    using silent.keeps_out_str [where v = "sent (gpu_ports (display_state st))" and io = io and sent = sent and st = st and font = font and cs = cs] s1(1) assms(5) by simp
  from uart_out_str_sends [OF assms(5), of cs "gpu_ports (display_state s1)"] obtain d where
    d: "uart_out_str io cs (gpu_ports (display_state s1)) = Some d" "sent d = sent (gpu_ports (display_state s1)) @ cs" by blast
  let ?s = "s1\<lparr>display_state := (display_state s1)\<lparr>gpu_ports := d\<rparr>\<rparr>"
  have "kputs io font cs st = Some ?s" using s1(1) d(1) by (simp add: kputs_def on_ports_def)
  moreover have con: "content ?s = content s1" by (simp add: content_def buffer_check_def fun_eq_iff)
  then have "mirrored (shown font) (on_screen font) ?s" using s1(2) by (simp add: mirrored_def shown_ports)
  moreover have "screen_of ?s = screen_of s1" using con by (simp add: screen_of_def fun_eq_iff)
  ultimately show ?thesis using s1(3) d(2) sent by simp
qed

section \<open>A concrete console\<close>

text \<open>A machine in text mode whose device state is the list of the bytes sent.\<close>

definition log_ports :: "u8 list ports" where
  "log_ports = \<lparr>inb = (\<lambda>_ d. (0xFF, d)), outb = (\<lambda>p c d. if p = UART_PORT then d @ [c] else d), inw = (\<lambda>_ d. (0, d)),
     outw = (\<lambda>_ _ d. d), inl = (\<lambda>_ d. (0, d)), outl = (\<lambda>_ _ d. d)\<rparr>"

definition log_gpu :: "u8 list gpu" where
  "log_gpu = \<lparr>gpu_dev = None, fb = \<lambda>_. 0, vga = \<lambda>_. vga_cell 0, gpu_ports = []\<rparr>"

lemma log_ok: "size_ok (tty_init log_gpu)" "mirrored (shown no_font) (on_screen no_font) (tty_init log_gpu)" "scrolled (tty_init log_gpu) = 0"
  "serial log_ports id"
  by (auto simp: size_ok_def tty_init_def mirrored_def on_screen_def shown_def content_def buffer_check_def log_gpu_def scrolled_def
      VGA_WIDTH_def VGA_HEIGHT_def unat_of_nat serial_def log_ports_def)

theorem kputs_shows_and_sends_witness:
  "\<exists>st'. kputs log_ports no_font [0x48, 0x69] (tty_init log_gpu) = Some st' \<and> gpu_ports (display_state st') = [0x48, 0x69] \<and>
     cells (screen_of st') (0, 0) = 0x48 \<and> cells (screen_of st') (1, 0) = 0x69"
proof -
  have "list_all (\<lambda>c. c < 0x80) [0x48, 0x69 :: u8]" "scrolled (tty_init log_gpu) + length [0x48, 0x69 :: u8] < 0xFFFF"
    using log_ok(3) by simp_all
  from kputs_shows_and_sends [OF log_ok(1,2) this log_ok(4)]
  obtain st' where st': "kputs log_ports no_font [0x48, 0x69] (tty_init log_gpu) = Some st'" "gpu_ports (display_state st') = [0x48, 0x69]"
      "screen_of st' = fold (screen_out 80 25) [0x48, 0x69] (screen_of (tty_init log_gpu))"
    by (auto simp: tty_init_def log_gpu_def)
  have "col (screen_of (tty_init log_gpu)) = 0" "row (screen_of (tty_init log_gpu)) = 0" by (simp_all add: screen_of_def tty_init_def)
  then have "cells (screen_of st') (0, 0) = 0x48 \<and> cells (screen_of st') (1, 0) = 0x69"
    unfolding st'(3) by (simp add: screen_out_def screen_put_def screen_move_def printable_def Let_def)
  with st'(1,2) show ?thesis by blast
qed

end
