(* ===== verification/Ata.thy ===== *)
theory Ata
  imports Console
begin

text \<open>
  The disk driver (\<^verbatim>\<open>kernel/drivers/ata.c\<close>): the registers of the two channels of an IDE controller, the detection of its drives
  and the transfer of sectors by polling. Waiting for a drive need not end, and a failed \<^verbatim>\<open>assert\<close> panics: both are \<open>None\<close>. What the devices
  do while the kernel spins for a millisecond is the argument \<open>spin\<close>. Of the messages only those of \<^verbatim>\<open>ide_error_print\<close> and \<^verbatim>\<open>ata_report\<close>
  are kept.
\<close>

section \<open>State\<close>

definition ATA_SR_BUSY :: u8 where "ATA_SR_BUSY = 0x80"
definition ATA_SR_DRIVEWRITEFAULT :: u8 where "ATA_SR_DRIVEWRITEFAULT = 0x20"
definition ATA_SR_DRIVEREQUESTREADY :: u8 where "ATA_SR_DRIVEREQUESTREADY = 0x08"
definition ATA_SR_ERROR :: u8 where "ATA_SR_ERROR = 0x01"
definition ATA_CMD_READ_PIO :: u8 where "ATA_CMD_READ_PIO = 0x20"
definition ATA_CMD_READ_PIO_EXT :: u8 where "ATA_CMD_READ_PIO_EXT = 0x24"
definition ATA_CMD_WRITE_PIO :: u8 where "ATA_CMD_WRITE_PIO = 0x30"
definition ATA_CMD_WRITE_PIO_EXT :: u8 where "ATA_CMD_WRITE_PIO_EXT = 0x34"
definition ATA_CMD_CACHE_FLUSH :: u8 where "ATA_CMD_CACHE_FLUSH = 0xE7"
definition ATA_CMD_CACHE_FLUSH_EXT :: u8 where "ATA_CMD_CACHE_FLUSH_EXT = 0xEA"
definition ATA_CMD_IDENTIFY_PACKET :: u8 where "ATA_CMD_IDENTIFY_PACKET = 0xA1"
definition ATA_CMD_IDENTIFY :: u8 where "ATA_CMD_IDENTIFY = 0xEC"
definition ATA_IDENT_DEVICETYPE :: nat where "ATA_IDENT_DEVICETYPE = 0"
definition ATA_IDENT_MODEL :: nat where "ATA_IDENT_MODEL = 54"
definition ATA_IDENT_FEATURES :: nat where "ATA_IDENT_FEATURES = 98"
definition ATA_IDENT_MAX_LBA :: nat where "ATA_IDENT_MAX_LBA = 120"
definition ATA_IDENT_COMMANDSETS :: nat where "ATA_IDENT_COMMANDSETS = 164"
definition ATA_IDENT_MAX_LBA_EXT :: nat where "ATA_IDENT_MAX_LBA_EXT = 200"
definition IDE_ATA :: u16 where "IDE_ATA = 0x00"
definition IDE_ATAPI :: u16 where "IDE_ATAPI = 0x01"
definition ATA_REG_DATA :: u8 where "ATA_REG_DATA = 0x00"
definition ATA_REG_ERROR :: u8 where "ATA_REG_ERROR = 0x01"
definition ATA_REG_SECCOUNT0 :: u8 where "ATA_REG_SECCOUNT0 = 0x02"
definition ATA_REG_LBA0 :: u8 where "ATA_REG_LBA0 = 0x03"
definition ATA_REG_LBA1 :: u8 where "ATA_REG_LBA1 = 0x04"
definition ATA_REG_LBA2 :: u8 where "ATA_REG_LBA2 = 0x05"
definition ATA_REG_HDDEVSEL :: u8 where "ATA_REG_HDDEVSEL = 0x06"
definition ATA_REG_COMMAND :: u8 where "ATA_REG_COMMAND = 0x07"
definition ATA_REG_STATUS :: u8 where "ATA_REG_STATUS = 0x07"
definition ATA_REG_SECCOUNT1 :: u8 where "ATA_REG_SECCOUNT1 = 0x08"
definition ATA_REG_LBA3 :: u8 where "ATA_REG_LBA3 = 0x09"
definition ATA_REG_LBA4 :: u8 where "ATA_REG_LBA4 = 0x0A"
definition ATA_REG_LBA5 :: u8 where "ATA_REG_LBA5 = 0x0B"
definition ATA_REG_CONTROL :: u8 where "ATA_REG_CONTROL = 0x0C"
definition ATA_REG_ALTSTATUS :: u8 where "ATA_REG_ALTSTATUS = 0x0C"

lemmas ata_regs = ATA_REG_DATA_def ATA_REG_ERROR_def ATA_REG_SECCOUNT0_def ATA_REG_LBA0_def ATA_REG_LBA1_def ATA_REG_LBA2_def
  ATA_REG_HDDEVSEL_def ATA_REG_COMMAND_def ATA_REG_STATUS_def ATA_REG_SECCOUNT1_def ATA_REG_LBA3_def ATA_REG_LBA4_def
  ATA_REG_LBA5_def ATA_REG_CONTROL_def ATA_REG_ALTSTATUS_def

datatype ide_error =
    IDE_ERROR_OK
  | IDE_ERROR_NULL_DEVICE
  | IDE_ERROR_INIT_NO_IDE_CONTROLLER
  | IDE_ERROR_INIT_BAD_HEADER
  | IDE_ERROR_POLL_DRIVE_REQUEST_NOT_READY
  | IDE_ERROR_POLL_DEVICE_FAULT
  | IDE_ERROR_POLL_STATUS_REGISTER_ERROR
  | IDE_ERROR_POLL_WRITE_PROTECTED
  | IDE_ERROR_UNIMPLEMENTED

record ide_channel =
  ch_io_base :: u16
  ch_control_base :: u16
  ch_bus_master :: u16
  ch_no_interrupt :: u8

record ide_device =
  dv_exists :: bool
  dv_channel_idx :: u8
  dv_drive_idx :: u8
  dv_type :: u16
  dv_signature :: u16
  dv_features :: u16
  dv_command_sets :: u32
  dv_size :: u32
  dv_model :: "u8 list"

record 'd ide =
  ide_channels :: "ide_channel list"
  ide_devices :: "ide_device list"
  ide_irq_invoked :: u8
  id_space_buf :: "u8 list"
  ide_out :: string
  ide_ports :: 'd

section \<open>Registers\<close>

definition ide_port :: "ide_channel \<Rightarrow> u8 \<Rightarrow> u16 option" where
  "ide_port chan reg =
     (if reg < 0x08 then Some (ch_io_base chan + ucast reg)
      else if reg < 0x0C then Some (ch_io_base chan + ucast reg - 0x06)
      else if reg < 0x0E then Some (ch_control_base chan + ucast reg - 0x0A)
      else if reg < 0x16 then Some (ch_bus_master chan + ucast reg - 0x0E)
      else None)"

definition ide_write :: "'d ports \<Rightarrow> ide_channel \<Rightarrow> u8 \<Rightarrow> u8 \<Rightarrow> 'd \<Rightarrow> 'd" where
  "ide_write io chan reg dat d = (case ide_port chan reg of None \<Rightarrow> d | Some p \<Rightarrow> outb io p dat d)"

text \<open>Around the registers behind the high byte bit the control register is written.\<close>

definition ide_guard :: "'d ports \<Rightarrow> ide_channel \<Rightarrow> u8 \<Rightarrow> u8 \<Rightarrow> 'd \<Rightarrow> 'd" where
  "ide_guard io chan reg bits d =
     (if 0x07 < reg \<and> reg < 0x0C then ide_write io chan ATA_REG_CONTROL (bits OR ch_no_interrupt chan) d else d)"

definition ide_channel_write :: "'d ports \<Rightarrow> ide_channel \<Rightarrow> u8 \<Rightarrow> u8 \<Rightarrow> 'd \<Rightarrow> 'd" where
  "ide_channel_write io chan reg dat d =
     ide_guard io chan reg 0 (ide_write io chan reg dat (ide_guard io chan reg 0x80 d))"

definition ide_channel_read :: "'d ports \<Rightarrow> ide_channel \<Rightarrow> u8 \<Rightarrow> 'd \<Rightarrow> (u8 \<times> 'd) option" where
  "ide_channel_read io chan reg d =
     (case ide_port chan reg of
        None \<Rightarrow> None
      | Some p \<Rightarrow> let (result, d) = inb io p (ide_guard io chan reg 0x80 d) in Some (result, ide_guard io chan reg 0 d))"

fun rep_in :: "('d \<Rightarrow> 'v \<times> 'd) \<Rightarrow> nat \<Rightarrow> 'd \<Rightarrow> 'v list \<times> 'd" where
  "rep_in f 0 d = ([], d)"
| "rep_in f (Suc n) d = (let (v, d) = f d; (vs, d) = rep_in f n d in (v # vs, d))"

definition rep_outw :: "'d ports \<Rightarrow> u16 \<Rightarrow> u16 list \<Rightarrow> 'd \<Rightarrow> 'd" where
  "rep_outw io port ws d = fold (outw io port) ws d"

definition bytes_of_word :: "u32 \<Rightarrow> u8 list" where
  "bytes_of_word w = [ucast w, ucast (drop_bit 8 w), ucast (drop_bit 16 w), ucast (drop_bit 24 w)]"

definition ide_read_id_space_buffer :: "'d ports \<Rightarrow> ide_channel \<Rightarrow> u8 \<Rightarrow> nat \<Rightarrow> 'd \<Rightarrow> (u8 list \<times> 'd) option" where
  "ide_read_id_space_buffer io chan reg len d =
     (if len mod 4 \<noteq> 0 then None
      else let d = ide_guard io chan reg 0x80 d;
               (words, d) = (case ide_port chan reg of None \<Rightarrow> ([], d) | Some p \<Rightarrow> rep_in (inl io p) (len div 4) d)
           in Some (concat (map bytes_of_word words), ide_guard io chan reg 0 d))"

section \<open>Polling\<close>

partial_function (option) wait_not_busy :: "'d ports \<Rightarrow> ide_channel \<Rightarrow> 'd \<Rightarrow> 'd option" where
  "wait_not_busy io chan d =
     (case ide_channel_read io chan ATA_REG_STATUS d of
        None \<Rightarrow> None
      | Some r \<Rightarrow> if fst r AND ATA_SR_BUSY \<noteq> 0 then wait_not_busy io chan (snd r) else Some (snd r))"

definition ide_channel_poll :: "'d ports \<Rightarrow> ide_channel \<Rightarrow> bool \<Rightarrow> 'd \<Rightarrow> (ide_error \<times> 'd) option" where
  "ide_channel_poll io chan advanced_check d = do {
     d \<leftarrow> for_each (\<lambda>_ d. map_option snd (ide_channel_read io chan ATA_REG_ALTSTATUS d)) [0..<4] d;
     d \<leftarrow> wait_not_busy io chan d;
     (if \<not> advanced_check then Some (IDE_ERROR_OK, d)
      else do {
        (state, d) \<leftarrow> ide_channel_read io chan ATA_REG_STATUS d;
        Some (if state AND ATA_SR_ERROR \<noteq> 0 then IDE_ERROR_POLL_STATUS_REGISTER_ERROR
              else if state AND ATA_SR_DRIVEWRITEFAULT \<noteq> 0 then IDE_ERROR_POLL_DEVICE_FAULT
              else if state AND ATA_SR_DRIVEREQUESTREADY = 0 then IDE_ERROR_POLL_DRIVE_REQUEST_NOT_READY
              else IDE_ERROR_OK, d)
      })
   }"

section \<open>Errors\<close>

definition device :: "u8 \<Rightarrow> 'd ide \<Rightarrow> ide_device option" where
  "device idx st = (if idx < 4 then Some (ide_devices st ! unat idx) else None)"

definition channel :: "u8 \<Rightarrow> 'd ide \<Rightarrow> ide_channel option" where
  "channel idx st = (if idx < 2 then Some (ide_channels st ! unat idx) else None)"

definition say :: "string \<Rightarrow> 'd ide \<Rightarrow> 'd ide" where
  "say msg st = st\<lparr>ide_out := ide_out st @ msg\<rparr>"

definition chars :: "u8 list \<Rightarrow> string" where
  "chars bs = map (\<lambda>b. char_of (unat b)) (takeWhile (\<lambda>b. b \<noteq> 0) bs)"

definition status_messages :: "u8 \<Rightarrow> string" where
  "status_messages status_reg = concat (map (\<lambda>(flag, msg). if status_reg AND flag \<noteq> 0 then CHR 0x09 # msg else [])
     [(0x01, ''> poll failed, no address mark found''), (0x02, ''> poll failed, no media or media error''),
      (0x04, ''> poll failed, drive aborted command''), (0x08, ''> poll failed, no media or media error''),
      (0x10, ''> poll failed, ID mark not found, unable to read ID space''), (0x20, ''> poll failed, no media or media error''),
      (0x40, ''> poll failed, uncorrectable data error''), (0x80, ''> poll failed, bad sectors'')])"

definition ide_error_print :: "'d ports \<Rightarrow> ide_device \<Rightarrow> ide_error \<Rightarrow> 'd ide \<Rightarrow> 'd ide option" where
  "ide_error_print io dev err st =
     (if err = IDE_ERROR_OK then Some st
      else do {
        let st = say (''IDE ERROR:'' @ [CHR 0x0A]) st;
        st \<leftarrow> (if err = IDE_ERROR_POLL_DEVICE_FAULT then Some (say (CHR 0x09 # ''> poll failed, device fault'') st)
              else if err = IDE_ERROR_POLL_STATUS_REGISTER_ERROR
              then do {
                chan \<leftarrow> channel (dv_channel_idx dev) st;
                (status_reg, d) \<leftarrow> ide_channel_read io chan ATA_REG_ERROR (ide_ports st);
                Some (say (status_messages status_reg) (st\<lparr>ide_ports := d\<rparr>))
              }
              else if err = IDE_ERROR_POLL_DRIVE_REQUEST_NOT_READY
              then Some (say (CHR 0x09 # ''> poll read nothing, drive request not ready'') st)
              else if err = IDE_ERROR_POLL_WRITE_PROTECTED
              then Some (say (CHR 0x09 # ''> unable to poll, drive is write-protected'') st)
              else Some st);
        (if dv_channel_idx dev \<ge> 2 \<or> dv_drive_idx dev \<ge> 2 then None
         else do {
           (msg, _) \<leftarrow> kprintf ([CHR 0x0A, CHR 0x09] @ ''> caused by: [%s %s] %s'')
              [VaStr (Some ([''primary'', ''secondary''] ! unat (dv_channel_idx dev))),
               VaStr (Some ([''master'', ''slave''] ! unat (dv_drive_idx dev))), VaStr (Some (chars (dv_model dev)))];
           Some (say msg st)
         })
      })"

section \<open>Detection of the drives\<close>

partial_function (option) identify_wait :: "'d ports \<Rightarrow> ide_channel \<Rightarrow> 'd \<Rightarrow> (bool \<times> 'd) option" where
  "identify_wait io chan d =
     (case ide_channel_read io chan ATA_REG_STATUS d of
        None \<Rightarrow> None
      | Some r \<Rightarrow>
          if fst r AND ATA_SR_ERROR \<noteq> 0 then Some (True, snd r)
          else if fst r AND ATA_SR_BUSY = 0 \<and> fst r AND ATA_SR_DRIVEREQUESTREADY \<noteq> 0 then Some (False, snd r)
          else identify_wait io chan (snd r))"

definition le16 :: "u8 list \<Rightarrow> nat \<Rightarrow> u16" where
  "le16 bs i = ucast (bs ! i) OR push_bit 8 (ucast (bs ! (i + 1)))"

definition le32 :: "u8 list \<Rightarrow> nat \<Rightarrow> u32" where
  "le32 bs i = ucast (le16 bs i) OR push_bit 16 (ucast (le16 bs (i + 2)))"

text \<open>The model is stored with the bytes of each word swapped.\<close>

definition model_str :: "u8 list \<Rightarrow> u8 list" where
  "model_str buf = concat (map (\<lambda>i. [buf ! (ATA_IDENT_MODEL + 2 * i + 1), buf ! (ATA_IDENT_MODEL + 2 * i)]) [0..<20]) @ [0]"

definition identified :: "u8 \<Rightarrow> u8 \<Rightarrow> u16 \<Rightarrow> u8 list \<Rightarrow> ide_device" where
  "identified channel_idx drive_idx type buf =
     (let sets = le32 buf ATA_IDENT_COMMANDSETS
      in \<lparr>dv_exists = True, dv_channel_idx = channel_idx, dv_drive_idx = drive_idx, dv_type = type,
          dv_signature = le16 buf ATA_IDENT_DEVICETYPE, dv_features = le16 buf ATA_IDENT_FEATURES, dv_command_sets = sets,
          dv_size = (if bit sets 26 then le32 buf ATA_IDENT_MAX_LBA_EXT else le32 buf ATA_IDENT_MAX_LBA),
          dv_model = model_str buf\<rparr>)"

text \<open>The type of a drive that answered the identification: after an error it is looked up in two registers, and \<open>None\<close> of the inner
  option is no known drive.\<close>

definition probe_type :: "'d ports \<Rightarrow> (nat \<Rightarrow> 'd \<Rightarrow> 'd) \<Rightarrow> ide_channel \<Rightarrow> bool \<Rightarrow> 'd \<Rightarrow> (u16 option \<times> 'd) option" where
  "probe_type io spin chan ata_err d =
     (if \<not> ata_err then Some (Some IDE_ATA, d)
      else do {
        (cl, d) \<leftarrow> ide_channel_read io chan ATA_REG_LBA1 d;
        (ch, d) \<leftarrow> ide_channel_read io chan ATA_REG_LBA2 d;
        (if cl = 0x14 \<and> ch = 0xEB \<or> cl = 0x69 \<and> ch = 0x96
         then Some (Some IDE_ATAPI, spin 1 (ide_channel_write io chan ATA_REG_COMMAND ATA_CMD_IDENTIFY_PACKET d))
         else Some (None, d))
      })"

text \<open>Looks for the drive \<open>drive_idx\<close> of a channel and stores it at the place \<open>count\<close> of the table.\<close>

definition probe_drive :: "'d ports \<Rightarrow> (nat \<Rightarrow> 'd \<Rightarrow> 'd) \<Rightarrow> u8 \<Rightarrow> u8 \<Rightarrow> nat \<times> 'd ide \<Rightarrow> (nat \<times> 'd ide) option" where
  "probe_drive io spin channel_idx drive_idx = (\<lambda>(count, st). do {
     dev \<leftarrow> device (of_nat count) st;
     chan \<leftarrow> channel channel_idx st;
     let st = st\<lparr>ide_devices := (ide_devices st)[count := dev\<lparr>dv_exists := False\<rparr>]\<rparr>;
     let d = spin 1 (ide_channel_write io chan ATA_REG_HDDEVSEL (0xA0 OR push_bit 4 drive_idx) (ide_ports st));
     let d = spin 1 (ide_channel_write io chan ATA_REG_COMMAND ATA_CMD_IDENTIFY d);
     (status, d) \<leftarrow> ide_channel_read io chan ATA_REG_STATUS d;
     (if status = 0 then Some (count, st\<lparr>ide_ports := d\<rparr>)
      else do {
        (ata_err, d) \<leftarrow> identify_wait io chan d;
        (type, d) \<leftarrow> probe_type io spin chan ata_err d;
        (case type of
           None \<Rightarrow> Some (count, st\<lparr>ide_ports := d\<rparr>)
         | Some t \<Rightarrow> do {
             (bs, d) \<leftarrow> ide_read_id_space_buffer io chan ATA_REG_DATA 512 d;
             let buf = bs @ drop (length bs) (id_space_buf st);
             Some (count + 1, st\<lparr>ide_devices := (ide_devices st)[count := identified channel_idx drive_idx t buf],
               id_space_buf := buf, ide_ports := d\<rparr>)
           })
      })
   })"

definition bar_base :: "u32 \<Rightarrow> u32 \<Rightarrow> u16" where
  "bar_base BAR legacy = ucast ((BAR AND 0xFFFFFFFC) + (if BAR = 0 then legacy else 0))"

definition ide_initialize :: "'d ports \<Rightarrow> (nat \<Rightarrow> 'd \<Rightarrow> 'd) \<Rightarrow> u32 \<Rightarrow> u32 \<Rightarrow> u32 \<Rightarrow> u32 \<Rightarrow> u32 \<Rightarrow> 'd ide \<Rightarrow> 'd ide option" where
  "ide_initialize io spin BAR0 BAR1 BAR2 BAR3 BAR4 st =
     (let primary = \<lparr>ch_io_base = bar_base BAR0 0x1F0, ch_control_base = bar_base BAR1 0x3F6,
            ch_bus_master = ucast (BAR4 AND 0xFFFFFFFC), ch_no_interrupt = 0\<rparr>;
          secondary = \<lparr>ch_io_base = bar_base BAR2 0x170, ch_control_base = bar_base BAR3 0x376,
            ch_bus_master = ucast ((BAR4 AND 0xFFFFFFFC) + 8), ch_no_interrupt = 0\<rparr>;
          d = ide_channel_write io primary ATA_REG_CONTROL 2 (ide_ports st);
          d = ide_channel_write io secondary ATA_REG_CONTROL 2 d;
          st = st\<lparr>ide_channels := [primary, secondary], ide_ports := d\<rparr>
      in map_option snd (for_each (\<lambda>(c, u). probe_drive io spin c u) [(0, 0), (0, 1), (1, 0), (1, 1)] (0, st)))"

definition ata_init :: "'d ports \<Rightarrow> (nat \<Rightarrow> 'd \<Rightarrow> 'd) \<Rightarrow> pci \<Rightarrow> 'd ide \<Rightarrow> (ide_error \<times> 'd ide) option" where
  "ata_init io spin pci st =
     (case fst (pci_findby_class 0x1 0x1 None pci) of
        None \<Rightarrow> Some (IDE_ERROR_INIT_NO_IDE_CONTROLLER, st)
      | Some dev \<Rightarrow>
          let (header_type, d) = pci_rcfg_b io dev 0x0E (ide_ports st)
          in if header_type \<noteq> 0 then Some (IDE_ERROR_INIT_BAD_HEADER, st\<lparr>ide_ports := d\<rparr>)
             else let (BAR0, d) = pci_rcfg_d io dev 0x10 d;
                      (BAR1, d) = pci_rcfg_d io dev 0x14 d;
                      (BAR2, d) = pci_rcfg_d io dev 0x18 d;
                      (BAR3, d) = pci_rcfg_d io dev 0x1C d;
                      (BAR4, d) = pci_rcfg_d io dev 0x20 d
                  in map_option (Pair IDE_ERROR_OK) (ide_initialize io spin BAR0 BAR1 BAR2 BAR3 BAR4 (st\<lparr>ide_ports := d\<rparr>)))"

section \<open>Access to sectors\<close>

datatype lba_mode = CHS | LBA28 | LBA48
datatype access_mode = READ | WRITE

definition get_ata_cmd_for_access :: "lba_mode \<Rightarrow> access_mode \<Rightarrow> u8" where
  "get_ata_cmd_for_access lba_mode mode =
     (if mode = READ then (if lba_mode = LBA48 then ATA_CMD_READ_PIO_EXT else ATA_CMD_READ_PIO)
      else (if lba_mode = LBA48 then ATA_CMD_WRITE_PIO_EXT else ATA_CMD_WRITE_PIO))"

text \<open>The address mode, the head and the six address bytes.\<close>

definition ata_address :: "ide_device \<Rightarrow> u32 \<Rightarrow> u16 \<Rightarrow> lba_mode \<times> u8 \<times> u8 list" where
  "ata_address dev lba numsects =
     (if lba \<ge> 0x10000000 \<or> numsects > 0xFF
      then (LBA48, 0, [ucast (lba AND 0x000000FF), ucast (drop_bit 8 (lba AND 0x0000FF00)), ucast (drop_bit 16 (lba AND 0x00FF0000)),
                       ucast (drop_bit 24 (lba AND 0xFF000000)), 0, 0])
      else if dv_features dev AND 0x200 \<noteq> 0
      then (LBA28, ucast (drop_bit 24 (lba AND 0xF000000)),
            [ucast (lba AND 0x00000FF), ucast (drop_bit 8 (lba AND 0x000FF00)), ucast (drop_bit 16 (lba AND 0x0FF0000)), 0, 0, 0])
      else let sect = (ucast (lba mod 63 + 1) :: u8);
               cylinder = (ucast ((lba + 1 - ucast sect) div (16 * 63)) :: u16)
           in (CHS, ucast ((lba + 1 - ucast sect) mod (16 * 63) div 63),
               [sect, ucast (cylinder AND 0xFF), ucast (drop_bit 8 cylinder AND 0xFF), 0, 0, 0]))"

definition select_byte :: "lba_mode \<Rightarrow> u8 \<Rightarrow> u8 \<Rightarrow> u8" where
  "select_byte mode drive_idx head_no =
     (case mode of CHS \<Rightarrow> 0xA0 OR push_bit 4 drive_idx OR head_no
      | LBA28 \<Rightarrow> 0xE0 OR push_bit 4 drive_idx OR head_no
      | LBA48 \<Rightarrow> 0x40 OR push_bit 4 drive_idx)"

definition ata_parameters :: "'d ports \<Rightarrow> ide_channel \<Rightarrow> lba_mode \<Rightarrow> u16 \<Rightarrow> u8 list \<Rightarrow> 'd \<Rightarrow> 'd" where
  "ata_parameters io chan mode numsects lba_io d =
     (let w = ide_channel_write io chan;
          d = (if mode = LBA48
               then w ATA_REG_LBA5 (lba_io ! 5) (w ATA_REG_LBA4 (lba_io ! 4) (w ATA_REG_LBA3 (lba_io ! 3)
                      (w ATA_REG_SECCOUNT1 (ucast (drop_bit 8 numsects AND 0xFF)) d)))
               else d);
          d = w ATA_REG_SECCOUNT0 (ucast (numsects AND 0xFF)) d;
          d = w ATA_REG_LBA0 (lba_io ! 0) d;
          d = w ATA_REG_LBA1 (lba_io ! 1) d
      in w ATA_REG_LBA2 (lba_io ! 2) d)"

text \<open>The sectors read so far are in the buffer when an error ends the transfer.\<close>

fun read_sects :: "'d ports \<Rightarrow> ide_channel \<Rightarrow> nat \<Rightarrow> u16 list \<Rightarrow> 'd \<Rightarrow> (ide_error \<times> u16 list \<times> 'd) option" where
  "read_sects io chan 0 buf d = Some (IDE_ERROR_OK, buf, d)"
| "read_sects io chan (Suc n) buf d = do {
     (ret, d) \<leftarrow> ide_channel_poll io chan True d;
     (if ret \<noteq> IDE_ERROR_OK then Some (ret, buf, d)
      else let (ws, d) = rep_in (inw io (ch_io_base chan)) 256 d in read_sects io chan n (buf @ ws) d)
   }"

definition write_poll :: "'d ports \<Rightarrow> ide_channel \<Rightarrow> ide_device \<Rightarrow> 'd ide \<Rightarrow> 'd ide option" where
  "write_poll io chan dev st = do {
     (err, d) \<leftarrow> ide_channel_poll io chan False (ide_ports st);
     (if err \<noteq> IDE_ERROR_OK then ide_error_print io dev err (st\<lparr>ide_ports := d\<rparr>) else Some (st\<lparr>ide_ports := d\<rparr>))
   }"

fun write_sects :: "'d ports \<Rightarrow> ide_channel \<Rightarrow> ide_device \<Rightarrow> nat \<Rightarrow> u16 list \<Rightarrow> 'd ide \<Rightarrow> 'd ide option" where
  "write_sects io chan dev 0 buf st = Some st"
| "write_sects io chan dev (Suc n) buf st = do {
     st \<leftarrow> write_poll io chan dev st;
     write_sects io chan dev n (drop 256 buf) (st\<lparr>ide_ports := rep_outw io (ch_io_base chan) (take 256 buf) (ide_ports st)\<rparr>)
   }"

text \<open>Up to the command: interrupts off, wait for the drive, select it, and send the parameters.\<close>

definition ata_command ::
  "'d ports \<Rightarrow> ide_device \<Rightarrow> access_mode \<Rightarrow> u32 \<Rightarrow> u16 \<Rightarrow> 'd ide \<Rightarrow> (ide_channel \<times> lba_mode \<times> 'd ide) option" where
  "ata_command io dev mode lba numsects st = do {
     chan \<leftarrow> channel (dv_channel_idx dev) st;
     let chan = chan\<lparr>ch_no_interrupt := 0x02\<rparr>;
     let st = st\<lparr>ide_irq_invoked := 0, ide_channels := (ide_channels st)[unat (dv_channel_idx dev) := chan]\<rparr>;
     let d = ide_channel_write io chan ATA_REG_CONTROL 0x02 (ide_ports st);
     let (lba_mode, head_no, lba_io) = ata_address dev lba numsects;
     d \<leftarrow> wait_not_busy io chan d;
     (if dv_drive_idx dev > 1 then None
      else let d = ide_channel_write io chan ATA_REG_HDDEVSEL (select_byte lba_mode (dv_drive_idx dev) head_no) d;
               d = ata_parameters io chan lba_mode numsects lba_io d;
               d = ide_channel_write io chan ATA_REG_COMMAND (get_ata_cmd_for_access lba_mode mode) d
           in Some (chan, lba_mode, st\<lparr>ide_ports := d\<rparr>))
   }"

definition ide_device_ata_access ::
  "'d ports \<Rightarrow> ide_device \<Rightarrow> access_mode \<Rightarrow> u32 \<Rightarrow> u16 \<Rightarrow> u16 list \<Rightarrow> 'd ide \<Rightarrow> (ide_error \<times> u16 list \<times> 'd ide) option" where
  "ide_device_ata_access io dev mode lba numsects buf st = do {
     (chan, lba_mode, st) \<leftarrow> ata_command io dev mode lba numsects st;
     (if mode = READ
      then map_option (\<lambda>(ret, ws, d). (ret, ws @ drop (length ws) buf, st\<lparr>ide_ports := d\<rparr>))
             (read_sects io chan (unat numsects) [] (ide_ports st))
      else do {
        st \<leftarrow> write_sects io chan dev (unat numsects) buf st;
        let flush = (if lba_mode = LBA48 then ATA_CMD_CACHE_FLUSH_EXT else ATA_CMD_CACHE_FLUSH);
        st \<leftarrow> write_poll io chan dev (st\<lparr>ide_ports := ide_channel_write io chan ATA_REG_COMMAND flush (ide_ports st)\<rparr>);
        Some (IDE_ERROR_OK, buf, st)
      })
   }"

text \<open>The error code 1 of the source is the code of a missing device.\<close>

definition ide_device_read_sectors ::
  "'d ports \<Rightarrow> u8 \<Rightarrow> u16 \<Rightarrow> u32 \<Rightarrow> u16 list \<Rightarrow> 'd ide \<Rightarrow> (ide_error \<times> u16 list \<times> 'd ide) option" where
  "ide_device_read_sectors io idx numsects lba buf st = do {
     dev \<leftarrow> device idx st;
     (if \<not> dv_exists dev then Some (IDE_ERROR_NULL_DEVICE, buf, st)
      else if lba + ucast numsects > dv_size dev \<and> dv_type dev = IDE_ATA then Some (IDE_ERROR_NULL_DEVICE, buf, st)
      else do {
        (err, buf, st) \<leftarrow> (if dv_type dev = IDE_ATA then ide_device_ata_access io dev READ lba numsects buf st
                           else if dv_type dev = IDE_ATAPI then Some (IDE_ERROR_UNIMPLEMENTED, buf, st)
                           else Some (IDE_ERROR_OK, buf, st));
        (if dv_type dev = IDE_ATA \<and> err \<noteq> IDE_ERROR_OK
         then map_option (\<lambda>st. (err, buf, st)) (ide_error_print io dev err st) else Some (err, buf, st))
      })
   }"

definition ide_device_write_sectors ::
  "'d ports \<Rightarrow> u8 \<Rightarrow> u16 \<Rightarrow> u32 \<Rightarrow> u16 list \<Rightarrow> 'd ide \<Rightarrow> (ide_error \<times> 'd ide) option" where
  "ide_device_write_sectors io idx numsects lba buf st = do {
     dev \<leftarrow> device idx st;
     (if \<not> dv_exists dev then Some (IDE_ERROR_NULL_DEVICE, st)
      else if lba + ucast numsects > dv_size dev \<and> dv_type dev = IDE_ATA then Some (IDE_ERROR_NULL_DEVICE, st)
      else if dv_type dev = IDE_ATA
      then do {
        (err, _, st) \<leftarrow> ide_device_ata_access io dev WRITE lba numsects buf st;
        (if err \<noteq> IDE_ERROR_OK then map_option (Pair err) (ide_error_print io dev err st) else Some (err, st))
      }
      else if dv_type dev = IDE_ATAPI then Some (IDE_ERROR_NULL_DEVICE, st)
      else Some (IDE_ERROR_OK, st))
   }"

definition ide_devices_enumerate :: "'d ide \<Rightarrow> u8 list" where
  "ide_devices_enumerate st = map of_nat (filter (\<lambda>i. dv_exists (ide_devices st ! i)) [0..<4])"

definition report_device :: "ide_device \<Rightarrow> string option" where
  "report_device dev = do {
     size_str \<leftarrow> btoa (ucast (dv_size dev * 512));
     map_option fst (kprintf (''[%u:%u] %s'' @ [CHR 0x0A] @ ''Type: %s'' @ [CHR 0x0A] @ ''Signature: %#04x'' @ [CHR 0x0A] @
        ''Features: %#04x'' @ [CHR 0x0A] @ ''Commands: %#08x'' @ [CHR 0x0A] @ ''Size: %s'' @ [CHR 0x0A, CHR 0x0A])
       [VaWord (ucast (dv_channel_idx dev)), VaWord (ucast (dv_drive_idx dev)), VaStr (Some (chars (dv_model dev))),
        VaStr (Some (if dv_type dev \<noteq> 0 then ''ATAPI'' else ''ATA'')), VaWord (ucast (dv_signature dev)), VaWord (ucast (dv_features dev)),
        VaWord (ucast (dv_command_sets dev)), VaStr (Some size_str)])
   }"

definition ata_report :: "'d ide \<Rightarrow> string option" where
  "ata_report st =
     (if \<not> dv_exists (ide_devices st ! 0) then Some []
      else for_each (\<lambda>i out. if dv_exists (ide_devices st ! i) then map_option (\<lambda>s. out @ s) (report_device (ide_devices st ! i)) else Some out)
             [0..<4] (''ATA DEVICES'' @ [CHR 0x0A]))"

section \<open>A drive\<close>

text \<open>The drive the driver is written for, as the ATA standard describes it: every register keeps the last two bytes written, a command
  addresses its sectors by 28 or 48 bit block numbers or by cylinder, head and sector (of 16 heads with 63 sectors), sectors are read and
  written through the data register word by word, and only the selected drive of a channel acts.\<close>

record drive =
  dr_slave :: bool
  cur :: "nat \<Rightarrow> u8"
  prv :: "nat \<Rightarrow> u8"
  dsk :: "nat \<Rightarrow> u16 list"
  rdq :: "u16 list"
  wr_at :: nat
  got :: "u16 list"

definition sector28 :: "drive \<Rightarrow> nat" where
  "sector28 dr =
     (if bit (cur dr 6) 6
      then unat (cur dr 3) + 2 ^ 8 * unat (cur dr 4) + 2 ^ 16 * unat (cur dr 5) + 2 ^ 24 * (unat (cur dr 6) mod 16)
      else ((unat (cur dr 4) + 2 ^ 8 * unat (cur dr 5)) * 16 + unat (cur dr 6) mod 16) * 63 + unat (cur dr 3) - 1)"

definition sector48 :: "drive \<Rightarrow> nat" where
  "sector48 dr = unat (cur dr 3) + 2 ^ 8 * unat (cur dr 4) + 2 ^ 16 * unat (cur dr 5) +
     2 ^ 24 * unat (prv dr 3) + 2 ^ 32 * unat (prv dr 4) + 2 ^ 40 * unat (prv dr 5)"

definition count28 :: "drive \<Rightarrow> nat" where
  "count28 dr = (if cur dr 2 = 0 then 256 else unat (cur dr 2))"

definition count48 :: "drive \<Rightarrow> nat" where
  "count48 dr = (let n = unat (cur dr 2) + 2 ^ 8 * unat (prv dr 2) in if n = 0 then 65536 else n)"

definition sectors :: "drive \<Rightarrow> nat \<Rightarrow> nat \<Rightarrow> u16 list" where
  "sectors dr l n = concat (map (dsk dr) [l..<l + n])"

definition drive_command :: "u8 \<Rightarrow> drive \<Rightarrow> drive" where
  "drive_command v dr =
     (if bit (cur dr 6) 4 \<noteq> dr_slave dr then dr
      else if v = 0x20 then dr\<lparr>rdq := sectors dr (sector28 dr) (count28 dr)\<rparr>
      else if v = 0x24 then dr\<lparr>rdq := sectors dr (sector48 dr) (count48 dr)\<rparr>
      else if v = 0x30 then dr\<lparr>wr_at := sector28 dr, got := []\<rparr>
      else if v = 0x34 then dr\<lparr>wr_at := sector48 dr, got := []\<rparr>
      else dr)"

definition drive_outb :: "nat \<Rightarrow> u8 \<Rightarrow> drive \<Rightarrow> drive" where
  "drive_outb r v dr =
     (if r = 7 then drive_command v dr else dr\<lparr>prv := (prv dr)(r := cur dr r), cur := (cur dr)(r := v)\<rparr>)"

definition drive_outw :: "u16 \<Rightarrow> drive \<Rightarrow> drive" where
  "drive_outw w dr =
     (let ws = got dr @ [w]
      in if length ws = 256 then dr\<lparr>dsk := (dsk dr)(wr_at dr := ws), wr_at := wr_at dr + 1, got := []\<rparr> else dr\<lparr>got := ws\<rparr>)"

text \<open>A channel of the controller with such a drive, which is never busy when it is asked: \<open>drv\<close> reads the drive out of the state of
  the devices.\<close>

definition attached :: "'d ports \<Rightarrow> ide_channel \<Rightarrow> ('d \<Rightarrow> drive) \<Rightarrow> bool" where
  "attached io chan drv \<longleftrightarrow>
     (\<forall>d v. \<forall>r<8. drv (outb io (ch_io_base chan + of_nat r) v d) = drive_outb r v (drv d)) \<and>
     (\<forall>d v. drv (outb io (ch_control_base chan + 2) v d) = drv d) \<and>
     (\<forall>d. drv (snd (inb io (ch_control_base chan + 2) d)) = drv d) \<and>
     (\<forall>d. drv (snd (inb io (ch_io_base chan + 7) d)) = drv d) \<and>
     (\<forall>d. fst (inb io (ch_io_base chan + 7) d) AND 0xA9 = 0x08) \<and>
     (\<forall>d. rdq (drv d) \<noteq> [] \<longrightarrow> fst (inw io (ch_io_base chan) d) = hd (rdq (drv d)) \<and>
        drv (snd (inw io (ch_io_base chan) d)) = (drv d)\<lparr>rdq := tl (rdq (drv d))\<rparr>) \<and>
     (\<forall>d w. drv (outw io (ch_io_base chan) w d) = drive_outw w (drv d))"

lemma attached_no_interrupt: "attached io (chan\<lparr>ch_no_interrupt := v\<rparr>) drv = attached io chan drv"
  by (simp add: attached_def)

lemma attached_regs:
  assumes "attached io chan drv" "r < 8"
  shows "drv (outb io (ch_io_base chan + of_nat r) v d) = drive_outb r v (drv d)"
  using assms unfolding attached_def by blast

lemma attached_control: "attached io chan drv \<Longrightarrow> drv (outb io (ch_control_base chan + 2) v d) = drv d"
  unfolding attached_def by blast

lemma ide_ports_of:
  "ide_port chan ATA_REG_CONTROL = Some (ch_control_base chan + 2)" "ide_port chan ATA_REG_ALTSTATUS = Some (ch_control_base chan + 2)"
  "ide_port chan ATA_REG_STATUS = Some (ch_io_base chan + 7)" "ide_port chan ATA_REG_COMMAND = Some (ch_io_base chan + of_nat 7)"
  "ide_port chan ATA_REG_SECCOUNT0 = Some (ch_io_base chan + of_nat 2)" "ide_port chan ATA_REG_LBA0 = Some (ch_io_base chan + of_nat 3)"
  "ide_port chan ATA_REG_LBA1 = Some (ch_io_base chan + of_nat 4)" "ide_port chan ATA_REG_LBA2 = Some (ch_io_base chan + of_nat 5)"
  "ide_port chan ATA_REG_HDDEVSEL = Some (ch_io_base chan + of_nat 6)" "ide_port chan ATA_REG_SECCOUNT1 = Some (ch_io_base chan + of_nat 2)"
  "ide_port chan ATA_REG_LBA3 = Some (ch_io_base chan + of_nat 3)" "ide_port chan ATA_REG_LBA4 = Some (ch_io_base chan + of_nat 4)"
  "ide_port chan ATA_REG_LBA5 = Some (ch_io_base chan + of_nat 5)"
  by (simp_all add: ide_port_def ata_regs)

lemma guard_drv:
  assumes "attached io chan drv"
  shows "drv (ide_guard io chan reg v d) = drv d"
  using assms by (simp add: ide_guard_def ide_write_def ide_ports_of) (simp add: attached_def)

lemma channel_write_drv:
  assumes "attached io chan drv"
  shows "drv (ide_channel_write io chan ATA_REG_CONTROL v d) = drv d"
    "drv (ide_channel_write io chan ATA_REG_SECCOUNT0 v d) = drive_outb 2 v (drv d)"
    "drv (ide_channel_write io chan ATA_REG_LBA0 v d) = drive_outb 3 v (drv d)"
    "drv (ide_channel_write io chan ATA_REG_LBA1 v d) = drive_outb 4 v (drv d)"
    "drv (ide_channel_write io chan ATA_REG_LBA2 v d) = drive_outb 5 v (drv d)"
    "drv (ide_channel_write io chan ATA_REG_HDDEVSEL v d) = drive_outb 6 v (drv d)"
    "drv (ide_channel_write io chan ATA_REG_COMMAND v d) = drive_outb 7 v (drv d)"
    "drv (ide_channel_write io chan ATA_REG_SECCOUNT1 v d) = drive_outb 2 v (drv d)"
    "drv (ide_channel_write io chan ATA_REG_LBA3 v d) = drive_outb 3 v (drv d)"
    "drv (ide_channel_write io chan ATA_REG_LBA4 v d) = drive_outb 4 v (drv d)"
    "drv (ide_channel_write io chan ATA_REG_LBA5 v d) = drive_outb 5 v (drv d)"
  by (simp_all only: ide_channel_write_def ide_write_def ide_ports_of option.case guard_drv [OF assms] attached_control [OF assms]
      attached_regs [OF assms] arith_simps rel_simps)

lemma status_ready:
  assumes "attached io chan drv"
  shows "\<exists>s d'. ide_channel_read io chan ATA_REG_STATUS d = Some (s, d') \<and> drv d' = drv d \<and> s AND 0xA9 = 0x08"
    "\<exists>s d'. ide_channel_read io chan ATA_REG_ALTSTATUS d = Some (s, d') \<and> drv d' = drv d"
  using assms by (auto simp: ide_channel_read_def ide_ports_of guard_drv [OF assms] case_prod_beta) (auto simp: attached_def guard_drv [OF assms])

lemma ready_bits:
  assumes "s AND 0xA9 = (0x08 :: u8)"
  shows "s AND ATA_SR_BUSY = 0" "s AND ATA_SR_DRIVEWRITEFAULT = 0" "s AND ATA_SR_DRIVEREQUESTREADY \<noteq> 0" "s AND ATA_SR_ERROR = 0"
proof -
  have sub: "s AND m = 0x08 AND m" if "0xA9 AND m = m" for m :: u8
  proof -
    have "s AND m = (s AND 0xA9) AND m" using that by (simp add: and.assoc)
    then show ?thesis using assms by simp
  qed
  show "s AND ATA_SR_BUSY = 0" "s AND ATA_SR_DRIVEWRITEFAULT = 0" "s AND ATA_SR_DRIVEREQUESTREADY \<noteq> 0" "s AND ATA_SR_ERROR = 0"
    using sub [of "0x80"] sub [of "0x20"] sub [of "0x08"] sub [of "0x01"]
    by (simp_all add: ATA_SR_BUSY_def ATA_SR_DRIVEWRITEFAULT_def ATA_SR_DRIVEREQUESTREADY_def ATA_SR_ERROR_def)
qed

lemma wait_ready:
  assumes "attached io chan drv"
  shows "\<exists>d'. wait_not_busy io chan d = Some d' \<and> drv d' = drv d"
proof -
  obtain s d' where "ide_channel_read io chan ATA_REG_STATUS d = Some (s, d')" "drv d' = drv d" "s AND 0xA9 = 0x08"
    using status_ready(1) [OF assms] by blast
  then show ?thesis using ready_bits [of s] by (subst wait_not_busy.simps) simp
qed

lemma poll_ready:
  assumes "attached io chan drv"
  shows "\<exists>d'. ide_channel_poll io chan adv d = Some (IDE_ERROR_OK, d') \<and> drv d' = drv d"
proof -
  have "\<exists>d'. for_each (\<lambda>_ d. map_option snd (ide_channel_read io chan ATA_REG_ALTSTATUS d)) xs d = Some d' \<and> drv d' = drv d" for xs :: "nat list" and d
  proof (induction xs arbitrary: d)
    case (Cons x xs)
    obtain s d1 where "ide_channel_read io chan ATA_REG_ALTSTATUS d = Some (s, d1)" "drv d1 = drv d" using status_ready(2) [OF assms] by blast
    then show ?case using Cons [of d1] by simp
  qed simp
  then obtain d1 where d1: "for_each (\<lambda>_ d. map_option snd (ide_channel_read io chan ATA_REG_ALTSTATUS d)) [0..<4] d = Some d1" "drv d1 = drv d"
    by blast
  obtain d2 where d2: "wait_not_busy io chan d1 = Some d2" "drv d2 = drv d1" using wait_ready [OF assms] by blast
  obtain s d3 where d3: "ide_channel_read io chan ATA_REG_STATUS d2 = Some (s, d3)" "drv d3 = drv d2" "s AND 0xA9 = 0x08"
    using status_ready(1) [OF assms] by blast
  show ?thesis
    unfolding ide_channel_poll_def d1(1) using d1(2) d2 d3 ready_bits [OF d3(3)] by simp
qed

text \<open>Words come out of the data register in the order of the sectors.\<close>

lemma rep_in_words:
  assumes "attached io chan drv" "rdq (drv d) = ws @ rest"
  shows "\<exists>d'. rep_in (inw io (ch_io_base chan)) (length ws) d = (ws, d') \<and> drv d' = (drv d)\<lparr>rdq := rest\<rparr>"
  using assms(2)
proof (induction ws arbitrary: d)
  case (Cons w ws)
  let ?r = "inw io (ch_io_base chan) d"
  have "rdq (drv d) \<noteq> []" using Cons.prems by simp
  then have r: "fst ?r = w" "drv (snd ?r) = (drv d)\<lparr>rdq := ws @ rest\<rparr>"
    using assms(1) Cons.prems unfolding attached_def by auto
  obtain d' where "rep_in (inw io (ch_io_base chan)) (length ws) (snd ?r) = (ws, d')" "drv d' = (drv (snd ?r))\<lparr>rdq := rest\<rparr>"
    using Cons.IH [of "snd ?r"] r(2) by auto
  with r show ?case by (simp add: case_prod_beta)
qed simp

lemma read_sects_all:
  assumes "attached io chan drv" "rdq (drv d) = concat ss @ rest" "\<forall>s\<in>set ss. length s = 256"
  shows "\<exists>d'. read_sects io chan (length ss) buf d = Some (IDE_ERROR_OK, buf @ concat ss, d') \<and> drv d' = (drv d)\<lparr>rdq := rest\<rparr>"
  using assms(2,3)
proof (induction ss arbitrary: d buf)
  case Nil
  then have "(drv d)\<lparr>rdq := rest\<rparr> = drv d" by simp
  then show ?case by simp
next
  case (Cons s ss)
  obtain d1 where d1: "ide_channel_poll io chan True d = Some (IDE_ERROR_OK, d1)" "drv d1 = drv d" using poll_ready [OF assms(1)] by blast
  have "rdq (drv d1) = s @ concat ss @ rest" "length s = 256" using d1(2) Cons.prems by simp_all
  from rep_in_words [OF assms(1) this(1)] this(2) obtain d2 where
    d2: "rep_in (inw io (ch_io_base chan)) 256 d1 = (s, d2)" "drv d2 = (drv d1)\<lparr>rdq := concat ss @ rest\<rparr>" by auto
  from Cons.IH [of d2 "buf @ s"] d2(2) Cons.prems(2) obtain d3 where
    "read_sects io chan (length ss) (buf @ s) d2 = Some (IDE_ERROR_OK, (buf @ s) @ concat ss, d3)" "drv d3 = (drv d2)\<lparr>rdq := rest\<rparr>" by auto
  then show ?case using d1 d2 by (simp del: rep_in.simps)
qed

text \<open>The words written fill sector after sector.\<close>

lemma outw_part:
  "length (got dr) + length ws < 256 \<Longrightarrow> fold drive_outw ws dr = dr\<lparr>got := got dr @ ws\<rparr>"
proof (induction ws arbitrary: dr)
  case (Cons w ws)
  then have "drive_outw w dr = dr\<lparr>got := got dr @ [w]\<rparr>" by (simp add: drive_outw_def)
  with Cons show ?case by simp
qed simp

lemma outw_sector:
  assumes "got dr = []" "length ws = 256"
  shows "fold drive_outw ws dr = dr\<lparr>dsk := (dsk dr)(wr_at dr := ws), wr_at := wr_at dr + 1, got := []\<rparr>"
proof -
  have ws: "ws = butlast ws @ [last ws]" using assms(2) by (subst append_butlast_last_id) auto
  have part: "fold drive_outw (butlast ws) dr = dr\<lparr>got := butlast ws\<rparr>" using outw_part [of dr "butlast ws"] assms by simp
  have "fold drive_outw ws dr = drive_outw (last ws) (dr\<lparr>got := butlast ws\<rparr>)" by (subst ws) (simp add: part)
  also have "\<dots> = dr\<lparr>dsk := (dsk dr)(wr_at dr := ws), wr_at := wr_at dr + 1, got := []\<rparr>"
    using assms(2) ws by (simp add: drive_outw_def)
  finally show ?thesis .
qed

lemma rep_outw_drv:
  assumes "attached io chan drv"
  shows "drv (rep_outw io (ch_io_base chan) ws d) = fold drive_outw ws (drv d)"
proof (induction ws arbitrary: d)
  case (Cons w ws)
  have "drv (outw io (ch_io_base chan) w d) = drive_outw w (drv d)" using assms unfolding attached_def by blast
  with Cons [of "outw io (ch_io_base chan) w d"] show ?case by (simp add: rep_outw_def)
qed (simp add: rep_outw_def)

lemma write_poll_ready:
  assumes "attached io chan drv"
  shows "\<exists>d'. write_poll io chan dev st = Some (st\<lparr>ide_ports := d'\<rparr>) \<and> drv d' = drv (ide_ports st)"
  using poll_ready [OF assms, of False "ide_ports st"] by (auto simp: write_poll_def)

definition put_sectors :: "nat \<Rightarrow> u16 list list \<Rightarrow> (nat \<Rightarrow> u16 list) \<Rightarrow> nat \<Rightarrow> u16 list" where
  "put_sectors l ss m k = (if l \<le> k \<and> k < l + length ss then ss ! (k - l) else m k)"

lemma put_sectors_Cons: "put_sectors (Suc l) ss (m(l := s)) = put_sectors l (s # ss) m"
proof
  fix k show "put_sectors (Suc l) ss (m(l := s)) k = put_sectors l (s # ss) m k"
    by (cases "k = l") (auto simp: put_sectors_def nth_Cons' Suc_diff_Suc)
qed

lemma write_sects_all:
  assumes "attached io chan drv" "got (drv (ide_ports st)) = []" "\<forall>s\<in>set ss. length s = 256"
  shows "\<exists>d'. write_sects io chan dev (length ss) (concat ss) st = Some (st\<lparr>ide_ports := d'\<rparr>) \<and>
    dsk (drv d') = put_sectors (wr_at (drv (ide_ports st))) ss (dsk (drv (ide_ports st))) \<and> dr_slave (drv d') = dr_slave (drv (ide_ports st))"
  using assms(2,3)
proof (induction ss arbitrary: st)
  case Nil
  have "st\<lparr>ide_ports := ide_ports st\<rparr> = st" by simp
  then show ?case by (intro exI [of _ "ide_ports st"]) (auto simp: put_sectors_def fun_eq_iff)
next
  case (Cons s ss)
  obtain d1 where d1: "write_poll io chan dev st = Some (st\<lparr>ide_ports := d1\<rparr>)" "drv d1 = drv (ide_ports st)"
    using write_poll_ready [OF assms(1)] by blast
  let ?d2 = "rep_outw io (ch_io_base chan) s d1"
  have len: "length s = 256" using Cons.prems(2) by simp
  have d2: "drv ?d2 = (drv d1)\<lparr>dsk := (dsk (drv d1))(wr_at (drv d1) := s), wr_at := wr_at (drv d1) + 1, got := []\<rparr>"
    unfolding rep_outw_drv [OF assms(1)] using Cons.prems(1) d1(2) len by (intro outw_sector) simp_all
  from Cons.IH [of "st\<lparr>ide_ports := ?d2\<rparr>"] Cons.prems(2) d2 obtain d3 where
    "write_sects io chan dev (length ss) (concat ss) (st\<lparr>ide_ports := ?d2\<rparr>) = Some (st\<lparr>ide_ports := d3\<rparr>)"
    "dsk (drv d3) = put_sectors (wr_at (drv d1) + 1) ss ((dsk (drv d1))(wr_at (drv d1) := s))" "dr_slave (drv d3) = dr_slave (drv d1)" by (auto simp: fun_upd_def)
  then show ?case using d1 len by (auto simp: put_sectors_Cons)
qed

section \<open>The address of a sector\<close>

lemma lba_bytes:
  "unat (ucast (lba AND 0xFF :: u32) :: u8) = unat lba mod 256"
  "unat (ucast (drop_bit 8 (lba AND 0xFF00 :: u32)) :: u8) = unat lba div 2 ^ 8 mod 256"
  "unat (ucast (drop_bit 16 (lba AND 0xFF0000 :: u32)) :: u8) = unat lba div 2 ^ 16 mod 256"
  "unat (ucast (drop_bit 24 (lba AND 0xFF000000 :: u32)) :: u8) = unat lba div 2 ^ 24 mod 256"
  "unat (ucast (drop_bit 24 (lba AND 0xF000000 :: u32)) :: u8) = unat lba div 2 ^ 24 mod 16"
proof -
  have m: "(0xFF :: u32) = mask 8" "(0xFF00 :: u32) = push_bit 8 (mask 8)" "(0xFF0000 :: u32) = push_bit 16 (mask 8)"
      "(0xFF000000 :: u32) = push_bit 24 (mask 8)" "(0xF000000 :: u32) = push_bit 24 (mask 4)"
    by (simp_all add: mask_eq_exp_minus_1)
  have cut: "ucast (drop_bit k (lba AND push_bit k (mask 8))) = (ucast (drop_bit k lba) :: u8)" if "k \<le> 24" for k
    by (rule bit_word_eqI) (use that in \<open>auto simp: bit_simps\<close>)
  have cut4: "ucast (drop_bit 24 (lba AND push_bit 24 (mask 4))) = (ucast (drop_bit 24 lba AND mask 4) :: u8)"
    by (rule bit_word_eqI) (auto simp: bit_simps)
  have byte: "unat (ucast (drop_bit k lba) :: u8) = unat lba div 2 ^ k mod 256" for k
    using unsigned_less [of lba, where ?'a = nat]
    by (simp add: unsigned_ucast_eq unsigned_drop_bit_eq take_bit_eq_mod) (simp add: drop_bit_eq_div)
  show "unat (ucast (lba AND 0xFF :: u32) :: u8) = unat lba mod 256"
    "unat (ucast (drop_bit 8 (lba AND 0xFF00 :: u32)) :: u8) = unat lba div 2 ^ 8 mod 256"
    "unat (ucast (drop_bit 16 (lba AND 0xFF0000 :: u32)) :: u8) = unat lba div 2 ^ 16 mod 256"
    "unat (ucast (drop_bit 24 (lba AND 0xFF000000 :: u32)) :: u8) = unat lba div 2 ^ 24 mod 256"
    using cut [of 0] cut [of 8] cut [of 16] cut [of 24] byte [of 0] byte [of 8] byte [of 16] byte [of 24] unfolding m by simp_all
  show "unat (ucast (drop_bit 24 (lba AND 0xF000000 :: u32)) :: u8) = unat lba div 2 ^ 24 mod 16"
    unfolding m cut4 take_bit_eq_mask [symmetric] using unsigned_less [of lba, where ?'a = nat]
    by (simp add: unsigned_ucast_eq take_bit_eq_mod drop_bit_eq_div unat_div unat_mod)
qed

lemma digits:
  "n < 2 ^ 28 \<Longrightarrow> n mod 256 + 2 ^ 8 * (n div 2 ^ 8 mod 256) + 2 ^ 16 * (n div 2 ^ 16 mod 256) + 2 ^ 24 * (n div 2 ^ 24 mod 16) = (n :: nat)"
  "n < 2 ^ 32 \<Longrightarrow> n mod 256 + 2 ^ 8 * (n div 2 ^ 8 mod 256) + 2 ^ 16 * (n div 2 ^ 16 mod 256) + 2 ^ 24 * (n div 2 ^ 24 mod 256) = (n :: nat)"
  "n < 2 ^ 16 \<Longrightarrow> n mod 256 + 2 ^ 8 * (n div 2 ^ 8 mod 256) = (n :: nat)"
proof -
  let ?a = "n div 256" and ?b = "n div 256 div 256" and ?c = "n div 256 div 256 div 256"
  have e: "n div 2 ^ 8 = ?a" "n div 2 ^ 16 = ?b" "n div 2 ^ 24 = ?c" by (simp_all flip: div_mult2_eq)
  have sum: "x + 2 ^ 8 * y + 2 ^ 16 * z + 2 ^ 24 * c = m" if "m = 256 * a + x" "a = 256 * b + y" "b = 256 * c + z" for m a b c x y z :: nat
    using that by simp
  have s: "n mod 256 + 2 ^ 8 * (?a mod 256) + 2 ^ 16 * (?b mod 256) + 2 ^ 24 * ?c = n"
    by (rule sum [of n ?a _ ?b _ ?c]) (rule mult_div_mod_eq [symmetric])+
  have c: "n < 2 ^ 28 \<Longrightarrow> ?c mod 16 = ?c" "n < 2 ^ 32 \<Longrightarrow> ?c mod 256 = ?c" "n < 2 ^ 16 \<Longrightarrow> ?a mod 256 = ?a"
    by (simp_all flip: div_mult2_eq)
  show "n < 2 ^ 28 \<Longrightarrow> n mod 256 + 2 ^ 8 * (n div 2 ^ 8 mod 256) + 2 ^ 16 * (n div 2 ^ 16 mod 256) + 2 ^ 24 * (n div 2 ^ 24 mod 16) = n"
    "n < 2 ^ 32 \<Longrightarrow> n mod 256 + 2 ^ 8 * (n div 2 ^ 8 mod 256) + 2 ^ 16 * (n div 2 ^ 16 mod 256) + 2 ^ 24 * (n div 2 ^ 24 mod 256) = n"
    unfolding e using s c(1,2) by (simp_all only:)
  show "n < 2 ^ 16 \<Longrightarrow> n mod 256 + 2 ^ 8 * (n div 2 ^ 8 mod 256) = n" unfolding e using c(3) by simp
qed

lemma select_bits:
  assumes "u \<le> (1 :: u8)" "unat h < 16"
  shows "bit (select_byte LBA28 u h) 6" "unat (select_byte LBA28 u h) mod 16 = unat h" "bit (select_byte LBA28 u h) 4 \<longleftrightarrow> u = 1"
    "\<not> bit (select_byte CHS u h) 6" "unat (select_byte CHS u h) mod 16 = unat h" "bit (select_byte CHS u h) 4 \<longleftrightarrow> u = 1"
    "bit (select_byte LBA48 u 0) 4 \<longleftrightarrow> u = 1"
proof -
  have all: "\<forall>u\<in>{0, 1}. \<forall>k<16. let h = of_nat k in
      bit (select_byte LBA28 u h) 6 \<and> unat (select_byte LBA28 u h) mod 16 = k \<and> (bit (select_byte LBA28 u h) 4 \<longleftrightarrow> u = 1) \<and>
      \<not> bit (select_byte CHS u h) 6 \<and> unat (select_byte CHS u h) mod 16 = k \<and> (bit (select_byte CHS u h) 4 \<longleftrightarrow> u = 1) \<and>
      (bit (select_byte LBA48 u 0) 4 \<longleftrightarrow> u = 1)"
    by code_simp
  have u: "u \<in> {0, 1}" using assms(1) by (metis insertI1 insertI2 le_less word_less_1)
  show "bit (select_byte LBA28 u h) 6" "unat (select_byte LBA28 u h) mod 16 = unat h" "bit (select_byte LBA28 u h) 4 \<longleftrightarrow> u = 1"
    "\<not> bit (select_byte CHS u h) 6" "unat (select_byte CHS u h) mod 16 = unat h" "bit (select_byte CHS u h) 4 \<longleftrightarrow> u = 1"
    "bit (select_byte LBA48 u 0) 4 \<longleftrightarrow> u = 1"
    using all [rule_format, OF u assms(2), unfolded Let_def of_nat_unat ucast_id] by blast+
qed

text \<open>What the driver sends to the drive before the command.\<close>

definition drive_setup :: "lba_mode \<Rightarrow> u8 \<Rightarrow> u16 \<Rightarrow> u8 list \<Rightarrow> drive \<Rightarrow> drive" where
  "drive_setup mode sel numsects lba_io dr =
     (let dr = drive_outb 6 sel dr;
          dr = (if mode = LBA48
                then drive_outb 5 (lba_io ! 5) (drive_outb 4 (lba_io ! 4) (drive_outb 3 (lba_io ! 3)
                       (drive_outb 2 (ucast (drop_bit 8 numsects AND 0xFF)) dr)))
                else dr)
      in drive_outb 5 (lba_io ! 2) (drive_outb 4 (lba_io ! 1) (drive_outb 3 (lba_io ! 0) (drive_outb 2 (ucast (numsects AND 0xFF)) dr))))"

lemma setup_drv:
  assumes "attached io chan drv"
  shows "drv (ata_parameters io chan mode numsects lba_io (ide_channel_write io chan ATA_REG_HDDEVSEL sel d)) =
    drive_setup mode sel numsects lba_io (drv d)"
  by (simp add: ata_parameters_def drive_setup_def Let_def channel_write_drv [OF assms])

lemma count_bytes:
  "unat (ucast (n AND 0xFF :: u16) :: u8) = unat n mod 256" "unat (ucast (drop_bit 8 n AND 0xFF :: u16) :: u8) = unat n div 2 ^ 8 mod 256"
proof -
  have m: "(0xFF :: u16) = mask 8" by (simp add: mask_eq_exp_minus_1)
  have "ucast (w AND mask 8) = (ucast w :: u8)" for w :: u16 by (rule bit_word_eqI) (auto simp: bit_simps)
  then show "unat (ucast (n AND 0xFF :: u16) :: u8) = unat n mod 256" "unat (ucast (drop_bit 8 n AND 0xFF :: u16) :: u8) = unat n div 2 ^ 8 mod 256"
    unfolding m by (simp_all add: unsigned_ucast_eq take_bit_eq_mod drop_bit_eq_div unat_div)
qed

text \<open>The limit of an address: a drive without block numbers has 65536 cylinders.\<close>

definition addressable :: "ide_device \<Rightarrow> u32 \<Rightarrow> u16 \<Rightarrow> bool" where
  "addressable dev lba numsects \<longleftrightarrow> dv_features dev AND 0x200 \<noteq> 0 \<or> numsects > 0xFF \<or> unat lba < 65536 * 16 * 63"

lemma chs_parts:
  assumes "unat (lba :: u32) < 65536 * 16 * 63"
  defines "sect \<equiv> (ucast (lba mod 63 + 1) :: u8)"
  defines "track \<equiv> lba + 1 - ucast sect"
  shows "unat sect = unat lba mod 63 + 1" "unat (ucast (track div (16 * 63)) :: u16) = unat lba div 63 div 16"
    "unat (ucast (track mod (16 * 63) div 63) :: u8) = unat lba div 63 mod 16"
proof -
  have s: "unat (lba mod 63 + 1) = unat lba mod 63 + 1"
    using mod_less_divisor [of 63 "unat lba"] by (subst unat_add_small) (simp_all add: unat_mod)
  then show sect: "unat sect = unat lba mod 63 + 1"
    using mod_less_divisor [of 63 "unat lba"] by (simp add: sect_def unsigned_ucast_eq take_bit_eq_mod)
  have "unat (ucast sect :: u32) = unat lba mod 63 + 1" using sect by (simp add: unat_ucast8)
  then have "ucast sect = (of_nat (unat lba mod 63 + 1) :: u32)" by (metis of_nat_unat ucast_id)
  moreover have "lba = of_nat (63 * (unat lba div 63) + unat lba mod 63)" by simp
  ultimately have "track = of_nat (63 * (unat lba div 63))" unfolding track_def by (metis add.assoc add_diff_cancel_right' of_nat_1 of_nat_add)
  moreover have "63 * (unat lba div 63) < 2 ^ 32" using assms(1) by simp
  ultimately have t: "unat track = 63 * (unat lba div 63)" by (simp only: unat_of_nat32)
  have "unat (track div (16 * 63)) = unat lba div 63 div 16"
    using t by (simp add: unat_div div_mult2_eq flip: mult.assoc)
  moreover have "unat lba div 63 div 16 < 65536" using assms(1) by (simp add: less_mult_imp_div_less flip: div_mult2_eq)
  ultimately show "unat (ucast (track div (16 * 63)) :: u16) = unat lba div 63 div 16" by (simp add: unsigned_ucast_eq take_bit_eq_mod)
  have "63 * (unat lba div 63) mod (63 * 16) = 63 * (unat lba div 63 mod 16)" by (rule mult_mod_right [symmetric])
  then have "unat (track mod (16 * 63) div 63) = unat lba div 63 mod 16"
    using t by (simp add: unat_div unat_mod)
  then show "unat (ucast (track mod (16 * 63) div 63) :: u8) = unat lba div 63 mod 16"
    by (simp add: unsigned_ucast_eq take_bit_eq_mod)
qed

text \<open>In every mode the drive is asked for the sectors that were meant.\<close>

lemma address_head:
  assumes "ata_address dev lba n = (mode, h, bs)" "addressable dev lba n"
  shows "unat h < 16" "mode = LBA48 \<Longrightarrow> h = 0"
proof -
  have chs: "unat (ucast ((lba + 1 - ucast (ucast (lba mod 63 + 1) :: u8)) mod (16 * 63) div 63) :: u8) < 16"
    if "unat lba < 65536 * 16 * 63"
    using chs_parts(3) [OF that] by simp
  show "unat h < 16" "mode = LBA48 \<Longrightarrow> h = 0"
    using assms lba_bytes(5) [of lba] chs by (auto simp: ata_address_def addressable_def Let_def split: if_splits)
qed

lemma address_decodes:
  fixes dr :: drive
  assumes "ata_address dev lba n = (mode, h, bs)" "addressable dev lba n" "u \<le> 1" "0 < n"
  defines "R \<equiv> drive_setup mode (select_byte mode u h) n bs dr"
  shows "mode = LBA48 \<Longrightarrow> sector48 R = unat lba \<and> count48 R = unat n"
    "mode \<noteq> LBA48 \<Longrightarrow> sector28 R = unat lba \<and> count28 R = unat n"
    "bit (cur R 6) 4 \<longleftrightarrow> u = 1" "dsk R = dsk dr" "dr_slave R = dr_slave dr"
proof -
  have n0: "unat n \<noteq> 0" using assms(4) by (simp add: unat_gt_0)
  note regs = R_def drive_setup_def drive_outb_def Let_def
  have cur: "cur R 2 = ucast (n AND 0xFF)" "cur R 3 = bs ! 0" "cur R 4 = bs ! 1" "cur R 5 = bs ! 2" "cur R 6 = select_byte mode u h"
    by (simp_all add: regs)
  have prv: "prv R 2 = ucast (drop_bit 8 n AND 0xFF)" "prv R 3 = bs ! 3" "prv R 4 = bs ! 4" "prv R 5 = bs ! 5" if "mode = LBA48"
    using that by (simp_all add: regs)
  show "dsk R = dsk dr" "dr_slave R = dr_slave dr" by (simp_all add: regs)
  show "sector48 R = unat lba \<and> count48 R = unat n" if m: "mode = LBA48"
  proof -
    have bs: "bs = [ucast (lba AND 0xFF), ucast (drop_bit 8 (lba AND 0xFF00)), ucast (drop_bit 16 (lba AND 0xFF0000)),
        ucast (drop_bit 24 (lba AND 0xFF000000)), 0, 0]"
      using assms(1) m by (auto simp: ata_address_def Let_def split: if_splits)
    have "unat lba < 2 ^ 32" "unat n < 2 ^ 16" using unat_u16 [of n] unsigned_less [of lba, where ?'a = nat] by simp_all
    note d = digits(2) [OF this(1)] digits(3) [OF this(2)]
    have b: "unat (bs ! 0) = unat lba mod 256" "unat (bs ! 1) = unat lba div 2 ^ 8 mod 256" "unat (bs ! 2) = unat lba div 2 ^ 16 mod 256"
        "unat (bs ! 3) = unat lba div 2 ^ 24 mod 256" "bs ! 4 = 0" "bs ! 5 = 0"
      using lba_bytes [of lba] unfolding bs by simp_all
    have "sector48 R = unat lba" unfolding sector48_def cur prv [OF m] b using d(1) by (simp only: unsigned_0 mult_0_right add_0_right)
    moreover have "unat (cur R 2) + 2 ^ 8 * unat (prv R 2) = unat n" using d(2) by (simp only: cur(1) prv(1) [OF m] count_bytes [of n])
    then have "count48 R = unat n" unfolding count48_def using n0 by (simp only: Let_def if_False)
    ultimately show ?thesis ..
  qed
  have low: "unat lba < 2 ^ 28" "unat n < 256" if "mode \<noteq> LBA48"
    using assms(1) that by (auto simp: ata_address_def Let_def word_le_nat_alt word_less_nat_alt split: if_splits)
  have cnt: "count28 R = unat n" if "mode \<noteq> LBA48"
    using low(2) [OF that] n0 that by (simp add: count28_def cur count_bytes word_unat_eq_iff)
  note sel = select_bits [OF assms(3) address_head(1) [OF assms(1,2)]]
  have "sector28 R = unat lba" if m: "mode = LBA28"
  proof -
    have bs: "bs = [ucast (lba AND 0xFF), ucast (drop_bit 8 (lba AND 0xFF00)), ucast (drop_bit 16 (lba AND 0xFF0000)), 0, 0, 0]"
        "h = ucast (drop_bit 24 (lba AND 0xF000000))"
      using assms(1) m by (auto simp: ata_address_def Let_def split: if_splits)
    have b: "unat (bs ! 0) = unat lba mod 256" "unat (bs ! 1) = unat lba div 2 ^ 8 mod 256" "unat (bs ! 2) = unat lba div 2 ^ 16 mod 256"
        "unat h = unat lba div 2 ^ 24 mod 16"
      using lba_bytes [of lba] unfolding bs by simp_all
    show ?thesis using digits(1) [OF low(1)] m sel(1,2) unfolding sector28_def cur b by (simp add: b(4))
  qed
  moreover have "sector28 R = unat lba" if m: "mode = CHS"
  proof -
    let ?s = "ucast (lba mod 63 + 1) :: u8"
    let ?c = "ucast ((lba + 1 - ucast ?s) div (16 * 63)) :: u16"
    have bs: "bs = [?s, ucast (?c AND 0xFF), ucast (drop_bit 8 ?c AND 0xFF), 0, 0, 0]"
        "h = ucast ((lba + 1 - ucast ?s) mod (16 * 63) div 63)"
      using assms(1) m by (auto simp: ata_address_def Let_def split: if_splits)
    have "unat lba < 65536 * 16 * 63" using assms(1,2) m by (auto simp: ata_address_def addressable_def Let_def split: if_splits)
    note p = chs_parts [OF this]
    let ?q = "unat lba div 63"
    have "unat (bs ! 1) + 2 ^ 8 * unat (bs ! 2) = unat ?c"
      using digits(3) [of "unat ?c"] unat_u16 [of ?c] count_bytes [of ?c] unfolding bs by simp
    then have "sector28 R = (unat ?c * 16 + unat h) * 63 + unat (bs ! 0) - 1" using sel(4,5) m by (simp add: sector28_def cur)
    also have "\<dots> = (?q div 16 * 16 + ?q mod 16) * 63 + unat lba mod 63" unfolding bs nth_Cons_0 p by simp
    also have "\<dots> = unat lba" by (simp only: div_mult_mod_eq)
    finally show ?thesis .
  qed
  ultimately show "mode \<noteq> LBA48 \<Longrightarrow> sector28 R = unat lba \<and> count28 R = unat n" using cnt by (cases mode) auto
  show "bit (cur R 6) 4 \<longleftrightarrow> u = 1" unfolding cur using sel(3,6,7) address_head(2) [OF assms(1,2)] by (cases mode) auto
qed

section \<open>Reading and writing sectors\<close>

text \<open>The device \<open>idx\<close> of the table is the drive \<open>drv\<close>.\<close>

definition drive_at :: "'d ports \<Rightarrow> u8 \<Rightarrow> ('d \<Rightarrow> drive) \<Rightarrow> ide_device \<Rightarrow> 'd ide \<Rightarrow> bool" where
  "drive_at io idx drv dev st \<longleftrightarrow>
     device idx st = Some dev \<and> dv_exists dev \<and> dv_type dev = IDE_ATA \<and> dv_drive_idx dev \<le> 1 \<and>
     dr_slave (drv (ide_ports st)) = (dv_drive_idx dev = 1) \<and> length (ide_channels st) = 2 \<and>
     (\<exists>chan. channel (dv_channel_idx dev) st = Some chan \<and> attached io chan drv)"

lemma tables_keep [simp]:
  "device i (st\<lparr>ide_ports := d\<rparr>) = device i st" "device i (st\<lparr>ide_channels := cs\<rparr>) = device i st"
  "device i (st\<lparr>ide_irq_invoked := v\<rparr>) = device i st" "channel i (st\<lparr>ide_ports := d\<rparr>) = channel i st"
  by (simp_all add: device_def channel_def)

lemma command_drv:
  assumes "drive_at io idx drv dev st" "addressable dev lba n" "0 < n"
  shows "\<exists>chan mode st'. ata_command io dev acc lba n st = Some (chan, mode, st') \<and> attached io chan drv \<and> drive_at io idx drv dev st' \<and>
    ide_out st' = ide_out st \<and> dsk (drv (ide_ports st')) = dsk (drv (ide_ports st)) \<and>
    (acc = READ \<longrightarrow> rdq (drv (ide_ports st')) = sectors (drv (ide_ports st)) (unat lba) (unat n)) \<and>
    (acc = WRITE \<longrightarrow> wr_at (drv (ide_ports st')) = unat lba \<and> got (drv (ide_ports st')) = [])"
proof -
  obtain chan where at: "device idx st = Some dev" "dv_exists dev" "dv_type dev = IDE_ATA" "dv_drive_idx dev \<le> 1"
      "dr_slave (drv (ide_ports st)) = (dv_drive_idx dev = 1)" "length (ide_channels st) = 2"
      "channel (dv_channel_idx dev) st = Some chan" "attached io chan drv"
    using assms(1) unfolding drive_at_def by blast
  let ?chan = "chan\<lparr>ch_no_interrupt := 0x02\<rparr>"
  have att: "attached io ?chan drv" using at(8) by (simp only: attached_no_interrupt)
  obtain mode h bs where addr: "ata_address dev lba n = (mode, h, bs)" by (cases "ata_address dev lba n") auto
  obtain d1 where d1: "wait_not_busy io ?chan (ide_channel_write io ?chan ATA_REG_CONTROL 0x02 (ide_ports st)) = Some d1" "drv d1 = drv (ide_ports st)"
    using wait_ready [OF att] channel_write_drv(1) [OF att] by metis
  let ?d2 = "ata_parameters io ?chan mode n bs (ide_channel_write io ?chan ATA_REG_HDDEVSEL (select_byte mode (dv_drive_idx dev) h) d1)"
  let ?d3 = "ide_channel_write io ?chan ATA_REG_COMMAND (get_ata_cmd_for_access mode acc) ?d2"
  let ?st = "st\<lparr>ide_irq_invoked := 0, ide_channels := (ide_channels st)[unat (dv_channel_idx dev) := ?chan], ide_ports := ?d3\<rparr>"
  have run: "ata_command io dev acc lba n st = Some (?chan, mode, ?st)"
    using leD [OF at(4)] at(7) addr d1(1) by (simp add: ata_command_def Let_def)
  define R where "R = drive_setup mode (select_byte mode (dv_drive_idx dev) h) n bs (drv (ide_ports st))"
  note R = address_decodes [OF addr assms(2) at(4) assms(3), of "drv (ide_ports st)", folded R_def]
  have R2: "drv ?d2 = R" unfolding setup_drv [OF att] R_def d1(2) ..
  have d3: "drv ?d3 = drive_command (get_ata_cmd_for_access mode acc) R"
    unfolding channel_write_drv(7) [OF att] R2 by (simp add: drive_outb_def)
  have sel: "\<not> (bit (cur R 6) 4 \<noteq> dr_slave R)" using R(3,5) at(5) by simp
  have cmd: "drv ?d3 = (if acc = READ then R\<lparr>rdq := sectors R (unat lba) (unat n)\<rparr> else R\<lparr>wr_at := unat lba, got := []\<rparr>)"
    unfolding d3 drive_command_def if_not_P [OF sel] using R(1,2)
    by (cases mode; cases acc)
       (simp_all add: get_ata_cmd_for_access_def ATA_CMD_READ_PIO_EXT_def ATA_CMD_READ_PIO_def ATA_CMD_WRITE_PIO_EXT_def ATA_CMD_WRITE_PIO_def)
  have "unat (dv_channel_idx dev) < 2" using at(7) by (simp add: channel_def word_less_nat_alt split: if_splits)
  then have "channel (dv_channel_idx dev) ?st = Some ?chan" using at(6,7) by (simp add: channel_def split: if_splits)
  then have "drive_at io idx drv dev ?st" using at att cmd R(5) by (simp add: drive_at_def)
  then show ?thesis
    using run att cmd R(4) by (intro exI [of _ ?chan] exI [of _ mode] exI [of _ ?st]) (cases acc; simp add: sectors_def)
qed

lemma ide_device_read_sectors_ok:
  assumes at: "drive_at io idx drv dev st" and full: "\<forall>k. length (dsk (drv (ide_ports st)) k) = 256"
    and size: "unat lba + unat n \<le> unat (dv_size dev)" and addr: "addressable dev lba n" and "0 < n"
  shows "\<exists>st'. ide_device_read_sectors io idx n lba buf st =
      Some (IDE_ERROR_OK, sectors (drv (ide_ports st)) (unat lba) (unat n) @ drop (256 * unat n) buf, st') \<and>
    drive_at io idx drv dev st' \<and> dsk (drv (ide_ports st')) = dsk (drv (ide_ports st))"
proof -
  let ?ss = "map (dsk (drv (ide_ports st))) [unat lba..<unat lba + unat n]"
  obtain chan mode st1 where c: "ata_command io dev READ lba n st = Some (chan, mode, st1)" "attached io chan drv" "drive_at io idx drv dev st1"
      "dsk (drv (ide_ports st1)) = dsk (drv (ide_ports st))" "rdq (drv (ide_ports st1)) = concat ?ss @ []"
    using command_drv [OF at addr \<open>0 < n\<close>, of READ] by (auto simp: sectors_def)
  have "\<forall>s\<in>set ?ss. length s = 256" using full by simp
  from read_sects_all [OF c(2,5) this, of "[]"] obtain d where
    d: "read_sects io chan (unat n) [] (ide_ports st1) = Some (IDE_ERROR_OK, concat ?ss, d)" "drv d = (drv (ide_ports st1))\<lparr>rdq := []\<rparr>" by auto
  have len: "length (concat ?ss) = 256 * unat n" using full by (simp add: length_concat comp_def sum_list_triv)
  have "unat (lba + ucast n) = unat lba + unat n"
    using size unsigned_less [of "dv_size dev", where ?'a = nat] by (subst unat_add_small) (simp_all add: unat_ucast16)
  then have "\<not> lba + ucast n > dv_size dev" using size by (simp add: word_less_nat_alt)
  moreover have "drive_at io idx drv dev (st1\<lparr>ide_ports := d\<rparr>)" using c(3) d(2) by (simp add: drive_at_def)
  ultimately show ?thesis
    using at c(1,4) d len by (auto simp: drive_at_def ide_device_read_sectors_def ide_device_ata_access_def sectors_def IDE_ATA_def IDE_ATAPI_def)
qed

lemma ide_device_write_sectors_ok:
  assumes at: "drive_at io idx drv dev st" and full: "\<forall>s\<in>set ss. length s = 256" and n: "unat n = length ss"
    and size: "unat lba + unat n \<le> unat (dv_size dev)" and addr: "addressable dev lba n" and "0 < n"
  shows "\<exists>st'. ide_device_write_sectors io idx n lba (concat ss) st = Some (IDE_ERROR_OK, st') \<and> drive_at io idx drv dev st' \<and>
    dsk (drv (ide_ports st')) = put_sectors (unat lba) ss (dsk (drv (ide_ports st)))"
proof -
  obtain chan mode st1 where c: "ata_command io dev WRITE lba n st = Some (chan, mode, st1)" "attached io chan drv" "drive_at io idx drv dev st1"
      "dsk (drv (ide_ports st1)) = dsk (drv (ide_ports st))" "wr_at (drv (ide_ports st1)) = unat lba" "got (drv (ide_ports st1)) = []"
    using command_drv [OF at addr \<open>0 < n\<close>, of WRITE] by auto
  from write_sects_all [OF c(2,6) full, of dev] obtain d2 where
    d2: "write_sects io chan dev (length ss) (concat ss) st1 = Some (st1\<lparr>ide_ports := d2\<rparr>)"
      "dsk (drv d2) = put_sectors (unat lba) ss (dsk (drv (ide_ports st)))" "dr_slave (drv d2) = dr_slave (drv (ide_ports st1))"
    using c(4,5) by auto
  define fl where "fl = (if mode = LBA48 then ATA_CMD_CACHE_FLUSH_EXT else ATA_CMD_CACHE_FLUSH)"
  have "drv (ide_channel_write io chan ATA_REG_COMMAND fl d2) = drv d2"
    unfolding channel_write_drv(7) [OF c(2)] fl_def
    by (simp add: drive_outb_def drive_command_def ATA_CMD_CACHE_FLUSH_EXT_def ATA_CMD_CACHE_FLUSH_def)
  then obtain d3 where
    d3: "write_poll io chan dev (st1\<lparr>ide_ports := ide_channel_write io chan ATA_REG_COMMAND fl d2\<rparr>) = Some (st1\<lparr>ide_ports := d3\<rparr>)" "drv d3 = drv d2"
    using write_poll_ready [OF c(2), of dev "st1\<lparr>ide_ports := ide_channel_write io chan ATA_REG_COMMAND fl d2\<rparr>"] by auto
  have "unat (lba + ucast n) = unat lba + unat n"
    using size unsigned_less [of "dv_size dev", where ?'a = nat] by (subst unat_add_small) (simp_all add: unat_ucast16)
  then have "\<not> lba + ucast n > dv_size dev" using size by (simp add: word_less_nat_alt)
  moreover have "drive_at io idx drv dev (st1\<lparr>ide_ports := d3\<rparr>)" using c(3) d2(3) d3(2) by (simp add: drive_at_def)
  ultimately show ?thesis
    using at c(1) d2 d3 unfolding fl_def
    by (auto simp: drive_at_def ide_device_write_sectors_def ide_device_ata_access_def n IDE_ATA_def IDE_ATAPI_def)
qed

lemma put_sectors_same: "map (put_sectors l ss m) [l..<l + length ss] = ss"
  by (rule nth_equalityI) (simp_all add: put_sectors_def)

lemma put_sectors_full: "\<forall>s\<in>set ss. length s = 256 \<Longrightarrow> \<forall>k. length (m k) = 256 \<Longrightarrow> length (put_sectors l ss m k) = 256"
  using nth_mem [of "k - l" ss] by (auto simp: put_sectors_def)

text \<open>C33: Sectors written to a drive are read back. On a drive that is never busy and reports no error, \<open>ide_device_write_sectors\<close> stores
  the words at the sectors from \<open>lba\<close> on and leaves every other sector as it was, in each of the three ways a sector is addressed (cylinder, head
  and sector, 28 bits, 48 bits) and for the first and the second drive of a channel; a following \<open>ide_device_read_sectors\<close> of the same range
  returns those words at the front of its buffer, and both return \<open>IDE_ERROR_OK\<close>.\<close>

theorem ata_write_read:
  assumes "drive_at io idx drv dev st" "\<forall>k. length (dsk (drv (ide_ports st)) k) = 256" "\<forall>s\<in>set ss. length s = 256" "unat n = length ss"
    "unat lba + unat n \<le> unat (dv_size dev)" "addressable dev lba n" "0 < n"
  shows "\<exists>st1 st2. ide_device_write_sectors io idx n lba (concat ss) st = Some (IDE_ERROR_OK, st1) \<and>
    dsk (drv (ide_ports st1)) = put_sectors (unat lba) ss (dsk (drv (ide_ports st))) \<and>
    ide_device_read_sectors io idx n lba buf st1 = Some (IDE_ERROR_OK, concat ss @ drop (256 * unat n) buf, st2) \<and>
    dsk (drv (ide_ports st2)) = dsk (drv (ide_ports st1))"
proof -
  obtain st1 where w: "ide_device_write_sectors io idx n lba (concat ss) st = Some (IDE_ERROR_OK, st1)" "drive_at io idx drv dev st1"
      "dsk (drv (ide_ports st1)) = put_sectors (unat lba) ss (dsk (drv (ide_ports st)))"
    using ide_device_write_sectors_ok [OF assms(1,3-7)] by blast
  have "\<forall>k. length (dsk (drv (ide_ports st1)) k) = 256" using put_sectors_full [OF assms(3,2)] w(3) by simp
  moreover have "sectors (drv (ide_ports st1)) (unat lba) (unat n) = concat ss" by (simp add: sectors_def w(3) assms(4) put_sectors_same)
  ultimately show ?thesis using ide_device_read_sectors_ok [OF w(2) _ assms(5-7), of buf] w by auto
qed

text \<open>The witness: a drive alone on the first channel, the second sector of it written with the mode of cylinder, head and sector.\<close>

definition test_ports :: "drive ports" where
  "test_ports = \<lparr>inb = (\<lambda>_ d. (0x58, d)),
     outb = (\<lambda>p v d. if 0x1F0 \<le> p \<and> p < 0x1F8 then drive_outb (unat (p - 0x1F0)) v d else d),
     inw = (\<lambda>p d. if p = 0x1F0 then (hd (rdq d), d\<lparr>rdq := tl (rdq d)\<rparr>) else (0, d)),
     outw = (\<lambda>p w d. if p = 0x1F0 then drive_outw w d else d), inl = (\<lambda>_ d. (0, d)), outl = (\<lambda>_ _ d. d)\<rparr>"

definition test_channel :: ide_channel where
  "test_channel = \<lparr>ch_io_base = 0x1F0, ch_control_base = 0x3F4, ch_bus_master = 0, ch_no_interrupt = 0\<rparr>"

definition test_ide :: "drive ide" where
  "test_ide = \<lparr>ide_channels = [test_channel, test_channel],
     ide_devices = [\<lparr>dv_exists = True, dv_channel_idx = 0, dv_drive_idx = 0, dv_type = 0, dv_signature = 0, dv_features = 0,
       dv_command_sets = 0, dv_size = 100, dv_model = []\<rparr>], ide_irq_invoked = 0, id_space_buf = [], ide_out = [],
     ide_ports = \<lparr>dr_slave = False, cur = (\<lambda>_. 0), prv = (\<lambda>_. 0), dsk = (\<lambda>_. replicate 256 0), rdq = [], wr_at = 0, got = []\<rparr>\<rparr>"

lemma test_attached: "attached test_ports test_channel (\<lambda>d. d)"
proof -
  have r: "\<forall>r<8. 0x1F0 \<le> (0x1F0 + of_nat r :: u16) \<and> (0x1F0 + of_nat r :: u16) < 0x1F8 \<and> unat ((0x1F0 + of_nat r :: u16) - 0x1F0) = r"
    by code_simp
  then show ?thesis by (simp add: attached_def test_ports_def test_channel_def)
qed

theorem ata_write_read_witness:
  "\<exists>st1 st2. ide_device_write_sectors test_ports 0 1 1 (concat [replicate 256 7]) test_ide = Some (IDE_ERROR_OK, st1) \<and>
    dsk (ide_ports st1) = put_sectors (unat 1) [replicate 256 7] (dsk (ide_ports test_ide)) \<and>
    ide_device_read_sectors test_ports 0 1 1 [] st1 = Some (IDE_ERROR_OK, concat [replicate 256 7] @ drop (256 * unat 1) [], st2) \<and>
    dsk (ide_ports st2) = dsk (ide_ports st1)"
proof -
  have "drive_at test_ports 0 (\<lambda>d. d) (ide_devices test_ide ! 0) test_ide"
    using test_attached by (simp add: drive_at_def test_ide_def device_def channel_def IDE_ATA_def)
  from ata_write_read [OF this, where ss = "[replicate 256 7]" and n = 1 and lba = 1 and buf = "[]"] show ?thesis
    by (simp add: test_ide_def addressable_def)
qed

section \<open>Behaviour at the edges\<close>

text \<open>The control register of a channel whose second base address register is 0 is the data register of the first serial port: the legacy
  base \<^verbatim>\<open>0x3F6\<close> is the register itself already, and the driver adds 2 to it.\<close>

theorem ide_control_hits_uart:
  assumes "ch_control_base chan = bar_base 0 0x3F6"
  shows "ide_channel_write io chan ATA_REG_CONTROL v d = outb io UART_PORT v d"
  using assms by (simp add: ide_channel_write_def ide_guard_def ide_write_def ide_port_def ata_regs bar_base_def UART_PORT_def)

text \<open>The check of the end of a transfer wraps around: a read of two sectors at the last block number of 32 bits passes it on any drive.\<close>

theorem ide_range_check_wraps:
  assumes "device idx st = Some dev" "dv_exists dev" "dv_type dev = IDE_ATA" "1 \<le> dv_size dev"
  shows "ide_device_read_sectors io idx 2 0xFFFFFFFF buf st =
    (case ide_device_ata_access io dev READ 0xFFFFFFFF 2 buf st of
       None \<Rightarrow> None
     | Some (err, buf, st) \<Rightarrow> if err \<noteq> IDE_ERROR_OK then map_option (\<lambda>st. (err, buf, st)) (ide_error_print io dev err st) else Some (err, buf, st))"
proof -
  have "(0xFFFFFFFF :: u32) + ucast (2 :: u16) = 1" by code_simp
  then have "\<not> (0xFFFFFFFF :: u32) + ucast (2 :: u16) > dv_size dev" using assms(4) by (simp only: not_less)
  then show ?thesis using assms(1-3) unfolding ide_device_read_sectors_def
    by (simp only: Option.bind.simps simp_thms if_False if_True not_False_eq_True) (simp split: option.split prod.split)
qed

end
