(* ===== verification/Malloc.thy ===== *)
theory Malloc
  imports Syscall Klib
begin

text \<open>
  The allocator of the user library (\<^verbatim>\<open>user/lib/alloc.c\<close>). The heap of the process is its bytes between a base and the break; an access
  outside it is a fault, \<open>None\<close>, and so is a walk along a list that never ends. The break is moved by \<^verbatim>\<open>sbrk\<close> as the kernel does
  it (\<open>pcb_update_heap\<close>), which asks the argument \<open>grow\<close> for the pages: \<open>grow len\<close> is \<open>None\<close> when the kernel cannot map a heap of
  that length and else the contents of the new pages.
\<close>

section \<open>Headers in memory\<close>

definition MAGIC :: u64 where "MAGIC = 0xBEEFCAFE"
definition header_len :: u64 where "header_len = 48"

record page_header =
  hd_next :: u64
  hd_prev :: u64
  node_number :: u64
  hd_free :: u64
  hd_used :: u64
  hd_magic :: u64

record uheap =
  heap_base :: u64
  heap_size :: u64
  ubytes :: bytes
  start_header :: u64
  end_header :: u64

definition header_bytes :: "page_header \<Rightarrow> u8 list" where
  "header_bytes h = le_bytes 8 (hd_next h) @ le_bytes 8 (hd_prev h) @ le_bytes 8 (node_number h) @ le_bytes 8 (hd_free h) @
     le_bytes 8 (hd_used h) @ le_bytes 8 (hd_magic h)"

definition header_of :: "u8 list \<Rightarrow> page_header" where
  "header_of bs = \<lparr>hd_next = of_le (take 8 bs), hd_prev = of_le (take 8 (drop 8 bs)), node_number = of_le (take 8 (drop 16 bs)),
     hd_free = of_le (take 8 (drop 24 bs)), hd_used = of_le (take 8 (drop 32 bs)), hd_magic = of_le (take 8 (drop 40 bs))\<rparr>"

definition in_heap :: "u64 \<Rightarrow> nat \<Rightarrow> uheap \<Rightarrow> bool" where
  "in_heap a n st \<longleftrightarrow> heap_base st \<le> a \<and> unat a + n \<le> unat (heap_base st) + unat (heap_size st)"

definition put_header :: "u64 \<Rightarrow> page_header \<Rightarrow> uheap \<Rightarrow> uheap" where
  "put_header a h st = st\<lparr>ubytes := put_bytes a (header_bytes h) (ubytes st)\<rparr>"

definition load_header :: "u64 \<Rightarrow> uheap \<Rightarrow> page_header option" where
  "load_header a st = (if in_heap a 48 st then Some (header_of (get_bytes (ubytes st) a 48)) else None)"

definition store_header :: "u64 \<Rightarrow> page_header \<Rightarrow> uheap \<Rightarrow> uheap option" where
  "store_header a h st = (if in_heap a 48 st then Some (put_header a h st) else None)"

text \<open>A group of assignments to the fields of one header.\<close>

definition upd_header :: "u64 \<Rightarrow> (page_header \<Rightarrow> page_header) \<Rightarrow> uheap \<Rightarrow> uheap option" where
  "upd_header a f st = do { h \<leftarrow> load_header a st; store_header a (f h) st }"

section \<open>The break\<close>

definition sbrk :: "(u64 \<Rightarrow> bytes option) \<Rightarrow> u64 \<Rightarrow> uheap \<Rightarrow> u64 \<times> uheap" where
  "sbrk grow increment st =
     (let new_len = heap_size st + increment;
          new_pages = (new_len + PAGE_SIZE - 1) div PAGE_SIZE;
          curr_brk = heap_base st + heap_size st;
          curr_pages = (if heap_size st = 0 then 0 else (heap_size st + PAGE_SIZE - 1) div PAGE_SIZE)
      in if increment = 0 \<or> new_pages = curr_pages then (curr_brk, st)
         else if new_pages < curr_pages then (curr_brk, st\<lparr>heap_size := new_pages * PAGE_SIZE\<rparr>)
         else (case grow (new_pages * PAGE_SIZE) of
                 None \<Rightarrow> (0, st)
               | Some junk \<Rightarrow> (curr_brk, st\<lparr>heap_size := new_pages * PAGE_SIZE,
                   ubytes := (\<lambda>a. if in_heap a 1 st then ubytes st a else junk a)\<rparr>)))"

definition alloc_pages :: "(u64 \<Rightarrow> bytes option) \<Rightarrow> u64 \<Rightarrow> uheap \<Rightarrow> u64 \<times> uheap" where
  "alloc_pages grow pages st =
     (let (brk, st) = sbrk grow 0 st
      in if brk = 0 then (0, st)
         else let (r, st) = sbrk grow (pages * PAGE_SIZE) st in if r = 0 then (0, st) else (brk, st))"

definition free_pages :: "(u64 \<Rightarrow> bytes option) \<Rightarrow> u64 \<Rightarrow> uheap \<Rightarrow> (int \<times> uheap) option" where
  "free_pages grow hdr st = do {
     h \<leftarrow> load_header hdr st;
     Some (if hd_next h \<noteq> 0 then (1, st)
           else if hd_used h \<noteq> 0 then (1, st)
           else (0, snd (sbrk grow (- (hd_free h + header_len)) st)))
   }"

section \<open>Allocation\<close>

text \<open>The address 0 stands for \<^verbatim>\<open>NULL\<close>.\<close>

definition get_header :: "u64 \<Rightarrow> uheap \<Rightarrow> u64 option" where
  "get_header ptr st = do {
     h \<leftarrow> load_header (ptr - header_len) st;
     Some (if hd_magic h \<noteq> MAGIC then 0 else ptr - header_len)
   }"

definition alloc_new :: "(u64 \<Rightarrow> bytes option) \<Rightarrow> u64 \<Rightarrow> uheap \<Rightarrow> (u64 \<times> uheap) option" where
  "alloc_new grow sz st =
     (let pages = (sz + header_len) div PAGE_SIZE + 1;
          (addr, st) = alloc_pages grow pages st;
          room = pages * PAGE_SIZE - (sz + header_len)
      in if addr = 0 then Some (0, st)
         else do {
           node \<leftarrow> (if end_header st \<noteq> 0 then map_option (\<lambda>h. node_number h + 1) (load_header (end_header st) st) else Some 0);
           st \<leftarrow> store_header addr \<lparr>hd_next = 0, hd_prev = end_header st, node_number = node, hd_free = room, hd_used = sz,
                  hd_magic = 0xBEEFCAFE\<rparr> st;
           let st = (if start_header st = 0 then st\<lparr>start_header := addr\<rparr> else st);
           st \<leftarrow> (if end_header st \<noteq> 0 then upd_header (end_header st) (\<lambda>h. h\<lparr>hd_next := addr\<rparr>) st
                  else Some (st\<lparr>end_header := addr\<rparr>));
           Some (addr + header_len, st)
         })"

definition alloc_block :: "u64 \<Rightarrow> u64 \<Rightarrow> uheap \<Rightarrow> (u64 \<times> uheap) option" where
  "alloc_block sz block st = do {
     b \<leftarrow> load_header block st;
     let hdr = block + hd_used b + header_len;
     let room = hd_free b - (sz + header_len);
     st \<leftarrow> upd_header block (\<lambda>h. h\<lparr>hd_free := 0\<rparr>) st;
     st \<leftarrow> upd_header hdr (\<lambda>h. h\<lparr>hd_magic := MAGIC, hd_used := sz, hd_free := room, hd_prev := block\<rparr>) st;
     b \<leftarrow> load_header block st;
     st \<leftarrow> upd_header hdr (\<lambda>h. h\<lparr>hd_next := hd_next b\<rparr>) st;
     st \<leftarrow> upd_header block (\<lambda>h. h\<lparr>hd_next := hdr\<rparr>) st;
     b \<leftarrow> load_header block st;
     st \<leftarrow> upd_header hdr (\<lambda>h. h\<lparr>node_number := node_number b\<rparr>) st;
     Some (hdr + header_len, st)
   }"

partial_function (option) find_fit :: "u64 \<Rightarrow> u64 \<Rightarrow> uheap \<Rightarrow> u64 option" where
  "find_fit sz hdr st =
     (if hdr = 0 then Some 0
      else case load_header hdr st of
        None \<Rightarrow> None
      | Some h \<Rightarrow>
          if hd_free h < header_len then find_fit sz (hd_next h) st
          else if sz \<le> hd_free h - header_len then Some hdr
          else find_fit sz (hd_next h) st)"

definition malloc :: "(u64 \<Rightarrow> bytes option) \<Rightarrow> u64 \<Rightarrow> uheap \<Rightarrow> (u64 \<times> uheap) option" where
  "malloc grow sz st = do {
     hdr \<leftarrow> find_fit sz (start_header st) st;
     (if hdr \<noteq> 0 then alloc_block sz hdr st else alloc_new grow sz st)
   }"

section \<open>Release\<close>

partial_function (option) merge_left :: "u64 \<Rightarrow> u64 \<Rightarrow> uheap \<Rightarrow> (u64 \<times> uheap) option" where
  "merge_left neighbor hdr st =
     (if neighbor = 0 then Some (hdr, st)
      else do {
        n \<leftarrow> load_header neighbor st;
        h \<leftarrow> load_header hdr st;
        (if node_number n \<noteq> node_number h then Some (hdr, st)
         else if hd_used n \<noteq> 0 \<and> hd_used h \<noteq> 0 then Some (hdr, st)
         else do {
           st \<leftarrow> upd_header neighbor (\<lambda>n. n\<lparr>hd_free := hd_free n + (hd_free h + header_len)\<rparr>) st;
           h \<leftarrow> load_header hdr st;
           st \<leftarrow> upd_header neighbor (\<lambda>n. n\<lparr>hd_next := hd_next h\<rparr>) st;
           n \<leftarrow> load_header neighbor st;
           merge_left (hd_prev n) neighbor st
         })
      })"

partial_function (option) merge_right :: "u64 \<Rightarrow> u64 \<Rightarrow> uheap \<Rightarrow> uheap option" where
  "merge_right neighbor hdr st =
     (if neighbor = 0 then Some st
      else do {
        n \<leftarrow> load_header neighbor st;
        h \<leftarrow> load_header hdr st;
        (if node_number n \<noteq> node_number h then Some st
         else if hd_used n \<noteq> 0 then Some st
         else do {
           st \<leftarrow> upd_header hdr (\<lambda>h. h\<lparr>hd_free := hd_free h + (hd_free n + header_len)\<rparr>) st;
           n \<leftarrow> load_header neighbor st;
           st \<leftarrow> upd_header hdr (\<lambda>h. h\<lparr>hd_next := hd_next n\<rparr>) st;
           n \<leftarrow> load_header neighbor st;
           merge_right (hd_next n) hdr st
         })
      })"

text \<open>Whether the neighbour in a direction is of another group of pages.\<close>

definition other_node :: "u64 \<Rightarrow> page_header \<Rightarrow> uheap \<Rightarrow> bool option" where
  "other_node neighbor h st =
     (if neighbor = 0 then Some True else map_option (\<lambda>n. node_number n \<noteq> node_number h) (load_header neighbor st))"

definition unlink :: "u64 \<Rightarrow> uheap \<Rightarrow> uheap option" where
  "unlink hdr st = do {
     h \<leftarrow> load_header hdr st;
     st \<leftarrow> (if hd_next h \<noteq> 0 then upd_header (hd_next h) (\<lambda>n. n\<lparr>hd_prev := hd_prev h\<rparr>) st else Some st);
     h \<leftarrow> load_header hdr st;
     (if hd_prev h \<noteq> 0 then upd_header (hd_prev h) (\<lambda>n. n\<lparr>hd_next := hd_next h\<rparr>) st else Some st)
   }"

definition free :: "(u64 \<Rightarrow> bytes option) \<Rightarrow> u64 \<Rightarrow> uheap \<Rightarrow> uheap option" where
  "free grow ptr st =
     (if ptr = 0 then Some st
      else do {
        hdr \<leftarrow> get_header ptr st;
        (if hdr = 0 then Some st
         else do {
           st \<leftarrow> upd_header hdr (\<lambda>h. h\<lparr>hd_free := hd_free h + hd_used h, hd_used := 0\<rparr>) st;
           h \<leftarrow> load_header hdr st;
           (hdr, st) \<leftarrow> merge_left (hd_prev h) hdr st;
           h \<leftarrow> load_header hdr st;
           st \<leftarrow> merge_right (hd_next h) hdr st;
           h \<leftarrow> load_header hdr st;
           right \<leftarrow> other_node (hd_next h) h st;
           left \<leftarrow> (if right then other_node (hd_prev h) h st else Some False);
           (if right \<and> left \<and> hd_used h = 0
            then do {
              (r, st) \<leftarrow> free_pages grow hdr st;
              (if r = 0 then unlink hdr st else Some st)
            }
            else Some st)
         })
      })"

definition copy_bytes :: "u64 \<Rightarrow> u64 \<Rightarrow> u64 \<Rightarrow> uheap \<Rightarrow> uheap option" where
  "copy_bytes dst src n st =
     (if in_heap dst (unat n) st \<and> in_heap src (unat n) st then Some (st\<lparr>ubytes := memcpy dst src (unat n) (ubytes st)\<rparr>) else None)"

definition realloc :: "(u64 \<Rightarrow> bytes option) \<Rightarrow> u64 \<Rightarrow> u64 \<Rightarrow> uheap \<Rightarrow> (u64 \<times> uheap) option" where
  "realloc grow src dst_len st =
     (if dst_len = 0 then map_option (Pair 0) (free grow src st)
      else if src = 0 then malloc grow dst_len st
      else do {
        hdr \<leftarrow> get_header src st;
        (if hdr = 0 then Some (0, st)
         else do {
           h \<leftarrow> load_header hdr st;
           let src_len = hd_used h;
           (if src_len = 0 then Some (0, st)
            else do {
              (dst, st) \<leftarrow> malloc grow dst_len st;
              (if dst = 0 then Some (0, st)
               else do {
                 st \<leftarrow> copy_bytes dst src (if dst_len < src_len then dst_len else src_len) st;
                 st \<leftarrow> free grow src st;
                 Some (dst, st)
               })
            })
         })
      })"

declare find_fit.simps [code] merge_left.simps [code] merge_right.simps [code]

section \<open>Reading and writing headers\<close>

lemma length_header_bytes [simp]: "length (header_bytes h) = 48"
  by (simp add: header_bytes_def)

lemma header_of_bytes [simp]: "header_of (header_bytes h) = h"
  by (simp add: header_of_def header_bytes_def)

lemma put_header_keeps [simp]:
  "heap_base (put_header a h st) = heap_base st" "heap_size (put_header a h st) = heap_size st"
  "start_header (put_header a h st) = start_header st" "end_header (put_header a h st) = end_header st"
  "in_heap b n (put_header a h st) = in_heap b n st"
  by (simp_all add: put_header_def in_heap_def)

definition bounded :: "uheap \<Rightarrow> bool" where
  "bounded st \<longleftrightarrow> 0 < heap_base st \<and> unat (heap_base st) + unat (heap_size st) < 2 ^ 47"

lemma bounded_put [simp]: "bounded (put_header a h st) = bounded st"
  by (simp add: bounded_def)

lemma load_put_same: "in_heap a 48 st \<Longrightarrow> load_header a (put_header a h st) = Some h"
  using get_put_same [of "header_bytes h" a] by (simp add: load_header_def) (simp add: put_header_def)

lemma load_put_apart:
  assumes "bounded st" "in_heap a 48 st" "unat a + 48 \<le> unat b \<or> unat b + 48 \<le> unat a"
  shows "load_header b (put_header a h st) = load_header b st"
proof (cases "in_heap b 48 st")
  case True
  then have "apart_ranges a 48 b 48" using assms by (auto simp: apart_ranges_def in_heap_def bounded_def)
  then show ?thesis using get_put_apart [of a "header_bytes h" b 48] by (simp add: load_header_def) (simp add: put_header_def)
next
  case False
  then show ?thesis by (simp add: load_header_def)
qed

lemma load_mapped: "load_header a st = Some h \<Longrightarrow> in_heap a 48 st"
  by (simp add: load_header_def split: if_splits)

lemma upd_header_put: "load_header a st = Some h \<Longrightarrow> upd_header a f st = Some (put_header a (f h) st)"
  using load_mapped [of a st h] by (simp add: upd_header_def store_header_def)

section \<open>The invariant\<close>

definition opt :: "u64 \<Rightarrow> u64 option" where
  "opt p = (if p = 0 then None else Some p)"

definition hdr_at :: "uheap \<Rightarrow> u64 \<Rightarrow> page_header" where
  "hdr_at st a = the (load_header a st)"

definition nxt :: "uheap \<Rightarrow> u64 \<Rightarrow> u64 option" where
  "nxt st a = opt (hd_next (hdr_at st a))"

definition extent :: "uheap \<Rightarrow> u64 \<Rightarrow> nat" where
  "extent st a = 48 + unat (hd_used (hdr_at st a)) + unat (hd_free (hdr_at st a))"

text \<open>The blocks \<open>B\<close> lie in the heap without overlap, and the list from the first header on runs through the blocks \<open>xs\<close>. Blocks may be
  in \<open>B\<close> and not in \<open>xs\<close>.\<close>

definition heap_ok :: "uheap \<Rightarrow> u64 set \<Rightarrow> u64 list \<Rightarrow> bool" where
  "heap_ok st B xs \<longleftrightarrow> bounded st \<and> 4096 dvd unat (heap_size st) \<and>
     (\<forall>a\<in>B. in_heap a (extent st a) st \<and> hd_magic (hdr_at st a) = MAGIC) \<and>
     (\<forall>a\<in>B. \<forall>b\<in>B. a \<noteq> b \<longrightarrow> unat a + extent st a \<le> unat b \<or> unat b + extent st b \<le> unat a) \<and>
     chain (nxt st) (opt (start_header st)) xs \<and> set xs \<subseteq> B \<and> end_header st = start_header st"

lemma in_heap_mono: "in_heap a n st \<Longrightarrow> k \<le> n \<Longrightarrow> in_heap a k st"
  by (simp add: in_heap_def)

lemma heap_okD:
  assumes "heap_ok st B xs"
  shows "bounded st" "a \<in> B \<Longrightarrow> in_heap a (extent st a) st" "a \<in> B \<Longrightarrow> load_header a st = Some (hdr_at st a)" "a \<in> B \<Longrightarrow> a \<noteq> 0"
    "chain (nxt st) (opt (start_header st)) xs" "set xs \<subseteq> B" "end_header st = start_header st" "a \<in> B \<Longrightarrow> in_heap a 48 st"
proof -
  show "bounded st" "chain (nxt st) (opt (start_header st)) xs" "set xs \<subseteq> B" "end_header st = start_header st"
    using assms by (simp_all add: heap_ok_def)
  assume a: "a \<in> B"
  show i: "in_heap a (extent st a) st" using assms a by (simp add: heap_ok_def)
  then show h: "in_heap a 48 st" by (rule in_heap_mono) (simp add: extent_def)
  show "load_header a st = Some (hdr_at st a)" using h by (simp add: hdr_at_def load_header_def)
  show "a \<noteq> 0" using i assms by (auto simp: in_heap_def heap_ok_def bounded_def word_less_nat_alt word_le_nat_alt)
qed

lemma opt_simps [simp]: "opt p = None \<longleftrightarrow> p = 0" "opt p = Some x \<longleftrightarrow> p = x \<and> x \<noteq> 0"
  by (auto simp: opt_def)

lemma find_fit_chain:
  assumes "heap_ok st B zs" "chain (nxt st) (opt p) xs" "set xs \<subseteq> B"
  shows "\<exists>q. find_fit sz p st = Some q \<and>
    (q = 0 \<or> q \<in> set xs \<and> header_len \<le> hd_free (hdr_at st q) \<and> sz \<le> hd_free (hdr_at st q) - header_len)"
  using assms(2,3)
proof (induction xs arbitrary: p)
  case Nil
  then show ?case by (subst find_fit.simps) simp
next
  case (Cons x xs)
  then have p: "p = x" "p \<noteq> 0" "chain (nxt st) (opt (hd_next (hdr_at st x))) xs" by (auto simp: nxt_def [of st x])
  have l: "load_header x st = Some (hdr_at st x)" using heap_okD(3) [OF assms(1)] Cons.prems(2) by simp
  from Cons.IH [OF p(3)] Cons.prems(2) obtain q where "find_fit sz (hd_next (hdr_at st x)) st = Some q"
      "q = 0 \<or> q \<in> set xs \<and> header_len \<le> hd_free (hdr_at st q) \<and> sz \<le> hd_free (hdr_at st q) - header_len" by auto
  then show ?case using p l by (subst find_fit.simps) (auto simp: not_less)
qed

section \<open>Carving a block\<close>

text \<open>The common part of both ways to allocate: a new header \<open>n\<close> appears, one known header gets a new successor and gives up its free
  space, and the other headers are as before.\<close>

lemma heap_ok_insert:
  assumes ok: "heap_ok st B xs" and b: "bounded st'" "4096 dvd unat (heap_size st')" "end_header st' = start_header st'"
    and grown: "heap_base st' = heap_base st" "heap_size st \<le> heap_size st'"
    and new: "n \<notin> B" "in_heap n (extent st' n) st'" "hd_magic (hdr_at st' n) = MAGIC"
    and old: "\<forall>a\<in>B. hd_magic (hdr_at st' a) = MAGIC \<and> extent st' a \<le> extent st a"
    and apart: "\<forall>a\<in>B. unat a + extent st' a \<le> unat n \<or> unat n + extent st' n \<le> unat a"
    and list: "chain (nxt st') (opt (start_header st')) ys" "set ys \<subseteq> insert n B"
  shows "heap_ok st' (insert n B) ys"
proof -
  have "in_heap a (extent st' a) st'" if "a \<in> B" for a
    using heap_okD(2) [OF ok that] old that grown by (fastforce simp: in_heap_def word_le_nat_alt)
  moreover have "unat a + extent st' a \<le> unat c \<or> unat c + extent st' c \<le> unat a" if "a \<in> B" "c \<in> B" "a \<noteq> c" for a c
  proof -
    have "unat a + extent st a \<le> unat c \<or> unat c + extent st c \<le> unat a" using ok that by (simp add: heap_ok_def)
    then show ?thesis using old that by fastforce
  qed
  ultimately show ?thesis using b new old apart list unfolding heap_ok_def by blast
qed

lemma blocks_apart:
  assumes "heap_ok st B xs" "a \<in> B" "b \<in> B" "a \<noteq> b"
  shows "unat a + extent st a \<le> unat b \<or> unat b + extent st b \<le> unat a"
  using assms by (simp add: heap_ok_def)

lemma alloc_block_run:
  assumes "bounded st" "load_header block st = Some b" "n = block + hd_used b + header_len" "in_heap n 48 st" "unat block + 48 \<le> unat n"
  shows "\<exists>st'. alloc_block sz block st = Some (n + header_len, st') \<and>
    heap_base st' = heap_base st \<and> heap_size st' = heap_size st \<and> start_header st' = start_header st \<and> end_header st' = end_header st \<and>
    load_header block st' = Some (b\<lparr>hd_free := 0, hd_next := n\<rparr>) \<and>
    load_header n st' = Some \<lparr>hd_next = hd_next b, hd_prev = block, node_number = node_number b, hd_free = hd_free b - (sz + header_len),
      hd_used = sz, hd_magic = MAGIC\<rparr> \<and>
    (\<forall>a. (unat a + 48 \<le> unat block \<or> unat block + 48 \<le> unat a) \<longrightarrow> (unat a + 48 \<le> unat n \<or> unat n + 48 \<le> unat a) \<longrightarrow>
      load_header a st' = load_header a st)"
proof -
  have m: "in_heap block 48 st" using assms(2) by (rule load_mapped)
  obtain o1 where o1: "load_header n st = Some o1" using assms(4) by (simp add: load_header_def)
  define h1 where "h1 = b\<lparr>hd_free := 0\<rparr>"
  define s1 where "s1 = put_header block h1 st"
  define n1 where "n1 = o1\<lparr>hd_magic := MAGIC, hd_used := sz, hd_free := hd_free b - (sz + header_len), hd_prev := block\<rparr>"
  define s2 where "s2 = put_header n n1 s1"
  define n2 where "n2 = n1\<lparr>hd_next := hd_next b\<rparr>"
  define s3 where "s3 = put_header n n2 s2"
  define h2 where "h2 = h1\<lparr>hd_next := n\<rparr>"
  define s4 where "s4 = put_header block h2 s3"
  define n3 where "n3 = n2\<lparr>node_number := node_number b\<rparr>"
  define s5 where "s5 = put_header n n3 s4"
  have k: "bounded s1" "bounded s2" "bounded s3" "bounded s4" "in_heap n 48 s1" "in_heap n 48 s2" "in_heap n 48 s3" "in_heap n 48 s4"
      "in_heap block 48 s1" "in_heap block 48 s2" "in_heap block 48 s3"
    using assms(1,4) m by (simp_all add: s1_def s2_def s3_def s4_def)
  have away: "load_header a s5 = load_header a st" if "unat a + 48 \<le> unat block \<or> unat block + 48 \<le> unat a"
      "unat a + 48 \<le> unat n \<or> unat n + 48 \<le> unat a" for a
  proof -
    have d: "unat block + 48 \<le> unat a \<or> unat a + 48 \<le> unat block" "unat n + 48 \<le> unat a \<or> unat a + 48 \<le> unat n" using that by auto
    show ?thesis unfolding s5_def s4_def s3_def s2_def s1_def
      using load_put_apart [OF assms(1) m d(1)] load_put_apart [OF _ _ d(2)] load_put_apart [OF _ _ d(1)] assms(1,4) m by simp
  qed
  have l: "load_header block s1 = Some h1" "load_header n s1 = Some o1" "load_header n s2 = Some n1" "load_header block s2 = Some h1"
      "load_header n s3 = Some n2" "load_header block s3 = Some h1" "load_header block s4 = Some h2" "load_header n s4 = Some n2"
      "load_header n s5 = Some n3" "load_header block s5 = Some h2"
    using k o1 m assms(1,5)
    by (simp_all add: s1_def load_put_same load_put_apart s2_def s3_def s4_def s5_def)
  have u: "upd_header block (\<lambda>h. h\<lparr>hd_free := 0\<rparr>) st = Some s1"
      "upd_header n (\<lambda>h. h\<lparr>hd_magic := MAGIC, hd_used := sz, hd_free := hd_free b - (sz + header_len), hd_prev := block\<rparr>) s1 = Some s2"
      "upd_header n (\<lambda>h. h\<lparr>hd_next := hd_next h1\<rparr>) s2 = Some s3" "upd_header block (\<lambda>h. h\<lparr>hd_next := n\<rparr>) s3 = Some s4"
      "upd_header n (\<lambda>h. h\<lparr>node_number := node_number h2\<rparr>) s4 = Some s5"
    using upd_header_put [OF assms(2)] l by (simp_all add: upd_header_put s1_def s2_def s3_def s4_def s5_def n1_def n2_def n3_def h1_def h2_def)
  have "alloc_block sz block st = Some (n + header_len, s5)"
    unfolding alloc_block_def Let_def by (simp only: assms(2) assms(3) [symmetric] l u Option.bind.simps)
  then show ?thesis using l(9,10) away
    by (intro exI [of _ s5]) (simp add: s5_def s4_def s3_def s2_def s1_def n3_def n2_def n1_def h2_def h1_def)
qed

text \<open>What an allocation of \<open>sz\<close> bytes gives, for the blocks \<open>B\<close> from before: a new block of that size, the old blocks keep theirs.\<close>

definition new_block :: "u64 \<Rightarrow> u64 set \<Rightarrow> uheap \<Rightarrow> u64 \<Rightarrow> uheap \<Rightarrow> bool" where
  "new_block sz B st n st' \<longleftrightarrow> n \<notin> B \<and> hd_used (hdr_at st' n) = sz \<and> (\<exists>xs. heap_ok st' (insert n B) xs) \<and>
     (\<forall>a\<in>B. hd_used (hdr_at st' a) = hd_used (hdr_at st a)) \<and> heap_base st' = heap_base st"

lemma carve_room:
  assumes "header_len \<le> f" "sz \<le> f - header_len"
  shows "48 + unat sz \<le> unat f" "unat (f - (sz + header_len)) = unat f - (48 + unat sz)"
proof -
  have le: "unat sz \<le> unat f - 48" "48 \<le> unat f" using assms by (simp_all add: header_len_def word_le_nat_alt unat_sub)
  then show "48 + unat sz \<le> unat f" by simp
  have "unat (sz + header_len) = unat sz + 48" using le unat_lt64 [of f] by (subst unat_add_small) (simp_all add: header_len_def)
  then show "unat (f - (sz + header_len)) = unat f - (48 + unat sz)" using le by (subst unat_sub) (simp_all add: word_le_nat_alt)
qed

lemma alloc_block_ok:
  assumes ok: "heap_ok st B xs" and q: "q \<in> set xs" and fits: "header_len \<le> hd_free (hdr_at st q)" "sz \<le> hd_free (hdr_at st q) - header_len"
  shows "\<exists>n st'. alloc_block sz q st = Some (n + header_len, st') \<and> new_block sz B st n st'"
proof -
  note D = heap_okD [OF ok]
  have qB: "q \<in> B" using q D(6) by auto
  let ?b = "hdr_at st q"
  define n where "n = q + hd_used ?b + header_len"
  note fr = carve_room [OF fits]
  have top: "unat q + extent st q < 2 ^ 47" using D(1) D(2) [OF qB] by (simp add: bounded_def in_heap_def)
  have nn: "unat n = unat q + 48 + unat (hd_used ?b)"
    using top by (simp add: n_def extent_def header_len_def unat_add_small)
  have inn: "in_heap n 48 st" using D(2) [OF qB] nn fr(1) by (auto simp: in_heap_def extent_def word_le_nat_alt)
  from alloc_block_run [OF D(1) D(3) [OF qB] n_def inn, of sz] nn obtain st' where
    run: "alloc_block sz q st = Some (n + header_len, st')" and
    keep: "heap_base st' = heap_base st" "heap_size st' = heap_size st" "start_header st' = start_header st" "end_header st' = end_header st" and
    lq: "load_header q st' = Some (?b\<lparr>hd_free := 0, hd_next := n\<rparr>)" and
    ln: "load_header n st' = Some \<lparr>hd_next = hd_next ?b, hd_prev = q, node_number = node_number ?b, hd_free = hd_free ?b - (sz + header_len),
      hd_used = sz, hd_magic = MAGIC\<rparr>" and
    rest: "\<And>a. unat a + 48 \<le> unat q \<or> unat q + 48 \<le> unat a \<Longrightarrow> unat a + 48 \<le> unat n \<or> unat n + 48 \<le> unat a \<Longrightarrow> load_header a st' = load_header a st"
    by auto
  have sep: "unat a + extent st a \<le> unat q \<or> unat q + extent st q \<le> unat a" if "a \<in> B" "a \<noteq> q" for a
    using blocks_apart [OF ok that(1) qB that(2)] .
  have others: "hdr_at st' a = hdr_at st a" if "a \<in> B" "a \<noteq> q" for a
    using sep [OF that] fr(1) nn rest [of a] by (auto simp: hdr_at_def extent_def)
  have hq: "hdr_at st' q = ?b\<lparr>hd_free := 0, hd_next := n\<rparr>" using lq by (simp add: hdr_at_def)
  have hn: "hdr_at st' n = \<lparr>hd_next = hd_next ?b, hd_prev = q, node_number = node_number ?b, hd_free = hd_free ?b - (sz + header_len),
      hd_used = sz, hd_magic = MAGIC\<rparr>" using ln by (simp add: hdr_at_def)
  have ext: "extent st' n = unat (hd_free ?b)" "extent st' q = 48 + unat (hd_used ?b)" "\<And>a. a \<in> B \<Longrightarrow> a \<noteq> q \<Longrightarrow> extent st' a = extent st a"
    using fr others by (simp_all add: extent_def hn hq)
  have nB: "n \<notin> B"
  proof
    assume "n \<in> B"
    moreover have "unat n \<noteq> unat q" using nn by simp
    then have "n \<noteq> q" by metis
    ultimately show False using sep [of n] nn fr(1) by (auto simp: extent_def)
  qed
  obtain us vs where xs: "xs = us @ q # vs" using q by (meson split_list)
  have nz: "n \<noteq> 0" using nn by (metis add_is_0 unat_0 zero_neq_numeral)
  have "nxt st' x = ((nxt st)(n := nxt st q, q := Some n)) x" if "x \<in> insert n B" for x
    using that others [of x] hq hn nz nB by (cases "x = q") (auto simp: nxt_def)
  then have "seg (nxt st') (opt (start_header st')) (us @ q # n # vs) None =
      seg ((nxt st)(n := nxt st q, q := Some n)) (opt (start_header st)) (us @ q # n # vs) None"
    unfolding keep(3) using D(6) xs by (intro seg_cong) auto
  moreover have "n \<notin> set (us @ q # vs)" using nB D(6) xs by auto
  then have "chain ((nxt st)(n := nxt st q, q := Some n)) (opt (start_header st)) (us @ q # n # vs)"
    using chain_link_after [of "nxt st" "opt (start_header st)" us q vs n] D(5) xs by simp
  ultimately have list: "chain (nxt st') (opt (start_header st')) (us @ q # n # vs)" by simp
  have mag: "\<forall>a\<in>B. hd_magic (hdr_at st a) = MAGIC" using ok by (simp add: heap_ok_def)
  have "heap_ok st' (insert n B) (us @ q # n # vs)"
  proof (rule heap_ok_insert [OF ok])
    show "bounded st'" "4096 dvd unat (heap_size st')" "end_header st' = start_header st'" "heap_base st' = heap_base st" "heap_size st \<le> heap_size st'"
      using ok keep by (simp_all add: heap_ok_def bounded_def)
    show "n \<notin> B" "hd_magic (hdr_at st' n) = MAGIC" using nB hn by simp_all
    show "in_heap n (extent st' n) st'" using D(2) [OF qB] nn keep by (auto simp: in_heap_def ext(1) extent_def [of st q] word_le_nat_alt)
    show "\<forall>a\<in>B. hd_magic (hdr_at st' a) = MAGIC \<and> extent st' a \<le> extent st a"
    proof
      fix a assume "a \<in> B"
      then show "hd_magic (hdr_at st' a) = MAGIC \<and> extent st' a \<le> extent st a"
        using mag others [of a] ext(3) [of a] by (cases "a = q") (auto simp: hq ext(2) extent_def [of st q])
    qed
    show "\<forall>a\<in>B. unat a + extent st' a \<le> unat n \<or> unat n + extent st' n \<le> unat a"
    proof
      fix a assume "a \<in> B"
      then show "unat a + extent st' a \<le> unat n \<or> unat n + extent st' n \<le> unat a"
        using sep [of a] ext(3) [of a] by (cases "a = q") (auto simp: ext(1,2) nn extent_def [of st q])
    qed
    show "set (us @ q # n # vs) \<subseteq> insert n B" using D(6) xs by auto
  qed (rule list)
  moreover have "hd_used (hdr_at st' a) = hd_used (hdr_at st a)" if "a \<in> B" for a
    using others [OF that] hq by (cases "a = q") simp_all
  ultimately show ?thesis using run nB hn keep(1) unfolding new_block_def by auto
qed

section \<open>Growing the heap\<close>

text \<open>The kernel maps the heap in the lower half of the address space only.\<close>

definition within :: "(u64 \<Rightarrow> bytes option) \<Rightarrow> uheap \<Rightarrow> bool" where
  "within grow st \<longleftrightarrow> (\<forall>len junk. grow len = Some junk \<longrightarrow> unat (heap_base st) + unat len < 2 ^ 47)"

definition grown :: "u64 \<Rightarrow> bytes \<Rightarrow> uheap \<Rightarrow> uheap" where
  "grown len junk st = st\<lparr>heap_size := len, ubytes := (\<lambda>a. if in_heap a 1 st then ubytes st a else junk a)\<rparr>"

lemma brk_pos:
  assumes "bounded st"
  shows "unat (heap_base st + heap_size st) = unat (heap_base st) + unat (heap_size st)" "heap_base st + heap_size st \<noteq> 0"
proof -
  show u: "unat (heap_base st + heap_size st) = unat (heap_base st) + unat (heap_size st)"
    using assms by (subst unat_add_small) (simp_all add: bounded_def)
  have "0 < unat (heap_base st)" using assms by (simp add: bounded_def word_less_nat_alt)
  then show "heap_base st + heap_size st \<noteq> 0" using u by (metis add_is_0 not_gr_zero unat_0)
qed

lemma alloc_pages_eq:
  assumes "bounded st" "unat (heap_size st) = 4096 * k" "0 < g" "4096 * g < 2 ^ 63"
  shows "alloc_pages grow (of_nat g) st =
    (case grow (of_nat (4096 * (k + g))) of
       None \<Rightarrow> (0, st)
     | Some junk \<Rightarrow> (heap_base st + heap_size st, grown (of_nat (4096 * (k + g))) junk st))"
proof -
  have small: "unat (heap_size st) + 4096 * g + 4095 < 2 ^ 64" using assms(1,4) by (simp add: bounded_def)
  have pages: "of_nat g * PAGE_SIZE = (of_nat (4096 * g) :: u64)" "of_nat (k + g) * PAGE_SIZE = (of_nat (4096 * (k + g)) :: u64)"
    by (simp_all add: PAGE_SIZE_def algebra_simps)
  have div: "(4096 * g + 4095) div 4096 = g" by simp
  note hp = heap_pages [OF assms(2) small, unfolded div]
  have "4096 * (k + g) < 2 ^ 64" using small assms(2) by simp
  then have u: "unat (of_nat (k + g) :: u64) = k + g" "unat (of_nat k :: u64) = k" "unat (of_nat (4096 * g) :: u64) = 4096 * g"
    by (auto intro!: unat_of_nat64 simp del: of_nat_add of_nat_mult)
  have ne: "(of_nat (k + g) :: u64) \<noteq> of_nat k" "\<not> (of_nat (k + g) :: u64) < of_nat k" "(of_nat (4096 * g) :: u64) \<noteq> 0"
    using u assms(3) by (metis add_eq_self_zero less_numeral_extra(3), simp add: word_less_nat_alt,
        metis less_numeral_extra(3) mult_is_0 unat_0 zero_neq_numeral)
  have "sbrk grow (of_nat g * PAGE_SIZE) st =
    (case grow (of_nat (4096 * (k + g))) of
       None \<Rightarrow> (0, st)
     | Some junk \<Rightarrow> (heap_base st + heap_size st, grown (of_nat (4096 * (k + g))) junk st))"
    unfolding sbrk_def Let_def pages(1) hp pages(2) grown_def using ne by simp
  moreover have "sbrk grow 0 st = (heap_base st + heap_size st, st)" by (simp add: sbrk_def Let_def)
  ultimately show ?thesis using brk_pos(2) [OF assms(1)] by (simp add: alloc_pages_def split: option.split)
qed

lemma load_grown:
  assumes "bounded st" "in_heap a 48 st" "heap_size st \<le> len"
  shows "load_header a (grown len junk st) = load_header a st"
proof -
  have "in_heap (a + of_nat i) 1 st" if "i < 48" for i
  proof -
    have "unat (a + of_nat i) = unat a + i" using assms(1,2) that by (subst unat_add_small) (simp_all add: in_heap_def bounded_def unat_of_nat64)
    then show ?thesis using assms(2) that by (simp add: in_heap_def word_le_nat_alt)
  qed
  then have "get_bytes (ubytes (grown len junk st)) a 48 = get_bytes (ubytes st) a 48" by (simp add: get_bytes_def grown_def)
  then show ?thesis using assms(2,3) by (auto simp: load_header_def grown_def in_heap_def word_le_nat_alt)
qed

lemma new_pages:
  assumes ok: "heap_ok st B xs" and w: "within grow st" and sz: "sz < 2 ^ 63 - 0x2000"
  defines "pages \<equiv> (sz + header_len) div PAGE_SIZE + 1" and "n \<equiv> heap_base st + heap_size st"
  shows "alloc_pages grow pages st = (0, st) \<or>
    (\<exists>s1. alloc_pages grow pages st = (n, s1) \<and> bounded s1 \<and> 4096 dvd unat (heap_size s1) \<and> heap_base s1 = heap_base st \<and>
       heap_size st \<le> heap_size s1 \<and> heap_size s1 = heap_size st + pages * PAGE_SIZE \<and>
       start_header s1 = start_header st \<and> end_header s1 = end_header st \<and>
       in_heap n (48 + unat sz + unat (pages * PAGE_SIZE - (sz + header_len))) s1 \<and> (\<forall>a\<in>B. load_header a s1 = Some (hdr_at st a)))"
proof -
  note D = heap_okD [OF ok]
  obtain k where k: "unat (heap_size st) = 4096 * k" using ok by (auto simp: heap_ok_def)
  define g where "g = (unat sz + 48) div 4096 + 1"
  have usz: "unat sz < 2 ^ 63 - 0x2000" using sz by (simp add: word_less_nat_alt)
  have sz48: "unat (sz + header_len) = unat sz + 48" using usz by (subst unat_add_small) (simp_all add: header_len_def)
  have gb: "0 < g" "4096 * g < 2 ^ 63" "unat sz + 48 < 4096 * g" using usz by (auto simp: g_def)
  have "unat ((sz + header_len) div PAGE_SIZE) = (unat sz + 48) div 4096" by (simp add: unat_div sz48 PAGE_SIZE_def)
  then have up: "unat pages = g" using usz unfolding pages_def by (subst unat_add_small) (simp_all add: g_def)
  then have pages: "pages = of_nat g" by (metis of_nat_unat ucast_id)
  have gp: "unat (pages * PAGE_SIZE) = 4096 * g" using up gb(2) by (subst unat_mult_small) (simp_all add: PAGE_SIZE_def)
  have room: "unat (pages * PAGE_SIZE - (sz + header_len)) = 4096 * g - (unat sz + 48)"
    using gb(3) gp sz48 by (subst unat_sub) (simp_all add: word_le_nat_alt)
  define len where "len = (of_nat (4096 * (k + g)) :: u64)"
  have "4096 * (k + g) < 2 ^ 64" using k gb(2) D(1) by (simp add: bounded_def)
  then have ulen: "unat len = 4096 * (k + g)" unfolding len_def by (rule unat_of_nat64)
  note ap = alloc_pages_eq [OF D(1) k gb(1,2), of grow, folded pages len_def n_def]
  show ?thesis
  proof (cases "grow len")
    case (Some junk)
    have top: "unat (heap_base st) + unat len < 2 ^ 47" using w Some unfolding within_def by blast
    have "heap_size st \<le> len" using ulen k by (simp add: word_le_nat_alt)
    moreover have "heap_size st = of_nat (4096 * k)" using k by (metis of_nat_unat ucast_id)
    then have "len = heap_size st + pages * PAGE_SIZE" by (simp add: len_def pages PAGE_SIZE_def)
    moreover have "in_heap n (48 + unat sz + (4096 * g - (unat sz + 48))) (grown len junk st)"
      using gb(3) ulen k brk_pos(1) [OF D(1)] by (simp add: in_heap_def grown_def n_def word_le_nat_alt)
    moreover have "bounded (grown len junk st)" using D(1) top by (simp add: bounded_def grown_def)
    ultimately show ?thesis
      using ap Some ulen load_grown [OF D(1) D(8)] D(3) unfolding room by (intro disjI2 exI [of _ "grown len junk st"]) (simp add: grown_def [of _ _ st])
  qed (simp add: ap)
qed

text \<open>The header of new pages: it goes behind the last header, which stays the first one for ever.\<close>

lemma link_new:
  assumes "bounded s1" "in_heap n 48 s1" "end_header s1 = start_header s1" "n \<noteq> 0"
    and "start_header s1 \<noteq> 0 \<Longrightarrow> load_header (start_header s1) s1 = Some e \<and> unat (start_header s1) + 48 \<le> unat n"
    and "snd (alloc_pages grow ((sz + header_len) div PAGE_SIZE + 1) st) = s1" "fst (alloc_pages grow ((sz + header_len) div PAGE_SIZE + 1) st) = n"
  defines "room \<equiv> ((sz + header_len) div PAGE_SIZE + 1) * PAGE_SIZE - (sz + header_len)"
  shows "\<exists>st' h. alloc_new grow sz st = Some (n + header_len, st') \<and> load_header n st' = Some h \<and>
    hd_used h = sz \<and> hd_magic h = MAGIC \<and> hd_next h = 0 \<and> hd_free h = room \<and> hd_prev h = start_header s1 \<and>
    heap_base st' = heap_base s1 \<and> heap_size st' = heap_size s1 \<and> end_header st' = start_header st' \<and>
    start_header st' = (if start_header s1 = 0 then n else start_header s1) \<and>
    (start_header s1 \<noteq> 0 \<longrightarrow> load_header (start_header s1) st' = Some (e\<lparr>hd_next := n\<rparr>)) \<and>
    (\<forall>a. unat a + 48 \<le> unat n \<longrightarrow> (start_header s1 = 0 \<or> unat a + 48 \<le> unat (start_header s1) \<or> unat (start_header s1) + 48 \<le> unat a) \<longrightarrow>
      load_header a st' = load_header a s1)"
proof -
  let ?s = "start_header s1"
  define h where "h = \<lparr>hd_next = 0, hd_prev = ?s, node_number = (if ?s \<noteq> 0 then node_number e + 1 else 0), hd_free = room, hd_used = sz,
    hd_magic = MAGIC\<rparr>"
  define s2 where "s2 = put_header n h s1"
  have new: "alloc_new grow sz st = do {
      st \<leftarrow> Some (if start_header s2 = 0 then s2\<lparr>start_header := n\<rparr> else s2);
      st \<leftarrow> (if end_header st \<noteq> 0 then upd_header (end_header st) (\<lambda>h. h\<lparr>hd_next := n\<rparr>) st else Some (st\<lparr>end_header := n\<rparr>));
      Some (n + header_len, st) }"
    using assms(2-7) unfolding alloc_new_def
    by (simp add: Let_def case_prod_beta store_header_def s2_def h_def room_def MAGIC_def)
  have l2: "load_header n s2 = Some h" "\<And>a. unat a + 48 \<le> unat n \<Longrightarrow> load_header a s2 = load_header a s1"
    using load_put_same [OF assms(2)] load_put_apart [OF assms(1,2)] by (simp_all add: s2_def)
  show ?thesis
  proof (cases "?s = 0")
    case True
    have "load_header a (s2\<lparr>start_header := x, end_header := y\<rparr>) = load_header a s2" for a x y by (simp add: load_header_def in_heap_def)
    then show ?thesis using True l2 assms(3) by (simp add: new) (simp add: s2_def h_def)
  next
    case False
    have es: "load_header ?s s2 = Some e" "unat ?s + 48 \<le> unat n" using assms(5) [OF False] l2(2) by auto
    have m: "bounded s2" "in_heap ?s 48 s2" using assms(1) load_mapped [OF es(1)] by (simp_all add: s2_def)
    have u: "upd_header ?s (\<lambda>h. h\<lparr>hd_next := n\<rparr>) s2 = Some (put_header ?s (e\<lparr>hd_next := n\<rparr>) s2)" by (rule upd_header_put [OF es(1)])
    have run: "alloc_new grow sz st = Some (n + header_len, put_header ?s (e\<lparr>hd_next := n\<rparr>) s2)"
      using False u assms(3) unfolding new by (simp add: s2_def)
    show ?thesis
      unfolding run using False l2 es load_put_same [OF m(2)] load_put_apart [OF m] assms(3)
      by (intro exI [of _ "put_header ?s (e\<lparr>hd_next := n\<rparr>) s2"] exI [of _ h]) (auto simp: s2_def h_def)
  qed
qed

lemma alloc_new_ok:
  assumes ok: "heap_ok st B xs" and w: "within grow st" and sz: "sz < 2 ^ 63 - 0x2000"
  shows "alloc_new grow sz st = Some (0, st) \<or> (\<exists>n st'. alloc_new grow sz st = Some (n + header_len, st') \<and> new_block sz B st n st')"
proof (cases "fst (alloc_pages grow ((sz + header_len) div PAGE_SIZE + 1) st) = 0")
  case True
  then have "alloc_pages grow ((sz + header_len) div PAGE_SIZE + 1) st = (0, st)"
    using new_pages [OF ok w sz] brk_pos(2) [OF heap_okD(1) [OF ok]] by auto
  then show ?thesis by (simp add: alloc_new_def Let_def)
next
  case False
  note D = heap_okD [OF ok]
  define n where "n = heap_base st + heap_size st"
  let ?room = "((sz + header_len) div PAGE_SIZE + 1) * PAGE_SIZE - (sz + header_len)"
  from new_pages [OF ok w sz] False obtain s1 where
    s1: "alloc_pages grow ((sz + header_len) div PAGE_SIZE + 1) st = (n, s1)" "bounded s1" "4096 dvd unat (heap_size s1)" "heap_base s1 = heap_base st"
      "heap_size st \<le> heap_size s1" "start_header s1 = start_header st" "end_header s1 = end_header st"
      "in_heap n (48 + unat sz + unat ?room) s1" "\<And>a. a \<in> B \<Longrightarrow> load_header a s1 = Some (hdr_at st a)"
    unfolding n_def by auto
  have n: "n \<noteq> 0" "unat n = unat (heap_base st) + unat (heap_size st)" using brk_pos [OF D(1)] by (simp_all add: n_def)
  have below: "unat a + extent st a \<le> unat n" if "a \<in> B" for a using D(2) [OF that] n(2) by (simp add: in_heap_def)
  have below48: "unat a + 48 \<le> unat n" if "a \<in> B" for a using below [OF that] by (simp add: extent_def)
  have nB: "n \<notin> B" using below48 by force
  let ?s = "start_header st"
  have sB: "?s \<in> B" if "?s \<noteq> 0" using D(5,6) that by (cases xs) auto
  have at_start: "start_header s1 \<noteq> 0 \<Longrightarrow> load_header (start_header s1) s1 = Some (hdr_at st ?s) \<and> unat (start_header s1) + 48 \<le> unat n"
    using s1(6,9) sB below48 by simp
  have "in_heap n 48 s1" "end_header s1 = start_header s1" "snd (alloc_pages grow ((sz + header_len) div PAGE_SIZE + 1) st) = s1"
      "fst (alloc_pages grow ((sz + header_len) div PAGE_SIZE + 1) st) = n"
    using s1(1,6,7) D(7) in_heap_mono [OF s1(8)] by simp_all
  from link_new [OF s1(2) this(1,2) n(1) at_start this(3,4), unfolded s1(6)] obtain st' h where
    st': "alloc_new grow sz st = Some (n + header_len, st')" "load_header n st' = Some h" "hd_used h = sz" "hd_magic h = MAGIC" "hd_next h = 0" "hd_free h = ?room"
      "heap_base st' = heap_base s1" "heap_size st' = heap_size s1" "end_header st' = start_header st'"
      "start_header st' = (if ?s = 0 then n else ?s)" "?s \<noteq> 0 \<longrightarrow> load_header ?s st' = Some ((hdr_at st ?s)\<lparr>hd_next := n\<rparr>)" and
    rest: "\<forall>a. unat a + 48 \<le> unat n \<longrightarrow> (?s = 0 \<or> unat a + 48 \<le> unat ?s \<or> unat ?s + 48 \<le> unat a) \<longrightarrow> load_header a st' = load_header a s1"
    by blast
  have old: "hdr_at st' a = (if a = ?s then (hdr_at st a)\<lparr>hd_next := n\<rparr> else hdr_at st a)" if "a \<in> B" for a
  proof (cases "a = ?s")
    case True
    then show ?thesis using D(4) [OF that] st'(11) by (simp add: hdr_at_def)
  next
    case False
    have "?s = 0 \<or> unat a + 48 \<le> unat ?s \<or> unat ?s + 48 \<le> unat a"
      using blocks_apart [OF ok that sB False] by (auto simp: extent_def)
    then show ?thesis using rest [rule_format, OF below48 [OF that]] s1(9) [OF that] False by (simp add: hdr_at_def)
  qed
  have hn: "hdr_at st' n = h" using st'(2) by (simp add: hdr_at_def)
  have ext: "extent st' n = 48 + unat sz + unat ?room" using hn st'(3,6) by (simp add: extent_def)
  have ext_old: "extent st' a = extent st a" if "a \<in> B" for a using old [OF that] by (simp add: extent_def)
  have list: "chain (nxt st') (opt (start_header st')) (if ?s = 0 then [n] else [?s, n])"
    using st'(5,10,11) n(1) hn old sB by (auto simp: nxt_def hdr_at_def)
  have "heap_ok st' (insert n B) (if ?s = 0 then [n] else [?s, n])"
  proof (rule heap_ok_insert [OF ok _ _ st'(9) _ _ nB _ _ _ _ list])
    show "bounded st'" "4096 dvd unat (heap_size st')" "heap_base st' = heap_base st" "heap_size st \<le> heap_size st'"
      "in_heap n (extent st' n) st'" "hd_magic (hdr_at st' n) = MAGIC"
      using s1 st' hn unfolding ext by (simp_all add: bounded_def in_heap_def)
    show "\<forall>a\<in>B. hd_magic (hdr_at st' a) = MAGIC \<and> extent st' a \<le> extent st a" using ok old ext_old by (simp add: heap_ok_def)
    show "\<forall>a\<in>B. unat a + extent st' a \<le> unat n \<or> unat n + extent st' n \<le> unat a" using below ext_old by simp
    show "set (if ?s = 0 then [n] else [?s, n]) \<subseteq> insert n B" using sB by simp
  qed
  then show ?thesis using st' hn nB old s1(4) unfolding new_block_def by auto
qed

section \<open>Sequences of allocations\<close>

lemma malloc_ok:
  assumes "heap_ok st B xs" "within grow st" "sz < 2 ^ 63 - 0x2000"
  shows "\<exists>p st'. malloc grow sz st = Some (p, st') \<and> (p = 0 \<and> st' = st \<or> (\<exists>n. p = n + header_len \<and> new_block sz B st n st'))"
proof -
  obtain q where q: "find_fit sz (start_header st) st = Some q"
      "q = 0 \<or> q \<in> set xs \<and> header_len \<le> hd_free (hdr_at st q) \<and> sz \<le> hd_free (hdr_at st q) - header_len"
    using find_fit_chain [OF assms(1) heap_okD(5,6) [OF assms(1)]] by blast
  show ?thesis
  proof (cases "q = 0")
    case True
    then show ?thesis using q(1) alloc_new_ok [OF assms] by (auto simp: malloc_def)
  next
    case False
    then have "\<exists>n st'. alloc_block sz q st = Some (n + header_len, st') \<and> new_block sz B st n st'"
      using q(2) alloc_block_ok [OF assms(1)] by blast
    then show ?thesis using q(1) False by (auto simp: malloc_def)
  qed
qed

lemma new_block_pos:
  assumes "new_block sz B st n st'"
  shows "n + header_len \<noteq> 0"
proof -
  obtain xs where "heap_ok st' (insert n B) xs" using assms by (auto simp: new_block_def)
  from heap_okD(1) [OF this] heap_okD(8) [OF this, of n] have "unat (n + header_len) = unat n + 48"
    by (subst unat_add_small) (simp_all add: in_heap_def bounded_def header_len_def)
  then show ?thesis by (metis add_is_0 unat_0 zero_neq_numeral)
qed

fun mallocs :: "(u64 \<Rightarrow> bytes option) \<Rightarrow> u64 list \<Rightarrow> uheap \<Rightarrow> (u64 list \<times> uheap) option" where
  "mallocs grow [] st = Some ([], st)"
| "mallocs grow (sz # szs) st = do {
     (p, st) \<leftarrow> malloc grow sz st;
     (ps, st) \<leftarrow> mallocs grow szs st;
     Some (p # ps, st)
   }"

lemma mallocs_ok:
  assumes "heap_ok st B xs" "within grow st" "\<forall>sz\<in>set szs. sz < 2 ^ 63 - 0x2000"
  shows "\<exists>ps st' B' ys. mallocs grow szs st = Some (ps, st') \<and> length ps = length szs \<and> heap_ok st' B' ys \<and> B \<subseteq> B' \<and>
    (\<forall>a\<in>B. hd_used (hdr_at st' a) = hd_used (hdr_at st a)) \<and>
    (\<forall>i<length ps. ps ! i \<noteq> 0 \<longrightarrow> ps ! i - header_len \<in> B' - B \<and> hd_used (hdr_at st' (ps ! i - header_len)) = szs ! i) \<and>
    distinct (filter (\<lambda>p. p \<noteq> 0) ps)"
  using assms
proof (induction szs arbitrary: st B xs)
  case Nil
  then show ?case by (intro exI [of _ "[]"]) auto
next
  case (Cons sz szs)
  obtain p st1 where p: "malloc grow sz st = Some (p, st1)" "p = 0 \<and> st1 = st \<or> (\<exists>n. p = n + header_len \<and> new_block sz B st n st1)"
    using malloc_ok [OF Cons.prems(1,2), of sz] Cons.prems(3) by auto
  have pn: "p = 0 \<and> st1 = st \<or> p \<noteq> 0 \<and> new_block sz B st (p - header_len) st1" using p(2) new_block_pos by auto
  define B1 where "B1 = (if p = 0 then B else insert (p - header_len) B)"
  obtain zs where st1: "heap_ok st1 B1 zs" "\<forall>a\<in>B. hd_used (hdr_at st1 a) = hd_used (hdr_at st a)" "heap_base st1 = heap_base st"
      "p \<noteq> 0 \<Longrightarrow> p - header_len \<notin> B \<and> hd_used (hdr_at st1 (p - header_len)) = sz"
    using pn Cons.prems(1) by (auto simp: B1_def new_block_def)
  have "within grow st1" using Cons.prems(2) st1(3) by (simp add: within_def)
  from Cons.IH [OF st1(1) this] Cons.prems(3) obtain ps st' B' ys where
    m: "mallocs grow szs st1 = Some (ps, st')" "length ps = length szs" "heap_ok st' B' ys" "B1 \<subseteq> B'"
      "\<forall>a\<in>B1. hd_used (hdr_at st' a) = hd_used (hdr_at st1 a)"
      "\<forall>i<length ps. ps ! i \<noteq> 0 \<longrightarrow> ps ! i - header_len \<in> B' - B1 \<and> hd_used (hdr_at st' (ps ! i - header_len)) = szs ! i"
      "distinct (filter (\<lambda>p. p \<noteq> 0) ps)" by auto
  have fresh: "p \<notin> set ps" if "p \<noteq> 0" using m(6) that by (auto simp: B1_def in_set_conv_nth)
  have "(p # ps) ! i - header_len \<in> B' - B \<and> hd_used (hdr_at st' ((p # ps) ! i - header_len)) = (sz # szs) ! i"
    if "i < length (p # ps)" "(p # ps) ! i \<noteq> 0" for i
  proof (cases i)
    case 0
    then show ?thesis using that st1(4) m(4,5) by (simp add: B1_def)
  next
    case (Suc j)
    then show ?thesis using that m(6) by (auto simp: B1_def split: if_splits)
  qed
  moreover have "mallocs grow (sz # szs) st = Some (p # ps, st')" using p(1) m(1) by simp
  moreover have "B \<subseteq> B'" "\<forall>a\<in>B. hd_used (hdr_at st' a) = hd_used (hdr_at st a)"
    using m(4,5) st1(2) by (auto simp: B1_def split: if_splits)
  ultimately show ?case using m(2,3,7) fresh
    by (intro exI [of _ "p # ps"] exI [of _ st'] exI [of _ B'] exI [of _ ys]) (simp del: mallocs.simps)
qed

lemma distinct_filter_nth:
  assumes "distinct (filter P xs)" "i < length xs" "j < length xs" "i \<noteq> j" "P (xs ! i)"
  shows "xs ! i \<noteq> xs ! j"
  using assms
proof (induction xs arbitrary: i j)
  case (Cons x xs)
  then show ?case by (cases i; cases j) (fastforce split: if_splits)+
qed simp

lemma fresh_ok:
  assumes "bounded st" "heap_size st = 0" "start_header st = 0" "end_header st = 0"
  shows "heap_ok st {} []"
  using assms by (simp add: heap_ok_def)


definition test_heap :: uheap where
  "test_heap = \<lparr>heap_base = 0x100000, heap_size = 0, ubytes = (\<lambda>_. 0), start_header = 0, end_header = 0\<rparr>"

definition test_grow :: "u64 \<Rightarrow> bytes option" where
  "test_grow len = (if len \<le> 0x10000 then Some (\<lambda>_. 0) else None)"

lemma test_heap_ok: "bounded test_heap" "heap_size test_heap = 0" "start_header test_heap = 0" "end_header test_heap = 0" "within test_grow test_heap"
  by (auto simp: bounded_def test_heap_def within_def test_grow_def word_le_nat_alt split: if_splits)


section \<open>The break of the kernel\<close>

text \<open>\<open>sbrk\<close> is what the system call does with the heap of its caller, when \<open>grow\<close> says for which lengths the pages can be mapped.\<close>

theorem sbrk_is_system_call:
  assumes "pcb_update_heap ops p increment st = Some (brk, st')" "heap_base u = heap_start (ptable st p)" "heap_size u = heap_len (ptable st p)"
    and "\<And>pages. (grow (pages * PAGE_SIZE) = None) =
      (fst (op_alloc_pages_at ops (memctx (ptable st p))
          (pages - (if heap_len (ptable st p) = 0 then 0 else (heap_len (ptable st p) + PAGE_SIZE - 1) div PAGE_SIZE))
          (heap_start (ptable st p) + (if heap_len (ptable st p) = 0 then 0 else (heap_len (ptable st p) + PAGE_SIZE - 1) div PAGE_SIZE) * PAGE_SIZE)
          (F_PRESENT OR F_WRITEABLE OR F_UNPRIVILEGED) (memory st)) = 0)"
  shows "fst (sbrk grow increment u) = brk \<and> heap_size (snd (sbrk grow increment u)) = heap_len (ptable st' p)"
proof -
  let ?new = "(heap_size u + increment + PAGE_SIZE - 1) div PAGE_SIZE"
  show ?thesis
    using assms(1) assms(4) [of ?new] unfolding pcb_update_heap_def sbrk_def Let_def assms(2,3)
    by (auto simp: assms(3) split: if_splits option.splits prod.splits bind_splits)
qed

section \<open>Faults of \<open>free\<close>\<close>

lemma sbrk_all:
  assumes "bounded st" "heap_size st \<noteq> 0"
  shows "sbrk grow (- heap_size st) st = (heap_base st + heap_size st, st\<lparr>heap_size := 0\<rparr>)"
proof -
  have "unat (4095 + heap_size st) = 4095 + unat (heap_size st)" using assms(1) by (subst unat_add_small) (simp_all add: bounded_def)
  moreover have "0 < unat (heap_size st)" using assms(2) by (simp add: unat_gt_0)
  ultimately have "0 < unat ((heap_size st + PAGE_SIZE - 1) div PAGE_SIZE)" by (simp add: unat_div PAGE_SIZE_def)
  then have "0 < (heap_size st + PAGE_SIZE - 1) div PAGE_SIZE" by (simp add: word_less_nat_alt)
  moreover have "(PAGE_SIZE - 1) div PAGE_SIZE = 0" by (simp add: PAGE_SIZE_def)
  ultimately show ?thesis using assms(2) by (simp add: sbrk_def Let_def)
qed

text \<open>The first allocation cannot be freed: \<open>free_pages\<close> gives the page of the header back to the kernel, and \<open>free\<close> reads the header
  after that.\<close>

theorem free_only_block_faults:
  assumes "bounded st" "heap_size st = 0" "start_header st = 0" "end_header st = 0" "within grow st" "sz < 2 ^ 63 - 0x2000"
    and "malloc grow sz st = Some (p, st1)" "p \<noteq> 0"
  shows "free grow p st1 = None"
proof -
  note ok = fresh_ok [OF assms(1-4)]
  define pages where "pages = (sz + header_len) div PAGE_SIZE + 1"
  define n where "n = heap_base st"
  have new: "alloc_new grow sz st = Some (p, st1)" using assms(3,7) by (simp add: malloc_def find_fit.simps)
  then have "fst (alloc_pages grow pages st) \<noteq> 0" using assms(8) by (auto simp: alloc_new_def Let_def pages_def case_prod_beta)
  with new_pages [OF ok assms(5,6)] assms(2-4) obtain s1 where
    s1: "alloc_pages grow pages st = (n, s1)" "bounded s1" "4096 dvd unat (heap_size s1)" "heap_base s1 = n" "heap_size s1 = pages * PAGE_SIZE"
      "start_header s1 = 0" "end_header s1 = 0" "in_heap n (48 + unat sz + unat (pages * PAGE_SIZE - (sz + header_len))) s1"
    by (auto simp: pages_def n_def)
  have n0: "n \<noteq> 0" using assms(1) by (auto simp: bounded_def n_def)
  have n48: "in_heap n 48 s1" using s1(8) by (rule in_heap_mono) simp
  from link_new [OF s1(2) n48 _ n0, where grow = grow and sz = sz and st = st, folded pages_def] s1 new obtain h where
    h: "p = n + header_len" "load_header n st1 = Some h" "hd_used h = sz" "hd_magic h = MAGIC" "hd_next h = 0" "hd_prev h = 0"
      "hd_free h = pages * PAGE_SIZE - (sz + header_len)" "heap_base st1 = n" "heap_size st1 = pages * PAGE_SIZE"
    by auto
  let ?h = "h\<lparr>hd_free := hd_free h + sz, hd_used := 0\<rparr>"
  let ?s = "put_header n ?h st1"
  have u: "upd_header n (\<lambda>h. h\<lparr>hd_free := hd_free h + hd_used h, hd_used := 0\<rparr>) st1 = Some ?s"
    using upd_header_put [OF h(2)] h(3) by simp
  have l: "load_header n ?s = Some ?h" by (rule load_put_same [OF load_mapped [OF h(2)]])
  have "0 < unat (heap_size s1)" using n48 by (auto simp: in_heap_def s1(4))
  then have pos: "heap_size s1 \<noteq> 0" by auto
  have "- (hd_free ?h + header_len) = - (pages * PAGE_SIZE)" by (simp add: h(7))
  moreover have "bounded ?s" using s1(2,4,5) h(8,9) by (simp add: bounded_def)
  ultimately have brk: "heap_size (snd (sbrk grow (- (hd_free ?h + header_len)) ?s)) = 0" "heap_base (snd (sbrk grow (- (hd_free ?h + header_len)) ?s)) = n"
    using sbrk_all [of ?s grow] pos s1(5) h(8,9) by simp_all
  have "load_header n (snd (sbrk grow (- (hd_free ?h + header_len)) ?s)) = None"
    using brk by (simp add: load_header_def in_heap_def)
  then have "unlink n (snd (sbrk grow (- (hd_free ?h + header_len)) ?s)) = None" by (simp add: unlink_def)
  then show ?thesis
    using n0 h u l assms(8) by (simp add: free_def get_header_def merge_left.simps merge_right.simps other_node_def free_pages_def)
qed

text \<open>A block that is freed goes to the header its \<open>prev\<close> field names, when that one is in use and nothing else is merged.\<close>

lemma free_into_left:
  assumes b: "bounded st" and h: "load_header h st = Some hh" "hd_magic hh = MAGIC" "h \<noteq> 0" "h + header_len \<noteq> 0"
    and l: "hd_prev hh = l" "l \<noteq> 0" "load_header l st = Some ll" "node_number ll = node_number hh" "hd_used ll \<noteq> 0"
    and lh: "unat l + 48 \<le> unat h \<or> unat h + 48 \<le> unat l"
    and left: "hd_prev ll = 0 \<or> (\<exists>kk. load_header (hd_prev ll) st = Some kk \<and> hd_used kk \<noteq> 0 \<and>
      (unat l + 48 \<le> unat (hd_prev ll) \<or> unat (hd_prev ll) + 48 \<le> unat l) \<and> (unat h + 48 \<le> unat (hd_prev ll) \<or> unat (hd_prev ll) + 48 \<le> unat h))"
    and right: "hd_next hh = 0 \<or> (\<exists>nn. load_header (hd_next hh) st = Some nn \<and> hd_used nn \<noteq> 0 \<and>
      (unat l + 48 \<le> unat (hd_next hh) \<or> unat (hd_next hh) + 48 \<le> unat l) \<and> (unat h + 48 \<le> unat (hd_next hh) \<or> unat (hd_next hh) + 48 \<le> unat h))"
  shows "\<exists>st'. free grow (h + header_len) st = Some st' \<and> bounded st' \<and> heap_base st' = heap_base st \<and> heap_size st' = heap_size st \<and>
    start_header st' = start_header st \<and>
    load_header l st' = Some (ll\<lparr>hd_free := hd_free ll + (hd_free hh + hd_used hh + header_len), hd_next := hd_next hh\<rparr>) \<and>
    (\<forall>a. (unat l + 48 \<le> unat a \<or> unat a + 48 \<le> unat l) \<longrightarrow> (unat h + 48 \<le> unat a \<or> unat a + 48 \<le> unat h) \<longrightarrow>
      load_header a st' = load_header a st)"
proof -
  define h1 where "h1 = hh\<lparr>hd_free := hd_free hh + hd_used hh, hd_used := 0\<rparr>"
  define s1 where "s1 = put_header h h1 st"
  define l1 where "l1 = ll\<lparr>hd_free := hd_free ll + (hd_free h1 + header_len)\<rparr>"
  define s2 where "s2 = put_header l l1 s1"
  define l2 where "l2 = l1\<lparr>hd_next := hd_next hh\<rparr>"
  define s3 where "s3 = put_header l l2 s2"
  have m: "in_heap h 48 st" "in_heap l 48 st" using load_mapped h(1) l(3) by blast+
  have lh': "unat h + 48 \<le> unat l \<or> unat l + 48 \<le> unat h" using lh by blast
  have away: "load_header a s1 = load_header a st" "load_header a s2 = load_header a st" "load_header a s3 = load_header a st"
    if "unat l + 48 \<le> unat a \<or> unat a + 48 \<le> unat l" "unat h + 48 \<le> unat a \<or> unat a + 48 \<le> unat h" for a
    using load_put_apart [OF _ _ that(1)] load_put_apart [OF _ _ that(2)] b m by (simp_all add: s1_def s2_def s3_def)
  have ld: "load_header h s1 = Some h1" "load_header l s1 = Some ll" "load_header l s2 = Some l1" "load_header h s2 = Some h1"
      "load_header l s3 = Some l2" "load_header h s3 = Some h1"
    using load_put_same [OF m(1)] load_put_apart [OF b m(1) lh'] load_put_same [of l] load_put_apart [OF _ _ lh] b m h(1) l(3)
    by (simp_all add: s1_def s2_def s3_def)
  have u: "upd_header h (\<lambda>h. h\<lparr>hd_free := hd_free h + hd_used h, hd_used := 0\<rparr>) st = Some s1"
      "upd_header l (\<lambda>n. n\<lparr>hd_free := hd_free n + (hd_free h1 + header_len)\<rparr>) s1 = Some s2" "upd_header l (\<lambda>n. n\<lparr>hd_next := hd_next hh\<rparr>) s2 = Some s3"
    using upd_header_put [OF h(1)] upd_header_put [OF ld(2)] upd_header_put [OF ld(3)] by (simp_all add: h1_def s1_def s2_def s3_def l1_def l2_def)
  have f: "node_number h1 = node_number ll" "hd_used h1 = 0" "hd_next h1 = hd_next hh" "hd_prev h1 = l" "hd_prev l2 = hd_prev ll" "hd_next l2 = hd_next hh"
      "hd_used l2 \<noteq> 0" "node_number l2 = node_number ll"
    using l by (simp_all add: h1_def l2_def l1_def)
  have stop_left: "merge_left (hd_prev ll) l s3 = Some (l, s3)" "\<exists>r. other_node (hd_prev ll) l2 s3 = Some r"
    using left away(3) ld(5) f by (auto simp: merge_left.simps [of "hd_prev ll"] other_node_def)
  have stop_right: "merge_right (hd_next hh) l s3 = Some s3" "\<exists>r. other_node (hd_next hh) l2 s3 = Some r"
    using right away(3) ld(5) f by (auto simp: merge_right.simps [of "hd_next hh"] other_node_def)
  have ml: "merge_left l h s1 = Some (l, s3)"
    by (subst merge_left.simps) (use l(2) ld u f stop_left(1) in simp)
  obtain r1 r2 where "other_node (hd_next hh) l2 s3 = Some r1" "other_node (hd_prev ll) l2 s3 = Some r2" using stop_left(2) stop_right(2) by blast
  then have "free grow (h + header_len) st = Some s3"
    using h u(1) ld(1,5) f ml stop_right(1) by (simp add: free_def get_header_def)
  then show ?thesis using away(3) ld(5) b by (intro exI [of _ s3]) (simp add: l2_def l1_def h1_def s3_def s2_def s1_def)
qed

lemma find_fit_step:
  assumes "q \<noteq> 0" "load_header q st = Some h"
  shows "hd_free h < header_len \<Longrightarrow> find_fit sz q st = find_fit sz (hd_next h) st"
    "header_len \<le> hd_free h \<Longrightarrow> sz \<le> hd_free h - header_len \<Longrightarrow> find_fit sz q st = Some q"
  using assms by (simp_all add: find_fit.simps [of sz q] leD)

lemma malloc_carves:
  assumes "bounded st" "find_fit sz (start_header st) st = Some q" "q \<noteq> 0" "load_header q st = Some b" "n = q + hd_used b + header_len"
    "in_heap n 48 st" "unat q + 48 \<le> unat n"
  shows "\<exists>st'. malloc grow sz st = Some (n + header_len, st') \<and> bounded st' \<and> heap_base st' = heap_base st \<and> heap_size st' = heap_size st \<and>
    start_header st' = start_header st \<and> load_header q st' = Some (b\<lparr>hd_free := 0, hd_next := n\<rparr>) \<and>
    load_header n st' = Some \<lparr>hd_next = hd_next b, hd_prev = q, node_number = node_number b, hd_free = hd_free b - (sz + header_len),
      hd_used = sz, hd_magic = MAGIC\<rparr> \<and>
    (\<forall>a. (unat a + 48 \<le> unat q \<or> unat q + 48 \<le> unat a) \<longrightarrow> (unat a + 48 \<le> unat n \<or> unat n + 48 \<le> unat a) \<longrightarrow>
      load_header a st' = load_header a st)"
  using alloc_block_run [OF assms(1,4-7), of sz] assms(1-3) by (auto simp: malloc_def bounded_def)

lemma test_pages: "alloc_pages test_grow 1 test_heap = (0x100000, grown 0x1000 (\<lambda>_. 0) test_heap)"
  using alloc_pages_eq [OF test_heap_ok(1), of 0 1 test_grow] by (simp add: test_grow_def) (simp add: test_heap_def)

lemma first_page:
  "\<exists>st h. malloc test_grow 100 test_heap = Some (0x100030, st) \<and> bounded st \<and> heap_base st = 0x100000 \<and> heap_size st = 0x1000 \<and>
    start_header st = 0x100000 \<and> load_header 0x100000 st = Some h \<and> hd_used h = 100 \<and> hd_free h = 3948 \<and> hd_next h = 0 \<and> hd_prev h = 0"
proof -
  have pages: "(100 + header_len) div PAGE_SIZE + 1 = (1 :: u64)" by code_simp
  let ?s = "grown 0x1000 (\<lambda>_. 0) test_heap"
  have s: "bounded ?s" "in_heap 0x100000 48 ?s" "end_header ?s = start_header ?s" "start_header ?s = 0" "heap_base ?s = 0x100000" "heap_size ?s = 0x1000"
    by (simp_all add: bounded_def in_heap_def grown_def test_heap_def)
  have "find_fit 100 (start_header test_heap) test_heap = Some 0" using test_heap_ok(3) by (simp add: find_fit.simps)
  then have "malloc test_grow 100 test_heap = alloc_new test_grow 100 test_heap" by (simp add: malloc_def)
  with link_new [of ?s "0x100000" undefined test_grow 100 test_heap] s test_pages pages show ?thesis
    by (auto simp: bounded_def header_len_def PAGE_SIZE_def)
qed

text \<open>Two live allocations overlap: \<open>alloc_block\<close> and \<open>free\<close> do not correct the \<open>prev\<close> field of the block behind, so \<open>c\<close> keeps naming the
  place of \<open>b\<close>. After \<open>b\<close> is freed and its space given to \<open>d\<close> and \<open>e\<close>, freeing \<open>c\<close> merges it into \<open>d\<close> across \<open>e\<close>, and the next
  allocation returns the address of \<open>e\<close>, which was never freed.\<close>

theorem malloc_returns_live_block:
  "\<exists>a b c d e st1 st2 st3 st4 st5 st6 st7 st8.
     malloc test_grow 100 test_heap = Some (a, st1) \<and> malloc test_grow 300 st1 = Some (b, st2) \<and> malloc test_grow 100 st2 = Some (c, st3) \<and>
     free test_grow b st3 = Some st4 \<and> malloc test_grow 20 st4 = Some (d, st5) \<and> malloc test_grow 20 st5 = Some (e, st6) \<and>
     free test_grow c st6 = Some st7 \<and> malloc test_grow 20 st7 = Some (e, st8) \<and> e \<noteq> 0"
proof -
  note hl = header_len_def
  obtain s1 A where a: "malloc test_grow 100 test_heap = Some (0x100030, s1)" and
    s1: "bounded s1" "heap_base s1 = 0x100000" "heap_size s1 = 0x1000" "start_header s1 = 0x100000" "load_header 0x100000 s1 = Some A"
      "hd_used A = 100" "hd_free A = 3948" "hd_next A = 0" "hd_prev A = 0"
    using first_page by blast
  have f1: "find_fit 300 (start_header s1) s1 = Some 0x100000" using find_fit_step(2) [OF _ s1(5), of 300] s1(4,7) by (simp add: hl)
  obtain s2 where b: "malloc test_grow 300 s1 = Some (0x1000C4, s2)" and
    s2: "bounded s2" "heap_base s2 = 0x100000" "heap_size s2 = 0x1000" "start_header s2 = 0x100000"
      "load_header 0x100000 s2 = Some (A\<lparr>hd_free := 0, hd_next := 0x100094\<rparr>)"
      "load_header 0x100094 s2 = Some \<lparr>hd_next = 0, hd_prev = 0x100000, node_number = node_number A, hd_free = 3600, hd_used = 300, hd_magic = MAGIC\<rparr>"
    using malloc_carves [OF s1(1) f1 _ s1(5) refl, of test_grow] s1 by (auto simp: hl in_heap_def)
  have f2: "find_fit 100 (start_header s2) s2 = Some 0x100094"
    using find_fit_step(1) [OF _ s2(5), of 100] find_fit_step(2) [OF _ s2(6), of 100] s2(4) by (simp add: hl)
  obtain s3 where c: "malloc test_grow 100 s2 = Some (0x100220, s3)" and
    s3: "bounded s3" "heap_base s3 = 0x100000" "heap_size s3 = 0x1000" "start_header s3 = 0x100000"
      "load_header 0x100000 s3 = Some (A\<lparr>hd_free := 0, hd_next := 0x100094\<rparr>)"
      "load_header 0x100094 s3 = Some \<lparr>hd_next = 0x1001F0, hd_prev = 0x100000, node_number = node_number A, hd_free = 0, hd_used = 300, hd_magic = MAGIC\<rparr>"
      "load_header 0x1001F0 s3 = Some \<lparr>hd_next = 0, hd_prev = 0x100094, node_number = node_number A, hd_free = 3452, hd_used = 100, hd_magic = MAGIC\<rparr>"
    using malloc_carves [OF s2(1) f2 _ s2(6) refl, of test_grow] s2 by (auto simp: hl in_heap_def)
  have free_b: "free test_grow 0x1000C4 s3 = free test_grow (0x100094 + header_len) s3" by (simp add: hl)
  obtain s4 where fb: "free test_grow 0x1000C4 s3 = Some s4" and
    s4: "bounded s4" "heap_base s4 = 0x100000" "heap_size s4 = 0x1000" "start_header s4 = 0x100000"
      "load_header 0x100000 s4 = Some (A\<lparr>hd_free := 348, hd_next := 0x1001F0\<rparr>)"
      "load_header 0x1001F0 s4 = Some \<lparr>hd_next = 0, hd_prev = 0x100094, node_number = node_number A, hd_free = 3452, hd_used = 100, hd_magic = MAGIC\<rparr>"
    using free_into_left [OF s3(1,6), of "0x100000" "A\<lparr>hd_free := 0, hd_next := 0x100094\<rparr>" test_grow] s1 s3 unfolding free_b
    by (auto simp: hl)
  have f4: "find_fit 20 (start_header s4) s4 = Some 0x100000" using find_fit_step(2) [OF _ s4(5), of 20] s4(4) by (simp add: hl)
  obtain s5 where d: "malloc test_grow 20 s4 = Some (0x1000C4, s5)" and
    s5: "bounded s5" "heap_base s5 = 0x100000" "heap_size s5 = 0x1000" "start_header s5 = 0x100000"
      "load_header 0x100000 s5 = Some (A\<lparr>hd_free := 0, hd_next := 0x100094\<rparr>)"
      "load_header 0x100094 s5 = Some \<lparr>hd_next = 0x1001F0, hd_prev = 0x100000, node_number = node_number A, hd_free = 280, hd_used = 20, hd_magic = MAGIC\<rparr>"
      "load_header 0x1001F0 s5 = Some \<lparr>hd_next = 0, hd_prev = 0x100094, node_number = node_number A, hd_free = 3452, hd_used = 100, hd_magic = MAGIC\<rparr>"
    using malloc_carves [OF s4(1) f4 _ s4(5) refl, of test_grow] s1 s4 by (auto simp: hl in_heap_def)
  have f5: "find_fit 20 (start_header s5) s5 = Some 0x100094"
    using find_fit_step(1) [OF _ s5(5), of 20] find_fit_step(2) [OF _ s5(6), of 20] s5(4) by (simp add: hl)
  obtain s6 where e: "malloc test_grow 20 s5 = Some (0x100108, s6)" and
    s6: "bounded s6" "heap_base s6 = 0x100000" "heap_size s6 = 0x1000" "start_header s6 = 0x100000"
      "load_header 0x100000 s6 = Some (A\<lparr>hd_free := 0, hd_next := 0x100094\<rparr>)"
      "load_header 0x100094 s6 = Some \<lparr>hd_next = 0x1000D8, hd_prev = 0x100000, node_number = node_number A, hd_free = 0, hd_used = 20, hd_magic = MAGIC\<rparr>"
      "load_header 0x1001F0 s6 = Some \<lparr>hd_next = 0, hd_prev = 0x100094, node_number = node_number A, hd_free = 3452, hd_used = 100, hd_magic = MAGIC\<rparr>"
    using malloc_carves [OF s5(1) f5 _ s5(6) refl, of test_grow] s5 by (auto simp: hl in_heap_def)
  have free_c: "free test_grow 0x100220 s6 = free test_grow (0x1001F0 + header_len) s6" by (simp add: hl)
  obtain s7 where fc: "free test_grow 0x100220 s6 = Some s7" and
    s7: "bounded s7" "heap_base s7 = 0x100000" "heap_size s7 = 0x1000" "start_header s7 = 0x100000"
      "load_header 0x100000 s7 = Some (A\<lparr>hd_free := 0, hd_next := 0x100094\<rparr>)"
      "load_header 0x100094 s7 = Some \<lparr>hd_next = 0, hd_prev = 0x100000, node_number = node_number A, hd_free = 3600, hd_used = 20, hd_magic = MAGIC\<rparr>"
    using free_into_left [OF s6(1,7), of "0x100094" _ test_grow, OF _ _ _ _ _ s6(6)] s1 s6 unfolding free_c by (auto simp: hl)
  have f7: "find_fit 20 (start_header s7) s7 = Some 0x100094"
    using find_fit_step(1) [OF _ s7(5), of 20] find_fit_step(2) [OF _ s7(6), of 20] s7(4) by (simp add: hl)
  obtain s8 where "malloc test_grow 20 s7 = Some (0x100108, s8)"
    using malloc_carves [OF s7(1) f7 _ s7(6) refl, of test_grow] s7 by (auto simp: hl in_heap_def)
  with a b c fb d e fc show ?thesis by force
qed

text \<open>The size that is asked for wraps around: a request for nearly the whole address space is granted with one page.\<close>

theorem malloc_size_wraps:
  "\<exists>st h. malloc test_grow 0xFFFFFFFFFFFFFFD8 test_heap = Some (0x100030, st) \<and> heap_size st = 0x1000 \<and>
    load_header 0x100000 st = Some h \<and> hd_used h = 0xFFFFFFFFFFFFFFD8"
proof -
  let ?sz = "0xFFFFFFFFFFFFFFD8 :: u64"
  have pages: "(?sz + header_len) div PAGE_SIZE + 1 = 1" by code_simp
  let ?s = "grown 0x1000 (\<lambda>_. 0) test_heap"
  have s: "bounded ?s" "in_heap 0x100000 48 ?s" "end_header ?s = start_header ?s" "start_header ?s = 0" "heap_base ?s = 0x100000" "heap_size ?s = 0x1000"
    by (simp_all add: bounded_def in_heap_def grown_def test_heap_def)
  have "find_fit ?sz (start_header test_heap) test_heap = Some 0" using test_heap_ok(3) by (simp add: find_fit.simps)
  then have "malloc test_grow ?sz test_heap = alloc_new test_grow ?sz test_heap" by (simp add: malloc_def)
  with link_new [of ?s "0x100000" undefined test_grow ?sz test_heap] s test_pages pages show ?thesis
    by (auto simp: header_len_def)
qed

end
