(* ===== verification/Interrupt.thy ===== *)
theory Interrupt
  imports Ps2 Procs Kprintf
begin

text \<open>
  Interrupts (\<^verbatim>\<open>kernel/cpu/pic.c\<close>, \<^verbatim>\<open>kernel/cpu/idt.c\<close>), the timer and the speaker (\<^verbatim>\<open>kernel/drivers/pit.c\<close>), waiting
  (\<^verbatim>\<open>kernel/lib/kspin.c\<close>) and what the kernel does when it gives up (\<^verbatim>\<open>kernel/lib/panic.c\<close>, \<^verbatim>\<open>kernel/lib/backtrace.c\<close>). The devices behind
  the ports, the interrupt stubs of \<^verbatim>\<open>idt.S\<close> and the layout of the kernel stack are arguments. \<open>None\<close> is an undefined shift, a division by
  zero, an access beyond a table, or a loop that does not end.
\<close>

section \<open>The interrupt controllers\<close>

definition PIC1_COMMAND :: u16 where "PIC1_COMMAND = 0x20"
definition PIC1_DATA :: u16 where "PIC1_DATA = 0x21"
definition PIC2_COMMAND :: u16 where "PIC2_COMMAND = 0xA0"
definition PIC2_DATA :: u16 where "PIC2_DATA = 0xA1"
definition PIC_EOI :: u8 where "PIC_EOI = 0x20"
definition ICW1_ICW4 :: u8 where "ICW1_ICW4 = 0x01"
definition ICW1_INIT :: u8 where "ICW1_INIT = 0x10"
definition ICW4_8086 :: u8 where "ICW4_8086 = 0x01"
definition PIC_REMAP_OFFSET :: u8 where "PIC_REMAP_OFFSET = 0x20"

lemmas pic_ports = PIC1_COMMAND_def PIC1_DATA_def PIC2_COMMAND_def PIC2_DATA_def

definition pic_remap :: "'d ports \<Rightarrow> 'd \<Rightarrow> 'd" where
  "pic_remap io d =
     (let d = io_wait io (outb io PIC1_COMMAND (ICW1_INIT OR ICW1_ICW4) d);
          d = io_wait io (outb io PIC2_COMMAND (ICW1_INIT OR ICW1_ICW4) d);
          d = io_wait io (outb io PIC1_DATA PIC_REMAP_OFFSET d);
          d = io_wait io (outb io PIC2_DATA (PIC_REMAP_OFFSET + 8) d);
          d = io_wait io (outb io PIC1_DATA 4 d);
          d = io_wait io (outb io PIC2_DATA 2 d);
          d = io_wait io (outb io PIC1_DATA ICW4_8086 d);
          d = io_wait io (outb io PIC2_DATA ICW4_8086 d);
          d = outb io PIC1_DATA 0 d
      in outb io PIC2_DATA 0 d)"

text \<open>The port and the number of the line on its controller; \<open>1 << irq\<close> is undefined for a negative or too large number.\<close>

definition pic_line :: "int \<Rightarrow> (u16 \<times> nat) option" where
  "pic_line irq =
     (let (port, line) = (if irq < 8 then (PIC1_DATA, irq) else (PIC2_DATA, irq - 8))
      in if 0 \<le> line \<and> line < 31 then Some (port, nat line) else None)"

definition pic_mask :: "'d ports \<Rightarrow> int \<Rightarrow> 'd \<Rightarrow> 'd option" where
  "pic_mask io irq d = do {
     (port, line) \<leftarrow> pic_line irq;
     let (v, d) = inb io port d;
     Some (outb io port (ucast ((ucast v :: u32) OR push_bit line 1)) d)
   }"

definition pic_unmask :: "'d ports \<Rightarrow> int \<Rightarrow> 'd \<Rightarrow> 'd option" where
  "pic_unmask io irq d = do {
     (port, line) \<leftarrow> pic_line irq;
     let (v, d) = inb io port d;
     Some (outb io port (ucast ((ucast v :: u32) AND NOT (push_bit line 1))) d)
   }"

definition pic_disable :: "'d ports \<Rightarrow> 'd \<Rightarrow> 'd" where
  "pic_disable io d = outb io PIC2_DATA 0xFF (outb io PIC1_DATA 0xFF d)"

definition pic_eoi :: "'d ports \<Rightarrow> int \<Rightarrow> 'd \<Rightarrow> 'd" where
  "pic_eoi io irq d = outb io PIC1_COMMAND PIC_EOI (if irq \<ge> 8 then outb io PIC2_COMMAND PIC_EOI d else d)"

section \<open>The timer and the speaker\<close>

definition PIT_CMD :: u16 where "PIT_CMD = 0x43"
definition SPKR :: u16 where "SPKR = 0x61"
definition PIT_BASE :: u32 where "PIT_BASE = 1193180"
definition CHAN_TIMER :: u8 where "CHAN_TIMER = 0x40"
definition CHAN_SPKR :: u8 where "CHAN_SPKR = 0x42"

text \<open>The devices and the flag of the processor that lets interrupts in.\<close>

record 'd machine =
  devs :: 'd
  int_on :: bool

definition cli :: "'d machine \<Rightarrow> 'd machine" where "cli s = s\<lparr>int_on := False\<rparr>"
definition sti :: "'d machine \<Rightarrow> 'd machine" where "sti s = s\<lparr>int_on := True\<rparr>"

definition out :: "'d ports \<Rightarrow> u16 \<Rightarrow> u8 \<Rightarrow> 'd machine \<Rightarrow> 'd machine" where
  "out io port v s = s\<lparr>devs := outb io port v (devs s)\<rparr>"

definition inp :: "'d ports \<Rightarrow> u16 \<Rightarrow> 'd machine \<Rightarrow> u8 \<times> 'd machine" where
  "inp io port s = (let (v, d) = inb io port (devs s) in (v, s\<lparr>devs := d\<rparr>))"

definition pit_read_freq :: "'d ports \<Rightarrow> u8 \<Rightarrow> 'd machine \<Rightarrow> u32 \<times> 'd machine" where
  "pit_read_freq io chan s =
     (let s = out io PIT_CMD 0x36 (cli s);
          (lo, s) = inp io (ucast chan) s;
          (hi, s) = inp io (ucast chan) s;
          dv = (ucast lo OR push_bit 8 (ucast hi) :: u16)
      in (ucast dv * PIT_BASE, sti s))"

definition pit_set_freq :: "'d ports \<Rightarrow> u8 \<Rightarrow> u32 \<Rightarrow> 'd machine \<Rightarrow> 'd machine option" where
  "pit_set_freq io chan hz s =
     (if hz = 0 then None
      else let dv = (ucast (PIT_BASE div hz) :: u16);
               s = out io PIT_CMD 0x36 (cli s);
               s = out io (ucast chan) (ucast (dv AND 0xFF)) s;
               s = out io (ucast chan) (ucast (drop_bit 8 (dv AND 0xFF00))) s
           in Some (sti s))"

definition spkr_quiet :: "'d ports \<Rightarrow> 'd machine \<Rightarrow> 'd machine" where
  "spkr_quiet io s = (let (reg, s) = inp io SPKR s in out io SPKR (reg AND 0xFC) s)"

definition spkr_play_tone :: "'d ports \<Rightarrow> u32 \<Rightarrow> 'd machine \<Rightarrow> 'd machine option" where
  "spkr_play_tone io hz s =
     (if hz = 0 then Some (spkr_quiet io s)
      else do {
        s \<leftarrow> pit_set_freq io CHAN_SPKR hz s;
        let (reg, s) = inp io SPKR s;
        Some (if reg \<noteq> reg OR 3 then out io SPKR (reg OR 3) s else s)
      })"

section \<open>Waiting\<close>

text \<open>\<open>now\<close> reads the counter of ticks and \<open>int_wait\<close> is what happens up to the next interrupt.\<close>

partial_function (option) kspin_loop :: "('s \<Rightarrow> u64) \<Rightarrow> ('s \<Rightarrow> 's) \<Rightarrow> u64 \<Rightarrow> u64 \<Rightarrow> 's \<Rightarrow> 's option" where
  "kspin_loop now int_wait start ms s = (if now s - start < ms then kspin_loop now int_wait start ms (int_wait s) else Some s)"

definition kspin_milliseconds :: "('s \<Rightarrow> u64) \<Rightarrow> ('s \<Rightarrow> 's) \<Rightarrow> u64 \<Rightarrow> 's \<Rightarrow> 's option" where
  "kspin_milliseconds now int_wait milliseconds s = kspin_loop now int_wait (now s) milliseconds s"

definition kspin_seconds :: "('s \<Rightarrow> u64) \<Rightarrow> ('s \<Rightarrow> 's) \<Rightarrow> u64 \<Rightarrow> 's \<Rightarrow> 's option" where
  "kspin_seconds now int_wait seconds s = kspin_milliseconds now int_wait (seconds * 1000) s"

definition spkr_beep :: "'d ports \<Rightarrow> ('d machine \<Rightarrow> u64) \<Rightarrow> ('d machine \<Rightarrow> 'd machine) \<Rightarrow> 'd machine \<Rightarrow> 'd machine option" where
  "spkr_beep io now int_wait s = do {
     s \<leftarrow> spkr_play_tone io 1000 s;
     s \<leftarrow> kspin_milliseconds now int_wait 100 s;
     Some (spkr_quiet io s)
   }"

text \<open>One round of the loop in which the kernel stays when it has given up.\<close>

definition fatal_round :: "'d ports \<Rightarrow> ('d machine \<Rightarrow> u64) \<Rightarrow> ('d machine \<Rightarrow> 'd machine) \<Rightarrow> 'd machine \<Rightarrow> 'd machine option" where
  "fatal_round io now int_wait s = do {
     s \<leftarrow> spkr_play_tone io 1000 s;
     s \<leftarrow> kspin_milliseconds now int_wait 200 s;
     kspin_milliseconds now int_wait 800 (spkr_quiet io s)
   }"

partial_function (option) fatal_loop :: "'d ports \<Rightarrow> ('d machine \<Rightarrow> u64) \<Rightarrow> ('d machine \<Rightarrow> 'd machine) \<Rightarrow> 'd machine \<Rightarrow> 'd machine option" where
  "fatal_loop io now int_wait s =
     (case fatal_round io now int_wait s of None \<Rightarrow> None | Some s \<Rightarrow> fatal_loop io now int_wait s)"

section \<open>Stack traces\<close>

text \<open>\<open>stk a\<close> is the frame in memory at the address \<open>a\<close>: the pointer to the frame of the caller and the return address.\<close>

definition VALID :: "u64 \<Rightarrow> u64 \<Rightarrow> u64 \<Rightarrow> bool" where
  "VALID kern_stack_start kern_stack_end frame \<longleftrightarrow> frame \<noteq> 0 \<and> kern_stack_start \<le> frame \<and> frame \<le> kern_stack_end"

fun trace :: "u64 \<Rightarrow> u64 \<Rightarrow> (u64 \<Rightarrow> u64 \<times> u64) \<Rightarrow> nat \<Rightarrow> u64 \<Rightarrow> u64 list" where
  "trace lo hi stk 0 frame = []"
| "trace lo hi stk (Suc n) frame = (if VALID lo hi frame then snd (stk frame) # trace lo hi stk n (fst (stk frame)) else [])"

text \<open>The frame that is passed in is overwritten by \<open>rbp\<close>, the frame of \<^verbatim>\<open>backtrace_ex\<close> itself. The result is the number of entries and the
  entries that are written.\<close>

definition backtrace_ex :: "u64 \<Rightarrow> u64 \<Rightarrow> (u64 \<Rightarrow> u64 \<times> u64) \<Rightarrow> u64 \<Rightarrow> nat \<Rightarrow> u64 \<Rightarrow> u64 \<Rightarrow> nat \<times> u64 list" where
  "backtrace_ex lo hi stk rbp len ip bp =
     (let frame = rbp
      in if \<not> VALID lo hi frame then (0, [])
         else let dst = trace lo hi stk (len - 1) frame
              in (1 + length dst, if len > 0 then ip # dst else []))"

definition backtrace :: "u64 \<Rightarrow> u64 \<Rightarrow> (u64 \<Rightarrow> u64 \<times> u64) \<Rightarrow> u64 \<Rightarrow> u64 \<Rightarrow> nat \<Rightarrow> nat \<times> u64 list" where
  "backtrace lo hi stk rbp rbp_ex len = backtrace_ex lo hi stk rbp_ex len (snd (stk rbp)) (fst (stk rbp))"

definition print :: "string \<Rightarrow> va list \<Rightarrow> string \<Rightarrow> string option" where
  "print format args text_before = map_option (\<lambda>(s, _). text_before @ s) (kprintf format args)"

partial_function (option) log_frames :: "u64 \<Rightarrow> u64 \<Rightarrow> (u64 \<Rightarrow> u64 \<times> u64) \<Rightarrow> u64 \<Rightarrow> string \<Rightarrow> string option" where
  "log_frames lo hi stk frame s =
     (if VALID lo hi frame
      then case print (''  %p'' @ [CHR 0x0A]) [VaWord (snd (stk frame))] s of
             None \<Rightarrow> None
           | Some s \<Rightarrow> log_frames lo hi stk (fst (stk frame)) s
      else Some s)"

definition log_backtrace_ex :: "u64 \<Rightarrow> u64 \<Rightarrow> (u64 \<Rightarrow> u64 \<times> u64) \<Rightarrow> u64 \<Rightarrow> u64 \<Rightarrow> string \<Rightarrow> string option" where
  "log_backtrace_ex lo hi stk ip bp s =
     (if \<not> VALID lo hi bp then Some s
      else do {
        s \<leftarrow> print (''  %p'' @ [CHR 0x0A]) [VaWord ip] (s @ ''Stack trace:'' @ [CHR 0x0A]);
        log_frames lo hi stk bp s
      })"

definition log_backtrace :: "u64 \<Rightarrow> u64 \<Rightarrow> (u64 \<Rightarrow> u64 \<times> u64) \<Rightarrow> u64 \<Rightarrow> string \<Rightarrow> string option" where
  "log_backtrace lo hi stk rbp s = log_backtrace_ex lo hi stk (snd (stk rbp)) (fst (stk rbp)) s"

text \<open>What a panic prints before it ends in \<open>fatal_loop\<close>.\<close>

definition panic_message :: "u64 \<Rightarrow> u64 \<Rightarrow> (u64 \<Rightarrow> u64 \<times> u64) \<Rightarrow> u64 \<Rightarrow> u32 \<Rightarrow> string \<Rightarrow> string \<Rightarrow> va list \<Rightarrow> string option" where
  "panic_message lo hi stk rbp line file format args = do {
     s \<leftarrow> print ([CHR 0x0A, CHR 0x0A] @ ''!!! PANIC !!!'' @ [CHR 0x0A]) [] [];
     s \<leftarrow> print (''In file %s at line %d:'' @ [CHR 0x0A]) [VaStr (Some file), VaWord (ucast line)] s;
     s \<leftarrow> print format args s;
     s \<leftarrow> print [CHR 0x0A, CHR 0x0A] [] s;
     log_backtrace lo hi stk rbp s
   }"

definition panic :: "'d ports \<Rightarrow> ('d machine \<Rightarrow> u64) \<Rightarrow> ('d machine \<Rightarrow> 'd machine) \<Rightarrow> 'd machine \<Rightarrow> 'd machine option" where
  "panic io now int_wait s = fatal_loop io now int_wait (cli s)"

section \<open>The table of interrupts\<close>

definition IDT_SIZE :: nat where "IDT_SIZE = 256"
definition GATE_64BIT_INT :: u64 where "GATE_64BIT_INT = 0x0E"
definition GATE_64BIT_TRAP :: u64 where "GATE_64BIT_TRAP = 0x0F"
definition IDT_RING0 :: u64 where "IDT_RING0 = 0x00"
definition IDT_RING3 :: u8 where "IDT_RING3 = 0x60"
definition IDT_PRESENT :: u64 where "IDT_PRESENT = 0x80"
definition EX_PAGE_FAULT :: u64 where "EX_PAGE_FAULT = 0x0E"

record idt_entry =
  isr_low :: u16
  kernel_cs :: u16
  ist :: u8
  idt_flags :: u8
  isr_mid :: u16
  isr_high :: u32
  idt_reserved :: u32

record idtr =
  idtr_size :: u16
  idtr_address :: u64

definition idt_gate :: "(nat \<Rightarrow> u64) \<Rightarrow> nat \<Rightarrow> idt_entry" where
  "idt_gate isr_stub_table vector =
     (let isr = isr_stub_table vector;
          gate_type = (if isr < 0x20 then GATE_64BIT_TRAP else GATE_64BIT_INT);
          flags = (ucast (IDT_PRESENT OR IDT_RING0 OR gate_type) :: u8)
      in \<lparr>isr_low = ucast (isr AND 0xFFFF), kernel_cs = 0x08, ist = 0, idt_flags = (if vector = 0x80 then flags OR IDT_RING3 else flags),
          isr_mid = ucast (drop_bit 16 isr AND 0xFFFF), isr_high = ucast (drop_bit 32 isr AND 0xFFFFFFFF), idt_reserved = 0\<rparr>)"

text \<open>The table and the register that points to it.\<close>

definition idt_init :: "u64 \<Rightarrow> (nat \<Rightarrow> u64) \<Rightarrow> idtr \<times> idt_entry list" where
  "idt_init idt_addr isr_stub_table =
     (\<lparr>idtr_size = ucast (16 * 256 - 1 :: u32), idtr_address = idt_addr\<rparr>, map (idt_gate isr_stub_table) [0..<IDT_SIZE])"

definition EXCEPTIONS :: "string list" where
  "EXCEPTIONS =
     [
      ''Division Error'', ''Debug'', ''NMI'', ''Breakpoint'',
      ''Overflow'', ''BOUND Range Exceeded'', ''Invalid Opcode'', ''Device Not Available'',
      ''Double Fault'', ''Coprocessor Segment Overrun'', ''Invalid TSS'', ''Segment Not Present'',
      ''Stack-Segment Fault'', ''General Protection Fault'', ''Page Fault'', ''Reserved'',
      ''x87 Floating-Point Error'', ''Alignment Check'', ''Machine Check'', ''SIMD Floaing-Point Exception'',
      ''Virtualization Exception'', ''Control Protection Exception'', ''Reserved'', ''Reserved'',
      ''Reserved'', ''Reserved'', ''Reserved'', ''Reserved'',
      ''Hypervisor Injection Exception'', ''VMM Communication Exception'', ''Security Exception'', ''Reserved''
     ]"

text \<open>The dump of the registers. The C types of the format strings decide how many bits are printed.\<close>

definition reg_line :: "string \<Rightarrow> u64 \<Rightarrow> string \<Rightarrow> string option" where
  "reg_line name v s = print (name @ [CHR 0x3A, CHR 0x09] @ ''%#016lx (%lu)'' @ [CHR 0x0A]) [VaWord v, VaWord v] s"

definition seg_line :: "string \<Rightarrow> bool \<Rightarrow> u64 \<Rightarrow> string \<Rightarrow> string option" where
  "seg_line name long v s =
     print (name @ [CHR 0x3A, CHR 0x09] @ (if long then ''%#04lx (%lu) [ DPL=%lu ]'' else ''%#04hx (%hu) [ DPL=%hu ]'') @ [CHR 0x0A])
       [VaWord v, VaWord v, VaWord (v AND 3)] s"

definition flag_names :: "(nat \<times> string) list" where
  "flag_names = [(0, ''CF ''), (2, ''PF ''), (4, ''AF ''), (6, ''ZF ''), (7, ''SF ''), (8, ''TF ''), (9, ''IF ''), (10, ''DF ''), (11, ''OF ''),
     (14, ''NT ''), (15, ''MD ''), (16, ''RF ''), (17, ''VM ''), (18, ''AC ''), (19, ''VIF ''), (20, ''VIP ''), (21, ''ID '')]"

definition print_rflags :: "u64 \<Rightarrow> string \<Rightarrow> string option" where
  "print_rflags rflags s = do {
     s \<leftarrow> print ''rflags: %#016lx (%lu) [ '' [VaWord rflags, VaWord rflags] s;
     s \<leftarrow> (if rflags AND push_bit 12 3 \<noteq> 0 then print ''IOPL=%lu '' [VaWord (drop_bit 12 rflags AND 3)] s else Some s);
     Some (s @ concat (map (\<lambda>(k, name). if rflags AND push_bit k 1 \<noteq> 0 then name else []) flag_names) @ '']'' @ [CHR 0x0A])
   }"

definition cpu_print_regs :: "cpu_regs \<Rightarrow> string \<Rightarrow> string option" where
  "cpu_print_regs r s = do {
     s \<leftarrow> for_each (\<lambda>(name, v). reg_line name v)
       [(''rax'', reg_rax r), (''rbx'', reg_rbx r), (''rcx'', reg_rcx r), (''rdx'', reg_rdx r), (''rsi'', reg_rsi r), (''rdi'', reg_rdi r),
        (''rsp'', reg_rsp r), (''rbp'', reg_rbp r), (''r8'', reg_r8 r), (''r9'', reg_r9 r), (''r10'', reg_r10 r), (''r11'', reg_r11 r),
        (''r12'', reg_r12 r), (''r13'', reg_r13 r), (''r14'', reg_r14 r), (''r15'', reg_r15 r), (''rip'', reg_rip r)] s;
     s \<leftarrow> print_rflags (reg_rflags r) s;
     s \<leftarrow> seg_line ''cs'' True (reg_cs r) s;
     s \<leftarrow> seg_line ''ss'' True (reg_ss r) s;
     s \<leftarrow> for_each (\<lambda>(name, v). seg_line name False (ucast v))
       [(''ds'', reg_ds r), (''es'', reg_es r), (''fs'', reg_fs r), (''gs'', reg_gs r)] s;
     s \<leftarrow> reg_line ''cr3'' (reg_cr3 r) s;
     Some (s @ [CHR 0x0A])
   }"

text \<open>What an exception prints before it ends in \<open>fatal_loop\<close>; \<open>state\<close> are the registers saved on entry.\<close>

definition idt_exception_handler :: "u64 \<Rightarrow> u64 \<Rightarrow> (u64 \<Rightarrow> u64 \<times> u64) \<Rightarrow> u64 \<Rightarrow> cpu_regs \<Rightarrow> u64 \<Rightarrow> u64 \<Rightarrow> string option" where
  "idt_exception_handler lo hi stk cr2 state exception err_code =
     (if \<not> unat exception < length EXCEPTIONS then None
      else do {
        let s = [CHR 0x0A, CHR 0x0A] @ ''!!! EXCEPTION !!!'' @ [CHR 0x0A];
        s \<leftarrow> print (''%#02lX %s'' @ [CHR 0x0A]) [VaWord exception, VaStr (Some (EXCEPTIONS ! unat exception))] s;
        s \<leftarrow> print (''Error code %#lX'' @ [CHR 0x0A]) [VaWord err_code] s;
        s \<leftarrow> (if exception = EX_PAGE_FAULT then print (''Page fault address: %#016lx'' @ [CHR 0x0A]) [VaWord cr2] s else Some s);
        s \<leftarrow> cpu_print_regs state (s @ [CHR 0x0A]);
        log_backtrace_ex lo hi stk (reg_rip state) (reg_rbp state) (s @ [CHR 0x0A])
      })"

section \<open>Entry and handlers\<close>

text \<open>The registers of the last entry; \<open>switch\<close> goes to the memory context of the kernel, if there is one.\<close>

record 'm ikernel = "'m kernel" +
  istate :: "cpu_regs option"

definition isr_save :: "u64 \<Rightarrow> u64 \<Rightarrow> ('m \<Rightarrow> 'm) \<Rightarrow> cpu_regs \<Rightarrow> ('m, 'a) ikernel_scheme \<Rightarrow> ('m, 'a) ikernel_scheme" where
  "isr_save kern_stack_start kern_stack_end switch r st =
     (let st = st\<lparr>memory := switch (memory st), istate := Some r\<rparr>
      in if reg_rsp r \<ge> kern_stack_start \<and> reg_rsp r \<le> kern_stack_end then st
         else case current_pcb st of None \<Rightarrow> st | Some p \<Rightarrow> upd_pcb p (\<lambda>b. b\<lparr>regs := r\<rparr>) st)"

definition idt_pic_eoi :: "'d ports \<Rightarrow> u8 \<Rightarrow> 'd \<Rightarrow> 'd" where
  "idt_pic_eoi io exception d = pic_eoi io (int (unat exception) - int (unat PIC_REMAP_OFFSET)) d"

definition idt_pic_timer :: "('m, 'b) mem_ops_scheme \<Rightarrow> ('m, 'a) kernel_scheme \<Rightarrow> ('m, 'a) kernel_scheme option" where
  "idt_pic_timer ops st = pcb_on_tick ops (st\<lparr>ticks := ticks st + 1\<rparr>)"

definition idt_pic_keyboard :: "'d ports \<Rightarrow> ps2 \<Rightarrow> 'd \<Rightarrow> (ps2 \<times> 'd) option" where
  "idt_pic_keyboard io st d = ps2kb_recv io st d"

definition idt_pic_mouse :: "'d ports \<Rightarrow> ps2 \<Rightarrow> 'd \<Rightarrow> (ps2 \<times> 'd) option" where
  "idt_pic_mouse io st d = ps2mouse_recv io st d"

section \<open>The controllers as devices\<close>

text \<open>One controller, as its data sheet describes it: a command with bit 4 starts the initialisation, the following bytes to the data port are
  the offset of the vectors, the wiring of the cascade and the mode; after that the data port is the mask. The end of an
  interrupt clears the service bit of the highest priority, which is the lowest line.\<close>

record pic8259 =
  vec_off :: u8
  imr :: u8
  in_service :: u8
  icw :: nat
  cascade :: u8

definition pic_command :: "u8 \<Rightarrow> pic8259 \<Rightarrow> pic8259" where
  "pic_command v p =
     (if bit v 4 then p\<lparr>icw := 2, imr := 0, in_service := 0\<rparr>
      else if v = 0x20 then p\<lparr>in_service := in_service p AND (in_service p - 1)\<rparr> else p)"

definition pic_data :: "u8 \<Rightarrow> pic8259 \<Rightarrow> pic8259" where
  "pic_data v p =
     (if icw p = 2 then p\<lparr>vec_off := v AND 0xF8, icw := 3\<rparr>
      else if icw p = 3 then p\<lparr>cascade := v, icw := 4\<rparr>
      else if icw p = 4 then p\<lparr>icw := 0\<rparr>
      else p\<lparr>imr := v\<rparr>)"

text \<open>The pair of controllers at the ports of a machine.\<close>

definition wired :: "'d ports \<Rightarrow> ('d \<Rightarrow> pic8259) \<Rightarrow> ('d \<Rightarrow> pic8259) \<Rightarrow> bool" where
  "wired io master slave \<longleftrightarrow>
     (\<forall>d v. master (outb io 0x20 v d) = pic_command v (master d) \<and> slave (outb io 0x20 v d) = slave d) \<and>
     (\<forall>d v. master (outb io 0x21 v d) = pic_data v (master d) \<and> slave (outb io 0x21 v d) = slave d) \<and>
     (\<forall>d v. slave (outb io 0xA0 v d) = pic_command v (slave d) \<and> master (outb io 0xA0 v d) = master d) \<and>
     (\<forall>d v. slave (outb io 0xA1 v d) = pic_data v (slave d) \<and> master (outb io 0xA1 v d) = master d) \<and>
     (\<forall>d v. master (outb io 0x80 v d) = master d \<and> slave (outb io 0x80 v d) = slave d) \<and>
     (\<forall>d. fst (inb io 0x21 d) = imr (master d) \<and> master (snd (inb io 0x21 d)) = master d \<and> slave (snd (inb io 0x21 d)) = slave d) \<and>
     (\<forall>d. fst (inb io 0xA1 d) = imr (slave d) \<and> master (snd (inb io 0xA1 d)) = master d \<and> slave (snd (inb io 0xA1 d)) = slave d)"

definition test_pics :: "(pic8259 \<times> pic8259) ports" where
  "test_pics = \<lparr>inb = (\<lambda>p d. (if p = 0x21 then imr (fst d) else imr (snd d), d)),
     outb = (\<lambda>p v (m, s). if p = 0x20 then (pic_command v m, s) else if p = 0x21 then (pic_data v m, s)
       else if p = 0xA0 then (m, pic_command v s) else if p = 0xA1 then (m, pic_data v s) else (m, s)),
     inw = (\<lambda>_ d. (0, d)), outw = (\<lambda>_ _ d. d), inl = (\<lambda>_ d. (0, d)), outl = (\<lambda>_ _ d. d)\<rparr>"

lemma test_pics_wired: "wired test_pics fst snd"
  by (simp add: wired_def test_pics_def case_prod_beta)

lemma wired_out:
  assumes "wired io master slave"
  shows "master (outb io 0x20 v d) = pic_command v (master d)" "slave (outb io 0x20 v d) = slave d"
    "master (outb io 0x21 v d) = pic_data v (master d)" "slave (outb io 0x21 v d) = slave d"
    "slave (outb io 0xA0 v d) = pic_command v (slave d)" "master (outb io 0xA0 v d) = master d"
    "slave (outb io 0xA1 v d) = pic_data v (slave d)" "master (outb io 0xA1 v d) = master d"
    "master (outb io 0x80 v d) = master d" "slave (outb io 0x80 v d) = slave d"
    "fst (inb io 0x21 d) = imr (master d)" "master (snd (inb io 0x21 d)) = master d" "slave (snd (inb io 0x21 d)) = slave d"
    "fst (inb io 0xA1 d) = imr (slave d)" "master (snd (inb io 0xA1 d)) = master d" "slave (snd (inb io 0xA1 d)) = slave d"
  using assms by (simp_all add: wired_def)

lemma pic_remap_ready:
  assumes "wired io master slave"
  shows "master (pic_remap io d) = \<lparr>vec_off = 0x20, imr = 0, in_service = 0, icw = 0, cascade = 4\<rparr>"
    "slave (pic_remap io d) = \<lparr>vec_off = 0x28, imr = 0, in_service = 0, icw = 0, cascade = 2\<rparr>"
proof -
  have c: "pic_command 0x11 p = p\<lparr>icw := 2, imr := 0, in_service := 0\<rparr>" for p by (simp add: pic_command_def)
  show "master (pic_remap io d) = \<lparr>vec_off = 0x20, imr = 0, in_service = 0, icw = 0, cascade = 4\<rparr>"
    "slave (pic_remap io d) = \<lparr>vec_off = 0x28, imr = 0, in_service = 0, icw = 0, cascade = 2\<rparr>"
    by (simp_all add: pic_remap_def Let_def io_wait_def pic_ports wired_out [OF assms] ICW1_INIT_def ICW1_ICW4_def PIC_REMAP_OFFSET_def
        ICW4_8086_def c) (simp_all add: pic_data_def)
qed

text \<open>Masking a line changes the bit of that line on its controller and nothing else.\<close>

definition irq_masked :: "('d \<Rightarrow> pic8259) \<Rightarrow> ('d \<Rightarrow> pic8259) \<Rightarrow> nat \<Rightarrow> 'd \<Rightarrow> bool" where
  "irq_masked master slave k d \<longleftrightarrow> (if k < 8 then bit (imr (master d)) k else bit (imr (slave d)) (k - 8))"

lemma mask_bits:
  assumes "j < 8" "l < 8"
  shows "bit (ucast ((ucast (v :: u8) :: u32) OR push_bit l 1) :: u8) j \<longleftrightarrow> bit v j \<or> j = l"
    "bit (ucast ((ucast (v :: u8) :: u32) AND NOT (push_bit l 1)) :: u8) j \<longleftrightarrow> bit v j \<and> j \<noteq> l"
  using assms by (auto simp: bit_simps)

lemma pic_line_port: "k < 16 \<Longrightarrow> pic_line (int k) = Some (if k < 8 then (PIC1_DATA, k) else (PIC2_DATA, k - 8))"
  by (auto simp: pic_line_def)

theorem pic_mask_one_line:
  assumes "wired io master slave" "icw (master d) = 0" "icw (slave d) = 0" "k < 16" "j < 16"
  shows "\<exists>d1 d2. pic_mask io (int k) d = Some d1 \<and> irq_masked master slave j d1 = (j = k \<or> irq_masked master slave j d) \<and>
    pic_unmask io (int k) d = Some d2 \<and> irq_masked master slave j d2 = (j \<noteq> k \<and> irq_masked master slave j d)"
  using assms(2-5) mask_bits [of j k "imr (master d)"] mask_bits [of "j - 8" "k - 8" "imr (slave d)"]
  by (auto simp: pic_mask_def pic_unmask_def pic_line_port irq_masked_def case_prod_beta Let_def pic_ports wired_out [OF assms(1)] pic_data_def)

section \<open>From a line to its handler\<close>

definition gate_target :: "idt_entry \<Rightarrow> u64" where
  "gate_target e = ucast (isr_low e) OR push_bit 16 (ucast (isr_mid e)) OR push_bit 32 (ucast (isr_high e))"

lemma gate_target_isr: "gate_target (idt_gate tbl v) = tbl v"
proof -
  have m: "(0xFFFF :: u64) = mask 16" "(0xFFFFFFFF :: u64) = mask 32" by (simp_all add: mask_eq_exp_minus_1)
  show ?thesis
  proof (rule bit_word_eqI)
    fix n show "bit (gate_target (idt_gate tbl v)) n = bit (tbl v) n" if "n < LENGTH(64)"
      using that unfolding gate_target_def idt_gate_def Let_def m by (cases "n < 16"; cases "n < 32") (auto simp: bit_simps)
  qed
qed

lemma idt_entry_at: "v < 256 \<Longrightarrow> snd (idt_init a tbl) ! v = idt_gate tbl v"
  by (simp add: idt_init_def IDT_SIZE_def)



text \<open>Every entry is an interrupt gate: the type is chosen by the address of the stub and not by the vector, so the exceptions have no trap
  gates.\<close>

theorem idt_has_no_trap_gates:
  assumes "v < 256" "0x20 \<le> isr_stub_table v"
  shows "idt_flags (snd (idt_init a isr_stub_table) ! v) AND 0x0F = 0x0E"
  unfolding idt_entry_at [OF assms(1)] idt_gate_def Let_def using assms(2)
  by (cases "v = 0x80") (simp_all add: leD IDT_PRESENT_def IDT_RING0_def IDT_RING3_def GATE_64BIT_INT_def)

section \<open>Waiting ends\<close>

lemma kspin_loop_steps:
  assumes tick: "\<And>s. now (int_wait s) = now s + 1" and "now s = start + of_nat i" "i \<le> unat ms"
  shows "kspin_loop now int_wait start ms s = Some ((int_wait ^^ (unat ms - i)) s)"
  using assms(2,3)
proof (induction "unat ms - i" arbitrary: i s)
  case 0
  then have "now s - start = ms" by (metis add_diff_cancel_left' diff_is_0_eq le_antisym of_nat_unat ucast_id)
  then show ?case using 0 by (simp add: kspin_loop.simps)
next
  case (Suc n)
  then have i: "i < unat ms" by simp
  then have "now s - start = of_nat i" "(of_nat i :: u64) < ms"
    using Suc.prems(1) unat_lt64 [of ms] by (simp_all add: word_less_nat_alt unat_of_nat64)
  then have "kspin_loop now int_wait start ms s = kspin_loop now int_wait start ms (int_wait s)" by (subst kspin_loop.simps) simp
  also have "\<dots> = Some ((int_wait ^^ (unat ms - Suc i)) (int_wait s))"
    using Suc.hyps(2) i Suc.prems(1) by (intro Suc.hyps(1)) (simp_all add: tick)
  also have "(int_wait ^^ (unat ms - Suc i)) (int_wait s) = (int_wait ^^ (unat ms - i)) s"
    using i by (simp add: Suc_diff_Suc [symmetric] funpow_swap1)
  finally show ?case .
qed

text \<open>Waiting ends, and after the right time: when every interrupt adds one tick, \<open>kspin_milliseconds\<close> returns after exactly as many
  interrupts as milliseconds were asked for, also when the counter of ticks wraps around meanwhile.\<close>

theorem kspin_waits:
  assumes "\<And>s. now (int_wait s) = now s + 1"
  shows "kspin_milliseconds now int_wait ms s = Some ((int_wait ^^ unat ms) s)"
  unfolding kspin_milliseconds_def using kspin_loop_steps [of now int_wait s "now s" 0 ms] assms by simp

theorem kspin_waits_witness: "kspin_milliseconds (\<lambda>s. s) (\<lambda>s. s + 1) 5 0xFFFFFFFFFFFFFFFE = Some (3 :: u64)"
proof -
  have "(((\<lambda>s. s + 1) ^^ n) w :: u64) = w + of_nat n" for n w by (induction n) (simp_all add: algebra_simps)
  then show ?thesis using kspin_waits [of "\<lambda>s. s" "\<lambda>s. s + 1" 5 "0xFFFFFFFFFFFFFFFE"] by simp
qed

section \<open>The divisor of the timer\<close>

text \<open>The two bytes sent for a frequency are the divisor, as long as it fits in them: from 19 Hz on.\<close>

theorem pit_set_freq_divisor:
  assumes "19 \<le> hz"
  shows "\<exists>lo hi. pit_set_freq io chan hz s = Some (sti (out io (ucast chan) hi (out io (ucast chan) lo (out io PIT_CMD 0x36 (cli s))))) \<and>
    unat lo + 256 * unat hi = 1193180 div unat hz"
proof -
  define q where "q = PIT_BASE div hz"
  define w where "w = (ucast q :: u16)"
  have h: "19 \<le> unat hz" using assms by (simp add: word_le_nat_alt)
  have uq: "unat q = 1193180 div unat hz" by (simp add: q_def unat_div PIT_BASE_def)
  have "1193180 div unat hz \<le> 1193180 div 19" using h by (intro div_le_mono2) simp_all
  then have "unat q < 65536" using uq by simp
  then have w: "unat w = unat q" by (simp add: w_def unsigned_ucast_eq take_bit_eq_mod)
  have lo: "unat (ucast (w AND 0xFF) :: u8) = unat w mod 256"
  proof -
    have "w AND 0xFF = w AND mask 8" by (simp add: mask_eq_exp_minus_1)
    then have "ucast (w AND 0xFF) = (ucast w :: u8)" by (auto intro!: bit_word_eqI simp: bit_simps)
    then show ?thesis by (simp add: unsigned_ucast_eq take_bit_eq_mod)
  qed
  have hi: "unat (ucast (drop_bit 8 (w AND 0xFF00)) :: u8) = unat w div 256"
  proof -
    have m: "(0xFF00 :: u16) = push_bit 8 (mask 8)" by (simp add: mask_eq_exp_minus_1)
    have "n < 8" if "bit w (8 + n)" for n using bit_imp_le_length [OF that] by simp
    then have "drop_bit 8 (w AND 0xFF00) = drop_bit 8 w" unfolding m by (auto intro!: bit_word_eqI simp: bit_simps)
    moreover have "unat w div 256 < 256" using unsigned_less [of w, where ?'a = nat] by (simp add: less_mult_imp_div_less)
    ultimately show ?thesis by (simp add: unsigned_ucast_eq take_bit_eq_mod drop_bit_eq_div unat_div)
  qed
  have "hz \<noteq> 0" using h by auto
  then have "pit_set_freq io chan hz s = Some (sti (out io (ucast chan) (ucast (drop_bit 8 (w AND 0xFF00)))
      (out io (ucast chan) (ucast (w AND 0xFF)) (out io PIT_CMD 0x36 (cli s)))))"
    by (simp add: pit_set_freq_def Let_def w_def q_def)
  moreover have "unat (ucast (w AND 0xFF) :: u8) + 256 * unat (ucast (drop_bit 8 (w AND 0xFF00)) :: u8) = 1193180 div unat hz"
    unfolding lo hi using w uq by simp
  ultimately show ?thesis by blast
qed

text \<open>A panic lets interrupts in again: the first tone it plays sets the frequency of the speaker, which ends with \<open>sti\<close>.\<close>

theorem panic_lets_interrupts_in:
  "\<exists>s'. spkr_play_tone io 1000 (cli s) = Some s' \<and> int_on s'"
  by (simp add: spkr_play_tone_def pit_set_freq_def Let_def inp_def case_prod_beta sti_def out_def)

section \<open>Saved registers\<close>

text \<open>On entry from a user program the registers go to the block of the running process and to nobody else's, and on entry from the
  kernel no process is touched; queues, table and the running process stay.\<close>

theorem isr_save_keeps_processes:
  "current_pcb (isr_save lo hi switch r st) = current_pcb st \<and> ready_queue (isr_save lo hi switch r st) = ready_queue st \<and>
   ticks (isr_save lo hi switch r st) = ticks st \<and> istate (isr_save lo hi switch r st) = Some r \<and>
   (\<forall>q. ptable (isr_save lo hi switch r st) q =
     (if current_pcb st = Some q \<and> (reg_rsp r < lo \<or> hi < reg_rsp r) then (ptable st q)\<lparr>regs := r\<rparr> else ptable st q))"
  unfolding isr_save_def Let_def by (auto simp: upd_pcb_def not_le not_less split: option.split)

section \<open>Stack traces\<close>

lemma trace_length: "length (trace lo hi stk n frame) \<le> n"
  by (induction n arbitrary: frame) auto

text \<open>A trace never writes beyond its buffer, and it starts from the frame of \<open>backtrace_ex\<close> itself, whatever frame it is given.\<close>

theorem backtrace_bounded:
  "length (snd (backtrace_ex lo hi stk rbp len ip bp)) \<le> len \<and> backtrace_ex lo hi stk rbp len ip bp = backtrace_ex lo hi stk rbp len ip bp'"
  using trace_length [of lo hi stk "len - 1" rbp] by (auto simp: backtrace_ex_def Let_def)

text \<open>The trace that is printed has no such bound: a frame that names itself as its caller is printed for ever.\<close>

theorem log_backtrace_loops:
  assumes "VALID lo hi frame" "stk frame = (frame, ip)"
  shows "log_frames lo hi stk frame s = None"
proof -
  let ?here = "\<lambda>lo' hi' stk' f. lo' = lo \<and> hi' = hi \<and> stk' = stk \<and> f = frame"
  have "\<not> ?here lo hi stk frame" if "log_frames lo hi stk frame s = Some r" for r
    using _ that
  proof (rule log_frames.raw_induct [of "\<lambda>lo' hi' stk' f s r. \<not> ?here lo' hi' stk' f"])
    fix rec lo' hi' stk' f s r
    assume IH: "\<And>lo' hi' stk' f s r. rec lo' hi' stk' f s = Some r \<Longrightarrow> \<not> ?here lo' hi' stk' f"
      and eq: "(if VALID lo' hi' f then case print (''  %p'' @ [CHR 0x0A]) [VaWord (snd (stk' f))] s of
          None \<Rightarrow> None | Some s \<Rightarrow> rec lo' hi' stk' (fst (stk' f)) s else Some s) = Some r"
    show "\<not> ?here lo' hi' stk' f"
    proof
      assume h: "?here lo' hi' stk' f"
      then obtain s' where "rec lo hi stk frame s' = Some r" using eq assms by (auto split: option.splits)
      then show False using IH by blast
    qed
  qed
  then show ?thesis by (cases "log_frames lo hi stk frame s") auto
qed

end
