(* ===== verification/Cpu.thy ===== *)
theory Cpu
  imports Interrupt User
begin

text \<open>
  The set-up of the processor (\<^verbatim>\<open>kernel/cpu/cpu.c\<close>) and its task state segment (\<^verbatim>\<open>kernel/cpu/tss.c\<close>). The instruction \<^verbatim>\<open>cpuid\<close> is an
  argument; of the registers that other instructions set, the control registers, the control word of the floating point unit and the
  extended control register are kept.
\<close>

section \<open>Task state segment\<close>

record sys_seg_descriptor =
  limit0_15 :: u16
  base0_15 :: u16
  base16_23 :: u8
  seg_type :: "4 word"
  DPL :: "2 word"
  seg_present :: "1 word"
  limit16_19 :: "4 word"
  available :: "1 word"
  gran :: "1 word"
  base24_31 :: u8
  base32_63 :: u32

record tss =
  rsp0 :: u64
  rsp1 :: u64
  rsp2 :: u64
  ists :: "u64 list"
  iopb :: u16

definition sizeof_tss :: u64 where "sizeof_tss = 104"
definition sizeof_interrupt_stack :: u64 where "sizeof_interrupt_stack = PAGE_SIZE * 2"

definition tss_init :: "u64 \<Rightarrow> u64 \<Rightarrow> tss \<times> sys_seg_descriptor" where
  "tss_init tss_addr interrupt_stack =
     (let base = tss_addr;
          limit = sizeof_tss - 1
      in (\<lparr>rsp0 = interrupt_stack + sizeof_interrupt_stack, rsp1 = 0, rsp2 = 0, ists = replicate 7 0, iopb = 0\<rparr>,
          \<lparr>limit0_15 = ucast (limit AND 0xFFFF), base0_15 = ucast (base AND 0xFFFF), base16_23 = ucast (drop_bit 16 base AND 0xFF),
           seg_type = 0x9, DPL = 0, seg_present = 1, limit16_19 = ucast (drop_bit 16 limit AND 0xF), available = 0, gran = 0,
           base24_31 = ucast (drop_bit 24 base AND 0xFF), base32_63 = ucast (drop_bit 32 base AND 0xFFFFFFFF)\<rparr>))"

definition tss_set_stack :: "u64 \<Rightarrow> tss \<Rightarrow> tss" where
  "tss_set_stack stack t = t\<lparr>rsp0 := stack\<rparr>"

section \<open>Features\<close>

record cpu_feat =
  fpu :: bool
  mmx :: bool
  sse :: bool
  sse2 :: bool
  sse3 :: bool
  ssse3 :: bool
  sse41 :: bool
  sse42 :: bool
  sse4a :: bool
  avx :: bool
  xsave :: bool
  avx2 :: bool
  avx512 :: bool

type_synonym cpuid_fun = "u32 \<Rightarrow> u32 \<Rightarrow> u32 \<times> u32 \<times> u32 \<times> u32"

definition cpu_feats :: "cpuid_fun \<Rightarrow> cpu_feat" where
  "cpu_feats cpuid =
     (let (_, _, ecx_1, edx_1) = cpuid 1 0;
          (_, ebx_7, _, _) = cpuid 7 0
      in \<lparr>fpu = edx_1 AND push_bit 0 1 \<noteq> 0, mmx = edx_1 AND push_bit 23 1 \<noteq> 0, sse = edx_1 AND push_bit 25 1 \<noteq> 0,
          sse2 = edx_1 AND push_bit 26 1 \<noteq> 0, sse3 = ecx_1 AND push_bit 0 1 \<noteq> 0, ssse3 = ecx_1 AND push_bit 9 1 \<noteq> 0,
          sse41 = ecx_1 AND push_bit 19 1 \<noteq> 0, sse42 = ecx_1 AND push_bit 20 1 \<noteq> 0, sse4a = ecx_1 AND push_bit 6 1 \<noteq> 0,
          avx = ecx_1 AND push_bit 28 1 \<noteq> 0, xsave = ecx_1 AND push_bit 26 1 \<noteq> 0, avx2 = ebx_7 AND push_bit 5 1 \<noteq> 0,
          avx512 = ebx_7 AND push_bit 16 7 \<noteq> 0\<rparr>)"

definition reg_bytes :: "u32 \<Rightarrow> string" where
  "reg_bytes w = map (\<lambda>b. char_of (unat b)) (le_bytes 4 w)"

definition cpu_vendor :: "cpuid_fun \<Rightarrow> string" where
  "cpu_vendor cpuid = (let (_, ebx, ecx, edx) = cpuid 0 0 in reg_bytes ebx @ reg_bytes edx @ reg_bytes ecx)"

definition cpu_name :: "cpuid_fun \<Rightarrow> string" where
  "cpu_name cpuid = concat (map (\<lambda>leaf. let (eax, ebx, ecx, edx) = cpuid leaf 0 in reg_bytes eax @ reg_bytes ebx @ reg_bytes ecx @ reg_bytes edx)
     [0x80000002, 0x80000003, 0x80000004])"

definition feat_names :: "cpu_feat \<Rightarrow> (bool \<times> string) list" where
  "feat_names f = [(fpu f, '' FPU''), (mmx f, '' MMX''), (sse f, '' SSE''), (sse2 f, '' SSE2''), (sse3 f, '' SSE3''), (ssse3 f, '' SSSE3''),
     (sse41 f, '' SSE4.1''), (sse42 f, '' SSE4.2''), (sse4a f, '' SSE4a''), (avx f, '' AVX''), (xsave f, '' XSAVE''), (avx2 f, '' AVX2''),
     (avx512 f, '' AVX-512'')]"

definition cpu_report :: "cpuid_fun \<Rightarrow> string \<Rightarrow> string option" where
  "cpu_report cpuid s = do {
     s \<leftarrow> print (''CPU'' @ [CHR 0x0A]) [] s;
     s \<leftarrow> print (''Name: %.*s'' @ [CHR 0x0A]) [VaWord 48, VaStr (Some (cpu_name cpuid))] s;
     s \<leftarrow> print (''Vendor: %.*s'' @ [CHR 0x0A]) [VaWord 12, VaStr (Some (cpu_vendor cpuid))] s;
     Some (s @ ''Features:'' @ concat (map (\<lambda>(has, name). if has then name else []) (feat_names (cpu_feats cpuid))) @ [CHR 0x0A, CHR 0x0A])
   }"

section \<open>Initialisation\<close>

record 'd cpu = "'d machine" +
  cr0 :: u64
  cr4 :: u64
  xcr0 :: u64
  fpu_cw :: u16
  fx_saved :: bool
  idt_reg :: idtr
  idt :: "idt_entry list"
  task :: tss
  gdt_tss :: sys_seg_descriptor

definition fpu_init :: "'d cpu \<Rightarrow> 'd cpu" where
  "fpu_init c = c\<lparr>cr4 := cr4 c OR 0x200, fpu_cw := 0x37F\<rparr>"

definition sse_init :: "'d cpu \<Rightarrow> 'd cpu" where
  "sse_init c = c\<lparr>cr0 := (cr0 c AND NOT 0x4) OR 0x2, cr4 := cr4 c OR push_bit 9 1 OR push_bit 10 1\<rparr>"

definition fxsave_init :: "'d cpu \<Rightarrow> 'd cpu" where
  "fxsave_init c = c\<lparr>fx_saved := True\<rparr>"

definition xsave_init :: "'d cpu \<Rightarrow> 'd cpu" where
  "xsave_init c = c\<lparr>cr4 := cr4 c OR push_bit 18 1\<rparr>"

definition avx_init :: "'d cpu \<Rightarrow> 'd cpu" where
  "avx_init c = c\<lparr>xcr0 := xcr0 c OR 7\<rparr>"

definition cpu_init :: "'d ports \<Rightarrow> cpuid_fun \<Rightarrow> u64 \<Rightarrow> (nat \<Rightarrow> u64) \<Rightarrow> u64 \<Rightarrow> u64 \<Rightarrow> 'd cpu \<Rightarrow> 'd cpu" where
  "cpu_init io cpuid idt_addr isr_stub_table tss_addr interrupt_stack c =
     (let feats = cpu_feats cpuid;
          c = c\<lparr>int_on := False\<rparr>;
          (r, tbl) = idt_init idt_addr isr_stub_table;
          c = c\<lparr>idt_reg := r, idt := tbl\<rparr>;
          (t, seg) = tss_init tss_addr interrupt_stack;
          c = c\<lparr>task := t, gdt_tss := seg\<rparr>;
          c = c\<lparr>devs := pic_remap io (devs c)\<rparr>;
          c = (if fpu feats then fpu_init c else c);
          c = (if sse feats then fxsave_init (sse_init c) else c)
      in if xsave feats then let c = xsave_init c in if avx feats then avx_init c else c else c)"

section \<open>The descriptor the processor reads\<close>

definition seg_base :: "sys_seg_descriptor \<Rightarrow> u64" where
  "seg_base g = ucast (base0_15 g) OR push_bit 16 (ucast (base16_23 g)) OR push_bit 24 (ucast (base24_31 g)) OR push_bit 32 (ucast (base32_63 g))"

definition seg_limit :: "sys_seg_descriptor \<Rightarrow> u64" where
  "seg_limit g = ucast (limit0_15 g) OR push_bit 16 (ucast (limit16_19 g))"

lemma tss_descriptor:
  "seg_base (snd (tss_init a k)) = a" "seg_limit (snd (tss_init a k)) = 103"
proof -
  have m: "(0xFFFF :: u64) = mask 16" "(0xFF :: u64) = mask 8" "(0xFFFFFFFF :: u64) = mask 32" by (simp_all add: mask_eq_exp_minus_1)
  show "seg_base (snd (tss_init a k)) = a"
  proof (rule bit_word_eqI)
    fix n show "bit (seg_base (snd (tss_init a k))) n = bit a n" if "n < LENGTH(64)"
      using that unfolding seg_base_def tss_init_def Let_def snd_conv sys_seg_descriptor.select_convs m
      by (cases "n < 16"; cases "n < 24"; cases "n < 32") (auto simp: bit_simps)
  qed
  show "seg_limit (snd (tss_init a k)) = 103" by (simp add: seg_limit_def tss_init_def sizeof_tss_def)
qed

text \<open>After \<open>cpu_init\<close> the processor is ready for interrupts and has let none in yet: the task segment it is given lies at the address of
  the structure, has its size, is present and for the kernel only, and its stack is the end of the interrupt stack; the controllers map their
  lines behind the exceptions; every gate leads to the stub of its vector, and only that of the system calls is open to user programs. The
  vector units are switched on exactly when the processor has them.\<close>

theorem cpu_init_ready:
  assumes "wired io master slave" "v < 256" "cr4 c = 0" "c' = cpu_init io cpuid idt_addr isr_stub_table tss_addr interrupt_stack c"
  shows "\<not> int_on c' \<and> seg_base (gdt_tss c') = tss_addr \<and> seg_limit (gdt_tss c') = 103 \<and> seg_present (gdt_tss c') = 1 \<and> DPL (gdt_tss c') = 0 \<and>
    rsp0 (task c') = interrupt_stack + 8192 \<and>
    vec_off (master (devs c')) = 0x20 \<and> vec_off (slave (devs c')) = 0x28 \<and> idtr_address (idt_reg c') = idt_addr \<and>
    gate_target (idt c' ! v) = isr_stub_table v \<and> bit (idt_flags (idt c' ! v)) 6 = (v = 0x80) \<and>
    bit (cr4 c') 9 = (fpu (cpu_feats cpuid) \<or> sse (cpu_feats cpuid)) \<and> bit (cr4 c') 18 = xsave (cpu_feats cpuid)"
proof -
  have t: "snd (tss_init tss_addr interrupt_stack) = gdt_tss c'" "fst (tss_init tss_addr interrupt_stack) = task c'"
      "idt c' = snd (idt_init idt_addr isr_stub_table)" "idt_reg c' = fst (idt_init idt_addr isr_stub_table)" "devs c' = pic_remap io (devs c)" "\<not> int_on c'"
    unfolding assms(4) cpu_init_def Let_def case_prod_beta by (simp_all add: fpu_init_def sse_init_def fxsave_init_def xsave_init_def avx_init_def)
  have "seg_present (gdt_tss c') = 1" "DPL (gdt_tss c') = 0" "rsp0 (task c') = interrupt_stack + 8192" "idtr_address (idt_reg c') = idt_addr"
    unfolding t(1,2) [symmetric] t(4) by (simp_all add: tss_init_def Let_def sizeof_interrupt_stack_def PAGE_SIZE_def idt_init_def)
  moreover have "gate_target (idt c' ! v) = isr_stub_table v" unfolding t(3) idt_entry_at [OF assms(2)] by (rule gate_target_isr)
  moreover have "bit (idt_flags (idt c' ! v)) 6 = (v = 0x80)"
    unfolding t(3) idt_entry_at [OF assms(2)]
    by (cases "isr_stub_table v < 0x20"; cases "v = 0x80")
       (simp_all add: idt_gate_def Let_def IDT_PRESENT_def IDT_RING0_def IDT_RING3_def GATE_64BIT_TRAP_def GATE_64BIT_INT_def)
  moreover have "bit (cr4 c') 9 = (fpu (cpu_feats cpuid) \<or> sse (cpu_feats cpuid))" "bit (cr4 c') 18 = xsave (cpu_feats cpuid)"
    unfolding assms(4) cpu_init_def Let_def case_prod_beta using assms(3)
    by (simp_all add: fpu_init_def sse_init_def fxsave_init_def xsave_init_def avx_init_def bit_simps)
  ultimately show ?thesis using t(5,6) tss_descriptor [of tss_addr interrupt_stack, unfolded t(1)] pic_remap_ready [OF assms(1), of "devs c"] by simp
qed

definition test_cpu :: "(pic8259 \<times> pic8259) cpu" where
  "test_cpu = \<lparr>devs = (\<lparr>vec_off = 0, imr = 0xFF, in_service = 0, icw = 0, cascade = 0\<rparr>, \<lparr>vec_off = 0, imr = 0xFF, in_service = 0, icw = 0, cascade = 0\<rparr>),
     int_on = True, cr0 = 0, cr4 = 0, xcr0 = 0, fpu_cw = 0, fx_saved = False, idt_reg = \<lparr>idtr_size = 0, idtr_address = 0\<rparr>, idt = [],
     task = fst (tss_init 0 0), gdt_tss = snd (tss_init 0 0)\<rparr>"

definition test_cpuid :: cpuid_fun where
  "test_cpuid leaf sub = (if leaf = 1 then (0, 0, 0x04000000, 0x02000001) else (0, 0, 0, 0))"

theorem cpu_init_ready_witness:
  "let c' = cpu_init test_pics test_cpuid 0x1000 (\<lambda>v. of_nat v * 16 + 0x100000) 0x2000 0x3000 test_cpu
   in \<not> int_on c' \<and> seg_base (gdt_tss c') = 0x2000 \<and> rsp0 (task c') = 0x5000 \<and> vec_off (fst (devs c')) = 0x20 \<and>
      gate_target (idt c' ! 14) = 0x1000E0 \<and> bit (cr4 c') 9 \<and> bit (cr4 c') 18"
proof -
  have f: "fpu (cpu_feats test_cpuid)" "xsave (cpu_feats test_cpuid)" by (simp_all add: cpu_feats_def test_cpuid_def Let_def)
  have c: "cr4 test_cpu = 0" by (simp add: test_cpu_def)
  show ?thesis
    using cpu_init_ready [OF test_pics_wired _ c refl, of 14 test_cpuid "0x1000" "\<lambda>v. of_nat v * 16 + 0x100000" "0x2000" "0x3000"] f
    by (simp add: Let_def)
qed

end
