(* ===== verification/Acpi.thy ===== *)
theory Acpi
  imports Interrupt User
begin

text \<open>
  The tables of the firmware (\<^verbatim>\<open>kernel/drivers/acpi.c\<close>). They are read through the mappings of the kernel: \<open>kmap a len\<close> is the virtual
  address at which \<open>len\<close> bytes from the physical address \<open>a\<close> are mapped, 0 when there is no room, and \<open>m\<close> are the bytes at the virtual
  addresses. A table may name further tables; they are loaded before the tables that follow. A panic, an access through
  a null pointer and tables that name each other without end are \<open>None\<close>.
\<close>

section \<open>State\<close>

record acpi_state =
  a_sdt :: u64
  a_fadt :: u64
  a_dsdt :: u64
  a_apic :: u64
  a_hept :: u64
  a_waet :: u64
  a_version :: u8
  SLP_TYPa :: u16
  SLP_TYPb :: u16
  SLP_EN :: u16
  SCI_EN :: u16

definition acpi_zero :: acpi_state where
  "acpi_zero = \<lparr>a_sdt = 0, a_fadt = 0, a_dsdt = 0, a_apic = 0, a_hept = 0, a_waet = 0, a_version = 0, SLP_TYPa = 0, SLP_TYPb = 0, SLP_EN = 0, SCI_EN = 0\<rparr>"

definition mem32 :: "bytes \<Rightarrow> u64 \<Rightarrow> u32" where "mem32 m a = of_le (get_bytes m a 4)"
definition mem64 :: "bytes \<Rightarrow> u64 \<Rightarrow> u64" where "mem64 m a = of_le (get_bytes m a 8)"

text \<open>The fields of the tables that are read.\<close>

definition sizeof_acpi_header :: u64 where "sizeof_acpi_header = 36"
definition h_signature :: "bytes \<Rightarrow> u64 \<Rightarrow> u32" where "h_signature m t = mem32 m t"
definition h_length :: "bytes \<Rightarrow> u64 \<Rightarrow> u32" where "h_length m t = mem32 m (t + 4)"
definition fadt_dsdt :: "bytes \<Rightarrow> u64 \<Rightarrow> u32" where "fadt_dsdt m t = mem32 m (t + 40)"
definition fadt_smi_command_port :: "bytes \<Rightarrow> u64 \<Rightarrow> u32" where "fadt_smi_command_port m t = mem32 m (t + 48)"
definition fadt_acpi_enable :: "bytes \<Rightarrow> u64 \<Rightarrow> u8" where "fadt_acpi_enable m t = m (t + 52)"
definition fadt_pm1_a_control_block :: "bytes \<Rightarrow> u64 \<Rightarrow> u32" where "fadt_pm1_a_control_block m t = mem32 m (t + 64)"
definition rsdp_signature :: "bytes \<Rightarrow> u64 \<Rightarrow> u8 list" where "rsdp_signature m t = get_bytes m t 8"
definition rsdp_revision :: "bytes \<Rightarrow> u64 \<Rightarrow> u8" where "rsdp_revision m t = m (t + 15)"
definition rsdp_rsdt_addr :: "bytes \<Rightarrow> u64 \<Rightarrow> u32" where "rsdp_rsdt_addr m t = mem32 m (t + 16)"
definition xsdp_xsdt_addr :: "bytes \<Rightarrow> u64 \<Rightarrow> u64" where "xsdp_xsdt_addr m t = mem64 m (t + 24)"

definition SIG_RSDT :: u32 where "SIG_RSDT = 0x54445352"
definition SIG_XSDT :: u32 where "SIG_XSDT = 0x54445358"
definition SIG_FACP :: u32 where "SIG_FACP = 0x50434146"
definition SIG_DSDT :: u32 where "SIG_DSDT = 0x54445344"
definition SIG_APIC :: u32 where "SIG_APIC = 0x43495041"
definition SIG_HEPT :: u32 where "SIG_HEPT = 0x54455048"
definition SIG_WAET :: u32 where "SIG_WAET = 0x54454157"

lemmas sigs = SIG_RSDT_def SIG_XSDT_def SIG_FACP_def SIG_DSDT_def SIG_APIC_def SIG_HEPT_def SIG_WAET_def

definition checksum :: "bytes \<Rightarrow> u64 \<Rightarrow> nat \<Rightarrow> bool" where
  "checksum m a len \<longleftrightarrow> fold (\<lambda>b s. s + b) (get_bytes m a len) 0 = 0"

section \<open>The sleep states\<close>

text \<open>The search ends at the name or when the counter has run out; the counter is returned with it.\<close>

fun s5_find :: "bytes \<Rightarrow> u64 \<Rightarrow> nat \<Rightarrow> u64 \<times> int" where
  "s5_find m a 0 = (a, -1)"
| "s5_find m a (Suc n) = (if get_bytes m a 4 = [0x5F, 0x53, 0x35, 0x5F] then (a, int n) else s5_find m (a + 1) n)"

definition skip_prefix :: "bytes \<Rightarrow> u64 \<Rightarrow> u64" where
  "skip_prefix m a = (if m a = 0x0A then a + 1 else a)"

definition read_s5_addr :: "bytes \<Rightarrow> u64 \<Rightarrow> acpi_state \<Rightarrow> int \<times> acpi_state" where
  "read_s5_addr m dsdt st =
     (let dsdt_len = sint (ucast (ucast (h_length m dsdt) - sizeof_acpi_header) :: u32);
          (a, left) = s5_find m (dsdt + sizeof_acpi_header) (nat dsdt_len)
      in if left > 0
         then if (m (a - 1) = 0x08 \<or> m (a - 2) = 0x08 \<and> m (a - 1) = 0x5C) \<and> m (a + 4) = 0x12
              then let a = a + 5;
                       a = a + (ucast (drop_bit 6 (m a AND 0xC0)) + 2);
                       a = skip_prefix m a;
                       st = st\<lparr>SLP_TYPa := push_bit 10 (ucast (m a))\<rparr>;
                       a = skip_prefix m (a + 1)
                   in (-1, st\<lparr>SLP_TYPb := push_bit 10 (ucast (m a)), SLP_EN := push_bit 13 1, SCI_EN := 1\<rparr>)
              else (-1, st)
         else (-1, st))"

section \<open>Loading\<close>

text \<open>The number of entries is an int; the first is behind the header.\<close>

definition sdt_entries :: "bytes \<Rightarrow> u64 \<Rightarrow> u64 \<Rightarrow> nat" where
  "sdt_entries m sdt width = nat (sint (ucast ((ucast (h_length m sdt) - sizeof_acpi_header) div width) :: u32))"

definition acpi_load_rsdt_tables :: "bytes \<Rightarrow> u64 \<Rightarrow> u64 list" where
  "acpi_load_rsdt_tables m rsdt = map (\<lambda>i. ucast (mem32 m (rsdt + sizeof_acpi_header + of_nat (4 * i)))) [0..<sdt_entries m rsdt 4]"

definition acpi_load_xsdt_tables :: "bytes \<Rightarrow> u64 \<Rightarrow> u64 list" where
  "acpi_load_xsdt_tables m xsdt = map (\<lambda>i. mem64 m (xsdt + sizeof_acpi_header + of_nat (8 * i))) [0..<sdt_entries m xsdt 8]"

text \<open>What a table changes and the tables it names.\<close>

definition acpi_handle_table :: "bytes \<Rightarrow> u64 \<Rightarrow> acpi_state \<Rightarrow> acpi_state \<times> u64 list" where
  "acpi_handle_table m header st =
     (let sig = h_signature m header
      in if sig = SIG_RSDT then (st\<lparr>a_sdt := header\<rparr>, acpi_load_rsdt_tables m header)
         else if sig = SIG_XSDT then (st\<lparr>a_sdt := header\<rparr>, acpi_load_xsdt_tables m header)
         else if sig = SIG_FACP then (st\<lparr>a_fadt := header\<rparr>, [ucast (fadt_dsdt m header)])
         else if sig = SIG_DSDT then (snd (read_s5_addr m header (st\<lparr>a_dsdt := header\<rparr>)), [])
         else if sig = SIG_APIC then (st\<lparr>a_apic := header\<rparr>, [])
         else if sig = SIG_HEPT then (st\<lparr>a_hept := header\<rparr>, [])
         else if sig = SIG_WAET then (st\<lparr>a_waet := header\<rparr>, [])
         else (st, []))"

definition acpi_load_table :: "bytes \<Rightarrow> (u64 \<Rightarrow> u64 \<Rightarrow> u64) \<Rightarrow> u64 \<Rightarrow> acpi_state \<Rightarrow> (acpi_state \<times> u64 list) option" where
  "acpi_load_table m kmap addr st =
     (let hdr = kmap addr sizeof_acpi_header
      in if hdr = 0 then None
         else let mapped = kmap addr (ucast (h_length m hdr))
              in if mapped = 0 then None
                 else if \<not> checksum m mapped (unat (h_length m mapped)) then Some (st, [])
                 else Some (acpi_handle_table m mapped st))"

partial_function (option) acpi_load_tables :: "bytes \<Rightarrow> (u64 \<Rightarrow> u64 \<Rightarrow> u64) \<Rightarrow> u64 list \<Rightarrow> acpi_state \<Rightarrow> acpi_state option" where
  "acpi_load_tables m kmap todo st =
     (if todo = [] then Some st
      else case acpi_load_table m kmap (hd todo) st of
        None \<Rightarrow> None
      | Some r \<Rightarrow> acpi_load_tables m kmap (snd r @ tl todo) (fst r))"

declare acpi_load_tables.simps [code]

definition acpi_init :: "'d ports \<Rightarrow> bytes \<Rightarrow> (u64 \<Rightarrow> u64 \<Rightarrow> u64) \<Rightarrow> u64 \<Rightarrow> 'd \<Rightarrow> (acpi_state \<times> 'd) option" where
  "acpi_init io m kmap rsdp d =
     (if \<not> checksum m rsdp 20 then None
      else if rsdp_signature m rsdp \<noteq> [0x52, 0x53, 0x44, 0x20, 0x50, 0x54, 0x52, 0x20] then None
      else do {
        st \<leftarrow> (if rsdp_revision m rsdp = 0 then acpi_load_tables m kmap [ucast (rsdp_rsdt_addr m rsdp)] (acpi_zero\<lparr>a_version := 0\<rparr>)
              else if rsdp_revision m rsdp = 2 then acpi_load_tables m kmap [xsdp_xsdt_addr m rsdp] (acpi_zero\<lparr>a_version := 2\<rparr>)
              else None);
        (if a_fadt st = 0 then None
         else Some (st, outb io (ucast (fadt_smi_command_port m (a_fadt st))) (fadt_acpi_enable m (a_fadt st)) d))
      })"

definition report_table :: "bytes \<Rightarrow> u64 \<Rightarrow> string \<Rightarrow> string option" where
  "report_table m t s =
     print (''%.*s: %#016lx'' @ [CHR 0x0A]) [VaWord 4, VaStr (Some (map (\<lambda>b. char_of (unat b)) (get_bytes m t 4))), VaWord t] s"

definition acpi_report :: "bytes \<Rightarrow> acpi_state \<Rightarrow> string \<Rightarrow> string option" where
  "acpi_report m st s = do {
     s \<leftarrow> print ((if a_version st = 0 then ''ACPI 1.0'' else ''ACPI 2.0'') @ [CHR 0x0A]) [] s;
     s \<leftarrow> (if a_sdt st = 0 then None else report_table m (a_sdt st) s);
     s \<leftarrow> for_each (\<lambda>t s. if t \<noteq> 0 then report_table m t s else Some s) [a_fadt st, a_dsdt st, a_apic st, a_hept st, a_waet st] s;
     print [CHR 0x0A] [] s
   }"

text \<open>What the devices get before the panic that follows when the machine is still on.\<close>

definition acpi_shutdown :: "'d ports \<Rightarrow> bytes \<Rightarrow> acpi_state \<Rightarrow> 'd \<Rightarrow> 'd option" where
  "acpi_shutdown io m st d =
     (if a_fadt st = 0 then None
      else Some (outw io (ucast (fadt_pm1_a_control_block m (a_fadt st))) (SLP_TYPb st OR SLP_EN st) d))"

section \<open>Checksums\<close>

lemma checksum_sum: "checksum m a len \<longleftrightarrow> sum_list (get_bytes m a len) = 0"
proof -
  have "fold (\<lambda>b s. s + b) xs s = s + sum_list xs" for xs :: "u8 list" and s by (induction xs arbitrary: s) (auto simp: ac_simps)
  then show ?thesis by (simp add: checksum_def)
qed

lemma sum_list_update_word: "i < length xs \<Longrightarrow> sum_list (xs[i := v]) = sum_list xs - xs ! i + v" for xs :: "u8 list"
  by (induction xs arbitrary: i) (auto split: nat.splits simp: algebra_simps)

lemma get_bytes_update:
  assumes "i < n" "n \<le> 2 ^ 64"
  shows "get_bytes (m(a + of_nat i := v)) a n = (get_bytes m a n)[i := v]"
proof (rule nth_equalityI)
  fix j assume "j < length (get_bytes (m(a + of_nat i := v)) a n)"
  then have j: "j < n" by (simp add: get_bytes_def)
  have "(of_nat j :: u64) = of_nat i \<longleftrightarrow> j = i" using j assms by (metis unat_of_nat64 order_less_le_trans)
  then show "get_bytes (m(a + of_nat i := v)) a n ! j = (get_bytes m a n)[i := v] ! j"
    using j assms by (auto simp: get_bytes_def nth_list_update)
qed (simp add: get_bytes_def)

text \<open>A table with a valid sum has an invalid one after a change of any one byte.\<close>

theorem checksum_detects:
  assumes "checksum m a len" "i < len" "len \<le> 2 ^ 64" "v \<noteq> m (a + of_nat i)"
  shows "\<not> checksum (m(a + of_nat i := v)) a len"
proof -
  have "get_bytes m a len ! i = m (a + of_nat i)" "length (get_bytes m a len) = len" using assms(2) by (simp_all add: get_bytes_def)
  then show ?thesis using assms by (simp add: checksum_sum get_bytes_update sum_list_update_word)
qed

text \<open>Whatever the search for the sleep states finds, it reports a failure.\<close>

theorem read_s5_addr_fails: "fst (read_s5_addr m dsdt st) = -1"
  by (simp add: read_s5_addr_def Let_def split: prod.splits)

section \<open>The walk over the tables\<close>

text \<open>The tables a table names do not depend on what was found before; the walk visits a table and then, one after the other,
  those it names, each with all that it names in turn.\<close>

definition table_names :: "bytes \<Rightarrow> (u64 \<Rightarrow> u64 \<Rightarrow> u64) \<Rightarrow> u64 \<Rightarrow> u64 list" where
  "table_names m kmap t = (case acpi_load_table m kmap t acpi_zero of None \<Rightarrow> [] | Some r \<Rightarrow> snd r)"

definition visit :: "bytes \<Rightarrow> (u64 \<Rightarrow> u64 \<Rightarrow> u64) \<Rightarrow> u64 \<Rightarrow> acpi_state \<Rightarrow> acpi_state" where
  "visit m kmap t st = (case acpi_load_table m kmap t st of None \<Rightarrow> st | Some r \<Rightarrow> fst r)"

fun preorder :: "bytes \<Rightarrow> (u64 \<Rightarrow> u64 \<Rightarrow> u64) \<Rightarrow> nat \<Rightarrow> u64 \<Rightarrow> u64 list" where
  "preorder m kmap 0 t = []"
| "preorder m kmap (Suc n) t = t # concat (map (preorder m kmap n) (table_names m kmap t))"

lemma acpi_handle_table_names: "snd (acpi_handle_table m h st) = snd (acpi_handle_table m h st')"
  by (simp add: acpi_handle_table_def Let_def)

lemma acpi_load_table_visit:
  assumes "acpi_load_table m kmap t acpi_zero \<noteq> None"
  shows "acpi_load_table m kmap t st = Some (visit m kmap t st, table_names m kmap t)"
proof -
  obtain r where r: "acpi_load_table m kmap t acpi_zero = Some r" using assms by blast
  define hd' where "hd' = kmap t (ucast (h_length m (kmap t sizeof_acpi_header)))"
  have "\<exists>st'. acpi_load_table m kmap t st = Some (st', snd r)"
  proof (cases "checksum m hd' (unat (h_length m hd'))")
    case True
    then have "r = acpi_handle_table m hd' acpi_zero" "acpi_load_table m kmap t st = Some (acpi_handle_table m hd' st)"
      using r unfolding acpi_load_table_def Let_def hd'_def [symmetric] by (auto split: if_splits)
    then show ?thesis using acpi_handle_table_names [of m hd' st acpi_zero] by (metis prod.collapse)
  next
    case False
    then show ?thesis using r unfolding acpi_load_table_def Let_def hd'_def [symmetric] by (auto split: if_splits)
  qed
  then obtain st' where "acpi_load_table m kmap t st = Some (st', snd r)" by blast
  then show ?thesis using r unfolding visit_def table_names_def by simp
qed

lemma acpi_load_tables_step:
  assumes "acpi_load_table m kmap t acpi_zero \<noteq> None"
  shows "acpi_load_tables m kmap (t # todo) st = acpi_load_tables m kmap (table_names m kmap t @ todo) (visit m kmap t st)"
  by (subst acpi_load_tables.simps) (simp add: acpi_load_table_visit [OF assms])

lemma acpi_load_tables_done [simp]: "acpi_load_tables m kmap [] st = Some st"
  by (subst acpi_load_tables.simps) simp

lemma acpi_load_tables_preorder:
  assumes closed: "\<And>t u. t \<in> S \<Longrightarrow> u \<in> set (table_names m kmap t) \<Longrightarrow> u \<in> S \<and> r u < (r t :: nat)"
    and mapped: "\<And>t. t \<in> S \<Longrightarrow> acpi_load_table m kmap t acpi_zero \<noteq> None"
  shows "t \<in> S \<Longrightarrow> r t < n \<Longrightarrow> acpi_load_tables m kmap (t # todo) st = acpi_load_tables m kmap todo (fold (visit m kmap) (preorder m kmap n t) st)"
proof (induction n arbitrary: t todo st)
  case (Suc n)
  have many: "set us \<subseteq> set (table_names m kmap t) \<Longrightarrow>
      acpi_load_tables m kmap (us @ todo) st = acpi_load_tables m kmap todo (fold (visit m kmap) (concat (map (preorder m kmap n) us)) st)" for us st
  proof (induction us arbitrary: st)
    case (Cons u us)
    then have "u \<in> S" "r u < n" using closed [of t u] Suc.prems by auto
    then show ?case using Suc.IH Cons by simp
  qed simp
  show ?case using many [of "table_names m kmap t"] by (simp add: acpi_load_tables_step [OF mapped [OF Suc.prems(1)]])
qed simp


text \<open>A root table with one entry, and the table it names.\<close>

definition two_tables :: bytes where
  "two_tables = (\<lambda>_. 0)
     (0x3000 := 0x52, 0x3001 := 0x53, 0x3002 := 0x44, 0x3003 := 0x54, 0x3004 := 40, 0x3009 := 0x4B, 0x3025 := 0x50,
      0x6000 := 0x57, 0x6001 := 0x41, 0x6002 := 0x45, 0x6003 := 0x54, 0x6004 := 9, 0x6008 := 0xC6)"

definition kmap_up :: "u64 \<Rightarrow> u64 \<Rightarrow> u64" where "kmap_up a len = a + 0x1000"

lemma two_tables_root: "acpi_load_table two_tables kmap_up 0x2000 st = Some (st\<lparr>a_sdt := 0x3000\<rparr>, [0x5000])"
proof -
  have "h_length two_tables 0x3000 = 40" "h_signature two_tables 0x3000 = SIG_RSDT" "checksum two_tables 0x3000 40"
    "acpi_load_rsdt_tables two_tables 0x3000 = [0x5000]" by code_simp+
  then show ?thesis by (simp add: acpi_load_table_def Let_def kmap_up_def acpi_handle_table_def)
qed

lemma two_tables_leaf: "acpi_load_table two_tables kmap_up 0x5000 st = Some (st\<lparr>a_waet := 0x6000\<rparr>, [])"
proof -
  have "h_length two_tables 0x6000 = 9" "h_signature two_tables 0x6000 = SIG_WAET" "checksum two_tables 0x6000 9" by code_simp+
  then show ?thesis by (simp add: acpi_load_table_def Let_def kmap_up_def acpi_handle_table_def sigs)
qed


text \<open>A table that names itself is loaded for ever.\<close>

theorem acpi_self_reference:
  assumes "acpi_load_table m kmap t acpi_zero \<noteq> None" "table_names m kmap t = t # us"
  shows "acpi_load_tables m kmap (t # todo) st = None"
proof -
  let ?here = "\<lambda>m' kmap' todo'. m' = m \<and> kmap' = kmap \<and> (\<exists>ws. todo' = t # ws)"
  have "\<not> ?here m kmap (t # todo)" if "acpi_load_tables m kmap (t # todo) st = Some r" for r
    using _ that
  proof (rule acpi_load_tables.raw_induct [of "\<lambda>m' kmap' todo' st r. \<not> ?here m' kmap' todo'"])
    fix rec m' kmap' todo' st r
    assume IH: "\<And>m' kmap' todo' st r. rec m' kmap' todo' st = Some r \<Longrightarrow> \<not> ?here m' kmap' todo'"
      and eq: "(if todo' = [] then Some st
          else case acpi_load_table m' kmap' (hd todo') st of None \<Rightarrow> None | Some r \<Rightarrow> rec m' kmap' (snd r @ tl todo') (fst r)) = Some r"
    show "\<not> ?here m' kmap' todo'"
    proof
      assume h: "?here m' kmap' todo'"
      then obtain ws where ws: "todo' = t # ws" and [simp]: "m' = m" "kmap' = kmap" by blast
      have "rec m kmap (t # us @ ws) (visit m kmap t st) = Some r"
        using eq assms(2) by (simp add: ws acpi_load_table_visit [OF assms(1)])
      from IH [OF this] show False by simp
    qed
  qed
  then show ?thesis by (cases "acpi_load_tables m kmap (t # todo) st") auto
qed

end
