(* ===== verification/Boot.thy ===== *)
theory Boot
  imports Acpi Memory Term
begin

text \<open>
  What the boot loader and the firmware leave for the kernel: the tags of Multiboot 2 (\<^verbatim>\<open>kernel/mboot\<close>) and the memory map and the display
  mode of EFI (\<^verbatim>\<open>kernel/efi\<close>). Both are read from memory that is mapped one to one, \<open>m\<close>; a pointer is its address and \<^verbatim>\<open>NULL\<close> is 0. A
  panic, an access the code must not make and a walk that does not end are \<open>None\<close>. The services of the firmware are an argument.
\<close>

section \<open>Tags\<close>

definition MULTIBOOT2_BOOTLOADER_MAGIC :: u64 where "MULTIBOOT2_BOOTLOADER_MAGIC = 0x36D76289"
definition MULTIBOOT_TAG_TYPE_MODULE :: u32 where "MULTIBOOT_TAG_TYPE_MODULE = 3"
definition MULTIBOOT_TAG_TYPE_MMAP :: u32 where "MULTIBOOT_TAG_TYPE_MMAP = 6"
definition MULTIBOOT_TAG_TYPE_ELF_SECTIONS :: u32 where "MULTIBOOT_TAG_TYPE_ELF_SECTIONS = 9"
definition MULTIBOOT_TAG_TYPE_EFI64 :: u32 where "MULTIBOOT_TAG_TYPE_EFI64 = 12"
definition MULTIBOOT_TAG_TYPE_ACPI_OLD :: u32 where "MULTIBOOT_TAG_TYPE_ACPI_OLD = 14"
definition MULTIBOOT_TAG_TYPE_ACPI_NEW :: u32 where "MULTIBOOT_TAG_TYPE_ACPI_NEW = 15"
definition MULTIBOOT_TAG_TYPE_EFI64_IH :: u32 where "MULTIBOOT_TAG_TYPE_EFI64_IH = 20"

text \<open>The static variables of the files.\<close>

record mboot =
  mb_info :: u64
  mapped_addr :: u64
  initrd_len :: u64
  elf_tag :: u64
  symtab :: u64
  symstrtab :: u64

definition mboot_init :: "u64 \<Rightarrow> u64 \<Rightarrow> mboot \<Rightarrow> mboot option" where
  "mboot_init magic ptr st = (if magic \<noteq> MULTIBOOT2_BOOTLOADER_MAGIC then None else Some (st\<lparr>mb_info := ptr\<rparr>))"

definition tag_total_size :: "bytes \<Rightarrow> u64 \<Rightarrow> u32" where "tag_total_size m info = mem32 m info"
definition tag_type :: "bytes \<Rightarrow> u64 \<Rightarrow> u32" where "tag_type m tag = mem32 m tag"
definition tag_size :: "bytes \<Rightarrow> u64 \<Rightarrow> u32" where "tag_size m tag = mem32 m (tag + 4)"

text \<open>The distance to the next tag: the size as an \<^verbatim>\<open>int\<close>, rounded up to a multiple of 8.\<close>

definition tag_step :: "u32 \<Rightarrow> u64" where
  "tag_step sz =
     (let size = sint sz
      in of_int (if c_rem size 8 \<noteq> 0 then sint (of_int (size + (8 - c_rem size 8)) :: u32) else size))"

partial_function (option) locate_loop :: "bytes \<Rightarrow> u32 \<Rightarrow> u64 \<Rightarrow> u64 \<Rightarrow> u64 option" where
  "locate_loop m ty mboot_end tag_ptr =
     (if tag_ptr < mboot_end
      then if tag_type m tag_ptr = ty then Some tag_ptr
           else locate_loop m ty mboot_end (tag_ptr + tag_step (tag_size m tag_ptr))
      else Some 0)"

declare locate_loop.simps [code]

definition locate_mboot_table :: "bytes \<Rightarrow> mboot \<Rightarrow> u32 \<Rightarrow> u64 option" where
  "locate_mboot_table m st ty =
     (if mb_info st = 0 then Some 0
      else let info = mb_info st
           in locate_loop m ty (info + ucast (tag_total_size m info)) (info + 8))"

section \<open>The contents of the tags\<close>

definition mod_start :: "bytes \<Rightarrow> u64 \<Rightarrow> u32" where "mod_start m tag = mem32 m (tag + 8)"
definition mod_end :: "bytes \<Rightarrow> u64 \<Rightarrow> u32" where "mod_end m tag = mem32 m (tag + 12)"

text \<open>The address, what is left in \<^verbatim>\<open>*len\<close>, and the state.\<close>

definition mboot_get_initrd_phys :: "bytes \<Rightarrow> u64 \<Rightarrow> mboot \<Rightarrow> (u64 \<times> u64 \<times> mboot) option" where
  "mboot_get_initrd_phys m len st =
     (if mapped_addr st \<noteq> 0 then Some (mapped_addr st, initrd_len st, st)
      else do {
        tag \<leftarrow> locate_mboot_table m st MULTIBOOT_TAG_TYPE_MODULE;
        (if tag = 0 then Some (0, len, st)
         else let n = ucast (mod_end m tag - mod_start m tag)
              in Some (ucast (mod_start m tag), n, st\<lparr>initrd_len := n\<rparr>))
      })"

definition mboot_get_initrd :: "(u64 \<Rightarrow> u64 \<Rightarrow> u64) \<Rightarrow> bytes \<Rightarrow> u64 \<Rightarrow> mboot \<Rightarrow> (u64 \<times> u64 \<times> mboot) option" where
  "mboot_get_initrd kmap m len st = do {
     (pa, len, st) \<leftarrow> mboot_get_initrd_phys m len st;
     (if pa = 0 then Some (0, len, st)
      else let va = kmap pa (initrd_len st) in Some (va, len, st\<lparr>mapped_addr := va\<rparr>))
   }"

definition mboot_end :: "bytes \<Rightarrow> mboot \<Rightarrow> (u64 \<times> mboot) option" where
  "mboot_end m st =
     (if mb_info st = 0 then Some (0, st)
      else do {
        let info_end = mb_info st + ucast (tag_total_size m (mb_info st));
        (start, len, st) \<leftarrow> mboot_get_initrd_phys m 0 st;
        let initrd_end = (if start \<noteq> 0 then start + len else start);
        Some (max info_end initrd_end, st)
      })"

definition mboot_get_efi_st :: "bytes \<Rightarrow> mboot \<Rightarrow> u64 option" where
  "mboot_get_efi_st m st = do {
     tag \<leftarrow> locate_mboot_table m st MULTIBOOT_TAG_TYPE_EFI64;
     Some (if tag = 0 then 0 else mem64 m (tag + 8))
   }"

definition mboot_get_efi_hdl :: "bytes \<Rightarrow> mboot \<Rightarrow> u64 option" where
  "mboot_get_efi_hdl m st = do {
     tag \<leftarrow> locate_mboot_table m st MULTIBOOT_TAG_TYPE_EFI64_IH;
     Some (if tag = 0 then 0 else mem64 m (tag + 8))
   }"

definition mboot_get_rsdp :: "bytes \<Rightarrow> mboot \<Rightarrow> u64 option" where
  "mboot_get_rsdp m st = do {
     tag \<leftarrow> locate_mboot_table m st MULTIBOOT_TAG_TYPE_ACPI_NEW;
     (if tag \<noteq> 0 then Some (tag + 8)
      else do {
        tag \<leftarrow> locate_mboot_table m st MULTIBOOT_TAG_TYPE_ACPI_OLD;
        Some (if tag \<noteq> 0 then tag + 8 else 0)
      })
   }"

section \<open>The memory map\<close>

definition N_MMAP_ENTRY :: nat where "N_MMAP_ENTRY = 256"
definition SEG_TYPE_RESERVED :: u32 where "SEG_TYPE_RESERVED = 1"
definition SEG_TYPE_ACPI :: u32 where "SEG_TYPE_ACPI = 2"
definition SEG_TYPE_HIBERNATION :: u32 where "SEG_TYPE_HIBERNATION = 3"
definition SEG_TYPE_DEFECTIVE :: u32 where "SEG_TYPE_DEFECTIVE = 4"

definition mboot_seg_type :: "u32 \<Rightarrow> u32" where
  "mboot_seg_type t =
     (if t = 0 then SEG_TYPE_RESERVED else if t = 1 then SEG_TYPE_FREE else if t = 3 then SEG_TYPE_ACPI
      else if t = 4 then SEG_TYPE_HIBERNATION else if t = 5 then SEG_TYPE_DEFECTIVE else SEG_TYPE_RESERVED)"

definition mboot_segment :: "bytes \<Rightarrow> u64 \<Rightarrow> memory_segment" where
  "mboot_segment m i = \<lparr>seg_addr = mem64 m i, seg_len = mem64 m (i + 8), seg_type = mboot_seg_type (mem32 m (i + 16))\<rparr>"

text \<open>The number counts the entries that are left; an entry more is a panic.\<close>

primrec mmap_loop :: "bytes \<Rightarrow> u64 \<Rightarrow> u64 \<Rightarrow> nat \<Rightarrow> u64 \<Rightarrow> memory_segment list option" where
  "mmap_loop m fin entry_size 0 i = (if i < fin then None else Some [])"
| "mmap_loop m fin entry_size (Suc k) i =
     (if i < fin
      then map_option (\<lambda>ss. mboot_segment m i # ss) (mmap_loop m fin entry_size k (i + entry_size))
      else Some [])"

text \<open>The entries, or \<open>None\<close> for the result 1.\<close>

definition mboot_get_mmap :: "bytes \<Rightarrow> mboot \<Rightarrow> memory_segment list option option" where
  "mboot_get_mmap m st = do {
     tag \<leftarrow> locate_mboot_table m st MULTIBOOT_TAG_TYPE_MMAP;
     (if tag = 0 then Some None
      else let entries = tag + 16
           in map_option Some (mmap_loop m (entries + ucast (tag_size m tag)) (ucast (mem32 m (tag + 8))) N_MMAP_ENTRY entries))
   }"

section \<open>Symbols\<close>

definition SHT_SYMTAB :: u32 where "SHT_SYMTAB = 2"
definition elf_num :: "bytes \<Rightarrow> u64 \<Rightarrow> u32" where "elf_num m elf = mem32 m (elf + 8)"

text \<open>The section headers are aligned to 8 bytes, so they begin 24 bytes into the structure.\<close>

definition elf_section :: "u64 \<Rightarrow> nat \<Rightarrow> u64" where "elf_section elf i = elf + 24 + 64 * of_nat i"
definition shdr_type :: "bytes \<Rightarrow> u64 \<Rightarrow> u32" where "shdr_type m s = mem32 m (s + 4)"
definition shdr_addr :: "bytes \<Rightarrow> u64 \<Rightarrow> u64" where "shdr_addr m s = mem64 m (s + 16)"
definition shdr_size :: "bytes \<Rightarrow> u64 \<Rightarrow> u64" where "shdr_size m s = mem64 m (s + 32)"
definition shdr_link :: "bytes \<Rightarrow> u64 \<Rightarrow> u32" where "shdr_link m s = mem32 m (s + 40)"
definition shdr_entsize :: "bytes \<Rightarrow> u64 \<Rightarrow> u64" where "shdr_entsize m s = mem64 m (s + 56)"
definition elf_st_name :: "bytes \<Rightarrow> u64 \<Rightarrow> u32" where "elf_st_name m s = mem32 m s"
definition elf_st_value :: "bytes \<Rightarrow> u64 \<Rightarrow> u64" where "elf_st_value m s = mem64 m (s + 8)"

definition mboot_get_elf_sec :: "bytes \<Rightarrow> u64 \<Rightarrow> u32 \<Rightarrow> u64" where
  "mboot_get_elf_sec m elf sh_type =
     (case find (\<lambda>i. shdr_type m (elf_section elf i) = sh_type) [0..<unat (elf_num m elf)] of
        None \<Rightarrow> 0 | Some i \<Rightarrow> elf_section elf i)"

definition mboot_load_elf :: "bytes \<Rightarrow> mboot \<Rightarrow> (int \<times> mboot) option" where
  "mboot_load_elf m st = do {
     tag \<leftarrow> locate_mboot_table m st MULTIBOOT_TAG_TYPE_ELF_SECTIONS;
     Some (if tag = 0 then (1, st)
      else let st = st\<lparr>elf_tag := tag, symtab := mboot_get_elf_sec m tag SHT_SYMTAB\<rparr>
           in if symtab st = 0 then (1, st)
              else let st = st\<lparr>symstrtab := mboot_get_elf_sec m tag (shdr_link m (symtab st))\<rparr>
                   in if symstrtab st = 0 then (1, st) else (0, st))
   }"

text \<open>A null pointer, the text of three question marks, or the address of a name.\<close>

datatype sym_name = NullName | UnknownName | NameAt u64

definition better_sym :: "bytes \<Rightarrow> u64 \<Rightarrow> u64 \<Rightarrow> u64 \<Rightarrow> u64" where
  "better_sym m addr s best =
     (if elf_st_value m s < addr then best
      else if best = 0 \<or> elf_st_value m best < elf_st_value m s then s else best)"

text \<open>The index has 32 bits: a table of more entries is walked for ever.\<close>

definition mboot_get_elf_sym :: "bytes \<Rightarrow> u64 \<Rightarrow> mboot \<Rightarrow> (sym_name \<times> mboot) option" where
  "mboot_get_elf_sym m addr st = do {
     (r, st) \<leftarrow> (if symstrtab st = 0 then mboot_load_elf m st else Some (0, st));
     (if r \<noteq> 0 then Some (NullName, st)
      else if shdr_entsize m (symtab st) = 0 then None
      else let n = unat (shdr_size m (symtab st) div shdr_entsize m (symtab st));
               syms = shdr_addr m (symtab st);
               best = fold (better_sym m addr) (map (\<lambda>i. syms + 24 * of_nat i) [0..<n]) 0
           in if n \<ge> 2 ^ 32 then None
              else Some (if best \<noteq> 0 then NameAt (shdr_addr m (symstrtab st) + ucast (elf_st_name m best)) else UnknownName, st))
   }"

section \<open>The firmware\<close>

text \<open>The services the code calls, on the state \<open>'f\<close> of the firmware, whose memory is \<open>fmem\<close>. \<open>GetMemoryMap\<close> gets the size and the
  address of the buffer and returns its status, the size it needed and the size of a descriptor; \<open>QueryMode\<close> returns the address
  of the description of a mode, \<open>None\<close> when it sets none.\<close>

record 'f boot_services =
  fmem :: "'f \<Rightarrow> bytes"
  GetMemoryMap :: "u64 \<Rightarrow> u64 \<Rightarrow> 'f \<Rightarrow> (u64 \<times> u64 \<times> u64) \<times> 'f"
  AllocatePool :: "u64 \<Rightarrow> 'f \<Rightarrow> (u64 \<times> u64) \<times> 'f"
  FreePool :: "u64 \<Rightarrow> 'f \<Rightarrow> 'f"
  LocateProtocol :: "'f \<Rightarrow> (u64 \<times> u64) \<times> 'f"
  QueryMode :: "u64 \<Rightarrow> u32 \<Rightarrow> 'f \<Rightarrow> (u64 \<times> u64 option) \<times> 'f"
  SetMode :: "u64 \<Rightarrow> u32 \<Rightarrow> 'f \<Rightarrow> u64 \<times> 'f"
  ExitBootServices :: "u64 \<Rightarrow> u64 \<Rightarrow> 'f \<Rightarrow> 'f"

definition EFI_SUCCESS :: u64 where "EFI_SUCCESS = 0"
definition EFI_BUFFER_TOO_SMALL :: u64 where "EFI_BUFFER_TOO_SMALL = 0x8000000000000005"
definition EFI_NOT_STARTED :: u64 where "EFI_NOT_STARTED = 0x8000000000000013"
definition EFI_ERROR :: "u64 \<Rightarrow> bool" where "EFI_ERROR status \<longleftrightarrow> status AND 0x8000000000000000 \<noteq> 0"

definition efi_seg_type :: "u32 \<Rightarrow> u32" where
  "efi_seg_type t =
     (if t = 0 \<or> t = 11 \<or> t = 12 then SEG_TYPE_RESERVED else if t = 7 then SEG_TYPE_FREE
      else if t = 9 \<or> t = 10 then SEG_TYPE_ACPI else if t = 8 then SEG_TYPE_DEFECTIVE else SEG_TYPE_EFI)"

definition efi_segment :: "bytes \<Rightarrow> u64 \<Rightarrow> memory_segment" where
  "efi_segment m d = \<lparr>seg_addr = mem64 m (d + 8), seg_len = mem64 m (d + 24) * 4096, seg_type = efi_seg_type (mem32 m d)\<rparr>"

text \<open>The status, the map if it was loaded, and the firmware.\<close>

definition efi_load_mmap :: "'f boot_services \<Rightarrow> 'f \<Rightarrow> (u64 \<times> memory_segment list option \<times> 'f) option" where
  "efi_load_mmap bs f =
     (let ((status, map_size, dsize), f) = GetMemoryMap bs 0 0 f
      in if status = EFI_SUCCESS then None
         else if status \<noteq> EFI_BUFFER_TOO_SMALL then Some (status, None, f)
         else let encompassing_size = map_size + 2 * dsize;
                  ((status, buffer), f) = AllocatePool bs encompassing_size f
              in if EFI_ERROR status then Some (status, None, f)
                 else let ((status, map_size, dsize), f) = GetMemoryMap bs encompassing_size buffer f
                      in if EFI_ERROR status then Some (status, None, f)
                         else if dsize = 0 \<or> unat (map_size div dsize) > N_MMAP_ENTRY then None
                         else Some (status, Some (map (\<lambda>i. efi_segment (fmem bs f) (buffer + dsize * of_nat i)) [0..<unat (map_size div dsize)]),
                                    FreePool bs buffer f))"

definition MAX_H_RES :: u32 where "MAX_H_RES = 1920"
definition gop_Mode :: "bytes \<Rightarrow> u64 \<Rightarrow> u64" where "gop_Mode m gop = mem64 m (gop + 24)"
definition Mode_MaxMode :: "bytes \<Rightarrow> u64 \<Rightarrow> u32" where "Mode_MaxMode m md = mem32 m md"
definition Mode_Mode :: "bytes \<Rightarrow> u64 \<Rightarrow> u32" where "Mode_Mode m md = mem32 m (md + 4)"
definition info_HorizontalResolution :: "bytes \<Rightarrow> u64 \<Rightarrow> u32" where "info_HorizontalResolution m info = mem32 m (info + 4)"
definition info_PixelFormat :: "bytes \<Rightarrow> u64 \<Rightarrow> u32" where "info_PixelFormat m info = mem32 m (info + 12)"

text \<open>The search for the best mode. \<open>info\<close> keeps the address an earlier query has left when a query sets none.\<close>

record mode_search =
  ms_status :: u64
  ms_info :: "u64 option"
  ms_best :: u64
  ms_width :: u64

definition try_mode :: "'f boot_services \<Rightarrow> u64 \<Rightarrow> nat \<Rightarrow> mode_search \<times> 'f \<Rightarrow> (mode_search \<times> 'f) option" where
  "try_mode bs gop i sf = do {
     let ((status, r), f) = QueryMode bs gop (of_nat i) (snd sf);
     info \<leftarrow> (case r of None \<Rightarrow> ms_info (fst sf) | Some a \<Rightarrow> Some a);
     let s = (fst sf)\<lparr>ms_status := status, ms_info := Some info\<rparr>;
     let width = info_HorizontalResolution (fmem bs f) info;
     Some (if info_PixelFormat (fmem bs f) info \<noteq> 1 \<and> info_PixelFormat (fmem bs f) info \<noteq> 0 then s
           else if width > MAX_H_RES then s
           else if ucast width > ms_width s then s\<lparr>ms_width := ucast width, ms_best := of_nat i\<rparr>
           else s, f)
   }"

definition efi_load_gop :: "'f boot_services \<Rightarrow> 'f \<Rightarrow> (u64 \<times> u64 \<times> 'f) option" where
  "efi_load_gop bs f =
     (let ((status, gop), f) = LocateProtocol bs f
      in if EFI_ERROR status then Some (status, gop, f)
         else let md = gop_Mode (fmem bs f) gop;
                  ((status, info), f) = QueryMode bs gop (if md = 0 then 0 else Mode_Mode (fmem bs f) md) f;
                  (status, f) = (if status = EFI_NOT_STARTED then SetMode bs gop 0 f else (status, f))
              in if EFI_ERROR status then Some (status, gop, f)
                 else let md = gop_Mode (fmem bs f) gop
                      in if md = 0 then None
                         else do {
                           (s, f) \<leftarrow> for_each (try_mode bs gop) [0..<unat (Mode_MaxMode (fmem bs f) md)]
                             (\<lparr>ms_status = status, ms_info = info, ms_best = ucast (Mode_Mode (fmem bs f) md), ms_width = 0\<rparr>, f);
                           let (_, f) = SetMode bs gop (ucast (ms_best s)) f;
                           Some (ms_status s, gop, f)
                         })"

text \<open>The map and the protocol that the rest of the kernel asks for.\<close>

record efi =
  efi_mmap :: "memory_segment list"
  efi_gop :: u64

definition efi_get_gop :: "efi \<Rightarrow> u64" where "efi_get_gop e = efi_gop e"

definition efi_get_mmap :: "efi \<Rightarrow> memory_segment list option" where
  "efi_get_mmap e = (if efi_mmap e \<noteq> [] then Some (efi_mmap e) else None)"

definition efi_init :: "'f boot_services \<Rightarrow> u64 \<Rightarrow> u64 \<Rightarrow> efi \<times> 'f \<Rightarrow> (efi \<times> 'f) option" where
  "efi_init bs IH ST ef =
     (if IH = 0 \<or> ST = 0 then Some ef
      else do {
        let (e, f) = ef;
        (status, mmap, f) \<leftarrow> efi_load_mmap bs f;
        let e = (case mmap of None \<Rightarrow> e | Some segs \<Rightarrow> e\<lparr>efi_mmap := segs\<rparr>);
        (if EFI_ERROR status then None
         else do {
           (status, gop, f) \<leftarrow> efi_load_gop bs f;
           (if EFI_ERROR status then None else Some (e\<lparr>efi_gop := gop\<rparr>, ExitBootServices bs IH 0 f))
         })
      })"

text \<open>The memory map of the kernel: that of the boot loader, else that of the firmware.\<close>

definition boot_mmap :: "bytes \<Rightarrow> mboot \<Rightarrow> efi \<Rightarrow> memory_segment list option" where
  "boot_mmap m st e = do {
     r \<leftarrow> mboot_get_mmap m st;
     (case r of Some segs \<Rightarrow> Some segs | None \<Rightarrow> efi_get_mmap e)
   }"

section \<open>Finding a tag\<close>

text \<open>The image of a tag as the boot loader writes it, and where in a sequence of tags the first of a type begins.\<close>

definition pad8 :: "nat \<Rightarrow> nat" where "pad8 n = (if n mod 8 = 0 then n else n + (8 - n mod 8))"

definition tag_image :: "u32 \<times> u8 list \<Rightarrow> u8 list" where
  "tag_image t =
     (let n = 8 + length (snd t)
      in le_bytes 4 (fst t) @ le_bytes 4 (of_nat n :: u32) @ snd t @ replicate (pad8 n - n) 0)"

fun find_tag :: "u32 \<Rightarrow> (u32 \<times> u8 list) list \<Rightarrow> nat option" where
  "find_tag ty [] = None"
| "find_tag ty (t # ts) = (if fst t = ty then Some 0 else map_option (\<lambda>k. length (tag_image t) + k) (find_tag ty ts))"

definition info_image :: "(u32 \<times> u8 list) list \<Rightarrow> u8 list" where
  "info_image tags =
     (let body = concat (map tag_image tags)
      in le_bytes 4 (of_nat (8 + length body) :: u32) @ le_bytes 4 (0 :: u32) @ body)"

lemma pad8_ge: "n \<le> pad8 n" by (simp add: pad8_def) presburger

lemma pad8_less: "pad8 n < n + 8" by (simp add: pad8_def)

lemma sint_of_nat_small: "k < 2 ^ 31 \<Longrightarrow> sint (of_nat k :: u32) = int k"
  using sint_nonneg [of "of_nat k :: u32"] by (simp add: unat_of_nat32 uint_nat)

lemma length_tag_image [simp]: "length (tag_image t) = pad8 (8 + length (snd t))"
  using pad8_ge [of "8 + length (snd t)"] by (simp add: tag_image_def Let_def)

lemma get_bytes_append: "get_bytes m a (k + n) = get_bytes m a k @ get_bytes m (a + of_nat k) n"
  by (rule nth_equalityI) (auto simp: get_bytes_def nth_append algebra_simps simp flip: of_nat_add)

lemma length_get_bytes [simp]: "length (get_bytes m a n) = n" by (simp add: get_bytes_def)

lemma get_bytes_parts:
  "get_bytes m a (length xs + length ys) = xs @ ys \<longleftrightarrow> get_bytes m a (length xs) = xs \<and> get_bytes m (a + of_nat (length xs)) (length ys) = ys"
  by (simp add: get_bytes_append)

lemma get_bytes_header:
  assumes "get_bytes m a (4 + (4 + length xs)) = le_bytes 4 (u :: u32) @ le_bytes 4 (v :: u32) @ xs"
  shows "get_bytes m a 4 = le_bytes 4 u" "get_bytes m (a + 4) 4 = le_bytes 4 v" "get_bytes m (a + 8) (length xs) = xs"
  using assms unfolding get_bytes_append by (simp_all add: add.assoc)

lemma tag_step_pads:
  assumes "n + 8 < 2 ^ 31"
  shows "tag_step (of_nat n) = of_nat (pad8 n)"
proof -
  have n: "sint (of_nat n :: u32) = int n" using assms by (simp add: sint_of_nat_small)
  have k: "sint (of_nat (pad8 n) :: u32) = int (pad8 n)" using assms pad8_less [of n] by (intro sint_of_nat_small) linarith
  have r: "c_rem (int n) 8 = int (n mod 8)" by (simp add: c_rem_def zmod_int)
  show ?thesis
  proof (cases "n mod 8 = 0")
    case True
    then show ?thesis by (simp add: tag_step_def Let_def n r pad8_def)
  next
    case False
    then have "int n + (8 - int (n mod 8)) = int (pad8 n)" using mod_less_divisor [of 8 n] by (simp add: pad8_def of_nat_diff)
    then show ?thesis unfolding tag_step_def Let_def n r using False k by simp
  qed
qed

lemma tag_image_fields:
  assumes "get_bytes m p (length (tag_image t)) = tag_image t"
  shows "tag_type m p = fst t" "tag_size m p = of_nat (8 + length (snd t))"
proof -
  define n where "n = 8 + length (snd t)"
  define rest where "rest = snd t @ replicate (pad8 n - n) 0"
  have i: "tag_image t = le_bytes 4 (fst t) @ le_bytes 4 (of_nat n :: u32) @ rest" by (simp add: tag_image_def n_def rest_def Let_def)
  have l: "length (tag_image t) = 4 + (4 + length rest)" unfolding i by simp
  have "get_bytes m p 4 = le_bytes 4 (fst t)" "get_bytes m (p + 4) 4 = le_bytes 4 (of_nat n :: u32)"
    using get_bytes_header [OF assms [unfolded l, unfolded i]] by blast+
  then show "tag_type m p = fst t" "tag_size m p = of_nat (8 + length (snd t))"
    by (simp_all add: tag_type_def tag_size_def mem32_def n_def)
qed

lemma locate_loop_finds:
  assumes "get_bytes m p (length (concat (map tag_image tags))) = concat (map tag_image tags)"
    and "fin = p + of_nat (length (concat (map tag_image tags)))" "unat p + length (concat (map tag_image tags)) < 2 ^ 64"
    and "length (concat (map tag_image tags)) + 8 < 2 ^ 31"
  shows "locate_loop m ty fin p = Some (case find_tag ty tags of None \<Rightarrow> 0 | Some k \<Rightarrow> p + of_nat k)"
  using assms
proof (induction tags arbitrary: p)
  case Nil
  then show ?case by (subst locate_loop.simps) simp
next
  case (Cons t ts)
  define body where "body = concat (map tag_image ts)"
  define k where "k = length (tag_image t)"
  have img: "get_bytes m p k = tag_image t" "get_bytes m (p + of_nat k) (length body) = body"
    using Cons.prems(1) get_bytes_parts [of m p "tag_image t" body] by (simp_all add: k_def body_def)
  have k: "8 \<le> k" "8 + length (snd t) \<le> k" using pad8_ge [of "8 + length (snd t)"] by (auto simp: k_def)
  have sz: "unat p + (k + length body) < 2 ^ 64" "k + length body + 8 < 2 ^ 31" using Cons.prems(3,4) by (simp_all add: k_def body_def)
  have fin: "fin = p + of_nat k + of_nat (length body)" using Cons.prems(2) by (simp add: k_def body_def algebra_simps)
  have u: "unat (p + of_nat k) = unat p + k" "unat fin = unat p + (k + length body)"
    using unat_add_of_nat [of p k] unat_add_of_nat [of p "k + length body"] sz(1) by (simp_all only: fin of_nat_add add.assoc)
  have lt: "p < fin" using u k by (simp add: word_less_nat_alt)
  have f: "tag_type m p = fst t" "tag_size m p = of_nat (8 + length (snd t))" using img(1) tag_image_fields [of m p t] unfolding k_def by blast+
  have step: "tag_step (tag_size m p) = of_nat k" using k(2) sz(2) tag_step_pads [of "8 + length (snd t)"] unfolding f(2) by (simp add: k_def)
  have rest: "locate_loop m ty fin (p + of_nat k) = Some (case find_tag ty ts of None \<Rightarrow> 0 | Some j \<Rightarrow> p + of_nat k + of_nat j)"
    using Cons.IH [of "p + of_nat k"] img(2) fin sz u(1) by (simp add: body_def)
  show ?case
  proof (cases "fst t = ty")
    case True
    then show ?thesis using lt f(1) by (subst locate_loop.simps) simp
  next
    case False
    then show ?thesis using lt f(1) step rest
      by (subst locate_loop.simps) (simp add: k_def algebra_simps split: option.splits)
  qed
qed

text \<open>C37: When memory holds at \<open>info\<close> a Multiboot information of less than 2 GiB with the tags \<open>tags\<close>, \<open>locate_mboot_table\<close> ends and returns the
  address of the first tag of the type that is asked for, and \<^verbatim>\<open>NULL\<close> when there is none; the padding of tags whose size is not a multiple of 8 is stepped over.\<close>

theorem locate_mboot_table_finds:
  assumes "mb_info st \<noteq> 0"
    and "get_bytes m (mb_info st) (length (info_image tags)) = info_image tags"
    and "unat (mb_info st) + length (info_image tags) < 2 ^ 64" "length (info_image tags) < 2 ^ 31"
  shows "locate_mboot_table m st ty = Some (case find_tag ty tags of None \<Rightarrow> 0 | Some k \<Rightarrow> mb_info st + 8 + of_nat k)"
proof -
  define body where "body = concat (map tag_image tags)"
  have i: "info_image tags = le_bytes 4 (of_nat (8 + length body) :: u32) @ (le_bytes 4 (0 :: u32) @ body)" by (simp add: info_image_def body_def Let_def)
  have l: "length (info_image tags) = 4 + (4 + length body)" unfolding i by simp
  have img: "get_bytes m (mb_info st) 4 = le_bytes 4 (of_nat (8 + length body) :: u32)" "get_bytes m (mb_info st + 8) (length body) = body"
    using get_bytes_header [OF assms(2) [unfolded l, unfolded i]] by blast+
  have sz: "unat (mb_info st) + (8 + length body) < 2 ^ 64" "length body + 8 < 2 ^ 31" using assms(3,4) by (simp_all add: l)
  have t: "(ucast (tag_total_size m (mb_info st)) :: u64) = 8 + of_nat (length body)"
  proof -
    have "(ucast (of_nat (8 + length body) :: u32) :: u64) = of_nat (8 + length body)"
      using sz(2) by (simp add: unsigned_of_nat take_bit_nat_eq_self del: of_nat_add)
    then show ?thesis unfolding tag_total_size_def mem32_def img(1) by simp
  qed
  have u: "unat (mb_info st + 8) = unat (mb_info st) + 8" using sz(1) unat_add_small [of "mb_info st" 8] by simp
  show ?thesis
    using locate_loop_finds [of m "mb_info st + 8" tags "mb_info st + 8 + of_nat (length body)" ty] img(2) sz u assms(1)
    by (simp add: locate_mboot_table_def Let_def t body_def algebra_simps)
qed

text \<open>An information with a name, which needs padding, and a module.\<close>

definition image_at :: "u64 \<Rightarrow> u8 list \<Rightarrow> bytes" where
  "image_at p bs a = (if unat (a - p) < length bs then bs ! unat (a - p) else 0)"

lemma get_image_at: "length bs \<le> 2 ^ 64 \<Longrightarrow> get_bytes (image_at p bs) p (length bs) = bs"
  by (rule nth_equalityI) (auto simp: get_bytes_def image_at_def unat_of_nat64)

definition test_tags :: "(u32 \<times> u8 list) list" where
  "test_tags = [(1, [0x6B, 0]), (MULTIBOOT_TAG_TYPE_MODULE, le_bytes 4 (0x100000 :: u32) @ le_bytes 4 (0x180000 :: u32))]"

definition mboot_at :: "u64 \<Rightarrow> mboot" where
  "mboot_at p = \<lparr>mb_info = p, mapped_addr = 0, initrd_len = 0, elf_tag = 0, symtab = 0, symstrtab = 0\<rparr>"

theorem locate_mboot_table_finds_witness:
  "locate_mboot_table (image_at 0x9000 (info_image test_tags)) (mboot_at 0x9000) MULTIBOOT_TAG_TYPE_MODULE = Some 0x9018 \<and>
   locate_mboot_table (image_at 0x9000 (info_image test_tags)) (mboot_at 0x9000) MULTIBOOT_TAG_TYPE_MMAP = Some 0"
proof -
  have l: "length (info_image test_tags) = 40" by (simp add: info_image_def test_tags_def Let_def pad8_def)
  have "locate_mboot_table (image_at 0x9000 (info_image test_tags)) (mboot_at 0x9000) ty =
      Some (case find_tag ty test_tags of None \<Rightarrow> 0 | Some k \<Rightarrow> 0x9008 + of_nat k)" for ty
    using locate_mboot_table_finds [of "mboot_at 0x9000" "image_at 0x9000 (info_image test_tags)" test_tags ty]
      get_image_at [of "info_image test_tags" "0x9000"] by (simp add: l mboot_at_def split: option.splits)
  then show ?thesis by (simp add: test_tags_def MULTIBOOT_TAG_TYPE_MODULE_def MULTIBOOT_TAG_TYPE_MMAP_def pad8_def)
qed

text \<open>A tag of size 0 that is not the one that is asked for is looked at for ever.\<close>

theorem locate_mboot_table_hangs:
  assumes "p < fin" "tag_type m p \<noteq> ty" "tag_size m p = 0"
  shows "locate_loop m ty fin p = None"
proof -
  have step: "tag_step 0 = 0" by (simp add: tag_step_def c_rem_def)
  let ?here = "\<lambda>m' ty' fin' p'. m' = m \<and> ty' = ty \<and> fin' = fin \<and> p' = p"
  have "\<not> ?here m ty fin p" if "locate_loop m ty fin p = Some r" for r
    using _ that
  proof (rule locate_loop.raw_induct [of "\<lambda>m' ty' fin' p' r. \<not> ?here m' ty' fin' p'"])
    fix rec m' ty' fin' p' r
    assume IH: "\<And>m' ty' fin' p' r. rec m' ty' fin' p' = Some r \<Longrightarrow> \<not> ?here m' ty' fin' p'"
      and eq: "(if p' < fin' then if tag_type m' p' = ty' then Some p' else rec m' ty' fin' (p' + tag_step (tag_size m' p')) else Some 0) = Some r"
    show "\<not> ?here m' ty' fin' p'"
    proof
      assume h: "?here m' ty' fin' p'"
      then have "rec m ty fin p = Some r" using eq assms step by simp
      then show False using IH by blast
    qed
  qed
  then show ?thesis by (cases "locate_loop m ty fin p") auto
qed

section \<open>The maps\<close>

lemma mmap_loop_reads:
  assumes "unat e + (24 * n + 40) < 2 ^ 64" "j \<le> Suc n" "Suc n \<le> j + k"
  shows "mmap_loop m (e + of_nat (24 * n + 16)) 24 k (e + of_nat (24 * j)) = Some (map (\<lambda>i. mboot_segment m (e + of_nat (24 * i))) [j..<Suc n])"
  using assms(2,3)
proof (induction k arbitrary: j)
  case 0
  have "\<not> e + of_nat (24 * j) < e + of_nat (24 * n + 16)"
    using 0 assms(1) unat_add_of_nat [of e "24 * j"] unat_add_of_nat [of e "24 * n + 16"] unfolding word_less_nat_alt by linarith
  then show ?case using 0 by simp
next
  case (Suc k)
  have lt: "e + of_nat (24 * j) < e + of_nat (24 * n + 16) \<longleftrightarrow> j \<le> n"
    using Suc.prems assms(1) unat_add_of_nat [of e "24 * j"] unat_add_of_nat [of e "24 * n + 16"] unfolding word_less_nat_alt by linarith
  have nx: "e + of_nat (24 * j) + 24 = e + of_nat (24 * Suc j)" by simp
  show ?case
  proof (cases "j \<le> n")
    case True
    then have "mmap_loop m (e + of_nat (24 * n + 16)) 24 k (e + of_nat (24 * j) + 24) = Some (map (\<lambda>i. mboot_segment m (e + of_nat (24 * i))) [Suc j..<Suc n])"
      unfolding nx using Suc by (intro Suc.IH) auto
    then show ?thesis using True lt by (simp only: mmap_loop.simps upt_conv_Cons) simp
  next
    case False
    then show ?thesis using lt by simp
  qed
qed

text \<open>The map has one entry more than its tag: the size of the tag counts its head of 16 bytes, and the walk takes it for the size of
  the entries, so it reads the bytes behind the tag as another segment.\<close>

theorem mboot_get_mmap_reads_beyond:
  assumes "locate_mboot_table m st MULTIBOOT_TAG_TYPE_MMAP = Some tag" "tag \<noteq> 0"
    and "tag_size m tag = of_nat (24 * n + 16)" "mem32 m (tag + 8) = 24" "n < N_MMAP_ENTRY" "unat tag + (24 * n + 56) < 2 ^ 64"
  shows "mboot_get_mmap m st = Some (Some (map (\<lambda>i. mboot_segment m (tag + 16 + of_nat (24 * i))) [0..<Suc n]))"
proof -
  have u: "unat (tag + 16) = unat tag + 16" using unat_add_of_nat [of tag 16] assms(6) by simp
  have s: "(ucast (of_nat (24 * n + 16) :: u32) :: u64) = of_nat (24 * n + 16)"
    using assms(5) by (simp add: unsigned_of_nat take_bit_nat_eq_self N_MMAP_ENTRY_def del: of_nat_add of_nat_mult)
  have "mmap_loop m (tag + 16 + of_nat (24 * n + 16)) 24 N_MMAP_ENTRY (tag + 16) = Some (map (\<lambda>i. mboot_segment m (tag + 16 + of_nat (24 * i))) [0..<Suc n])"
    using mmap_loop_reads [of "tag + 16" n 0 N_MMAP_ENTRY m] assms(5,6) u by (simp del: upt_Suc of_nat_add of_nat_mult)
  then show ?thesis unfolding mboot_get_mmap_def Let_def assms(1) using assms(2,3,4) s by (simp del: upt_Suc of_nat_add of_nat_mult)
qed

text \<open>Of the symbols at the address or above, the one with the highest address is taken, and none below it is looked at.\<close>

theorem best_sym_is_highest:
  assumes "0 \<notin> set ss" "best = fold (better_sym m addr) ss 0"
  shows "(best = 0 \<longleftrightarrow> (\<forall>s \<in> set ss. elf_st_value m s < addr)) \<and>
    (best \<noteq> 0 \<longrightarrow> best \<in> set ss \<and> addr \<le> elf_st_value m best \<and>
       (\<forall>s \<in> set ss. addr \<le> elf_st_value m s \<longrightarrow> elf_st_value m s \<le> elf_st_value m best))"
  using assms
  by (induction ss arbitrary: best rule: rev_induct) (auto simp: better_sym_def not_less split: if_splits)

lemma ucast_wide_0: "(ucast (w :: u32) :: u64) = 0 \<longleftrightarrow> w = 0"
proof
  assume "(ucast w :: u64) = 0"
  then have "\<not> bit w n" for n using bit_imp_le_length [of w n] by (auto simp: bit_eq_iff bit_simps)
  then show "w = 0" by (simp add: bit_eq_iff)
qed simp

text \<open>The mode that is set is the widest that is at most 1920 pixels wide and has one of the two pixel formats, and the first of these; the
  mode that was set before stays when there is none.\<close>

definition mode_width :: "'f boot_services \<Rightarrow> 'f \<Rightarrow> (nat \<Rightarrow> u64) \<Rightarrow> nat \<Rightarrow> u32" where
  "mode_width bs f info i =
     (if info_PixelFormat (fmem bs f) (info i) \<in> {0, 1} \<and> info_HorizontalResolution (fmem bs f) (info i) \<le> MAX_H_RES
      then info_HorizontalResolution (fmem bs f) (info i) else 0)"

theorem efi_takes_widest_mode:
  assumes "\<And>i. i < n \<Longrightarrow> QueryMode bs gop (of_nat i) f = ((EFI_SUCCESS, Some (info i)), f)"
    and "ms_width s = 0"
  shows "\<exists>s'. for_each (try_mode bs gop) [0..<n] (s, f) = Some (s', f) \<and>
    (\<forall>i < n. ucast (mode_width bs f info i) \<le> ms_width s') \<and>
    (if \<forall>i < n. mode_width bs f info i = 0 then ms_best s' = ms_best s \<and> ms_width s' = 0
     else \<exists>i < n. ms_best s' = of_nat i \<and> ms_width s' = ucast (mode_width bs f info i) \<and> 0 < mode_width bs f info i)"
  using assms(1)
proof (induction n)
  case 0
  then show ?case using assms(2) by simp
next
  case (Suc n)
  then obtain s1 where s1: "for_each (try_mode bs gop) [0..<n] (s, f) = Some (s1, f)"
    and le: "\<forall>i < n. ucast (mode_width bs f info i) \<le> ms_width s1"
    and best: "if \<forall>i < n. mode_width bs f info i = 0 then ms_best s1 = ms_best s \<and> ms_width s1 = 0
      else \<exists>i < n. ms_best s1 = of_nat i \<and> ms_width s1 = ucast (mode_width bs f info i) \<and> 0 < mode_width bs f info i" by auto
  define w where "w = mode_width bs f info n"
  define s2 where "s2 = (if (ucast w :: u64) > ms_width s1
     then s1\<lparr>ms_status := EFI_SUCCESS, ms_info := Some (info n), ms_width := ucast w, ms_best := of_nat n\<rparr>
     else s1\<lparr>ms_status := EFI_SUCCESS, ms_info := Some (info n)\<rparr>)"
  have "try_mode bs gop n (s1, f) = Some (s2, f)"
    using Suc.prems [of n] by (auto simp: try_mode_def s2_def w_def mode_width_def Let_def not_less)
  then have "for_each (try_mode bs gop) [0..<Suc n] (s, f) = Some (s2, f)" using s1 by (simp add: for_each_append)
  moreover have "\<forall>i < Suc n. ucast (mode_width bs f info i) \<le> ms_width s2"
    using le by (auto simp: less_Suc_eq s2_def w_def not_less intro: order_trans less_imp_le)
  moreover have "if \<forall>i < Suc n. mode_width bs f info i = 0 then ms_best s2 = ms_best s \<and> ms_width s2 = 0
      else \<exists>i < Suc n. ms_best s2 = of_nat i \<and> ms_width s2 = ucast (mode_width bs f info i) \<and> 0 < mode_width bs f info i"
  proof (cases "ms_width s1 < ucast w")
    case True
    then have "w \<noteq> 0" by auto
    then show ?thesis using True by (auto simp: s2_def w_def word_neq_0_conv intro: exI [of _ n])
  next
    case False
    then have "ms_width s1 = 0 \<Longrightarrow> w = 0" by (simp add: not_less ucast_wide_0)
    then show ?thesis using False best by (auto simp: s2_def w_def less_Suc_eq split: if_splits)
  qed
  ultimately show ?case by blast
qed

end
