(* ===== verification/Apple.thy ===== *)
theory Apple
  imports Ports
begin

text \<open>
  The video player (\<^verbatim>\<open>user/apple.c\<close>) and the two programs that write and read its run-length code (\<^verbatim>\<open>user/deflate.c\<close>, \<^verbatim>\<open>user/inflate.c\<close>).
  A file is the list of its bytes; \<^verbatim>\<open>getc\<close> returns them one after the other and then \<^verbatim>\<open>EOF\<close>, and \<^verbatim>\<open>putc\<close> appends the low byte of its
  argument. An access outside an array is \<open>None\<close>.
\<close>

section \<open>Writing the code\<close>

definition EOF :: int where "EOF = -1"

record rle =
  length_bytes :: int
  run_length :: int
  tracking :: int

definition rle_init :: rle where "rle_init = \<lparr>length_bytes = 0, run_length = 0, tracking = EOF\<rparr>"

definition put_run :: "rle \<Rightarrow> u8 list" where
  "put_run s = replicate (nat (length_bytes s)) 255 @ [of_int (run_length s), of_int (tracking s)]"

definition deflate_step :: "u8 \<Rightarrow> rle \<times> u8 list \<Rightarrow> rle \<times> u8 list" where
  "deflate_step c so =
     (let (s, out) = so; nxt = int (unat c)
      in if tracking s = EOF then (s\<lparr>tracking := nxt, run_length := 1, length_bytes := 0\<rparr>, out)
         else let diff = tracking s - nxt;
                  diff = (if diff < 1 then - diff else diff);
                  nxt = (if diff < 2 then tracking s else nxt)
              in if tracking s = nxt
                 then let s = s\<lparr>run_length := run_length s + 1\<rparr>
                      in if run_length s = 255 then (s\<lparr>length_bytes := length_bytes s + 1, run_length := 0\<rparr>, out) else (s, out)
                 else (s\<lparr>tracking := nxt, run_length := 1, length_bytes := 0\<rparr>, out @ put_run s))"

definition deflate :: "u8 list \<Rightarrow> u8 list" where
  "deflate inp = (let (s, out) = fold deflate_step inp (rle_init, []) in if run_length s \<noteq> 0 then out @ put_run s else out)"

text \<open>The whole program: \<open>rd\<close> and \<open>wr\<close> tell whether the files named by the arguments could be opened. The result is the exit status and
  what is in the output file, \<open>None\<close> when it is not opened.\<close>

definition deflate_main :: "nat \<Rightarrow> u8 list option \<Rightarrow> bool \<Rightarrow> int \<times> u8 list option" where
  "deflate_main argc rd wr =
     (if argc \<noteq> 3 then (1, None)
      else case rd of None \<Rightarrow> (1, None)
      | Some inp \<Rightarrow> if \<not> wr then (1, None) else (0, Some (deflate inp)))"

section \<open>Reading it\<close>

text \<open>The loop of the reader: two bytes at a time.\<close>

fun inflate_loop :: "u8 list \<Rightarrow> u8 list \<Rightarrow> int \<times> u8 list" where
  "inflate_loop [] out = (0, out)"
| "inflate_loop [len] out = (1, out)"
| "inflate_loop (len # val # inp) out = inflate_loop inp (out @ replicate (unat len) val)"

definition inflate_main :: "nat \<Rightarrow> u8 list option \<Rightarrow> bool \<Rightarrow> int \<times> u8 list option" where
  "inflate_main argc rd wr =
     (if argc \<noteq> 3 then (1, None)
      else case rd of None \<Rightarrow> (1, None)
      | Some inp \<Rightarrow> if \<not> wr then (1, None) else (let (r, out) = inflate_loop inp [] in (r, Some out)))"

text \<open>The reader of the player. The data is linked into the program; its end is not looked for.\<close>

record decoder =
  d_offset :: nat
  d_length :: nat
  d_value :: u8

function read_len :: "u8 list \<Rightarrow> nat \<Rightarrow> nat \<Rightarrow> (nat \<times> nat) option" where
  "read_len dat off acc =
     (if off < length dat
      then if dat ! off = 255 then read_len dat (off + 1) (acc + 255) else Some (acc + unat (dat ! off), off + 1)
      else None)"
  by pat_completeness auto
termination by (relation "measure (\<lambda>(dat, off, acc). length dat - off)") auto

declare read_len.simps [simp del]

lemma read_len_advances: "read_len dat off acc = Some (n, off') \<Longrightarrow> off < off' \<and> off' \<le> length dat"
proof (induction dat off acc rule: read_len.induct)
  case (1 dat off acc)
  show ?case using 1(1) 1(2) by (subst (asm) (2) read_len.simps) (auto split: if_splits)
qed

function refill :: "u8 list \<Rightarrow> decoder \<Rightarrow> decoder option" where
  "refill dat d =
     (if 1 \<le> d_length d then Some d
      else case read_len dat (d_offset d) 0 of
        None \<Rightarrow> None
      | Some (n, off) \<Rightarrow>
          if off < length dat then refill dat \<lparr>d_offset = off + 1, d_length = n, d_value = dat ! off\<rparr> else None)"
  by pat_completeness auto
termination
  by (relation "measure (\<lambda>(dat, d). length dat - d_offset d)") (auto dest: read_len_advances)

declare refill.simps [simp del]

definition read_byte :: "u8 list \<Rightarrow> decoder \<Rightarrow> (u8 \<times> decoder) option" where
  "read_byte dat d = map_option (\<lambda>d. (d_value d, d\<lparr>d_length := d_length d - 1\<rparr>)) (refill dat d)"

text \<open>\<open>n\<close> bytes in a row.\<close>

primrec read_bytes :: "u8 list \<Rightarrow> nat \<Rightarrow> decoder \<Rightarrow> (u8 list \<times> decoder) option" where
  "read_bytes dat 0 d = Some ([], d)"
| "read_bytes dat (Suc n) d =
     (case read_byte dat d of None \<Rightarrow> None
      | Some (b, d) \<Rightarrow> map_option (\<lambda>(bs, d). (b # bs, d)) (read_bytes dat n d))"

definition APPLE_WIDTH :: int where "APPLE_WIDTH = 480"
definition APPLE_HEIGHT :: int where "APPLE_HEIGHT = 360"
definition APPLE_FPS :: u64 where "APPLE_FPS = 30"
definition APPLE_FRAMES :: u64 where "APPLE_FRAMES = 6572"

definition read_frame :: "u8 list \<Rightarrow> decoder \<Rightarrow> (u8 list \<times> decoder) option" where
  "read_frame dat d = read_bytes dat (nat (APPLE_WIDTH * APPLE_HEIGHT)) d"

section \<open>Drawing\<close>

record screen =
  fb :: "u32 list"
  back_fb :: "u32 list"
  scr_width :: int
  scr_height :: int
  scale :: int

definition grey :: "u8 \<Rightarrow> u32" where
  "grey color = push_bit 16 (ucast color) OR push_bit 8 (ucast color) OR ucast color"

definition draw_pixel :: "u8 list \<Rightarrow> int \<Rightarrow> int \<Rightarrow> screen \<Rightarrow> screen option" where
  "draw_pixel frame_buf y x s =
     (let src = x div scale s + (y div scale s) * APPLE_WIDTH;
          dst = x + y * scr_width s
      in if 0 \<le> src \<and> nat src < length frame_buf \<and> 0 \<le> dst \<and> nat dst < length (back_fb s)
         then Some (s\<lparr>back_fb := (back_fb s)[nat dst := grey (frame_buf ! nat src)]\<rparr>)
         else None)"

definition draw_frame :: "u8 list \<Rightarrow> screen \<Rightarrow> screen option" where
  "draw_frame frame_buf s =
     for_each (\<lambda>y. for_each (draw_pixel frame_buf y) [0..APPLE_WIDTH * scale s - 1]) [0..APPLE_HEIGHT * scale s - 1] s"

text \<open>The copy moves words of 8 bytes, two pixels each.\<close>

definition swap_buffers :: "screen \<Rightarrow> screen option" where
  "swap_buffers s =
     (let n = 2 * nat (scr_width s * scr_height s div 2)
      in if n \<le> length (back_fb s) \<and> n \<le> length (fb s) then Some (s\<lparr>fb := take n (back_fb s) @ drop n (fb s)\<rparr>) else None)"

section \<open>The player\<close>

record player =
  dec :: decoder
  frame_buf :: "u8 list"
  scr :: screen
  last_frame :: u64
  frame :: u64
  tick_start :: u64

definition show_frame :: "u8 list \<Rightarrow> player \<Rightarrow> player option" where
  "show_frame dat p =
     (if last_frame p \<noteq> frame p
      then do {
        (buf, d) \<leftarrow> read_frame dat (dec p);
        s \<leftarrow> draw_frame buf (scr p);
        s \<leftarrow> swap_buffers s;
        Some (p\<lparr>frame_buf := buf, dec := d, scr := s\<rparr>)
      }
      else Some p)"

text \<open>One round with \<open>now\<close> on the clock, and whether it was the last.\<close>

definition play_round :: "u8 list \<Rightarrow> u64 \<Rightarrow> player \<Rightarrow> (bool \<times> player) option" where
  "play_round dat now p = do {
     p \<leftarrow> show_frame dat p;
     let p = p\<lparr>last_frame := frame p, frame := (now - tick_start p) div (1000 div APPLE_FPS)\<rparr>;
     Some (frame p \<ge> APPLE_FRAMES, p)
   }"

text \<open>The rounds for the readings \<open>nows\<close> of the clock; the exit status is there when the last frame has been reached.\<close>

primrec play :: "u8 list \<Rightarrow> u64 list \<Rightarrow> player \<Rightarrow> (int option \<times> player) option" where
  "play dat [] p = Some (None, p)"
| "play dat (now # nows) p = (case play_round dat now p of None \<Rightarrow> None | Some (fin, p) \<Rightarrow> if fin then Some (Some 0, p) else play dat nows p)"

text \<open>\<open>drm\<close> is the answer of the system call, \<open>mem\<close> whether the buffer could be allocated; both contents are what the memory held.\<close>

definition apple_main :: "u8 list \<Rightarrow> (u32 list \<times> int \<times> int \<times> int) option \<Rightarrow> (nat \<Rightarrow> u32 list option) \<Rightarrow> u64 \<Rightarrow> u64 list \<Rightarrow> int option option" where
  "apple_main dat drm malloc start nows =
     (case drm of None \<Rightarrow> Some (Some 1)
      | Some (f, width, height, bpp) \<Rightarrow>
          (case malloc (nat (width * height * bpp div 8)) of None \<Rightarrow> Some (Some 1)
           | Some b \<Rightarrow>
               map_option fst (play dat nows
                 \<lparr>dec = \<lparr>d_offset = 0, d_length = 0, d_value = 0\<rparr>, frame_buf = replicate (nat (APPLE_WIDTH * APPLE_HEIGHT)) 0,
                  scr = \<lparr>fb = f, back_fb = b, scr_width = width, scr_height = height, scale = min (width div APPLE_WIDTH) (height div APPLE_HEIGHT)\<rparr>,
                  last_frame = - 1, frame = 0, tick_start = start\<rparr>)))"

section \<open>The code is read back\<close>

text \<open>What the writer makes of its input: a byte that differs by less than 2 from the value of the current run is taken for it.\<close>

fun smooth_from :: "u8 \<Rightarrow> u8 list \<Rightarrow> u8 list" where
  "smooth_from t [] = []"
| "smooth_from t (b # bs) = (if \<bar>int (unat t) - int (unat b)\<bar> < 2 then t # smooth_from t bs else b # smooth_from b bs)"

fun smooth :: "u8 list \<Rightarrow> u8 list" where
  "smooth [] = []"
| "smooth (b # bs) = b # smooth_from b bs"

definition run_code :: "u8 \<times> nat \<Rightarrow> u8 list" where
  "run_code r = replicate (snd r div 255) 255 @ [of_nat (snd r mod 255), fst r]"

definition runs :: "(u8 \<times> nat) list \<Rightarrow> u8 list" where
  "runs rs = concat (map (\<lambda>(v, n). replicate n v) rs)"

definition rle_at :: "u8 \<Rightarrow> nat \<Rightarrow> rle" where
  "rle_at t n = \<lparr>length_bytes = int (n div 255), run_length = int (n mod 255), tracking = int (unat t)\<rparr>"

lemma runs_simps [simp]: "runs [] = []" "runs ((v, n) # rs) = replicate n v @ runs rs"
  by (simp_all add: runs_def)

lemma length_smooth: "length (smooth_from t bs) = length bs" "length (smooth bs) = length bs"
proof -
  show *: "length (smooth_from t bs) = length bs" for t bs by (induction bs arbitrary: t) auto
  show "length (smooth bs) = length bs" by (cases bs) (auto simp: *)
qed

lemma smooth_near: "i < length bs \<Longrightarrow> \<bar>int (unat (smooth bs ! i)) - int (unat (bs ! i))\<bar> \<le> 1"
proof -
  have *: "i < length bs \<Longrightarrow> \<bar>int (unat (smooth_from t bs ! i)) - int (unat (bs ! i))\<bar> \<le> 1" for t bs i
    by (induction bs arbitrary: t i) (auto simp: nth_Cons split: nat.splits)
  then show "i < length bs \<Longrightarrow> ?thesis" by (cases bs) (auto simp: nth_Cons split: nat.splits)
qed

lemma put_run_at: "put_run (rle_at t n) = run_code (t, n)"
  by (simp add: put_run_def rle_at_def run_code_def)

lemma deflate_step_at:
  "deflate_step b (rle_at t n, out) =
     (if \<bar>int (unat t) - int (unat b)\<bar> < 2 then (rle_at t (Suc n), out) else (rle_at b 1, out @ run_code (t, n)))"
proof -
  have e: "int (unat t) \<noteq> EOF" using of_nat_0_le_iff [of "unat t"] unfolding EOF_def by linarith
  have c: "int (n mod 255) + 1 = 255 \<longleftrightarrow> Suc (n mod 255) = 255" by linarith
  have s: "Suc n mod 255 = (if Suc (n mod 255) = 255 then 0 else Suc (n mod 255))" "Suc n div 255 = (if Suc (n mod 255) = 255 then Suc (n div 255) else n div 255)"
    by (auto simp: mod_Suc div_Suc)
  show ?thesis
    using e c s put_run_at [of t n] by (auto simp: deflate_step_def rle_at_def Let_def)
qed

lemma fold_deflate_step:
  assumes "0 < n"
  shows "\<exists>rs t' n'. fold deflate_step bs (rle_at t n, out) = (rle_at t' n', out @ concat (map run_code rs)) \<and>
    runs rs @ replicate n' t' = replicate n t @ smooth_from t bs \<and> 0 < n' \<and> (\<forall>r \<in> set rs. 0 < snd r)"
  using assms
proof (induction bs arbitrary: t n out)
  case Nil
  then show ?case by (intro exI [of _ "[]"]) auto
next
  case (Cons b bs)
  show ?case
  proof (cases "\<bar>int (unat t) - int (unat b)\<bar> < 2")
    case True
    then show ?thesis using Cons.IH [of "Suc n" t out] by (simp add: deflate_step_at replicate_app_Cons_same)
  next
    case False
    obtain rs t' n' where "fold deflate_step bs (rle_at b 1, out @ run_code (t, n)) = (rle_at t' n', (out @ run_code (t, n)) @ concat (map run_code rs))"
      "runs rs @ replicate n' t' = replicate 1 b @ smooth_from b bs" "0 < n'" "\<forall>r \<in> set rs. 0 < snd r"
      using Cons.IH [of 1 b "out @ run_code (t, n)"] by auto
    then show ?thesis using False Cons.prems by (intro exI [of _ "(t, n) # rs"]) (auto simp: deflate_step_at)
  qed
qed

lemma deflate_runs:
  assumes "bs \<noteq> []"
  obtains rs t n where "fold deflate_step bs (rle_init, []) = (rle_at t n, concat (map run_code rs))" "runs rs @ replicate n t = smooth bs" "0 < n" "\<forall>r \<in> set rs. 0 < snd r"
proof -
  obtain b cs where bs: "bs = b # cs" using assms by (cases bs) auto
  have "deflate_step b (rle_init, []) = (rle_at b 1, [])" by (simp add: deflate_step_def rle_init_def rle_at_def Let_def)
  then show thesis using fold_deflate_step [of 1 cs b "[]"] that by (auto simp: bs)
qed

lemma deflate_code:
  assumes "bs \<noteq> []" "run_length (fst (fold deflate_step bs (rle_init, []))) \<noteq> 0"
  obtains rs where "deflate bs = concat (map run_code rs)" "runs rs = smooth bs" "\<forall>r \<in> set rs. 0 < snd r"
proof -
  obtain rs t n where f: "fold deflate_step bs (rle_init, []) = (rle_at t n, concat (map run_code rs))" "runs rs @ replicate n t = smooth bs" "0 < n" "\<forall>r \<in> set rs. 0 < snd r"
    by (rule deflate_runs [OF assms(1)])
  have "deflate bs = concat (map run_code (rs @ [(t, n)]))" using assms(2) by (simp add: deflate_def f(1) put_run_at)
  moreover have "runs (rs @ [(t, n)]) = smooth bs" using f(2) by (simp add: runs_def)
  ultimately show thesis using f(3,4) by (intro that [of "rs @ [(t, n)]"]) auto
qed

lemma drop_ConsD:
  assumes "drop off dat = c # rest"
  shows "off < length dat" "dat ! off = c" "drop (Suc off) dat = rest"
proof -
  show "off < length dat" using assms by (metis drop_all list.distinct(1) not_le)
  show "dat ! off = c" using assms by (rule nth_via_drop)
  show "drop (Suc off) dat = rest" using assms by (simp add: drop_Suc drop_tl)
qed

lemma drop_behind: "drop a dat = xs @ ys \<Longrightarrow> drop (a + length xs) dat = ys"
  by (metis add.commute append_eq_conv_conj drop_drop)

lemma read_len_code:
  assumes "drop off dat = replicate k 255 @ c # rest" "c \<noteq> 255"
  shows "read_len dat off acc = Some (acc + 255 * k + unat c, off + k + 1)"
  using assms(1)
proof (induction k arbitrary: off acc)
  case 0
  then have "off < length dat" "dat ! off = c" using drop_ConsD [of off dat c rest] by simp_all
  then show ?case using assms(2) by (subst read_len.simps) simp
next
  case (Suc k)
  then have "off < length dat" "dat ! off = 255" "drop (off + 1) dat = replicate k 255 @ c # rest"
    using drop_ConsD [of off dat 255 "replicate k 255 @ c # rest"] by simp_all
  then show ?case using Suc.IH [of "off + 1" "acc + 255"] by (subst read_len.simps) (simp add: algebra_simps)
qed

lemma refill_code:
  assumes "d_length d = 0" "drop (d_offset d) dat = run_code (v, n) @ rest" "0 < n"
  shows "refill dat d = Some \<lparr>d_offset = d_offset d + length (run_code (v, n)), d_length = n, d_value = v\<rparr>"
proof -
  have small: "n mod 255 < 255" by simp
  then have c: "unat (of_nat (n mod 255) :: u8) = n mod 255" by (simp add: unsigned_of_nat take_bit_nat_eq_self)
  moreover have "unat (255 :: u8) = 255" by simp
  ultimately have "(of_nat (n mod 255) :: u8) \<noteq> 255" using small by (metis order_less_irrefl)
  then have l: "read_len dat (d_offset d) 0 = Some (n, d_offset d + n div 255 + 1)"
    using read_len_code [of "d_offset d" dat "n div 255" "of_nat (n mod 255)" "v # rest" 0] assms(2) c by (simp add: run_code_def)
  have "drop (d_offset d + n div 255 + 1) dat = v # rest"
    using drop_behind [of "d_offset d" dat "replicate (n div 255) 255 @ [of_nat (n mod 255)]" "v # rest"] assms(2) by (simp add: run_code_def)
  note v = drop_ConsD [OF this]
  have "refill dat \<lparr>d_offset = d_offset d + n div 255 + 1 + 1, d_length = n, d_value = v\<rparr> = Some \<lparr>d_offset = d_offset d + n div 255 + 1 + 1, d_length = n, d_value = v\<rparr>"
    using assms(3) by (subst refill.simps) simp
  then show ?thesis using l assms(1) v by (subst refill.simps) (simp add: run_code_def)
qed

lemma read_byte_run: "d_length d = Suc n \<Longrightarrow> read_byte dat d = Some (d_value d, d\<lparr>d_length := n\<rparr>)"
  by (subst read_byte_def, subst refill.simps) simp

lemma read_bytes_run: "d_length d = n \<Longrightarrow> read_bytes dat n d = Some (replicate n (d_value d), d\<lparr>d_length := 0\<rparr>)"
  by (induction n arbitrary: d) (simp_all add: read_byte_run)

lemma read_bytes_add:
  "read_bytes dat (m + n) d = (case read_bytes dat m d of None \<Rightarrow> None | Some (bs, d) \<Rightarrow> map_option (\<lambda>(cs, d). (bs @ cs, d)) (read_bytes dat n d))"
  by (induction m arbitrary: d) (auto split: option.splits simp: option.map_comp map_option_case)

lemma read_run:
  assumes "d_length d = 0" "drop (d_offset d) dat = run_code (v, n) @ rest" "0 < n"
  shows "read_bytes dat n d = Some (replicate n v, \<lparr>d_offset = d_offset d + length (run_code (v, n)), d_length = 0, d_value = v\<rparr>)"
proof -
  let ?d = "\<lparr>d_offset = d_offset d + length (run_code (v, n)), d_length = n, d_value = v\<rparr>"
  have "read_byte dat d = read_byte dat ?d"
    using refill_code [OF assms] assms(3) by (simp add: read_byte_def) (subst refill.simps, simp)
  then have "read_bytes dat n d = read_bytes dat n ?d" using assms(3) by (cases n) simp_all
  then show ?thesis using read_bytes_run [of ?d n dat] by simp
qed

lemma read_runs:
  assumes "\<forall>r \<in> set rs. 0 < snd r" "d_length d = 0" "drop (d_offset d) dat = concat (map run_code rs) @ rest"
  shows "\<exists>d'. read_bytes dat (length (runs rs)) d = Some (runs rs, d') \<and> d_length d' = 0 \<and> d_offset d' = d_offset d + length (concat (map run_code rs))"
  using assms
proof (induction rs arbitrary: d)
  case (Cons r rs)
  obtain v n where r: "r = (v, n)" by (cases r)
  let ?d = "\<lparr>d_offset = d_offset d + length (run_code (v, n)), d_length = 0, d_value = v\<rparr>"
  have d: "drop (d_offset d) dat = run_code (v, n) @ (concat (map run_code rs) @ rest)" using Cons.prems(3) by (simp add: r)
  have one: "read_bytes dat n d = Some (replicate n v, ?d)"
    by (rule read_run [OF Cons.prems(2) d]) (use Cons.prems(1) in \<open>simp add: r\<close>)
  have "drop (d_offset ?d) dat = concat (map run_code rs) @ rest" using drop_behind [OF d] by simp
  then obtain d' where "read_bytes dat (length (runs rs)) ?d = Some (runs rs, d')" "d_length d' = 0" "d_offset d' = d_offset ?d + length (concat (map run_code rs))"
    using Cons.IH [of ?d] Cons.prems(1) by auto
  then show ?case using one by (simp add: r read_bytes_add)
qed simp



text \<open>A run of 255 bytes at the end of the input is not written.\<close>

lemma fold_deflate_run: "fold deflate_step (replicate k v) (rle_at v n, out) = (rle_at v (n + k), out)"
  by (induction k arbitrary: n) (simp_all add: deflate_step_at)

lemma fold_deflate_first: "fold deflate_step (replicate (Suc k) v) (rle_init, []) = (rle_at v (Suc k), [])"
proof -
  have "deflate_step v (rle_init, []) = (rle_at v 1, [])" by (simp add: deflate_step_def rle_init_def rle_at_def Let_def)
  then have "fold deflate_step (replicate (Suc k) v) (rle_init, []) = fold deflate_step (replicate k v) (rle_at v 1, [])"
    by (simp only: replicate_Suc fold_Cons o_apply)
  then show ?thesis unfolding fold_deflate_run by simp
qed

theorem deflate_drops_last_run: "deflate (replicate 255 v) = []"
  using fold_deflate_first [of 254 v] unfolding deflate_def by (simp add: rle_at_def)

text \<open>The program \<^verbatim>\<open>inflate\<close> knows no lengths above 254. It undoes the code of an input of fewer than 255 bytes; of a longer run it takes the second byte
  of the length for the value.\<close>

lemma inflate_runs: "\<forall>r \<in> set rs. snd r < 255 \<Longrightarrow> inflate_loop (concat (map run_code rs)) out = (0, out @ runs rs)"
  by (induction rs arbitrary: out) (auto simp: run_code_def unsigned_of_nat take_bit_nat_eq_self)

theorem inflate_undoes_short: "length bs < 255 \<Longrightarrow> inflate_loop (deflate bs) [] = (0, smooth bs)"
proof (cases "bs = []")
  case True
  then show ?thesis by (simp add: deflate_def rle_init_def)
next
  case False
  assume l: "length bs < 255"
  obtain rs t n where f: "fold deflate_step bs (rle_init, []) = (rle_at t n, concat (map run_code rs))" "runs rs @ replicate n t = smooth bs" "0 < n"
    by (rule deflate_runs [OF False])
  have len: "length (runs rs) + n = length bs" using arg_cong [OF f(2), of length] by (simp add: length_smooth)
  then have "run_length (fst (fold deflate_step bs (rle_init, []))) \<noteq> 0" using f(1,3) l by (simp add: rle_at_def)
  then obtain qs where q: "deflate bs = concat (map run_code qs)" "runs qs = smooth bs" by (rule deflate_code [OF False])
  have "snd r \<le> length (runs qs)" if "r \<in> set qs" for r
    using that by (induction qs) auto
  then show ?thesis using inflate_runs [of qs "[]"] q l length_smooth(2) [of bs] by fastforce
qed

theorem inflate_breaks_long_run: "inflate_loop (deflate (replicate 256 7)) [] = (1, replicate 255 1)"
proof -
  have "deflate (replicate 256 7) = [255, 1, 7]"
    using fold_deflate_first [of 255 7] put_run_at [of 7 256] unfolding deflate_def by (simp add: run_code_def rle_at_def)
  then show ?thesis by simp
qed

section \<open>The picture\<close>

definition covered :: "screen \<Rightarrow> int \<Rightarrow> int \<Rightarrow> bool" where
  "covered s x y \<longleftrightarrow> 0 \<le> x \<and> x < APPLE_WIDTH * scale s \<and> 0 \<le> y \<and> y < APPLE_HEIGHT * scale s"

definition screen_ok :: "u8 list \<Rightarrow> screen \<Rightarrow> bool" where
  "screen_ok buf s \<longleftrightarrow> 0 \<le> scr_width s \<and> 0 \<le> scr_height s \<and> scale s = min (scr_width s div APPLE_WIDTH) (scr_height s div APPLE_HEIGHT) \<and>
     int (length (back_fb s)) = scr_width s * scr_height s \<and> int (length buf) = APPLE_WIDTH * APPLE_HEIGHT"

definition dot_shown :: "u8 list \<Rightarrow> int \<times> int \<Rightarrow> screen \<Rightarrow> bool" where
  "dot_shown buf p s \<longleftrightarrow> back_fb s ! nat (fst p + snd p * scr_width s) = grey (buf ! nat (fst p div scale s + snd p div scale s * APPLE_WIDTH))"

lemma div_below:
  assumes "x < k * c" "0 < (c :: int)"
  shows "x div c < k"
proof (rule ccontr)
  assume "\<not> x div c < k"
  then have "k * c \<le> x div c * c" using assms(2) by (simp add: mult_right_mono)
  then show False using assms div_mult_mod_eq [of x c] pos_mod_sign [of c x] by linarith
qed

lemma grid_index:
  assumes "0 \<le> x" "x < w" "0 \<le> y" "y < h"
  shows "0 \<le> x + y * w" "x + y * w < w * (h :: int)"
proof -
  show "0 \<le> x + y * w" using assms by simp
  have "x + y * w < (y + 1) * w" using assms(2) by (simp add: algebra_simps)
  also have "\<dots> \<le> h * w" using assms by (intro mult_right_mono) auto
  finally show "x + y * w < w * h" by (simp add: mult.commute)
qed

lemma grid_inj: "0 \<le> x \<Longrightarrow> x < w \<Longrightarrow> 0 \<le> x' \<Longrightarrow> x' < w \<Longrightarrow> x + y * w = x' + y' * w \<Longrightarrow> x = x' \<and> y = (y' :: int)"
  by (metis add.commute div_mult_self1 div_pos_pos_trivial mod_mult_self1 mod_pos_pos_trivial add_cancel_right_left order_less_irrefl order_le_less_trans)

lemma covered_bounds:
  assumes "screen_ok buf s" "covered s x y"
  shows "0 < scale s" "x < scr_width s" "y < scr_height s" "0 \<le> x div scale s" "x div scale s < APPLE_WIDTH" "0 \<le> y div scale s" "y div scale s < APPLE_HEIGHT"
proof -
  have c: "0 \<le> x" "x < APPLE_WIDTH * scale s" "0 \<le> y" "y < APPLE_HEIGHT * scale s" using assms(2) by (auto simp: covered_def)
  show p: "0 < scale s" using c by (auto simp: APPLE_WIDTH_def)
  have "APPLE_WIDTH * scale s \<le> APPLE_WIDTH * (scr_width s div APPLE_WIDTH)" "APPLE_HEIGHT * scale s \<le> APPLE_HEIGHT * (scr_height s div APPLE_HEIGHT)"
    using assms(1) by (auto simp: screen_ok_def APPLE_WIDTH_def APPLE_HEIGHT_def)
  moreover have "APPLE_WIDTH * (scr_width s div APPLE_WIDTH) \<le> scr_width s" "APPLE_HEIGHT * (scr_height s div APPLE_HEIGHT) \<le> scr_height s"
    by (simp_all add: APPLE_WIDTH_def APPLE_HEIGHT_def)
  ultimately show "x < scr_width s" "y < scr_height s" using c by linarith+
  show "0 \<le> x div scale s" "0 \<le> y div scale s" using p c by (simp_all add: pos_imp_zdiv_nonneg_iff)
  show "x div scale s < APPLE_WIDTH" "y div scale s < APPLE_HEIGHT" using p c by (simp_all add: div_below)
qed

lemma draw_pixel_shows:
  assumes ok: "screen_ok buf s" and cov: "covered s x y"
  shows "\<exists>b. draw_pixel buf y x s = Some (s\<lparr>back_fb := b\<rparr>) \<and> length b = length (back_fb s) \<and> dot_shown buf (x, y) (s\<lparr>back_fb := b\<rparr>) \<and>
    (\<forall>x' y'. covered s x' y' \<longrightarrow> dot_shown buf (x', y') s \<longrightarrow> dot_shown buf (x', y') (s\<lparr>back_fb := b\<rparr>))"
proof -
  note c = covered_bounds [OF ok cov]
  have xy: "0 \<le> x" "0 \<le> y" using cov by (auto simp: covered_def)
  note d = grid_index [OF xy(1) c(2) xy(2) c(3)] and e = grid_index [OF c(4,5,6,7)]
  define dst where "dst = x + y * scr_width s"
  define b where "b = (back_fb s)[nat dst := grey (buf ! nat (x div scale s + y div scale s * APPLE_WIDTH))]"
  have in_b: "nat dst < length (back_fb s)" using d ok unfolding screen_ok_def dst_def by linarith
  have "draw_pixel buf y x s = Some (s\<lparr>back_fb := b\<rparr>)"
    using d e in_b ok by (auto simp: draw_pixel_def Let_def b_def dst_def screen_ok_def)
  moreover have "dot_shown buf (x, y) (s\<lparr>back_fb := b\<rparr>)" using in_b by (simp add: dot_shown_def b_def dst_def)
  moreover have "dot_shown buf (x', y') (s\<lparr>back_fb := b\<rparr>)" if cov': "covered s x' y'" and sh: "dot_shown buf (x', y') s" for x' y'
  proof (cases "x' + y' * scr_width s = dst")
    case True
    have "0 \<le> x'" using cov' by (simp add: covered_def)
    then have "x' = x \<and> y' = y" using grid_inj [of x' "scr_width s" x y' y] True c(2) xy covered_bounds(2) [OF ok cov'] by (simp add: dst_def)
    then show ?thesis using \<open>dot_shown buf (x, y) (s\<lparr>back_fb := b\<rparr>)\<close> by simp
  next
    case False
    have "0 \<le> x' + y' * scr_width s" using cov' covered_bounds [OF ok cov'] by (intro grid_index(1)) (auto simp: covered_def)
    then have "nat (x' + y' * scr_width s) \<noteq> nat dst" using False d(1) by (simp add: dst_def eq_nat_nat_iff)
    then show ?thesis using sh by (simp add: dot_shown_def b_def)
  qed
  ultimately show ?thesis by (intro exI [of _ b]) (auto simp: b_def)
qed



text \<open>The copy to the screen leaves the last pixel of an odd number of pixels as it was.\<close>

theorem swap_buffers_copies:
  assumes "int (length (back_fb s)) = scr_width s * scr_height s" "length (fb s) = length (back_fb s)" "even (length (fb s))"
  shows "swap_buffers s = Some (s\<lparr>fb := back_fb s\<rparr>)"
proof -
  have "2 * nat (scr_width s * scr_height s div 2) = length (fb s)" using assms(2,3) unfolding assms(1) [symmetric] by (auto simp: nat_div_distrib)
  then show ?thesis using assms(2) by (simp add: swap_buffers_def Let_def)
qed

end
