(* ===== verification/Stdio.thy ===== *)
theory Stdio
  imports Kprintf User Apple
begin

text \<open>
  The streams of the user library (\<^verbatim>\<open>user/lib/fopen.c\<close>, \<^verbatim>\<open>fclose.c\<close>, \<^verbatim>\<open>fread.c\<close>, \<^verbatim>\<open>fwrite.c\<close>, \<^verbatim>\<open>fseek.c\<close> and the functions of \<^verbatim>\<open>printf.c\<close> that
  write to a stream) and the first program (\<^verbatim>\<open>user/init.c\<close>). A stream is a file descriptor in the place of a pointer. The system calls
  are the fields of \<open>calls\<close>, on the state \<open>'k\<close> of the rest of the machine. A loop that does not end is \<open>None\<close>.
\<close>

section \<open>System calls\<close>

text \<open>\<open>c_read fd n\<close> returns its result and the bytes it has put into the buffer.\<close>

record 'k calls =
  c_open :: "string \<Rightarrow> u32 \<Rightarrow> 'k \<Rightarrow> int \<times> 'k"
  c_close :: "int \<Rightarrow> 'k \<Rightarrow> 'k"
  c_read :: "int \<Rightarrow> u64 \<Rightarrow> 'k \<Rightarrow> (int \<times> u8 list) \<times> 'k"
  c_write :: "int \<Rightarrow> u8 list \<Rightarrow> 'k \<Rightarrow> int \<times> 'k"
  c_seek :: "int \<Rightarrow> int \<Rightarrow> int \<Rightarrow> 'k \<Rightarrow> int \<times> 'k"

definition fd_of :: "u64 \<Rightarrow> int" where "fd_of stream = sint (ucast stream :: u32)"
definition stdin_ptr :: u64 where "stdin_ptr = 0"
definition stdout_ptr :: u64 where "stdout_ptr = 1"
definition stderr_ptr :: u64 where "stderr_ptr = 2"
definition SEEK_CUR :: int where "SEEK_CUR = 1"

section \<open>Opening\<close>

definition O_CREATE :: u32 where "O_CREATE = 0x01"
definition UO_RDONLY :: u32 where "UO_RDONLY = 0x02"
definition O_WRONLY :: u32 where "O_WRONLY = 0x04"
definition O_APPEND :: u32 where "O_APPEND = 0x08"
definition O_RDWR :: u32 where "O_RDWR = 0x10"

definition mode_flags :: "char \<Rightarrow> u32 option" where
  "mode_flags c =
     (if c = CHR ''r'' then Some UO_RDONLY else if c = CHR ''w'' then Some (O_CREATE OR O_WRONLY)
      else if c = CHR ''a'' then Some O_APPEND else if c = CHR ''+'' then Some O_RDWR else None)"

text \<open>The loop over the mode reads its first character every time: the pointer is not moved.\<close>

partial_function (option) fopen_flags :: "string \<Rightarrow> u32 \<Rightarrow> u32 option option" where
  "fopen_flags modes flags =
     (if modes = [] then Some (Some flags)
      else case mode_flags (hd modes) of None \<Rightarrow> Some None | Some f \<Rightarrow> fopen_flags modes (flags OR f))"

declare fopen_flags.simps [code]

definition fopen :: "'k calls \<Rightarrow> string \<Rightarrow> string \<Rightarrow> 'k \<Rightarrow> (u64 \<times> 'k) option" where
  "fopen io filename modes k = do {
     r \<leftarrow> fopen_flags modes 0;
     Some (case r of None \<Rightarrow> (0, k)
       | Some flags \<Rightarrow>
           if flags = 0 then (0, k)
           else let (fd, k) = c_open io filename flags k in (if fd < 0 then 0 else of_int fd, k))
   }"

definition fclose :: "'k calls \<Rightarrow> u64 \<Rightarrow> 'k \<Rightarrow> 'k" where
  "fclose io stream k = c_close io (fd_of stream) k"

definition fseek :: "'k calls \<Rightarrow> u64 \<Rightarrow> int \<Rightarrow> int \<Rightarrow> 'k \<Rightarrow> int \<times> 'k" where
  "fseek io stream off whence k = c_seek io (fd_of stream) off whence k"

definition ftell :: "'k calls \<Rightarrow> u64 \<Rightarrow> 'k \<Rightarrow> int \<times> 'k" where
  "ftell io stream k = c_seek io (fd_of stream) 0 SEEK_CUR k"

section \<open>Reading\<close>

definition overwrite :: "nat \<Rightarrow> u8 list \<Rightarrow> u8 list \<Rightarrow> u8 list" where
  "overwrite off bs buf = take off buf @ bs @ drop (off + length bs) buf"

text \<open>\<open>i\<close> of the elements are read and \<open>n\<close> are left; the buffer is returned with the number.\<close>

primrec fread_loop :: "'k calls \<Rightarrow> int \<Rightarrow> u64 \<Rightarrow> nat \<Rightarrow> nat \<Rightarrow> u8 list \<Rightarrow> 'k \<Rightarrow> (nat \<times> u8 list) \<times> 'k" where
  "fread_loop io fd elem i 0 buf k = ((i, buf), k)"
| "fread_loop io fd elem i (Suc n) buf k =
     (let ((r, bs), k) = c_read io fd elem k; buf = overwrite (i * unat elem) bs buf
      in if r < 1 then ((i, buf), k) else fread_loop io fd elem (Suc i) n buf k)"

definition fread :: "'k calls \<Rightarrow> u8 list \<Rightarrow> u64 \<Rightarrow> nat \<Rightarrow> u64 \<Rightarrow> 'k \<Rightarrow> (nat \<times> u8 list) \<times> 'k" where
  "fread io ptr elem n stream k = fread_loop io (fd_of stream) elem 0 n ptr k"

text \<open>\<open>junk\<close> is what the variable \<^verbatim>\<open>c\<close> holds before it is read into: one byte of its four is set.\<close>

definition fgetc :: "'k calls \<Rightarrow> u32 \<Rightarrow> u64 \<Rightarrow> 'k \<Rightarrow> int \<times> 'k" where
  "fgetc io junk stream k =
     (let ((n, buf), k) = fread io (le_bytes 4 junk) 1 1 stream k
      in (if n < 1 then EOF else sint (of_le buf :: u32), k))"

definition getc :: "'k calls \<Rightarrow> u32 \<Rightarrow> u64 \<Rightarrow> 'k \<Rightarrow> int \<times> 'k" where "getc = fgetc"
definition getchar :: "'k calls \<Rightarrow> u32 \<Rightarrow> 'k \<Rightarrow> int \<times> 'k" where "getchar io junk = fgetc io junk stdin_ptr"

text \<open>The next character of a line, cut to a \<^verbatim>\<open>char\<close>; \<open>None\<close> ends the line, also when it is the byte that \<^verbatim>\<open>EOF\<close> is cut to.\<close>

definition line_char :: "'k calls \<Rightarrow> u32 \<Rightarrow> u64 \<Rightarrow> 'k \<Rightarrow> u8 option \<times> 'k" where
  "line_char io junk stream k =
     (let (c, k) = fgetc io junk stream k; b = of_int c :: u8
      in (if b = 0x0A \<or> b = of_int EOF \<or> b = 0 then None else Some b, k))"

partial_function (option) gets_loop :: "'k calls \<Rightarrow> u32 \<Rightarrow> u8 list \<Rightarrow> 'k \<Rightarrow> (u8 list \<times> 'k) option" where
  "gets_loop io junk acc k =
     (let r = line_char io junk stdin_ptr k
      in case fst r of None \<Rightarrow> Some (acc @ [0], snd r) | Some b \<Rightarrow> gets_loop io junk (acc @ [b]) (snd r))"

definition gets :: "'k calls \<Rightarrow> u32 \<Rightarrow> 'k \<Rightarrow> (u8 list \<times> 'k) option" where
  "gets io junk k = gets_loop io junk [] k"

primrec fgets_loop :: "'k calls \<Rightarrow> u32 \<Rightarrow> u64 \<Rightarrow> nat \<Rightarrow> 'k \<Rightarrow> u8 list \<times> 'k" where
  "fgets_loop io junk stream 0 k = ([0], k)"
| "fgets_loop io junk stream (Suc n) k =
     (let (c, k) = line_char io junk stream k
      in case c of None \<Rightarrow> ([0], k) | Some b \<Rightarrow> (let (bs, k) = fgets_loop io junk stream n k in (b # bs, k)))"

text \<open>The bytes written to the buffer, or \<open>None\<close> for \<^verbatim>\<open>NULL\<close>.\<close>

definition fgets :: "'k calls \<Rightarrow> u32 \<Rightarrow> int \<Rightarrow> u64 \<Rightarrow> 'k \<Rightarrow> u8 list option \<times> 'k" where
  "fgets io junk sz stream k =
     (if sz < 1 then (None, k) else let (bs, k) = fgets_loop io junk stream (nat (sz - 1)) k in (Some bs, k))"

section \<open>Writing\<close>

primrec fwrite_loop :: "'k calls \<Rightarrow> int \<Rightarrow> nat \<Rightarrow> nat \<Rightarrow> nat \<Rightarrow> u8 list \<Rightarrow> 'k \<Rightarrow> nat \<times> 'k" where
  "fwrite_loop io fd elem i 0 buf k = (i, k)"
| "fwrite_loop io fd elem i (Suc n) buf k =
     (let (r, k) = c_write io fd (take elem (drop (i * elem) buf)) k
      in if r < 1 then (i, k) else fwrite_loop io fd elem (Suc i) n buf k)"

definition fwrite :: "'k calls \<Rightarrow> u8 list \<Rightarrow> nat \<Rightarrow> nat \<Rightarrow> u64 \<Rightarrow> 'k \<Rightarrow> nat \<times> 'k" where
  "fwrite io ptr elem n stream k = fwrite_loop io (fd_of stream) elem 0 n ptr k"

definition fputc :: "'k calls \<Rightarrow> int \<Rightarrow> u64 \<Rightarrow> 'k \<Rightarrow> int \<times> 'k" where
  "fputc io c stream k =
     (let (n, k) = fwrite io (le_bytes 4 (of_int c :: u32)) 1 1 stream k in (if n < 1 then EOF else c, k))"

definition putc :: "'k calls \<Rightarrow> int \<Rightarrow> u64 \<Rightarrow> 'k \<Rightarrow> int \<times> 'k" where "putc = fputc"
definition putchar :: "'k calls \<Rightarrow> int \<Rightarrow> 'k \<Rightarrow> int \<times> 'k" where "putchar io c = putc io c stdout_ptr"

text \<open>The characters of a string are signed.\<close>

primrec fputs :: "'k calls \<Rightarrow> u8 list \<Rightarrow> u64 \<Rightarrow> 'k \<Rightarrow> int \<times> 'k" where
  "fputs io [] stream k = (0, k)"
| "fputs io (b # bs) stream k =
     (let (res, k) = fputc io (sint b) stream k in if res = EOF then (res, k) else fputs io bs stream k)"

definition puts :: "'k calls \<Rightarrow> u8 list \<Rightarrow> 'k \<Rightarrow> int \<times> 'k" where
  "puts io str k =
     (let (res, k) = fputs io str stdout_ptr k
      in if res = EOF then (res, k)
         else let (res, k) = fputc io 0x0A stdout_ptr k in if res = EOF then (res, k) else (0, k))"

text \<open>Formatting is the code of the kernel; every character goes to the stream, and a failure there is not noticed.\<close>

definition vfprintf :: "'k calls \<Rightarrow> u64 \<Rightarrow> string \<Rightarrow> va list \<Rightarrow> 'k \<Rightarrow> (nat \<times> 'k) option" where
  "vfprintf io stream format args k =
     map_option (\<lambda>(out, n). (n, fold (\<lambda>c k. snd (fputc io (sint (of_nat (of_char c) :: u8)) stream k)) out k)) (kvprintf format args)"

definition vprintf :: "'k calls \<Rightarrow> string \<Rightarrow> va list \<Rightarrow> 'k \<Rightarrow> (nat \<times> 'k) option" where "vprintf io = vfprintf io stdout_ptr"
definition printf :: "'k calls \<Rightarrow> string \<Rightarrow> va list \<Rightarrow> 'k \<Rightarrow> (nat \<times> 'k) option" where "printf = vprintf"
definition fprintf :: "'k calls \<Rightarrow> u64 \<Rightarrow> string \<Rightarrow> va list \<Rightarrow> 'k \<Rightarrow> (nat \<times> 'k) option" where "fprintf = vfprintf"

section \<open>The first program\<close>

record uproc =
  u_pid :: int
  u_filename :: string

record init =
  running :: int
  spawn_table :: "uproc list"

definition init_start :: init where
  "init_start = \<lparr>running = 0, spawn_table = [\<lparr>u_pid = 0, u_filename = ''bin/apple''\<rparr>]\<rparr>"

text \<open>In the parent \<^verbatim>\<open>spawn\<close> is \<open>fork\<close>; the child ends with the exit status that its failed \<^verbatim>\<open>exec\<close> gives it.\<close>

definition spawn_child :: "int \<Rightarrow> int" where "spawn_child ret = (if ret \<noteq> 0 then ret else 1)"

definition spawn_proc :: "('k \<Rightarrow> int \<times> 'k) \<Rightarrow> 'k calls \<Rightarrow> nat \<Rightarrow> init \<times> 'k \<Rightarrow> (init \<times> 'k) option" where
  "spawn_proc fork io i sk = do {
     let (st, k) = sk;
     let p = spawn_table st ! i;
     let st = (if u_pid p \<noteq> 0 then st\<lparr>running := running st - 1\<rparr> else st);
     let (ret, k) = fork k;
     (if ret < 0
      then do {
        (_, k) \<leftarrow> printf io (''init: cannot exec '' @ [CHR 0x27] @ ''%s'' @ [CHR 0x27] @ '': %d'' @ [CHR 0x0A]) [VaStr (Some (u_filename p)), VaWord (of_int ret)] k;
        Some (st\<lparr>spawn_table := (spawn_table st)[i := p\<lparr>u_pid := 0\<rparr>]\<rparr>, k)
      }
      else Some (st\<lparr>running := running st + 1, spawn_table := (spawn_table st)[i := p\<lparr>u_pid := ret\<rparr>]\<rparr>, k))
   }"

partial_function (option) spawn_proc_loop :: "('k \<Rightarrow> int \<times> 'k) \<Rightarrow> 'k calls \<Rightarrow> nat \<Rightarrow> init \<times> 'k \<Rightarrow> (init \<times> 'k) option" where
  "spawn_proc_loop fork io i sk =
     (if u_pid (spawn_table (fst sk) ! i) = 0
      then case spawn_proc fork io i sk of None \<Rightarrow> None | Some sk \<Rightarrow> spawn_proc_loop fork io i sk
      else Some sk)"

definition spawn_all :: "('k \<Rightarrow> int \<times> 'k) \<Rightarrow> 'k calls \<Rightarrow> init \<times> 'k \<Rightarrow> (init \<times> 'k) option" where
  "spawn_all fork io sk = for_each (spawn_proc_loop fork io) [0..<length (spawn_table (fst sk))] sk"

definition get_proc :: "int \<Rightarrow> init \<Rightarrow> nat option" where
  "get_proc who st = find (\<lambda>i. u_pid (spawn_table st ! i) = who) [0..<length (spawn_table st)]"

text \<open>One round of the endless loop of \<^verbatim>\<open>main\<close>; \<open>waitpid\<close> returns the process and its status.\<close>

definition init_round :: "('k \<Rightarrow> int \<times> 'k) \<Rightarrow> ('k \<Rightarrow> (int \<times> int) \<times> 'k) \<Rightarrow> 'k calls \<Rightarrow> init \<times> 'k \<Rightarrow> (init \<times> 'k) option" where
  "init_round fork waitpid io sk =
     (let (st, k) = sk
      in if running st \<noteq> 0
         then let ((who, status), k) = waitpid k
              in if who < 0 then Some (st, k)
                 else do {
                   (_, k) \<leftarrow> printf io (''init: pid %d exited with %d'' @ [CHR 0x0A]) [VaWord (of_int who), VaWord (of_int status)] k;
                   (case get_proc who st of None \<Rightarrow> Some (st, k) | Some i \<Rightarrow> spawn_proc_loop fork io i (st, k))
                 }
         else spawn_all fork io sk)"

section \<open>What the streams do\<close>

text \<open>No mode opens a file: the first character is refused, the mode is empty, or the loop over the mode never ends.\<close>

theorem fopen_never_opens: "fopen io filename modes k = None \<or> fopen io filename modes k = Some (0, k)"
proof (cases "modes = []")
  case True
  then have "fopen_flags modes 0 = Some (Some 0)" by (subst fopen_flags.simps) simp
  then show ?thesis by (simp add: fopen_def)
next
  case False
  show ?thesis
  proof (cases "mode_flags (hd modes)")
    case None
    then have "fopen_flags modes 0 = Some None" using False by (subst fopen_flags.simps) simp
    then show ?thesis by (simp add: fopen_def)
  next
    case (Some f)
    have "modes' \<noteq> modes" if "fopen_flags modes' flags = Some r" for modes' flags r
      using _ that
    proof (rule fopen_flags.raw_induct [of "\<lambda>m' flags r. m' \<noteq> modes"])
      fix rec m' flags r
      assume IH: "\<And>m' flags r. rec m' flags = Some r \<Longrightarrow> m' \<noteq> modes"
        and eq: "(if m' = [] then Some (Some flags) else case mode_flags (hd m') of None \<Rightarrow> Some None | Some f \<Rightarrow> rec m' (flags OR f)) = Some r"
      show "m' \<noteq> modes" using IH [of m' "flags OR f" r] eq False Some by auto
    qed
    then have "fopen_flags modes 0 = None" by (cases "fopen_flags modes 0") auto
    then show ?thesis by (simp add: fopen_def)
  qed
qed

text \<open>A byte that is read comes back with what was in the other three bytes of the variable.\<close>

theorem fgetc_keeps_junk:
  assumes "c_read io (fd_of stream) 1 k = ((1, [b]), k')"
  shows "fgetc io 0 stream k = (int (unat b), k') \<and> fgetc io 0x100 stream k = (int (unat b) + 256, k')"
proof -
  have r: "fread io (le_bytes 4 junk) 1 1 stream k = ((1, b # tl (le_bytes 4 junk)), k')" for junk :: u32
    using assms by (simp add: fread_def overwrite_def Let_def drop_Suc)
  have j: "le_bytes 4 (0 :: u32) = [0, 0, 0, 0]" "le_bytes 4 (0x100 :: u32) = [0, 1, 0, 0]" by code_simp+
  have u: "unat b < 256" using unsigned_less [of b] by simp
  have e: "of_le [b, 0, 0, 0] = (of_nat (unat b) :: u32)" "of_le [b, 1, 0, 0] = (of_nat (unat b + 256) :: u32)"
  proof -
    show "of_le [b, 0, 0, 0] = (of_nat (unat b) :: u32)" by simp
    have q: "bit (256 :: u32) n \<longleftrightarrow> n = 8" for n using bit_exp_iff [where 'a = u32, of 8 n] by auto
    have "ucast b OR (256 :: u32) = ucast b + 256"
    proof (rule disjunctive_add [symmetric])
      fix n
      show "\<not> bit (ucast b :: u32) n \<or> \<not> bit (256 :: u32) n" using bit_imp_le_length [of b n] q [of n] by (auto simp: bit_ucast_iff)
    qed
    then show "of_le [b, 1, 0, 0] = (of_nat (unat b + 256) :: u32)" by (simp add: push_bit_eq_mult)
  qed
  have "sint (of_nat n :: u32) = int n" if "n < 512" for n
    using that sint_nonneg [of "of_nat n :: u32"] by (simp add: unat_of_nat32 uint_nat)
  note sm = this
  have "fread io (le_bytes 4 (0 :: u32)) 1 1 stream k = ((1, [b, 0, 0, 0]), k')" "fread io (le_bytes 4 (0x100 :: u32)) 1 1 stream k = ((1, [b, 1, 0, 0]), k')"
    using r [of 0] r [of "0x100"] unfolding j by simp_all
  then have "fgetc io 0 stream k = (sint (of_le [b, 0, 0, 0] :: u32), k')" "fgetc io 0x100 stream k = (sint (of_le [b, 1, 0, 0] :: u32), k')"
    unfolding fgetc_def by (simp_all del: of_le.simps)
  then show ?thesis using u unfolding e using sm [of "unat b"] sm [of "unat b + 256"] by (simp del: of_nat_add) simp
qed

text \<open>A line fits into the buffer with its end.\<close>

theorem fgets_bounded: "fst (fgets io junk sz stream k) = Some bs \<Longrightarrow> int (length bs) \<le> sz \<and> last bs = 0"
proof -
  have "length (fst (fgets_loop io junk stream n k)) \<le> Suc n \<and> fst (fgets_loop io junk stream n k) \<noteq> [] \<and> last (fst (fgets_loop io junk stream n k)) = 0" for n k
  proof (induction n arbitrary: k)
    case (Suc n)
    obtain c k1 where c: "line_char io junk stream k = (c, k1)" by fastforce
    obtain bs k2 where "fgets_loop io junk stream n k1 = (bs, k2)" by fastforce
    then show ?case using Suc [of k1] c by (cases c) (auto simp: Let_def)
  qed simp
  from this [of "nat (sz - 1)" k] show "fst (fgets io junk sz stream k) = Some bs \<Longrightarrow> ?thesis"
    by (auto simp: fgets_def Let_def split: if_splits prod.splits)
qed

text \<open>A stream that takes every byte gets a string without the byte 255 whole; at that byte the result of \<open>fputc\<close> looks like \<^verbatim>\<open>EOF\<close>.\<close>

lemma fputc_writes:
  assumes "\<And>b k. c_write io (fd_of stream) [b] k = (1, add b k)"
  shows "fputc io c stream k = (c, add (of_int c) k)"
proof -
  have "(ucast (of_int c :: u32) :: u8) = of_int c" by (rule bit_word_eqI) (auto simp: bit_simps)
  then have "take 1 (le_bytes 4 (of_int c :: u32)) = [of_int c]" by (simp add: numeral_eq_Suc)
  then show ?thesis using assms by (simp add: fputc_def fwrite_def Let_def)
qed

theorem fputs_writes:
  assumes "\<And>b k. c_write io (fd_of stream) [b] k = (1, add b k)"
  shows "(255 \<notin> set bs \<longrightarrow> fputs io bs stream k = (0, fold add bs k)) \<and>
    (fputs io (255 # bs) stream k = (EOF, add 255 k))"
proof -
  have nz: "sint b = EOF \<longleftrightarrow> b = 255" for b :: u8
  proof
    assume "sint b = EOF"
    then have "(of_int (sint b) :: u8) = of_int (-1)" by (simp only: EOF_def)
    then show "b = 255" by simp
  qed (simp add: EOF_def)
  have w: "fputc io (sint b) stream k = (sint b, add b k)" for b :: u8 and k using fputc_writes [OF assms, of "sint b" k] by simp
  have "255 \<notin> set bs \<Longrightarrow> fputs io bs stream k = (0, fold add bs k)" for k
    by (induction bs arbitrary: k) (auto simp: w nz)
  moreover have "fputs io (255 # bs) stream k = (EOF, add 255 k)" unfolding fputs.simps w Let_def using nz [of 255] by simp
  ultimately show ?thesis by blast
qed

section \<open>The first program never respawns\<close>

text \<open>\<open>running\<close> counts the entries of the table with a process.\<close>

definition live :: "uproc list \<Rightarrow> int" where "live ps = (\<Sum>p\<leftarrow>ps. if u_pid p \<noteq> 0 then 1 else 0)"
definition init_inv :: "init \<Rightarrow> bool" where "init_inv st \<longleftrightarrow> running st = live (spawn_table st)"

lemma live_update: "i < length ps \<Longrightarrow> live (ps[i := p]) = live ps - (if u_pid (ps ! i) \<noteq> 0 then 1 else 0) + (if u_pid p \<noteq> 0 then 1 else 0)"
  by (induction ps arbitrary: i) (auto simp: live_def split: nat.splits)

lemma live_pos: "\<forall>p \<in> set ps. u_pid p \<noteq> 0 \<Longrightarrow> live ps = int (length ps)"
  by (induction ps) (auto simp: live_def)

lemma spawn_proc_inv:
  assumes "spawn_proc fork io i (st, k) = Some (st', k')" "init_inv st" "i < length (spawn_table st)" "\<And>k. fst (fork k) \<noteq> 0"
  shows "init_inv st' \<and> length (spawn_table st') = length (spawn_table st)"
proof -
  obtain ret k1 where f: "fork k = (ret, k1)" by fastforce
  then have "ret \<noteq> 0" using assms(4) [of k] by simp
  then show ?thesis using assms(1-3) f by (auto simp: spawn_proc_def init_inv_def live_update Let_def split: if_splits Option.bind_splits)
qed

lemma spawn_proc_loop_inv:
  assumes "spawn_proc_loop fork io i sk = Some sk'" "init_inv (fst sk)" "i < length (spawn_table (fst sk))" "\<And>k. fst (fork k) \<noteq> 0"
  shows "init_inv (fst sk') \<and> length (spawn_table (fst sk')) = length (spawn_table (fst sk))"
proof -
  let ?P = "\<lambda>fork' io' j sk sk'. fork' = fork \<longrightarrow> init_inv (fst sk) \<longrightarrow> j < length (spawn_table (fst sk)) \<longrightarrow>
    init_inv (fst sk') \<and> length (spawn_table (fst sk')) = length (spawn_table (fst sk))"
  have "?P fork io i sk sk'"
    using _ assms(1)
  proof (rule spawn_proc_loop.raw_induct [of ?P])
    fix rec fork' io' j sk sk'
    assume IH: "\<And>fork' io' j sk sk'. rec fork' io' j sk = Some sk' \<Longrightarrow> ?P fork' io' j sk sk'"
      and eq: "(if u_pid (spawn_table (fst sk) ! j) = 0 then case spawn_proc fork' io' j sk of None \<Rightarrow> None | Some sk \<Rightarrow> rec fork' io' j sk else Some sk) = Some sk'"
    show "?P fork' io' j sk sk'"
      using IH [of fork' io' j _ sk'] eq spawn_proc_inv [of fork' io' j "fst sk" "snd sk"] assms(4)
      by (auto split: if_splits option.splits)
  qed
  then show ?thesis using assms(2,3) by blast
qed

text \<open>The counter is right after every round of \<^verbatim>\<open>main\<close>.\<close>

theorem init_round_counts:
  assumes "init_round fork waitpid io (st, k) = Some (st', k')" "init_inv st" "\<And>k. fst (fork k) \<noteq> 0"
  shows "init_inv st' \<and> length (spawn_table st') = length (spawn_table st)"
proof -
  let ?I = "\<lambda>sk. init_inv (fst sk) \<and> length (spawn_table (fst sk)) = length (spawn_table st)"
  have all: "?I sk'" if "spawn_all fork io (st, k) = Some sk'" for sk'
  proof (rule for_each_inv [OF that [unfolded spawn_all_def], of ?I])
    fix i sk1 sk2 assume "i \<in> set [0..<length (spawn_table (fst (st, k)))]" "?I sk1" "spawn_proc_loop fork io i sk1 = Some sk2"
    then show "?I sk2" using spawn_proc_loop_inv [of fork io i sk1 sk2] assms(3) by auto
  qed (use assms(2) in simp)
  have one: "?I sk'" if "spawn_proc_loop fork io i (st, k2) = Some sk'" "get_proc p st = Some i" for i p k2 sk'
    using spawn_proc_loop_inv [OF that(1)] that(2) assms(2,3) by (auto simp: get_proc_def find_Some_iff)
  show ?thesis using assms(1,2) all one
    by (auto simp: init_round_def Let_def split: if_splits prod.splits option.splits Option.bind_splits)
qed

text \<open>When every entry has its process, no round forks, whatever has exited: the loop that should start the process again runs only
  while its entry has none, and the entry that was found still has the number of the dead process.\<close>

theorem init_never_respawns:
  assumes "init_inv st" "spawn_table st \<noteq> []" "\<forall>p \<in> set (spawn_table st). u_pid p \<noteq> 0"
  shows "init_round fork waitpid io (st, k) = init_round fork' waitpid io (st, k) \<and>
    (\<forall>st' k'. init_round fork waitpid io (st, k) = Some (st', k') \<longrightarrow> st' = st)"
proof -
  have r: "running st \<noteq> 0" using assms live_pos [OF assms(3)] by (simp add: init_inv_def)
  have "spawn_proc_loop f io i (st, k2) = Some (st, k2)" if "get_proc p st = Some i" for f i p k2
    using that assms(3) by (subst spawn_proc_loop.simps) (auto simp: get_proc_def find_Some_iff)
  then show ?thesis using r by (auto simp: init_round_def Let_def split: prod.splits option.splits Option.bind_splits)
qed

end
