(* ===== verification/Kheap.thy ===== *)
theory Kheap
  imports Memory Klib User
begin

text \<open>
  The heap of the kernel (\<^verbatim>\<open>kernel/lib/kalloc.c\<close>). A block has a page in front of it for its header. The heap works on pages that the memory
  contexts hand out and take back; it is written over these two operations and over \<open>there\<close>, which says whether an address is mapped,
  and the locale \<open>page_source\<close> says what it relies on. \<^theory_text>\<open>Memory\<close> provides it.
\<close>

section \<open>Operations\<close>

definition KMAGIC :: u64 where "KMAGIC = 0xBEEFCAFE"

record 'p kheap =
  kpages :: 'p
  kbytes :: bytes

definition kh_len :: "bytes \<Rightarrow> u64 \<Rightarrow> u64" where "kh_len m header = of_le (get_bytes m header 8)"
definition kh_magic :: "bytes \<Rightarrow> u64 \<Rightarrow> u64" where "kh_magic m header = of_le (get_bytes m (header + 8) 8)"

text \<open>An access to a page that is not there is a fault, \<open>None\<close>; 0 is \<^verbatim>\<open>NULL\<close>.\<close>

definition get_page_header :: "('p \<Rightarrow> u64 \<Rightarrow> bool) \<Rightarrow> u64 \<Rightarrow> 'p kheap \<Rightarrow> u64 option" where
  "get_page_header there ptr kh =
     (let header = ptr - PAGE_SIZE
      in if \<not> there (kpages kh) header then None
         else Some (if kh_magic (kbytes kh) header \<noteq> KMAGIC then 0 else header))"

definition kalloc :: "(u64 \<Rightarrow> 'p \<Rightarrow> (u64 \<times> 'p) option) \<Rightarrow> u64 \<Rightarrow> 'p kheap \<Rightarrow> (u64 \<times> 'p kheap) option" where
  "kalloc pages_alloc sz kh = do {
     let pages = (sz + PAGE_SIZE - 1) div PAGE_SIZE;
     (header, p) \<leftarrow> pages_alloc (pages + 1) (kpages kh);
     Some (if header = 0 then (0, kh\<lparr>kpages := p\<rparr>)
           else (header + PAGE_SIZE,
                 \<lparr>kpages = p, kbytes = put_bytes header (le_bytes 8 sz) (put_bytes (header + 8) (le_bytes 8 KMAGIC) (kbytes kh))\<rparr>))
   }"

definition kfree :: "('p \<Rightarrow> u64 \<Rightarrow> bool) \<Rightarrow> (u64 \<Rightarrow> 'p \<Rightarrow> 'p option) \<Rightarrow> u64 \<Rightarrow> 'p kheap \<Rightarrow> 'p kheap option" where
  "kfree there pages_free ptr kh =
     (if ptr = 0 then Some kh
      else do {
        header \<leftarrow> get_page_header there ptr kh;
        (if header = 0 then Some kh
         else do { p \<leftarrow> pages_free header (kpages kh); Some (kh\<lparr>kpages := p\<rparr>) })
      })"

definition krealloc :: "('p \<Rightarrow> u64 \<Rightarrow> bool) \<Rightarrow> (u64 \<Rightarrow> 'p \<Rightarrow> (u64 \<times> 'p) option) \<Rightarrow> (u64 \<Rightarrow> 'p \<Rightarrow> 'p option) \<Rightarrow> u64 \<Rightarrow> u64 \<Rightarrow> 'p kheap \<Rightarrow> (u64 \<times> 'p kheap) option" where
  "krealloc there pages_alloc pages_free src dst_len kh =
     (if dst_len = 0 then do { kh \<leftarrow> kfree there pages_free src kh; Some (0, kh) }
      else if src = 0 then kalloc pages_alloc dst_len kh
      else do {
        header \<leftarrow> get_page_header there src kh;
        (if header = 0 then Some (0, kh)
         else let src_len = kh_len (kbytes kh) header
              in if src_len = 0 then Some (0, kh)
                 else do {
                   (dst, kh) \<leftarrow> kalloc pages_alloc dst_len kh;
                   (if dst = 0 then Some (0, kh)
                    else let src_len = (if dst_len < src_len then dst_len else src_len);
                             kh = kh\<lparr>kbytes := memcpy dst src (unat src_len) (kbytes kh)\<rparr>
                         in do { kh \<leftarrow> kfree there pages_free src kh; Some (dst, kh) })
                 })
      })"

section \<open>Addresses\<close>

lemma put_bytes_outside:
  assumes "x \<notin> {a..<b}" "unat a + length bs \<le> unat b"
  shows "put_bytes a bs m x = m x"
proof (rule ccontr)
  assume "put_bytes a bs m x \<noteq> m x"
  then have k: "unat (x - a) < length bs" by (auto simp: put_bytes_def split: if_splits)
  have "unat (a + (x - a)) = unat a + unat (x - a)"
    using k assms(2) unat_lt64 [of b] by (intro unat_add_small) simp
  then show False using assms k by (auto simp: word_le_nat_alt word_less_nat_alt)
qed

lemma header_fields:
  assumes "unat h + 16 \<le> 2 ^ 48"
  shows "kh_len (put_bytes h (le_bytes 8 sz) (put_bytes (h + 8) (le_bytes 8 mg) m)) h = sz"
    "kh_magic (put_bytes h (le_bytes 8 sz) (put_bytes (h + 8) (le_bytes 8 mg) m)) h = mg"
proof -
  have "unat (h + 8) = unat h + 8" using assms unat_add_small [of h 8] by simp
  then have "apart_ranges h 8 (h + 8) 8" using assms by (simp add: apart_ranges_def)
  then show "kh_magic (put_bytes h (le_bytes 8 sz) (put_bytes (h + 8) (le_bytes 8 mg) m)) h = mg"
    using get_put_apart [of h "le_bytes 8 sz" "h + 8" 8] get_put_same [of "le_bytes 8 mg" "h + 8" m] by (simp add: kh_magic_def)
  show "kh_len (put_bytes h (le_bytes 8 sz) (put_bytes (h + 8) (le_bytes 8 mg) m)) h = sz"
    using get_put_same [of "le_bytes 8 sz" h] by (simp add: kh_len_def)
qed

lemma page_count:
  assumes "unat sz < 2 ^ 30"
  shows "unat ((sz + PAGE_SIZE - 1) div PAGE_SIZE + 1) = (unat sz + 4095) div 4096 + 1" "unat sz + 4096 \<le> 4096 * ((unat sz + 4095) div 4096 + 1)"
    "4096 * ((unat sz + 4095) div 4096 + 1) \<le> unat sz + 8191"
proof -
  have "unat (4095 + sz) = unat sz + 4095" using assms unat_add_small [of 4095 sz] by simp
  then have d: "unat ((sz + PAGE_SIZE - 1) div PAGE_SIZE) = (unat sz + 4095) div 4096" unfolding PAGE_SIZE_def unat_div by simp
  have "(unat sz + 4095) div 4096 < 2 ^ 30" using assms by simp
  then show "unat ((sz + PAGE_SIZE - 1) div PAGE_SIZE + 1) = (unat sz + 4095) div 4096 + 1"
    using d unat_add_small [of "(sz + PAGE_SIZE - 1) div PAGE_SIZE" 1] by simp
  define q where "q = (unat sz + 4095) div 4096"
  define r where "r = (unat sz + 4095) mod 4096"
  have "q * 4096 + r = unat sz + 4095" "r < 4096" by (simp_all add: q_def r_def)
  then show "unat sz + 4096 \<le> 4096 * ((unat sz + 4095) div 4096 + 1)" "4096 * ((unat sz + 4095) div 4096 + 1) \<le> unat sz + 8191"
    unfolding q_def [symmetric] by simp_all
qed

lemma block_addresses:
  fixes ptr len :: u64
  assumes "4096 < unat ptr" "unat ptr + unat len \<le> 2 ^ 48"
  shows "unat (ptr - 4096) = unat ptr - 4096" "i < unat len \<Longrightarrow> ptr + of_nat i \<in> {ptr - 4096..<ptr + len}"
    "i < 4096 \<Longrightarrow> ptr - 4096 + of_nat i \<in> {ptr - 4096..<ptr + len}" "i < 4096 \<Longrightarrow> j < unat len \<Longrightarrow> ptr - 4096 + of_nat i \<noteq> ptr + of_nat j"
proof -
  have "(4096 :: u64) \<le> ptr" using assms(1) by (simp add: word_le_nat_alt)
  from unat_sub [OF this] show h: "unat (ptr - 4096) = unat ptr - 4096" by simp
  have e: "unat (ptr + len) = unat ptr + unat len" using assms(2) by (intro unat_add_small) simp
  have j: "unat (ptr + of_nat j) = unat ptr + j" if "j < unat len" for j using that assms(2) by (intro unat_add_of_nat) simp
  have i: "unat (ptr - 4096 + of_nat i) = unat ptr - 4096 + i" if "i < 4096" for i
    using that assms h unat_add_of_nat [of "ptr - 4096" i] by simp
  show "i < unat len \<Longrightarrow> ptr + of_nat i \<in> {ptr - 4096..<ptr + len}" using j h e by (auto simp: word_le_nat_alt word_less_nat_alt)
  show "i < 4096 \<Longrightarrow> ptr - 4096 + of_nat i \<in> {ptr - 4096..<ptr + len}" using i h e assms(1) by (auto simp: word_le_nat_alt word_less_nat_alt)
  show "i < 4096 \<Longrightarrow> j < unat len \<Longrightarrow> ptr - 4096 + of_nat i \<noteq> ptr + of_nat j"
    using i [of i] j [of j] assms(1) by (metis add_diff_inverse_nat add_less_cancel_right add.commute less_imp_not_less not_add_less1 not_less_iff_gr_or_eq trans_less_add1)
qed

lemma get_bytes_cong: "(\<And>i. i < n \<Longrightarrow> m (a + of_nat i) = m' (a + of_nat i)) \<Longrightarrow> get_bytes m a n = get_bytes m' a n"
  by (simp add: get_bytes_def)

lemma header_cong:
  assumes "\<And>i. i < 16 \<Longrightarrow> m (h + of_nat i) = m' (h + of_nat i)"
  shows "kh_len m h = kh_len m' h" "kh_magic m h = kh_magic m' h"
proof -
  show "kh_len m h = kh_len m' h" unfolding kh_len_def using assms by (intro arg_cong [of _ _ of_le] get_bytes_cong) simp
  have "m (h + 8 + of_nat i) = m' (h + 8 + of_nat i)" if "i < 8" for i using assms [of "8 + i"] that by (simp add: add.assoc)
  then show "kh_magic m h = kh_magic m' h" unfolding kh_magic_def by (intro arg_cong [of _ _ of_le] get_bytes_cong)
qed

section \<open>What the heap relies on\<close>

text \<open>\<open>ok T p\<close>: the pages are well-formed and the addresses in \<open>T\<close> are handed out; \<open>ready n p\<close>: the source can be asked for \<open>n\<close> pages. The answer is 0 or
  the start of addresses that were not handed out; pages that were there stay. Taking back always returns.\<close>

locale page_source =
  fixes ok :: "u64 set \<Rightarrow> 'p \<Rightarrow> bool"
    and ready :: "u64 \<Rightarrow> 'p \<Rightarrow> bool"
    and there :: "'p \<Rightarrow> u64 \<Rightarrow> bool"
    and pages_alloc :: "u64 \<Rightarrow> 'p \<Rightarrow> (u64 \<times> 'p) option"
    and pages_free :: "u64 \<Rightarrow> 'p \<Rightarrow> 'p option"
  assumes alloc_fresh: "ok T p \<Longrightarrow> ready n p \<Longrightarrow> \<exists>v p'. pages_alloc n p = Some (v, p') \<and>
      (v \<noteq> 0 \<longrightarrow> ok (T \<union> {v..<v + of_nat (unat n * 4096)}) p' \<and> T \<inter> {v..<v + of_nat (unat n * 4096)} = {} \<and>
         unat v + 4096 * unat n \<le> 2 ^ 48 \<and> (\<forall>a \<in> T. there p a \<longrightarrow> there p' a))"
    and free_returns: "ok T p \<Longrightarrow> \<exists>p'. pages_free v p = Some p'"
begin

text \<open>A block: its header names its length, and both the page in front of it and its bytes are handed out.\<close>

definition block :: "u64 set \<Rightarrow> 'p kheap \<Rightarrow> u64 \<Rightarrow> u64 \<Rightarrow> bool" where
  "block T kh ptr len \<longleftrightarrow> ok T (kpages kh) \<and> 4096 < unat ptr \<and> unat ptr + unat len \<le> 2 ^ 48 \<and>
     {ptr - 4096..<ptr + len} \<subseteq> T \<and> kh_magic (kbytes kh) (ptr - 4096) = KMAGIC \<and> kh_len (kbytes kh) (ptr - 4096) = len"

lemma alloc_block:
  assumes "ok T (kpages kh)" "unat sz < 2 ^ 30" "ready ((sz + PAGE_SIZE - 1) div PAGE_SIZE + 1) (kpages kh)"
  shows "\<exists>ptr kh' T'. kalloc pages_alloc sz kh = Some (ptr, kh') \<and>
    (ptr \<noteq> 0 \<longrightarrow> block T' kh' ptr sz \<and> T \<subseteq> T' \<and> T \<inter> {ptr - 4096..<ptr + sz} = {} \<and>
       (\<forall>a. a \<notin> {ptr - 4096..<ptr + sz} \<longrightarrow> kbytes kh' a = kbytes kh a) \<and>
       (\<forall>a \<in> T. there (kpages kh) a \<longrightarrow> there (kpages kh') a))"
proof -
  define n where "n = (sz + PAGE_SIZE - 1) div PAGE_SIZE + 1"
  note c = page_count [OF assms(2), folded n_def]
  obtain v p' where v: "pages_alloc n (kpages kh) = Some (v, p')"
    and fresh: "v \<noteq> 0 \<Longrightarrow> ok (T \<union> {v..<v + of_nat (unat n * 4096)}) p'" "v \<noteq> 0 \<Longrightarrow> T \<inter> {v..<v + of_nat (unat n * 4096)} = {}"
      "v \<noteq> 0 \<Longrightarrow> unat v + 4096 * unat n \<le> 2 ^ 48" "v \<noteq> 0 \<Longrightarrow> \<forall>a \<in> T. there (kpages kh) a \<longrightarrow> there p' a"
    using alloc_fresh [OF assms(1,3)] by (auto simp: n_def)
  show ?thesis
  proof (cases "v = 0")
    case True
    then show ?thesis using v by (simp add: kalloc_def n_def)
  next
    case False
    define kb where "kb = put_bytes v (le_bytes 8 sz) (put_bytes (v + 8) (le_bytes 8 KMAGIC) (kbytes kh))"
    let ?U = "{v..<v + of_nat (unat n * 4096)}" and ?ptr = "v + 4096"
    have k: "kalloc pages_alloc sz kh = Some (?ptr, \<lparr>kpages = p', kbytes = kb\<rparr>)"
      using v False by (simp add: kalloc_def n_def kb_def) (simp add: PAGE_SIZE_def)
    have top: "unat v + (unat sz + 4096) \<le> unat v + 4096 * unat n" "unat v + 4096 * unat n \<le> 2 ^ 48" using fresh(3) [OF False] c by simp_all
    have u: "unat ?ptr = unat v + 4096" "unat (v + 8) = unat v + 8" using top unat_add_small [of v 4096] unat_add_small [of v 8] by simp_all
    have u2: "unat (?ptr + sz) = unat v + 4096 + unat sz" using top unat_add_small [of ?ptr sz] u(1) by simp
    have "unat (of_nat (unat n * 4096) :: u64) = unat n * 4096" using top by (intro unat_of_nat64) simp
    then have u3: "unat (v + of_nat (unat n * 4096)) = unat v + unat n * 4096"
      using top unat_add_small [of v "of_nat (unat n * 4096)"] by (simp del: of_nat_mult)
    note u = u u2 u3
    have sub: "{v..<?ptr + sz} \<subseteq> ?U" using top u by (auto simp: word_less_nat_alt word_le_nat_alt)
    have "kb a = kbytes kh a" if "a \<notin> {v..<?ptr + sz}" for a
      unfolding kb_def using that u put_bytes_outside [of a v "?ptr + sz" "le_bytes 8 sz"] put_bytes_outside [of a "v + 8" "?ptr + sz" "le_bytes 8 KMAGIC"]
      by (auto simp: word_less_nat_alt word_le_nat_alt)
    moreover have "kh_len kb v = sz" "kh_magic kb v = KMAGIC" using header_fields [of v sz KMAGIC "kbytes kh"] top c(1) by (simp_all add: kb_def)
    moreover have "0 < unat v" using False by (simp add: unat_gt_0)
    ultimately have "block (T \<union> ?U) \<lparr>kpages = p', kbytes = kb\<rparr> ?ptr sz" "\<forall>a. a \<notin> {v..<?ptr + sz} \<longrightarrow> kb a = kbytes kh a"
      using fresh(1) [OF False] sub u top by (auto simp: block_def)
    moreover have "T \<inter> {v..<?ptr + sz} = {}" using fresh(2) [OF False] sub by blast
    ultimately show ?thesis using k fresh(4) [OF False] by (intro exI [of _ ?ptr] exI [of _ "\<lparr>kpages = p', kbytes = kb\<rparr>"] exI [of _ "T \<union> ?U"]) auto
  qed
qed

text \<open>A block that moves keeps its contents, up to the shorter of the two lengths.\<close>

lemma realloc_keeps:
  assumes "block T kh src len" "there (kpages kh) (src - 4096)" "len \<noteq> 0" "dst_len \<noteq> 0" "unat dst_len < 2 ^ 30"
    and "ready ((dst_len + PAGE_SIZE - 1) div PAGE_SIZE + 1) (kpages kh)"
  shows "\<exists>dst kh'. krealloc there pages_alloc pages_free src dst_len kh = Some (dst, kh') \<and>
    (dst \<noteq> 0 \<longrightarrow> kh_len (kbytes kh') (dst - 4096) = dst_len \<and> T \<inter> {dst - 4096..<dst + dst_len} = {} \<and>
       (\<forall>i < min (unat len) (unat dst_len). kbytes kh' (dst + of_nat i) = kbytes kh (src + of_nat i)))"
proof -
  have b: "ok T (kpages kh)" "4096 < unat src" "unat src + unat len \<le> 2 ^ 48" "{src - 4096..<src + len} \<subseteq> T"
    "kh_magic (kbytes kh) (src - 4096) = KMAGIC" "kh_len (kbytes kh) (src - 4096) = len" using assms(1) by (auto simp: block_def)
  have nz: "src \<noteq> 0" "src - PAGE_SIZE \<noteq> 0" using b(2) by (auto simp: PAGE_SIZE_def)
  have h: "get_page_header there src kh = Some (src - 4096)" using assms(2) b(5) by (simp add: get_page_header_def PAGE_SIZE_def)
  obtain dst kh1 T' where d: "kalloc pages_alloc dst_len kh = Some (dst, kh1)"
    and new: "dst \<noteq> 0 \<Longrightarrow> block T' kh1 dst dst_len" "dst \<noteq> 0 \<Longrightarrow> T \<inter> {dst - 4096..<dst + dst_len} = {}"
      "dst \<noteq> 0 \<Longrightarrow> \<forall>a. a \<notin> {dst - 4096..<dst + dst_len} \<longrightarrow> kbytes kh1 a = kbytes kh a"
      "dst \<noteq> 0 \<Longrightarrow> \<forall>a \<in> T. there (kpages kh) a \<longrightarrow> there (kpages kh1) a"
    using alloc_block [OF b(1) assms(5,6)] by auto
  define n where "n = unat (if dst_len < len then dst_len else len)"
  have n: "n = min (unat len) (unat dst_len)" by (auto simp: n_def word_less_nat_alt)
  show ?thesis
  proof (cases "dst = 0")
    case True
    then show ?thesis using assms(3,4) nz h b(6) d by (simp add: krealloc_def Let_def)
  next
    case False
    have db: "4096 < unat dst" "unat dst + unat dst_len \<le> 2 ^ 48" "ok T' (kpages kh1)" "kh_len (kbytes kh1) (dst - 4096) = dst_len"
      using new(1) [OF False] by (auto simp: block_def)
    note src = block_addresses [OF b(2,3)] and dst = block_addresses [OF db(1,2)]
    let ?U = "{dst - 4096..<dst + dst_len}"
    have dis: "a \<in> T \<and> a \<notin> ?U" if "a \<in> {src - 4096..<src + len}" for a using that b(4) new(2) [OF False] by blast
    have T: "src + of_nat i \<in> T \<and> src + of_nat i \<notin> ?U" if "i < n" for i using that by (intro dis src(2)) (simp add: n)
    have hT: "src - 4096 + of_nat i \<in> T \<and> src - 4096 + of_nat i \<notin> ?U" if "i < 4096" for i using that by (intro dis src(3))
    have U: "dst + of_nat j \<in> ?U" if "j < n" for j using that dst(2) [of j] by (simp add: n)
    define kb where "kb = memcpy dst src n (kbytes kh1)"
    have "apart dst src n" using T U by (metis apart_def)
    then have kb: "kb (dst + of_nat i) = kbytes kh1 (src + of_nat i)" if "i < n" for i
      unfolding kb_def using that db(2) by (intro memcpy_apart) (auto simp: n)
    have out: "kb a = kbytes kh1 a" if "\<And>j. j < n \<Longrightarrow> a \<noteq> dst + of_nat j" for a
      using memcpy_spec [of n src dst "kbytes kh1"] that db(2) \<open>apart dst src n\<close> unfolding kb_def by (auto simp: n apart_def)
    have same: "kbytes kh1 a = kbytes kh a" if "a \<notin> ?U" for a using new(3) [OF False] that by blast
    have "kb (src - 4096 + of_nat i) = kbytes kh (src - 4096 + of_nat i)" if "i < 16" for i
    proof -
      have "src - 4096 + of_nat i \<notin> ?U" using hT [of i] that by simp
      then show ?thesis using out [of "src - 4096 + of_nat i"] same U by metis
    qed
    then have "kh_magic kb (src - 4096) = kh_magic (kbytes kh) (src - 4096)" by (rule header_cong(2))
    then have "get_page_header there src (kh1\<lparr>kbytes := kb\<rparr>) = Some (src - 4096)"
      using new(4) [OF False] assms(2) b(5) hT [of 0] by (simp add: get_page_header_def PAGE_SIZE_def)
    moreover obtain p2 where "pages_free (src - 4096) (kpages kh1) = Some p2" using free_returns [OF db(3)] by blast
    ultimately have "kfree there pages_free src (kh1\<lparr>kbytes := kb\<rparr>) = Some (kh1\<lparr>kbytes := kb, kpages := p2\<rparr>)"
      using nz by (simp add: kfree_def PAGE_SIZE_def)
    then have "krealloc there pages_alloc pages_free src dst_len kh = Some (dst, kh1\<lparr>kbytes := kb, kpages := p2\<rparr>)"
      using assms(3,4) nz h b(6) d False by (simp add: krealloc_def Let_def kb_def n_def PAGE_SIZE_def)
    moreover have "kh_len kb (dst - 4096) = dst_len"
      using header_cong(1) [of kb "dst - 4096" "kbytes kh1"] out dst(4) db(4) by (simp add: n)
    moreover have "kb (dst + of_nat i) = kbytes kh (src + of_nat i)" if "i < n" for i using kb [OF that] same T [OF that] by simp
    ultimately show ?thesis using new(2) [OF False] by (auto simp: n)
  qed
qed

end

section \<open>The pages of the kernel\<close>

text \<open>The context of the kernel is well-formed and has the addresses \<open>T\<close> taken; it has room to take \<open>n\<close> pages; a page is in its tables.\<close>

definition kernel_taken :: "u64 set \<Rightarrow> memstate \<Rightarrow> bool" where
  "kernel_taken T ms \<longleftrightarrow> (\<exists>rs. ctx_ok kernel_mem_ctx rs ms \<and> taken rs = T)"

definition kernel_ready :: "u64 \<Rightarrow> memstate \<Rightarrow> bool" where
  "kernel_ready n ms \<longleftrightarrow> room 2 (virtctx (ctx_of ms kernel_mem_ctx)) \<and> 0 < n \<and> unat n < 2 ^ 19 \<and> pages_indexed (phys (pgs ms)) \<and>
     (\<exists>v. virt_alloc kernel_mem_ctx n ms = Some v \<and> unat v + 8192 * unat n \<le> 2 ^ 48)"

definition kernel_page :: "memstate \<Rightarrow> u64 \<Rightarrow> bool" where
  "kernel_page ms a \<longleftrightarrow> ctx_view kernel_mem_ctx ms a \<noteq> None"

lemma int_pages_le: "4096 * nat (int_pages w) \<le> unat w"
proof -
  define len where "len = sint (ucast w :: u32)"
  have "len \<le> uint (ucast w :: u32)" unfolding len_def sint_uint signed_take_bit_int_less_eq_self_iff by (rule order_trans [OF _ uint_ge_0]) simp
  also have "\<dots> \<le> uint w" by (simp add: unsigned_ucast_eq take_bit_int_less_eq_self_iff)
  finally have len: "len \<le> uint w" .
  show ?thesis
  proof (cases "len < 0")
    case True
    then show ?thesis by (simp add: int_pages_def Let_def len_def [symmetric] pos_imp_zdiv_nonneg_iff)
  next
    case False
    then have "4096 * (len div 4096) \<le> uint w" "0 \<le> len div 4096" using len by (simp_all add: pos_imp_zdiv_nonneg_iff)
    then have "int (4096 * nat (int_pages w)) \<le> int (unat w)" using False by (simp add: int_pages_def Let_def len_def [symmetric])
    then show ?thesis by (simp only: of_nat_le_iff)
  qed
qed

lemma mem_free_pages_returns:
  assumes "ctx_ok c rs ms"
  shows "\<exists>ms'. mem_free_pages c v ms = Some ms'"
proof (cases "v = 0")
  case True
  then show ?thesis by (simp add: mem_free_pages_def)
next
  case False
  have inv: "virt_inv (virtctx (ctx_of ms c)) (nodes ms) rs" and pg: "pg_ok (pml4 (ctx_of ms c)) (pgs ms)" using assms by (auto simp: ctx_ok_def)
  have tl: "tiles 0 rs 0x1000000000000" using inv by (simp add: virt_inv_def ranges_ok_def)
  obtain r ms1 rs1 where f: "virt_free c v ms = Some (r, ms1)" "pgs ms1 = pgs ms" "pml4 (ctx_of ms1 c) = pml4 (ctx_of ms c)"
    "case (if v = 0 \<or> v mod PAGE_SIZE \<noteq> 0 then None else free_spec v [] rs) of
       None \<Rightarrow> r = -1 \<and> rs1 = rs | Some rs' \<Rightarrow> rs1 = rs' \<and> (\<exists>e al. (v, e, al) \<in> set rs \<and> r = int_pages (e - v))"
    by (rule virt_free_ok [OF inv, of v]) (rule that)
  have "\<exists>st'. unmap_pages (pml4 (ctx_of ms c)) v (nat r) True (pgs ms) = Some st'"
  proof (cases "r = -1")
    case True
    then show ?thesis by simp
  next
    case nz: False
    then obtain e al where e: "(v, e, al) \<in> set rs" "r = int_pages (e - v)" using f(4) by (auto split: option.splits if_splits)
    have "v < e" "e \<le> 0x1000000000000" using tiles_bounds [OF tl e(1)] by auto
    then have "unat v + 4096 * nat r \<le> 2 ^ 48" using int_pages_le [of "e - v"] e(2) by (simp add: word_le_nat_alt word_less_nat_alt unat_sub)
    then show ?thesis using unmap_pages_ok [OF pg] by blast
  qed
  then show ?thesis using False f by (auto simp: mem_free_pages_def in_pages_def)
qed

interpretation kernel_pages: page_source kernel_taken kernel_ready kernel_page "kalloc_pages ka kf" kfree_pages
proof
  fix T ms n
  assume ok: "kernel_taken T ms" and rd: "kernel_ready n ms"
  obtain rs where rs: "ctx_ok kernel_mem_ctx rs ms" "taken rs = T" using ok by (auto simp: kernel_taken_def)
  then have tl: "tiles 0 rs 0x1000000000000" by (simp add: ctx_ok_def virt_inv_def ranges_ok_def)
  obtain v where v: "virt_alloc kernel_mem_ctx n ms = Some v" "unat v + 8192 * unat n \<le> 2 ^ 48" using rd by (auto simp: kernel_ready_def)
  obtain r ms' where r: "kalloc_pages ka kf n ms = Some (r, ms')"
    "r \<noteq> 0 \<Longrightarrow> r = v \<and> allocated kernel_mem_ctx v (unat n) (PTE_PRESENT OR PTE_WRITEABLE) ms ms' \<and>
       (\<exists>rs'. ctx_ok kernel_mem_ctx rs' ms' \<and> taken rs' = taken rs \<union> {v..<v + of_nat (unat n * 4096)} \<and> taken rs \<inter> {v..<v + of_nat (unat n * 4096)} = {})"
    using mem_alloc_pages_ok [OF rs(1) _ _ _ v, of ka kf "PTE_PRESENT OR PTE_WRITEABLE"] rd by (auto simp: kernel_ready_def kalloc_pages_def)
  have "kernel_page ms' a" if "r \<noteq> 0" "a \<in> T" "kernel_page ms a" for a
  proof -
    have "low48 a" using taken_bounds [OF tl, of a] that(2) rs(2) by (simp add: word_less_nat_alt)
    then show ?thesis using r(2) [OF that(1)] that(3) by (auto simp: allocated_def kernel_page_def mapped_def Let_def)
  qed
  then show "\<exists>v p'. kalloc_pages ka kf n ms = Some (v, p') \<and>
      (v \<noteq> 0 \<longrightarrow> kernel_taken (T \<union> {v..<v + of_nat (unat n * 4096)}) p' \<and> T \<inter> {v..<v + of_nat (unat n * 4096)} = {} \<and>
         unat v + 4096 * unat n \<le> 2 ^ 48 \<and> (\<forall>a \<in> T. kernel_page ms a \<longrightarrow> kernel_page p' a))"
    using r v(2) rs(2) by (intro exI [of _ r] exI [of _ ms']) (auto simp: kernel_taken_def)
next
  fix T ms v
  assume "kernel_taken T ms"
  then show "\<exists>p'. kfree_pages v ms = Some p'" using mem_free_pages_returns by (auto simp: kernel_taken_def kfree_pages_def)
qed

section \<open>Properties\<close>


text \<open>The kernel's tables after start-up, with a block of 5 bytes at 4 MiB.\<close>

definition start_mem :: memstate where
  "start_mem = boot_mem\<lparr>pgs := (paging_init boot_syms blank_pages)\<lparr>phys := small_machine 0x400000\<rparr>,
     ctx_of := \<lambda>_. \<lparr>pml4 = 0x100000, virtctx = two_ctx, mc_next = None, mc_prev = None\<rparr>\<rparr>"

lemma start_mem_ok: "ctx_ok c two_ranges start_mem"
proof -
  have "pg_ok (kernel_pml4 boot_syms) ((paging_init boot_syms blank_pages)\<lparr>phys := small_machine 0x400000\<rparr>)"
    by (rule paging_init_ok [OF boot_syms_ok _ small_distinct]) (use small_frames boot_tables_reserved in \<open>auto simp: blank_pages_def\<close>)
  then show ?thesis using two_inv by (simp add: ctx_ok_def start_mem_def boot_mem_def boot_syms_def)
qed

lemma start_mem_page: "unat a < 2 ^ 27 \<Longrightarrow> kernel_page start_mem a"
  using paging_init_identity [OF boot_syms_ok, of a blank_pages]
  by (simp add: kernel_page_def start_mem_def view_def leaf_def boot_syms_def)

lemma start_mem_ready: "kernel_ready 2 start_mem"
proof -
  have "virtaddr_alloc two_ctx 2 two_mem = Some 0x1000000" using virtaddr_alloc_spec [OF two_inv, of 2] by simp (code_simp)
  then have "virt_alloc kernel_mem_ctx 2 start_mem = Some 0x1000000" by (simp add: virt_alloc_def start_mem_def boot_mem_def)
  then show ?thesis using two_room pages_indexed_small by (simp add: kernel_ready_def start_mem_def)
qed


text \<open>A size within a page of the largest number wraps around to no page at all: the block then ends where its header ends.\<close>

theorem kalloc_size_wraps:
  assumes "pages_alloc 1 (kpages kh) = Some (h, p)" "h \<noteq> 0" "unat h + 16 \<le> 2 ^ 48"
  shows "\<exists>kh'. kalloc pages_alloc (- 1) kh = Some (h + PAGE_SIZE, kh') \<and> kh_len (kbytes kh') h = - 1"
proof -
  have "(- 1 + PAGE_SIZE - 1) div PAGE_SIZE = (0 :: u64)" by code_simp
  then show ?thesis using assms header_fields(1) [OF assms(3), of "- 1" KMAGIC "kbytes kh"] by (simp add: kalloc_def Let_def)
qed

end
