(* ===== verification/Start.thy ===== *)
theory Start
  imports Syscall
begin

text \<open>
  The last step of the start of the kernel (\<^verbatim>\<open>load_init\<close> in \<^verbatim>\<open>kernel/main.c\<close>): the first process is loaded and gets the processor. The file system and
  the memory contexts are the arguments \<open>ops\<close> that the system calls have too. When it returns at all, \<^verbatim>\<open>main\<close> panics.
\<close>

definition INIT_PATH :: "u8 list" where "INIT_PATH = map (\<lambda>c. of_nat (of_char c)) ''bin/init''"

text \<open>The result is \<open>None\<close> when the function returns after a warning, and else what \<open>dispatch\<close> did. Closing a file that was not
  opened is an access through a null pointer.\<close>

definition load_init :: "('m, 'b) sys_ops_scheme \<Rightarrow> u64 \<Rightarrow> ('m, 'a) ukernel_scheme \<Rightarrow> (bool option \<times> ('m, 'a) ukernel_scheme) option" where
  "load_init ops init_vector st =
     (let (e, pp, st) = pcb_alloc st;
          st = (case pp of None \<Rightarrow> st | Some p \<Rightarrow> st\<lparr>init_pcb := Some p\<rparr>)
      in if e \<noteq> 0 then Some (None, st)
         else case op_root_fs ops (memory st) of
           None \<Rightarrow> Some (None, st)
         | Some fs \<Rightarrow> do {
             (e, file, m) \<leftarrow> op_open ops fs INIT_PATH 2 (memory st);
             let st = st\<lparr>memory := m\<rparr>;
             (if e \<noteq> 0 then Some (None, st)
              else do {
                (e, st) \<leftarrow> user_load ops (init_pcb st) (case file of None \<Rightarrow> 0 | Some f \<Rightarrow> f) init_vector (Some KernelCtx) st;
                f \<leftarrow> file;
                let st = st\<lparr>memory := op_fclose ops f (memory st)\<rparr>;
                (if e \<noteq> 0 then Some (None, st)
                 else do {
                   st \<leftarrow> schedule (init_pcb st) st;
                   (b, st) \<leftarrow> dispatch ops st;
                   Some (Some b, st)
                 })
              })
           })"

lemma dispatch_keeps: "dispatch ops st = Some (b, st') \<Longrightarrow> pid (ptable st' x) = pid (ptable st x) \<and> init_pcb st' = init_pcb st"
  by (auto simp: dispatch_def kq_pop_def pcb_queue_pop_def set_next_apply Let_def split: if_splits option.splits prod.splits)

lemma getq_init [simp]: "getq q (st\<lparr>init_pcb := i\<rparr>) = getq q st"
  by (cases q) simp_all

lemma proc_inv_init: "proc_inv X st L \<Longrightarrow> proc_inv X (st\<lparr>init_pcb := i, memory := m\<rparr>) L"
  by (simp add: proc_inv_def qlinks_def ordered_def members_def placed_def)

text \<open>After \<open>pcb_init\<close>, when the program \<^verbatim>\<open>bin/init\<close> is found and can be loaded, the first process gets the first block and the first process id, and is the
  one that runs; the invariant of the process table holds.\<close>

theorem load_init_runs_init:
  assumes z: "zeroed st" and i: "pcb_init st = Some st0" and a: "pcb_alloc st0 = (SUCCESS, Some 0, st1)"
    and o: "op_root_fs ops (memory st1) = Some fs" "op_open ops fs INIT_PATH 2 (memory st1) = Some (0, Some f, m)"
    and l: "user_load ops (Some 0) f init_vector (Some KernelCtx) (st1\<lparr>init_pcb := Some 0, memory := m\<rparr>) = Some (0, st2)"
  shows "\<exists>st'. load_init ops init_vector st0 = Some (Some True, st') \<and> current_pcb st' = Some 0 \<and> init_pcb st' = Some 0 \<and>
    pid (ptable st' 0) = next_pid st \<and> pstate (ptable st' 0) = PROC_STATE_RUNNING \<and>
    program_of (ptable st' 0) = program_of (ptable st2 0) \<and> proc_inv {} st' ((\<lambda>_. [])(QFree := [1..<N_PROCS]))"
proof -
  let ?L = "(\<lambda>_. [])(QFree := [1..<N_PROCS])"
  have free: "[0..<N_PROCS] = 0 # [1..<N_PROCS]" by (simp add: upt_conv_Cons N_PROCS_def)
  have inv0: "proc_inv {} st0 ((\<lambda>_. [])(QFree := [0..<N_PROCS]))" "current_pcb st0 = None" "next_pid st0 = next_pid st"
    using pcb_init_inv [OF z] i by auto
  obtain s1 t1 where s1: "pcb_alloc st0 = (SUCCESS, Some 0, s1)" "relinked st0 t1"
    "s1 = upd_pcb 0 (\<lambda>b. b\<lparr>pid := next_pid st0, pstate := PROC_STATE_NEW\<rparr>) (t1\<lparr>next_pid := next_pid st0 + 1\<rparr>)"
    "proc_inv ({} - {0}) s1 (((\<lambda>_. [])(QFree := [0..<N_PROCS]))(QFree := [1..<N_PROCS]))"
    "unqueued 0 (((\<lambda>_. [])(QFree := [0..<N_PROCS]))(QFree := [1..<N_PROCS]))"
    by (rule pcb_alloc_inv [OF inv0(1), of 0 "[1..<N_PROCS]"]) (use free inv0(2) in auto)
  have [simp]: "s1 = st1" using s1(1) a by simp
  have inv1: "proc_inv {} st1 ?L" and un: "unqueued 0 ?L" using s1(4,5) by (simp_all add: fun_upd_upd)
  let ?st1 = "st1\<lparr>init_pcb := Some 0, memory := m\<rparr>"
  let ?st2 = "st2\<lparr>memory := op_fclose ops f (memory st2)\<rparr>"
  have fr: "framed 0 ?st1 ?st2" by (rule framed_trans [OF framed_user_load [OF l] framed_memory])
  have inv2: "proc_inv {} ?st2 ?L" by (rule proc_inv_framed [OF proc_inv_init [OF inv1] un fr])
  have f1: "pid (ptable st1 0) = next_pid st" "pstate (ptable st1 0) = PROC_STATE_NEW" "current_pcb st1 = None"
    using s1(2,3) inv0(2,3) by (simp_all add: relinked_def)
  then have f2: "pid (ptable ?st2 0) = next_pid st" "pstate (ptable ?st2 0) = PROC_STATE_NEW" "current_pcb ?st2 = None" "init_pcb ?st2 = Some 0"
    using fr by (simp_all add: framed_def calm_def)
  have "0 < N_PROCS" "pstate (ptable ?st2 0) \<noteq> PROC_STATE_UNUSED" "pstate (ptable ?st2 0) \<noteq> PROC_STATE_ZOMBIE" using f2(2) by (simp_all add: N_PROCS_def)
  then obtain st3 where st3: "schedule (Some 0) ?st2 = Some st3"
    "relinked (upd_pcb 0 (\<lambda>b. b\<lparr>pstate := PROC_STATE_READY, psyscall := 0\<rparr>) ?st2) st3"
    "proc_inv (insert 0 {}) st3 (?L(QReady := insert_after (by_prio ?st2) 0 (?L QReady)))"
    by (rule schedule_inv [OF inv2 un])
  have f3: "current_pcb st3 = None" "init_pcb st3 = Some 0" "pid (ptable st3 0) = next_pid st"
    using st3(2) f2 same_but_next_fields [of "ptable (upd_pcb 0 (\<lambda>b. b\<lparr>pstate := PROC_STATE_READY, psyscall := 0\<rparr>) ?st2)" "ptable st3" 0]
    by (simp_all add: relinked_def)
  have "proc_inv ({} - {0}) st3 (?L(QReady := insert_after (by_prio ?st2) 0 (?L QReady)))"
    by (rule schedule_release [OF st3(3) _ st3(2)]) (simp add: f3(1))
  then have inv3: "proc_inv {} st3 (?L(QReady := [0]))" by (simp add: insert_after_def)
  obtain st' where st': "dispatch ops st3 = Some (True, st')" "current_pcb st' = Some 0" "pstate (ptable st' 0) = PROC_STATE_RUNNING"
    "proc_inv ({} - {0}) st' ((?L(QReady := [0]))(QReady := []))"
    by (rule dispatch_inv [OF inv3 _ f3(1), of 0 "[]"]) simp_all
  have pr: "program_of (ptable st' 0) = program_of (ptable st2 0)"
    using dispatch_program [OF st'(1), of 0] relinked_program [OF st3(2), of 0] by (simp add: program_of_def)
  have ld: "load_init ops init_vector st0 = Some (Some True, st')"
    using a o l st3(1) st'(1) f2(4) by (simp add: load_init_def Let_def SUCCESS_def)
  have "(?L(QReady := [0]))(QReady := []) = ?L" by (rule ext) simp
  then have inv4: "proc_inv {} st' ?L" using st'(4) by simp
  have "pid (ptable st' 0) = next_pid st" "init_pcb st' = Some 0" using dispatch_keeps [OF st'(1), of 0] f3(2,3) by simp_all
  then show ?thesis using ld pr inv4 st'(2,3) by (intro exI [of _ st'] conjI)
qed

end
