(* ===== verification/Spec2Isabelle.thy ===== *)
theory Spec2Isabelle
  imports Syscall Loader Memory Kprintf Ps2 Clock Ata Malloc Cpu Acpi Boot Stdio Kheap Start
begin

text \<open>
  A verification development for Comus, a small multi-process kernel for x86-64 written in C
  (\<^verbatim>\<open>src/kernel\<close>). Every definition translates a function, a structure or a loop of the source; the theorems say what
  the translated code does.

  \<^bold>\<open>The parts of the kernel and their theories.\<close>

  \<^item> \<open>Prelude\<close>: word types, error codes, linked lists in a store of links (\<open>seg\<close>, \<open>chain\<close>), stable insertion, facts on
    machine words that several components share.
  \<^item> \<open>Input\<close> (\<^verbatim>\<open>input.c\<close>): the ring buffers of key codes and mouse events, refining a bounded queue that drops its
    oldest element.
  \<^item> \<open>Pcb\<close>, \<open>PcbQueue\<close> (\<^verbatim>\<open>include/comus/procs.h\<close>, the queues of \<^verbatim>\<open>procs.c\<close>): process control blocks in an explicit store,
    and the four queue orders. The abstract queue is a list; insertion refines stable sorted insertion.
  \<^item> \<open>Procs\<close> (\<^verbatim>\<open>procs.c\<close>): the process table, the scheduler, the clock tick, zombies and their parents.
  \<^item> \<open>Physalloc\<close> (\<^verbatim>\<open>memory/physalloc.c\<close>): the bitmap of physical pages, with the C promotion of the shifted constant 1
    written out.
  \<^item> \<open>Virtalloc\<close> (\<^verbatim>\<open>memory/virtalloc.c\<close>): ranges of virtual addresses in a doubly linked list of nodes, refining a list of
    ranges that tile the address space.
  \<^item> \<open>Paging\<close> (\<^verbatim>\<open>memory/paging.c\<close>): four levels of page tables in physical memory, reached through windows. The
    abstract state of a directory is its \<open>view\<close>, the partial function from virtual pages to frames and flags.
  \<^item> \<open>Memory\<close> (\<^verbatim>\<open>memory/memory.c\<close> and the end of \<^verbatim>\<open>memory/paging.c\<close>): memory contexts, which combine the three.
  \<^item> \<open>Klib\<close> (\<^verbatim>\<open>lib\<close>): memory blocks, strings, number conversion. \<open>Kprintf\<close> (\<^verbatim>\<open>lib/kprintf.c\<close>): formatted output.
  \<^item> \<open>User\<close> (\<^verbatim>\<open>user.c\<close>): loading and cloning of user programs. \<open>Fs\<close> (\<^verbatim>\<open>fs.c\<close>): disks and the table of file systems.
    \<open>Tar\<close> (\<^verbatim>\<open>fs/tar.c\<close>): the tar file system. \<open>Loader\<close>: the loader running on the tar file system.
  \<^item> \<open>Syscall\<close> (\<^verbatim>\<open>syscall.c\<close>): the handlers of all system calls, their table and the entry.
  \<^item> \<open>Ports\<close>: the port instructions of the processor, as functions on the state of the devices behind them. The drivers take them
    as an argument: \<open>Ps2\<close> (\<^verbatim>\<open>drivers/ps2.c\<close>), \<open>Pci\<close> (\<^verbatim>\<open>drivers/pci.c\<close>), \<open>Clock\<close> (\<^verbatim>\<open>drivers/clock.c\<close>) and \<open>Ata\<close>
    (\<^verbatim>\<open>drivers/ata.c\<close>).
  \<^item> \<open>Gpu\<close> (\<^verbatim>\<open>drivers/gpu.c\<close>, \<^verbatim>\<open>drivers/gpu\<close>), \<open>Term\<close> (\<^verbatim>\<open>term.c\<close>), \<open>Console\<close> (\<^verbatim>\<open>drivers/uart.c\<close>, \<^verbatim>\<open>kputc\<close> and
    \<^verbatim>\<open>kputs\<close>): characters drawn as pixels, the terminal that scrolls them, and the output of the kernel to it and to the serial port.

  \<^bold>\<open>How the code is modelled.\<close> Integers keep their width (\<open>u8\<close> to \<open>u64\<close>) and wrap. A structure is a record, memory that
  the code shares through pointers is a function from addresses to records. An operation takes the state and returns
  \<open>Some\<close> of its result and the new state; \<open>None\<close> is a panic, a failed assertion or an access through a bad pointer. Loops are
  recursive functions over what remains to do; the searches through linked lists, which need not end when a list is broken, are
  \<open>partial_function\<close>s, and the theorems about them show that they return on well-formed lists. Code outside a component is
  an argument of its definitions: the heap of the address allocator, the memory manager of the process
  table, the disk driver of the file system, terminal and clock of the system calls.

  \<^bold>\<open>Interfaces.\<close> The queue of the scheduler, the source of single pages, the pool of contexts and the other contracts between
  components are locales, interpreted on the definitions of the component that provides them.

  \<^bold>\<open>What the theorems show.\<close> Queues: contents, order and integrity. Processes: a tick wakes the sleepers whose time has come
  and preempts, the end of a process notifies its parent and hands on its children. Pages: allocated blocks
  never overlap and freeing gives back the state from before. Addresses: what is proposed can be taken, nothing is taken twice.
  Page tables: mapping installs exactly the requested pages and touches no other directory, a new
  directory shares no table with any other, the kernel's tables are an identity map. Contexts: an allocation gives
  addresses and pages nobody had, and no context is handed out twice. Files: what an archive holds is what a program
  reads. System calls: fork, exec, exit, sleep and the others change what they should and nothing else. Devices: the driver of the
  keyboard decodes what the keyboard sends, the scan of the bus finds the devices that are there, sectors written to a drive are
  read back, the terminal shows what an abstract screen shows. Where the code does
  something else than it means to, the theorem states what it does.

  \<^bold>\<open>Not modelled.\<close> The timer and the interrupt controller, the tables the processor reads (descriptors, interrupts), the parsers of
  the structures that the firmware and the boot loader leave, assembly, and the user programs. The C library of the
  user programs has the same sources as the kernel's.
\<close>

end
